(* ===== verification/Sc_Prelude.thy ===== *)
theory Sc_Prelude
  imports Main "HOL-Library.Word"
begin

text \<open>
  Shared vocabulary of the development: the machine types of the C code, the result codes,
  byte buffers with the two C idioms that touch them (a read of \<open>n\<close> bytes at an offset, a
  \<open>memcpy\<close> of bytes to an offset), and the generic list and word lemmas that the component
  theories use through the simplifier and through the collection \<open>buf_simps\<close>.
\<close>

unbundle bit_operations_syntax

named_theorems buf_simps

section \<open>Machine types and result codes\<close>

type_synonym byte = "8 word"
type_synonym u32 = "32 word"
type_synonym u64 = "64 word"

text \<open>The result codes of \<open>sqlite.h.in\<close> that the modelled code returns.\<close>

abbreviation (input) SQLITE_OK :: int where "SQLITE_OK \<equiv> 0"
abbreviation (input) SQLITE_ERROR :: int where "SQLITE_ERROR \<equiv> 1"
abbreviation (input) SQLITE_NOMEM :: int where "SQLITE_NOMEM \<equiv> 7"
abbreviation (input) SQLITE_MISUSE :: int where "SQLITE_MISUSE \<equiv> 21"

section \<open>Byte buffers\<close>

text \<open>\<open>buf_read off n b\<close> is the \<open>n\<close> bytes of \<open>b\<close> from \<open>off\<close>; \<open>buf_write off s b\<close> is \<open>b\<close> after
  \<open>memcpy (b + off, s, length s)\<close>.\<close>

definition buf_read :: "nat \<Rightarrow> nat \<Rightarrow> 'a list \<Rightarrow> 'a list" where
  "buf_read off n b = take n (drop off b)"

definition buf_write :: "nat \<Rightarrow> 'a list \<Rightarrow> 'a list \<Rightarrow> 'a list" where
  "buf_write off s b = take off b @ s @ drop (off + length s) b"

lemma length_buf_write [simp]:
  "off + length s \<le> length b \<Longrightarrow> length (buf_write off s b) = length b"
  by (simp add: buf_write_def)

lemma length_buf_read [simp]:
  "off + n \<le> length b \<Longrightarrow> length (buf_read off n b) = n"
  by (simp add: buf_read_def)

lemma buf_read_write_same [buf_simps]:
  "off + length s \<le> length b \<Longrightarrow> n = length s \<Longrightarrow> buf_read off n (buf_write off s b) = s"
  by (simp add: buf_write_def buf_read_def)

lemma buf_read_write_before [buf_simps]:
  "o1 + n \<le> off \<Longrightarrow> off + length s \<le> length b \<Longrightarrow>
    buf_read o1 n (buf_write off s b) = buf_read o1 n b"
  by (simp add: buf_write_def buf_read_def take_drop min_def)

lemma buf_read_write_after [buf_simps]:
  "off + length s \<le> o1 \<Longrightarrow> off + length s \<le> length b \<Longrightarrow>
    buf_read o1 n (buf_write off s b) = buf_read o1 n b"
  by (simp add: buf_write_def buf_read_def)

lemma buf_write_full [buf_simps]:
  "length s = length b \<Longrightarrow> buf_write 0 s b = s"
  by (simp add: buf_write_def)

lemma buf_read_all [buf_simps]: "n = length b \<Longrightarrow> buf_read 0 n b = b"
  by (simp add: buf_read_def)

lemma buf_read_split:
  "off + n + m \<le> length b \<Longrightarrow> buf_read off (n + m) b = buf_read off n b @ buf_read (off + n) m b"
  by (simp add: buf_read_def take_add) (simp add: add.commute)

section \<open>Words\<close>

lemma unat_less_pow: "unat (w :: 'a::len word) < 2 ^ LENGTH('a)"
  by (rule unsigned_less)

lemma word_eq_of_nat_unat: "(w :: 'a::len word) = word_of_nat (unat w)"
  by simp

lemma byte_unat_less [simp]: "unat (b :: byte) < 256"
  using unat_less_pow [of b] by simp

lemma word_or_eq_0_iff [simp]: "(a OR b = 0) \<longleftrightarrow> a = 0 \<and> b = 0" for a b :: "'a::len word"
  by (auto simp: bit_eq_iff bit_simps)

lemma word_xor_eq_0_iff [simp]: "(a XOR b = 0) \<longleftrightarrow> a = b" for a b :: "'a::len word"
  by (metis xor.left_neutral xor.right_neutral xor_self_eq xor.assoc)

lemma word_xor_xor_cancel [simp]: "(a XOR b) XOR b = a" for a b :: "'a::len word"
  by (simp add: xor.assoc)

lemma unat_drop_bit: "unat (drop_bit n w) = unat w div 2 ^ n" for w :: "'a::len word"
  by (subst unat_drop_bit_eq) (rule drop_bit_eq_div)

lemma unat_drop_bit_less:
  fixes w :: "'a::len word"
  assumes "drop_bit n w \<noteq> 0" and "0 < n"
  shows "unat (drop_bit n w) < unat w"
proof -
  have "w \<noteq> 0" using assms(1) by auto
  then have "0 < unat w" by (simp add: unat_gt_0)
  moreover have "(1 :: nat) < 2 ^ n" using assms(2) by (intro one_less_power) simp_all
  ultimately show ?thesis by (simp only: unat_drop_bit) (rule div_less_dividend)
qed

lemma sint_byte_nonneg: "0 \<le> sint b \<longleftrightarrow> \<not> bit b 7" for b :: byte
  using bit_last_iff [of b] by (simp add: not_less [symmetric])

lemma bit_byte_high: "8 \<le> n \<Longrightarrow> \<not> bit (b :: byte) n"
  using bit_imp_le_length [of b n] by auto

lemma bit_u32_high: "32 \<le> n \<Longrightarrow> \<not> bit (w :: u32) n"
  using bit_imp_le_length [of w n] by auto

lemma bit_u64_high: "64 \<le> n \<Longrightarrow> \<not> bit (w :: u64) n"
  using bit_imp_le_length [of w n] by auto

text \<open>Equality of two 64-bit words, bit by bit at explicit positions, so that the simplifier
  evaluates shifts and literal masks.\<close>

lemma u64_eq_by_bits:
  fixes v w :: u64
  assumes "list_all (\<lambda>n. bit v n = bit w n)
    [0, 1, 2, 3, 4, 5, 6, 7, 8, 9, 10, 11, 12, 13, 14, 15, 16, 17, 18, 19, 20, 21, 22, 23, 24, 25, 26, 27,
     28, 29, 30, 31, 32, 33, 34, 35, 36, 37, 38, 39, 40, 41, 42, 43, 44, 45, 46, 47, 48, 49, 50, 51, 52,
     53, 54, 55, 56, 57, 58, 59, 60, 61, 62, 63]"
  shows "v = w"
proof (rule bit_word_eqI)
  fix n assume "n < LENGTH(64)"
  then have "n \<in> set [0..<64]" by simp
  moreover have "[0..<64] = [0, 1, 2, 3, 4, 5, 6, 7, 8, 9, 10, 11, 12, 13, 14, 15, 16, 17, 18, 19, 20, 21,
     22, 23, 24, 25, 26, 27, 28, 29, 30, 31, 32, 33, 34, 35, 36, 37, 38, 39, 40, 41, 42, 43, 44, 45, 46,
     47, 48, 49, 50, 51, 52, 53, 54, 55, 56, 57, 58, 59, 60, 61, 62, 63 :: nat]"
    by (simp add: upt_rec)
  ultimately show "bit v n = bit w n" using assms by (simp only: list_all_iff)
qed

lemma u32_eq_by_bits:
  fixes v w :: u32
  assumes "list_all (\<lambda>n. bit v n = bit w n)
    [0, 1, 2, 3, 4, 5, 6, 7, 8, 9, 10, 11, 12, 13, 14, 15, 16, 17, 18, 19, 20, 21, 22, 23, 24, 25, 26, 27,
     28, 29, 30, 31]"
  shows "v = w"
proof (rule bit_word_eqI)
  fix n assume "n < LENGTH(32)"
  then have "n \<in> set [0..<32]" by simp
  moreover have "[0..<32] = [0, 1, 2, 3, 4, 5, 6, 7, 8, 9, 10, 11, 12, 13, 14, 15, 16, 17, 18, 19, 20, 21,
     22, 23, 24, 25, 26, 27, 28, 29, 30, 31 :: nat]"
    by (simp add: upt_rec)
  ultimately show "bit v n = bit w n" using assms by (simp only: list_all_iff)
qed

lemma byte_eq_by_bits:
  fixes v w :: byte
  assumes "list_all (\<lambda>n. bit v n = bit w n) [0, 1, 2, 3, 4, 5, 6, 7]"
  shows "v = w"
proof (rule bit_word_eqI)
  fix n assume "n < LENGTH(8)"
  then have "n \<in> set [0, 1, 2, 3, 4, 5, 6, 7 :: nat]" by auto
  then show "bit v n = bit w n" using assms by (simp only: list_all_iff)
qed

end
