(* ===== verification/Cipher_Util.thy ===== *)
theory Cipher_Util
  imports Sc_Prelude
begin

text \<open>
  The stateless helpers at the top of \<open>src/sqlcipher.c\<close>: the xoshiro256++ generator used to
  overwrite memory, the hexadecimal conversions of key material, the constant-time memory
  primitives, the shield that keeps keys masked while they are not in use, and the
  little-endian page number. Buffers are byte lists; a pointer that the C code advances is an
  index. \<open>char\<close> and \<open>unsigned char\<close> are both bytes, since no byte above 127 is a hex digit.
\<close>

section \<open>Definitions\<close>

subsection \<open>xoshiro256++\<close>

record xoshiro =
  xs0 :: u64
  xs1 :: u64
  xs2 :: u64
  xs3 :: u64

definition xoshiro_rotl :: "u64 \<Rightarrow> nat \<Rightarrow> u64" where
  "xoshiro_rotl x k = (push_bit k x) OR (drop_bit (64 - k) x)"

definition xoshiro_next :: "xoshiro \<Rightarrow> u64 \<times> xoshiro" where
  "xoshiro_next s =
     (let result = xoshiro_rotl (xs0 s + xs3 s) 23 + xs0 s;
          t = push_bit 17 (xs1 s);
          s = s\<lparr>xs2 := xs2 s XOR xs0 s\<rparr>;
          s = s\<lparr>xs3 := xs3 s XOR xs1 s\<rparr>;
          s = s\<lparr>xs1 := xs1 s XOR xs2 s\<rparr>;
          s = s\<lparr>xs0 := xs0 s XOR xs3 s\<rparr>;
          s = s\<lparr>xs2 := xs2 s XOR t\<rparr>;
          s = s\<lparr>xs3 := xoshiro_rotl (xs3 s) 45\<rparr>
      in (result, s))"

text \<open>The bytes of a 64-bit value in memory, as \<open>memcpy\<close> from \<open>&val\<close> sees them on the
  little-endian hosts the model is for.\<close>

definition u64_bytes_le :: "u64 \<Rightarrow> byte list" where
  "u64_bytes_le w = map (\<lambda>i. ucast (drop_bit (8 * i) w)) [0..<8]"

function xoshiro_randomness :: "xoshiro \<Rightarrow> nat \<Rightarrow> byte list \<times> xoshiro" where
  "xoshiro_randomness s sz =
     (if 0 < sz then
        let (val, s') = xoshiro_next s;
            to_copy = (if 8 \<le> sz then 8 else sz);
            (rest, s'') = xoshiro_randomness s' (sz - to_copy)
        in (take to_copy (u64_bytes_le val) @ rest, s'')
      else ([], s))"
  by pat_completeness auto
termination
  by (relation "measure snd") auto

declare xoshiro_randomness.simps [simp del]

subsection \<open>Hexadecimal key material\<close>

definition cipher_hex2int :: "byte \<Rightarrow> byte" where
  "cipher_hex2int c =
     (if 0x30 \<le> c \<and> c \<le> 0x39 then c - 0x30
      else if 0x41 \<le> c \<and> c \<le> 0x46 then c - 0x41 + 10
      else if 0x61 \<le> c \<and> c \<le> 0x66 then c - 0x61 + 10
      else 0)"

definition cipher_hex2bin :: "byte list \<Rightarrow> nat \<Rightarrow> byte list" where
  "cipher_hex2bin hex sz =
     map (\<lambda>k. push_bit 4 (cipher_hex2int (hex ! (2 * k))) OR cipher_hex2int (hex ! (2 * k + 1)))
       [0..<(sz + 1) div 2]"

text \<open>One digit of \<open>%02x\<close>, and the two digits of one byte.\<close>

definition hex_digit :: "byte \<Rightarrow> byte" where
  "hex_digit n = (if n < 10 then 0x30 + n else 0x61 + (n - 10))"

definition hex_of_byte :: "byte \<Rightarrow> byte list" where
  "hex_of_byte b = [hex_digit (drop_bit 4 b), hex_digit (b AND 15)]"

text \<open>Each \<open>sqlite3_snprintf\<close> call is limited to 3 bytes: two digits and the terminating NUL,
  which the next call overwrites. The digits of the first \<open>sz\<close> bytes land at \<open>off\<close>, followed by
  one NUL (none at all when \<open>sz\<close> is 0).\<close>

definition cipher_bin2hex :: "byte list \<Rightarrow> nat \<Rightarrow> nat \<Rightarrow> byte list \<Rightarrow> byte list" where
  "cipher_bin2hex inp sz off out =
     (if sz = 0 then out
      else buf_write off (concat (map hex_of_byte (take sz inp)) @ [0]) out)"

definition is_hex_char :: "byte \<Rightarrow> bool" where
  "is_hex_char c \<longleftrightarrow>
     \<not> ((c < 0x30 \<or> 0x39 < c) \<and> (c < 0x41 \<or> 0x46 < c) \<and> (c < 0x61 \<or> 0x66 < c))"

definition cipher_isHex :: "byte list \<Rightarrow> nat \<Rightarrow> bool" where
  "cipher_isHex hex sz = list_all is_hex_char (take sz hex)"

subsection \<open>Memory primitives\<close>

definition sqlcipher_shield :: "byte list \<Rightarrow> byte list \<Rightarrow> nat \<Rightarrow> byte list" where
  "sqlcipher_shield msk inp sz =
     map (\<lambda>i. if i < sz then inp ! i XOR msk ! (i mod length msk) else inp ! i)
       [0..<length inp]"

definition sqlcipher_memset :: "byte list \<Rightarrow> byte \<Rightarrow> nat \<Rightarrow> byte list" where
  "sqlcipher_memset v value len = replicate len value @ drop len v"

definition sqlcipher_ismemset :: "byte list \<Rightarrow> byte \<Rightarrow> nat \<Rightarrow> int" where
  "sqlcipher_ismemset a value len =
     (if foldl (\<lambda>result i. result OR (a ! i XOR value)) 0 [0..<len] \<noteq> 0 then 1 else 0)"

definition sqlcipher_memcmp :: "byte list \<Rightarrow> byte list \<Rightarrow> nat \<Rightarrow> int" where
  "sqlcipher_memcmp a0 a1 len =
     (if foldl (\<lambda>result i. result OR (a0 ! i XOR a1 ! i)) 0 [0..<len] \<noteq> 0 then 1 else 0)"

definition sqlcipher_put4byte_le :: "u32 \<Rightarrow> byte list" where
  "sqlcipher_put4byte_le v =
     [ucast v, ucast (drop_bit 8 v), ucast (drop_bit 16 v), ucast (drop_bit 24 v)]"

section \<open>Lemmas\<close>

subsection \<open>xoshiro\<close>

lemma length_u64_bytes_le [simp]: "length (u64_bytes_le w) = 8"
  by (simp add: u64_bytes_le_def)

lemma length_xoshiro_randomness [simp]: "length (fst (xoshiro_randomness s sz)) = sz"
proof (induction s sz rule: xoshiro_randomness.induct)
  case (1 s sz)
  show ?case
  proof (cases "0 < sz")
    case True
    obtain val s' where n: "xoshiro_next s = (val, s')" by (cases "xoshiro_next s")
    let ?c = "if 8 \<le> sz then 8 else sz"
    obtain rest s'' where r: "xoshiro_randomness s' (sz - ?c) = (rest, s'')"
      by (cases "xoshiro_randomness s' (sz - ?c)")
    have "length (fst (xoshiro_randomness s' (sz - ?c))) = sz - ?c"
      by (rule 1 [OF True n [symmetric] refl refl])
    then have "length rest = sz - ?c" by (simp only: r fst_conv)
    then show ?thesis
      by (subst xoshiro_randomness.simps) (use True r in \<open>simp add: n Let_def\<close>)
  next
    case False
    then show ?thesis by (subst xoshiro_randomness.simps) simp
  qed
qed

subsection \<open>Hexadecimal\<close>

lemma hex_digit_hex2int:
  fixes n :: byte
  assumes "n < 16"
  shows "cipher_hex2int (hex_digit n) = n" "is_hex_char (hex_digit n)"
proof -
  have "unat n < 16" using assms by (simp add: word_less_nat_alt)
  then have "n \<in> set (map word_of_nat [0..<16])"
    by (auto simp: image_iff intro!: bexI [of _ "unat n"])
  then have all: "n \<in> {0,1,2,3,4,5,6,7,8,9,10,11,12,13,14,15}" by (simp add: upt_rec)
  then show "cipher_hex2int (hex_digit n) = n" "is_hex_char (hex_digit n)"
    by (elim insertE emptyE; simp add: cipher_hex2int_def hex_digit_def is_hex_char_def)+
qed

lemma byte_high_nibble_less: "drop_bit 4 (b :: byte) < 16"
proof -
  have "unat b div 16 < 16" using byte_unat_less [of b] by linarith
  then show ?thesis by (simp add: word_less_nat_alt drop_bit_eq_div unat_div)
qed

lemma byte_low_nibble_less: "(b :: byte) AND 15 < 16"
  using word_and_le1 [of b 15] by (rule order.strict_trans1) simp

lemma byte_nibbles: "push_bit 4 (drop_bit 4 b) OR (b AND 15) = (b :: byte)"
proof (rule bit_eqI)
  fix n assume "possible_bit TYPE(byte) n"
  then have n: "n < 8" by simp
  have "bit (15 :: byte) n \<longleftrightarrow> n < 4"
    using n by (auto simp: less_Suc_eq numeral_eq_Suc)
  then show "bit (push_bit 4 (drop_bit 4 b) OR (b AND 15)) n = bit b n"
    using n by (auto simp: bit_simps)
qed

lemma length_concat_hex: "length (concat (map hex_of_byte bs)) = 2 * length bs"
  by (induction bs) (auto simp: hex_of_byte_def)

lemma nth_concat_hex:
  "k < length bs \<Longrightarrow> concat (map hex_of_byte bs) ! (2 * k) = hex_digit (drop_bit 4 (bs ! k))"
  "k < length bs \<Longrightarrow> concat (map hex_of_byte bs) ! (2 * k + 1) = hex_digit (bs ! k AND 15)"
proof (induction bs arbitrary: k)
  case (Cons b bs)
  { case 1 with Cons.IH(1) [of "k - 1"] show ?case
      by (cases k) (auto simp: hex_of_byte_def) }
  { case 2 with Cons.IH(2) [of "k - 1"] show ?case
      by (cases k) (auto simp: hex_of_byte_def) }
qed simp_all

lemma hex2bin_concat_hex:
  "n = 2 * length bs \<Longrightarrow> cipher_hex2bin (concat (map hex_of_byte bs) @ rest) n = bs"
  by (rule nth_equalityI)
     (simp_all add: cipher_hex2bin_def nth_append length_concat_hex nth_concat_hex
        hex_digit_hex2int byte_high_nibble_less byte_low_nibble_less byte_nibbles
        nth_concat_hex(2) [unfolded Suc_eq_plus1 [symmetric]])

lemma isHex_concat_hex: "list_all is_hex_char (concat (map hex_of_byte bs))"
  by (induction bs)
     (auto simp: hex_of_byte_def hex_digit_hex2int byte_high_nibble_less byte_low_nibble_less)

lemma length_hex2bin [simp]: "length (cipher_hex2bin hex sz) = (sz + 1) div 2"
  by (simp add: cipher_hex2bin_def)

subsection \<open>Memory primitives\<close>

lemma length_shield [simp]: "length (sqlcipher_shield msk b sz) = length b"
  by (simp add: sqlcipher_shield_def)

lemma shield_shield [simp]: "sqlcipher_shield msk (sqlcipher_shield msk b sz) sz = b"
  by (rule nth_equalityI) (simp_all add: sqlcipher_shield_def)

lemma length_memset [simp]: "len \<le> length v \<Longrightarrow> length (sqlcipher_memset v value len) = length v"
  by (simp add: sqlcipher_memset_def)

lemma foldl_or_eq_0:
  "(foldl (\<lambda>r i. r OR f i) r0 is = (0 :: 'a::len word)) \<longleftrightarrow> r0 = 0 \<and> (\<forall>i \<in> set is. f i = 0)"
  by (induction "is" arbitrary: r0) auto

lemma memcmp_eq_0_iff:
  assumes "len \<le> length a" "len \<le> length b"
  shows "sqlcipher_memcmp a b len = 0 \<longleftrightarrow> take len a = take len b"
  using assms by (simp add: sqlcipher_memcmp_def foldl_or_eq_0 list_eq_iff_nth_eq) auto

lemma memcmp_range: "sqlcipher_memcmp a b len \<in> {0, 1}"
  by (simp add: sqlcipher_memcmp_def)

lemma ismemset_eq_0_iff:
  assumes "len \<le> length a"
  shows "sqlcipher_ismemset a v len = 0 \<longleftrightarrow> take len a = replicate len v"
  using assms by (simp add: sqlcipher_ismemset_def foldl_or_eq_0 list_eq_iff_nth_eq) auto

lemma length_put4byte_le [simp]: "length (sqlcipher_put4byte_le v) = 4"
  by (simp add: sqlcipher_put4byte_le_def)

section \<open>Properties\<close>

text \<open>Hexadecimal key material round-trips: the text \<open>cipher_bin2hex\<close> writes for a byte string
  is hexadecimal and \<open>cipher_hex2bin\<close> reads the same bytes back, wherever in a large enough
  buffer it was written.\<close>

theorem hex_roundtrip:
  assumes "off + 2 * length bs < length out"
  shows "cipher_hex2bin (drop off (cipher_bin2hex bs (length bs) off out)) (2 * length bs) = bs
    \<and> cipher_isHex (drop off (cipher_bin2hex bs (length bs) off out)) (2 * length bs)"
proof (cases "bs = []")
  case True
  then show ?thesis by (simp add: cipher_hex2bin_def cipher_isHex_def)
next
  case False
  then show ?thesis using assms
    by (simp add: cipher_bin2hex_def buf_write_def hex2bin_concat_hex cipher_isHex_def
        isHex_concat_hex length_concat_hex)
qed

theorem hex_roundtrip_witness:
  "cipher_hex2bin (drop 2 (cipher_bin2hex [0x9f, 0x03] (Suc (Suc 0)) 2 (replicate 8 0))) 4
     = [0x9f, 0x03]"
  using hex_roundtrip [of 2 "[0x9f, 0x03]" "replicate 8 0"] by simp

end
