(* ===== verification/Private_Heap.thy ===== *)
theory Private_Heap
  imports Cipher_Util
begin

text \<open>
  SQLCipher's private heap (\<open>src/sqlcipher.c\<close>): a first-fit allocator over one locked region, with
  headers threaded into a list in address order, blocks split on allocation and merged with
  their free neighbours on release, and a fallback to \<open>sqlite3_malloc\<close> when nothing fits.

  A header is a record \<open>private_block\<close>; \<open>b_addr\<close> is the address of the header itself and the list
  order is the order of the \<open>next\<close> pointers, so a NULL heap is the empty list. \<open>heap_mem\<close> is what
  the allocator itself writes to data memory (zeroes on allocation, random bytes on release).
  \<open>u32\<close> and \<open>size_t\<close> fields are naturals with their wrap-around written out; the sizes are those
  of a 64-bit build (\<open>sizeof(private_block)\<close> is 16). Mutexes only serialise the calls and do not
  appear; \<open>mlock\<close> and \<open>munlock\<close> have no effect the code observes. The platform allocator behind
  \<open>sqlite3Malloc\<close> is the parameter \<open>xMalloc\<close>: given the addresses it has out, and a size, it
  returns an address or \<open>None\<close> for NULL.
\<close>

section \<open>Definitions\<close>

record private_block =
  b_addr :: nat
  b_size :: nat
  is_used :: bool

record heap_state =
  private_heap_sz :: nat
  private_heap :: "private_block list"
  private_heap_used :: nat
  private_heap_hwm :: nat
  private_heap_alloc :: nat
  private_heap_allocs :: nat
  private_heap_overflow :: nat
  private_heap_overflows :: nat
  heap_mem :: "nat \<Rightarrow> byte"
  sys_live :: "nat list"
  xoshiro_s :: xoshiro

type_synonym xmalloc = "nat list \<Rightarrow> nat \<Rightarrow> nat option"

abbreviation (input) sizeof_private_block :: nat where "sizeof_private_block \<equiv> 16"
abbreviation (input) PRIVATE_HEAP_MIN_SPLIT_SIZE :: nat where "PRIVATE_HEAP_MIN_SPLIT_SIZE \<equiv> 32"
abbreviation (input) PRIVATE_HEAP_ALIGNMENT :: nat where "PRIVATE_HEAP_ALIGNMENT \<equiv> 8"
abbreviation (input) PRIVATE_HEAP_SIZE_STEP :: nat where "PRIVATE_HEAP_SIZE_STEP \<equiv> 16384"
abbreviation (input) SQLITE_MAX_ALLOCATION_SIZE :: nat where "SQLITE_MAX_ALLOCATION_SIZE \<equiv> 2147483391"

definition heap_roundup :: "nat \<Rightarrow> nat" where
  "heap_roundup x =
     (if x mod PRIVATE_HEAP_ALIGNMENT \<noteq> 0
      then ((x div PRIVATE_HEAP_ALIGNMENT + 1) * PRIVATE_HEAP_ALIGNMENT) mod 2 ^ 64 else x)"

definition mem_write :: "nat \<Rightarrow> byte list \<Rightarrow> (nat \<Rightarrow> byte) \<Rightarrow> nat \<Rightarrow> byte" where
  "mem_write a bs m = (\<lambda>x. if a \<le> x \<and> x < a + length bs then bs ! (x - a) else m x)"

text \<open>\<open>sqlite3_malloc\<close> takes an \<open>int\<close>: a 64-bit request is narrowed first. It gives NULL for a
  narrowed size that is not positive, and \<open>sqlite3Malloc\<close> for one above its limit.\<close>

definition sqlite3_malloc :: "xmalloc \<Rightarrow> nat \<Rightarrow> nat list \<Rightarrow> nat option" where
  "sqlite3_malloc xMalloc sz live =
     (let n = sint (word_of_nat sz :: u32)
      in if n \<le> 0 then None
         else if SQLITE_MAX_ALLOCATION_SIZE < nat n then None
         else xMalloc live (nat n))"

definition sqlcipher_internal_malloc ::
    "xmalloc \<Rightarrow> nat \<Rightarrow> 'a heap_state_scheme \<Rightarrow> nat option \<times> 'a heap_state_scheme" where
  "sqlcipher_internal_malloc xMalloc sz st =
     (case sqlite3_malloc xMalloc sz (sys_live st) of
        None \<Rightarrow> (None, st)
      | Some ptr \<Rightarrow>
          (Some ptr, st\<lparr>sys_live := ptr # sys_live st,
                        heap_mem := mem_write ptr (replicate sz 0) (heap_mem st)\<rparr>))"

definition sqlcipher_internal_free :: "nat \<Rightarrow> nat \<Rightarrow> 'a heap_state_scheme \<Rightarrow> 'a heap_state_scheme" where
  "sqlcipher_internal_free ptr sz st =
     (let (noise, xs) = xoshiro_randomness (xoshiro_s st) sz
      in st\<lparr>heap_mem := mem_write ptr noise (heap_mem st), xoshiro_s := xs,
            sys_live := remove1 ptr (sys_live st)\<rparr>)"

text \<open>The search loop of \<open>sqlcipher_malloc\<close>: the first free block that is large enough is taken,
  and split when at least 32 bytes would remain after the new header. The result is the
  address handed out and the new list.\<close>

fun heap_scan_alloc :: "nat \<Rightarrow> private_block list \<Rightarrow> (nat \<times> private_block list) option" where
  "heap_scan_alloc sz [] = None"
| "heap_scan_alloc sz (block # rest) =
     (if \<not> is_used block \<and> sz \<le> b_size block then
        Some (b_addr block + sizeof_private_block,
          if sz + sizeof_private_block + PRIVATE_HEAP_MIN_SPLIT_SIZE \<le> b_size block
          then block\<lparr>is_used := True, b_size := sz\<rparr>
               # \<lparr>b_addr = b_addr block + sz + sizeof_private_block,
                  b_size = b_size block - sz - sizeof_private_block, is_used = False\<rparr>
               # rest
          else block\<lparr>is_used := True\<rparr> # rest)
      else map_option (\<lambda>(alloc, bs). (alloc, block # bs)) (heap_scan_alloc sz rest))"

definition sqlcipher_malloc ::
    "xmalloc \<Rightarrow> nat \<Rightarrow> 'a heap_state_scheme \<Rightarrow> nat option \<times> 'a heap_state_scheme" where
  "sqlcipher_malloc xMalloc request st =
     (if request < 1 then (None, st)
      else
        let sz = heap_roundup request in
        case heap_scan_alloc sz (private_heap st) of
          None \<Rightarrow>
            sqlcipher_internal_malloc xMalloc sz
              (st\<lparr>private_heap_overflow := (private_heap_overflow st + sz) mod 2 ^ 64,
                  private_heap_overflows := (private_heap_overflows st + 1) mod 2 ^ 32\<rparr>)
        | Some (alloc, blocks) \<Rightarrow>
            let used = (private_heap_used st + sz) mod 2 ^ 64
            in (Some alloc,
                st\<lparr>private_heap := blocks,
                   heap_mem := mem_write alloc (replicate sz 0) (heap_mem st),
                   private_heap_used := used,
                   private_heap_hwm :=
                     (if private_heap_hwm st < used then used else private_heap_hwm st),
                   private_heap_alloc := (private_heap_alloc st + sz) mod 2 ^ 64,
                   private_heap_allocs := (private_heap_allocs st + 1) mod 2 ^ 32\<rparr>))"

text \<open>The search loop of \<open>sqlcipher_free\<close>, with the variable \<open>prev\<close>. The result is the size the
  found block had before merging and the list from \<open>prev\<close> on.\<close>

fun heap_scan_free ::
    "nat \<Rightarrow> private_block option \<Rightarrow> private_block list \<Rightarrow> (nat \<times> private_block list) option" where
  "heap_scan_free mem prev [] = None"
| "heap_scan_free mem prev (block # rest) =
     (if mem = b_addr block + sizeof_private_block then
        let (front, cur) =
              (case prev of
                 Some p \<Rightarrow>
                   if \<not> is_used p
                   then ([], p\<lparr>b_size := (b_size p + sizeof_private_block + b_size block) mod 2 ^ 32\<rparr>)
                   else ([p], block\<lparr>is_used := False\<rparr>)
               | None \<Rightarrow> ([], block\<lparr>is_used := False\<rparr>))
        in Some (b_size block,
             case rest of
               nxt # rest' \<Rightarrow>
                 if \<not> is_used nxt
                 then front @ cur\<lparr>b_size := (b_size cur + sizeof_private_block + b_size nxt) mod 2 ^ 32\<rparr>
                        # rest'
                 else front @ cur # rest
             | [] \<Rightarrow> front @ [cur])
      else
        map_option (\<lambda>(sz, bs). (sz, (case prev of Some p \<Rightarrow> p # bs | None \<Rightarrow> bs)))
          (heap_scan_free mem (Some block) rest))"

definition sqlcipher_free :: "nat \<Rightarrow> nat \<Rightarrow> 'a heap_state_scheme \<Rightarrow> 'a heap_state_scheme" where
  "sqlcipher_free mem sz st =
     (case heap_scan_free mem None (private_heap st) of
        None \<Rightarrow> sqlcipher_internal_free mem sz st
      | Some (block_size, blocks) \<Rightarrow>
          let (noise, xs) = xoshiro_randomness (xoshiro_s st) block_size
          in st\<lparr>private_heap := blocks,
                heap_mem := mem_write mem noise (heap_mem st), xoshiro_s := xs,
                private_heap_used := (private_heap_used st + 2 ^ 64 - block_size) mod 2 ^ 64\<rparr>)"

text \<open>The loop of \<open>sqlcipher_extra_init\<close> that creates the heap: the requested size shrinks by 16384
  until the allocation succeeds or the size falls below the step.\<close>

function private_heap_init :: "xmalloc \<Rightarrow> 'a heap_state_scheme \<Rightarrow> 'a heap_state_scheme" where
  "private_heap_init xMalloc st =
     (if PRIVATE_HEAP_SIZE_STEP \<le> private_heap_sz st then
        case sqlcipher_internal_malloc xMalloc (private_heap_sz st) st of
          (Some ptr, st') \<Rightarrow>
            let (noise, xs) = xoshiro_randomness (xoshiro_s st') (private_heap_sz st')
            in st'\<lparr>heap_mem := mem_write ptr noise (heap_mem st'), xoshiro_s := xs,
                   private_heap :=
                     [\<lparr>b_addr = ptr, b_size = (private_heap_sz st' - sizeof_private_block) mod 2 ^ 32,
                       is_used = False\<rparr>]\<rparr>
        | (None, st') \<Rightarrow>
            private_heap_init xMalloc
              (st\<lparr>private_heap_sz := private_heap_sz st - PRIVATE_HEAP_SIZE_STEP\<rparr>)
      else st)"
  by pat_completeness auto
termination
  by (relation "measure (\<lambda>(_, st). private_heap_sz st)") auto

declare private_heap_init.simps [simp del]

subsection \<open>Well-formed heaps\<close>

text \<open>\<open>heap_chain a bs e\<close>: the blocks tile the addresses from \<open>a\<close> to \<open>e\<close>, each header followed by its
  data and then by the next header. \<open>heap_ok\<close> adds alignment, the absence of two free
  neighbours, and that the region is below 4 GiB, so that no \<open>u32\<close> size can wrap.\<close>

fun heap_chain :: "nat \<Rightarrow> private_block list \<Rightarrow> nat \<Rightarrow> bool" where
  "heap_chain a [] e \<longleftrightarrow> a = e"
| "heap_chain a (b # bs) e \<longleftrightarrow>
     b_addr b = a \<and> heap_chain (a + sizeof_private_block + b_size b) bs e"

fun no_adjacent_free :: "private_block list \<Rightarrow> bool" where
  "no_adjacent_free (b # c # bs) \<longleftrightarrow> (is_used b \<or> is_used c) \<and> no_adjacent_free (c # bs)"
| "no_adjacent_free _ \<longleftrightarrow> True"

definition heap_ok :: "nat \<Rightarrow> nat \<Rightarrow> private_block list \<Rightarrow> bool" where
  "heap_ok a e bs \<longleftrightarrow>
     heap_chain a bs e \<and> no_adjacent_free bs \<and> (\<forall>b \<in> set bs. 8 dvd b_size b) \<and> 8 dvd a
     \<and> e < a + 2 ^ 32"

text \<open>The regions handed out: start address and size of the data area of every used block.\<close>

definition heap_regions :: "private_block list \<Rightarrow> (nat \<times> nat) set" where
  "heap_regions bs =
     (\<lambda>b. (b_addr b + sizeof_private_block, b_size b)) ` {b \<in> set bs. is_used b}"


definition regions_apart :: "(nat \<times> nat) set \<Rightarrow> bool" where
  "regions_apart R \<longleftrightarrow>
     (\<forall>r \<in> R. \<forall>s \<in> R. r \<noteq> s \<longrightarrow> fst r + snd r \<le> fst s \<or> fst s + snd s \<le> fst r)"

text \<open>Everything a client can do to the heap: any sequence of allocations of any size and of
  releases of any address, valid or not.\<close>

inductive heap_reach :: "xmalloc \<Rightarrow> heap_state \<Rightarrow> heap_state \<Rightarrow> bool"
  for xMalloc :: xmalloc where
  heap_reach_refl: "heap_reach xMalloc st st"
| heap_reach_malloc:
    "heap_reach xMalloc st0 st \<Longrightarrow> heap_reach xMalloc st0 (snd (sqlcipher_malloc xMalloc n st))"
| heap_reach_free:
    "heap_reach xMalloc st0 st \<Longrightarrow> heap_reach xMalloc st0 (sqlcipher_free p n st)"

section \<open>The contract of a block allocator\<close>

text \<open>What the clients of the heap rely on: allocation adds one region that no region given out
  before touches, release of a region removes exactly it, both keep the invariant, and a
  release undoes the allocation before it.\<close>

locale block_allocator =
  fixes grab :: "nat \<Rightarrow> 'h \<Rightarrow> (nat \<times> 'h) option"
    and give :: "nat \<Rightarrow> 'h \<Rightarrow> (nat \<times> 'h) option"
    and regs :: "'h \<Rightarrow> (nat \<times> nat) set"
    and inv :: "'h \<Rightarrow> bool"
  assumes grab_inv: "inv h \<Longrightarrow> 8 dvd n \<Longrightarrow> grab n h = Some (p, h') \<Longrightarrow> inv h'"
    and grab_regs: "inv h \<Longrightarrow> grab n h = Some (p, h') \<Longrightarrow>
      \<exists>m. n \<le> m \<and> regs h' = insert (p, m) (regs h) \<and> (\<forall>(q, k) \<in> regs h. q + k < p \<or> p + m < q)"
    and give_inv: "inv h \<Longrightarrow> give p h = Some (m, h') \<Longrightarrow> inv h'"
    and give_regs: "inv h \<Longrightarrow> (p, m) \<in> regs h \<Longrightarrow>
      \<exists>h'. give p h = Some (m, h') \<and> regs h' = regs h - {(p, m)}"
    and give_regs_sub: "inv h \<Longrightarrow> give p h = Some (m, h') \<Longrightarrow> regs h' \<subseteq> regs h"
    and grab_give: "inv h \<Longrightarrow> grab n h = Some (p, h') \<Longrightarrow> \<exists>m. give p h' = Some (m, h)"
begin

lemma grab_apart:
  assumes "inv h" "grab n h = Some (p, h')" "regions_apart (regs h)"
  shows "regions_apart (regs h')"
proof -
  obtain m where m: "regs h' = insert (p, m) (regs h)" "\<forall>(q, k) \<in> regs h. q + k < p \<or> p + m < q"
    using grab_regs [OF assms(1,2)] by auto
  then show ?thesis using assms(3) by (fastforce simp: regions_apart_def)
qed

lemma give_apart:
  assumes "inv h" "give p h = Some (m, h')" "regions_apart (regs h)"
  shows "regions_apart (regs h')"
  using give_regs_sub [OF assms(1,2)] assms(3) unfolding regions_apart_def by blast

text \<open>Allocating two regions and releasing the first leaves exactly the second beside what was
  there before.\<close>

lemma grab_grab_give:
  assumes i: "inv h" and n: "8 dvd n" "8 dvd k" and g: "grab n h = Some (p, h1)" "grab k h1 = Some (q, h2)"
  obtains m j h3 where "give p h2 = Some (m, h3)" "n \<le> m" "k \<le> j"
    "regs h3 = insert (q, j) (regs h)"
proof -
  have i1: "inv h1" using grab_inv i n(1) g(1) by blast
  have i2: "inv h2" using grab_inv i1 n(2) g(2) by blast
  obtain m where m: "n \<le> m" "regs h1 = insert (p, m) (regs h)"
    "\<forall>(q, k) \<in> regs h. q + k < p \<or> p + m < q" using grab_regs [OF i g(1)] by auto
  obtain j where j: "k \<le> j" "regs h2 = insert (q, j) (regs h1)"
    "\<forall>(x, y) \<in> regs h1. x + y < q \<or> q + j < x" using grab_regs [OF i1 g(2)] by auto
  have pm: "(p, m) \<in> regs h2" "(p, m) \<notin> regs h" "(q, j) \<noteq> (p, m)" using m j by auto
  obtain h3 where h3: "give p h2 = Some (m, h3)" "regs h3 = regs h2 - {(p, m)}"
    using give_regs [OF i2 pm(1)] by auto
  have "regs h3 = insert (q, j) (regs h)" using h3(2) pm m(2) j(2) by auto
  then show ?thesis using that h3(1) m(1) j(1) by blast
qed

end

section \<open>Lemmas\<close>

subsection \<open>Memory and sizes\<close>

lemma heap_roundup_dvd: "8 dvd heap_roundup n"
proof -
  have "8 dvd (n div 8 + 1) * 8 mod 18446744073709551616" by (intro dvd_mod) auto
  then show ?thesis by (auto simp: heap_roundup_def mod_eq_0_iff_dvd)
qed

lemma heap_roundup_props:
  assumes "0 < n" "n < 2 ^ 63"
  shows "n \<le> heap_roundup n" "heap_roundup n < n + 8" "8 dvd heap_roundup n" "0 < heap_roundup n"
proof -
  have "(n div 8 + 1) * 8 < 2 ^ 64" using assms by simp
  then have "heap_roundup n = (if n mod 8 = 0 then n else (n div 8 + 1) * 8)"
    by (simp add: heap_roundup_def)
  moreover have "n mod 8 \<noteq> 0 \<Longrightarrow> n div 8 * 8 < n"
    using div_mult_mod_eq [of n 8] by linarith
  ultimately show "n \<le> heap_roundup n" "heap_roundup n < n + 8" "8 dvd heap_roundup n"
    "0 < heap_roundup n"
    using assms by (simp_all add: mod_eq_0_iff_dvd split: if_splits)
qed

lemma mem_write_inside: "a \<le> x \<Longrightarrow> x < a + length bs \<Longrightarrow> mem_write a bs m x = bs ! (x - a)"
  by (simp add: mem_write_def)

lemma mem_write_outside: "x < a \<or> a + length bs \<le> x \<Longrightarrow> mem_write a bs m x = m x"
  by (auto simp: mem_write_def)

subsection \<open>Chains\<close>

lemma heap_chain_append:
  "heap_chain a (xs @ ys) e \<longleftrightarrow> (\<exists>m. heap_chain a xs m \<and> heap_chain m ys e)"
  by (induction xs arbitrary: a) auto

lemma heap_chain_le: "heap_chain a bs e \<Longrightarrow> a \<le> e"
  by (induction bs arbitrary: a) fastforce+

lemma heap_chain_bounds:
  "heap_chain a bs e \<Longrightarrow> b \<in> set bs \<Longrightarrow> a \<le> b_addr b \<and> b_addr b + 16 + b_size b \<le> e"
proof (induction bs arbitrary: a)
  case (Cons c bs)
  then show ?case using heap_chain_le [of "a + 16 + b_size c" bs e] by fastforce
qed simp

lemma heap_chain_aligned:
  "heap_chain a bs e \<Longrightarrow> 8 dvd a \<Longrightarrow> (\<forall>b \<in> set bs. 8 dvd b_size b) \<Longrightarrow> b \<in> set bs \<Longrightarrow> 8 dvd b_addr b"
proof (induction bs arbitrary: a)
  case (Cons c bs)
  have "8 dvd a + 16 + b_size c" using Cons.prems(2,3) by (intro dvd_add) auto
  with Cons show ?case by auto
qed simp

lemma heap_chain_before:
  assumes "heap_chain a (xs @ b # ys) e" "x \<in> set xs"
  shows "b_addr x + 16 + b_size x \<le> b_addr b"
proof -
  obtain m where "heap_chain a xs m" "b_addr b = m"
    using assms(1) by (auto simp: heap_chain_append)
  then show ?thesis using heap_chain_bounds assms(2) by blast
qed

lemma heap_chain_after:
  assumes "heap_chain a (xs @ b # ys) e" "y \<in> set ys"
  shows "b_addr b + 16 + b_size b \<le> b_addr y"
proof -
  have "heap_chain (b_addr b + 16 + b_size b) ys e"
    using assms(1) by (auto simp: heap_chain_append)
  then show ?thesis using heap_chain_bounds assms(2) by blast
qed

lemmas heap_chain_order = heap_chain_before heap_chain_after

lemma no_adjacent_free_append:
  "no_adjacent_free (xs @ b # ys) \<longleftrightarrow>
     no_adjacent_free xs \<and> no_adjacent_free (b # ys) \<and> (xs \<noteq> [] \<longrightarrow> is_used (last xs) \<or> is_used b)"
  by (induction xs rule: no_adjacent_free.induct) auto

lemma no_adjacent_free_Cons:
  "no_adjacent_free (b # ys) \<longleftrightarrow>
     no_adjacent_free ys \<and> (ys \<noteq> [] \<longrightarrow> is_used b \<or> is_used (hd ys))"
  by (cases ys) auto

lemma heap_regions_append: "heap_regions (xs @ ys) = heap_regions xs \<union> heap_regions ys"
  by (auto simp: heap_regions_def)

lemma heap_regions_Cons:
  "heap_regions (b # bs) = (if is_used b then {(b_addr b + 16, b_size b)} else {}) \<union> heap_regions bs"
  by (auto simp: heap_regions_def)

lemma heap_regions_Nil [simp]: "heap_regions [] = {}"
  by (simp add: heap_regions_def)

lemmas heap_regions_simps = heap_regions_append heap_regions_Cons

subsection \<open>What the two search loops do\<close>

lemma heap_scan_alloc_Some:
  assumes "heap_scan_alloc n bs = Some (p, bs')"
  obtains xs b ys where "bs = xs @ b # ys" "\<not> is_used b" "n \<le> b_size b" "p = b_addr b + 16"
    "bs' = xs @ (if n + 48 \<le> b_size b
       then [b\<lparr>is_used := True, b_size := n\<rparr>,
             \<lparr>b_addr = b_addr b + n + 16, b_size = b_size b - n - 16, is_used = False\<rparr>]
       else [b\<lparr>is_used := True\<rparr>]) @ ys"
    "\<forall>x \<in> set xs. is_used x \<or> b_size x < n"
  using assms
proof (induction bs arbitrary: bs' thesis)
  case (Cons c bs)
  show ?case
  proof (cases "\<not> is_used c \<and> n \<le> b_size c")
    case True
    with Cons.prems(2) show ?thesis
      by (intro Cons.prems(1) [of "[]" c bs]) (auto split: if_splits)
  next
    case False
    then obtain bs'' where r: "heap_scan_alloc n bs = Some (p, bs'')" "bs' = c # bs''"
      using Cons.prems(2) by auto
    show ?thesis
    proof (rule Cons.IH [OF _ r(1)])
      fix xs b ys assume h: "bs = xs @ b # ys" "\<not> is_used b" "n \<le> b_size b" "p = b_addr b + 16"
        "bs'' = xs @ (if n + 48 \<le> b_size b
           then [b\<lparr>is_used := True, b_size := n\<rparr>,
                 \<lparr>b_addr = b_addr b + n + 16, b_size = b_size b - n - 16, is_used = False\<rparr>]
           else [b\<lparr>is_used := True\<rparr>]) @ ys"
        "\<forall>x \<in> set xs. is_used x \<or> b_size x < n"
      then show ?thesis using False r(2) by (intro Cons.prems(1) [of "c # xs" b ys]) auto
    qed
  qed
qed simp

lemma heap_scan_alloc_None_iff:
  "heap_scan_alloc n bs = None \<longleftrightarrow> (\<forall>b \<in> set bs. is_used b \<or> b_size b < n)"
  by (induction bs) auto

text \<open>What releasing the block \<open>b\<close> between \<open>xs\<close> and \<open>ys\<close> leaves: \<open>b\<close> free, merged with the last block
  of \<open>xs\<close> and the first of \<open>ys\<close> where these are free.\<close>

definition merge_left :: "private_block list \<Rightarrow> private_block \<Rightarrow> private_block list \<times> private_block" where
  "merge_left xs b =
     (if xs \<noteq> [] \<and> \<not> is_used (last xs)
      then (butlast xs, (last xs)\<lparr>b_size := (b_size (last xs) + 16 + b_size b) mod 2 ^ 32\<rparr>)
      else (xs, b\<lparr>is_used := False\<rparr>))"

definition merge_right :: "private_block \<Rightarrow> private_block list \<Rightarrow> private_block list" where
  "merge_right b ys =
     (case ys of
        c # ys' \<Rightarrow> if \<not> is_used c then b\<lparr>b_size := (b_size b + 16 + b_size c) mod 2 ^ 32\<rparr> # ys' else b # ys
      | [] \<Rightarrow> [b])"

definition heap_release :: "private_block list \<Rightarrow> private_block \<Rightarrow> private_block list \<Rightarrow> private_block list" where
  "heap_release xs b ys = (let (xs', b') = merge_left xs b in xs' @ merge_right b' ys)"

lemma heap_scan_free_Some_aux:
  assumes "heap_scan_free p prev bs = Some (sz, bs')"
  shows "\<exists>xs b ys. bs = xs @ b # ys \<and> p = b_addr b + 16 \<and> sz = b_size b
    \<and> (\<forall>x \<in> set xs. b_addr x + 16 \<noteq> p)
    \<and> bs' = heap_release (case prev of Some q \<Rightarrow> q # xs | None \<Rightarrow> xs) b ys"
  using assms
proof (induction bs arbitrary: prev sz bs')
  case (Cons c bs)
  show ?case
  proof (cases "p = b_addr c + 16")
    case True
    then have "bs' = heap_release (case prev of Some q \<Rightarrow> [q] | None \<Rightarrow> []) c bs" "sz = b_size c"
      using Cons.prems
      by (auto simp: heap_release_def merge_left_def merge_right_def Let_def
          split: option.splits list.splits if_splits)
    with True show ?thesis by (intro exI [of _ "[]"] exI [of _ c] exI [of _ bs]) auto
  next
    case False
    then obtain bs'' where r: "heap_scan_free p (Some c) bs = Some (sz, bs'')"
      and bs': "bs' = (case prev of Some q \<Rightarrow> q # bs'' | None \<Rightarrow> bs'')"
      using Cons.prems by auto
    obtain xs b ys where h: "bs = xs @ b # ys" "p = b_addr b + 16" "sz = b_size b"
      "\<forall>x \<in> set xs. b_addr x + 16 \<noteq> p" "bs'' = heap_release (c # xs) b ys"
      using Cons.IH [OF r] by auto
    have "bs' = heap_release (case prev of Some q \<Rightarrow> q # c # xs | None \<Rightarrow> c # xs) b ys"
      by (cases prev) (auto simp: bs' h(5) heap_release_def merge_left_def Let_def)
    with h False show ?thesis by (intro exI [of _ "c # xs"] exI [of _ b] exI [of _ ys]) auto
  qed
qed simp

lemma heap_scan_free_Some:
  assumes "heap_scan_free p None bs = Some (sz, bs')"
  obtains xs b ys where "bs = xs @ b # ys" "p = b_addr b + 16" "sz = b_size b"
    "\<forall>x \<in> set xs. b_addr x + 16 \<noteq> p" "bs' = heap_release xs b ys"
  using heap_scan_free_Some_aux [OF assms] by auto

lemma heap_scan_free_None_iff:
  "heap_scan_free p prev bs = None \<longleftrightarrow> (\<forall>b \<in> set bs. b_addr b + 16 \<noteq> p)"
  by (induction bs arbitrary: prev) (auto simp: Let_def split: prod.split)

lemma heap_scan_free_at:
  assumes "p = b_addr b + 16" "\<forall>x \<in> set xs. b_addr x + 16 \<noteq> p"
  shows "heap_scan_free p None (xs @ b # ys) = Some (b_size b, heap_release xs b ys)"
proof -
  have "heap_scan_free p None (xs @ b # ys) \<noteq> None"
    using assms by (simp add: heap_scan_free_None_iff)
  then obtain sz bs' where r: "heap_scan_free p None (xs @ b # ys) = Some (sz, bs')" by auto
  then show ?thesis
  proof (rule heap_scan_free_Some)
    fix xs2 b2 ys2
    assume h: "xs @ b # ys = xs2 @ b2 # ys2" "p = b_addr b2 + 16" "sz = b_size b2"
      "\<forall>x \<in> set xs2. b_addr x + 16 \<noteq> p" "bs' = heap_release xs2 b2 ys2"
    have "xs = takeWhile (\<lambda>x. b_addr x + 16 \<noteq> p) (xs @ b # ys)"
      using assms by (subst takeWhile_append2) auto
    also have "\<dots> = xs2"
      unfolding h(1) using h(2,4) by (subst takeWhile_append2) auto
    finally show ?thesis using h r by simp
  qed
qed


subsection \<open>Both operations keep the heap well formed\<close>

lemma heap_scan_alloc_ok:
  assumes ok: "heap_ok a e bs" and al: "heap_scan_alloc n bs = Some (p, bs')" and n: "8 dvd n"
  shows "heap_ok a e bs'"
  using al
proof (rule heap_scan_alloc_Some)
  fix xs b ys
  assume h: "bs = xs @ b # ys" "\<not> is_used b" "n \<le> b_size b"
    "bs' = xs @ (if n + 48 \<le> b_size b
       then [b\<lparr>is_used := True, b_size := n\<rparr>,
             \<lparr>b_addr = b_addr b + n + 16, b_size = b_size b - n - 16, is_used = False\<rparr>]
       else [b\<lparr>is_used := True\<rparr>]) @ ys"
  have "heap_chain a xs (b_addr b)" "heap_chain (16 + (b_addr b + b_size b)) ys e"
    using ok h(1) by (auto simp: heap_ok_def heap_chain_append add.assoc add.left_commute)
  then have "heap_chain a bs' e"
    using h(3,4) by (auto simp: heap_chain_append add.assoc add.left_commute)
  moreover have "no_adjacent_free bs'"
    using ok h by (auto simp: heap_ok_def no_adjacent_free_append no_adjacent_free_Cons)
  moreover have "\<forall>b \<in> set bs'. 8 dvd b_size b"
    using ok h n by (auto simp: heap_ok_def intro!: dvd_diff_nat)
  ultimately show ?thesis using ok by (simp add: heap_ok_def)
qed

lemma heap_scan_alloc_regions:
  assumes ok: "heap_ok a e bs" and al: "heap_scan_alloc n bs = Some (p, bs')"
  shows "\<exists>m. n \<le> m \<and> m < n + 48 \<and> heap_regions bs' = insert (p, m) (heap_regions bs)
    \<and> (\<forall>(q, k) \<in> heap_regions bs. q + k + 16 \<le> p \<or> p + m + 16 \<le> q)
    \<and> a + 16 \<le> p \<and> p + m \<le> e"
  using al
proof (rule heap_scan_alloc_Some)
  fix xs b ys
  assume h: "bs = xs @ b # ys" "\<not> is_used b" "n \<le> b_size b" "p = b_addr b + 16"
    "bs' = xs @ (if n + 48 \<le> b_size b
       then [b\<lparr>is_used := True, b_size := n\<rparr>,
             \<lparr>b_addr = b_addr b + n + 16, b_size = b_size b - n - 16, is_used = False\<rparr>]
       else [b\<lparr>is_used := True\<rparr>]) @ ys"
  have ch: "heap_chain a (xs @ b # ys) e" using ok h(1) by (simp add: heap_ok_def)
  let ?m = "if n + 48 \<le> b_size b then n else b_size b"
  have "heap_regions bs' = insert (p, ?m) (heap_regions bs)"
    using h by (auto simp: heap_regions_simps)
  moreover have "q + k + 16 \<le> p \<or> p + ?m + 16 \<le> q" if "(q, k) \<in> heap_regions bs" for q k
  proof -
    from that h(1,2) obtain c where c: "c \<in> set xs \<union> set ys" "q = b_addr c + 16" "k = b_size c"
      by (auto simp: heap_regions_def)
    then show ?thesis using heap_chain_before [OF ch, of c] heap_chain_after [OF ch, of c] h(4)
      by (auto split: if_splits)
  qed
  moreover have "a + 16 \<le> p" "p + ?m \<le> e"
    using heap_chain_bounds [OF ch, of b] h(4) by auto
  moreover have "n \<le> ?m" "?m < n + 48" using h(3) by auto
  ultimately show ?thesis by (intro exI [of _ ?m] conjI ballI) (auto split del: if_split)
qed

lemma heap_scan_alloc_aligned:
  assumes ok: "heap_ok a e bs" and al: "heap_scan_alloc n bs = Some (p, bs')"
  shows "8 dvd p"
  using al
proof (rule heap_scan_alloc_Some)
  fix xs b ys assume h: "bs = xs @ b # ys" "p = b_addr b + 16"
  then have "8 dvd b_addr b" using heap_chain_aligned [of a bs e b] ok by (auto simp: heap_ok_def)
  with h(2) show ?thesis by (auto intro: dvd_add)
qed

lemma merge_left_chain:
  assumes "heap_chain a (xs @ b # ys) e" "e < a + 2 ^ 32" "merge_left xs b = (xs', b')"
  shows "heap_chain a (xs' @ b' # ys) e"
proof (cases "xs \<noteq> [] \<and> \<not> is_used (last xs)")
  case True
  then obtain zs c where xs: "xs = zs @ [c]" by (metis append_butlast_last_id)
  have "a \<le> b_addr c" "b_addr c + 32 + b_size c + b_size b \<le> e"
    using assms(1) heap_chain_bounds [OF assms(1), of c] heap_chain_bounds [OF assms(1), of b]
      heap_chain_before [of a xs b ys e c] unfolding xs by auto
  then have "b_size c + 16 + b_size b < 2 ^ 32" using assms(2) by linarith
  then show ?thesis using assms(1,3) True unfolding xs
    by (auto simp: merge_left_def heap_chain_append ac_simps)
qed (use assms in \<open>auto simp: merge_left_def heap_chain_append\<close>)

lemma merge_right_chain:
  assumes "heap_chain a (xs @ b # ys) e" "e < a + 2 ^ 32"
  shows "heap_chain a (xs @ merge_right b ys) e"
proof (cases "\<exists>c zs. ys = c # zs \<and> \<not> is_used c")
  case True
  then obtain c zs where ys: "ys = c # zs" "\<not> is_used c" by auto
  have "a \<le> b_addr b" "b_addr b + 32 + b_size b + b_size c \<le> e"
    using assms(1) heap_chain_bounds [OF assms(1), of b] heap_chain_bounds [OF assms(1), of c]
      heap_chain_after [of a xs b ys e c] unfolding ys by auto
  then have "b_size b + 16 + b_size c < 2 ^ 32" using assms(2) by linarith
  then show ?thesis using assms(1) ys
    by (auto simp: merge_right_def heap_chain_append ac_simps)
qed (use assms in \<open>auto simp: merge_right_def split: list.splits\<close>)

lemma heap_release_ok:
  assumes ok: "heap_ok a e (xs @ b # ys)"
  shows "heap_ok a e (heap_release xs b ys)"
proof -
  obtain xs' b' where m: "merge_left xs b = (xs', b')" by (cases "merge_left xs b")
  have bound: "e < a + 2 ^ 32" and ch: "heap_chain a (xs @ b # ys) e"
    using ok by (auto simp: heap_ok_def)
  note ch1 = merge_left_chain [OF ch bound m]
  note ch2 = merge_right_chain [OF ch1 bound]
  have free: "\<not> is_used b'" using m by (auto simp: merge_left_def split: if_splits)
  have left: "no_adjacent_free xs'" "xs' \<noteq> [] \<Longrightarrow> is_used (last xs')"
    and right: "no_adjacent_free ys"
  proof -
    show "no_adjacent_free ys" using ok by (auto simp: heap_ok_def no_adjacent_free_append no_adjacent_free_Cons)
    consider zs c where "xs = zs @ [c]" "\<not> is_used c" | "xs = [] \<or> is_used (last xs)"
      by (metis append_butlast_last_id)
    then show "no_adjacent_free xs'" "xs' \<noteq> [] \<Longrightarrow> is_used (last xs')"
      using ok m by (cases; auto simp: heap_ok_def merge_left_def no_adjacent_free_append)+
  qed
  have "no_adjacent_free (xs' @ merge_right b' ys)"
    using left right free
    by (auto simp: merge_right_def no_adjacent_free_append no_adjacent_free_Cons split: list.splits)
  moreover have "\<forall>c \<in> set (xs' @ merge_right b' ys). 8 dvd b_size c"
  proof -
    have pow: "(8::nat) dvd x mod 4294967296" if "8 dvd x" for x
      using that by (intro dvd_mod) auto
    have d: "\<forall>c \<in> set (xs @ b # ys). 8 dvd b_size c" using ok by (simp add: heap_ok_def)
    have d16: "8 dvd x + 16 + y" if "8 dvd x" "8 dvd y" for x y :: nat
      using that by (intro dvd_add) auto
    have "8 dvd b_size b'" "\<forall>c \<in> set xs'. 8 dvd b_size c"
      using m d by (auto simp: merge_left_def in_set_butlastD intro!: pow d16 split: if_splits)
    then show ?thesis using d
      by (auto simp: merge_right_def intro!: pow d16 split: list.splits if_splits)
  qed
  ultimately show ?thesis using ch2 bound ok m by (simp add: heap_ok_def heap_release_def)
qed

lemma heap_release_regions:
  assumes ok: "heap_ok a e (xs @ b # ys)" and used: "is_used b"
  shows "heap_regions (heap_release xs b ys) = heap_regions (xs @ b # ys) - {(b_addr b + 16, b_size b)}"
proof -
  have ch: "heap_chain a (xs @ b # ys) e" using ok by (simp add: heap_ok_def)
  have "(b_addr b + 16, b_size b) \<notin> heap_regions xs \<union> heap_regions ys"
    using heap_chain_before [OF ch] heap_chain_after [OF ch] by (fastforce simp: heap_regions_def)
  moreover have "heap_regions (heap_release xs b ys) = heap_regions xs \<union> heap_regions ys"
  proof (cases "xs \<noteq> [] \<and> \<not> is_used (last xs)")
    case True
    then obtain zs c where "xs = zs @ [c]" "\<not> is_used c" by (metis append_butlast_last_id last_snoc)
    then show ?thesis
      by (auto simp: heap_release_def merge_left_def merge_right_def heap_regions_simps split: list.splits)
  next
    case False
    then show ?thesis
      by (auto simp: heap_release_def merge_left_def merge_right_def heap_regions_simps split: list.splits)
  qed
  ultimately show ?thesis using used by (auto simp: heap_regions_simps)
qed

lemma heap_scan_free_ok:
  assumes "heap_ok a e bs" "heap_scan_free p None bs = Some (sz, bs')"
  shows "heap_ok a e bs'"
  using assms(2) by (rule heap_scan_free_Some) (use assms(1) heap_release_ok in blast)

lemma heap_scan_free_regions:
  assumes ok: "heap_ok a e bs" and p: "(p, m) \<in> heap_regions bs"
  shows "\<exists>bs'. heap_scan_free p None bs = Some (m, bs') \<and> heap_regions bs' = heap_regions bs - {(p, m)}"
proof -
  obtain b where b: "b \<in> set bs" "is_used b" "p = b_addr b + 16" "m = b_size b"
    using p by (auto simp: heap_regions_def)
  obtain xs ys where bs: "bs = xs @ b # ys" by (metis b(1) split_list)
  have "\<forall>x \<in> set xs. b_addr x + 16 \<noteq> p"
    using heap_chain_before [of a xs b ys e] ok b(3) unfolding bs heap_ok_def by fastforce
  then show ?thesis
    using heap_scan_free_at [OF b(3), of xs ys] heap_release_regions [of a e xs b ys] ok b
    unfolding bs by auto
qed

text \<open>Releasing the block just allocated restores the list of blocks exactly: the remainder that
  was split off is free and is merged back, and the neighbours of a free block are used.\<close>

lemma heap_scan_alloc_free:
  assumes ok: "heap_ok a e bs" and al: "heap_scan_alloc n bs = Some (p, bs')"
  shows "\<exists>m. heap_scan_free p None bs' = Some (m, bs)"
  using al
proof (rule heap_scan_alloc_Some)
  fix xs b ys
  assume h: "bs = xs @ b # ys" "\<not> is_used b" "n \<le> b_size b" "p = b_addr b + 16"
    "bs' = xs @ (if n + 48 \<le> b_size b
       then [b\<lparr>is_used := True, b_size := n\<rparr>,
             \<lparr>b_addr = b_addr b + n + 16, b_size = b_size b - n - 16, is_used = False\<rparr>]
       else [b\<lparr>is_used := True\<rparr>]) @ ys"
  have ch: "heap_chain a (xs @ b # ys) e" and bound: "e < a + 2 ^ 32" using ok h(1) by (auto simp: heap_ok_def)
  have xs: "\<forall>x \<in> set xs. b_addr x + 16 \<noteq> p" using heap_chain_before [OF ch] h(4) by fastforce
  have nb: "xs \<noteq> [] \<Longrightarrow> is_used (last xs)" "ys \<noteq> [] \<Longrightarrow> is_used (hd ys)"
    using ok h(1,2) by (auto simp: heap_ok_def no_adjacent_free_append no_adjacent_free_Cons)
  have small: "b_size b < 2 ^ 32" using heap_chain_bounds [OF ch, of b] bound by simp
  show ?thesis
  proof (cases "n + 48 \<le> b_size b")
    case True
    let ?b = "b\<lparr>is_used := True, b_size := n\<rparr>"
    let ?c = "\<lparr>b_addr = b_addr b + n + 16, b_size = b_size b - n - 16, is_used = False\<rparr> # ys"
    have "heap_release xs ?b ?c = bs"
      using True nb small h(1,2) by (auto simp: heap_release_def merge_left_def merge_right_def)
    moreover have "heap_scan_free p None (xs @ ?b # ?c) = Some (b_size ?b, heap_release xs ?b ?c)"
      by (rule heap_scan_free_at) (use h(4) xs in auto)
    ultimately show ?thesis using True by (simp add: h(5))
  next
    case False
    let ?b = "b\<lparr>is_used := True\<rparr>"
    have "heap_release xs ?b ys = bs"
      using nb h(1,2)
      by (auto simp: heap_release_def merge_left_def merge_right_def split: list.splits)
    moreover have "heap_scan_free p None (xs @ ?b # ys) = Some (b_size ?b, heap_release xs ?b ys)"
      by (rule heap_scan_free_at) (use h(4) xs in auto)
    ultimately show ?thesis using False by (simp add: h(5))
  qed
qed


lemma heap_scan_free_regions_sub:
  assumes ok: "heap_ok a e bs" and fr: "heap_scan_free p None bs = Some (m, bs')"
  shows "heap_regions bs' \<subseteq> heap_regions bs"
  using fr
proof (rule heap_scan_free_Some)
  fix xs b ys
  assume h: "bs = xs @ b # ys" "bs' = heap_release xs b ys"
  consider zs c where "xs = zs @ [c]" "\<not> is_used c" | "xs = [] \<or> is_used (last xs)"
    by (metis append_butlast_last_id)
  then show ?thesis
    by (cases) (auto simp: h heap_release_def merge_left_def merge_right_def heap_regions_simps
        split: list.splits if_splits)
qed

interpretation ph: block_allocator heap_scan_alloc "\<lambda>p. heap_scan_free p None" heap_regions "heap_ok a e"
  for a e :: nat
proof
  fix h h' :: "private_block list" and n p m :: nat
  assume ok: "heap_ok a e h"
  { assume "8 dvd n" "heap_scan_alloc n h = Some (p, h')"
    with ok show "heap_ok a e h'" using heap_scan_alloc_ok by blast }
  { assume "heap_scan_alloc n h = Some (p, h')"
    from heap_scan_alloc_regions [OF ok this]
    show "\<exists>m. n \<le> m \<and> heap_regions h' = insert (p, m) (heap_regions h)
        \<and> (\<forall>(q, k) \<in> heap_regions h. q + k < p \<or> p + m < q)" by fastforce }
  { assume "heap_scan_free p None h = Some (m, h')"
    with ok show "heap_ok a e h'" using heap_scan_free_ok by blast }
  { assume "(p, m) \<in> heap_regions h"
    with ok show "\<exists>h'. heap_scan_free p None h = Some (m, h') \<and> heap_regions h' = heap_regions h - {(p, m)}"
      using heap_scan_free_regions by blast }
  { assume "heap_scan_free p None h = Some (m, h')"
    with ok show "heap_regions h' \<subseteq> heap_regions h" using heap_scan_free_regions_sub by blast }
  { assume "heap_scan_alloc n h = Some (p, h')"
    with ok show "\<exists>m. heap_scan_free p None h' = Some (m, h)" using heap_scan_alloc_free by blast }
qed

subsection \<open>The operations on the whole state\<close>

lemma sqlcipher_internal_malloc_heap [simp]:
  "private_heap (snd (sqlcipher_internal_malloc xMalloc n st)) = private_heap st"
  by (simp add: sqlcipher_internal_malloc_def split: option.splits)

lemma sqlcipher_internal_free_heap [simp]:
  "private_heap (sqlcipher_internal_free p n st) = private_heap st"
  by (simp add: sqlcipher_internal_free_def split: prod.splits)

lemma sqlcipher_malloc_heap:
  "0 < n \<Longrightarrow> private_heap (snd (sqlcipher_malloc xMalloc n st)) =
     (case heap_scan_alloc (heap_roundup n) (private_heap st) of
        None \<Rightarrow> private_heap st | Some (_, bs) \<Rightarrow> bs)"
  by (auto simp: sqlcipher_malloc_def Let_def split: option.splits)

lemma sqlcipher_malloc_0 [simp]: "sqlcipher_malloc xMalloc 0 st = (None, st)"
  by (simp add: sqlcipher_malloc_def)

lemma sqlcipher_free_heap:
  "private_heap (sqlcipher_free p n st) =
     (case heap_scan_free p None (private_heap st) of
        None \<Rightarrow> private_heap st | Some (_, bs) \<Rightarrow> bs)"
  by (auto simp: sqlcipher_free_def split: option.splits prod.splits)

lemma sqlcipher_malloc_ok:
  "heap_ok a e (private_heap st) \<Longrightarrow> heap_ok a e (private_heap (snd (sqlcipher_malloc xMalloc n st)))"
  by (cases "n = 0")
     (auto simp: sqlcipher_malloc_heap intro: ph.grab_inv heap_roundup_dvd split: option.splits)

lemma sqlcipher_malloc_apart:
  "heap_ok a e (private_heap st) \<Longrightarrow> regions_apart (heap_regions (private_heap st)) \<Longrightarrow>
    regions_apart (heap_regions (private_heap (snd (sqlcipher_malloc xMalloc n st))))"
  by (cases "n = 0") (auto simp: sqlcipher_malloc_heap intro: ph.grab_apart split: option.splits)

lemma sqlcipher_free_ok:
  "heap_ok a e (private_heap st) \<Longrightarrow> heap_ok a e (private_heap (sqlcipher_free p n st))"
  by (auto simp: sqlcipher_free_heap intro: ph.give_inv split: option.splits)

lemma sqlcipher_free_apart:
  "heap_ok a e (private_heap st) \<Longrightarrow> regions_apart (heap_regions (private_heap st)) \<Longrightarrow>
    regions_apart (heap_regions (private_heap (sqlcipher_free p n st)))"
  by (auto simp: sqlcipher_free_heap intro: ph.give_apart split: option.splits)

lemmas heap_state_ok = sqlcipher_malloc_ok sqlcipher_free_ok sqlcipher_malloc_apart sqlcipher_free_apart

lemma heap_ok_region_bounds:
  "heap_ok a e bs \<Longrightarrow> (p, m) \<in> heap_regions bs \<Longrightarrow> a + 16 \<le> p \<and> p + m \<le> e"
  using heap_chain_bounds by (fastforce simp: heap_ok_def heap_regions_def)

text \<open>A fresh heap, and a small concrete state for the witnesses.\<close>

definition fresh_heap :: "nat \<Rightarrow> nat \<Rightarrow> private_block list" where
  "fresh_heap a n = [\<lparr>b_addr = a, b_size = n, is_used = False\<rparr>]"

definition sample_heap_state :: heap_state where
  "sample_heap_state =
     \<lparr>private_heap_sz = 272, private_heap = fresh_heap 4096 256, private_heap_used = 0,
      private_heap_hwm = 0, private_heap_alloc = 0, private_heap_allocs = 0,
      private_heap_overflow = 0, private_heap_overflows = 0, heap_mem = (\<lambda>_. 0), sys_live = [],
      xoshiro_s = \<lparr>xs0 = 1, xs1 = 2, xs2 = 3, xs3 = 4\<rparr>\<rparr>"

lemma heap_ok_fresh:
  "8 dvd a \<Longrightarrow> 8 dvd n \<Longrightarrow> n + 16 < 2 ^ 32 \<Longrightarrow> heap_ok a (a + 16 + n) (fresh_heap a n)"
  by (simp add: heap_ok_def fresh_heap_def)

lemma heap_ok_sample: "heap_ok 4096 4368 (private_heap sample_heap_state)"
  using heap_ok_fresh [of 4096 256] by (simp add: sample_heap_state_def)

lemma fresh_heap_apart [simp]: "regions_apart (heap_regions (fresh_heap a n))"
  by (simp add: fresh_heap_def heap_regions_def regions_apart_def)


section \<open>Properties\<close>

text \<open>C34. Whatever sequence of allocations and releases a client performs, from a well-formed heap the
  block list stays well formed (headers and data tile the region, no two neighbouring blocks
  are free, sizes are multiples of 8), and the regions in use are pairwise disjoint and inside
  the heap.\<close>

theorem heap_reachable_ok:
  assumes "heap_reach xMalloc st0 st" and "heap_ok a e (private_heap st0)"
    and "regions_apart (heap_regions (private_heap st0))"
  shows "heap_ok a e (private_heap st)
    \<and> regions_apart (heap_regions (private_heap st))
    \<and> (\<forall>(p, m) \<in> heap_regions (private_heap st). a + 16 \<le> p \<and> p + m \<le> e)"
proof -
  have "heap_ok a e (private_heap st) \<and> regions_apart (heap_regions (private_heap st))"
    using assms by (induction rule: heap_reach.induct) (auto intro: heap_state_ok)
  then show ?thesis using heap_ok_region_bounds by blast
qed

theorem heap_reachable_ok_witness:
  "heap_ok 4096 4368 (private_heap (sqlcipher_free 4112 8
     (snd (sqlcipher_malloc (\<lambda>_ _. None) 40 sample_heap_state))))"
proof -
  have "heap_reach (\<lambda>_ _. None) sample_heap_state (sqlcipher_free 4112 8
     (snd (sqlcipher_malloc (\<lambda>_ _. None) 40 sample_heap_state)))"
    by (intro heap_reach.intros)
  from heap_reachable_ok [OF this heap_ok_sample] show ?thesis
    by (simp add: sample_heap_state_def)
qed

text \<open>C35. A successful allocation from the private heap, which lies at the addresses from \<open>a\<close> to \<open>e\<close>, returns an 8-aligned
  address whose block holds at least the requested bytes and lies inside the heap, behind a header. It adds exactly that
  region to the regions in use, leaves a gap of a header to every other region, fills the requested bytes with zero, changes
  no byte outside the region, and keeps the heap well formed.\<close>

theorem sqlcipher_malloc_sound:
  assumes ok: "heap_ok a e (private_heap st)" and n: "0 < n" "n < 2 ^ 63"
    and fit: "\<exists>b \<in> set (private_heap st). \<not> is_used b \<and> heap_roundup n \<le> b_size b"
  shows "\<exists>p m st'. sqlcipher_malloc xMalloc n st = (Some p, st') \<and> n \<le> m \<and> 8 dvd p
    \<and> a + 16 \<le> p \<and> p + m \<le> e \<and> heap_ok a e (private_heap st')
    \<and> heap_regions (private_heap st') = insert (p, m) (heap_regions (private_heap st))
    \<and> (\<forall>(q, k) \<in> heap_regions (private_heap st). q + k + 16 \<le> p \<or> p + m + 16 \<le> q)
    \<and> (\<forall>x. p \<le> x \<and> x < p + n \<longrightarrow> heap_mem st' x = 0)
    \<and> (\<forall>x. x < p \<or> p + m \<le> x \<longrightarrow> heap_mem st' x = heap_mem st x)"
proof -
  note r = heap_roundup_props [OF n]
  have "heap_scan_alloc (heap_roundup n) (private_heap st) \<noteq> None"
    using fit by (auto simp: heap_scan_alloc_None_iff)
  then obtain p bs where al: "heap_scan_alloc (heap_roundup n) (private_heap st) = Some (p, bs)"
    by auto
  obtain m where m: "heap_roundup n \<le> m" "heap_regions bs = insert (p, m) (heap_regions (private_heap st))"
    "\<forall>(q, k) \<in> heap_regions (private_heap st). q + k + 16 \<le> p \<or> p + m + 16 \<le> q"
    using heap_scan_alloc_regions [OF ok al] by auto
  obtain st' where st': "sqlcipher_malloc xMalloc n st = (Some p, st')" "private_heap st' = bs"
    "heap_mem st' = mem_write p (replicate (heap_roundup n) 0) (heap_mem st)"
    using n al by (auto simp: sqlcipher_malloc_def Let_def)
  have ok': "heap_ok a e (private_heap st')" using sqlcipher_malloc_ok [OF ok, of xMalloc n] st'(1) by simp
  then have "a + 16 \<le> p \<and> p + m \<le> e" using heap_ok_region_bounds [OF ok', of p m] m(2) st'(2) by simp
  moreover have "8 dvd p" by (rule heap_scan_alloc_aligned [OF ok al])
  ultimately show ?thesis using st' m r ok'
    by (intro exI [of _ p] exI [of _ m] exI [of _ st']) (auto simp: mem_write_def)
qed

theorem sqlcipher_malloc_sound_witness:
  "\<exists>p m st'. sqlcipher_malloc (\<lambda>_ _. None) 20 sample_heap_state = (Some p, st') \<and> 20 \<le> m \<and> 8 dvd p
    \<and> 4112 \<le> p \<and> p + m \<le> 4368 \<and> heap_regions (private_heap st') = insert (p, m) {} \<and> heap_mem st' (p + 3) = 0"
proof -
  have "\<exists>b \<in> set (private_heap sample_heap_state). \<not> is_used b \<and> heap_roundup 20 \<le> b_size b"
    by (simp add: sample_heap_state_def fresh_heap_def heap_roundup_def)
  from sqlcipher_malloc_sound [OF heap_ok_sample _ _ this, of "\<lambda>_ _. None"]
  obtain p m st' where "sqlcipher_malloc (\<lambda>_ _. None) 20 sample_heap_state = (Some p, st')"
    "20 \<le> m" "8 dvd p" "4112 \<le> p" "p + m \<le> 4368"
    "heap_regions (private_heap st') = insert (p, m) (heap_regions (private_heap sample_heap_state))"
    "\<forall>x. p \<le> x \<and> x < p + 20 \<longrightarrow> heap_mem st' x = 0"
    by auto
  then show ?thesis by (auto simp: sample_heap_state_def fresh_heap_def heap_regions_def)
qed

text \<open>\<open>sqlcipher_malloc\<close> returns NULL exactly for a request of 0 bytes, or when no free block of the
  private heap is large enough and \<open>sqlite3_malloc\<close> returns NULL as well.\<close>

theorem sqlcipher_malloc_null_iff:
  "fst (sqlcipher_malloc xMalloc n st) = None \<longleftrightarrow>
     n = 0
     \<or> (list_all (\<lambda>b. is_used b \<or> b_size b < heap_roundup n) (private_heap st)
        \<and> sqlite3_malloc xMalloc (heap_roundup n) (sys_live st) = None)"
proof (cases "heap_scan_alloc (heap_roundup n) (private_heap st)")
  case None
  then have "list_all (\<lambda>b. is_used b \<or> b_size b < heap_roundup n) (private_heap st)"
    by (simp add: heap_scan_alloc_None_iff list_all_iff)
  with None show ?thesis
    by (auto simp: sqlcipher_malloc_def sqlcipher_internal_malloc_def Let_def split: option.splits)
next
  case (Some r)
  then have "\<not> list_all (\<lambda>b. is_used b \<or> b_size b < heap_roundup n) (private_heap st)"
    by (metis heap_scan_alloc_None_iff list_all_iff option.distinct(1))
  with Some show ?thesis by (auto simp: sqlcipher_malloc_def Let_def split: prod.splits)
qed

text \<open>Releasing an allocation undoes it: when the platform allocator hands out addresses outside the
  private heap, \<open>sqlcipher_free\<close> of the address that \<open>sqlcipher_malloc\<close> just returned restores the
  block list, splits and merges included, and the set of fallback allocations.\<close>

theorem sqlcipher_malloc_free:
  assumes ok: "heap_ok a e (private_heap st)"
    and xm: "\<And>live k q. xMalloc live k = Some q \<Longrightarrow> q < a \<or> e < q"
    and al: "sqlcipher_malloc xMalloc n st = (Some p, st')"
  shows "private_heap (sqlcipher_free p k st') = private_heap st
    \<and> sys_live (sqlcipher_free p k st') = sys_live st"
proof (cases "heap_scan_alloc (heap_roundup n) (private_heap st)")
  case None
  have n: "0 < n" using al by (cases "n = 0") auto
  have st': "private_heap st' = private_heap st" "sys_live st' = p # sys_live st"
    and q: "sqlite3_malloc xMalloc (heap_roundup n) (sys_live st) = Some p"
    using al n None
    by (auto simp: sqlcipher_malloc_def sqlcipher_internal_malloc_def Let_def split: option.splits)
  have "p < a \<or> e < p" using q xm by (auto simp: sqlite3_malloc_def Let_def split: if_splits)
  then have "heap_scan_free p None (private_heap st) = None"
    using ok heap_chain_bounds [of a "private_heap st" e]
    by (fastforce simp: heap_scan_free_None_iff heap_ok_def)
  then show ?thesis
    using st' by (simp add: sqlcipher_free_def sqlcipher_internal_free_def split: prod.splits)
next
  case (Some r)
  then have "n \<noteq> 0" and r: "heap_scan_alloc (heap_roundup n) (private_heap st) = Some (p, private_heap st')"
    and live: "sys_live st' = sys_live st"
    using al by (cases "n = 0"; auto simp: sqlcipher_malloc_def Let_def split: prod.splits)+
  obtain m where "heap_scan_free p None (private_heap st') = Some (m, private_heap st)"
    using ph.grab_give [OF ok r] by auto
  then show ?thesis using live by (simp add: sqlcipher_free_def split: prod.splits)
qed

theorem sqlcipher_malloc_free_witness:
  "private_heap (sqlcipher_free 4112 20 (snd (sqlcipher_malloc (\<lambda>_ _. None) 20 sample_heap_state)))
     = private_heap sample_heap_state"
proof -
  have "sqlcipher_malloc (\<lambda>_ _. None) 20 sample_heap_state =
      (Some 4112, snd (sqlcipher_malloc (\<lambda>_ _. None) 20 sample_heap_state))"
    by (simp add: sqlcipher_malloc_def sample_heap_state_def fresh_heap_def heap_roundup_def Let_def)
  from sqlcipher_malloc_free [OF heap_ok_sample _ this, of 20] show ?thesis by simp
qed

text \<open>Releasing a region in use removes exactly that region, overwrites its bytes with the output of the
  generator, and changes neither any other byte nor any other region in use.\<close>

theorem sqlcipher_free_sound:
  assumes ok: "heap_ok a e (private_heap st)" and p: "(p, m) \<in> heap_regions (private_heap st)"
  shows "heap_regions (private_heap (sqlcipher_free p k st)) = heap_regions (private_heap st) - {(p, m)}
    \<and> map (heap_mem (sqlcipher_free p k st)) [p..<p + m] = fst (xoshiro_randomness (xoshiro_s st) m)
    \<and> (\<forall>x. x < p \<or> p + m \<le> x \<longrightarrow> heap_mem (sqlcipher_free p k st) x = heap_mem st x)"
proof -
  obtain bs where fr: "heap_scan_free p None (private_heap st) = Some (m, bs)"
    and bs: "heap_regions bs = heap_regions (private_heap st) - {(p, m)}"
    using ph.give_regs [OF ok p] by auto
  obtain noise xs where x: "xoshiro_randomness (xoshiro_s st) m = (noise, xs)"
    by (cases "xoshiro_randomness (xoshiro_s st) m")
  have len: "length noise = m" using length_xoshiro_randomness [of "xoshiro_s st" m] x by simp
  have "heap_mem (sqlcipher_free p k st) = mem_write p noise (heap_mem st)"
    "private_heap (sqlcipher_free p k st) = bs"
    using fr x by (simp_all add: sqlcipher_free_def)
  moreover have "map (mem_write p noise (heap_mem st)) [p..<p + m] = noise"
    by (rule nth_equalityI) (auto simp: len mem_write_def)
  ultimately show ?thesis using bs x len by (auto simp: mem_write_def)
qed

theorem sqlcipher_free_sound_witness:
  "heap_regions (private_heap (sqlcipher_free 16 0 (sample_heap_state\<lparr>private_heap :=
       [\<lparr>b_addr = 0, b_size = 8, is_used = True\<rparr>]\<rparr>))) = {}"
proof -
  let ?st = "sample_heap_state\<lparr>private_heap := [\<lparr>b_addr = 0, b_size = 8, is_used = True\<rparr>]\<rparr>"
  have "heap_ok 0 24 (private_heap ?st)" "(16, 8) \<in> heap_regions (private_heap ?st)"
    by (simp_all add: heap_ok_def heap_regions_Cons)
  from sqlcipher_free_sound [OF this, of 0] show ?thesis
    by (auto simp: heap_regions_Cons)
qed

lemma sqlcipher_free_used:
  "private_heap_used (sqlcipher_free p n st) =
     (case heap_scan_free p None (private_heap st) of
        None \<Rightarrow> private_heap_used st
      | Some (m, _) \<Rightarrow> (private_heap_used st + 2 ^ 64 - m) mod 2 ^ 64)"
  by (auto simp: sqlcipher_free_def sqlcipher_internal_free_def split: option.splits prod.splits)

text \<open>The statistic \<open>private_heap_used\<close> is not the number of bytes in use: an allocation adds the rounded
  request, but a release subtracts the size of the block, which is larger when the block was
  taken without a split. Five calls on a fresh heap end with one 8-byte block in use and a
  counter that has wrapped to 2^64 - 16.\<close>

theorem private_heap_used_drifts:
  "let m = (\<lambda>n st. snd (sqlcipher_malloc (\<lambda>_ _. None) n st));
       st = sqlcipher_free 4112 40 (m 40 (sqlcipher_free 4112 64 (m 8 (m 64 sample_heap_state))))
   in private_heap_used st = 2 ^ 64 - 16 \<and> heap_regions (private_heap st) = {(4192, 8)}"
  by (simp add: Let_def sqlcipher_free_used sqlcipher_free_heap sqlcipher_malloc_def
      sample_heap_state_def fresh_heap_def heap_roundup_def heap_regions_Cons)

text \<open>Creating the heap terminates and leaves either no block (no size from the initial one down to
  16384 could be allocated) or one free block that fills the allocation: a well-formed heap in
  which nothing is in use.\<close>

theorem private_heap_init_ok:
  assumes "private_heap st = []" "private_heap_sz st < 2 ^ 31" "8 dvd private_heap_sz st"
    and "\<And>live k q. xMalloc live k = Some q \<Longrightarrow> 8 dvd q"
  shows "private_heap (private_heap_init xMalloc st) = []
    \<or> (\<exists>a. heap_ok a (a + private_heap_sz (private_heap_init xMalloc st))
          (private_heap (private_heap_init xMalloc st))
        \<and> heap_regions (private_heap (private_heap_init xMalloc st)) = {})"
  using assms
proof (induction xMalloc st rule: private_heap_init.induct)
  case (1 xMalloc st)
  show ?case
  proof (cases "16384 \<le> private_heap_sz st")
    case False
    then show ?thesis using 1(2) by (simp add: private_heap_init.simps)
  next
    case True
    obtain r st' where r: "sqlcipher_internal_malloc xMalloc (private_heap_sz st) st = (r, st')"
      by (cases "sqlcipher_internal_malloc xMalloc (private_heap_sz st) st")
    show ?thesis
    proof (cases r)
      case None
      have "8 dvd private_heap_sz st - 16384" using 1(4) by (auto intro: dvd_diff_nat)
      then show ?thesis
        using 1(1) [OF True r [symmetric] None] 1(2,3,5) True r None
        by (simp add: private_heap_init.simps [of xMalloc st])
    next
      case (Some q)
      have "8 dvd q" "private_heap_sz st' = private_heap_sz st"
        using r Some 1(5)
        by (auto simp: sqlcipher_internal_malloc_def sqlite3_malloc_def Let_def
            split: option.splits if_splits)
      then have "heap_ok q (q + private_heap_sz st) (fresh_heap q (private_heap_sz st - 16))"
        using heap_ok_fresh [of q "private_heap_sz st - 16"] True 1(3,4) by (auto intro: dvd_diff_nat)
      moreover have "private_heap (private_heap_init xMalloc st) = fresh_heap q (private_heap_sz st - 16)"
        "private_heap_sz (private_heap_init xMalloc st) = private_heap_sz st"
        using True r Some 1(3) \<open>private_heap_sz st' = private_heap_sz st\<close>
        by (simp_all add: private_heap_init.simps [of xMalloc st] fresh_heap_def split: prod.splits)
      ultimately show ?thesis by (auto simp: fresh_heap_def heap_regions_def)
    qed
  qed
qed

theorem private_heap_init_ok_witness:
  "\<exists>a. heap_ok a (a + private_heap_sz (private_heap_init (\<lambda>live k. if k < 40000 then Some 4096 else None)
      (sample_heap_state\<lparr>private_heap := [], private_heap_sz := 49152\<rparr>)))
    (private_heap (private_heap_init (\<lambda>live k. if k < 40000 then Some 4096 else None)
      (sample_heap_state\<lparr>private_heap := [], private_heap_sz := 49152\<rparr>)))"
proof -
  let ?xm = "\<lambda>(live :: nat list) k. if k < (40000::nat) then Some (4096::nat) else None"
  let ?st = "sample_heap_state\<lparr>private_heap := [], private_heap_sz := 49152\<rparr>"
  have "private_heap (private_heap_init ?xm ?st) \<noteq> []"
    by (simp add: private_heap_init.simps [of ?xm ?st]
        private_heap_init.simps [of ?xm "sample_heap_state\<lparr>private_heap := [], private_heap_sz := 32768\<rparr>"]
        sqlcipher_internal_malloc_def sqlite3_malloc_def split: prod.splits)
  moreover have "\<And>live k q. ?xm live k = Some q \<Longrightarrow> 8 dvd q" by (simp split: if_splits)
  ultimately show ?thesis using private_heap_init_ok [of ?st ?xm] by simp
qed

end
