(* ===== verification/Util_Varint.thy ===== *)
theory Util_Varint
  imports Sc_Prelude
begin

text \<open>
  The byte-level integer codecs of \<open>src/util.c\<close>: four-byte big-endian integers and the
  variable-length integers of the SQLite file format. A writer returns the bytes it stores at
  its pointer; a reader takes the memory its pointer addresses, as a function from the offset to
  the byte there, so that what a reader may look at is part of what is proved about it.
\<close>

section \<open>Definitions\<close>

subsection \<open>Four-byte integers\<close>

definition sqlite3Get4byte :: "(nat \<Rightarrow> byte) \<Rightarrow> u32" where
  "sqlite3Get4byte p =
     push_bit 24 (ucast (p 0)) OR push_bit 16 (ucast (p 1)) OR push_bit 8 (ucast (p 2)) OR ucast (p 3)"

definition sqlite3Put4byte :: "u32 \<Rightarrow> byte list" where
  "sqlite3Put4byte v =
     [ucast (drop_bit 24 v), ucast (drop_bit 16 v), ucast (drop_bit 8 v), ucast v]"

subsection \<open>Writing a varint\<close>

text \<open>The loop over \<open>i = 7, ..., 0\<close> of the nine-byte case, and the loop that collects seven bits at a
  time, least significant first.\<close>

fun put_high_septets :: "nat \<Rightarrow> u64 \<Rightarrow> byte list \<Rightarrow> byte list" where
  "put_high_septets 0 v out = out"
| "put_high_septets (Suc i) v out =
     put_high_septets i (drop_bit 7 v) (ucast ((v AND 0x7f) OR 0x80) # out)"

function varint_septets :: "u64 \<Rightarrow> byte list" where
  "varint_septets v =
     ucast ((v AND 0x7f) OR 0x80)
     # (let v' = drop_bit 7 v in if v' \<noteq> 0 then varint_septets v' else [])"
  by pat_completeness auto
termination
  by (relation "measure unat") (auto simp: unat_drop_bit_less)

declare varint_septets.simps [simp del]

definition putVarint64 :: "u64 \<Rightarrow> byte list \<times> nat" where
  "putVarint64 v =
     (if v AND push_bit 32 0xff000000 \<noteq> 0 then
        (put_high_septets 8 (drop_bit 8 v) [ucast v], 9)
      else
        let buf = varint_septets v; n = length buf; buf = buf[0 := buf ! 0 AND 0x7f]
        in (rev buf, n))"

definition sqlite3PutVarint :: "u64 \<Rightarrow> byte list \<times> nat" where
  "sqlite3PutVarint v =
     (if v \<le> 0x7f then ([ucast (v AND 0x7f)], 1)
      else if v \<le> 0x3fff
      then ([ucast ((drop_bit 7 v AND 0x7f) OR 0x80), ucast (v AND 0x7f)], 2)
      else putVarint64 v)"

function sqlite3VarintLen_from :: "nat \<Rightarrow> u64 \<Rightarrow> nat" where
  "sqlite3VarintLen_from i v =
     (let v' = drop_bit 7 v in if v' \<noteq> 0 then sqlite3VarintLen_from (i + 1) v' else i)"
  by pat_completeness auto
termination
  by (relation "measure (\<lambda>(i, v). unat v)") (auto simp: unat_drop_bit_less)

declare sqlite3VarintLen_from.simps [simp del]

definition sqlite3VarintLen :: "u64 \<Rightarrow> nat" where
  "sqlite3VarintLen v = sqlite3VarintLen_from 1 v"

subsection \<open>Reading a varint\<close>

abbreviation (input) SLOT_2_0 :: u32 where "SLOT_2_0 \<equiv> 0x001fc07f"
abbreviation (input) SLOT_4_2_0 :: u32 where "SLOT_4_2_0 \<equiv> 0xf01fc07f"

definition sqlite3GetVarint :: "(nat \<Rightarrow> byte) \<Rightarrow> u64 \<times> nat" where
  "sqlite3GetVarint p =
    (if 0 \<le> sint (p 0) then (ucast (p 0), 1)
     else if 0 \<le> sint (p 1) then
       (ucast (push_bit 7 (ucast (p 0 AND 0x7f) :: u32) OR ucast (p 1)), 2)
     else
     let a = push_bit 14 (ucast (p 0) :: u32); b = ucast (p 1) :: u32; a = a OR ucast (p 2) in
     if a AND 0x80 = 0 then
       let a = a AND SLOT_2_0; b = b AND 0x7f; b = push_bit 7 b; a = a OR b in (ucast a, 3)
     else
     let a = a AND SLOT_2_0; b = push_bit 14 b; b = b OR ucast (p 3) in
     if b AND 0x80 = 0 then
       let b = b AND SLOT_2_0; a = push_bit 7 a; a = a OR b in (ucast a, 4)
     else
     let b = b AND SLOT_2_0; s = a; a = push_bit 14 a; a = a OR ucast (p 4) in
     if a AND 0x80 = 0 then
       let b = push_bit 7 b; a = a OR b; s = drop_bit 18 s in (push_bit 32 (ucast s) OR ucast a, 5)
     else
     let s = push_bit 7 s; s = s OR b; b = push_bit 14 b; b = b OR ucast (p 5) in
     if b AND 0x80 = 0 then
       let a = a AND SLOT_2_0; a = push_bit 7 a; a = a OR b; s = drop_bit 18 s
       in (push_bit 32 (ucast s) OR ucast a, 6)
     else
     let a = push_bit 14 a; a = a OR ucast (p 6) in
     if a AND 0x80 = 0 then
       let a = a AND SLOT_4_2_0; b = b AND SLOT_2_0; b = push_bit 7 b; a = a OR b; s = drop_bit 11 s
       in (push_bit 32 (ucast s) OR ucast a, 7)
     else
     let a = a AND SLOT_2_0; b = push_bit 14 b; b = b OR ucast (p 7) in
     if b AND 0x80 = 0 then
       let b = b AND SLOT_4_2_0; a = push_bit 7 a; a = a OR b; s = drop_bit 4 s
       in (push_bit 32 (ucast s) OR ucast a, 8)
     else
     let a = push_bit 15 a; a = a OR ucast (p 8); b = b AND SLOT_2_0; b = push_bit 8 b; a = a OR b;
         s = push_bit 4 s; b = ucast (p 4); b = b AND 0x7f; b = drop_bit 3 b; s = s OR b
     in (push_bit 32 (ucast s) OR ucast a, 9))"

text \<open>\<open>sqlite3GetVarint32\<close> as called through the macro \<open>getVarint32\<close>, which handles the single byte.\<close>

definition sqlite3GetVarint32 :: "(nat \<Rightarrow> byte) \<Rightarrow> u32 \<times> nat" where
  "sqlite3GetVarint32 p =
    (if p 1 AND 0x80 = 0 then (push_bit 7 (ucast (p 0 AND 0x7f)) OR ucast (p 1), 2)
     else if p 2 AND 0x80 = 0 then
       (push_bit 14 (ucast (p 0 AND 0x7f)) OR push_bit 7 (ucast (p 1 AND 0x7f)) OR ucast (p 2), 3)
     else
       let (v64, n) = sqlite3GetVarint p
       in (if v64 AND 0xffffffff \<noteq> v64 then 0xffffffff else ucast v64, n))"

definition getVarint32 :: "(nat \<Rightarrow> byte) \<Rightarrow> u32 \<times> nat" where
  "getVarint32 p = (if p 0 < 0x80 then (ucast (p 0), 1) else sqlite3GetVarint32 p)"

subsection \<open>The file format's description of a varint\<close>

text \<open>Seven bits per byte, most significant first, while the top bit is set; a ninth byte
  contributes all its eight bits. \<open>k\<close> is the number of bytes consumed so far.\<close>

function varint_value :: "nat \<Rightarrow> u64 \<Rightarrow> (nat \<Rightarrow> byte) \<Rightarrow> u64 \<times> nat" where
  "varint_value k acc p =
     (if 8 \<le> k then (push_bit 8 acc OR ucast (p k), k + 1)
      else if bit (p k) 7 then varint_value (k + 1) (push_bit 7 acc OR ucast (p k AND 0x7f)) p
      else (push_bit 7 acc OR ucast (p k), k + 1))"
  by pat_completeness auto
termination
  by (relation "measure (\<lambda>(k, acc, p). 9 - k)") auto

declare varint_value.simps [simp del]

section \<open>Lemmas\<close>

lemma septet_or: "push_bit 7 (drop_bit 7 v) OR (v AND 0x7f) = v" for v :: u64
proof (rule bit_word_eqI)
  fix n assume "n < LENGTH(64)"
  have "bit (0x7f :: u64) n \<longleftrightarrow> n < 7"
    using bit_mask_iff [of 7 n, where 'a = u64] \<open>n < LENGTH(64)\<close> by (simp add: mask_eq_exp_minus_1)
  then show "bit (push_bit 7 (drop_bit 7 v) OR (v AND 0x7f)) n = bit v n"
    using \<open>n < LENGTH(64)\<close> by (auto simp: bit_simps)
qed


lemma top_bit_test:
  fixes x :: u32
  assumes "8 \<le> k"
  shows "(push_bit k x OR ucast (b :: byte)) AND 0x80 = 0 \<longleftrightarrow> \<not> bit b 7"
proof -
  have "(push_bit k x OR ucast b) AND 2 ^ 7 = 0 \<longleftrightarrow> \<not> bit (push_bit k x OR ucast b) 7"
    by (rule and_exp_eq_0_iff_not_bit)
  then show ?thesis using assms by (simp add: bit_simps)
qed

lemmas varint_bits = bit_simps bit_byte_high bit_u64_high

lemma varint_value_steps:
  "varint_value 0 acc p = (if bit (p 0) 7 then varint_value 1 (push_bit 7 acc OR ucast (p 0 AND 0x7f)) p
     else (push_bit 7 acc OR ucast (p 0), 1))"
  "varint_value 1 acc p = (if bit (p 1) 7 then varint_value 2 (push_bit 7 acc OR ucast (p 1 AND 0x7f)) p
     else (push_bit 7 acc OR ucast (p 1), 2))"
  "varint_value 2 acc p = (if bit (p 2) 7 then varint_value 3 (push_bit 7 acc OR ucast (p 2 AND 0x7f)) p
     else (push_bit 7 acc OR ucast (p 2), 3))"
  "varint_value 3 acc p = (if bit (p 3) 7 then varint_value 4 (push_bit 7 acc OR ucast (p 3 AND 0x7f)) p
     else (push_bit 7 acc OR ucast (p 3), 4))"
  "varint_value 4 acc p = (if bit (p 4) 7 then varint_value 5 (push_bit 7 acc OR ucast (p 4 AND 0x7f)) p
     else (push_bit 7 acc OR ucast (p 4), 5))"
  "varint_value 5 acc p = (if bit (p 5) 7 then varint_value 6 (push_bit 7 acc OR ucast (p 5 AND 0x7f)) p
     else (push_bit 7 acc OR ucast (p 5), 6))"
  "varint_value 6 acc p = (if bit (p 6) 7 then varint_value 7 (push_bit 7 acc OR ucast (p 6 AND 0x7f)) p
     else (push_bit 7 acc OR ucast (p 6), 7))"
  "varint_value 7 acc p = (if bit (p 7) 7 then varint_value 8 (push_bit 7 acc OR ucast (p 7 AND 0x7f)) p
     else (push_bit 7 acc OR ucast (p 7), 8))"
  "varint_value 8 acc p = (push_bit 8 acc OR ucast (p 8), 9)"
  by (rule trans [OF varint_value.simps], simp add: numeral_eq_Suc)+

lemma top_bit_test_14:
  "(push_bit 14 x OR ucast (b :: byte)) AND 0x80 = (0 :: u32) \<longleftrightarrow> \<not> bit b 7"
  by (rule top_bit_test) simp

lemmas varint_cases =
  varint_value_steps sqlite3GetVarint_def sint_byte_nonneg Let_def top_bit_test_14 if_True if_False
  not_True_eq_False not_False_eq_True prod.inject

lemma getVarint_cases:
  "\<not> bit (p 0) 7 \<Longrightarrow>
    sqlite3GetVarint p = varint_value 0 0 p"
  "bit (p 0) 7 \<Longrightarrow> \<not> bit (p 1) 7 \<Longrightarrow>
    sqlite3GetVarint p = varint_value 0 0 p"
  "bit (p 0) 7 \<Longrightarrow> bit (p 1) 7 \<Longrightarrow> \<not> bit (p 2) 7 \<Longrightarrow>
    sqlite3GetVarint p = varint_value 0 0 p"
  "bit (p 0) 7 \<Longrightarrow> bit (p 1) 7 \<Longrightarrow> bit (p 2) 7 \<Longrightarrow> \<not> bit (p 3) 7 \<Longrightarrow>
    sqlite3GetVarint p = varint_value 0 0 p"
  "bit (p 0) 7 \<Longrightarrow> bit (p 1) 7 \<Longrightarrow> bit (p 2) 7 \<Longrightarrow> bit (p 3) 7 \<Longrightarrow> \<not> bit (p 4) 7 \<Longrightarrow>
    sqlite3GetVarint p = varint_value 0 0 p"
  "bit (p 0) 7 \<Longrightarrow> bit (p 1) 7 \<Longrightarrow> bit (p 2) 7 \<Longrightarrow> bit (p 3) 7 \<Longrightarrow> bit (p 4) 7 \<Longrightarrow> \<not> bit (p 5) 7 \<Longrightarrow>
    sqlite3GetVarint p = varint_value 0 0 p"
  "bit (p 0) 7 \<Longrightarrow> bit (p 1) 7 \<Longrightarrow> bit (p 2) 7 \<Longrightarrow> bit (p 3) 7 \<Longrightarrow> bit (p 4) 7 \<Longrightarrow> bit (p 5) 7 \<Longrightarrow> \<not> bit (p 6) 7 \<Longrightarrow>
    sqlite3GetVarint p = varint_value 0 0 p"
  "bit (p 0) 7 \<Longrightarrow> bit (p 1) 7 \<Longrightarrow> bit (p 2) 7 \<Longrightarrow> bit (p 3) 7 \<Longrightarrow> bit (p 4) 7 \<Longrightarrow> bit (p 5) 7 \<Longrightarrow> bit (p 6) 7 \<Longrightarrow> \<not> bit (p 7) 7 \<Longrightarrow>
    sqlite3GetVarint p = varint_value 0 0 p"
  "bit (p 0) 7 \<Longrightarrow> bit (p 1) 7 \<Longrightarrow> bit (p 2) 7 \<Longrightarrow> bit (p 3) 7 \<Longrightarrow> bit (p 4) 7 \<Longrightarrow> bit (p 5) 7 \<Longrightarrow> bit (p 6) 7 \<Longrightarrow> bit (p 7) 7 \<Longrightarrow>
    sqlite3GetVarint p = varint_value 0 0 p"
  by (simp only: varint_cases, intro conjI u64_eq_by_bits refl, simp add: varint_bits)+

lemma sqlite3GetVarint_value: "sqlite3GetVarint p = varint_value 0 0 p"
  using getVarint_cases [of p] by blast

subsection \<open>What the reader consumes\<close>

lemma varint_value_length: "k \<le> 8 \<Longrightarrow> k < snd (varint_value k acc p) \<and> snd (varint_value k acc p) \<le> 9"
proof (induction k acc p rule: varint_value.induct)
  case (1 k acc p)
  then show ?case by (subst (1 2) varint_value.simps) (auto simp: not_le Suc_le_eq)
qed

lemma varint_value_local:
  "k \<le> 8 \<Longrightarrow> \<forall>i < snd (varint_value k acc p). p i = q i \<Longrightarrow> varint_value k acc q = varint_value k acc p"
proof (induction k acc p rule: varint_value.induct)
  case (1 k acc p)
  have pk: "p k = q k" using 1(2,3) varint_value_length [of k acc p] by simp
  show ?case
  proof (cases "k < 8 \<and> bit (p k) 7")
    case True
    then have p: "varint_value k acc p = varint_value (k + 1) (push_bit 7 acc OR ucast (p k AND 0x7f)) p"
      and q: "varint_value k acc q = varint_value (k + 1) (push_bit 7 acc OR ucast (p k AND 0x7f)) q"
      using pk by (simp_all add: varint_value.simps [of k])
    have "\<forall>i < snd (varint_value (k + 1) (push_bit 7 acc OR ucast (p k AND 0x7f)) p). p i = q i"
      using 1(3) by (simp only: p)
    then show ?thesis unfolding p q using True by (intro 1(1)) simp_all
  next
    case False
    then show ?thesis using pk by (auto simp: varint_value.simps [of k])
  qed
qed

subsection \<open>Round trip\<close>

definition septet_fold :: "u64 \<Rightarrow> byte list \<Rightarrow> u64" where
  "septet_fold = foldl (\<lambda>acc b. push_bit 7 acc OR ucast (b AND 0x7f))"

lemma varint_value_septets:
  assumes "k + length bs \<le> 8" and "list_all (\<lambda>b. bit b 7) bs" and "\<forall>i < length bs. p (k + i) = bs ! i"
  shows "varint_value k acc p = varint_value (k + length bs) (septet_fold acc bs) p"
  using assms
proof (induction bs arbitrary: k acc)
  case (Cons b bs)
  have "p k = b" using Cons.prems(3) by force
  then have "varint_value k acc p = varint_value (k + 1) (push_bit 7 acc OR ucast (b AND 0x7f)) p"
    using Cons.prems by (simp add: varint_value.simps [of k])
  also have "\<dots> = varint_value (k + 1 + length bs) (septet_fold (push_bit 7 acc OR ucast (b AND 0x7f)) bs) p"
    using Cons.prems by (intro Cons.IH) (auto simp: nth_Cons')
  finally show ?case by (simp add: septet_fold_def)
qed (simp add: septet_fold_def)

lemma septet_byte: "ucast (ucast ((v AND 0x7f) OR 0x80) AND 0x7f :: byte) = v AND 0x7f" for v :: u64
  by (rule u64_eq_by_bits) (simp add: varint_bits)

lemma septet_byte_top: "bit (ucast ((v AND 0x7f) OR 0x80) :: byte) 7" for v :: u64
  by (simp add: bit_simps)

lemma varint_septets_top: "list_all (\<lambda>b. bit b 7) (varint_septets v)"
  by (induction v rule: varint_septets.induct)
    (subst varint_septets.simps, simp add: septet_byte_top Let_def)

lemma septet_fold_varint_septets: "septet_fold 0 (rev (varint_septets v)) = v"
proof (induction v rule: varint_septets.induct)
  case (1 v)
  show ?case
  proof (cases "drop_bit 7 v = 0")
    case True
    then have "v AND 0x7f = v" using septet_or [of v] by simp
    then show ?thesis using True septet_byte [of v]
      by (subst varint_septets.simps) (simp add: septet_fold_def)
  next
    case False
    then have "septet_fold 0 (rev (varint_septets (drop_bit 7 v))) = drop_bit 7 v" using 1 by blast
    then show ?thesis using False
      by (subst varint_septets.simps) (simp add: septet_fold_def septet_byte septet_or)
  qed
qed

lemma length_varint_septets: "unat v < 128 ^ Suc n \<Longrightarrow> length (varint_septets v) \<le> Suc n"
proof (induction n arbitrary: v)
  case 0
  then have "drop_bit 7 v = 0" by (simp add: unat_eq_zero [symmetric] unat_drop_bit)
  then show ?case by (subst varint_septets.simps) simp
next
  case (Suc n)
  then have "unat (drop_bit 7 v) < 128 ^ Suc n" by (simp add: unat_drop_bit less_mult_imp_div_less)
  then show ?case using Suc.IH by (subst varint_septets.simps) (simp add: Let_def)
qed


lemma u64_below_56: "v AND push_bit 32 0xff000000 = 0 \<longleftrightarrow> drop_bit 56 v = 0" for v :: u64
proof -
  have "v AND push_bit 32 0xff000000 = push_bit 56 (drop_bit 56 v)"
    by (rule u64_eq_by_bits) (simp add: varint_bits)
  moreover have "drop_bit 56 (v AND push_bit 32 0xff000000) = drop_bit 56 v"
    by (rule u64_eq_by_bits) (simp add: varint_bits)
  ultimately show ?thesis by (metis drop_bit_of_0 push_bit_of_0)
qed

lemma length_varint_septets_8:
  assumes "drop_bit 56 v = 0"
  shows "length (varint_septets v) \<le> 8"
proof -
  have "unat v div 2 ^ 56 = 0" using assms by (simp only: unat_drop_bit [symmetric] unat_0)
  then have "unat v < 128 ^ Suc 7" by (simp add: div_eq_0_iff)
  then show ?thesis using length_varint_septets [of v 7] by simp
qed

lemma septet_fold_high:
  fixes v :: u64
  shows "push_bit 7 (push_bit 7 (push_bit 7 (push_bit 7 (push_bit 7 (push_bit 7 (push_bit 7
     (drop_bit 57 v AND 127) OR (drop_bit 50 v AND 127)) OR (drop_bit 43 v AND 127))
     OR (drop_bit 36 v AND 127)) OR (drop_bit 29 v AND 127)) OR (drop_bit 22 v AND 127))
     OR (drop_bit 15 v AND 127)) OR (drop_bit 8 v AND 127) = drop_bit 8 v"
  by (rule u64_eq_by_bits) (simp add: varint_bits)

lemma put_high_septets_rev:
  "put_high_septets n v out = rev (map (\<lambda>i. ucast ((drop_bit (7 * i) v AND 0x7f) OR 0x80)) [0..<n]) @ out"
proof (induction n arbitrary: v out)
  case (Suc n)
  have "[0..<Suc n] = 0 # map Suc [0..<n]" by (simp add: map_Suc_upt upt_conv_Cons del: upt_Suc)
  then show ?case using Suc.IH by (simp add: o_def add.commute del: upt_Suc)
qed simp

lemma length_put_high_septets [simp]: "length (put_high_septets n v out) = n + length out"
  by (simp add: put_high_septets_rev)

lemma upt_0_8: "[0..<8] = [0, 1, 2, 3, 4, 5, 6, 7 :: nat]"
  by (simp add: upt_rec)

lemma put_high_septets_8:
  fixes v :: u64
  defines "bs \<equiv> put_high_septets 8 (drop_bit 8 v) []"
  shows "put_high_septets 8 (drop_bit 8 v) [ucast v] = bs @ [ucast v]" and "length bs = 8"
    and "list_all (\<lambda>b. bit b 7) bs" and "septet_fold 0 bs = drop_bit 8 v"
proof -
  show "put_high_septets 8 (drop_bit 8 v) [ucast v] = bs @ [ucast v]" and "length bs = 8"
    by (simp_all add: bs_def put_high_septets_rev)
  show "list_all (\<lambda>b. bit b 7) bs"
    by (simp only: bs_def put_high_septets_rev list_all_iff set_rev set_map append_Nil2)
      (auto simp: septet_byte_top simp del: bit_or_iff)
  have "septet_fold 0 bs = foldl (\<lambda>acc i. push_bit 7 acc OR (drop_bit (7 * i + 8) v AND 0x7f)) 0 (rev [0..<8])"
    by (simp add: bs_def put_high_septets_rev septet_fold_def foldl_map rev_map septet_byte)
  also have "\<dots> = drop_bit 8 v"
    unfolding upt_0_8 using septet_fold_high [of v] by simp
  finally show "septet_fold 0 bs = drop_bit 8 v" .
qed

lemma varint_septets_last:
  "varint_value k (drop_bit 7 v) p = (v, k + 1)"
  if "p k = ucast ((v AND 0x7f) OR 0x80) AND 0x7f" "k < 8"
proof -
  have top: "\<not> bit (p k) 7" using that(1) by (simp add: bit_simps)
  have "ucast (p k) = v AND 0x7f" by (simp only: that(1) septet_byte)
  then show ?thesis using top that(2) by (simp add: varint_value.simps [of k] septet_or)
qed

lemma putVarint64_short:
  assumes v: "drop_bit 56 v = 0"
  defines "bs \<equiv> rev ((varint_septets v)[0 := varint_septets v ! 0 AND 0x7f])"
  assumes p: "\<forall>i < length bs. p i = bs ! i"
  shows "varint_value 0 0 p = (v, length bs)"
proof -
  define hi where "hi = (if drop_bit 7 v \<noteq> 0 then rev (varint_septets (drop_bit 7 v)) else [])"
  have sep: "varint_septets v = ucast ((v AND 0x7f) OR 0x80) # rev hi"
    by (subst varint_septets.simps) (simp add: hi_def)
  have bs: "bs = hi @ [ucast ((v AND 0x7f) OR 0x80) AND 0x7f]" by (simp add: bs_def sep)
  have "length bs \<le> 8" using length_varint_septets_8 [OF v] by (simp add: bs_def)
  then have len: "length hi < 8" by (simp add: bs)
  have "varint_value 0 0 p = varint_value (length hi) (septet_fold 0 hi) p"
    using varint_value_septets [of 0 hi p 0] len p varint_septets_top
    by (auto simp: bs nth_append hi_def)
  also have "septet_fold 0 hi = drop_bit 7 v"
    using septet_fold_varint_septets [of "drop_bit 7 v"] by (auto simp: hi_def septet_fold_def)
  also have "varint_value (length hi) (drop_bit 7 v) p = (v, length hi + 1)"
    using p len by (intro varint_septets_last) (auto simp: bs nth_append)
  finally show ?thesis by (simp add: bs)
qed

lemma putVarint64_long:
  assumes p: "\<forall>i < 9. p i = put_high_septets 8 (drop_bit 8 v) [ucast v] ! i"
  shows "varint_value 0 0 p = (v, 9)"
proof -
  define bs where "bs = put_high_septets 8 (drop_bit 8 v) []"
  note bs = put_high_septets_8 [of v, folded bs_def]
  have "varint_value 0 0 p = varint_value 8 (drop_bit 8 v) p"
    using varint_value_septets [of 0 bs p 0] p bs by (simp add: nth_append)
  moreover have "p 8 = ucast v" using p bs(1,2) by (simp add: nth_append)
  moreover have "push_bit 8 (drop_bit 8 v) OR ucast (ucast v :: byte) = v"
    by (rule u64_eq_by_bits) (simp add: varint_bits)
  ultimately show ?thesis by (simp add: varint_value.simps [of 8])
qed

lemma putVarint64_value:
  assumes "putVarint64 v = (bs, n)" and "\<forall>i < n. p i = bs ! i"
  shows "varint_value 0 0 p = (v, n) \<and> length bs = n"
proof (cases "drop_bit 56 v = 0")
  case True
  then show ?thesis using assms(2) putVarint64_short [OF True, of p]
      assms(1) [unfolded putVarint64_def u64_below_56]
    by (auto simp: Let_def)
next
  case False
  then show ?thesis using assms(2) putVarint64_long [of p v]
      assms(1) [unfolded putVarint64_def u64_below_56]
    by auto
qed


lemma drop_bit_eq_0_less: "drop_bit k v = 0 \<longleftrightarrow> unat v < 2 ^ k" for v :: u64
  by (simp add: unat_eq_zero [symmetric] unat_drop_bit div_eq_0_iff)

lemma u64_le_septets: "v \<le> 0x7f \<longleftrightarrow> drop_bit 7 v = 0" "v \<le> 0x3fff \<longleftrightarrow> drop_bit 14 v = 0" for v :: u64
  by (auto simp: drop_bit_eq_0_less word_le_nat_alt)

lemma septet_byte_clear: "ucast ((v AND 0x7f) OR 0x80) AND 0x7f = (ucast (v AND 0x7f) :: byte)" for v :: u64
  by (rule byte_eq_by_bits) (simp add: varint_bits)

lemma varint_septets_1: "drop_bit 7 v = 0 \<Longrightarrow> varint_septets v = [ucast ((v AND 0x7f) OR 0x80)]"
  by (subst varint_septets.simps) simp

lemma varint_septets_2:
  assumes "drop_bit 7 v \<noteq> 0" and "drop_bit 14 v = 0"
  shows "varint_septets v = [ucast ((v AND 0x7f) OR 0x80), ucast ((drop_bit 7 v AND 0x7f) OR 0x80)]"
proof -
  have "drop_bit 7 (drop_bit 7 v) = 0" using assms(2) by simp
  then show ?thesis using assms(1) varint_septets_1 [of "drop_bit 7 v"]
    by (subst varint_septets.simps) (simp only: Let_def if_True not_False_eq_True)
qed

text \<open>The one- and two-byte fast paths agree with the general routine.\<close>

lemma sqlite3PutVarint_64: "sqlite3PutVarint v = putVarint64 v"
proof -
  have mono: "drop_bit j v = 0 \<Longrightarrow> j \<le> k \<Longrightarrow> drop_bit k v = 0" for j k
    by (auto simp: drop_bit_eq_0_less intro: less_le_trans)
  consider "drop_bit 7 v = 0" | "drop_bit 7 v \<noteq> 0" "drop_bit 14 v = 0"
    | "drop_bit 7 v \<noteq> 0" "drop_bit 14 v \<noteq> 0" by blast
  then show ?thesis
  proof cases
    case 1
    then show ?thesis using mono [of 7 56] varint_septets_1 [of v]
      unfolding sqlite3PutVarint_def putVarint64_def u64_below_56 u64_le_septets
      by (simp add: septet_byte_clear Let_def)
  next
    case 2
    then show ?thesis using mono [of 14 56] varint_septets_2 [of v]
      unfolding sqlite3PutVarint_def putVarint64_def u64_below_56 u64_le_septets
      by (simp add: septet_byte_clear Let_def)
  next
    case 3
    then show ?thesis by (simp add: sqlite3PutVarint_def u64_le_septets)
  qed
qed

lemma septets_length_from: "sqlite3VarintLen_from (Suc i) v = i + length (varint_septets v)"
proof (induction v arbitrary: i rule: varint_septets.induct)
  case (1 v)
  show ?case
  proof (cases "drop_bit 7 v = 0")
    case True
    then show ?thesis by (subst varint_septets.simps, subst sqlite3VarintLen_from.simps) simp
  next
    case False
    then show ?thesis using 1 [OF refl False, of "Suc i"]
      by (subst varint_septets.simps, subst sqlite3VarintLen_from.simps) simp
  qed
qed

lemma length_varint_septets_ge: "128 ^ n \<le> unat v \<Longrightarrow> n < length (varint_septets v)"
proof (induction n arbitrary: v)
  case 0
  then show ?case by (subst varint_septets.simps) simp
next
  case (Suc n)
  have le: "128 ^ n \<le> unat (drop_bit 7 v)"
    using div_le_mono [OF Suc.prems, of 128] by (simp add: unat_drop_bit)
  then have "drop_bit 7 v \<noteq> 0" using unat_0 [where 'a = 64] by auto
  then show ?case using Suc.IH [OF le] by (subst varint_septets.simps) simp
qed

lemma byte_top_bit: "b AND 0x80 = 0 \<longleftrightarrow> \<not> bit b 7" "b < 0x80 \<longleftrightarrow> \<not> bit b 7" for b :: byte
proof -
  show *: "b AND 0x80 = 0 \<longleftrightarrow> \<not> bit b 7"
    using and_exp_eq_0_iff_not_bit [of b 7] by simp
  have "b < 0x80 \<longleftrightarrow> drop_bit 7 b = 0"
    by (simp add: unat_eq_zero [symmetric] unat_drop_bit div_eq_0_iff word_less_nat_alt)
  also have "drop_bit 7 b = 0 \<longleftrightarrow> drop_bit 7 b AND 1 = 0"
    by (rule arg_cong [where f = "\<lambda>x. x = 0"], rule byte_eq_by_bits) (simp add: varint_bits)
  also have "\<dots> \<longleftrightarrow> \<not> bit b 7"
    by (simp add: and_one_eq bit_iff_odd_drop_bit odd_iff_mod_2_eq_one)
  finally show "b < 0x80 \<longleftrightarrow> \<not> bit b 7" .
qed

lemma u32_mask_test: "v AND 0xffffffff \<noteq> v \<longleftrightarrow> 0xffffffff < v" for v :: u64
proof -
  have "v AND 0xffffffff = take_bit 32 v" by (simp add: take_bit_eq_mask mask_eq_exp_minus_1)
  then have "v AND 0xffffffff = v \<longleftrightarrow> unat (take_bit 32 v) = unat v"
    by (metis unsigned_word_eqI)
  also have "\<dots> \<longleftrightarrow> unat v < 2 ^ 32" by (simp only: unsigned_take_bit_eq take_bit_nat_eq_self_iff)
  also have "\<dots> \<longleftrightarrow> \<not> 0xffffffff < v" by (simp add: word_less_nat_alt not_less) linarith
  finally show ?thesis by blast
qed

lemma u32_widened: "\<not> 0xffffffff < (ucast w :: u64)" "ucast (ucast w :: u64) = w" for w :: u32
proof -
  have "ucast w AND 0xffffffff = (ucast w :: u64)"
    by (rule u64_eq_by_bits) (simp add: bit_simps bit_u32_high)
  then show "\<not> 0xffffffff < (ucast w :: u64)" using u32_mask_test [of "ucast w"] by blast
  show "ucast (ucast w :: u64) = w" by (rule u32_eq_by_bits) (simp add: bit_simps)
qed

section \<open>Properties\<close>

text \<open>C39. The unrolled reader, with its masks and its two interleaved accumulators, computes the
  value and the length that the file format defines, on every input.\<close>

theorem getVarint_refines_format: "sqlite3GetVarint p = varint_value 0 0 p"
  by (rule sqlite3GetVarint_value)

text \<open>The reader consumes between one and nine bytes and looks at no byte beyond those it
  reports: memory that agrees on them gives the same result.\<close>

theorem getVarint_reads_only_its_bytes:
  assumes "\<forall>i < snd (sqlite3GetVarint p). p i = q i"
  shows "sqlite3GetVarint q = sqlite3GetVarint p
    \<and> 1 \<le> snd (sqlite3GetVarint p) \<and> snd (sqlite3GetVarint p) \<le> 9"
  using assms varint_value_local [of 0 0 p q] varint_value_length [of 0 0 p]
  by (simp add: sqlite3GetVarint_value Suc_le_eq)

theorem getVarint_reads_only_its_bytes_witness:
  "sqlite3GetVarint (\<lambda>i. [0x81, 0x01] ! i) = (129, 2)
   \<and> sqlite3GetVarint ((\<lambda>_. 7)(0 := 0x81, 1 := 0x01)) = sqlite3GetVarint (\<lambda>i. [0x81, 0x01] ! i)"
proof -
  have g: "sqlite3GetVarint (\<lambda>i. [0x81, 0x01] ! i) = (129, 2)"
    by (simp add: sqlite3GetVarint_value varint_value.simps)
  then show ?thesis
    using getVarint_reads_only_its_bytes [of "\<lambda>i. [0x81, 0x01] ! i" "(\<lambda>_. 7)(0 := 0x81, 1 := 0x01)"]
    by (simp add: less_2_cases_iff)
qed

text \<open>Every 64-bit value round-trips: what \<open>sqlite3PutVarint\<close> writes has the length it returns,
  and wherever those bytes lie in memory \<open>sqlite3GetVarint\<close> reads the value and that length back.\<close>

theorem varint_roundtrip:
  assumes "sqlite3PutVarint v = (bs, n)" and "\<forall>i < n. p i = bs ! i"
  shows "sqlite3GetVarint p = (v, n) \<and> length bs = n"
  using assms putVarint64_value by (simp add: sqlite3PutVarint_64 sqlite3GetVarint_value)

theorem varint_roundtrip_witness:
  "sqlite3PutVarint 300 = ([0x82, 0x2c], 2) \<and> sqlite3GetVarint (\<lambda>i. [0x82, 0x2c] ! i) = (300, 2)"
proof -
  have "sqlite3PutVarint 300 = ([0x82, 0x2c], 2)" by (simp add: sqlite3PutVarint_def)
  then show ?thesis using varint_roundtrip [of 300 "[0x82, 0x2c]" 2 "\<lambda>i. [0x82, 0x2c] ! i"] by simp
qed

text \<open>\<open>getVarint32\<close> returns the length of the varint and its value, with every value that does not
  fit 32 bits replaced by the largest one that does.\<close>

theorem getVarint32_saturates:
  "getVarint32 p =
     (let (v, n) = varint_value 0 0 p in (if 0xffffffff < v then 0xffffffff else ucast v, n))"
proof -
  have short: ?thesis if "varint_value 0 0 p = (ucast w, n)" "getVarint32 p = (w, n)" for w n
    using that u32_widened [of w] by simp
  consider "\<not> bit (p 0) 7" | "bit (p 0) 7" "\<not> bit (p 1) 7" | "bit (p 0) 7" "bit (p 1) 7" "\<not> bit (p 2) 7"
    | "bit (p 0) 7" "bit (p 1) 7" "bit (p 2) 7" by blast
  then show ?thesis
  proof cases
    case 1
    then show ?thesis
      by (intro short [of "ucast (p 0)" 1]; simp only: getVarint32_def byte_top_bit varint_cases)
        (intro conjI refl u64_eq_by_bits; simp add: varint_bits)
  next
    case 2
    then show ?thesis
      by (intro short [of "push_bit 7 (ucast (p 0 AND 0x7f)) OR ucast (p 1)" 2];
          simp only: getVarint32_def sqlite3GetVarint32_def byte_top_bit varint_cases)
        (intro conjI refl u64_eq_by_bits; simp add: varint_bits)
  next
    case 3
    then show ?thesis
      by (intro short [of "push_bit 14 (ucast (p 0 AND 0x7f)) OR push_bit 7 (ucast (p 1 AND 0x7f)) OR ucast (p 2)" 3];
          simp only: getVarint32_def sqlite3GetVarint32_def byte_top_bit varint_cases)
        (intro conjI refl u64_eq_by_bits; simp add: varint_bits)
  next
    case 4
    then show ?thesis
      by (simp add: getVarint32_def byte_top_bit sqlite3GetVarint32_def sqlite3GetVarint_value u32_mask_test)
  qed
qed

text \<open>\<open>sqlite3VarintLen\<close> is the number of bytes \<open>sqlite3PutVarint\<close> writes, except for values of
  at least \<open>2 ^ 63\<close>, where it returns 10 although 9 bytes are written.\<close>

theorem varintLen_exact:
  "sqlite3VarintLen v = (if unat v < 2 ^ 63 then snd (sqlite3PutVarint v) else 10)"
proof -
  have len: "sqlite3VarintLen v = length (varint_septets v)"
    using septets_length_from [of 0 v] by (simp add: sqlite3VarintLen_def)
  have put: "snd (sqlite3PutVarint v) = (if unat v < 2 ^ 56 then length (varint_septets v) else 9)"
    unfolding sqlite3PutVarint_64 putVarint64_def u64_below_56 drop_bit_eq_0_less by (simp add: Let_def)
  have "unat v < 2 ^ 64" using unat_less_pow [of v] by simp
  then have ten: "length (varint_septets v) \<le> 10" using length_varint_septets [of v 9] by simp
  show ?thesis
    using len put ten length_varint_septets [of v 8] length_varint_septets_ge [of 8 v]
      length_varint_septets_ge [of 9 v] by auto
qed

text \<open>Four-byte big-endian integers: reading what was written gives the value, and writing what
  was read gives the bytes.\<close>

theorem fourbyte_roundtrip:
  "sqlite3Get4byte (\<lambda>i. sqlite3Put4byte v ! i) = v
   \<and> sqlite3Put4byte (sqlite3Get4byte p) = [p 0, p 1, p 2, p 3]"
proof
  show "sqlite3Get4byte (\<lambda>i. sqlite3Put4byte v ! i) = v"
    by (rule u32_eq_by_bits)
      (simp add: sqlite3Get4byte_def sqlite3Put4byte_def bit_simps bit_byte_high)
  show "sqlite3Put4byte (sqlite3Get4byte p) = [p 0, p 1, p 2, p 3]"
    unfolding sqlite3Get4byte_def sqlite3Put4byte_def list.inject
    by (intro conjI byte_eq_by_bits refl) (simp_all add: bit_simps bit_byte_high)
qed

end
