(* ===== verification/Codec_Ctx.thy ===== *)
theory Codec_Ctx
  imports Private_Heap Util_Varint
begin

text \<open>
  The codec context of \<open>src/sqlcipher.c\<close>: the two cipher contexts with their key, HMAC key and
  passphrase buffers, their creation, comparison, copy and release on the private heap, the
  setters of the codec parameters, and the creation and release of the whole context.

  A pointer to heap memory is a \<open>heap_buf option\<close>: the address \<open>sqlcipher_malloc\<close> returned and the
  bytes stored there, \<open>None\<close> for NULL. C \<open>int\<close> fields are integers; a size passed to the allocator
  is first converted to 64 bits unsigned, as the C call does. The cryptographic provider is the
  record of function pointers of \<open>sqlcipher.h\<close>; its type parameter is the provider's own
  context. A pointer to a B-tree is an index into \<open>bt_store\<close>, which holds what the codec reads and
  writes of it. A NULL sub-context would be dereferenced by the code; those branches leave
  the state alone, and the theorems are about contexts that have both. Log calls are left out.
\<close>

section \<open>Definitions\<close>

subsection \<open>Data\<close>

record heap_buf =
  buf_addr :: nat
  buf_data :: "byte list"

record 'p provider =
  p_add_random :: "'p \<Rightarrow> byte list \<Rightarrow> int \<times> 'p"
  p_random :: "'p \<Rightarrow> nat \<Rightarrow> int \<times> byte list \<times> 'p"
  p_hmac :: "'p \<Rightarrow> int \<Rightarrow> byte list \<Rightarrow> byte list \<Rightarrow> byte list \<Rightarrow> int \<times> byte list"
  p_kdf :: "'p \<Rightarrow> int \<Rightarrow> byte list \<Rightarrow> byte list \<Rightarrow> int \<Rightarrow> nat \<Rightarrow> int \<times> byte list"
  p_cipher :: "'p \<Rightarrow> int \<Rightarrow> byte list \<Rightarrow> byte list \<Rightarrow> byte list \<Rightarrow> int \<times> byte list"
  p_get_key_sz :: "'p \<Rightarrow> int"
  p_get_iv_sz :: "'p \<Rightarrow> int"
  p_get_block_sz :: "'p \<Rightarrow> int"
  p_get_hmac_sz :: "'p \<Rightarrow> int \<Rightarrow> int"
  p_ctx_init :: "int \<times> 'p"
  p_null_ctx :: 'p

record cipher_ctx =
  cc_addr :: nat
  derive_key :: int
  pass_sz :: int
  cc_key :: "heap_buf option"
  cc_hmac_key :: "heap_buf option"
  cc_pass :: "heap_buf option"

record 'p codec_ctx =
  ctx_addr :: nat
  store_pass :: int
  kdf_iter :: int
  fast_kdf_iter :: int
  kdf_salt_sz :: int
  key_sz :: int
  iv_sz :: int
  block_sz :: int
  page_sz :: int
  reserve_sz :: int
  hmac_sz :: int
  plaintext_header_sz :: int
  hmac_algorithm :: int
  kdf_algorithm :: int
  ctx_error :: int
  ctx_flags :: u32
  kdf_salt :: "heap_buf option"
  hmac_kdf_salt :: "heap_buf option"
  ctx_buffer :: "heap_buf option"
  pBt :: nat
  read_ctx :: "cipher_ctx option"
  write_ctx :: "cipher_ctx option"
  ctx_provider :: "'p provider"
  provider_ctx :: 'p

text \<open>What the codec sees of the B-tree and its pager: the file (\<open>fd_open\<close> is false for a NULL file
  or one without methods), \<open>sqlite3OsRead\<close> as a function of size and offset giving the result
  code and the bytes stored, the file size, the auto-vacuum mode, the error codes, and the fields
  of \<open>BtShared\<close> and \<open>Pager\<close> that attaching a codec changes (\<open>pager_opened\<close> is \<open>eState > PAGER_OPEN\<close>
  of a pager without error).\<close>

record btree =
  fd_open :: bool
  os_read :: "nat \<Rightarrow> nat \<Rightarrow> int \<times> byte list"
  os_file_size :: nat
  bt_autovacuum :: int
  pager_errCode :: int
  pager_eState_error :: bool
  db_errCode :: int
  bt_sharable :: bool
  bts_pagesize_fixed :: bool
  bts_secure :: int
  bt_pageSize :: int
  bt_usableSize :: int
  bt_nReserveWanted :: int
  pager_memDb :: bool
  pager_opened :: bool
  pager_refs :: int
  pager_dbSize :: int
  pager_pageSize :: int
  pager_nReserve :: int
  pager_lckPgno :: int

record 'p sc_state = heap_state +
  default_flags :: u32
  hmac_salt_mask :: byte
  default_kdf_iter :: int
  default_page_size :: int
  default_plaintext_header_size :: int
  default_hmac_algorithm :: int
  default_kdf_algorithm :: int
  default_provider :: "'p provider"
  shield_mask :: "byte list"
  bt_store :: "nat \<Rightarrow> btree"

abbreviation (input) FILE_HEADER_SZ :: int where "FILE_HEADER_SZ \<equiv> 16"
abbreviation (input) FAST_PBKDF2_ITER :: int where "FAST_PBKDF2_ITER \<equiv> 2"
abbreviation (input) CIPHER_FLAG_HMAC :: u32 where "CIPHER_FLAG_HMAC \<equiv> 1"
abbreviation (input) CIPHER_FLAG_LE_PGNO :: u32 where "CIPHER_FLAG_LE_PGNO \<equiv> 2"
abbreviation (input) CIPHER_FLAG_BE_PGNO :: u32 where "CIPHER_FLAG_BE_PGNO \<equiv> 4"
abbreviation (input) CIPHER_FLAG_KEY_USED :: u32 where "CIPHER_FLAG_KEY_USED \<equiv> 8"
abbreviation (input) CIPHER_FLAG_HAS_KDF_SALT :: u32 where "CIPHER_FLAG_HAS_KDF_SALT \<equiv> 16"
abbreviation (input) sizeof_cipher_ctx :: int where "sizeof_cipher_ctx \<equiv> 32"
abbreviation (input) sizeof_codec_ctx :: int where "sizeof_codec_ctx \<equiv> 128"

definition flag_get :: "u32 \<Rightarrow> u32 \<Rightarrow> bool" where "flag_get f b \<longleftrightarrow> f AND b \<noteq> 0"
definition flag_set :: "u32 \<Rightarrow> u32 \<Rightarrow> u32" where "flag_set f b = f OR b"
definition flag_unset :: "u32 \<Rightarrow> u32 \<Rightarrow> u32" where "flag_unset f b = f AND NOT b"

subsection \<open>Heap buffers\<close>

text \<open>\<open>sc_alloc\<close> is \<open>sqlcipher_malloc\<close> of an \<open>int\<close> size, with the zeroed bytes it returns; \<open>sc_free\<close> is
  the idiom \<open>if(p) sqlcipher_free(p, n)\<close>.\<close>

definition size_arg :: "int \<Rightarrow> nat" where
  "size_arg n = nat (n mod 2 ^ 64)"

definition sc_alloc ::
    "xmalloc \<Rightarrow> int \<Rightarrow> 'a heap_state_scheme \<Rightarrow> heap_buf option \<times> 'a heap_state_scheme" where
  "sc_alloc xMalloc n st =
     (case sqlcipher_malloc xMalloc (size_arg n) st of
        (None, st') \<Rightarrow> (None, st')
      | (Some p, st') \<Rightarrow>
          (Some \<lparr>buf_addr = p,
                 buf_data = replicate (min (size_arg n) (heap_roundup (size_arg n))) 0\<rparr>, st'))"

definition sc_free :: "heap_buf option \<Rightarrow> int \<Rightarrow> 'a heap_state_scheme \<Rightarrow> 'a heap_state_scheme" where
  "sc_free b n st = (case b of None \<Rightarrow> st | Some b \<Rightarrow> sqlcipher_free (buf_addr b) (size_arg n) st)"

definition buf_bytes :: "heap_buf option \<Rightarrow> byte list" where
  "buf_bytes b = (case b of None \<Rightarrow> [] | Some b \<Rightarrow> buf_data b)"

definition buf_update :: "(byte list \<Rightarrow> byte list) \<Rightarrow> heap_buf option \<Rightarrow> heap_buf option" where
  "buf_update f = map_option (\<lambda>b. b\<lparr>buf_data := f (buf_data b)\<rparr>)"

text \<open>\<open>memcpy(dst, src, n)\<close> into a buffer.\<close>

definition buf_copy :: "byte list \<Rightarrow> int \<Rightarrow> heap_buf option \<Rightarrow> heap_buf option" where
  "buf_copy src n = buf_update (buf_write 0 (take (nat n) src))"

text \<open>\<open>if((rc = step) != SQLITE_OK) return rc;\<close> followed by the rest.\<close>

definition then_ok :: "int \<times> 's \<Rightarrow> ('s \<Rightarrow> int \<times> 's) \<Rightarrow> int \<times> 's" where
  "then_ok r k = (if fst r \<noteq> SQLITE_OK then r else k (snd r))"

subsection \<open>Cipher contexts\<close>

definition sqlcipher_cipher_ctx_init ::
    "xmalloc \<Rightarrow> 'p codec_ctx \<Rightarrow> 'a heap_state_scheme \<Rightarrow> int \<times> cipher_ctx option \<times> 'a heap_state_scheme" where
  "sqlcipher_cipher_ctx_init xMalloc ctx st =
     (case sc_alloc xMalloc sizeof_cipher_ctx st of
        (None, st) \<Rightarrow> (SQLITE_NOMEM, None, st)
      | (Some b, st) \<Rightarrow>
          let (k, st) = sc_alloc xMalloc (key_sz ctx) st;
              (h, st) = sc_alloc xMalloc (key_sz ctx) st;
              c_ctx = \<lparr>cc_addr = buf_addr b, derive_key = 0, pass_sz = 0, cc_key = k,
                       cc_hmac_key = h, cc_pass = None\<rparr>
          in (if k = None \<or> h = None then SQLITE_NOMEM else SQLITE_OK, Some c_ctx, st))"

definition sqlcipher_cipher_ctx_free ::
    "'p codec_ctx \<Rightarrow> cipher_ctx \<Rightarrow> 'a heap_state_scheme \<Rightarrow> 'a heap_state_scheme" where
  "sqlcipher_cipher_ctx_free ctx c_ctx st =
     (let st = sc_free (cc_key c_ctx) (key_sz ctx) st;
          st = sc_free (cc_hmac_key c_ctx) (key_sz ctx) st;
          st = sc_free (cc_pass c_ctx) (pass_sz c_ctx) st
      in sqlcipher_free (cc_addr c_ctx) (size_arg sizeof_cipher_ctx) st)"

text \<open>C division truncates towards zero; the sizes here are not negative.\<close>

definition sqlcipher_codec_ctx_reserve_setup :: "'p codec_ctx \<Rightarrow> int \<times> 'p codec_ctx" where
  "sqlcipher_codec_ctx_reserve_setup ctx =
     (let reserve = iv_sz ctx;
          ctx = ctx\<lparr>hmac_sz := p_get_hmac_sz (ctx_provider ctx) (provider_ctx ctx) (hmac_algorithm ctx)\<rparr>;
          reserve = (if flag_get (ctx_flags ctx) CIPHER_FLAG_HMAC then reserve + hmac_sz ctx else reserve);
          reserve = (if 0 < block_sz ctx
                     then (if reserve mod block_sz ctx = 0 then reserve
                           else (reserve div block_sz ctx + 1) * block_sz ctx)
                     else reserve)
      in (SQLITE_OK, ctx\<lparr>reserve_sz := reserve\<rparr>))"

text \<open>Pointers are equal when both are NULL or both point to the same buffer.\<close>

definition same_pointer :: "heap_buf option \<Rightarrow> heap_buf option \<Rightarrow> bool" where
  "same_pointer a b \<longleftrightarrow> map_option buf_addr a = map_option buf_addr b"

definition sqlcipher_cipher_ctx_cmp :: "cipher_ctx \<Rightarrow> cipher_ctx \<Rightarrow> int" where
  "sqlcipher_cipher_ctx_cmp c1 c2 =
     (let are_equal = pass_sz c1 = pass_sz c2
            \<and> (same_pointer (cc_pass c1) (cc_pass c2)
               \<or> sqlcipher_memcmp (buf_bytes (cc_pass c1)) (buf_bytes (cc_pass c2)) (nat (pass_sz c1)) = 0)
      in if are_equal then 0 else 1)"

definition sqlcipher_cipher_ctx_copy ::
    "xmalloc \<Rightarrow> 'p codec_ctx \<Rightarrow> cipher_ctx \<Rightarrow> cipher_ctx \<Rightarrow> 'a heap_state_scheme
      \<Rightarrow> int \<times> cipher_ctx \<times> 'a heap_state_scheme" where
  "sqlcipher_cipher_ctx_copy xMalloc ctx target source st =
     (let k = cc_key target; h = cc_hmac_key target;
          st = sc_free (cc_pass target) (pass_sz target) st;
          target = source\<lparr>cc_addr := cc_addr target\<rparr>;
          target = target\<lparr>cc_key := buf_copy (buf_bytes (cc_key source)) (key_sz ctx) k\<rparr>;
          target = target\<lparr>cc_hmac_key := buf_copy (buf_bytes (cc_hmac_key source)) (key_sz ctx) h\<rparr>
      in if cc_pass source \<noteq> None \<and> pass_sz source \<noteq> 0 then
           (case sc_alloc xMalloc (pass_sz source) st of
              (None, st) \<Rightarrow> (SQLITE_NOMEM, target\<lparr>cc_pass := None\<rparr>, st)
            | (Some b, st) \<Rightarrow>
                (SQLITE_OK,
                 target\<lparr>cc_pass := buf_copy (buf_bytes (cc_pass source)) (pass_sz source) (Some b)\<rparr>, st))
         else (SQLITE_OK, target, st))"

text \<open>The key specification \<open>x'hex(key) [hex(hmac_key)] hex(salt)'\<close>; the keys are unshielded while they
  are printed. The result carries the buffer and its size, and the context as it is left.\<close>

definition keyspec_size :: "'p codec_ctx \<Rightarrow> int" where
  "keyspec_size ctx =
     (if flag_get (ctx_flags ctx) CIPHER_FLAG_HMAC
      then (key_sz ctx + key_sz ctx + kdf_salt_sz ctx) * 2 + 3
      else (key_sz ctx + kdf_salt_sz ctx) * 2 + 3)"

definition sqlcipher_cipher_ctx_get_keyspec ::
    "xmalloc \<Rightarrow> 'p codec_ctx \<Rightarrow> cipher_ctx \<Rightarrow> ('p, 'a) sc_state_scheme
      \<Rightarrow> int \<times> (heap_buf \<times> int) option \<times> cipher_ctx \<times> ('p, 'a) sc_state_scheme" where
  "sqlcipher_cipher_ctx_get_keyspec xMalloc ctx c_ctx st =
     (let sz = keyspec_size ctx; ksz = nat (key_sz ctx); shield = (\<lambda>d. sqlcipher_shield (shield_mask st) d ksz)
      in case sc_alloc xMalloc sz st of
           (None, st) \<Rightarrow> (SQLITE_NOMEM, None, c_ctx, st)
         | (Some b, st) \<Rightarrow>
             let keyspec = buf_write 0 [0x78, 0x27] (buf_data b);
                 out = 2;
                 c_ctx = c_ctx\<lparr>cc_key := buf_update shield (cc_key c_ctx)\<rparr>;
                 keyspec = cipher_bin2hex (buf_bytes (cc_key c_ctx)) ksz out keyspec;
                 c_ctx = c_ctx\<lparr>cc_key := buf_update shield (cc_key c_ctx)\<rparr>;
                 out = out + ksz * 2;
                 (keyspec, c_ctx, out) =
                   (if flag_get (ctx_flags ctx) CIPHER_FLAG_HMAC then
                      let c_ctx = c_ctx\<lparr>cc_hmac_key := buf_update shield (cc_hmac_key c_ctx)\<rparr>;
                          keyspec = cipher_bin2hex (buf_bytes (cc_hmac_key c_ctx)) ksz out keyspec;
                          c_ctx = c_ctx\<lparr>cc_hmac_key := buf_update shield (cc_hmac_key c_ctx)\<rparr>
                      in (keyspec, c_ctx, out + ksz * 2)
                    else (keyspec, c_ctx, out));
                 keyspec = cipher_bin2hex (buf_bytes (kdf_salt ctx)) (nat (kdf_salt_sz ctx)) out keyspec;
                 keyspec = keyspec[nat (sz - 1) := 0x27]
             in (SQLITE_OK, Some (b\<lparr>buf_data := keyspec\<rparr>, sz), c_ctx, st))"

subsection \<open>Passphrase and parameters\<close>

definition sqlcipher_set_derive_key :: "'p codec_ctx \<Rightarrow> int \<Rightarrow> 'p codec_ctx" where
  "sqlcipher_set_derive_key ctx derive =
     ctx\<lparr>read_ctx := map_option (\<lambda>c. c\<lparr>derive_key := derive\<rparr>) (read_ctx ctx),
         write_ctx := map_option (\<lambda>c. c\<lparr>derive_key := derive\<rparr>) (write_ctx ctx)\<rparr>"

definition sqlcipher_cipher_ctx_set_pass ::
    "xmalloc \<Rightarrow> cipher_ctx \<Rightarrow> byte list option \<Rightarrow> int \<Rightarrow> 'a heap_state_scheme
      \<Rightarrow> int \<times> cipher_ctx \<times> 'a heap_state_scheme" where
  "sqlcipher_cipher_ctx_set_pass xMalloc c zKey nKey st =
     (let st = sc_free (cc_pass c) (pass_sz c) st;
          c = c\<lparr>cc_pass := None, pass_sz := 0\<rparr>
      in case zKey of
           None \<Rightarrow> (SQLITE_OK, c, st)
         | Some z \<Rightarrow>
             if nKey \<noteq> 0 then
               let c = c\<lparr>pass_sz := nKey\<rparr>;
                   (b, st) = sc_alloc xMalloc nKey st
               in (case b of
                     None \<Rightarrow> (SQLITE_NOMEM, c\<lparr>cc_pass := None\<rparr>, st)
                   | Some b \<Rightarrow> (SQLITE_OK, c\<lparr>cc_pass := buf_copy z nKey (Some b)\<rparr>, st))
             else (SQLITE_OK, c, st))"

abbreviation (input) CIPHER_READ_CTX :: int where "CIPHER_READ_CTX \<equiv> 0"
abbreviation (input) CIPHER_WRITE_CTX :: int where "CIPHER_WRITE_CTX \<equiv> 1"
abbreviation (input) CIPHER_READWRITE_CTX :: int where "CIPHER_READWRITE_CTX \<equiv> 2"

definition sub_ctx :: "int \<Rightarrow> 'p codec_ctx \<Rightarrow> cipher_ctx option" where
  "sub_ctx for_ctx ctx = (if for_ctx \<noteq> 0 then write_ctx ctx else read_ctx ctx)"

definition put_sub_ctx :: "int \<Rightarrow> cipher_ctx \<Rightarrow> 'p codec_ctx \<Rightarrow> 'p codec_ctx" where
  "put_sub_ctx for_ctx c ctx =
     (if for_ctx \<noteq> 0 then ctx\<lparr>write_ctx := Some c\<rparr> else ctx\<lparr>read_ctx := Some c\<rparr>)"

definition sqlcipher_codec_ctx_set_pass ::
    "xmalloc \<Rightarrow> 'p codec_ctx \<Rightarrow> byte list option \<Rightarrow> int \<Rightarrow> int \<Rightarrow> 'a heap_state_scheme
      \<Rightarrow> int \<times> 'p codec_ctx \<times> 'a heap_state_scheme" where
  "sqlcipher_codec_ctx_set_pass xMalloc ctx zKey nKey for_ctx st =
     (case sub_ctx for_ctx ctx of
        None \<Rightarrow> (SQLITE_ERROR, ctx, st)
      | Some c \<Rightarrow>
          let (rc, c, st) = sqlcipher_cipher_ctx_set_pass xMalloc c zKey nKey st
          in if rc \<noteq> SQLITE_OK then (rc, put_sub_ctx for_ctx c ctx, st)
             else
               let c = c\<lparr>derive_key := 1\<rparr>;
                   ctx = put_sub_ctx for_ctx c ctx
               in if for_ctx = CIPHER_READWRITE_CTX then
                    (case read_ctx ctx of
                       None \<Rightarrow> (SQLITE_ERROR, ctx, st)
                     | Some r \<Rightarrow>
                         let (rc, r, st) = sqlcipher_cipher_ctx_copy xMalloc ctx r c st
                         in (rc, ctx\<lparr>read_ctx := Some r\<rparr>, st))
                  else (SQLITE_OK, ctx, st))"

definition key_used :: "'p codec_ctx \<Rightarrow> bool" where
  "key_used ctx \<longleftrightarrow> flag_get (ctx_flags ctx) CIPHER_FLAG_KEY_USED"

definition sqlcipher_codec_ctx_set_kdf_iter :: "'p codec_ctx \<Rightarrow> int \<Rightarrow> int \<times> 'p codec_ctx" where
  "sqlcipher_codec_ctx_set_kdf_iter ctx iter =
     (if key_used ctx then (SQLITE_OK, ctx)
      else (SQLITE_OK, sqlcipher_set_derive_key (ctx\<lparr>kdf_iter := iter\<rparr>) 1))"

definition sqlcipher_codec_ctx_set_fast_kdf_iter :: "'p codec_ctx \<Rightarrow> int \<Rightarrow> int \<times> 'p codec_ctx" where
  "sqlcipher_codec_ctx_set_fast_kdf_iter ctx iter =
     (if key_used ctx then (SQLITE_OK, ctx)
      else (SQLITE_OK, sqlcipher_set_derive_key (ctx\<lparr>fast_kdf_iter := iter\<rparr>) 1))"

definition sqlcipher_set_default_use_hmac ::
    "bool \<Rightarrow> ('p, 'a) sc_state_scheme \<Rightarrow> ('p, 'a) sc_state_scheme" where
  "sqlcipher_set_default_use_hmac use st =
     st\<lparr>default_flags := (if use then flag_set (default_flags st) CIPHER_FLAG_HMAC
                          else flag_unset (default_flags st) CIPHER_FLAG_HMAC)\<rparr>"

definition sqlcipher_codec_ctx_set_use_hmac :: "'p codec_ctx \<Rightarrow> bool \<Rightarrow> int \<times> 'p codec_ctx" where
  "sqlcipher_codec_ctx_set_use_hmac ctx use =
     (if key_used ctx then (SQLITE_OK, ctx)
      else sqlcipher_codec_ctx_reserve_setup
             (ctx\<lparr>ctx_flags := (if use then flag_set (ctx_flags ctx) CIPHER_FLAG_HMAC
                               else flag_unset (ctx_flags ctx) CIPHER_FLAG_HMAC)\<rparr>))"

definition sqlcipher_codec_ctx_set_plaintext_header_size :: "'p codec_ctx \<Rightarrow> int \<Rightarrow> int \<times> 'p codec_ctx" where
  "sqlcipher_codec_ctx_set_plaintext_header_size ctx sz =
     (if 0 \<le> sz \<and> 0 < block_sz ctx \<and> sz mod block_sz ctx = 0 \<and> sz \<le> page_sz ctx - reserve_sz ctx
      then (SQLITE_OK, ctx\<lparr>plaintext_header_sz := sz\<rparr>)
      else (SQLITE_ERROR, ctx\<lparr>plaintext_header_sz := - 1\<rparr>))"

definition sqlcipher_codec_ctx_set_hmac_algorithm :: "'p codec_ctx \<Rightarrow> int \<Rightarrow> int \<times> 'p codec_ctx" where
  "sqlcipher_codec_ctx_set_hmac_algorithm ctx algorithm =
     (if key_used ctx then (SQLITE_OK, ctx)
      else sqlcipher_codec_ctx_reserve_setup (ctx\<lparr>hmac_algorithm := algorithm\<rparr>))"

definition sqlcipher_codec_ctx_set_kdf_algorithm :: "'p codec_ctx \<Rightarrow> int \<Rightarrow> int \<times> 'p codec_ctx" where
  "sqlcipher_codec_ctx_set_kdf_algorithm ctx algorithm =
     (if key_used ctx then (SQLITE_OK, ctx) else (SQLITE_OK, ctx\<lparr>kdf_algorithm := algorithm\<rparr>))"

text \<open>\<open>sqlite3pager_error\<close> of \<open>pager.c\<close> and \<open>sqlcipher_codec_ctx_set_error\<close>.\<close>

definition sqlite3pager_error :: "int \<Rightarrow> btree \<Rightarrow> btree" where
  "sqlite3pager_error error bt = bt\<lparr>pager_errCode := error, pager_eState_error := True\<rparr>"

definition sqlcipher_codec_ctx_set_error ::
    "'p codec_ctx \<Rightarrow> int \<Rightarrow> ('p, 'a) sc_state_scheme \<Rightarrow> 'p codec_ctx \<times> ('p, 'a) sc_state_scheme" where
  "sqlcipher_codec_ctx_set_error ctx error st =
     (ctx\<lparr>ctx_error := error\<rparr>,
      st\<lparr>bt_store := (bt_store st)(pBt ctx :=
           (sqlite3pager_error error (bt_store st (pBt ctx)))\<lparr>db_errCode := error\<rparr>)\<rparr>)"

subsection \<open>The salt\<close>

text \<open>A failed or short read has already stored bytes in the salt when the random bytes replace
  them.\<close>

definition sqlcipher_codec_ctx_init_kdf_salt ::
    "'p codec_ctx \<Rightarrow> ('p, 'a) sc_state_scheme \<Rightarrow> int \<times> 'p codec_ctx" where
  "sqlcipher_codec_ctx_init_kdf_salt ctx st =
     (if flag_get (ctx_flags ctx) CIPHER_FLAG_HAS_KDF_SALT then (SQLITE_OK, ctx)
      else
        let fd = bt_store st (pBt ctx);
            n = nat (kdf_salt_sz ctx);
            (read_ok, ctx) =
              (if \<not> fd_open fd then (False, ctx)
               else let (rc, bytes) = os_read fd n 0
                    in (rc = SQLITE_OK, ctx\<lparr>kdf_salt := buf_copy bytes (kdf_salt_sz ctx) (kdf_salt ctx)\<rparr>))
        in if read_ok then (SQLITE_OK, ctx\<lparr>ctx_flags := flag_set (ctx_flags ctx) CIPHER_FLAG_HAS_KDF_SALT\<rparr>)
           else
             let (rc, bytes, pc) = p_random (ctx_provider ctx) (provider_ctx ctx) n;
                 ctx = ctx\<lparr>provider_ctx := pc,
                           kdf_salt := buf_copy bytes (kdf_salt_sz ctx) (kdf_salt ctx)\<rparr>
             in if rc \<noteq> SQLITE_OK then (SQLITE_ERROR, ctx)
                else (SQLITE_OK, ctx\<lparr>ctx_flags := flag_set (ctx_flags ctx) CIPHER_FLAG_HAS_KDF_SALT\<rparr>))"

definition sqlcipher_codec_ctx_set_kdf_salt :: "'p codec_ctx \<Rightarrow> byte list \<Rightarrow> int \<Rightarrow> int \<times> 'p codec_ctx" where
  "sqlcipher_codec_ctx_set_kdf_salt ctx salt sz =
     (if key_used ctx then (SQLITE_OK, ctx)
      else if kdf_salt_sz ctx \<le> sz then
        (SQLITE_OK, ctx\<lparr>kdf_salt := buf_copy salt (kdf_salt_sz ctx) (kdf_salt ctx),
                        ctx_flags := flag_set (ctx_flags ctx) CIPHER_FLAG_HAS_KDF_SALT\<rparr>)
      else (SQLITE_ERROR, ctx))"

definition sqlcipher_codec_ctx_get_kdf_salt ::
    "'p codec_ctx \<Rightarrow> ('p, 'a) sc_state_scheme \<Rightarrow> int \<times> heap_buf option \<times> 'p codec_ctx" where
  "sqlcipher_codec_ctx_get_kdf_salt ctx st =
     (let (rc, ctx) = (if \<not> flag_get (ctx_flags ctx) CIPHER_FLAG_HAS_KDF_SALT
                       then sqlcipher_codec_ctx_init_kdf_salt ctx st else (SQLITE_OK, ctx))
      in (rc, kdf_salt ctx, ctx))"

subsection \<open>Creation and release\<close>

text \<open>\<open>size & (size - 1)\<close> is taken on the 32-bit two's complement pattern of the \<open>int\<close>.\<close>

definition valid_page_size :: "int \<Rightarrow> bool" where
  "valid_page_size sz \<longleftrightarrow>
     (sz \<noteq> 0 \<and> (word_of_int sz :: u32) AND (word_of_int sz - 1) = 0) \<and> \<not> sz < 512 \<and> \<not> 65536 < sz"

definition sqlcipher_codec_ctx_set_pagesize ::
    "xmalloc \<Rightarrow> 'p codec_ctx \<Rightarrow> int \<Rightarrow> 'a heap_state_scheme
      \<Rightarrow> int \<times> 'p codec_ctx \<times> 'a heap_state_scheme" where
  "sqlcipher_codec_ctx_set_pagesize xMalloc ctx sz st =
     (if key_used ctx then (SQLITE_OK, ctx, st)
      else if \<not> valid_page_size sz then (SQLITE_ERROR, ctx, st)
      else
        let st = sc_free (ctx_buffer ctx) (page_sz ctx) st;
            (b, st) = sc_alloc xMalloc sz st
        in (if b = None then SQLITE_NOMEM else SQLITE_OK, ctx\<lparr>page_sz := sz, ctx_buffer := b\<rparr>, st))"

text \<open>A context in zeroed memory.\<close>

definition zero_codec_ctx :: "nat \<Rightarrow> nat \<Rightarrow> 'p provider \<Rightarrow> 'p codec_ctx" where
  "zero_codec_ctx addr bt prov =
     \<lparr>ctx_addr = addr, store_pass = 0, kdf_iter = 0, fast_kdf_iter = 0, kdf_salt_sz = 0, key_sz = 0,
      iv_sz = 0, block_sz = 0, page_sz = 0, reserve_sz = 0, hmac_sz = 0, plaintext_header_sz = 0,
      hmac_algorithm = 0, kdf_algorithm = 0, ctx_error = 0, ctx_flags = 0, kdf_salt = None,
      hmac_kdf_salt = None, ctx_buffer = None, pBt = bt, read_ctx = None, write_ctx = None,
      ctx_provider = prov, provider_ctx = p_null_ctx prov\<rparr>"

text \<open>A setter without effect on the heap, as a step on context and state; and the steps that
  create a cipher context.\<close>

definition pure_step :: "('p codec_ctx \<Rightarrow> int \<times> 'p codec_ctx) \<Rightarrow> 'p codec_ctx \<times> 's \<Rightarrow> int \<times> 'p codec_ctx \<times> 's" where
  "pure_step f = (\<lambda>(ctx, st). let (rc, ctx) = f ctx in (rc, ctx, st))"

definition alloc_salts ::
    "xmalloc \<Rightarrow> 'p codec_ctx \<times> 'a heap_state_scheme \<Rightarrow> int \<times> 'p codec_ctx \<times> 'a heap_state_scheme" where
  "alloc_salts xMalloc = (\<lambda>(ctx, st).
     let ctx = ctx\<lparr>kdf_salt_sz := FILE_HEADER_SZ\<rparr>;
         (b, st) = sc_alloc xMalloc (kdf_salt_sz ctx) st;
         ctx = ctx\<lparr>kdf_salt := b\<rparr>
     in if b = None then (SQLITE_NOMEM, ctx, st)
        else
          let (b, st) = sc_alloc xMalloc (kdf_salt_sz ctx) st;
              ctx = ctx\<lparr>hmac_kdf_salt := b\<rparr>
          in (if b = None then SQLITE_NOMEM else SQLITE_OK, ctx, st))"

definition init_provider_ctx :: "'p codec_ctx \<Rightarrow> int \<times> 'p codec_ctx" where
  "init_provider_ctx ctx =
     (let (rc, pc) = p_ctx_init (ctx_provider ctx);
          ctx = ctx\<lparr>provider_ctx := pc\<rparr>;
          prov = ctx_provider ctx
      in if rc \<noteq> SQLITE_OK then (rc, ctx)
         else (SQLITE_OK, ctx\<lparr>key_sz := p_get_key_sz prov pc, iv_sz := p_get_iv_sz prov pc,
                              block_sz := p_get_block_sz prov pc\<rparr>))"

definition init_sub_ctx ::
    "xmalloc \<Rightarrow> int \<Rightarrow> 'p codec_ctx \<times> 'a heap_state_scheme \<Rightarrow> int \<times> 'p codec_ctx \<times> 'a heap_state_scheme" where
  "init_sub_ctx xMalloc for_ctx = (\<lambda>(ctx, st).
     let (rc, c, st) = sqlcipher_cipher_ctx_init xMalloc ctx st
     in (rc, (if for_ctx \<noteq> 0 then ctx\<lparr>write_ctx := c\<rparr> else ctx\<lparr>read_ctx := c\<rparr>), st))"

definition copy_sub_ctx ::
    "xmalloc \<Rightarrow> int \<Rightarrow> 'p codec_ctx \<times> 'a heap_state_scheme \<Rightarrow> int \<times> 'p codec_ctx \<times> 'a heap_state_scheme" where
  "copy_sub_ctx xMalloc source = (\<lambda>(ctx, st).
     case (sub_ctx (1 - source) ctx, sub_ctx source ctx) of
       (Some t, Some s) \<Rightarrow>
         let (rc, t, st) = sqlcipher_cipher_ctx_copy xMalloc ctx t s st
         in (rc, put_sub_ctx (1 - source) t ctx, st)
     | _ \<Rightarrow> (SQLITE_ERROR, ctx, st))"

definition sqlcipher_codec_ctx_init ::
    "xmalloc \<Rightarrow> nat \<Rightarrow> byte list option \<Rightarrow> int \<Rightarrow> ('p, 'a) sc_state_scheme
      \<Rightarrow> int \<times> 'p codec_ctx option \<times> ('p, 'a) sc_state_scheme" where
  "sqlcipher_codec_ctx_init xMalloc bt zKey nKey st =
     (case sc_alloc xMalloc sizeof_codec_ctx st of
        (None, st) \<Rightarrow> (SQLITE_NOMEM, None, st)
      | (Some b, st) \<Rightarrow>
          let ctx = zero_codec_ctx (buf_addr b) bt (default_provider st);
              r = alloc_salts xMalloc (ctx, st);
              r = then_ok r (\<lambda>(ctx, st). pure_step init_provider_ctx
                    (ctx\<lparr>ctx_flags := default_flags st, ctx_provider := default_provider st\<rparr>, st));
              r = then_ok r (\<lambda>(ctx, st). sqlcipher_codec_ctx_set_pagesize xMalloc ctx (default_page_size st) st);
              r = then_ok r (\<lambda>(ctx, st). pure_step (\<lambda>c. sqlcipher_codec_ctx_set_kdf_iter c (default_kdf_iter st)) (ctx, st));
              r = then_ok r (pure_step (\<lambda>c. sqlcipher_codec_ctx_set_fast_kdf_iter c FAST_PBKDF2_ITER));
              r = then_ok r (\<lambda>(ctx, st). pure_step
                    (\<lambda>c. sqlcipher_codec_ctx_set_hmac_algorithm c (default_hmac_algorithm st)) (ctx, st));
              r = then_ok r (\<lambda>(ctx, st). pure_step
                    (\<lambda>c. sqlcipher_codec_ctx_set_use_hmac c (flag_get (default_flags st) CIPHER_FLAG_HMAC)) (ctx, st));
              r = then_ok r (\<lambda>(ctx, st). pure_step
                    (\<lambda>c. sqlcipher_codec_ctx_set_kdf_algorithm c (default_kdf_algorithm st)) (ctx, st));
              r = then_ok r (\<lambda>(ctx, st). pure_step
                    (\<lambda>c. sqlcipher_codec_ctx_set_plaintext_header_size c (default_plaintext_header_size st)) (ctx, st));
              r = then_ok r (init_sub_ctx xMalloc CIPHER_READ_CTX);
              r = then_ok r (init_sub_ctx xMalloc CIPHER_WRITE_CTX);
              r = then_ok r (\<lambda>(ctx, st). sqlcipher_codec_ctx_set_pass xMalloc ctx zKey nKey CIPHER_READ_CTX st);
              r = then_ok r (copy_sub_ctx xMalloc CIPHER_READ_CTX);
              (rc, ctx, st) = r
          in (rc, Some ctx, st))"

text \<open>The provider's own release of \<open>provider_ctx\<close> leaves nothing the codec looks at again.\<close>

definition sqlcipher_codec_ctx_free :: "'p codec_ctx \<Rightarrow> 'a heap_state_scheme \<Rightarrow> 'a heap_state_scheme" where
  "sqlcipher_codec_ctx_free ctx st =
     (let st = sc_free (kdf_salt ctx) (kdf_salt_sz ctx) st;
          st = sc_free (hmac_kdf_salt ctx) (kdf_salt_sz ctx) st;
          st = sc_free (ctx_buffer ctx) (page_sz ctx) st;
          st = (case read_ctx ctx of Some c \<Rightarrow> sqlcipher_cipher_ctx_free ctx c st | None \<Rightarrow> st);
          st = (case write_ctx ctx of Some c \<Rightarrow> sqlcipher_cipher_ctx_free ctx c st | None \<Rightarrow> st)
      in sqlcipher_free (ctx_addr ctx) (size_arg sizeof_codec_ctx) st)"

section \<open>Lemmas\<close>

lemma flag_get_set:
  "b \<noteq> 0 \<Longrightarrow> flag_get (flag_set f b) b" "b AND d = 0 \<Longrightarrow> flag_get (flag_set f b) d = flag_get f d"
proof -
  have "(f OR b) AND b = b" for f b :: u32 by (auto simp: bit_eq_iff bit_simps)
  then show "b \<noteq> 0 \<Longrightarrow> flag_get (flag_set f b) b" by (simp add: flag_get_def flag_set_def)
  have "(f OR b) AND d = (f AND d) OR (b AND d)" by (auto simp: bit_eq_iff bit_simps)
  then show "b AND d = 0 \<Longrightarrow> flag_get (flag_set f b) d = flag_get f d" by (simp add: flag_get_def flag_set_def)
qed

lemma flag_get_unset:
  "\<not> flag_get (flag_unset f b) b" "b AND d = 0 \<Longrightarrow> flag_get (flag_unset f b) d = flag_get f d"
proof -
  have "(f AND NOT b) AND b = 0" by (auto simp: bit_eq_iff bit_simps)
  then show "\<not> flag_get (flag_unset f b) b" by (simp add: flag_get_def flag_unset_def)
  assume "b AND d = 0"
  then have "bit b n \<Longrightarrow> \<not> bit d n" for n by (metis bit_0_eq bit_and_iff bot_apply bot_bool_def)
  then have "(f AND NOT b) AND d = f AND d" by (auto simp: bit_eq_iff bit_simps)
  then show "flag_get (flag_unset f b) d = flag_get f d" by (simp add: flag_get_def flag_unset_def)
qed

end
