(* ===== verification/Util_Text.thy ===== *)
theory Util_Text
  imports Sc_Prelude
begin

text \<open>
  Text routines of \<open>src/util.c\<close> on the character tables of \<open>src/global.c\<close>: case-insensitive
  comparison and hash, removal of quotes, hexadecimal literals. A C string is the list of its
  bytes before the terminating NUL; \<open>chr_at z i\<close> is the byte at offset \<open>i\<close>, NUL from the end on.
\<close>

section \<open>Definitions\<close>

subsection \<open>Character tables\<close>

definition chr_at :: "byte list \<Rightarrow> nat \<Rightarrow> byte" where
  "chr_at z i = (if i < length z then z ! i else 0)"

text \<open>The ASCII part of the table \<open>sqlite3UpperToLower\<close>: the identity but for the 26 capital letters.\<close>

definition sqlite3UpperToLower :: "byte \<Rightarrow> byte" where
  "sqlite3UpperToLower c = (if 0x41 \<le> c \<and> c \<le> 0x5a then c + 0x20 else c)"

lemma upper_to_lower_unat:
  "unat (sqlite3UpperToLower c) = (if 65 \<le> unat c \<and> unat c \<le> 90 then unat c + 32 else unat c)"
  by (auto simp: sqlite3UpperToLower_def word_le_nat_alt unat_word_ariths)

lemma upper_to_lower_eq_0 [simp]: "sqlite3UpperToLower c = 0 \<longleftrightarrow> c = 0"
  by (auto simp: unat_eq_zero [symmetric] upper_to_lower_unat simp del: unat_eq_zero)

lemma upper_to_lower_uint_eq:
  "uint (sqlite3UpperToLower 0) = uint (sqlite3UpperToLower c) \<longleftrightarrow> c = 0"
  "uint (sqlite3UpperToLower c) = uint (sqlite3UpperToLower 0) \<longleftrightarrow> c = 0"
  by (simp_all flip: word_uint_eq_iff) (metis upper_to_lower_eq_0)+

definition sqlite3CtypeMap :: "byte list" where
  "sqlite3CtypeMap =
    [0, 0, 0, 0, 0, 0, 0, 0, 0, 0x01, 0x01, 0x01, 0x01, 0x01, 0, 0,
     0, 0, 0, 0, 0, 0, 0, 0, 0, 0, 0, 0, 0, 0, 0, 0,
     0x01, 0, 0x80, 0, 0x40, 0, 0, 0x80, 0, 0, 0, 0, 0, 0, 0, 0,
     0x0c, 0x0c, 0x0c, 0x0c, 0x0c, 0x0c, 0x0c, 0x0c, 0x0c, 0x0c, 0, 0, 0, 0, 0, 0,
     0, 0x0a, 0x0a, 0x0a, 0x0a, 0x0a, 0x0a, 0x02, 0x02, 0x02, 0x02, 0x02, 0x02, 0x02, 0x02, 0x02,
     0x02, 0x02, 0x02, 0x02, 0x02, 0x02, 0x02, 0x02, 0x02, 0x02, 0x02, 0x80, 0, 0, 0, 0x40,
     0x80, 0x2a, 0x2a, 0x2a, 0x2a, 0x2a, 0x2a, 0x22, 0x22, 0x22, 0x22, 0x22, 0x22, 0x22, 0x22, 0x22,
     0x22, 0x22, 0x22, 0x22, 0x22, 0x22, 0x22, 0x22, 0x22, 0x22, 0x22, 0, 0, 0, 0, 0] @ replicate 128 0x40"

definition ctype :: "byte \<Rightarrow> byte \<Rightarrow> bool" where
  "ctype bits c \<longleftrightarrow> sqlite3CtypeMap ! unat c AND bits \<noteq> 0"

abbreviation (input) sqlite3Isspace :: "byte \<Rightarrow> bool" where "sqlite3Isspace \<equiv> ctype 0x01"
abbreviation (input) sqlite3Isdigit :: "byte \<Rightarrow> bool" where "sqlite3Isdigit \<equiv> ctype 0x04"
abbreviation (input) sqlite3Isxdigit :: "byte \<Rightarrow> bool" where "sqlite3Isxdigit \<equiv> ctype 0x08"
abbreviation (input) sqlite3Isquote :: "byte \<Rightarrow> bool" where "sqlite3Isquote \<equiv> ctype 0x80"

subsection \<open>Comparison and hash\<close>

function sqlite3StrICmp_at :: "byte list \<Rightarrow> byte list \<Rightarrow> nat \<Rightarrow> int" where
  "sqlite3StrICmp_at a b i =
     (let c = chr_at a i; x = chr_at b i
      in if c = x then (if c = 0 then 0 else sqlite3StrICmp_at a b (i + 1))
         else let d = uint (sqlite3UpperToLower c) - uint (sqlite3UpperToLower x)
              in if d \<noteq> 0 then d else sqlite3StrICmp_at a b (i + 1))"
  by pat_completeness auto
termination
  by (relation "measure (\<lambda>(a, b, i). length a - i)")
    (auto simp: chr_at_def upper_to_lower_uint_eq split: if_splits)

declare sqlite3StrICmp_at.simps [simp del]

definition sqlite3StrICmp :: "byte list \<Rightarrow> byte list \<Rightarrow> int" where
  "sqlite3StrICmp zLeft zRight = sqlite3StrICmp_at zLeft zRight 0"

definition sqlite3_stricmp :: "byte list option \<Rightarrow> byte list option \<Rightarrow> int" where
  "sqlite3_stricmp zLeft zRight =
     (case zLeft of
        None \<Rightarrow> (if zRight \<noteq> None then - 1 else 0)
      | Some l \<Rightarrow> (case zRight of None \<Rightarrow> 1 | Some r \<Rightarrow> sqlite3StrICmp l r))"

fun strnicmp_at :: "byte list \<Rightarrow> byte list \<Rightarrow> nat \<Rightarrow> nat \<Rightarrow> int" where
  "strnicmp_at a b i 0 = 0"
| "strnicmp_at a b i (Suc n) =
     (if chr_at a i \<noteq> 0 \<and> sqlite3UpperToLower (chr_at a i) = sqlite3UpperToLower (chr_at b i)
      then strnicmp_at a b (i + 1) n
      else uint (sqlite3UpperToLower (chr_at a i)) - uint (sqlite3UpperToLower (chr_at b i)))"

definition sqlite3_strnicmp :: "byte list option \<Rightarrow> byte list option \<Rightarrow> int \<Rightarrow> int" where
  "sqlite3_strnicmp zLeft zRight N =
     (case zLeft of
        None \<Rightarrow> (if zRight \<noteq> None then - 1 else 0)
      | Some l \<Rightarrow> (case zRight of None \<Rightarrow> 1 | Some r \<Rightarrow> strnicmp_at l r 0 (nat N)))"

definition sqlite3StrIHash :: "byte list option \<Rightarrow> byte" where
  "sqlite3StrIHash z = (case z of None \<Rightarrow> 0 | Some z \<Rightarrow> foldl (\<lambda>h c. h + sqlite3UpperToLower c) 0 z)"

subsection \<open>Quotes\<close>

text \<open>The loop of \<open>sqlite3Dequote\<close> from index \<open>i\<close>. It runs until a quote that is not doubled; a string
  without one is excluded by an assertion, and reading its NUL ends the model.\<close>

function dequote_at :: "byte list \<Rightarrow> byte \<Rightarrow> nat \<Rightarrow> byte list" where
  "dequote_at z quote i =
     (if length z \<le> i then []
      else if chr_at z i = quote then
        (if chr_at z (i + 1) = quote then quote # dequote_at z quote (i + 2) else [])
      else chr_at z i # dequote_at z quote (i + 1))"
  by pat_completeness auto
termination
  by (relation "measure (\<lambda>(z, q, i). length z - i)") auto

declare dequote_at.simps [simp del]

definition sqlite3Dequote :: "byte list \<Rightarrow> byte list" where
  "sqlite3Dequote z =
     (let quote = chr_at z 0
      in if \<not> sqlite3Isquote quote then z
         else let quote = (if quote = 0x5b then 0x5d else quote) in dequote_at z quote 1)"

text \<open>\<open>sqlite3DequoteToken\<close> narrows a token to its inside when that has no quote character.\<close>

definition sqlite3DequoteToken :: "byte list \<Rightarrow> byte list" where
  "sqlite3DequoteToken p =
     (if length p < 2 then p
      else if \<not> sqlite3Isquote (p ! 0) then p
      else if list_ex sqlite3Isquote (buf_read 1 (length p - 2) p) then p
      else buf_read 1 (length p - 2) p)"

subsection \<open>Hexadecimal literals\<close>

definition sqlite3HexToInt :: "byte \<Rightarrow> byte" where
  "sqlite3HexToInt h = (h + 9 * (1 AND drop_bit 6 h)) AND 0xf"

text \<open>\<open>sqlite3HexToBlob\<close> is handed the text after \<open>x'\<close> and the length \<open>n\<close> of that text with the closing
  quote; \<open>None\<close> when the allocation of \<open>n / 2 + 1\<close> bytes fails.\<close>

definition sqlite3HexToBlob :: "bool \<Rightarrow> byte list \<Rightarrow> nat \<Rightarrow> byte list option" where
  "sqlite3HexToBlob alloc_ok z n =
     (if \<not> alloc_ok then None
      else Some (map (\<lambda>k. push_bit 4 (sqlite3HexToInt (z ! (2 * k))) OR sqlite3HexToInt (z ! (2 * k + 1)))
                   [0..<(n - 1 + 1) div 2] @ [0]))"

section \<open>Lemmas\<close>

lemma chr_at_nz: "0 \<notin> set z \<Longrightarrow> chr_at z i = 0 \<longleftrightarrow> length z \<le> i"
  unfolding chr_at_def by (metis not_le nth_mem)

lemma sqlite3StrICmp_at_eq_0:
  assumes "0 \<notin> set a" and "0 \<notin> set b"
  shows "i \<le> length a \<Longrightarrow> i \<le> length b \<Longrightarrow>
    sqlite3StrICmp_at a b i = 0 \<longleftrightarrow> map sqlite3UpperToLower (drop i a) = map sqlite3UpperToLower (drop i b)"
  using assms
proof (induction a b i rule: sqlite3StrICmp_at.induct)
  case (1 a b i)
  consider "i = length a" "i = length b" | "i = length a" "i < length b" | "i < length a" "i = length b"
    | "i < length a" "i < length b" using 1(3,4) by linarith
  then show ?case
  proof cases
    case 1
    then show ?thesis by (subst sqlite3StrICmp_at.simps) (simp add: chr_at_def)
  next
    case 2
    then have "b ! i \<noteq> 0" using "1.prems"(4) by (metis nth_mem)
    then show ?thesis using 2
      by (subst sqlite3StrICmp_at.simps) (simp add: chr_at_def Let_def upper_to_lower_uint_eq)
  next
    case 3
    then have "a ! i \<noteq> 0" using "1.prems"(3) by (metis nth_mem)
    then show ?thesis using 3
      by (subst sqlite3StrICmp_at.simps) (simp add: chr_at_def Let_def upper_to_lower_uint_eq)
  next
    case 4
    then have nz: "a ! i \<noteq> 0" "b ! i \<noteq> 0" using "1.prems"(3,4) by (metis nth_mem)+
    have "drop i a = a ! i # drop (i + 1) a" "drop i b = b ! i # drop (i + 1) b"
      using 4 by (simp_all add: Cons_nth_drop_Suc)
    moreover have "sqlite3StrICmp_at a b (i + 1) = 0 \<longleftrightarrow>
        map sqlite3UpperToLower (drop (i + 1) a) = map sqlite3UpperToLower (drop (i + 1) b)"
      if "sqlite3UpperToLower (a ! i) = sqlite3UpperToLower (b ! i)"
      using "1.IH" [OF refl refl] 4 nz that "1.prems" by (cases "a ! i = b ! i") (simp_all add: chr_at_def)
    ultimately show ?thesis using 4 nz
      by (auto simp: sqlite3StrICmp_at.simps [of a b i] chr_at_def Let_def simp flip: word_uint_eq_iff)
  qed
qed

text \<open>Writing a string between quotes with every inner closing quote doubled.\<close>

definition double_quotes :: "byte \<Rightarrow> byte list \<Rightarrow> byte list" where
  "double_quotes q w = concat (map (\<lambda>c. if c = q then [q, q] else [c]) w)"

definition closing_quote :: "byte \<Rightarrow> byte" where
  "closing_quote q = (if q = 0x5b then 0x5d else q)"

lemma dequote_at_double_quotes:
  "q \<noteq> 0 \<Longrightarrow> dequote_at (pre @ double_quotes q w @ [q]) q (length pre) = w"
proof (induction w arbitrary: pre)
  case Nil
  then show ?case by (subst dequote_at.simps) (simp add: double_quotes_def chr_at_def nth_append)
next
  case (Cons c w)
  show ?case
  proof (cases "c = q")
    case True
    then show ?thesis using Cons.IH [OF Cons.prems, of "pre @ [q, q]"]
      by (subst dequote_at.simps) (simp add: double_quotes_def chr_at_def nth_append)
  next
    case False
    then show ?thesis using Cons.IH [OF Cons.prems, of "pre @ [c]"]
      by (subst dequote_at.simps) (simp add: double_quotes_def chr_at_def nth_append)
  qed
qed

section \<open>Properties\<close>

text \<open>Case-insensitive comparison of two C strings is zero exactly when they agree after mapping
  the capital letters, NULL pointers included.\<close>

theorem stricmp_zero_iff:
  assumes "0 \<notin> set l" and "0 \<notin> set r"
  shows "sqlite3_stricmp (Some l) (Some r) = 0 \<longleftrightarrow> map sqlite3UpperToLower l = map sqlite3UpperToLower r"
  using sqlite3StrICmp_at_eq_0 [OF assms, of 0] by (simp add: sqlite3_stricmp_def sqlite3StrICmp_def)

theorem stricmp_zero_iff_witness:
  "sqlite3_stricmp (Some [0x4d, 0x61]) (Some [0x6d, 0x41]) = 0"
  using stricmp_zero_iff [of "[0x4d, 0x61]" "[0x6d, 0x41]"] by (simp add: sqlite3UpperToLower_def)

text \<open>Removing quotes undoes quoting: for each of the four opening quotes, a string written between
  the quotes with its inner closing quotes doubled comes back unchanged.\<close>

theorem dequote_roundtrip:
  assumes "sqlite3Isquote q"
  shows "sqlite3Dequote (q # double_quotes (closing_quote q) w @ [closing_quote q]) = w"
proof -
  have "q \<noteq> 0" using assms by (auto simp: ctype_def sqlite3CtypeMap_def)
  then have "closing_quote q \<noteq> 0" by (simp add: closing_quote_def)
  then show ?thesis using dequote_at_double_quotes [of "closing_quote q" "[q]" w] assms
    by (simp add: sqlite3Dequote_def chr_at_def closing_quote_def Let_def)
qed

theorem dequote_roundtrip_witness: "sqlite3Dequote [0x27, 0x61, 0x27, 0x27, 0x62, 0x27] = [0x61, 0x27, 0x62]"
  using dequote_roundtrip [of "0x27" "[0x61, 0x27, 0x62]"]
  by (simp add: ctype_def sqlite3CtypeMap_def double_quotes_def closing_quote_def)

end
