(* ===== verification/Codec_Page.thy ===== *)
theory Codec_Page
  imports Codec_Ctx Util_Text
begin

text \<open>
  The page cipher of \<open>src/sqlcipher.c\<close>: the HMAC of a page, and encryption and decryption of one page
  with its reserve of initialisation vector, HMAC and padding. The page and the output buffer
  are byte lists; a pointer into them is an offset. Host byte order is little-endian. The
  cryptographic provider is a parameter; \<open>provider_ok\<close> states what its interface documents.
\<close>

section \<open>Definitions\<close>

abbreviation (input) CIPHER_DECRYPT :: int where "CIPHER_DECRYPT \<equiv> 0"
abbreviation (input) CIPHER_ENCRYPT :: int where "CIPHER_ENCRYPT \<equiv> 1"
abbreviation (input) BTREE_AUTOVACUUM_NONE :: int where "BTREE_AUTOVACUUM_NONE \<equiv> 0"

subsection \<open>Page HMAC and page cipher\<close>

definition hmac_pgno :: "u32 \<Rightarrow> u32 \<Rightarrow> byte list" where
  "hmac_pgno fl pgno =
     (if flag_get fl CIPHER_FLAG_LE_PGNO then sqlcipher_put4byte_le pgno
      else if flag_get fl CIPHER_FLAG_BE_PGNO then sqlite3Put4byte pgno
      else sqlcipher_put4byte_le pgno)"

text \<open>The HMAC key is unshielded around the provider call. The result is the code, the bytes the
  provider stores, and the cipher context as it is left.\<close>

definition sqlcipher_page_hmac ::
    "('p, 'a) sc_state_scheme \<Rightarrow> 'p codec_ctx \<Rightarrow> cipher_ctx \<Rightarrow> u32 \<Rightarrow> byte list
      \<Rightarrow> int \<times> byte list \<times> cipher_ctx" where
  "sqlcipher_page_hmac st ctx c_ctx pgno inp =
     (let ksz = nat (key_sz ctx);
          shield = (\<lambda>d. sqlcipher_shield (shield_mask st) d ksz);
          c_ctx = c_ctx\<lparr>cc_hmac_key := buf_update shield (cc_hmac_key c_ctx)\<rparr>;
          (rc, out) = p_hmac (ctx_provider ctx) (provider_ctx ctx) (hmac_algorithm ctx)
                        (take ksz (buf_bytes (cc_hmac_key c_ctx))) inp (hmac_pgno (ctx_flags ctx) pgno);
          c_ctx = c_ctx\<lparr>cc_hmac_key := buf_update shield (cc_hmac_key c_ctx)\<rparr>
      in (rc, out, c_ctx))"

text \<open>The outcome of the HMAC check before decryption: go on, hand out a zeroed page (a read past the
  end of an auto-vacuum database), or fail.\<close>

datatype hmac_verdict = Hmac_Pass | Hmac_Zero_Page | Hmac_Fail

definition check_page_hmac ::
    "('p, 'a) sc_state_scheme \<Rightarrow> 'p codec_ctx \<Rightarrow> cipher_ctx \<Rightarrow> u32 \<Rightarrow> nat \<Rightarrow> nat \<Rightarrow> byte list \<Rightarrow> byte list
      \<Rightarrow> hmac_verdict \<times> byte list \<times> cipher_ctx" where
  "check_page_hmac st ctx c_ctx pgno page_n hmac_off inp out =
     (let (rc, mac, c_ctx) = sqlcipher_page_hmac st ctx c_ctx pgno (take hmac_off inp);
          out = buf_write hmac_off mac out
      in if rc \<noteq> SQLITE_OK then (Hmac_Fail, out, c_ctx)
         else if sqlcipher_memcmp (drop hmac_off inp) (drop hmac_off out) (nat (hmac_sz ctx)) \<noteq> 0 then
           (if bt_autovacuum (bt_store st (pBt ctx)) \<noteq> BTREE_AUTOVACUUM_NONE
               \<and> sqlcipher_ismemset inp 0 page_n = 0
            then (Hmac_Zero_Page, out, c_ctx) else (Hmac_Fail, out, c_ctx))
         else (Hmac_Pass, out, c_ctx))"

text \<open>The cipher call itself, with the key unshielded around it.\<close>

definition cipher_page_data ::
    "('p, 'a) sc_state_scheme \<Rightarrow> 'p codec_ctx \<Rightarrow> cipher_ctx \<Rightarrow> int \<Rightarrow> nat \<Rightarrow> byte list \<Rightarrow> byte list
      \<Rightarrow> int \<times> byte list \<times> cipher_ctx" where
  "cipher_page_data st ctx c_ctx mode n inp out =
     (let ksz = nat (key_sz ctx);
          shield = (\<lambda>d. sqlcipher_shield (shield_mask st) d ksz);
          c_ctx = c_ctx\<lparr>cc_key := buf_update shield (cc_key c_ctx)\<rparr>;
          (rc, res) = p_cipher (ctx_provider ctx) (provider_ctx ctx) mode
                        (take ksz (buf_bytes (cc_key c_ctx))) (buf_read n (nat (iv_sz ctx)) out) (take n inp);
          c_ctx = c_ctx\<lparr>cc_key := buf_update shield (cc_key c_ctx)\<rparr>
      in (rc, buf_write 0 res out, c_ctx))"

text \<open>\<open>inp\<close> and \<open>out\<close> are the \<open>page_n\<close> bytes at the pointers \<open>in\<close> and \<open>out\<close>. The result is the code, the
  output buffer, and the context (the random generator of the provider has advanced, and each
  key has been unshielded and shielded).\<close>

definition sqlcipher_page_cipher ::
    "('p, 'a) sc_state_scheme \<Rightarrow> 'p codec_ctx \<Rightarrow> int \<Rightarrow> u32 \<Rightarrow> int \<Rightarrow> int \<Rightarrow> byte list \<Rightarrow> byte list
      \<Rightarrow> int \<times> byte list \<times> 'p codec_ctx" where
  "sqlcipher_page_cipher st ctx for_ctx pgno mode page_n inp out =
     (case sub_ctx for_ctx ctx of
        None \<Rightarrow> (SQLITE_ERROR, out, ctx)
      | Some c_ctx \<Rightarrow>
     let n = nat (page_n - reserve_sz ctx);
         hmac_off = n + nat (iv_sz ctx);
         hmac_on = flag_get (ctx_flags ctx) CIPHER_FLAG_HMAC;
         wiped = (\<lambda>out. sqlcipher_memset out 0 (nat page_n))
     in
     if pgno = 1 \<and> page_n - reserve_sz ctx = 0 then (SQLITE_OK, out, ctx)
     else if key_sz ctx = 0 then (SQLITE_ERROR, wiped out, ctx)
     else
     let (iv_ok, out, ctx) =
           (if mode = CIPHER_ENCRYPT then
              let (rc, bytes, pc) = p_random (ctx_provider ctx) (provider_ctx ctx) (nat (reserve_sz ctx))
              in (rc = SQLITE_OK, buf_write n bytes out, ctx\<lparr>provider_ctx := pc\<rparr>)
            else (True, buf_write n (buf_read n (nat (iv_sz ctx)) inp) out, ctx))
     in
     if \<not> iv_ok then (SQLITE_ERROR, wiped out, ctx)
     else
     let (verdict, out, c_ctx) =
           (if hmac_on \<and> mode = CIPHER_DECRYPT
            then check_page_hmac st ctx c_ctx pgno (nat page_n) hmac_off inp out
            else (Hmac_Pass, out, c_ctx));
         ctx = put_sub_ctx for_ctx c_ctx ctx
     in
     case verdict of
       Hmac_Zero_Page \<Rightarrow> (SQLITE_OK, wiped out, ctx)
     | Hmac_Fail \<Rightarrow> (SQLITE_ERROR, wiped out, ctx)
     | Hmac_Pass \<Rightarrow>
     let (rc, out, c_ctx) = cipher_page_data st ctx c_ctx mode n inp out;
         ctx = put_sub_ctx for_ctx c_ctx ctx
     in
     if rc \<noteq> SQLITE_OK then (SQLITE_ERROR, wiped out, ctx)
     else if hmac_on \<and> mode = CIPHER_ENCRYPT then
       let (rc, mac, c_ctx) = sqlcipher_page_hmac st ctx c_ctx pgno (take hmac_off out);
           out = buf_write hmac_off mac out;
           ctx = put_sub_ctx for_ctx c_ctx ctx
       in (if rc \<noteq> SQLITE_OK then (SQLITE_ERROR, wiped out, ctx) else (SQLITE_OK, out, ctx))
     else (SQLITE_OK, out, ctx))"

subsection \<open>Well-formed contexts and the provider's contract\<close>

text \<open>The documented behaviour of a provider: \<open>random\<close> fills the buffer and changes nothing the other
  operations depend on; \<open>hmac\<close> produces the size \<open>get_hmac_sz\<close> announces; \<open>cipher\<close> keeps the length
  of whole blocks and decryption inverts encryption under the same key and vector; \<open>kdf\<close> fills
  the key.\<close>

definition provider_random_ok :: "'p provider \<Rightarrow> bool" where
  "provider_random_ok prov \<longleftrightarrow>
     (\<forall>pc n bs pc'. p_random prov pc n = (SQLITE_OK, bs, pc') \<longrightarrow>
        length bs = n \<and> p_hmac prov pc' = p_hmac prov pc \<and> p_cipher prov pc' = p_cipher prov pc
        \<and> p_kdf prov pc' = p_kdf prov pc)"

definition provider_hmac_ok :: "'p provider \<Rightarrow> bool" where
  "provider_hmac_ok prov \<longleftrightarrow>
     (\<forall>pc alg k x y m. p_hmac prov pc alg k x y = (SQLITE_OK, m) \<longrightarrow>
        int (length m) = p_get_hmac_sz prov pc alg)"

definition provider_cipher_ok :: "'p provider \<Rightarrow> bool" where
  "provider_cipher_ok prov \<longleftrightarrow>
     (\<forall>pc k iv x y. p_cipher prov pc CIPHER_ENCRYPT k iv x = (SQLITE_OK, y)
        \<and> int (length k) = p_get_key_sz prov pc \<and> int (length iv) = p_get_iv_sz prov pc
        \<and> p_get_block_sz prov pc dvd int (length x) \<longrightarrow>
        length y = length x \<and> p_cipher prov pc CIPHER_DECRYPT k iv y = (SQLITE_OK, x))"

definition provider_kdf_ok :: "'p provider \<Rightarrow> bool" where
  "provider_kdf_ok prov \<longleftrightarrow>
     (\<forall>pc alg pw salt iter n k. p_kdf prov pc alg pw salt iter n = (SQLITE_OK, k) \<longrightarrow> length k = n)"

definition provider_ok :: "'p provider \<Rightarrow> bool" where
  "provider_ok prov \<longleftrightarrow>
     provider_random_ok prov \<and> provider_hmac_ok prov \<and> provider_cipher_ok prov \<and> provider_kdf_ok prov"

definition cipher_ctx_ok :: "'p codec_ctx \<Rightarrow> cipher_ctx \<Rightarrow> bool" where
  "cipher_ctx_ok ctx c \<longleftrightarrow>
     cc_key c \<noteq> None \<and> int (length (buf_bytes (cc_key c))) = key_sz ctx
     \<and> cc_hmac_key c \<noteq> None \<and> int (length (buf_bytes (cc_hmac_key c))) = key_sz ctx"

text \<open>The sizes of a context agree with its provider, and the reserve has room for the
  initialisation vector and, with HMAC, for the HMAC after it.\<close>

definition sizes_ok :: "'p codec_ctx \<Rightarrow> bool" where
  "sizes_ok ctx \<longleftrightarrow>
     0 < key_sz ctx \<and> key_sz ctx = p_get_key_sz (ctx_provider ctx) (provider_ctx ctx)
     \<and> 0 \<le> iv_sz ctx \<and> iv_sz ctx = p_get_iv_sz (ctx_provider ctx) (provider_ctx ctx)
     \<and> 0 < block_sz ctx \<and> block_sz ctx = p_get_block_sz (ctx_provider ctx) (provider_ctx ctx)
     \<and> 0 \<le> hmac_sz ctx \<and> hmac_sz ctx = p_get_hmac_sz (ctx_provider ctx) (provider_ctx ctx) (hmac_algorithm ctx)
     \<and> iv_sz ctx \<le> reserve_sz ctx
     \<and> (flag_get (ctx_flags ctx) CIPHER_FLAG_HMAC \<longrightarrow> iv_sz ctx + hmac_sz ctx \<le> reserve_sz ctx)"

section \<open>Lemmas\<close>

subsection \<open>Buffers and contexts\<close>

lemma buf_update_update [simp]: "buf_update f (buf_update g b) = buf_update (f \<circ> g) b"
  by (cases b) (simp_all add: buf_update_def)

lemma buf_update_id [simp]: "buf_update (\<lambda>x. x) b = b"
  by (cases b) (simp_all add: buf_update_def)

lemma buf_bytes_update: "b \<noteq> None \<Longrightarrow> buf_bytes (buf_update f b) = f (buf_bytes b)"
  by (cases b) (simp_all add: buf_update_def buf_bytes_def)

lemma buf_update_eq_None [simp]: "buf_update f b = None \<longleftrightarrow> b = None"
  by (cases b) (simp_all add: buf_update_def)

text \<open>A key as the provider sees it.\<close>

definition unshielded :: "('p, 'a) sc_state_scheme \<Rightarrow> int \<Rightarrow> heap_buf option \<Rightarrow> byte list" where
  "unshielded st n b = take (nat n) (sqlcipher_shield (shield_mask st) (buf_bytes b) (nat n))"

lemma shielded_around [simp]:
  "buf_update ((\<lambda>d. sqlcipher_shield m d n) \<circ> (\<lambda>d. sqlcipher_shield m d n)) b = b"
  by (simp add: comp_def)

lemma buf_bytes_shield: "buf_bytes (buf_update (\<lambda>d. sqlcipher_shield m d n) b) = sqlcipher_shield m (buf_bytes b) n"
  by (cases b) (simp_all add: buf_update_def buf_bytes_def sqlcipher_shield_def)

lemma page_hmac_eq:
  "sqlcipher_page_hmac st ctx c pgno x =
     (let (rc, mac) = p_hmac (ctx_provider ctx) (provider_ctx ctx) (hmac_algorithm ctx)
                        (unshielded st (key_sz ctx) (cc_hmac_key c)) x (hmac_pgno (ctx_flags ctx) pgno)
      in (rc, mac, c))"
  by (simp add: sqlcipher_page_hmac_def unshielded_def buf_bytes_shield Let_def case_prod_beta)

lemma cipher_page_data_eq:
  "cipher_page_data st ctx c mode n inp out =
     (let (rc, res) = p_cipher (ctx_provider ctx) (provider_ctx ctx) mode
                        (unshielded st (key_sz ctx) (cc_key c)) (buf_read n (nat (iv_sz ctx)) out) (take n inp)
      in (rc, buf_write 0 res out, c))"
  by (simp add: cipher_page_data_def unshielded_def buf_bytes_shield Let_def case_prod_beta)

lemma put_sub_ctx_same [simp]: "sub_ctx for_ctx ctx = Some c \<Longrightarrow> put_sub_ctx for_ctx c ctx = ctx"
  by (simp add: sub_ctx_def put_sub_ctx_def split: if_splits)

lemma length_unshielded: "int (length (buf_bytes b)) = n \<Longrightarrow> int (length (unshielded st n b)) = n"
  by (auto simp: unshielded_def)

lemma provider_random:
  "provider_ok prov \<Longrightarrow> p_random prov pc n = (SQLITE_OK, bs, pc') \<Longrightarrow>
     length bs = n \<and> p_hmac prov pc' = p_hmac prov pc \<and> p_cipher prov pc' = p_cipher prov pc"
  unfolding provider_ok_def provider_random_ok_def by blast

lemma provider_hmac:
  "provider_ok prov \<Longrightarrow> p_hmac prov pc alg k x y = (SQLITE_OK, m) \<Longrightarrow> int (length m) = p_get_hmac_sz prov pc alg"
  unfolding provider_ok_def provider_hmac_ok_def by blast

lemma provider_cipher:
  "provider_ok prov \<Longrightarrow> p_cipher prov pc CIPHER_ENCRYPT k iv x = (SQLITE_OK, y) \<Longrightarrow>
   int (length k) = p_get_key_sz prov pc \<Longrightarrow> int (length iv) = p_get_iv_sz prov pc \<Longrightarrow>
   p_get_block_sz prov pc dvd int (length x) \<Longrightarrow>
     length y = length x \<and> p_cipher prov pc CIPHER_DECRYPT k iv y = (SQLITE_OK, x)"
  unfolding provider_ok_def provider_cipher_ok_def by blast

subsection \<open>Encryption and decryption of a page\<close>

lemma take_buf_write_before: "k \<le> off \<Longrightarrow> off \<le> length b \<Longrightarrow> take k (buf_write off s b) = take k b"
  by (simp add: buf_write_def)

lemma drop_buf_write: "off \<le> length b \<Longrightarrow> drop off (buf_write off s b) = s @ drop (off + length s) b"
  by (simp add: buf_write_def)

lemma take_buf_write_0: "n = length s \<Longrightarrow> take n (buf_write 0 s b) = s"
  by (simp add: buf_write_def)

lemma sub_ctx_provider_ctx [simp]: "sub_ctx f (ctx\<lparr>provider_ctx := pc\<rparr>) = sub_ctx f ctx"
  by (simp add: sub_ctx_def)

text \<open>What a successful encryption computed.\<close>

lemma page_encrypt_OK:
  assumes enc: "sqlcipher_page_cipher st ctx for_ctx pgno CIPHER_ENCRYPT page_n inp out = (SQLITE_OK, page, ctx')"
    and c: "sub_ctx for_ctx ctx = Some c" and n: "n = nat (page_n - reserve_sz ctx)"
    and late: "\<not> (pgno = 1 \<and> page_n - reserve_sz ctx = 0)"
  obtains bs pc' res where
    "p_random (ctx_provider ctx) (provider_ctx ctx) (nat (reserve_sz ctx)) = (SQLITE_OK, bs, pc')"
    "key_sz ctx \<noteq> 0" "ctx' = ctx\<lparr>provider_ctx := pc'\<rparr>"
    "p_cipher (ctx_provider ctx) pc' CIPHER_ENCRYPT (unshielded st (key_sz ctx) (cc_key c))
       (buf_read n (nat (iv_sz ctx)) (buf_write n bs out)) (take n inp) = (SQLITE_OK, res)"
    "\<not> flag_get (ctx_flags ctx) CIPHER_FLAG_HMAC \<longrightarrow> page = buf_write 0 res (buf_write n bs out)"
    "flag_get (ctx_flags ctx) CIPHER_FLAG_HMAC \<longrightarrow> (\<exists>mac.
       p_hmac (ctx_provider ctx) pc' (hmac_algorithm ctx) (unshielded st (key_sz ctx) (cc_hmac_key c))
         (take (n + nat (iv_sz ctx)) (buf_write 0 res (buf_write n bs out)))
         (hmac_pgno (ctx_flags ctx) pgno) = (SQLITE_OK, mac)
       \<and> page = buf_write (n + nat (iv_sz ctx)) mac (buf_write 0 res (buf_write n bs out)))"
proof -
  obtain rr bs pc' where r: "p_random (ctx_provider ctx) (provider_ctx ctx) (nat (reserve_sz ctx)) = (rr, bs, pc')"
    by (metis prod.exhaust)
  obtain rc res where p: "p_cipher (ctx_provider ctx) pc' CIPHER_ENCRYPT (unshielded st (key_sz ctx) (cc_key c))
       (buf_read n (nat (iv_sz ctx)) (buf_write n bs out)) (take n inp) = (rc, res)"
    by (metis prod.exhaust)
  obtain hrc mac where h: "p_hmac (ctx_provider ctx) pc' (hmac_algorithm ctx) (unshielded st (key_sz ctx) (cc_hmac_key c))
         (take (n + nat (iv_sz ctx)) (buf_write 0 res (buf_write n bs out)))
         (hmac_pgno (ctx_flags ctx) pgno) = (hrc, mac)"
    by (metis prod.exhaust)
  note eqs = sqlcipher_page_cipher_def cipher_page_data_eq page_hmac_eq c r p h n [symmetric]
  show thesis
    using enc late by (intro that [of bs pc' res]) (auto simp: eqs Let_def split: if_splits)
qed

lemma page_decrypt_eq:
  assumes c: "sub_ctx for_ctx ctx = Some c" and n: "n = nat (page_n - reserve_sz ctx)"
    and late: "\<not> (pgno = 1 \<and> page_n - reserve_sz ctx = 0)" and key: "key_sz ctx \<noteq> 0"
    and room: "n + nat (iv_sz ctx) \<le> length inp" "n + nat (iv_sz ctx) \<le> length out"
    and p: "p_cipher (ctx_provider ctx) (provider_ctx ctx) CIPHER_DECRYPT (unshielded st (key_sz ctx) (cc_key c))
       (buf_read n (nat (iv_sz ctx)) inp) (take n inp) = (SQLITE_OK, res)"
    and h: "flag_get (ctx_flags ctx) CIPHER_FLAG_HMAC \<Longrightarrow>
       p_hmac (ctx_provider ctx) (provider_ctx ctx) (hmac_algorithm ctx) (unshielded st (key_sz ctx) (cc_hmac_key c))
         (take (n + nat (iv_sz ctx)) inp) (hmac_pgno (ctx_flags ctx) pgno) = (SQLITE_OK, mac)
       \<and> nat (hmac_sz ctx) \<le> length mac \<and> n + nat (iv_sz ctx) + nat (hmac_sz ctx) \<le> length inp
       \<and> buf_read (n + nat (iv_sz ctx)) (nat (hmac_sz ctx)) inp = take (nat (hmac_sz ctx)) mac"
  shows "\<exists>dec. sqlcipher_page_cipher st ctx for_ctx pgno CIPHER_DECRYPT page_n inp out = (SQLITE_OK, dec, ctx)
    \<and> take (length res) dec = res"
proof -
  define iv where "iv = buf_read n (nat (iv_sz ctx)) inp"
  define out1 where "out1 = buf_write n iv out"
  have liv: "length iv = nat (iv_sz ctx)" using room by (simp add: iv_def)
  have iv1: "buf_read n (nat (iv_sz ctx)) (buf_write (n + nat (iv_sz ctx)) m out1) = iv" for m
    using room liv by (simp add: out1_def buf_write_def buf_read_def)
  have iv0: "buf_read n (nat (iv_sz ctx)) out1 = iv"
    using room liv by (simp add: out1_def buf_write_def buf_read_def)
  have l1: "n + nat (iv_sz ctx) \<le> length out1" using room liv by (simp add: out1_def)
  show ?thesis
  proof (cases "flag_get (ctx_flags ctx) CIPHER_FLAG_HMAC")
    case True
    have cmp: "sqlcipher_memcmp (drop (n + nat (iv_sz ctx)) inp)
        (drop (n + nat (iv_sz ctx)) (buf_write (n + nat (iv_sz ctx)) mac out1)) (nat (hmac_sz ctx)) = 0"
      using h [OF True] l1 by (subst memcmp_eq_0_iff) (auto simp: drop_buf_write buf_read_def)
    show ?thesis
      using c late key True h [OF True] p cmp iv1 [of mac]
      by (auto simp: sqlcipher_page_cipher_def check_page_hmac_def page_hmac_eq cipher_page_data_eq
          n [symmetric] iv_def [symmetric] out1_def [symmetric] Let_def take_buf_write_0)
  next
    case False
    then show ?thesis
      using c late key p iv0
      by (auto simp: sqlcipher_page_cipher_def cipher_page_data_eq
          n [symmetric] iv_def [symmetric] out1_def [symmetric] Let_def take_buf_write_0)
  qed
qed

lemma page_encrypt_sub_ctx:
  assumes enc: "sqlcipher_page_cipher st ctx for_ctx pgno CIPHER_ENCRYPT page_n inp out = (SQLITE_OK, page, ctx')"
    and c: "sub_ctx for_ctx ctx = Some c"
  shows "sub_ctx for_ctx ctx' = Some c"
proof (cases "pgno = 1 \<and> page_n - reserve_sz ctx = 0")
  case True
  then show ?thesis using enc c by (auto simp: sqlcipher_page_cipher_def)
next
  case False
  show ?thesis by (rule page_encrypt_OK [OF enc c refl False]) (simp add: c)
qed

text \<open>The layout of a sealed page: ciphertext, vector, and with HMAC on the HMAC, inside the reserve.\<close>

lemma sealed_page:
  assumes n: "n = length res" and k: "k \<le> length bs" and fits: "on \<Longrightarrow> k + length mac \<le> length bs"
    and page: "page = (if on then buf_write (n + k) mac (res @ bs) else res @ bs)"
  shows "take n page = res" "buf_read n k page = take k bs" "take (n + k) page = res @ take k bs"
    "n + k \<le> length page" "on \<Longrightarrow> n + k + length mac \<le> length page"
    "on \<Longrightarrow> buf_read (n + k) (length mac) page = mac"
  using k fits by (auto simp: page n buf_write_def buf_read_def)

text \<open>Two contexts that seal and open pages in the same way.\<close>

definition same_codec :: "'p codec_ctx \<Rightarrow> 'p codec_ctx \<Rightarrow> bool" where
  "same_codec ctx ctx2 \<longleftrightarrow>
     ctx_provider ctx2 = ctx_provider ctx
     \<and> p_hmac (ctx_provider ctx) (provider_ctx ctx2) = p_hmac (ctx_provider ctx) (provider_ctx ctx)
     \<and> p_cipher (ctx_provider ctx) (provider_ctx ctx2) = p_cipher (ctx_provider ctx) (provider_ctx ctx)
     \<and> key_sz ctx2 = key_sz ctx \<and> iv_sz ctx2 = iv_sz ctx \<and> hmac_sz ctx2 = hmac_sz ctx
     \<and> reserve_sz ctx2 = reserve_sz ctx \<and> hmac_algorithm ctx2 = hmac_algorithm ctx
     \<and> flag_get (ctx_flags ctx2) CIPHER_FLAG_HMAC = flag_get (ctx_flags ctx) CIPHER_FLAG_HMAC
     \<and> hmac_pgno (ctx_flags ctx2) = hmac_pgno (ctx_flags ctx)"

definition same_keys :: "cipher_ctx \<Rightarrow> cipher_ctx \<Rightarrow> bool" where
  "same_keys c c2 \<longleftrightarrow> buf_bytes (cc_key c2) = buf_bytes (cc_key c)
     \<and> buf_bytes (cc_hmac_key c2) = buf_bytes (cc_hmac_key c)"

lemma same_keys_unshielded:
  "same_keys c c2 \<Longrightarrow> unshielded st n (cc_key c2) = unshielded st n (cc_key c)"
  "same_keys c c2 \<Longrightarrow> unshielded st n (cc_hmac_key c2) = unshielded st n (cc_hmac_key c)"
  by (simp_all add: same_keys_def unshielded_def)

text \<open>A successful encryption in terms of its random bytes, ciphertext and HMAC.\<close>

lemma page_encrypt_layout:
  assumes prov: "provider_ok (ctx_provider ctx)" and sizes: "sizes_ok ctx"
    and c: "sub_ctx for_ctx ctx = Some c" "cipher_ctx_ok ctx c"
    and geo: "reserve_sz ctx \<le> page_n" "block_sz ctx dvd page_n - reserve_sz ctx"
    and lens: "length inp = nat page_n" "length out = nat page_n"
    and enc: "sqlcipher_page_cipher st ctx for_ctx pgno CIPHER_ENCRYPT page_n inp out = (SQLITE_OK, page, ctx')"
    and late: "\<not> (pgno = 1 \<and> page_n - reserve_sz ctx = 0)"
    and n: "n = nat (page_n - reserve_sz ctx)" and k: "k = nat (iv_sz ctx)"
  obtains res bs mac where
    "length res = n" "length bs = nat (reserve_sz ctx)" "k \<le> length bs" "length inp = n + length bs"
    "p_cipher (ctx_provider ctx) (provider_ctx ctx) CIPHER_DECRYPT
       (unshielded st (key_sz ctx) (cc_key c)) (take k bs) res = (SQLITE_OK, take n inp)"
    "flag_get (ctx_flags ctx) CIPHER_FLAG_HMAC \<longrightarrow>
       k + length mac \<le> length bs \<and> length mac = nat (hmac_sz ctx)
       \<and> p_hmac (ctx_provider ctx) (provider_ctx ctx) (hmac_algorithm ctx)
           (unshielded st (key_sz ctx) (cc_hmac_key c)) (res @ take k bs)
           (hmac_pgno (ctx_flags ctx) pgno) = (SQLITE_OK, mac)"
    "page = (if flag_get (ctx_flags ctx) CIPHER_FLAG_HMAC then buf_write (n + k) mac (res @ bs) else res @ bs)"
    "same_codec ctx ctx'"
proof -
  obtain bs pc' res where
    r: "p_random (ctx_provider ctx) (provider_ctx ctx) (nat (reserve_sz ctx)) = (SQLITE_OK, bs, pc')"
    and "key_sz ctx \<noteq> 0" and ctx': "ctx' = ctx\<lparr>provider_ctx := pc'\<rparr>"
    and p: "p_cipher (ctx_provider ctx) pc' CIPHER_ENCRYPT (unshielded st (key_sz ctx) (cc_key c))
       (buf_read n (nat (iv_sz ctx)) (buf_write n bs out)) (take n inp) = (SQLITE_OK, res)"
    and page0: "\<not> flag_get (ctx_flags ctx) CIPHER_FLAG_HMAC \<longrightarrow> page = buf_write 0 res (buf_write n bs out)"
    and page1: "flag_get (ctx_flags ctx) CIPHER_FLAG_HMAC \<longrightarrow> (\<exists>mac.
       p_hmac (ctx_provider ctx) pc' (hmac_algorithm ctx) (unshielded st (key_sz ctx) (cc_hmac_key c))
         (take (n + nat (iv_sz ctx)) (buf_write 0 res (buf_write n bs out)))
         (hmac_pgno (ctx_flags ctx) pgno) = (SQLITE_OK, mac)
       \<and> page = buf_write (n + nat (iv_sz ctx)) mac (buf_write 0 res (buf_write n bs out)))"
    by (rule page_encrypt_OK [OF enc c(1) n late]) (rule that; assumption)
  note p = p [folded k] and page1 = page1 [folded k]
  note pr = provider_random [OF prov r]
  have pos: "0 \<le> iv_sz ctx" "iv_sz ctx \<le> reserve_sz ctx" using sizes by (auto simp: sizes_ok_def)
  have lbs: "length bs = nat (reserve_sz ctx)" using pr by blast
  have iv: "k \<le> length bs" using lbs pos by (simp add: nat_mono k)
  have lout: "length out = n + length bs" using lbs lens geo pos by (simp add: n nat_diff_distrib)
  have ivb: "buf_read n k (buf_write n bs out) = take k bs"
    using lout by (simp add: buf_read_def buf_write_def)
  have linp: "length (take n inp) = n" using lens lout by simp
  have cip: "length res = n \<and> p_cipher (ctx_provider ctx) (provider_ctx ctx) CIPHER_DECRYPT
      (unshielded st (key_sz ctx) (cc_key c)) (take k bs) res = (SQLITE_OK, take n inp)"
    using provider_cipher [OF prov p [unfolded ivb pr [THEN conjunct2, THEN conjunct2]]]
      sizes c(2) geo iv linp by (simp add: sizes_ok_def cipher_ctx_ok_def length_unshielded n k)
  have W: "buf_write 0 res (buf_write n bs out) = res @ bs"
    using lout cip by (simp add: buf_write_def)
  obtain mac where on: "flag_get (ctx_flags ctx) CIPHER_FLAG_HMAC \<longrightarrow>
       p_hmac (ctx_provider ctx) (provider_ctx ctx) (hmac_algorithm ctx) (unshielded st (key_sz ctx) (cc_hmac_key c))
         (res @ take k bs) (hmac_pgno (ctx_flags ctx) pgno) = (SQLITE_OK, mac)
       \<and> page = buf_write (n + k) mac (res @ bs)"
    using page1 pr cip unfolding W by auto
  have fits: "length mac = nat (hmac_sz ctx) \<and> k + length mac \<le> length bs"
    if "flag_get (ctx_flags ctx) CIPHER_FLAG_HMAC"
  proof -
    have lmac: "int (length mac) = hmac_sz ctx"
      using provider_hmac [OF prov on [THEN mp, OF that, THEN conjunct1]] sizes by (simp add: sizes_ok_def)
    have "iv_sz ctx + hmac_sz ctx \<le> reserve_sz ctx" using sizes that by (simp add: sizes_ok_def)
    then show ?thesis using lmac lbs pos k by linarith
  qed
  show thesis
    using page0 [unfolded W] on fits cip lbs iv lens lout pr
    by (intro that [of res bs mac]) (auto simp: same_codec_def ctx')
qed

lemma page_cipher_reopens:
  assumes prov: "provider_ok (ctx_provider ctx)" and sizes: "sizes_ok ctx"
    and c: "sub_ctx for_ctx ctx = Some c" "cipher_ctx_ok ctx c"
    and geo: "reserve_sz ctx \<le> page_n" "block_sz ctx dvd page_n - reserve_sz ctx"
    and lens: "length inp = nat page_n" "length out = nat page_n" "length out' = nat page_n"
    and enc: "sqlcipher_page_cipher st ctx for_ctx pgno CIPHER_ENCRYPT page_n inp out = (SQLITE_OK, page, ctx')"
    and c2: "sub_ctx for_ctx2 ctx2 = Some c2" "same_keys c c2" and same: "same_codec ctx' ctx2"
    and st2: "shield_mask st2 = shield_mask st"
  shows "\<exists>dec. sqlcipher_page_cipher st2 ctx2 for_ctx2 pgno CIPHER_DECRYPT page_n page out' = (SQLITE_OK, dec, ctx2)
    \<and> take (nat (page_n - reserve_sz ctx)) dec = take (nat (page_n - reserve_sz ctx)) inp"
proof (cases "pgno = 1 \<and> page_n - reserve_sz ctx = 0")
  case True
  moreover have "reserve_sz ctx2 = reserve_sz ctx"
    using True enc c same by (auto simp: sqlcipher_page_cipher_def same_codec_def)
  ultimately show ?thesis using c2 by (auto simp: sqlcipher_page_cipher_def)
next
  case False
  define n where "n = nat (page_n - reserve_sz ctx)"
  define k where "k = nat (iv_sz ctx)"
  obtain res bs mac where
    l: "length res = n" "length bs = nat (reserve_sz ctx)" "k \<le> length bs" "length inp = n + length bs"
    and p: "p_cipher (ctx_provider ctx) (provider_ctx ctx) CIPHER_DECRYPT
       (unshielded st (key_sz ctx) (cc_key c)) (take k bs) res = (SQLITE_OK, take n inp)"
    and h: "flag_get (ctx_flags ctx) CIPHER_FLAG_HMAC \<longrightarrow>
       k + length mac \<le> length bs \<and> length mac = nat (hmac_sz ctx)
       \<and> p_hmac (ctx_provider ctx) (provider_ctx ctx) (hmac_algorithm ctx)
           (unshielded st (key_sz ctx) (cc_hmac_key c)) (res @ take k bs)
           (hmac_pgno (ctx_flags ctx) pgno) = (SQLITE_OK, mac)"
    and page: "page = (if flag_get (ctx_flags ctx) CIPHER_FLAG_HMAC then buf_write (n + k) mac (res @ bs) else res @ bs)"
    and same': "same_codec ctx ctx'"
    by (rule page_encrypt_layout [OF prov sizes c geo lens(1,2) enc False n_def k_def]) (rule that; assumption)
  note rd = sealed_page [OF l(1) [symmetric] l(3) _ page]
  have eq: "ctx_provider ctx2 = ctx_provider ctx" "key_sz ctx2 = key_sz ctx" "iv_sz ctx2 = iv_sz ctx"
    "hmac_sz ctx2 = hmac_sz ctx" "reserve_sz ctx2 = reserve_sz ctx" "hmac_algorithm ctx2 = hmac_algorithm ctx"
    "flag_get (ctx_flags ctx2) CIPHER_FLAG_HMAC = flag_get (ctx_flags ctx) CIPHER_FLAG_HMAC"
    "hmac_pgno (ctx_flags ctx2) = hmac_pgno (ctx_flags ctx)"
    "p_hmac (ctx_provider ctx) (provider_ctx ctx2) = p_hmac (ctx_provider ctx) (provider_ctx ctx)"
    "p_cipher (ctx_provider ctx) (provider_ctx ctx2) = p_cipher (ctx_provider ctx) (provider_ctx ctx)"
    using same same' by (simp_all add: same_codec_def)
  have keys: "unshielded st2 m (cc_key c2) = unshielded st m (cc_key c)"
    "unshielded st2 m (cc_hmac_key c2) = unshielded st m (cc_hmac_key c)" for m
    using same_keys_unshielded [OF c2(2)] st2 by (simp_all add: unshielded_def)
  have "n + k \<le> length out'" using lens l by simp
  then show ?thesis
    using page_decrypt_eq [of for_ctx2 ctx2 c2 n page_n pgno page out' st2 "take n inp" mac]
      c2(1) False sizes rd p h l
    by (auto simp: eq keys n_def [symmetric] k_def [symmetric] sizes_ok_def)
qed

subsection \<open>Errors\<close>

lemma take_memset: "take n (sqlcipher_memset v b n) = replicate n b"
  by (simp add: sqlcipher_memset_def)

lemma memset_full: "length v = n \<Longrightarrow> sqlcipher_memset v b n = replicate n b"
  by (simp add: sqlcipher_memset_def)

lemma page_cipher_error:
  assumes "sqlcipher_page_cipher st ctx for_ctx pgno mode page_n inp out = (rc, out', ctx')"
    and "rc \<noteq> SQLITE_OK" and "sub_ctx for_ctx ctx = Some c"
  shows "rc = SQLITE_ERROR \<and> take (nat page_n) out' = replicate (nat page_n) 0"
  using assms
  by (auto simp: sqlcipher_page_cipher_def Let_def take_memset split: if_splits prod.splits hmac_verdict.splits)

lemma check_page_hmac_cases:
  assumes "check_page_hmac st ctx c pgno page_n off inp out = (v, out', c')"
    and prov: "provider_ok (ctx_provider ctx)"
    and sz: "hmac_sz ctx = p_get_hmac_sz (ctx_provider ctx) (provider_ctx ctx) (hmac_algorithm ctx)"
    and room: "off + nat (hmac_sz ctx) \<le> length inp" "off \<le> length out"
  shows "c' = c"
    and "v = Hmac_Pass \<Longrightarrow> p_hmac (ctx_provider ctx) (provider_ctx ctx) (hmac_algorithm ctx)
        (unshielded st (key_sz ctx) (cc_hmac_key c)) (take off inp) (hmac_pgno (ctx_flags ctx) pgno)
      = (SQLITE_OK, buf_read off (nat (hmac_sz ctx)) inp)"
    and "v = Hmac_Zero_Page \<Longrightarrow> bt_autovacuum (bt_store st (pBt ctx)) \<noteq> BTREE_AUTOVACUUM_NONE
      \<and> sqlcipher_ismemset inp 0 page_n = 0"
    and "v \<noteq> Hmac_Fail \<Longrightarrow> off + nat (hmac_sz ctx) \<le> length out \<Longrightarrow> length out' = length out"
proof -
  obtain rc mac where h: "p_hmac (ctx_provider ctx) (provider_ctx ctx) (hmac_algorithm ctx)
      (unshielded st (key_sz ctx) (cc_hmac_key c)) (take off inp) (hmac_pgno (ctx_flags ctx) pgno) = (rc, mac)"
    by (metis prod.exhaust)
  have "check_page_hmac st ctx c pgno page_n off inp out =
     (if rc \<noteq> SQLITE_OK then (Hmac_Fail, buf_write off mac out, c)
      else if sqlcipher_memcmp (drop off inp) (drop off (buf_write off mac out)) (nat (hmac_sz ctx)) \<noteq> 0
      then (if bt_autovacuum (bt_store st (pBt ctx)) \<noteq> BTREE_AUTOVACUUM_NONE
               \<and> sqlcipher_ismemset inp 0 page_n = 0
            then (Hmac_Zero_Page, buf_write off mac out, c) else (Hmac_Fail, buf_write off mac out, c))
      else (Hmac_Pass, buf_write off mac out, c))"
    by (simp add: check_page_hmac_def page_hmac_eq h)
  note res = this [unfolded assms(1)]
  show "c' = c" using res by (auto split: if_splits)
  show "v = Hmac_Zero_Page \<Longrightarrow> bt_autovacuum (bt_store st (pBt ctx)) \<noteq> BTREE_AUTOVACUUM_NONE
      \<and> sqlcipher_ismemset inp 0 page_n = 0"
    using res by (auto split: if_splits)
  have lmac: "length mac = nat (hmac_sz ctx)" if "rc = SQLITE_OK"
    using provider_hmac [OF prov h [unfolded that]] sz by simp
  show "v \<noteq> Hmac_Fail \<Longrightarrow> off + nat (hmac_sz ctx) \<le> length out \<Longrightarrow> length out' = length out"
    using res lmac by (auto split: if_splits)
  assume "v = Hmac_Pass"
  then have ok: "rc = SQLITE_OK"
    and cmp: "sqlcipher_memcmp (drop off inp) (drop off (buf_write off mac out)) (nat (hmac_sz ctx)) = 0"
    using res by (auto split: if_splits)
  have "mac = buf_read off (nat (hmac_sz ctx)) inp"
    using cmp room lmac [OF ok] by (subst (asm) memcmp_eq_0_iff) (simp_all add: drop_buf_write buf_read_def)
  then show "p_hmac (ctx_provider ctx) (provider_ctx ctx) (hmac_algorithm ctx)
        (unshielded st (key_sz ctx) (cc_hmac_key c)) (take off inp) (hmac_pgno (ctx_flags ctx) pgno)
      = (SQLITE_OK, buf_read off (nat (hmac_sz ctx)) inp)"
    using h ok by simp
qed

lemma page_decrypt_hmac:
  assumes dec: "sqlcipher_page_cipher st ctx for_ctx pgno CIPHER_DECRYPT page_n inp out = (SQLITE_OK, dec, ctx')"
    and on: "flag_get (ctx_flags ctx) CIPHER_FLAG_HMAC" and c: "sub_ctx for_ctx ctx = Some c"
    and prov: "provider_ok (ctx_provider ctx)" and sizes: "sizes_ok ctx"
    and late: "\<not> (pgno = 1 \<and> page_n - reserve_sz ctx = 0)" and geo: "reserve_sz ctx \<le> page_n"
    and lens: "length inp = nat page_n" "length out = nat page_n"
  defines "off \<equiv> nat (page_n - reserve_sz ctx) + nat (iv_sz ctx)"
  shows "p_hmac (ctx_provider ctx) (provider_ctx ctx) (hmac_algorithm ctx)
        (unshielded st (key_sz ctx) (cc_hmac_key c)) (take off inp) (hmac_pgno (ctx_flags ctx) pgno)
      = (SQLITE_OK, buf_read off (nat (hmac_sz ctx)) inp)
    \<or> bt_autovacuum (bt_store st (pBt ctx)) \<noteq> BTREE_AUTOVACUUM_NONE
      \<and> inp = replicate (nat page_n) 0 \<and> dec = replicate (nat page_n) 0"
proof -
  have room: "off + nat (hmac_sz ctx) \<le> length inp" "off \<le> length out"
    using sizes on geo lens by (auto simp: sizes_ok_def off_def)
  define out1 where "out1 = buf_write (nat (page_n - reserve_sz ctx))
    (buf_read (nat (page_n - reserve_sz ctx)) (nat (iv_sz ctx)) inp) out"
  have l1: "length out1 = nat page_n" using room lens by (simp add: out1_def off_def)
  obtain v out2 c' where chk: "check_page_hmac st ctx c pgno (nat page_n) off inp out1 = (v, out2, c')"
    by (metis prod.exhaust)
  have sz: "hmac_sz ctx = p_get_hmac_sz (ctx_provider ctx) (provider_ctx ctx) (hmac_algorithm ctx)"
    and key: "key_sz ctx \<noteq> 0" using sizes by (auto simp: sizes_ok_def)
  have "off \<le> length out1" using room lens l1 by simp
  note outcome = check_page_hmac_cases [OF chk prov sz room(1) this]
  have "v = Hmac_Pass \<or> v = Hmac_Zero_Page \<and> dec = sqlcipher_memset out2 0 (nat page_n)"
    using dec c on late key chk
    by (cases v) (auto simp: sqlcipher_page_cipher_def Let_def out1_def [symmetric] off_def [symmetric])
  moreover have "length out2 = nat page_n" if "v \<noteq> Hmac_Fail"
    using outcome(4) [OF that] room lens l1 by simp
  moreover have "inp = replicate (nat page_n) 0" if "sqlcipher_ismemset inp 0 (nat page_n) = 0"
    using that lens by (simp add: ismemset_eq_0_iff)
  ultimately show ?thesis using outcome(2,3) memset_full [of out2] by auto
qed

subsection \<open>A sample provider\<close>

text \<open>A provider with tiny sizes that keeps the contract, a context on it and a global state, for
  evaluating the definitions.\<close>

definition sample_provider :: "nat provider" where
  "sample_provider =
     \<lparr>p_add_random = (\<lambda>pc _. (0, pc)),
      p_random = (\<lambda>pc n. (0, map (\<lambda>i. word_of_nat (pc + i)) [0..<n], pc + n)),
      p_hmac = (\<lambda>_ _ k x y. (0, [foldl (+) 1 (k @ x @ y), foldl (XOR) 2 (k @ x @ y)])),
      p_kdf = (\<lambda>_ _ pw salt iter n. (0, replicate n (foldl (+) 7 (pw @ salt)))),
      p_cipher = (\<lambda>_ _ k iv x. (0, map (\<lambda>b. b XOR (foldl (+) 0 k) XOR (foldl (+) 0 iv)) x)),
      p_get_key_sz = (\<lambda>_. 2), p_get_iv_sz = (\<lambda>_. 1), p_get_block_sz = (\<lambda>_. 1),
      p_get_hmac_sz = (\<lambda>_ _. 2), p_ctx_init = (0, 0), p_null_ctx = 0\<rparr>"

lemma sample_provider_ok: "provider_ok sample_provider"
  by (simp add: provider_ok_def provider_random_ok_def provider_hmac_ok_def provider_cipher_ok_def
      provider_kdf_ok_def sample_provider_def comp_def xor.assoc)

definition sample_btree :: btree where
  "sample_btree =
     \<lparr>fd_open = False, os_read = (\<lambda>n off. (0, replicate n 0)), os_file_size = 0, bt_autovacuum = 0,
      pager_errCode = 0, pager_eState_error = False, db_errCode = 0, bt_sharable = False, bts_pagesize_fixed = False,
      bts_secure = 0, bt_pageSize = 4096, bt_usableSize = 4096, bt_nReserveWanted = 0, pager_memDb = False,
      pager_opened = False, pager_refs = 0, pager_dbSize = 0, pager_pageSize = 4096, pager_nReserve = 0,
      pager_lckPgno = 262145\<rparr>"

definition sample_sc_state :: "nat sc_state" where
  "sample_sc_state = heap_state.extend sample_heap_state
     (sc_state.fields 3 0x3a 256000 512 0 2 2 sample_provider [0x5a, 0xc3] (\<lambda>_. sample_btree))"

definition sample_cipher_ctx :: cipher_ctx where
  "sample_cipher_ctx =
     \<lparr>cc_addr = 0, derive_key = 0, pass_sz = 0, cc_key = Some \<lparr>buf_addr = 1, buf_data = [3, 9]\<rparr>,
      cc_hmac_key = Some \<lparr>buf_addr = 2, buf_data = [4, 4]\<rparr>, cc_pass = None\<rparr>"

definition sample_codec_ctx :: "nat codec_ctx" where
  "sample_codec_ctx = (zero_codec_ctx 0 0 sample_provider)
     \<lparr>kdf_salt_sz := 16, key_sz := 2, iv_sz := 1, block_sz := 1, page_sz := 32, reserve_sz := 4, hmac_sz := 2,
      ctx_flags := 0x13, kdf_salt := Some \<lparr>buf_addr = 3, buf_data = replicate 16 7\<rparr>,
      hmac_kdf_salt := Some \<lparr>buf_addr = 4, buf_data = replicate 16 0\<rparr>,
      ctx_buffer := Some \<lparr>buf_addr = 5, buf_data = replicate 32 0\<rparr>,
      read_ctx := Some sample_cipher_ctx, write_ctx := Some sample_cipher_ctx\<rparr>"

lemmas sample_simps = sample_provider_def sample_btree_def sample_sc_state_def sample_cipher_ctx_def
  sample_codec_ctx_def zero_codec_ctx_def heap_state.defs sc_state.defs buf_bytes_def buf_update_def
  flag_get_def flag_set_def sub_ctx_def put_sub_ctx_def

lemma sample_codec_ctx_ok:
  "sizes_ok sample_codec_ctx" "sub_ctx f sample_codec_ctx = Some sample_cipher_ctx"
  "cipher_ctx_ok sample_codec_ctx sample_cipher_ctx" "ctx_provider sample_codec_ctx = sample_provider"
  by (simp_all add: sizes_ok_def cipher_ctx_ok_def sample_simps)

lemma sample_codec_ctx_fields:
  "ctx_flags sample_codec_ctx = 0x13" "key_sz sample_codec_ctx = 2" "iv_sz sample_codec_ctx = 1"
  "hmac_sz sample_codec_ctx = 2" "reserve_sz sample_codec_ctx = 4" "block_sz sample_codec_ctx = 1"
  "hmac_algorithm sample_codec_ctx = 0" "provider_ctx sample_codec_ctx = 0" "pBt sample_codec_ctx = 0"
  "bt_autovacuum (bt_store sample_sc_state 0) = BTREE_AUTOVACUUM_NONE"
  "flag_get 0x13 CIPHER_FLAG_HMAC"
  by (simp_all add: sample_simps)

section \<open>Properties\<close>

text \<open>C1. A page that was encrypted decrypts to the data that was encrypted: with a provider that keeps
  its contract, and a context whose reserve has room for vector and HMAC, decryption of the
  result of a successful encryption succeeds, passes the HMAC check when HMAC is on, returns
  the same page content before the reserve, and leaves the context as it was.\<close>

theorem page_cipher_roundtrip:
  assumes prov: "provider_ok (ctx_provider ctx)" and sizes: "sizes_ok ctx"
    and c: "sub_ctx for_ctx ctx = Some c" "cipher_ctx_ok ctx c"
    and geo: "reserve_sz ctx \<le> page_n" "block_sz ctx dvd page_n - reserve_sz ctx"
    and lens: "length inp = nat page_n" "length out = nat page_n" "length out' = nat page_n"
    and enc: "sqlcipher_page_cipher st ctx for_ctx pgno CIPHER_ENCRYPT page_n inp out = (SQLITE_OK, page, ctx')"
  shows "\<exists>dec. sqlcipher_page_cipher st ctx' for_ctx pgno CIPHER_DECRYPT page_n page out' = (SQLITE_OK, dec, ctx')
    \<and> take (nat (page_n - reserve_sz ctx)) dec = take (nat (page_n - reserve_sz ctx)) inp"
  by (rule page_cipher_reopens [OF prov sizes c geo lens enc page_encrypt_sub_ctx [OF enc c(1)]])
    (simp_all add: same_keys_def same_codec_def)

theorem page_cipher_roundtrip_witness:
  "\<exists>page ctx' dec.
     sqlcipher_page_cipher sample_sc_state sample_codec_ctx 0 2 CIPHER_ENCRYPT 8 [1, 2, 3, 4, 0, 0, 0, 0] (replicate 8 0)
       = (SQLITE_OK, page, ctx')
     \<and> sqlcipher_page_cipher sample_sc_state ctx' 0 2 CIPHER_DECRYPT 8 page (replicate 8 0) = (SQLITE_OK, dec, ctx')
     \<and> take 4 dec = [1, 2, 3, 4]"
proof -
  have "fst (sqlcipher_page_cipher sample_sc_state sample_codec_ctx 0 2 CIPHER_ENCRYPT 8 [1, 2, 3, 4, 0, 0, 0, 0]
    (replicate 8 0)) = SQLITE_OK"
    by code_simp
  then obtain page ctx' where enc: "sqlcipher_page_cipher sample_sc_state sample_codec_ctx 0 2 CIPHER_ENCRYPT 8
      [1, 2, 3, 4, 0, 0, 0, 0] (replicate 8 0) = (SQLITE_OK, page, ctx')"
    by (metis fst_conv prod.exhaust)
  then show ?thesis
    using page_cipher_roundtrip [OF _ sample_codec_ctx_ok(1,2,3) _ _ _ _ _ enc, of "replicate 8 0"]
    by (simp add: sample_codec_ctx_ok(4) sample_codec_ctx_fields sample_provider_ok)
qed

text \<open>C2. No unauthenticated page is handed out: with HMAC on, decryption succeeds only when the HMAC
  stored in the page is the provider's HMAC of ciphertext, vector and page number under the
  HMAC key, or when the database is in an auto-vacuum mode and both the page read and the
  page handed out are all zeros.\<close>

theorem page_cipher_authenticates:
  assumes "sqlcipher_page_cipher st ctx for_ctx pgno CIPHER_DECRYPT page_n inp out = (SQLITE_OK, dec, ctx')"
    and "flag_get (ctx_flags ctx) CIPHER_FLAG_HMAC" and "sub_ctx for_ctx ctx = Some c"
    and "provider_ok (ctx_provider ctx)" and "sizes_ok ctx"
    and "\<not> (pgno = 1 \<and> page_n - reserve_sz ctx = 0)" and "reserve_sz ctx \<le> page_n"
    and "length inp = nat page_n" and "length out = nat page_n"
    and "off = nat (page_n - reserve_sz ctx) + nat (iv_sz ctx)"
  shows "p_hmac (ctx_provider ctx) (provider_ctx ctx) (hmac_algorithm ctx)
        (unshielded st (key_sz ctx) (cc_hmac_key c)) (take off inp) (hmac_pgno (ctx_flags ctx) pgno)
      = (SQLITE_OK, buf_read off (nat (hmac_sz ctx)) inp)
    \<or> bt_autovacuum (bt_store st (pBt ctx)) \<noteq> BTREE_AUTOVACUUM_NONE
      \<and> inp = replicate (nat page_n) 0 \<and> dec = replicate (nat page_n) 0"
  using page_decrypt_hmac [OF assms(1-9)] assms(10) by simp

theorem page_cipher_authenticates_witness:
  "p_hmac sample_provider 0 0 (unshielded sample_sc_state 2 (cc_hmac_key sample_cipher_ctx))
     [1, 2, 3, 4, 0] (hmac_pgno 0x13 2) = (SQLITE_OK, [50, 157])"
proof -
  have "fst (sqlcipher_page_cipher sample_sc_state sample_codec_ctx 0 2 CIPHER_DECRYPT 8 [1, 2, 3, 4, 0, 50, 157, 9]
    (replicate 8 0)) = SQLITE_OK"
    by code_simp
  then obtain dec ctx' where dec: "sqlcipher_page_cipher sample_sc_state sample_codec_ctx 0 2 CIPHER_DECRYPT 8
      [1, 2, 3, 4, 0, 50, 157, 9] (replicate 8 0) = (SQLITE_OK, dec, ctx')"
    by (metis fst_conv prod.exhaust)
  have "provider_ok (ctx_provider sample_codec_ctx)" "flag_get (ctx_flags sample_codec_ctx) CIPHER_FLAG_HMAC"
    "reserve_sz sample_codec_ctx \<le> 8" "5 = nat (8 - reserve_sz sample_codec_ctx) + nat (iv_sz sample_codec_ctx)"
    by (simp_all only: sample_codec_ctx_ok(4) sample_provider_ok sample_codec_ctx_fields)
  note auth = page_cipher_authenticates [OF dec this(2) sample_codec_ctx_ok(2) this(1) sample_codec_ctx_ok(1)
      _ this(3) _ _ this(4)]
  show ?thesis
    using auth by (simp add: sample_codec_ctx_ok(4) sample_codec_ctx_fields buf_read_def)
qed

text \<open>C3. A page cipher that fails hands out nothing: whichever step fails, the code is \<open>SQLITE_ERROR\<close>
  and the whole output page is zeroed.\<close>

theorem page_cipher_failure_wipes:
  assumes "sqlcipher_page_cipher st ctx for_ctx pgno mode page_n inp out = (rc, out', ctx')"
    and "rc \<noteq> SQLITE_OK" and "sub_ctx for_ctx ctx = Some c"
  shows "rc = SQLITE_ERROR \<and> take (nat page_n) out' = replicate (nat page_n) 0"
  using assms by (rule page_cipher_error)

theorem page_cipher_failure_wipes_witness:
  "\<exists>out' ctx'. sqlcipher_page_cipher sample_sc_state sample_codec_ctx 0 2 CIPHER_DECRYPT 8 [1, 2, 3, 4, 5, 6, 7, 8]
     (replicate 8 1) = (SQLITE_ERROR, out', ctx') \<and> take 8 out' = replicate 8 0"
proof -
  have "fst (sqlcipher_page_cipher sample_sc_state sample_codec_ctx 0 2 CIPHER_DECRYPT 8 [1, 2, 3, 4, 5, 6, 7, 8]
    (replicate 8 1)) = SQLITE_ERROR"
    by code_simp
  then obtain out' ctx' where "sqlcipher_page_cipher sample_sc_state sample_codec_ctx 0 2 CIPHER_DECRYPT 8
      [1, 2, 3, 4, 5, 6, 7, 8] (replicate 8 1) = (SQLITE_ERROR, out', ctx')"
    by (metis fst_conv prod.exhaust)
  then show ?thesis using page_cipher_failure_wipes [OF _ _ sample_codec_ctx_ok(2)] by fastforce
qed

end
