(* ===== verification/Codec_Key.thy ===== *)
theory Codec_Key
  imports Codec_Page
begin

text \<open>
  Key derivation of \<open>src/sqlcipher.c\<close>: from a passphrase through the provider's key derivation
  function, or from a raw key specification \<open>x'...'\<close>; the separate HMAC key; the shield put on
  both; what happens on failure; and the copy of keys between the read and the write context.
\<close>

section \<open>Definitions\<close>

subsection \<open>Key derivation\<close>

text \<open>A raw key: \<open>x'...'\<close> with an even number of hexadecimal digits inside.\<close>

definition raw_key_format :: "byte list \<Rightarrow> int \<Rightarrow> bool" where
  "raw_key_format pass n \<longleftrightarrow>
     5 \<le> n \<and> sqlite3_strnicmp (Some pass) (Some [0x78, 0x27]) 2 = 0 \<and> pass ! nat (n - 1) = 0x27
     \<and> (n - 3) mod 2 = 0 \<and> cipher_isHex (drop 2 pass) (nat (n - 3))"

text \<open>The choice of the encryption key: the raw forms (key; key and salt; key, HMAC key and salt), or
  the key derivation function. The boolean is \<open>derive_hmac_key\<close>.\<close>

definition derive_cipher_key ::
    "'p codec_ctx \<Rightarrow> cipher_ctx \<Rightarrow> int \<times> bool \<times> 'p codec_ctx \<times> cipher_ctx" where
  "derive_cipher_key ctx c_ctx =
     (let raw_key_sz = key_sz ctx * 2;
          raw_salt_sz = kdf_salt_sz ctx * 2;
          pass = buf_bytes (cc_pass c_ctx);
          blob_format = raw_key_format pass (pass_sz c_ctx);
          z = drop 2 pass;
          rk = nat raw_key_sz; rs = nat raw_salt_sz
      in if blob_format \<and> pass_sz c_ctx = raw_key_sz + 3 then
           (SQLITE_OK, True, ctx, c_ctx\<lparr>cc_key := buf_update (buf_write 0 (cipher_hex2bin z rk)) (cc_key c_ctx)\<rparr>)
         else if blob_format \<and> pass_sz c_ctx = raw_key_sz + raw_salt_sz + 3 then
           (SQLITE_OK, True,
            ctx\<lparr>kdf_salt := buf_update (buf_write 0 (cipher_hex2bin (drop rk z) rs)) (kdf_salt ctx)\<rparr>,
            c_ctx\<lparr>cc_key := buf_update (buf_write 0 (cipher_hex2bin z rk)) (cc_key c_ctx)\<rparr>)
         else if blob_format \<and> pass_sz c_ctx = raw_key_sz + raw_key_sz + raw_salt_sz + 3 then
           (SQLITE_OK, False,
            ctx\<lparr>kdf_salt := buf_update (buf_write 0 (cipher_hex2bin (drop (rk + rk) z) rs)) (kdf_salt ctx)\<rparr>,
            c_ctx\<lparr>cc_key := buf_update (buf_write 0 (cipher_hex2bin z rk)) (cc_key c_ctx),
                  cc_hmac_key := buf_update (buf_write 0 (cipher_hex2bin (drop rk z) rk)) (cc_hmac_key c_ctx)\<rparr>)
         else
           let (rc, bytes) = p_kdf (ctx_provider ctx) (provider_ctx ctx) (kdf_algorithm ctx)
                 (take (nat (pass_sz c_ctx)) pass) (take (nat (kdf_salt_sz ctx)) (buf_bytes (kdf_salt ctx)))
                 (kdf_iter ctx) (nat (key_sz ctx))
           in (rc, True, ctx, c_ctx\<lparr>cc_key := buf_update (buf_write 0 bytes) (cc_key c_ctx)\<rparr>))"

definition derive_hmac_key_from ::
    "byte \<Rightarrow> 'p codec_ctx \<Rightarrow> cipher_ctx \<Rightarrow> int \<times> 'p codec_ctx \<times> cipher_ctx" where
  "derive_hmac_key_from salt_mask ctx c_ctx =
     (let n = nat (kdf_salt_sz ctx);
          ctx = ctx\<lparr>hmac_kdf_salt := buf_copy (buf_bytes (kdf_salt ctx)) (kdf_salt_sz ctx) (hmac_kdf_salt ctx)\<rparr>;
          ctx = ctx\<lparr>hmac_kdf_salt := buf_update (\<lambda>d. map (\<lambda>b. b XOR salt_mask) (take n d) @ drop n d) (hmac_kdf_salt ctx)\<rparr>;
          (rc, bytes) = p_kdf (ctx_provider ctx) (provider_ctx ctx) (kdf_algorithm ctx)
            (take (nat (key_sz ctx)) (buf_bytes (cc_key c_ctx))) (take n (buf_bytes (hmac_kdf_salt ctx)))
            (fast_kdf_iter ctx) (nat (key_sz ctx))
      in (rc, ctx, c_ctx\<lparr>cc_hmac_key := buf_update (buf_write 0 bytes) (cc_hmac_key c_ctx)\<rparr>))"

text \<open>The error exit overwrites both keys with the output of xoshiro.\<close>

definition scramble_keys ::
    "'p codec_ctx \<Rightarrow> cipher_ctx \<Rightarrow> 'a heap_state_scheme \<Rightarrow> cipher_ctx \<times> 'a heap_state_scheme" where
  "scramble_keys ctx c_ctx st =
     (let (r1, s) = xoshiro_randomness (xoshiro_s st) (nat (key_sz ctx));
          (r2, s) = xoshiro_randomness s (nat (key_sz ctx))
      in (c_ctx\<lparr>cc_key := buf_update (buf_write 0 r1) (cc_key c_ctx),
                cc_hmac_key := buf_update (buf_write 0 r2) (cc_hmac_key c_ctx)\<rparr>, st\<lparr>xoshiro_s := s\<rparr>))"

definition sqlcipher_cipher_ctx_key_derive ::
    "'p codec_ctx \<Rightarrow> cipher_ctx \<Rightarrow> ('p, 'a) sc_state_scheme
      \<Rightarrow> int \<times> 'p codec_ctx \<times> cipher_ctx \<times> ('p, 'a) sc_state_scheme" where
  "sqlcipher_cipher_ctx_key_derive ctx c_ctx st =
     (let fail = (\<lambda>ctx c_ctx st. let (c_ctx, st) = scramble_keys ctx c_ctx st in (SQLITE_ERROR, ctx, c_ctx, st));
          shield = (\<lambda>d. sqlcipher_shield (shield_mask st) d (nat (key_sz ctx)))
      in
      if cc_pass c_ctx = None \<or> pass_sz c_ctx = 0 then (SQLITE_ERROR, ctx, c_ctx, st)
      else
      let (rc, ctx) = (if \<not> flag_get (ctx_flags ctx) CIPHER_FLAG_HAS_KDF_SALT
                       then sqlcipher_codec_ctx_init_kdf_salt ctx st else (SQLITE_OK, ctx))
      in
      if rc \<noteq> SQLITE_OK then fail ctx c_ctx st
      else
      let (rc, derive_hmac_key, ctx, c_ctx) = derive_cipher_key ctx c_ctx
      in
      if rc \<noteq> SQLITE_OK then fail ctx c_ctx st
      else
      let (rc, ctx, c_ctx) =
            (if flag_get (ctx_flags ctx) CIPHER_FLAG_HMAC \<and> derive_hmac_key
             then derive_hmac_key_from (hmac_salt_mask st) ctx c_ctx else (SQLITE_OK, ctx, c_ctx))
      in
      if rc \<noteq> SQLITE_OK then fail ctx c_ctx st
      else (SQLITE_OK, ctx,
            c_ctx\<lparr>cc_key := buf_update shield (cc_key c_ctx),
                  cc_hmac_key := buf_update shield (cc_hmac_key c_ctx), derive_key := 0\<rparr>, st))"

text \<open>One cipher context of the codec context is derived in place.\<close>

definition derive_sub_ctx ::
    "int \<Rightarrow> 'p codec_ctx \<Rightarrow> ('p, 'a) sc_state_scheme \<Rightarrow> int \<times> 'p codec_ctx \<times> ('p, 'a) sc_state_scheme" where
  "derive_sub_ctx for_ctx ctx st =
     (case sub_ctx for_ctx ctx of
        None \<Rightarrow> (SQLITE_ERROR, ctx, st)
      | Some c \<Rightarrow>
          let (rc, ctx, c, st) = sqlcipher_cipher_ctx_key_derive ctx c st
          in (rc, put_sub_ctx for_ctx c ctx, st))"

definition wipe_pass ::
    "xmalloc \<Rightarrow> int \<Rightarrow> 'p codec_ctx \<Rightarrow> 'a heap_state_scheme \<Rightarrow> 'p codec_ctx \<times> 'a heap_state_scheme" where
  "wipe_pass xMalloc for_ctx ctx st =
     (case sub_ctx for_ctx ctx of
        None \<Rightarrow> (ctx, st)
      | Some c \<Rightarrow>
          let (rc, c, st) = sqlcipher_cipher_ctx_set_pass xMalloc c None 0 st
          in (put_sub_ctx for_ctx c ctx, st))"

definition needs_derive :: "int \<Rightarrow> 'p codec_ctx \<Rightarrow> bool" where
  "needs_derive for_ctx ctx \<longleftrightarrow> (case sub_ctx for_ctx ctx of Some c \<Rightarrow> derive_key c \<noteq> 0 | None \<Rightarrow> False)"

text \<open>The first two stages of \<open>sqlcipher_codec_key_derive\<close>: the read context, then the write context.\<close>

definition derive_read_stage ::
    "'p codec_ctx \<Rightarrow> ('p, 'a) sc_state_scheme \<Rightarrow> int \<times> 'p codec_ctx \<times> ('p, 'a) sc_state_scheme" where
  "derive_read_stage ctx st =
     (if needs_derive CIPHER_READ_CTX ctx then derive_sub_ctx CIPHER_READ_CTX ctx st else (SQLITE_OK, ctx, st))"

definition derive_write_stage ::
    "xmalloc \<Rightarrow> 'p codec_ctx \<Rightarrow> ('p, 'a) sc_state_scheme \<Rightarrow> int \<times> 'p codec_ctx \<times> ('p, 'a) sc_state_scheme" where
  "derive_write_stage xMalloc ctx st =
     (if needs_derive CIPHER_WRITE_CTX ctx then
        (case (write_ctx ctx, read_ctx ctx) of
           (Some w, Some r) \<Rightarrow>
             if sqlcipher_cipher_ctx_cmp w r = 0 then copy_sub_ctx xMalloc CIPHER_READ_CTX (ctx, st)
             else derive_sub_ctx CIPHER_WRITE_CTX ctx st
         | _ \<Rightarrow> (SQLITE_ERROR, ctx, st))
      else (SQLITE_OK, ctx, st))"

definition sqlcipher_codec_key_derive ::
    "xmalloc \<Rightarrow> 'p codec_ctx \<Rightarrow> ('p, 'a) sc_state_scheme \<Rightarrow> int \<times> 'p codec_ctx \<times> ('p, 'a) sc_state_scheme" where
  "sqlcipher_codec_key_derive xMalloc ctx st =
     (let (rc, ctx, st) = derive_read_stage ctx st in
      if rc \<noteq> SQLITE_OK then (SQLITE_ERROR, ctx, st)
      else let (rc, ctx, st) = derive_write_stage xMalloc ctx st in
      if rc \<noteq> SQLITE_OK then (SQLITE_ERROR, ctx, st)
      else if store_pass ctx \<noteq> 1 then
        let (ctx, st) = wipe_pass xMalloc CIPHER_READ_CTX ctx st;
            (ctx, st) = wipe_pass xMalloc CIPHER_WRITE_CTX ctx st
        in (SQLITE_OK, ctx, st)
      else (SQLITE_OK, ctx, st))"

definition sqlcipher_codec_key_copy ::
    "xmalloc \<Rightarrow> 'p codec_ctx \<Rightarrow> int \<Rightarrow> 'a heap_state_scheme \<Rightarrow> int \<times> 'p codec_ctx \<times> 'a heap_state_scheme" where
  "sqlcipher_codec_key_copy xMalloc ctx source st =
     (if source = CIPHER_READ_CTX then copy_sub_ctx xMalloc CIPHER_READ_CTX (ctx, st)
      else copy_sub_ctx xMalloc CIPHER_WRITE_CTX (ctx, st))"

section \<open>Lemmas\<close>

subsection \<open>The text of a key specification\<close>

lemma size_arg_nat: "0 \<le> n \<Longrightarrow> n < 2 ^ 63 \<Longrightarrow> size_arg n = nat n"
  by (simp add: size_arg_def)

lemma sc_alloc_data:
  assumes "sc_alloc xMalloc n st = (Some b, st')" and "0 < n" and "n < 2 ^ 63"
  shows "buf_data b = replicate (nat n) 0"
proof -
  have "nat n < 2 ^ 63" using assms(2,3) by (simp add: nat_less_iff)
  then have "nat n \<le> heap_roundup (nat n)" using heap_roundup_props [of "nat n"] assms(2) by simp
  then show ?thesis using assms by (auto simp: sc_alloc_def size_arg_nat split: prod.splits option.splits)
qed

lemma bin2hex_eq: "0 < n \<Longrightarrow> cipher_bin2hex d n off out = buf_write off (concat (map hex_of_byte (take n d)) @ [0]) out"
  by (simp add: cipher_bin2hex_def)

definition keyspec_text :: "('p, 'a) sc_state_scheme \<Rightarrow> 'p codec_ctx \<Rightarrow> cipher_ctx \<Rightarrow> byte list" where
  "keyspec_text st ctx c =
     [0x78, 0x27] @ concat (map hex_of_byte (unshielded st (key_sz ctx) (cc_key c)))
     @ (if flag_get (ctx_flags ctx) CIPHER_FLAG_HMAC
        then concat (map hex_of_byte (unshielded st (key_sz ctx) (cc_hmac_key c))) else [])
     @ concat (map hex_of_byte (take (nat (kdf_salt_sz ctx)) (buf_bytes (kdf_salt ctx)))) @ [0x27]"

definition salt_ok :: "'p codec_ctx \<Rightarrow> bool" where
  "salt_ok ctx \<longleftrightarrow> kdf_salt ctx \<noteq> None \<and> 0 < kdf_salt_sz ctx \<and> int (length (buf_bytes (kdf_salt ctx))) = kdf_salt_sz ctx"

lemma fill_zeros:
  "length x < m \<Longrightarrow> off = length p \<Longrightarrow>
    buf_write off (x @ [0]) (p @ replicate m 0) = (p @ x) @ replicate (m - length x) 0"
  by (simp add: buf_write_def Suc_diff_Suc [symmetric] flip: replicate_Suc)

lemma unshielded_take:
  assumes "int (length (buf_bytes b)) = n"
  shows "take (nat n) (sqlcipher_shield (shield_mask st) (buf_bytes b) (nat n)) = unshielded st n b"
    and "length (unshielded st n b) = nat n"
  using assms by (simp_all add: unshielded_def flip: assms)

lemma get_keyspec_text:
  assumes get: "sqlcipher_cipher_ctx_get_keyspec xMalloc ctx c st = (SQLITE_OK, Some (b, sz), c', st')"
    and c: "cipher_ctx_ok ctx c" and salt: "salt_ok ctx" and key: "0 < key_sz ctx"
    and small: "keyspec_size ctx < 2 ^ 63"
  shows "buf_data b = keyspec_text st ctx c" and "sz = int (length (keyspec_text st ctx c))" and "c' = c"
proof -
  define k where "k = nat (key_sz ctx)"
  define s where "s = nat (kdf_salt_sz ctx)"
  define K where "K = concat (map hex_of_byte (unshielded st (key_sz ctx) (cc_key c)))"
  define H where "H = concat (map hex_of_byte (unshielded st (key_sz ctx) (cc_hmac_key c)))"
  define S where "S = concat (map hex_of_byte (take s (buf_bytes (kdf_salt ctx))))"
  have "length (buf_bytes (kdf_salt ctx)) = s" using salt by (auto simp: salt_ok_def s_def)
  then have lens: "length K = 2 * k" "length H = 2 * k" "length S = 2 * s" "0 < k" "0 < s"
    using c salt key unshielded_take [of "cc_key c" "key_sz ctx" st] unshielded_take [of "cc_hmac_key c" "key_sz ctx" st]
    by (simp_all add: K_def H_def S_def length_concat_hex k_def s_def cipher_ctx_ok_def salt_ok_def)
  have spec: "keyspec_text st ctx c = [0x78, 0x27] @ K @ (if flag_get (ctx_flags ctx) CIPHER_FLAG_HMAC then H else []) @ S @ [0x27]"
    by (simp add: keyspec_text_def K_def H_def S_def s_def)
  have sz: "keyspec_size ctx = int (length (keyspec_text st ctx c))"
    using lens key salt by (simp add: spec keyspec_size_def k_def s_def salt_ok_def)
  obtain b0 st0 where al: "sc_alloc xMalloc (keyspec_size ctx) st = (Some b0, st0)"
    using get by (auto simp: sqlcipher_cipher_ctx_get_keyspec_def Let_def split: prod.splits option.splits)
  define L where "L = length (keyspec_text st ctx c)"
  have "0 < keyspec_size ctx" unfolding sz by (simp add: spec)
  then have b0: "buf_data b0 = replicate L 0"
    using sc_alloc_data [OF al _ small] by (simp add: sz L_def)
  have w0: "buf_write 0 [0x78, 0x27] (replicate L 0) = [0x78, 0x27] @ replicate (L - 2) 0"
    by (simp add: buf_write_def L_def spec)
  have w1: "cipher_bin2hex (sqlcipher_shield (shield_mask st) (buf_bytes (cc_key c)) k) k 2
      ([0x78, 0x27] @ replicate (L - 2) 0) = ([0x78, 0x27] @ K) @ replicate (L - 2 - 2 * k) 0"
    using unshielded_take(1) [of "cc_key c" "key_sz ctx" st] c lens
    by (simp only: bin2hex_eq k_def [symmetric] cipher_ctx_ok_def K_def [symmetric])
      (subst fill_zeros, simp_all add: L_def spec)
  have w2: "cipher_bin2hex (sqlcipher_shield (shield_mask st) (buf_bytes (cc_hmac_key c)) k) k (2 + k * 2)
      (([0x78, 0x27] @ K) @ replicate (L - 2 - 2 * k) 0) = ([0x78, 0x27] @ K @ H) @ replicate (L - 2 - 2 * k - 2 * k) 0"
    if "flag_get (ctx_flags ctx) CIPHER_FLAG_HMAC"
    using unshielded_take(1) [of "cc_hmac_key c" "key_sz ctx" st] c lens that
    by (simp only: bin2hex_eq k_def [symmetric] cipher_ctx_ok_def H_def [symmetric])
      (subst fill_zeros, simp_all add: L_def spec)
  have w3: "(cipher_bin2hex (buf_bytes (kdf_salt ctx)) s off (p @ replicate m 0))[off + 2 * s := 0x27]
     = p @ S @ [0x27]" if "off = length p" "m = 2 * s + 1" for p off m
    using lens that by (simp only: bin2hex_eq S_def [symmetric])
      (subst fill_zeros, simp_all add: list_update_append)
  have shield: "buf_bytes (buf_update (\<lambda>d. sqlcipher_shield (shield_mask st) d k) x)
      = sqlcipher_shield (shield_mask st) (buf_bytes x) k" for x
    by (rule buf_bytes_shield)
  note run = get [unfolded sqlcipher_cipher_ctx_get_keyspec_def Let_def al prod.case option.case
      k_def [symmetric] s_def [symmetric]]
  show "c' = c" using run by (auto simp: case_prod_beta split: if_splits)
  show "sz = int (length (keyspec_text st ctx c))" using run sz by (auto simp: case_prod_beta split: if_splits)
  show "buf_data b = keyspec_text st ctx c"
  proof (cases "flag_get (ctx_flags ctx) CIPHER_FLAG_HMAC")
    case True
    have ix: "nat (keyspec_size ctx - 1) = 2 + k * 2 + k * 2 + 2 * s" and m: "L - 2 - 2 * k - 2 * k = 2 * s + 1"
      using lens True by (simp_all add: sz L_def spec)
    have "buf_data b = (cipher_bin2hex (buf_bytes (kdf_salt ctx)) s (2 + k * 2 + k * 2)
        (cipher_bin2hex (sqlcipher_shield (shield_mask st) (buf_bytes (cc_hmac_key c)) k) k (2 + k * 2)
        (cipher_bin2hex (sqlcipher_shield (shield_mask st) (buf_bytes (cc_key c)) k) k 2
        (buf_write 0 [0x78, 0x27] (buf_data b0)))))[nat (keyspec_size ctx - 1) := 0x27]"
      using run True by (auto simp: shield)
    also have "\<dots> = ([0x78, 0x27] @ K @ H) @ S @ [0x27]"
      unfolding b0 w0 w1 w2 [OF True] ix m by (rule w3) (use lens in simp_all)
    finally show ?thesis using True by (simp add: spec)
  next
    case False
    have ix: "nat (keyspec_size ctx - 1) = 2 + k * 2 + 2 * s" and m: "L - 2 - 2 * k = 2 * s + 1"
      using lens False by (simp_all add: sz L_def spec)
    have "buf_data b = (cipher_bin2hex (buf_bytes (kdf_salt ctx)) s (2 + k * 2)
        (cipher_bin2hex (sqlcipher_shield (shield_mask st) (buf_bytes (cc_key c)) k) k 2
        (buf_write 0 [0x78, 0x27] (buf_data b0))))[nat (keyspec_size ctx - 1) := 0x27]"
      using run False by (auto simp: shield)
    also have "\<dots> = ([0x78, 0x27] @ K) @ S @ [0x27]"
      unfolding b0 w0 w1 ix m by (rule w3) (use lens in simp_all)
    finally show ?thesis using False by (simp add: spec)
  qed
qed

subsection \<open>Reading a key specification back\<close>

lemma raw_key_format_quoted:
  assumes "list_all is_hex_char x" and "even (length x)" and "x \<noteq> []" and p: "p = [0x78, 0x27] @ x @ [0x27]"
    and n: "n = int (length p)"
  shows "raw_key_format p n"
proof -
  have len: "n = int (length x) + 3" by (simp add: n p)
  have two: "2 \<le> length x" using assms(2,3) by (cases x) (auto simp: Suc_le_eq intro: ccontr)
  have x: "sqlite3_strnicmp (Some p) (Some [0x78, 0x27]) 2 = 0"
    by (simp add: sqlite3_strnicmp_def p numeral_2_eq_2 chr_at_def sqlite3UpperToLower_def)
  have last: "p ! nat (n - 1) = 0x27"
    using len by (simp add: p nth_append nth_Cons' nat_add_distrib)
  have hex: "cipher_isHex (drop 2 p) (nat (n - 3))"
    using assms(1) len by (simp add: cipher_isHex_def p)
  show ?thesis using x last hex len two assms(2) unfolding raw_key_format_def by (auto simp: even_iff_mod_2_eq_zero)
qed

lemma buf_write_over:
  "length (buf_bytes b) = length s \<Longrightarrow> buf_update (buf_write 0 s) b = buf_update (\<lambda>_. s) b"
  by (cases b) (simp_all add: buf_update_def buf_bytes_def buf_write_full)

text \<open>The three parts of the text, as \<open>cipher_hex2bin\<close> reads them.\<close>

lemma keyspec_parts:
  assumes pass: "p = [0x78, 0x27] @ concat (map hex_of_byte (K @ M @ S)) @ [0x27]"
    and lens: "int (length K) = k" "int (length S) = s" "0 < k" and n: "n = int (length p)"
  shows "raw_key_format p n" and "n = k * 2 + int (length M) * 2 + s * 2 + 3"
    and "cipher_hex2bin (drop 2 p) (nat (k * 2)) = K"
    and "cipher_hex2bin (drop (nat (k * 2)) (drop 2 p)) (2 * length M) = M"
    and "cipher_hex2bin (drop (nat (k * 2) + 2 * length M) (drop 2 p)) (nat (s * 2)) = S"
proof -
  have k: "nat (k * 2) = 2 * length K" and s: "nat (s * 2) = 2 * length S" using lens by auto
  show "raw_key_format p n"
  proof (rule raw_key_format_quoted [OF isHex_concat_hex _ _ pass n])
    show "even (length (concat (map hex_of_byte (K @ M @ S))))" by (simp add: length_concat_hex del: map_append)
    have "0 < length (concat (map hex_of_byte (K @ M @ S)))"
      using lens by (simp only: length_concat_hex) auto
    then show "concat (map hex_of_byte (K @ M @ S)) \<noteq> []" using length_greater_0_conv by blast
  qed
  show "n = k * 2 + int (length M) * 2 + s * 2 + 3"
    using lens by (simp add: n pass length_concat_hex)
  show "cipher_hex2bin (drop 2 p) (nat (k * 2)) = K"
    "cipher_hex2bin (drop (nat (k * 2)) (drop 2 p)) (2 * length M) = M"
    "cipher_hex2bin (drop (nat (k * 2) + 2 * length M) (drop 2 p)) (nat (s * 2)) = S"
    by (simp_all add: k s pass length_concat_hex hex2bin_concat_hex)
qed

lemma derive_from_keyspec_hmac:
  assumes c2: "cipher_ctx_ok ctx2 c2" and salt2: "salt_ok ctx2" and key: "0 < key_sz ctx2"
    and K: "int (length K) = key_sz ctx2" and H: "int (length H) = key_sz ctx2" and S: "int (length S) = kdf_salt_sz ctx2"
    and pass: "buf_bytes (cc_pass c2) = [0x78, 0x27] @ concat (map hex_of_byte (K @ H @ S)) @ [0x27]"
    and sz: "pass_sz c2 = int (length (buf_bytes (cc_pass c2)))"
  shows "derive_cipher_key ctx2 c2 = (SQLITE_OK, False, ctx2\<lparr>kdf_salt := buf_update (\<lambda>_. S) (kdf_salt ctx2)\<rparr>,
      c2\<lparr>cc_key := buf_update (\<lambda>_. K) (cc_key c2), cc_hmac_key := buf_update (\<lambda>_. H) (cc_hmac_key c2)\<rparr>)"
proof -
  note parts = keyspec_parts [OF pass K S key sz]
  have h: "nat (key_sz ctx2 * 2) = 2 * length H" using H by auto
  have "length (buf_bytes (cc_key c2)) = length K" "length (buf_bytes (cc_hmac_key c2)) = length H"
    "length (buf_bytes (kdf_salt ctx2)) = length S" "0 < kdf_salt_sz ctx2"
    using c2 salt2 K H S by (auto simp: cipher_ctx_ok_def salt_ok_def)
  then show ?thesis
    using parts key H unfolding derive_cipher_key_def Let_def
    by (simp add: buf_write_over h [symmetric])
qed

lemma derive_from_keyspec_plain:
  assumes c2: "cipher_ctx_ok ctx2 c2" and salt2: "salt_ok ctx2" and key: "0 < key_sz ctx2"
    and K: "int (length K) = key_sz ctx2" and S: "int (length S) = kdf_salt_sz ctx2"
    and pass: "buf_bytes (cc_pass c2) = [0x78, 0x27] @ concat (map hex_of_byte (K @ [] @ S)) @ [0x27]"
    and sz: "pass_sz c2 = int (length (buf_bytes (cc_pass c2)))"
  shows "derive_cipher_key ctx2 c2 = (SQLITE_OK, True, ctx2\<lparr>kdf_salt := buf_update (\<lambda>_. S) (kdf_salt ctx2)\<rparr>,
      c2\<lparr>cc_key := buf_update (\<lambda>_. K) (cc_key c2)\<rparr>)"
proof -
  note parts = keyspec_parts [OF pass K S key sz]
  have "length (buf_bytes (cc_key c2)) = length K"
    "length (buf_bytes (kdf_salt ctx2)) = length S" "0 < kdf_salt_sz ctx2"
    using c2 salt2 K S by (auto simp: cipher_ctx_ok_def salt_ok_def)
  then show ?thesis
    using parts key unfolding derive_cipher_key_def Let_def by (simp add: buf_write_over)
qed

lemma shield_unshielded:
  assumes "int (length (buf_bytes b)) = n"
  shows "sqlcipher_shield (shield_mask st) (unshielded st n b) (nat n) = buf_bytes b"
  using assms by (simp add: unshielded_def flip: assms)

subsection \<open>What derivation leaves alone\<close>

text \<open>Derivation and the page cipher may change the flags, the salts, the page buffer, the cipher
  contexts and the provider's context; everything else of the codec context stays.\<close>

definition ctx_frame :: "'p codec_ctx \<Rightarrow> 'p codec_ctx \<Rightarrow> bool" where
  "ctx_frame ctx ctx' \<longleftrightarrow>
     ctx' = ctx\<lparr>ctx_flags := ctx_flags ctx', kdf_salt := kdf_salt ctx', hmac_kdf_salt := hmac_kdf_salt ctx',
       ctx_buffer := ctx_buffer ctx', read_ctx := read_ctx ctx', write_ctx := write_ctx ctx',
       provider_ctx := provider_ctx ctx'\<rparr>"

lemma ctx_frame_refl [simp]: "ctx_frame ctx ctx"
  by (simp add: ctx_frame_def)

lemma ctx_frame_trans: "ctx_frame a b \<Longrightarrow> ctx_frame b c \<Longrightarrow> ctx_frame a c"
  unfolding ctx_frame_def by (cases a; cases b; cases c) simp

lemma ctx_frame_fields:
  "ctx_frame ctx ctx' \<Longrightarrow> ctx_error ctx' = ctx_error ctx \<and> pBt ctx' = pBt ctx \<and> store_pass ctx' = store_pass ctx
     \<and> key_sz ctx' = key_sz ctx \<and> iv_sz ctx' = iv_sz ctx \<and> block_sz ctx' = block_sz ctx \<and> page_sz ctx' = page_sz ctx
     \<and> reserve_sz ctx' = reserve_sz ctx \<and> hmac_sz ctx' = hmac_sz ctx
     \<and> plaintext_header_sz ctx' = plaintext_header_sz ctx \<and> hmac_algorithm ctx' = hmac_algorithm ctx
     \<and> kdf_salt_sz ctx' = kdf_salt_sz ctx \<and> ctx_provider ctx' = ctx_provider ctx"
  unfolding ctx_frame_def by (cases ctx; cases ctx') simp

definition ctx_keep :: "'p codec_ctx \<Rightarrow> 'p codec_ctx \<Rightarrow> bool" where
  "ctx_keep ctx ctx' \<longleftrightarrow>
     ctx' = ctx\<lparr>ctx_flags := ctx_flags ctx', kdf_salt := kdf_salt ctx', hmac_kdf_salt := hmac_kdf_salt ctx',
       provider_ctx := provider_ctx ctx'\<rparr>"

lemma ctx_keep_refl [simp]: "ctx_keep ctx ctx"
  by (simp add: ctx_keep_def)

lemma ctx_keep_trans: "ctx_keep a b \<Longrightarrow> ctx_keep b c \<Longrightarrow> ctx_keep a c"
  unfolding ctx_keep_def by (cases a; cases b; cases c) simp

lemma ctx_keep_frame:
  "ctx_keep ctx ctx' \<Longrightarrow> ctx_frame ctx ctx' \<and> read_ctx ctx' = read_ctx ctx \<and> write_ctx ctx' = write_ctx ctx
     \<and> ctx_buffer ctx' = ctx_buffer ctx"
  unfolding ctx_keep_def ctx_frame_def by (cases ctx; cases ctx') simp

lemma init_kdf_salt_frame:
  assumes "sqlcipher_codec_ctx_init_kdf_salt ctx st = (rc, ctx')"
  shows "ctx_keep ctx ctx'"
  using assms unfolding sqlcipher_codec_ctx_init_kdf_salt_def Let_def
  by (auto simp: ctx_keep_def case_prod_beta split: if_splits)

lemma derive_cipher_key_frame:
  assumes "derive_cipher_key ctx c = (rc, d, ctx', c')"
  shows "ctx_keep ctx ctx'" "ctx_flags ctx' = ctx_flags ctx"
    "cc_pass c' = cc_pass c" "pass_sz c' = pass_sz c" "cc_key c' = None \<longleftrightarrow> cc_key c = None"
    "cc_hmac_key c' = None \<longleftrightarrow> cc_hmac_key c = None"
  using assms unfolding derive_cipher_key_def Let_def
  by (auto simp: ctx_keep_def case_prod_beta split: if_splits)

lemma derive_hmac_key_from_frame:
  assumes "derive_hmac_key_from m ctx c = (rc, ctx', c')"
  shows "ctx_keep ctx ctx'" "ctx_flags ctx' = ctx_flags ctx"
    "cc_pass c' = cc_pass c" "pass_sz c' = pass_sz c" "cc_key c' = None \<longleftrightarrow> cc_key c = None"
    "cc_hmac_key c' = None \<longleftrightarrow> cc_hmac_key c = None"
  using assms unfolding derive_hmac_key_from_def Let_def
  by (auto simp: ctx_keep_def case_prod_beta)

lemma key_derive_frame:
  assumes run: "sqlcipher_cipher_ctx_key_derive ctx c st = (rc, ctx', c', st')"
  shows "ctx_keep ctx ctx'" "rc = SQLITE_OK \<Longrightarrow> derive_key c' = 0 \<and> st' = st"
    "cc_pass c' = cc_pass c" "pass_sz c' = pass_sz c" "rc = SQLITE_OK \<or> rc = SQLITE_ERROR"
proof -
  define salted where "salted = (if \<not> flag_get (ctx_flags ctx) CIPHER_FLAG_HAS_KDF_SALT
     then sqlcipher_codec_ctx_init_kdf_salt ctx st else (SQLITE_OK, ctx))"
  obtain rc1 ctx1 where s1: "salted = (rc1, ctx1)" by fastforce
  obtain rc2 d ctx2 c2 where s2: "derive_cipher_key ctx1 c = (rc2, d, ctx2, c2)" by (metis prod.exhaust)
  obtain rc3 ctx3 c3 where s3: "(if flag_get (ctx_flags ctx2) CIPHER_FLAG_HMAC \<and> d
     then derive_hmac_key_from (hmac_salt_mask st) ctx2 c2 else (SQLITE_OK, ctx2, c2)) = (rc3, ctx3, c3)"
    by (metis prod.exhaust)
  have k1: "ctx_keep ctx ctx1"
    using s1 init_kdf_salt_frame [of ctx st rc1 ctx1] by (auto simp: salted_def split: if_splits)
  note k2 = derive_cipher_key_frame [OF s2]
  have k3: "ctx_keep ctx2 ctx3" "cc_pass c3 = cc_pass c2" "pass_sz c3 = pass_sz c2"
    using s3 derive_hmac_key_from_frame [of "hmac_salt_mask st" ctx2 c2 rc3 ctx3 c3] by (auto split: if_splits)
  have keep: "ctx_keep ctx ctx2" "ctx_keep ctx ctx3"
    using k1 k2(1) k3(1) ctx_keep_trans by blast+
  note run' = run [unfolded sqlcipher_cipher_ctx_key_derive_def Let_def salted_def [symmetric] s1 prod.case s2 s3
      scramble_keys_def]
  show "ctx_keep ctx ctx'" using run' k1 keep by (auto simp: case_prod_beta split: if_splits)
  show "rc = SQLITE_OK \<Longrightarrow> derive_key c' = 0 \<and> st' = st" using run' by (auto simp: case_prod_beta split: if_splits)
  show "cc_pass c' = cc_pass c" "pass_sz c' = pass_sz c"
    using run' k2 k3 by (auto simp: case_prod_beta split: if_splits)
  show "rc = SQLITE_OK \<or> rc = SQLITE_ERROR" using run' by (auto simp: case_prod_beta split: if_splits)
qed

lemma provider_kdf:
  "provider_ok prov \<Longrightarrow> p_kdf prov pc alg pw salt iter n = (SQLITE_OK, k) \<Longrightarrow> length k = n"
  unfolding provider_ok_def provider_kdf_ok_def by blast

lemma cipher_ctx_ok_key_sz: "key_sz ctx' = key_sz ctx \<Longrightarrow> cipher_ctx_ok ctx' c = cipher_ctx_ok ctx c"
  by (simp add: cipher_ctx_ok_def)

text \<open>Writing a whole key keeps a cipher context well formed.\<close>

lemma cipher_ctx_ok_write:
  assumes "cipher_ctx_ok ctx c" and "int (length s) = key_sz ctx"
  shows "cipher_ctx_ok ctx (c\<lparr>cc_key := buf_update (buf_write 0 s) (cc_key c)\<rparr>)"
    and "cipher_ctx_ok ctx (c\<lparr>cc_hmac_key := buf_update (buf_write 0 s) (cc_hmac_key c)\<rparr>)"
  using assms by (auto simp: cipher_ctx_ok_def buf_bytes_update)

lemma derive_cipher_key_ok:
  assumes run: "derive_cipher_key ctx c = (SQLITE_OK, d, ctx', c')"
    and prov: "provider_ok (ctx_provider ctx)" and c: "cipher_ctx_ok ctx c" and key: "0 < key_sz ctx"
  shows "cipher_ctx_ok ctx c'"
proof -
  have hex: "int (length (cipher_hex2bin z (nat (key_sz ctx * 2)))) = key_sz ctx" for z using key by simp
  note w = cipher_ctx_ok_write [OF c]
  have both: "cipher_ctx_ok ctx (c\<lparr>cc_key := buf_update (buf_write 0 x) (cc_key c),
      cc_hmac_key := buf_update (buf_write 0 y) (cc_hmac_key c)\<rparr>)"
    if "int (length x) = key_sz ctx" "int (length y) = key_sz ctx" for x y
    using cipher_ctx_ok_write(2) [OF w(1) [OF that(1)] that(2)] by simp
  obtain rk k where kdf: "p_kdf (ctx_provider ctx) (provider_ctx ctx) (kdf_algorithm ctx)
      (take (nat (pass_sz c)) (buf_bytes (cc_pass c))) (take (nat (kdf_salt_sz ctx)) (buf_bytes (kdf_salt ctx)))
      (kdf_iter ctx) (nat (key_sz ctx)) = (rk, k)" by fastforce
  have kl: "int (length k) = key_sz ctx" if "rk = SQLITE_OK"
    using provider_kdf [OF prov kdf [unfolded that]] key by simp
  show ?thesis
    using run w(1) hex both kl unfolding derive_cipher_key_def Let_def kdf by (auto split: if_splits)
qed

lemma provider_kdf_length:
  "provider_ok prov \<Longrightarrow> fst (p_kdf prov pc alg pw salt iter n) = SQLITE_OK \<Longrightarrow>
    length (snd (p_kdf prov pc alg pw salt iter n)) = n"
  by (metis provider_kdf prod.collapse)

lemma derive_hmac_key_from_ok:
  assumes "derive_hmac_key_from m ctx c = (SQLITE_OK, ctx', c')"
    and "provider_ok (ctx_provider ctx)" and "cipher_ctx_ok ctx c" and "0 < key_sz ctx"
  shows "cipher_ctx_ok ctx c'"
  using assms by (auto simp: derive_hmac_key_from_def Let_def case_prod_beta provider_kdf_length
      intro!: cipher_ctx_ok_write)

lemma key_derive_OK_steps:
  assumes run: "sqlcipher_cipher_ctx_key_derive ctx c st = (SQLITE_OK, ctx', c', st')"
  obtains ctx1 d ctx2 c2 c3 where "ctx_keep ctx ctx1" "derive_cipher_key ctx1 c = (SQLITE_OK, d, ctx2, c2)"
    "(if flag_get (ctx_flags ctx2) CIPHER_FLAG_HMAC \<and> d
      then derive_hmac_key_from (hmac_salt_mask st) ctx2 c2 else (SQLITE_OK, ctx2, c2)) = (SQLITE_OK, ctx', c3)"
    "c' = c3\<lparr>cc_key := buf_update (\<lambda>d. sqlcipher_shield (shield_mask st) d (nat (key_sz ctx))) (cc_key c3),
      cc_hmac_key := buf_update (\<lambda>d. sqlcipher_shield (shield_mask st) d (nat (key_sz ctx))) (cc_hmac_key c3),
      derive_key := 0\<rparr>" "cc_pass c \<noteq> None" "pass_sz c \<noteq> 0"
proof -
  define salted where "salted = (if \<not> flag_get (ctx_flags ctx) CIPHER_FLAG_HAS_KDF_SALT
     then sqlcipher_codec_ctx_init_kdf_salt ctx st else (SQLITE_OK, ctx))"
  obtain rc1 ctx1 where s1: "salted = (rc1, ctx1)" by fastforce
  obtain rc2 d ctx2 c2 where s2: "derive_cipher_key ctx1 c = (rc2, d, ctx2, c2)" by (metis prod.exhaust)
  obtain rc3 ctx3 c3 where s3: "(if flag_get (ctx_flags ctx2) CIPHER_FLAG_HMAC \<and> d
     then derive_hmac_key_from (hmac_salt_mask st) ctx2 c2 else (SQLITE_OK, ctx2, c2)) = (rc3, ctx3, c3)"
    by (metis prod.exhaust)
  have k1: "ctx_keep ctx ctx1"
    using s1 init_kdf_salt_frame [of ctx st rc1 ctx1] by (auto simp: salted_def split: if_splits)
  note run' = run [unfolded sqlcipher_cipher_ctx_key_derive_def Let_def salted_def [symmetric] s1 prod.case s2 s3
      scramble_keys_def]
  show thesis
    using run' k1 s2 s3 by (intro that [of ctx1 d ctx2 c2 c3]) (auto simp: case_prod_beta split: if_splits)
qed

lemma ctx_keep_fields:
  "ctx_keep ctx ctx' \<Longrightarrow> key_sz ctx' = key_sz ctx \<and> ctx_provider ctx' = ctx_provider ctx"
  using ctx_keep_frame ctx_frame_fields by blast

lemma key_derive_ok:
  assumes run: "sqlcipher_cipher_ctx_key_derive ctx c st = (SQLITE_OK, ctx', c', st')"
    and prov: "provider_ok (ctx_provider ctx)" and c: "cipher_ctx_ok ctx c" and key: "0 < key_sz ctx"
  shows "cipher_ctx_ok ctx' c'"
proof (rule key_derive_OK_steps [OF run])
  fix ctx1 d ctx2 c2 c3
  assume k1: "ctx_keep ctx ctx1" and s2: "derive_cipher_key ctx1 c = (SQLITE_OK, d, ctx2, c2)"
    and s3: "(if flag_get (ctx_flags ctx2) CIPHER_FLAG_HMAC \<and> d
      then derive_hmac_key_from (hmac_salt_mask st) ctx2 c2 else (SQLITE_OK, ctx2, c2)) = (SQLITE_OK, ctx', c3)"
    and c': "c' = c3\<lparr>cc_key := buf_update (\<lambda>d. sqlcipher_shield (shield_mask st) d (nat (key_sz ctx))) (cc_key c3),
      cc_hmac_key := buf_update (\<lambda>d. sqlcipher_shield (shield_mask st) d (nat (key_sz ctx))) (cc_hmac_key c3),
      derive_key := 0\<rparr>"
  have k2: "ctx_keep ctx1 ctx2" by (rule derive_cipher_key_frame [OF s2])
  note f = ctx_keep_fields [OF k1] ctx_keep_fields [OF k2]
  have c2: "cipher_ctx_ok ctx2 c2"
    using derive_cipher_key_ok [OF s2] prov c key f by (simp add: cipher_ctx_ok_def)
  have "cipher_ctx_ok ctx2 c3"
  proof (cases "flag_get (ctx_flags ctx2) CIPHER_FLAG_HMAC \<and> d")
    case True
    then have "derive_hmac_key_from (hmac_salt_mask st) ctx2 c2 = (SQLITE_OK, ctx', c3)" using s3 by simp
    then show ?thesis by (rule derive_hmac_key_from_ok) (use c2 f prov key in simp_all)
  next
    case False
    then show ?thesis using s3 c2 by (auto split: if_splits)
  qed
  moreover have "key_sz ctx' = key_sz ctx2"
    using s3 derive_hmac_key_from_frame(1) [of "hmac_salt_mask st" ctx2 c2 SQLITE_OK ctx' c3]
      ctx_keep_fields [of ctx2 ctx'] by (auto split: if_splits)
  ultimately show ?thesis by (auto simp: c' cipher_ctx_ok_def buf_bytes_update)
qed

subsection \<open>Both contexts\<close>

lemma put_sub_ctx_frame: "ctx_frame ctx (put_sub_ctx f c ctx)"
  by (simp add: put_sub_ctx_def ctx_frame_def)

lemma read_write_put:
  "read_ctx (put_sub_ctx f c ctx) = (if f = 0 then Some c else read_ctx ctx)"
  "write_ctx (put_sub_ctx f c ctx) = (if f = 0 then write_ctx ctx else Some c)"
  "store_pass (put_sub_ctx f c ctx) = store_pass ctx"
  by (simp_all add: put_sub_ctx_def)

lemma derive_sub_ctx_OK:
  assumes "derive_sub_ctx f ctx st = (SQLITE_OK, ctx', st')" and "sub_ctx f ctx = Some c"
  obtains ctx1 c' where "sqlcipher_cipher_ctx_key_derive ctx c st = (SQLITE_OK, ctx1, c', st')"
    "ctx' = put_sub_ctx f c' ctx1" "ctx_keep ctx ctx1" "derive_key c' = 0" "st' = st"
proof -
  obtain rc ctx1 c' st1 where k: "sqlcipher_cipher_ctx_key_derive ctx c st = (rc, ctx1, c', st1)"
    by (metis prod.exhaust)
  show thesis
    using assms key_derive_frame(1,2) [OF k] k
    by (intro that [of ctx1 c']) (auto simp: derive_sub_ctx_def)
qed

lemma cipher_ctx_copy_OK:
  assumes "sqlcipher_cipher_ctx_copy xMalloc ctx t s st = (rc, t', st')"
  shows "derive_key t' = derive_key s"
    and "cipher_ctx_ok ctx t \<Longrightarrow> cipher_ctx_ok ctx s \<Longrightarrow> same_keys s t' \<and> cipher_ctx_ok ctx t'"
proof -
  have t': "\<exists>p. t' = s\<lparr>cc_addr := cc_addr t, cc_key := buf_copy (buf_bytes (cc_key s)) (key_sz ctx) (cc_key t),
      cc_hmac_key := buf_copy (buf_bytes (cc_hmac_key s)) (key_sz ctx) (cc_hmac_key t), cc_pass := p\<rparr>"
    using assms unfolding sqlcipher_cipher_ctx_copy_def Let_def
    by (cases "sc_alloc xMalloc (pass_sz s) (sc_free (cc_pass t) (pass_sz t) st)")
      (auto split: if_splits option.splits intro: exI [of _ "cc_pass s"])
  then show "derive_key t' = derive_key s" by auto
  have copy: "buf_bytes (buf_copy src n b) = src \<and> buf_copy src n b \<noteq> None"
    if "b \<noteq> None" "int (length (buf_bytes b)) = n" "int (length src) = n" for src n b
    using that by (auto simp: buf_copy_def buf_bytes_update buf_write_full)
  show "cipher_ctx_ok ctx t \<Longrightarrow> cipher_ctx_ok ctx s \<Longrightarrow> same_keys s t' \<and> cipher_ctx_ok ctx t'"
    using t' copy by (auto simp: cipher_ctx_ok_def same_keys_def)
qed

lemma wipe_pass_eq:
  assumes "sub_ctx f ctx = Some c" and "wipe_pass xMalloc f ctx st = (ctx', st')"
  shows "ctx' = put_sub_ctx f (c\<lparr>cc_pass := None, pass_sz := 0\<rparr>) ctx"
  using assms by (auto simp: wipe_pass_def sqlcipher_cipher_ctx_set_pass_def Let_def)

lemma derive_read_stage_OK:
  assumes "derive_read_stage ctx st = (SQLITE_OK, ctx', st')" and "read_ctx ctx = Some r"
  shows "\<exists>r'. read_ctx ctx' = Some r' \<and> derive_key r' = 0 \<and> write_ctx ctx' = write_ctx ctx \<and> ctx_frame ctx ctx'"
proof (cases "needs_derive CIPHER_READ_CTX ctx")
  case True
  then have run: "derive_sub_ctx CIPHER_READ_CTX ctx st = (SQLITE_OK, ctx', st')"
    using assms(1) by (simp add: derive_read_stage_def)
  have sub: "sub_ctx CIPHER_READ_CTX ctx = Some r" using assms(2) by (simp add: sub_ctx_def)
  show ?thesis
    by (rule derive_sub_ctx_OK [OF run sub])
      (auto simp: read_write_put dest: ctx_keep_frame intro: ctx_frame_trans put_sub_ctx_frame)
next
  case False
  then show ?thesis using assms by (auto simp: derive_read_stage_def needs_derive_def sub_ctx_def)
qed

lemma derive_write_stage_OK:
  assumes run: "derive_write_stage xMalloc ctx st = (SQLITE_OK, ctx', st')"
    and r: "read_ctx ctx = Some r" "derive_key r = 0" and w: "write_ctx ctx = Some w"
  shows "\<exists>w'. write_ctx ctx' = Some w' \<and> derive_key w' = 0 \<and> read_ctx ctx' = Some r \<and> ctx_frame ctx ctx'"
proof -
  consider "derive_key w = 0" | "derive_key w \<noteq> 0" "sqlcipher_cipher_ctx_cmp w r = 0"
    | "derive_key w \<noteq> 0" "sqlcipher_cipher_ctx_cmp w r \<noteq> 0" by blast
  then show ?thesis
  proof cases
    case 1
    then show ?thesis using run r w by (auto simp: derive_write_stage_def needs_derive_def sub_ctx_def)
  next
    case 2
    obtain rc t' st1 where copy: "sqlcipher_cipher_ctx_copy xMalloc ctx w r st = (rc, t', st1)" by (metis prod.exhaust)
    have "ctx' = put_sub_ctx 1 t' ctx" "derive_key t' = 0"
      using 2 run r w copy cipher_ctx_copy_OK(1) [OF copy]
      by (auto simp: derive_write_stage_def needs_derive_def sub_ctx_def copy_sub_ctx_def)
    then show ?thesis using r by (simp add: read_write_put put_sub_ctx_frame)
  next
    case 3
    then have run': "derive_sub_ctx CIPHER_WRITE_CTX ctx st = (SQLITE_OK, ctx', st')"
      using run r w by (simp add: derive_write_stage_def needs_derive_def sub_ctx_def)
    have sub: "sub_ctx CIPHER_WRITE_CTX ctx = Some w" using w by (simp add: sub_ctx_def)
    show ?thesis
      by (rule derive_sub_ctx_OK [OF run' sub])
        (use r in \<open>auto simp: read_write_put dest: ctx_keep_frame intro: ctx_frame_trans put_sub_ctx_frame\<close>)
  qed
qed

lemma codec_key_derive_OK:
  assumes run: "sqlcipher_codec_key_derive xMalloc ctx st = (SQLITE_OK, ctx', st')"
    and r: "read_ctx ctx = Some r" and w: "write_ctx ctx = Some w"
  shows "\<exists>r' w'. read_ctx ctx' = Some r' \<and> write_ctx ctx' = Some w' \<and> derive_key r' = 0 \<and> derive_key w' = 0
    \<and> (store_pass ctx \<noteq> 1 \<longrightarrow> cc_pass r' = None \<and> cc_pass w' = None) \<and> ctx_frame ctx ctx'"
proof -
  obtain rc1 ctx1 st1 where s1: "derive_read_stage ctx st = (rc1, ctx1, st1)" by (metis prod.exhaust)
  then have "rc1 = SQLITE_OK" using run by (auto simp: sqlcipher_codec_key_derive_def split: if_splits)
  note s1 = s1 [unfolded this]
  obtain r1 where r1: "read_ctx ctx1 = Some r1" "derive_key r1 = 0" "write_ctx ctx1 = Some w" "ctx_frame ctx ctx1"
    using derive_read_stage_OK [OF s1 r] w by auto
  obtain rc2 ctx2 st2 where s2: "derive_write_stage xMalloc ctx1 st1 = (rc2, ctx2, st2)" by (metis prod.exhaust)
  then have "rc2 = SQLITE_OK" using run s1 by (auto simp: sqlcipher_codec_key_derive_def split: if_splits)
  note s2 = s2 [unfolded this]
  obtain w2 where w2: "write_ctx ctx2 = Some w2" "derive_key w2 = 0" "read_ctx ctx2 = Some r1" "ctx_frame ctx1 ctx2"
    using derive_write_stage_OK [OF s2 r1(1,2,3)] by auto
  have f: "ctx_frame ctx ctx2" using r1(4) w2(4) ctx_frame_trans by blast
  have sp: "store_pass ctx2 = store_pass ctx" using ctx_frame_fields [OF f] by blast
  show ?thesis
  proof (cases "store_pass ctx = 1")
    case True
    then show ?thesis using run s1 s2 sp w2 r1 f by (auto simp: sqlcipher_codec_key_derive_def)
  next
    case False
    obtain ctx3 st3 where p1: "wipe_pass xMalloc CIPHER_READ_CTX ctx2 st2 = (ctx3, st3)" by fastforce
    then have ctx3: "ctx3 = put_sub_ctx 0 (r1\<lparr>cc_pass := None, pass_sz := 0\<rparr>) ctx2"
      using wipe_pass_eq [of 0 ctx2 r1] w2(3) by (simp add: sub_ctx_def)
    obtain ctx4 st4 where p2: "wipe_pass xMalloc CIPHER_WRITE_CTX ctx3 st3 = (ctx4, st4)" by fastforce
    then have ctx4: "ctx4 = put_sub_ctx 1 (w2\<lparr>cc_pass := None, pass_sz := 0\<rparr>) ctx3"
      using wipe_pass_eq [of 1 ctx3 w2] w2(1) ctx3 by (simp add: sub_ctx_def read_write_put)
    have "ctx' = ctx4" using run s1 s2 sp False p1 p2 by (auto simp: sqlcipher_codec_key_derive_def)
    moreover have "ctx_frame ctx ctx4"
      unfolding ctx4 ctx3 using f put_sub_ctx_frame ctx_frame_trans by blast
    ultimately show ?thesis using r1 w2 by (simp add: ctx3 ctx4 read_write_put)
  qed
qed

lemma scramble_keys_data:
  assumes "scramble_keys ctx c st = (c', st')" and "cc_key c \<noteq> None" and "cc_hmac_key c \<noteq> None"
  shows "take (nat (key_sz ctx)) (buf_bytes (cc_key c')) = fst (xoshiro_randomness (xoshiro_s st) (nat (key_sz ctx)))"
    and "take (nat (key_sz ctx)) (buf_bytes (cc_hmac_key c'))
       = fst (xoshiro_randomness (snd (xoshiro_randomness (xoshiro_s st) (nat (key_sz ctx)))) (nat (key_sz ctx)))"
  using assms
  by (auto simp: scramble_keys_def Let_def case_prod_beta buf_bytes_update take_buf_write_0)

text \<open>The failing exits.\<close>

lemma key_derive_error:
  assumes run: "sqlcipher_cipher_ctx_key_derive ctx c st = (rc, ctx', c', st')" and rc: "rc \<noteq> SQLITE_OK"
    and c: "cc_key c \<noteq> None" "cc_hmac_key c \<noteq> None"
  shows "(cc_pass c = None \<or> pass_sz c = 0) \<and> c' = c \<and> ctx' = ctx \<and> st' = st
    \<or> (\<exists>cm. scramble_keys ctx' cm st = (c', st') \<and> key_sz ctx' = key_sz ctx \<and> cc_key cm \<noteq> None \<and> cc_hmac_key cm \<noteq> None)"
proof (cases "cc_pass c = None \<or> pass_sz c = 0")
  case True
  then show ?thesis using run by (auto simp: sqlcipher_cipher_ctx_key_derive_def)
next
  case False
  define salted where "salted = (if \<not> flag_get (ctx_flags ctx) CIPHER_FLAG_HAS_KDF_SALT
     then sqlcipher_codec_ctx_init_kdf_salt ctx st else (SQLITE_OK, ctx))"
  obtain rc1 ctx1 where s1: "salted = (rc1, ctx1)" by fastforce
  obtain rc2 d ctx2 c2 where s2: "derive_cipher_key ctx1 c = (rc2, d, ctx2, c2)" by (metis prod.exhaust)
  obtain rc3 ctx3 c3 where s3: "(if flag_get (ctx_flags ctx2) CIPHER_FLAG_HMAC \<and> d
     then derive_hmac_key_from (hmac_salt_mask st) ctx2 c2 else (SQLITE_OK, ctx2, c2)) = (rc3, ctx3, c3)"
    by (metis prod.exhaust)
  have c3: "cc_key c3 \<noteq> None" "cc_hmac_key c3 \<noteq> None"
    using s3 c derive_cipher_key_frame [OF s2] derive_hmac_key_from_frame [of "hmac_salt_mask st" ctx2 c2 rc3 ctx3 c3]
    by (auto split: if_splits)
  note run' = run [unfolded sqlcipher_cipher_ctx_key_derive_def Let_def salted_def [symmetric] s1 prod.case s2 s3]
  have "key_sz ctx' = key_sz ctx" using key_derive_frame(1) [OF run] ctx_keep_fields by blast
  then show ?thesis
    using run' False rc c c3 derive_cipher_key_frame(5,6) [OF s2]
    by (auto simp: case_prod_beta split: if_splits)
qed

section \<open>Properties\<close>

text \<open>C4. A key specification restores the key: the text \<open>sqlcipher_cipher_ctx_get_keyspec\<close> prints for a
  context, given as passphrase to another context of the same sizes, is recognised as a raw
  key, and derivation reproduces the encryption key, the salt and, with HMAC on, the HMAC
  key, shielded as before, without calling the key derivation function.\<close>

theorem keyspec_roundtrip:
  assumes get: "sqlcipher_cipher_ctx_get_keyspec xMalloc ctx c st = (SQLITE_OK, Some (b, sz), c', st')"
    and c: "cipher_ctx_ok ctx c" and salt: "salt_ok ctx" and key: "0 < key_sz ctx"
    and small: "keyspec_size ctx < 2 ^ 63"
    and ctx2: "cipher_ctx_ok ctx2 c2" "salt_ok ctx2" "key_sz ctx2 = key_sz ctx" "kdf_salt_sz ctx2 = kdf_salt_sz ctx"
    "flag_get (ctx_flags ctx2) CIPHER_FLAG_HAS_KDF_SALT"
    "flag_get (ctx_flags ctx2) CIPHER_FLAG_HMAC = flag_get (ctx_flags ctx) CIPHER_FLAG_HMAC"
    and pass: "cc_pass c2 = Some b" "pass_sz c2 = sz" and st2: "shield_mask st2 = shield_mask st"
  shows "\<exists>ctx3 c3. sqlcipher_cipher_ctx_key_derive ctx2 c2 st2 = (SQLITE_OK, ctx3, c3, st2)
    \<and> derive_key c3 = 0 \<and> buf_bytes (cc_key c3) = buf_bytes (cc_key c)
    \<and> (flag_get (ctx_flags ctx) CIPHER_FLAG_HMAC \<longrightarrow> buf_bytes (cc_hmac_key c3) = buf_bytes (cc_hmac_key c))
    \<and> buf_bytes (kdf_salt ctx3) = buf_bytes (kdf_salt ctx)"
proof -
  define K where "K = unshielded st (key_sz ctx) (cc_key c)"
  define H where "H = unshielded st (key_sz ctx) (cc_hmac_key c)"
  define S where "S = buf_bytes (kdf_salt ctx)"
  have lens: "int (length K) = key_sz ctx2" "int (length H) = key_sz ctx2" "int (length S) = kdf_salt_sz ctx2"
    using c salt ctx2 by (simp_all add: K_def H_def S_def cipher_ctx_ok_def salt_ok_def length_unshielded)
  have shield: "sqlcipher_shield (shield_mask st) K (nat (key_sz ctx)) = buf_bytes (cc_key c)"
    "sqlcipher_shield (shield_mask st) H (nat (key_sz ctx)) = buf_bytes (cc_hmac_key c)"
    using c by (simp_all add: K_def H_def cipher_ctx_ok_def shield_unshielded)
  note spec = get_keyspec_text [OF get c salt key small]
  have S: "take (nat (kdf_salt_sz ctx)) (buf_bytes (kdf_salt ctx)) = S" using salt by (auto simp: S_def salt_ok_def)
  have sz: "pass_sz c2 = int (length (buf_bytes (cc_pass c2)))" "pass_sz c2 \<noteq> 0"
    using spec pass by (simp_all add: buf_bytes_def keyspec_text_def)
  have some: "cc_key c2 \<noteq> None" "cc_hmac_key c2 \<noteq> None" "kdf_salt ctx2 \<noteq> None"
    using ctx2(1,2) by (auto simp: cipher_ctx_ok_def salt_ok_def)
  show ?thesis
  proof (cases "flag_get (ctx_flags ctx) CIPHER_FLAG_HMAC")
    case True
    have "buf_bytes (cc_pass c2) = [0x78, 0x27] @ concat (map hex_of_byte (K @ H @ S)) @ [0x27]"
      using spec(1) True pass by (simp add: buf_bytes_def [of "Some b"] keyspec_text_def K_def H_def S)
    note derived = derive_from_keyspec_hmac [OF ctx2(1,2) _ lens this sz(1)]
    show ?thesis
      using derived True key pass sz ctx2 shield some st2
      by (simp add: sqlcipher_cipher_ctx_key_derive_def Let_def buf_bytes_update comp_def S_def)
  next
    case False
    have "buf_bytes (cc_pass c2) = [0x78, 0x27] @ concat (map hex_of_byte (K @ [] @ S)) @ [0x27]"
      using spec(1) False pass by (simp add: buf_bytes_def [of "Some b"] keyspec_text_def K_def S)
    note derived = derive_from_keyspec_plain [OF ctx2(1,2) _ lens(1,3) this sz(1)]
    show ?thesis
      using derived False key pass sz ctx2 shield some st2
      by (simp add: sqlcipher_cipher_ctx_key_derive_def Let_def buf_bytes_update comp_def S_def)
  qed
qed

theorem keyspec_roundtrip_witness:
  "\<exists>b sz c' st' ctx3 c3.
     sqlcipher_cipher_ctx_get_keyspec (\<lambda>_ _. None) sample_codec_ctx sample_cipher_ctx sample_sc_state
       = (SQLITE_OK, Some (b, sz), c', st')
     \<and> sqlcipher_cipher_ctx_key_derive sample_codec_ctx (sample_cipher_ctx\<lparr>cc_pass := Some b, pass_sz := sz\<rparr>) sample_sc_state
       = (SQLITE_OK, ctx3, c3, sample_sc_state)
     \<and> buf_bytes (cc_key c3) = buf_bytes (cc_key sample_cipher_ctx)"
proof -
  let ?get = "sqlcipher_cipher_ctx_get_keyspec (\<lambda>_ _. None) sample_codec_ctx sample_cipher_ctx sample_sc_state"
  have "keyspec_size sample_codec_ctx = 43" by code_simp
  moreover obtain b0 st0 where "sc_alloc (\<lambda>_ _. None) 43 sample_sc_state = (Some b0, st0)"
    by (simp add: sc_alloc_def size_arg_def sqlcipher_malloc_def heap_roundup_def sample_sc_state_def heap_state.defs
        sample_heap_state_def fresh_heap_def)
  ultimately obtain b sz c' st' where get: "?get = (SQLITE_OK, Some (b, sz), c', st')"
    by (simp add: sqlcipher_cipher_ctx_get_keyspec_def Let_def case_prod_beta)
  have "salt_ok sample_codec_ctx" "keyspec_size sample_codec_ctx < 2 ^ 63" by code_simp+
  moreover have "flag_get 0x13 CIPHER_FLAG_HAS_KDF_SALT" by code_simp
  moreover have "cipher_ctx_ok sample_codec_ctx (sample_cipher_ctx\<lparr>cc_pass := Some b, pass_sz := sz\<rparr>)"
    using sample_codec_ctx_ok(3) by (simp add: cipher_ctx_ok_def)
  ultimately show ?thesis
    using get keyspec_roundtrip [OF get sample_codec_ctx_ok(3), of sample_codec_ctx
        "sample_cipher_ctx\<lparr>cc_pass := Some b, pass_sz := sz\<rparr>" sample_sc_state]
    by (simp add: sample_codec_ctx_fields) blast
qed

text \<open>When key derivation succeeds both contexts have their keys and nothing is left to derive; unless
  \<open>PRAGMA cipher_store_pass\<close> asked to keep it, neither context holds the passphrase any more; and
  apart from flags, salts, buffers and keys the codec context is unchanged.\<close>

theorem codec_key_derive_settles:
  assumes "sqlcipher_codec_key_derive xMalloc ctx st = (SQLITE_OK, ctx', st')"
    and "read_ctx ctx = Some r" and "write_ctx ctx = Some w"
  shows "\<exists>r' w'. read_ctx ctx' = Some r' \<and> write_ctx ctx' = Some w' \<and> derive_key r' = 0 \<and> derive_key w' = 0
    \<and> (store_pass ctx \<noteq> 1 \<longrightarrow> cc_pass r' = None \<and> cc_pass w' = None) \<and> ctx_frame ctx ctx'"
  using assms by (rule codec_key_derive_OK)

definition sample_keyed_ctx :: "nat codec_ctx" where
  "sample_keyed_ctx = sample_codec_ctx
     \<lparr>read_ctx := Some (sample_cipher_ctx\<lparr>derive_key := 1, cc_pass := Some \<lparr>buf_addr = 7, buf_data = [1, 2, 3]\<rparr>, pass_sz := 3\<rparr>),
      write_ctx := Some sample_cipher_ctx\<rparr>"

theorem codec_key_derive_settles_witness:
  "\<exists>ctx' st' r' w'. sqlcipher_codec_key_derive (\<lambda>_ _. None) sample_keyed_ctx sample_sc_state = (SQLITE_OK, ctx', st')
     \<and> read_ctx ctx' = Some r' \<and> write_ctx ctx' = Some w' \<and> derive_key r' = 0 \<and> derive_key w' = 0
     \<and> cc_pass r' = None \<and> cc_pass w' = None"
proof -
  have "fst (derive_read_stage sample_keyed_ctx sample_sc_state) = SQLITE_OK" by code_simp
  then obtain ctx1 st1 where s1: "derive_read_stage sample_keyed_ctx sample_sc_state = (SQLITE_OK, ctx1, st1)"
    by (metis fst_conv prod.exhaust)
  then have "write_ctx ctx1 = Some sample_cipher_ctx"
    using derive_read_stage_OK [OF s1] by (auto simp: sample_keyed_ctx_def)
  then have "derive_write_stage (\<lambda>_ _. None) ctx1 st1 = (SQLITE_OK, ctx1, st1)"
    by (simp add: derive_write_stage_def needs_derive_def sub_ctx_def sample_cipher_ctx_def)
  then have "fst (sqlcipher_codec_key_derive (\<lambda>_ _. None) sample_keyed_ctx sample_sc_state) = SQLITE_OK"
    using s1 by (simp add: sqlcipher_codec_key_derive_def Let_def case_prod_beta)
  then obtain ctx' st' where
    run: "sqlcipher_codec_key_derive (\<lambda>_ _. None) sample_keyed_ctx sample_sc_state = (SQLITE_OK, ctx', st')"
    by (metis fst_conv prod.exhaust)
  have "store_pass sample_keyed_ctx \<noteq> 1" by (simp add: sample_keyed_ctx_def sample_codec_ctx_def zero_codec_ctx_def)
  moreover have "read_ctx sample_keyed_ctx = Some (sample_cipher_ctx
      \<lparr>derive_key := 1, cc_pass := Some \<lparr>buf_addr = 7, buf_data = [1, 2, 3]\<rparr>, pass_sz := 3\<rparr>)"
    and "write_ctx sample_keyed_ctx = Some sample_cipher_ctx" by (simp_all add: sample_keyed_ctx_def)
  ultimately show ?thesis using run codec_key_derive_settles [OF run] by blast
qed

text \<open>C5. A derivation that fails reports \<open>SQLITE_ERROR\<close>. If there is a passphrase, whatever step failed, both key
  buffers then hold fresh output of the xoshiro generator over the whole key length, so neither a partly derived key nor
  the previous one remains. If there is no passphrase nothing is touched: the buffers keep what they held.\<close>

theorem key_derive_failure_scrambles:
  assumes "sqlcipher_cipher_ctx_key_derive ctx c st = (rc, ctx', c', st')" and "rc \<noteq> SQLITE_OK"
    and "cc_key c \<noteq> None" and "cc_hmac_key c \<noteq> None"
  shows "rc = SQLITE_ERROR \<and>
    (if cc_pass c = None \<or> pass_sz c = 0 then c' = c \<and> ctx' = ctx \<and> st' = st
     else take (nat (key_sz ctx)) (buf_bytes (cc_key c')) = fst (xoshiro_randomness (xoshiro_s st) (nat (key_sz ctx)))
       \<and> take (nat (key_sz ctx)) (buf_bytes (cc_hmac_key c'))
         = fst (xoshiro_randomness (snd (xoshiro_randomness (xoshiro_s st) (nat (key_sz ctx)))) (nat (key_sz ctx))))"
proof -
  have rc: "rc = SQLITE_ERROR" using key_derive_frame(5) [OF assms(1)] assms(2) by metis
  show ?thesis
  proof (cases "cc_pass c = None \<or> pass_sz c = 0")
    case True
    then show ?thesis using rc assms(1) by (auto simp: sqlcipher_cipher_ctx_key_derive_def)
  next
    case False
    then obtain cm where "scramble_keys ctx' cm st = (c', st')" "key_sz ctx' = key_sz ctx" "cc_key cm \<noteq> None" "cc_hmac_key cm \<noteq> None"
      using key_derive_error [OF assms] by blast
    then show ?thesis using rc False scramble_keys_data [of ctx' cm st c' st'] by auto
  qed
qed

theorem key_derive_failure_scrambles_witness:
  "\<exists>ctx' c' st'. sqlcipher_cipher_ctx_key_derive
       (sample_codec_ctx\<lparr>ctx_provider := sample_provider\<lparr>p_kdf := (\<lambda>_ _ _ _ _ _. (1, []))\<rparr>\<rparr>)
       (sample_cipher_ctx\<lparr>cc_pass := Some \<lparr>buf_addr = 7, buf_data = [1, 2, 3]\<rparr>, pass_sz := 3\<rparr>) sample_sc_state
     = (SQLITE_ERROR, ctx', c', st')
     \<and> take 2 (buf_bytes (cc_key c')) = fst (xoshiro_randomness (xoshiro_s sample_sc_state) 2)"
proof -
  let ?ctx = "sample_codec_ctx\<lparr>ctx_provider := sample_provider\<lparr>p_kdf := (\<lambda>_ _ _ _ _ _. (1, []))\<rparr>\<rparr>"
  let ?c = "sample_cipher_ctx\<lparr>cc_pass := Some \<lparr>buf_addr = 7, buf_data = [1, 2, 3]\<rparr>, pass_sz := 3\<rparr>"
  have "fst (sqlcipher_cipher_ctx_key_derive ?ctx ?c sample_sc_state) = SQLITE_ERROR" by code_simp
  then obtain ctx' c' st' where run: "sqlcipher_cipher_ctx_key_derive ?ctx ?c sample_sc_state
      = (SQLITE_ERROR, ctx', c', st')"
    by (metis fst_conv prod.exhaust)
  have "cc_key ?c \<noteq> None" "cc_hmac_key ?c \<noteq> None" by (simp_all add: sample_cipher_ctx_def)
  then show ?thesis using run key_derive_failure_scrambles [OF run] by (simp add: sample_codec_ctx_fields)
qed

end
