(* ===== verification/Codec_Setup.thy ===== *)
theory Codec_Setup
  imports Codec_Key
begin

text \<open>
  Lemmas on the set-up of a codec context: the reserve at the end of each page, the setters once
  the key is in use, and what \<open>sqlcipher_codec_ctx_init\<close> of \<open>src/sqlcipher.c\<close> establishes.
\<close>

section \<open>Lemmas\<close>

subsection \<open>The reserve\<close>

text \<open>What the reserve must hold: the initialization vector and, with HMAC on, the HMAC.\<close>

definition reserve_needed :: "'p codec_ctx \<Rightarrow> int" where
  "reserve_needed ctx =
     iv_sz ctx + (if flag_get (ctx_flags ctx) CIPHER_FLAG_HMAC
                  then p_get_hmac_sz (ctx_provider ctx) (provider_ctx ctx) (hmac_algorithm ctx) else 0)"

lemma roundup_block:
  assumes "0 < (b :: int)" and r: "r = (if n mod b = 0 then n else (n div b + 1) * b)"
  shows "n \<le> r" "r < n + b" "b dvd r"
proof -
  have d: "(n div b + 1) * b = n - n mod b + b" "0 \<le> n mod b" "n mod b < b"
    using assms(1) by (simp_all add: algebra_simps minus_mod_eq_mult_div)
  show "b dvd r" unfolding r by auto
  have "r = n \<or> r = n - n mod b + b \<and> n mod b \<noteq> 0" using r d(1) by auto
  then show "n \<le> r" "r < n + b" using d(2,3) assms(1) by linarith+
qed

lemma reserve_setup_eq:
  "sqlcipher_codec_ctx_reserve_setup ctx =
     (SQLITE_OK, ctx\<lparr>hmac_sz := p_get_hmac_sz (ctx_provider ctx) (provider_ctx ctx) (hmac_algorithm ctx),
        reserve_sz := (if 0 < block_sz ctx
          then (if reserve_needed ctx mod block_sz ctx = 0 then reserve_needed ctx
                else (reserve_needed ctx div block_sz ctx + 1) * block_sz ctx) else reserve_needed ctx)\<rparr>)"
  by (simp add: sqlcipher_codec_ctx_reserve_setup_def reserve_needed_def Let_def)

subsection \<open>Setters after the key was used\<close>

lemma key_used_freezes_setters:
  assumes "key_used ctx"
  shows "sqlcipher_codec_ctx_set_kdf_iter ctx n = (SQLITE_OK, ctx)"
    "sqlcipher_codec_ctx_set_fast_kdf_iter ctx n = (SQLITE_OK, ctx)"
    "sqlcipher_codec_ctx_set_use_hmac ctx use = (SQLITE_OK, ctx)"
    "sqlcipher_codec_ctx_set_hmac_algorithm ctx n = (SQLITE_OK, ctx)"
    "sqlcipher_codec_ctx_set_kdf_algorithm ctx n = (SQLITE_OK, ctx)"
    "sqlcipher_codec_ctx_set_kdf_salt ctx salt n = (SQLITE_OK, ctx)"
    "sqlcipher_codec_ctx_set_pagesize xMalloc ctx n st = (SQLITE_OK, ctx, st)"
  using assms
  by (simp_all add: sqlcipher_codec_ctx_set_kdf_iter_def sqlcipher_codec_ctx_set_fast_kdf_iter_def
      sqlcipher_codec_ctx_set_use_hmac_def sqlcipher_codec_ctx_set_hmac_algorithm_def
      sqlcipher_codec_ctx_set_kdf_algorithm_def sqlcipher_codec_ctx_set_kdf_salt_def
      sqlcipher_codec_ctx_set_pagesize_def)

subsection \<open>Chains of steps\<close>

lemma then_okE:
  assumes "then_ok r k = (SQLITE_OK, x)"
  obtains y where "r = (SQLITE_OK, y)" "k y = (SQLITE_OK, x)"
  using assms by (cases r) (auto simp: then_ok_def split: if_splits)

lemma sc_alloc_more: "sc_alloc xMalloc n st = (b, st') \<Longrightarrow> heap_state.more st' = heap_state.more st"
  by (auto simp: sc_alloc_def sqlcipher_malloc_def sqlcipher_internal_malloc_def Let_def
      split: prod.splits option.splits if_splits)

lemma sc_free_more: "heap_state.more (sc_free b n st) = heap_state.more st"
  by (auto simp: sc_free_def sqlcipher_free_def sqlcipher_internal_free_def Let_def split: option.splits prod.splits)

lemma defaults_more:
  fixes st st' :: "('p, 'a) sc_state_scheme"
  assumes "heap_state.more st' = heap_state.more st"
  shows "default_flags st' = default_flags st" "default_provider st' = default_provider st"
    "default_page_size st' = default_page_size st" "default_kdf_iter st' = default_kdf_iter st"
    "default_hmac_algorithm st' = default_hmac_algorithm st" "default_kdf_algorithm st' = default_kdf_algorithm st"
    "default_plaintext_header_size st' = default_plaintext_header_size st"
  using assms by (cases st; cases st'; simp)+

subsection \<open>Creation of a context\<close>

lemma cipher_ctx_init_OK:
  assumes "sqlcipher_cipher_ctx_init xMalloc ctx st = (SQLITE_OK, c, st')" and "0 < key_sz ctx" and "key_sz ctx < 2 ^ 63"
  shows "\<exists>c'. c = Some c' \<and> cipher_ctx_ok ctx c' \<and> derive_key c' = 0 \<and> pass_sz c' = 0 \<and> cc_pass c' = None"
proof -
  obtain b st1 where b: "sc_alloc xMalloc sizeof_cipher_ctx st = (Some b, st1)"
    using assms(1) by (cases "sc_alloc xMalloc sizeof_cipher_ctx st") (auto simp: sqlcipher_cipher_ctx_init_def split: option.splits)
  obtain k st2 where k: "sc_alloc xMalloc (key_sz ctx) st1 = (Some k, st2)"
    using assms(1) b by (cases "sc_alloc xMalloc (key_sz ctx) st1") (auto simp: sqlcipher_cipher_ctx_init_def case_prod_beta Let_def split: option.splits if_splits)
  obtain h st3 where h: "sc_alloc xMalloc (key_sz ctx) st2 = (Some h, st3)"
    using assms(1) b k by (cases "sc_alloc xMalloc (key_sz ctx) st2") (auto simp: sqlcipher_cipher_ctx_init_def case_prod_beta Let_def split: option.splits if_splits)
  show ?thesis
    using assms(1) b k h sc_alloc_data [OF k assms(2,3)] sc_alloc_data [OF h assms(2,3)] assms(2)
    by (auto simp: sqlcipher_cipher_ctx_init_def cipher_ctx_ok_def buf_bytes_def)
qed

lemma cipher_ctx_set_pass_OK:
  assumes "sqlcipher_cipher_ctx_set_pass xMalloc c (Some z) n st = (SQLITE_OK, c', st')"
    and "0 < n" and "n < 2 ^ 63" and "nat n \<le> length z"
  shows "\<exists>b. c' = c\<lparr>cc_pass := Some b, pass_sz := n\<rparr> \<and> buf_data b = take (nat n) z"
proof -
  obtain b st1 where b: "sc_alloc xMalloc n (sc_free (cc_pass c) (pass_sz c) st) = (b, st1)" by fastforce
  then obtain b' where b': "b = Some b'"
    using assms(1,2) by (auto simp: sqlcipher_cipher_ctx_set_pass_def Let_def split: option.splits)
  then have "buf_data b' = replicate (nat n) 0" using b sc_alloc_data assms(2,3) by blast
  then show ?thesis
    using assms(1,2,4) b b'
    by (intro exI [of _ "b'\<lparr>buf_data := take (nat n) z\<rparr>"])
      (auto simp: sqlcipher_cipher_ctx_set_pass_def Let_def buf_copy_def buf_update_def buf_write_def)
qed

lemma cipher_ctx_copy_pass:
  assumes "sqlcipher_cipher_ctx_copy xMalloc ctx t s st = (SQLITE_OK, t', st')"
    and "cc_pass s = Some b" and "pass_sz s = int (length (buf_data b))" and "0 < pass_sz s" and "pass_sz s < 2 ^ 63"
  shows "buf_bytes (cc_pass t') = buf_data b" "pass_sz t' = pass_sz s"
proof -
  obtain q st1 where q: "sc_alloc xMalloc (pass_sz s) (sc_free (cc_pass t) (pass_sz t) st) = (Some q, st1)"
    using assms(1,2,4) by (cases "sc_alloc xMalloc (pass_sz s) (sc_free (cc_pass t) (pass_sz t) st)")
      (auto simp: sqlcipher_cipher_ctx_copy_def Let_def split: option.splits)
  then have "buf_data q = replicate (length (buf_data b)) 0" using sc_alloc_data [OF q] assms(3-5) by simp
  then show "buf_bytes (cc_pass t') = buf_data b" "pass_sz t' = pass_sz s"
    using assms(1-4) q
    by (auto simp: sqlcipher_cipher_ctx_copy_def Let_def buf_copy_def buf_update_def buf_bytes_def buf_write_def)
qed

text \<open>What the setters establish on a context whose key is not in use yet.\<close>

lemma set_reserve_OK:
  assumes "\<not> key_used ctx" "0 < block_sz ctx"
    and c1: "sqlcipher_codec_ctx_set_kdf_iter ctx it = (r1, ctx1)"
    and c2: "sqlcipher_codec_ctx_set_fast_kdf_iter ctx1 fit = (r2, ctx2)"
    and c3: "sqlcipher_codec_ctx_set_hmac_algorithm ctx2 alg = (r3, ctx3)"
    and c4: "sqlcipher_codec_ctx_set_use_hmac ctx3 use = (r4, ctx4)"
  shows "\<exists>fl hs rs. ctx4 = (sqlcipher_set_derive_key ctx 1)\<lparr>kdf_iter := it, fast_kdf_iter := fit, hmac_algorithm := alg,
      hmac_sz := hs, reserve_sz := rs, ctx_flags := fl\<rparr>
    \<and> r1 = SQLITE_OK \<and> r2 = SQLITE_OK \<and> r3 = SQLITE_OK \<and> r4 = SQLITE_OK
    \<and> hs = p_get_hmac_sz (ctx_provider ctx) (provider_ctx ctx) alg
    \<and> (flag_get fl CIPHER_FLAG_HMAC \<longleftrightarrow> use) \<and> \<not> flag_get fl CIPHER_FLAG_KEY_USED
    \<and> iv_sz ctx + (if use then hs else 0) \<le> rs \<and> rs < iv_sz ctx + (if use then hs else 0) + block_sz ctx
    \<and> block_sz ctx dvd rs"
proof -
  define fl where "fl = (if use then flag_set (ctx_flags ctx) CIPHER_FLAG_HMAC else flag_unset (ctx_flags ctx) CIPHER_FLAG_HMAC)"
  define hs where "hs = p_get_hmac_sz (ctx_provider ctx) (provider_ctx ctx) alg"
  define need where "need = iv_sz ctx + (if use then hs else 0)"
  define rs where "rs = (if need mod block_sz ctx = 0 then need else (need div block_sz ctx + 1) * block_sz ctx)"
  have nk: "\<not> flag_get (ctx_flags ctx) CIPHER_FLAG_KEY_USED" using assms(1) by (simp add: key_used_def)
  then have fl: "flag_get fl CIPHER_FLAG_HMAC \<longleftrightarrow> use" "\<not> flag_get fl CIPHER_FLAG_KEY_USED"
    by (auto simp: fl_def flag_get_set flag_get_unset)
  define d where "d = sqlcipher_set_derive_key ctx 1"
  have e2: "ctx2 = d\<lparr>kdf_iter := it, fast_kdf_iter := fit\<rparr>" "r1 = SQLITE_OK" "r2 = SQLITE_OK"
    using c1 c2 nk
    by (auto simp: d_def sqlcipher_codec_ctx_set_kdf_iter_def sqlcipher_codec_ctx_set_fast_kdf_iter_def key_used_def
        sqlcipher_set_derive_key_def option.map_comp comp_def)
  have d: "ctx_flags d = ctx_flags ctx" "ctx_provider d = ctx_provider ctx" "provider_ctx d = provider_ctx ctx"
    "iv_sz d = iv_sz ctx" "block_sz d = block_sz ctx" "page_sz d = page_sz ctx"
    by (simp_all add: d_def sqlcipher_set_derive_key_def)
  obtain rs3 where e3: "ctx3 = d\<lparr>kdf_iter := it, fast_kdf_iter := fit, hmac_algorithm := alg, hmac_sz := hs, reserve_sz := rs3\<rparr>"
    "r3 = SQLITE_OK"
    using c3 nk unfolding e2
    by (auto simp: sqlcipher_codec_ctx_set_hmac_algorithm_def key_used_def d reserve_setup_eq hs_def)
  have e4: "ctx4 = d\<lparr>kdf_iter := it, fast_kdf_iter := fit, hmac_algorithm := alg, hmac_sz := hs, reserve_sz := rs,
      ctx_flags := fl\<rparr>" "r4 = SQLITE_OK"
    using c4 nk assms(2) unfolding e3
    by (auto simp: sqlcipher_codec_ctx_set_use_hmac_def key_used_def d reserve_setup_eq reserve_needed_def
        hs_def rs_def need_def fl_def flag_get_set flag_get_unset)
  note r = roundup_block [OF assms(2) rs_def, unfolded need_def]
  show ?thesis using e2(2,3) e3(2) e4 [unfolded d_def] hs_def fl r by blast
qed

lemma set_parameters_OK:
  assumes "\<not> key_used ctx" "0 < block_sz ctx"
    and c1: "sqlcipher_codec_ctx_set_kdf_iter ctx it = (r1, ctx1)"
    and c2: "sqlcipher_codec_ctx_set_fast_kdf_iter ctx1 fit = (r2, ctx2)"
    and c3: "sqlcipher_codec_ctx_set_hmac_algorithm ctx2 alg = (r3, ctx3)"
    and c4: "sqlcipher_codec_ctx_set_use_hmac ctx3 use = (r4, ctx4)"
    and c5: "sqlcipher_codec_ctx_set_kdf_algorithm ctx4 kalg = (r5, ctx5)"
    and c6: "sqlcipher_codec_ctx_set_plaintext_header_size ctx5 hsz = (SQLITE_OK, ctx6)"
  shows "\<exists>fl hs rs. ctx6 = (sqlcipher_set_derive_key ctx 1)\<lparr>kdf_iter := it, fast_kdf_iter := fit, hmac_algorithm := alg,
      kdf_algorithm := kalg, ctx_flags := fl, hmac_sz := hs, reserve_sz := rs, plaintext_header_sz := hsz\<rparr>
    \<and> hs = p_get_hmac_sz (ctx_provider ctx) (provider_ctx ctx) alg
    \<and> (flag_get fl CIPHER_FLAG_HMAC \<longleftrightarrow> use) \<and> \<not> flag_get fl CIPHER_FLAG_KEY_USED
    \<and> iv_sz ctx + (if use then hs else 0) \<le> rs
    \<and> block_sz ctx dvd rs \<and> 0 \<le> hsz \<and> block_sz ctx dvd hsz \<and> hsz \<le> page_sz ctx - rs"
proof -
  define d where "d = sqlcipher_set_derive_key ctx 1"
  have d: "block_sz d = block_sz ctx" "page_sz d = page_sz ctx" by (simp_all add: d_def sqlcipher_set_derive_key_def)
  obtain fl hs rs where e4: "ctx4 = d\<lparr>kdf_iter := it, fast_kdf_iter := fit, hmac_algorithm := alg, hmac_sz := hs,
      reserve_sz := rs, ctx_flags := fl\<rparr>" and r: "hs = p_get_hmac_sz (ctx_provider ctx) (provider_ctx ctx) alg"
      "flag_get fl CIPHER_FLAG_HMAC \<longleftrightarrow> use" "\<not> flag_get fl CIPHER_FLAG_KEY_USED"
      "iv_sz ctx + (if use then hs else 0) \<le> rs" "block_sz ctx dvd rs"
    using set_reserve_OK [OF assms(1,2) c1 c2 c3 c4] unfolding d_def by blast
  have e6: "ctx6 = ctx4\<lparr>kdf_algorithm := kalg, plaintext_header_sz := hsz\<rparr>"
    "0 \<le> hsz" "hsz mod block_sz ctx = 0" "hsz \<le> page_sz ctx - rs"
    using c5 c6 r(3) unfolding e4
    by (auto simp: sqlcipher_codec_ctx_set_kdf_algorithm_def sqlcipher_codec_ctx_set_plaintext_header_size_def
        key_used_def d split: if_splits)
  have "ctx6 = d\<lparr>kdf_iter := it, fast_kdf_iter := fit, hmac_algorithm := alg,
      kdf_algorithm := kalg, ctx_flags := fl, hmac_sz := hs, reserve_sz := rs, plaintext_header_sz := hsz\<rparr>"
    unfolding e6(1) e4 by simp
  moreover have "block_sz ctx dvd hsz" using e6(3) by (simp add: dvd_eq_mod_eq_0)
  ultimately show ?thesis unfolding d_def using e6(2,4) r by blast
qed

text \<open>The steps of a successful initialisation, from the last one back.\<close>

lemma codec_ctx_init_steps:
  assumes run: "sqlcipher_codec_ctx_init xMalloc bt zKey nKey st = (SQLITE_OK, ctx, st')"
  obtains b s0 c1 s1 c2 s2 c3 s3 c4 c5 c6 c7 c8 c9 c10 s10 c11 s11 c12 s12 c13 where
    "sc_alloc xMalloc sizeof_codec_ctx st = (Some b, s0)"
    "alloc_salts xMalloc (zero_codec_ctx (buf_addr b) bt (default_provider s0), s0) = (SQLITE_OK, c1, s1)"
    "init_provider_ctx (c1\<lparr>ctx_flags := default_flags s1, ctx_provider := default_provider s1\<rparr>) = (SQLITE_OK, c2)" "s2 = s1"
    "sqlcipher_codec_ctx_set_pagesize xMalloc c2 (default_page_size s2) s2 = (SQLITE_OK, c3, s3)"
    "sqlcipher_codec_ctx_set_kdf_iter c3 (default_kdf_iter s3) = (SQLITE_OK, c4)"
    "sqlcipher_codec_ctx_set_fast_kdf_iter c4 FAST_PBKDF2_ITER = (SQLITE_OK, c5)"
    "sqlcipher_codec_ctx_set_hmac_algorithm c5 (default_hmac_algorithm s3) = (SQLITE_OK, c6)"
    "sqlcipher_codec_ctx_set_use_hmac c6 (flag_get (default_flags s3) CIPHER_FLAG_HMAC) = (SQLITE_OK, c7)"
    "sqlcipher_codec_ctx_set_kdf_algorithm c7 (default_kdf_algorithm s3) = (SQLITE_OK, c8)"
    "sqlcipher_codec_ctx_set_plaintext_header_size c8 (default_plaintext_header_size s3) = (SQLITE_OK, c9)"
    "init_sub_ctx xMalloc CIPHER_READ_CTX (c9, s3) = (SQLITE_OK, c10, s10)"
    "init_sub_ctx xMalloc CIPHER_WRITE_CTX (c10, s10) = (SQLITE_OK, c11, s11)"
    "sqlcipher_codec_ctx_set_pass xMalloc c11 zKey nKey CIPHER_READ_CTX s11 = (SQLITE_OK, c12, s12)"
    "copy_sub_ctx xMalloc CIPHER_READ_CTX (c12, s12) = (SQLITE_OK, c13, st')" "ctx = Some c13"
proof -
  obtain b s0 where b: "sc_alloc xMalloc sizeof_codec_ctx st = (Some b, s0)"
    using run by (cases "sc_alloc xMalloc sizeof_codec_ctx st") (auto simp: sqlcipher_codec_ctx_init_def split: option.splits)
  show thesis
    using run unfolding sqlcipher_codec_ctx_init_def b Let_def prod.case option.case
    by (clarsimp simp: pure_step_def split: prod.splits elim!: then_okE) (rule that [OF b], (assumption | rule refl)+)
qed

text \<open>A context as a successful initialisation leaves it: sizes that fit the provider and the page, buffers of
  the right length, and both cipher contexts waiting to derive their key from the given passphrase.\<close>

definition codec_params_ok :: "'p codec_ctx \<Rightarrow> bool" where
  "codec_params_ok ctx \<longleftrightarrow>
     sizes_ok ctx \<and> block_sz ctx dvd reserve_sz ctx \<and> salt_ok ctx \<and> kdf_salt_sz ctx = FILE_HEADER_SZ
     \<and> ctx_error ctx = SQLITE_OK \<and> \<not> key_used ctx
     \<and> ctx_buffer ctx \<noteq> None \<and> int (length (buf_bytes (ctx_buffer ctx))) = page_sz ctx \<and> valid_page_size (page_sz ctx)
     \<and> 0 \<le> plaintext_header_sz ctx \<and> plaintext_header_sz ctx \<le> page_sz ctx - reserve_sz ctx
     \<and> block_sz ctx dvd plaintext_header_sz ctx"

definition codec_fresh :: "'p codec_ctx \<Rightarrow> byte list \<Rightarrow> bool" where
  "codec_fresh ctx key \<longleftrightarrow> codec_params_ok ctx
     \<and> (\<exists>r w. read_ctx ctx = Some r \<and> write_ctx ctx = Some w \<and> cipher_ctx_ok ctx r \<and> cipher_ctx_ok ctx w
          \<and> derive_key r = 1 \<and> derive_key w = 1 \<and> buf_bytes (cc_pass r) = key \<and> buf_bytes (cc_pass w) = key
          \<and> pass_sz r = int (length key) \<and> pass_sz w = int (length key))"

text \<open>The sizes a provider reports are sensible.\<close>

definition provider_sizes_ok :: "'p provider \<Rightarrow> bool" where
  "provider_sizes_ok prov \<longleftrightarrow>
     (let pc = snd (p_ctx_init prov)
      in 0 < p_get_key_sz prov pc \<and> p_get_key_sz prov pc < 2 ^ 31 \<and> 0 \<le> p_get_iv_sz prov pc
         \<and> 0 < p_get_block_sz prov pc \<and> (\<forall>alg. 0 \<le> p_get_hmac_sz prov pc alg))"

lemma alloc_salts_OK:
  assumes "alloc_salts xMalloc (ctx, st) = (SQLITE_OK, ctx', st')"
  shows "\<exists>a b. ctx' = ctx\<lparr>kdf_salt_sz := FILE_HEADER_SZ, kdf_salt := Some a, hmac_kdf_salt := Some b\<rparr>
    \<and> length (buf_data a) = 16 \<and> heap_state.more st' = heap_state.more st"
proof -
  obtain a s1 where a: "sc_alloc xMalloc FILE_HEADER_SZ st = (Some a, s1)"
    using assms by (cases "sc_alloc xMalloc FILE_HEADER_SZ st") (auto simp: alloc_salts_def Let_def split: if_splits)
  obtain b where b: "sc_alloc xMalloc FILE_HEADER_SZ s1 = (Some b, st')"
    using assms a by (cases "sc_alloc xMalloc FILE_HEADER_SZ s1") (auto simp: alloc_salts_def Let_def split: if_splits)
  show ?thesis
    using assms a b sc_alloc_data [OF a] sc_alloc_more [OF a] sc_alloc_more [OF b] by (auto simp: alloc_salts_def Let_def)
qed

lemma set_pagesize_OK:
  assumes "sqlcipher_codec_ctx_set_pagesize xMalloc ctx sz st = (SQLITE_OK, ctx', st')" and "\<not> key_used ctx"
  shows "\<exists>b. ctx' = ctx\<lparr>page_sz := sz, ctx_buffer := Some b\<rparr> \<and> int (length (buf_data b)) = sz \<and> valid_page_size sz
    \<and> heap_state.more st' = heap_state.more st"
proof -
  have v: "valid_page_size sz" using assms by (auto simp: sqlcipher_codec_ctx_set_pagesize_def split: if_splits)
  then have sz: "0 < sz" "sz < 2 ^ 63" by (auto simp: valid_page_size_def)
  obtain b where b: "sc_alloc xMalloc sz (sc_free (ctx_buffer ctx) (page_sz ctx) st) = (Some b, st')"
    using assms v by (cases "sc_alloc xMalloc sz (sc_free (ctx_buffer ctx) (page_sz ctx) st)")
      (auto simp: sqlcipher_codec_ctx_set_pagesize_def split: if_splits)
  show ?thesis
    using assms v b sc_alloc_data [OF b sz] sc_alloc_more [OF b] sz(1)
    by (auto simp: sqlcipher_codec_ctx_set_pagesize_def sc_free_more)
qed

lemma init_sub_ctx_OK:
  assumes "init_sub_ctx xMalloc f (ctx, st) = (SQLITE_OK, ctx', st')" and "0 < key_sz ctx" and "key_sz ctx < 2 ^ 63"
  shows "\<exists>c. ctx' = put_sub_ctx f c ctx \<and> cipher_ctx_ok ctx c \<and> cc_pass c = None"
proof -
  obtain rc c st1 where i: "sqlcipher_cipher_ctx_init xMalloc ctx st = (rc, c, st1)" by (metis prod.exhaust)
  then have "rc = SQLITE_OK" using assms(1) by (simp add: init_sub_ctx_def)
  with i cipher_ctx_init_OK [of xMalloc ctx st c st1] assms(2,3) obtain c' where
    "c = Some c'" "cipher_ctx_ok ctx c'" "cc_pass c' = None" by auto
  then show ?thesis using assms(1) i by (auto simp: init_sub_ctx_def put_sub_ctx_def)
qed

lemma put_sub_ctx_fields [simp]:
  "sizes_ok (put_sub_ctx f c ctx) = sizes_ok ctx" "salt_ok (put_sub_ctx f c ctx) = salt_ok ctx"
  "cipher_ctx_ok (put_sub_ctx f c ctx) = cipher_ctx_ok ctx" "codec_params_ok (put_sub_ctx f c ctx) = codec_params_ok ctx"
  "key_sz (put_sub_ctx f c ctx) = key_sz ctx" "pBt (put_sub_ctx f c ctx) = pBt ctx"
  "ctx_provider (put_sub_ctx f c ctx) = ctx_provider ctx" "page_sz (put_sub_ctx f c ctx) = page_sz ctx"
  by (auto simp: put_sub_ctx_def sizes_ok_def salt_ok_def cipher_ctx_ok_def codec_params_ok_def key_used_def fun_eq_iff)

lemma init_parameters_OK:
  fixes st :: "('p, 'a) sc_state_scheme"
  defines "prov \<equiv> default_provider st" and "pc \<equiv> snd (p_ctx_init (default_provider st))"
  assumes defaults: "\<not> flag_get (default_flags st) CIPHER_FLAG_KEY_USED" "provider_sizes_ok prov"
    and ctx: "salt_ok ctx" "kdf_salt_sz ctx = FILE_HEADER_SZ" "ctx_error ctx = SQLITE_OK" "ctx_flags ctx = default_flags st"
      "ctx_provider ctx = prov" "provider_ctx ctx = pc" "key_sz ctx = p_get_key_sz prov pc" "iv_sz ctx = p_get_iv_sz prov pc"
      "block_sz ctx = p_get_block_sz prov pc" "page_sz ctx = sz" "ctx_buffer ctx = Some pg"
      "int (length (buf_data pg)) = sz" "valid_page_size sz"
    and i: "sqlcipher_codec_ctx_set_kdf_iter ctx it = (SQLITE_OK, c4)"
      "sqlcipher_codec_ctx_set_fast_kdf_iter c4 fit = (SQLITE_OK, c5)"
      "sqlcipher_codec_ctx_set_hmac_algorithm c5 alg = (SQLITE_OK, c6)"
      "sqlcipher_codec_ctx_set_use_hmac c6 use = (SQLITE_OK, c7)"
      "sqlcipher_codec_ctx_set_kdf_algorithm c7 kalg = (SQLITE_OK, c8)"
      "sqlcipher_codec_ctx_set_plaintext_header_size c8 hsz = (SQLITE_OK, c9)"
  shows "codec_params_ok c9 \<and> pBt c9 = pBt ctx \<and> ctx_provider c9 = prov \<and> page_sz c9 = sz
    \<and> key_sz c9 = p_get_key_sz prov pc"
proof -
  have sz: "0 < p_get_key_sz prov pc" "0 \<le> p_get_iv_sz prov pc" "0 < p_get_block_sz prov pc"
    "\<And>alg. 0 \<le> p_get_hmac_sz prov pc alg"
    using defaults(2) by (auto simp: provider_sizes_ok_def Let_def prov_def pc_def)
  have "\<not> key_used ctx" using defaults(1) ctx(4) by (simp add: key_used_def)
  from set_parameters_OK [OF this _ i] obtain fl hs rs where
    c9: "c9 = (sqlcipher_set_derive_key ctx 1)\<lparr>kdf_iter := it, fast_kdf_iter := fit, hmac_algorithm := alg,
      kdf_algorithm := kalg, ctx_flags := fl, hmac_sz := hs, reserve_sz := rs, plaintext_header_sz := hsz\<rparr>"
    and rs: "hs = p_get_hmac_sz prov pc alg" "flag_get fl CIPHER_FLAG_HMAC \<longleftrightarrow> use" "\<not> flag_get fl CIPHER_FLAG_KEY_USED"
      "iv_sz ctx + (if use then hs else 0) \<le> rs" "block_sz ctx dvd rs" "0 \<le> hsz" "block_sz ctx dvd hsz" "hsz \<le> page_sz ctx - rs"
    using sz ctx by auto
  have "iv_sz ctx \<le> rs" using rs(1,4) sz(4) [of alg] by (auto split: if_splits)
  then have "sizes_ok c9" using rs sz ctx by (auto simp: sizes_ok_def c9 sqlcipher_set_derive_key_def)
  moreover have "salt_ok c9" using ctx(1) by (simp add: salt_ok_def c9 sqlcipher_set_derive_key_def)
  ultimately show ?thesis
    using rs ctx unfolding codec_params_ok_def
    by (simp add: c9 sqlcipher_set_derive_key_def key_used_def buf_bytes_def)
qed

lemma init_keys_OK:
  assumes ok: "codec_params_ok ctx" "key_sz ctx < 2 ^ 63" and key: "zKey \<noteq> []" "int (length zKey) < 2 ^ 63"
    and i1: "init_sub_ctx xMalloc CIPHER_READ_CTX (ctx, st) = (SQLITE_OK, c10, s10)"
    and i2: "init_sub_ctx xMalloc CIPHER_WRITE_CTX (c10, s10) = (SQLITE_OK, c11, s11)"
    and i3: "sqlcipher_codec_ctx_set_pass xMalloc c11 (Some zKey) (int (length zKey)) CIPHER_READ_CTX s11 = (SQLITE_OK, c12, s12)"
    and i4: "copy_sub_ctx xMalloc CIPHER_READ_CTX (c12, s12) = (SQLITE_OK, c13, st')"
  shows "codec_fresh c13 zKey \<and> pBt c13 = pBt ctx \<and> ctx_provider c13 = ctx_provider ctx \<and> page_sz c13 = page_sz ctx"
proof -
  have k: "0 < key_sz ctx" using ok(1) by (simp add: codec_params_ok_def sizes_ok_def)
  obtain r where c10: "c10 = put_sub_ctx 0 r ctx" and r: "cipher_ctx_ok ctx r" "cc_pass r = None"
    using init_sub_ctx_OK [OF i1 k ok(2)] by auto
  obtain w where c11: "c11 = put_sub_ctx 1 w c10" and w: "cipher_ctx_ok ctx w"
    using init_sub_ctx_OK [OF i2] k ok(2) c10 by auto
  obtain rc c s where sp: "sqlcipher_cipher_ctx_set_pass xMalloc r (Some zKey) (int (length zKey)) s11 = (rc, c, s)"
    by (metis prod.exhaust)
  have "rc = SQLITE_OK" and c12: "c12 = put_sub_ctx 0 (c\<lparr>derive_key := 1\<rparr>) c11"
    using i3 sp by (auto simp: sqlcipher_codec_ctx_set_pass_def c11 c10 sub_ctx_def put_sub_ctx_def split: if_splits)
  then obtain b where c: "c = r\<lparr>cc_pass := Some b, pass_sz := int (length zKey)\<rparr>" "buf_data b = zKey"
    using cipher_ctx_set_pass_OK [of xMalloc r zKey "int (length zKey)" s11 c s] sp key by auto
  define src where "src = c\<lparr>derive_key := 1\<rparr>"
  obtain rc2 t s2 where cp: "sqlcipher_cipher_ctx_copy xMalloc c12 w src s12 = (rc2, t, s2)" by (metis prod.exhaust)
  have "rc2 = SQLITE_OK" and c13: "c13 = put_sub_ctx 1 t c12"
    using i4 cp by (auto simp: copy_sub_ctx_def c12 c11 c10 sub_ctx_def put_sub_ctx_def src_def)
  note cp = cp [unfolded this(1)]
  have src: "cipher_ctx_ok c12 src" using r by (simp add: src_def c c12 c11 c10 cipher_ctx_ok_def put_sub_ctx_def)
  have w12: "cipher_ctx_ok c12 w" using w by (simp add: c12 c11 c10 )
  note t = cipher_ctx_copy_OK(1) [OF cp] cipher_ctx_copy_OK(2) [OF cp w12 src]
    cipher_ctx_copy_pass [OF cp, of b]
  have "read_ctx c13 = Some src" "write_ctx c13 = Some t" by (simp_all add: c13 c12 src_def put_sub_ctx_def)
  then show ?thesis
    using t src ok key unfolding codec_fresh_def
    by (auto simp: c13 c12 c11 c10 src_def c buf_bytes_def)
qed

lemma codec_ctx_init_fresh:
  assumes run: "sqlcipher_codec_ctx_init xMalloc bt (Some zKey) (int (length zKey)) st = (SQLITE_OK, ctx, st')"
    and key: "zKey \<noteq> []" "int (length zKey) < 2 ^ 31"
    and defaults: "\<not> flag_get (default_flags st) CIPHER_FLAG_KEY_USED" "provider_sizes_ok (default_provider st)"
  shows "\<exists>c. ctx = Some c \<and> codec_fresh c zKey \<and> pBt c = bt \<and> ctx_provider c = default_provider st
    \<and> page_sz c = default_page_size st"
proof (rule codec_ctx_init_steps [OF run])
  fix b s0 c1 s1 c2 s2 c3 s3 c4 c5 c6 c7 c8 c9 c10 s10 c11 s11 c12 s12 c13
  assume al: "sc_alloc xMalloc sizeof_codec_ctx st = (Some b, s0)"
    and i1: "alloc_salts xMalloc (zero_codec_ctx (buf_addr b) bt (default_provider s0), s0) = (SQLITE_OK, c1, s1)"
    and i2: "init_provider_ctx (c1\<lparr>ctx_flags := default_flags s1, ctx_provider := default_provider s1\<rparr>) = (SQLITE_OK, c2)"
    and s2: "s2 = s1"
    and i3: "sqlcipher_codec_ctx_set_pagesize xMalloc c2 (default_page_size s2) s2 = (SQLITE_OK, c3, s3)"
    and i4: "sqlcipher_codec_ctx_set_kdf_iter c3 (default_kdf_iter s3) = (SQLITE_OK, c4)"
      "sqlcipher_codec_ctx_set_fast_kdf_iter c4 FAST_PBKDF2_ITER = (SQLITE_OK, c5)"
      "sqlcipher_codec_ctx_set_hmac_algorithm c5 (default_hmac_algorithm s3) = (SQLITE_OK, c6)"
      "sqlcipher_codec_ctx_set_use_hmac c6 (flag_get (default_flags s3) CIPHER_FLAG_HMAC) = (SQLITE_OK, c7)"
      "sqlcipher_codec_ctx_set_kdf_algorithm c7 (default_kdf_algorithm s3) = (SQLITE_OK, c8)"
      "sqlcipher_codec_ctx_set_plaintext_header_size c8 (default_plaintext_header_size s3) = (SQLITE_OK, c9)"
    and i10: "init_sub_ctx xMalloc CIPHER_READ_CTX (c9, s3) = (SQLITE_OK, c10, s10)"
      "init_sub_ctx xMalloc CIPHER_WRITE_CTX (c10, s10) = (SQLITE_OK, c11, s11)"
      "sqlcipher_codec_ctx_set_pass xMalloc c11 (Some zKey) (int (length zKey)) CIPHER_READ_CTX s11 = (SQLITE_OK, c12, s12)"
      "copy_sub_ctx xMalloc CIPHER_READ_CTX (c12, s12) = (SQLITE_OK, c13, st')" and ctx: "ctx = Some c13"
  let ?prov = "default_provider st" and ?pc = "snd (p_ctx_init (default_provider st))"
  obtain a h where c1: "c1 = (zero_codec_ctx (buf_addr b) bt (default_provider s0))
      \<lparr>kdf_salt_sz := FILE_HEADER_SZ, kdf_salt := Some a, hmac_kdf_salt := Some h\<rparr>" and a: "length (buf_data a) = 16"
    and m1: "heap_state.more s1 = heap_state.more st"
    using alloc_salts_OK [OF i1] sc_alloc_more [OF al] by auto
  note d1 = defaults_more [OF m1]
  have c2: "c2 = c1\<lparr>ctx_flags := default_flags st, ctx_provider := ?prov, provider_ctx := ?pc, key_sz := p_get_key_sz ?prov ?pc,
      iv_sz := p_get_iv_sz ?prov ?pc, block_sz := p_get_block_sz ?prov ?pc\<rparr>"
    using i2 by (auto simp: init_provider_ctx_def Let_def d1 split: prod.splits if_splits)
  have nk2: "\<not> key_used c2" using defaults(1) by (simp add: key_used_def c2)
  obtain pg where c3: "c3 = c2\<lparr>page_sz := default_page_size st, ctx_buffer := Some pg\<rparr>"
    and pg: "int (length (buf_data pg)) = default_page_size st" "valid_page_size (default_page_size st)"
    using set_pagesize_OK [OF i3 nk2] d1 s2 by auto
  have "salt_ok c3" using a by (simp add: salt_ok_def c3 c2 c1 buf_bytes_def)
  then have c9: "codec_params_ok c9 \<and> pBt c9 = pBt c3 \<and> ctx_provider c9 = ?prov \<and> page_sz c9 = default_page_size st
      \<and> key_sz c9 = p_get_key_sz ?prov ?pc"
    by (intro init_parameters_OK [OF defaults _ _ _ _ _ _ _ _ _ _ _ pg i4]) (simp_all add: c3 c2 c1 zero_codec_ctx_def)
  have "key_sz c9 < 2 ^ 63" using c9 defaults(2) by (simp add: provider_sizes_ok_def Let_def)
  from init_keys_OK [OF _ this key(1) _ i10] c9 key(2)
  show ?thesis by (auto simp: ctx c3 c2 c1 zero_codec_ctx_def)
qed

subsection \<open>Creation succeeds\<close>

text \<open>A platform allocator that never runs out of memory.\<close>

definition never_fails :: "xmalloc \<Rightarrow> bool" where
  "never_fails xMalloc \<longleftrightarrow> (\<forall>live n. xMalloc live n \<noteq> None)"

lemma sc_alloc_total:
  assumes "never_fails xMalloc" and "0 < n" and "n \<le> 2 ^ 30"
  shows "\<exists>b st'. sc_alloc xMalloc n st = (Some b, st')"
proof -
  have n: "size_arg n = nat n" "0 < nat n" "nat n \<le> 2 ^ 30" using assms(2,3) by (auto simp: size_arg_nat)
  note r = heap_roundup_props [of "nat n"]
  have "heap_roundup (nat n) \<le> 2 ^ 30 + 8" "0 < heap_roundup (nat n)" using r n by auto
  then have "sint (word_of_nat (heap_roundup (nat n)) :: u32) = int (heap_roundup (nat n))"
    by (simp add: signed_of_nat signed_take_bit_int_eq_self)
  moreover obtain p where "xMalloc (sys_live st) (heap_roundup (nat n)) = Some p"
    using assms(1) unfolding never_fails_def by blast
  ultimately have "\<exists>p. sqlite3_malloc xMalloc (heap_roundup (nat n)) (sys_live st) = Some p"
    using \<open>heap_roundup (nat n) \<le> 2 ^ 30 + 8\<close> \<open>0 < heap_roundup (nat n)\<close> by (auto simp: sqlite3_malloc_def)
  then have "\<exists>p st'. sqlcipher_malloc xMalloc (nat n) st = (Some p, st')"
    using n(2) by (auto simp: sqlcipher_malloc_def sqlcipher_internal_malloc_def Let_def split: option.splits)
  then show ?thesis by (auto simp: sc_alloc_def n(1))
qed

lemma sub_ctx_creation_total:
  assumes tot: "never_fails xMalloc" and k: "0 < key_sz ctx" "key_sz ctx \<le> 2 ^ 30"
  shows "\<exists>ctx' st'. init_sub_ctx xMalloc f (ctx, st) = (SQLITE_OK, ctx', st')"
proof -
  obtain b s1 where b: "sc_alloc xMalloc sizeof_cipher_ctx st = (Some b, s1)"
    using sc_alloc_total [OF tot, of sizeof_cipher_ctx st] by auto
  obtain p s2 where p: "sc_alloc xMalloc (key_sz ctx) s1 = (Some p, s2)" using sc_alloc_total [OF tot k] by blast
  obtain q s3 where q: "sc_alloc xMalloc (key_sz ctx) s2 = (Some q, s3)" using sc_alloc_total [OF tot k] by blast
  show ?thesis using b p q by (simp add: init_sub_ctx_def sqlcipher_cipher_ctx_init_def)
qed

lemma set_pass_total:
  assumes tot: "never_fails xMalloc" and n: "0 < n" "n \<le> 2 ^ 30" and c: "read_ctx ctx = Some c"
  shows "\<exists>b st'. sqlcipher_codec_ctx_set_pass xMalloc ctx (Some z) n CIPHER_READ_CTX st
    = (SQLITE_OK, put_sub_ctx 0 (c\<lparr>cc_pass := Some b, pass_sz := n, derive_key := 1\<rparr>) ctx, st')"
proof -
  obtain b s where "sc_alloc xMalloc n (sc_free (cc_pass c) (pass_sz c) st) = (Some b, s)"
    using sc_alloc_total [OF tot n] by blast
  then show ?thesis
    using c n by (intro exI [of _ "b\<lparr>buf_data := buf_write 0 (take (nat n) z) (buf_data b)\<rparr>"] exI [of _ s])
      (simp add: sqlcipher_codec_ctx_set_pass_def sub_ctx_def sqlcipher_cipher_ctx_set_pass_def Let_def
        buf_copy_def buf_update_def put_sub_ctx_def)
qed

lemma copy_sub_ctx_total:
  assumes tot: "never_fails xMalloc" and r: "read_ctx ctx = Some r" "0 < pass_sz r" "pass_sz r \<le> 2 ^ 30"
    and w: "write_ctx ctx = Some w"
  shows "\<exists>ctx' st'. copy_sub_ctx xMalloc CIPHER_READ_CTX (ctx, st) = (SQLITE_OK, ctx', st')"
proof -
  obtain b s where "sc_alloc xMalloc (pass_sz r) (sc_free (cc_pass w) (pass_sz w) st) = (Some b, s)"
    using sc_alloc_total [OF tot r(2,3)] by blast
  then show ?thesis
    using r w by (auto simp: copy_sub_ctx_def sub_ctx_def sqlcipher_cipher_ctx_copy_def Let_def)
qed

lemma set_parameters_total:
  assumes nk: "\<not> key_used ctx" and b: "0 < block_sz ctx"
    and hs: "hs = p_get_hmac_sz (ctx_provider ctx) (provider_ctx ctx) alg" "0 \<le> hs"
    and hdr: "0 \<le> hsz" "block_sz ctx dvd hsz" "hsz + iv_sz ctx + hs + block_sz ctx \<le> page_sz ctx"
  shows "\<exists>c4 c5 c6 c7 c8 c9. sqlcipher_codec_ctx_set_kdf_iter ctx it = (SQLITE_OK, c4)
    \<and> sqlcipher_codec_ctx_set_fast_kdf_iter c4 fit = (SQLITE_OK, c5)
    \<and> sqlcipher_codec_ctx_set_hmac_algorithm c5 alg = (SQLITE_OK, c6)
    \<and> sqlcipher_codec_ctx_set_use_hmac c6 use = (SQLITE_OK, c7)
    \<and> sqlcipher_codec_ctx_set_kdf_algorithm c7 kalg = (SQLITE_OK, c8)
    \<and> sqlcipher_codec_ctx_set_plaintext_header_size c8 hsz = (SQLITE_OK, c9)
    \<and> key_sz c9 = key_sz ctx"
proof -
  obtain r4 c4 r5 c5 r6 c6 r7 c7 where steps: "sqlcipher_codec_ctx_set_kdf_iter ctx it = (r4, c4)"
    "sqlcipher_codec_ctx_set_fast_kdf_iter c4 fit = (r5, c5)" "sqlcipher_codec_ctx_set_hmac_algorithm c5 alg = (r6, c6)"
    "sqlcipher_codec_ctx_set_use_hmac c6 use = (r7, c7)" by (metis prod.exhaust)
  define d where "d = sqlcipher_set_derive_key ctx 1"
  have d: "block_sz d = block_sz ctx" "page_sz d = page_sz ctx" "key_sz d = key_sz ctx"
    by (simp_all add: d_def sqlcipher_set_derive_key_def)
  obtain fl hs' rs where c7: "c7 = d\<lparr>kdf_iter := it, fast_kdf_iter := fit, hmac_algorithm := alg, hmac_sz := hs',
      reserve_sz := rs, ctx_flags := fl\<rparr>" and rc: "r4 = SQLITE_OK" "r5 = SQLITE_OK" "r6 = SQLITE_OK" "r7 = SQLITE_OK"
      and r: "hs' = hs" "\<not> flag_get fl CIPHER_FLAG_KEY_USED" "rs < iv_sz ctx + (if use then hs' else 0) + block_sz ctx"
    using set_reserve_OK [OF nk b steps] hs(1) unfolding d_def by blast
  have "hsz \<le> page_sz ctx - rs" using r hdr(3) hs(2) by (auto split: if_splits)
  then have "sqlcipher_codec_ctx_set_kdf_algorithm c7 kalg = (SQLITE_OK, c7\<lparr>kdf_algorithm := kalg\<rparr>)"
    "sqlcipher_codec_ctx_set_plaintext_header_size (c7\<lparr>kdf_algorithm := kalg\<rparr>) hsz
      = (SQLITE_OK, c7\<lparr>kdf_algorithm := kalg, plaintext_header_sz := hsz\<rparr>)"
    using r(2) hdr(1,2) b
    by (simp_all add: c7 d key_used_def sqlcipher_codec_ctx_set_kdf_algorithm_def
        sqlcipher_codec_ctx_set_plaintext_header_size_def)
  moreover have "key_sz (c7\<lparr>kdf_algorithm := kalg, plaintext_header_sz := hsz\<rparr>) = key_sz ctx" by (simp add: c7 d)
  ultimately show ?thesis using steps [unfolded rc] by blast
qed

lemma then_ok_OK: "then_ok (SQLITE_OK, x) k = k x"
  by (simp add: then_ok_def)

lemma alloc_salts_total:
  assumes tot: "never_fails xMalloc"
  shows "\<exists>ctx' st'. alloc_salts xMalloc (ctx, st) = (SQLITE_OK, ctx', st')"
proof -
  obtain a s1 where a: "sc_alloc xMalloc FILE_HEADER_SZ st = (Some a, s1)"
    using sc_alloc_total [OF tot, of FILE_HEADER_SZ st] by auto
  obtain b s2 where "sc_alloc xMalloc FILE_HEADER_SZ s1 = (Some b, s2)"
    using sc_alloc_total [OF tot, of FILE_HEADER_SZ s1] by auto
  with a show ?thesis by (simp add: alloc_salts_def Let_def)
qed

lemma set_pagesize_total:
  assumes tot: "never_fails xMalloc" and "valid_page_size sz"
  shows "\<exists>ctx' st'. sqlcipher_codec_ctx_set_pagesize xMalloc ctx sz st = (SQLITE_OK, ctx', st')"
proof -
  have "0 < sz" "sz \<le> 2 ^ 30" using assms(2) by (auto simp: valid_page_size_def)
  then obtain b s where "sc_alloc xMalloc sz (sc_free (ctx_buffer ctx) (page_sz ctx) st) = (Some b, s)"
    using sc_alloc_total [OF tot] by blast
  then show ?thesis using assms(2) by (simp add: sqlcipher_codec_ctx_set_pagesize_def)
qed

text \<open>Defaults under which a context can be created: no key in use, a provider that starts and reports
  sensible sizes, a valid page size, and a plaintext header that fits whatever the reserve is.\<close>

definition defaults_ok :: "('p, 'a) sc_state_scheme \<Rightarrow> bool" where
  "defaults_ok st \<longleftrightarrow>
     (let prov = default_provider st; pc = snd (p_ctx_init prov)
      in \<not> flag_get (default_flags st) CIPHER_FLAG_KEY_USED \<and> fst (p_ctx_init prov) = SQLITE_OK
         \<and> provider_sizes_ok prov \<and> p_get_key_sz prov pc \<le> 2 ^ 30 \<and> valid_page_size (default_page_size st)
         \<and> 0 \<le> default_plaintext_header_size st \<and> p_get_block_sz prov pc dvd default_plaintext_header_size st
         \<and> default_plaintext_header_size st + p_get_iv_sz prov pc + p_get_hmac_sz prov pc (default_hmac_algorithm st)
             + p_get_block_sz prov pc \<le> default_page_size st)"

lemma keys_total:
  assumes tot: "never_fails xMalloc" and k: "0 < key_sz ctx" "key_sz ctx \<le> 2 ^ 30" and n: "0 < nKey" "nKey \<le> 2 ^ 30"
  shows "\<exists>c10 s10 c11 s11 c12 s12 c13 s13. init_sub_ctx xMalloc CIPHER_READ_CTX (ctx, st) = (SQLITE_OK, c10, s10)
    \<and> init_sub_ctx xMalloc CIPHER_WRITE_CTX (c10, s10) = (SQLITE_OK, c11, s11)
    \<and> sqlcipher_codec_ctx_set_pass xMalloc c11 (Some z) nKey CIPHER_READ_CTX s11 = (SQLITE_OK, c12, s12)
    \<and> copy_sub_ctx xMalloc CIPHER_READ_CTX (c12, s12) = (SQLITE_OK, c13, s13)"
proof -
  have k63: "key_sz ctx < 2 ^ 63" using k(2) by simp
  obtain c10 s10 where 1: "init_sub_ctx xMalloc CIPHER_READ_CTX (ctx, st) = (SQLITE_OK, c10, s10)"
    using sub_ctx_creation_total [OF tot k] by blast
  obtain r where c10: "c10 = put_sub_ctx 0 r ctx" using init_sub_ctx_OK [OF 1 k(1) k63] by blast
  obtain c11 s11 where 2: "init_sub_ctx xMalloc CIPHER_WRITE_CTX (c10, s10) = (SQLITE_OK, c11, s11)"
    using sub_ctx_creation_total [OF tot, of c10 CIPHER_WRITE_CTX s10] k by (auto simp: c10)
  obtain w where c11: "c11 = put_sub_ctx 1 w c10" using init_sub_ctx_OK [OF 2] k(1) k63 by (auto simp: c10)
  have "read_ctx c11 = Some r" "write_ctx c11 = Some w" by (simp_all add: c11 c10 put_sub_ctx_def)
  moreover from set_pass_total [OF tot n this(1)] obtain b s12 where
    3: "sqlcipher_codec_ctx_set_pass xMalloc c11 (Some z) nKey CIPHER_READ_CTX s11
      = (SQLITE_OK, put_sub_ctx 0 (r\<lparr>cc_pass := Some b, pass_sz := nKey, derive_key := 1\<rparr>) c11, s12)" by blast
  ultimately obtain c13 s13 where "copy_sub_ctx xMalloc CIPHER_READ_CTX
      (put_sub_ctx 0 (r\<lparr>cc_pass := Some b, pass_sz := nKey, derive_key := 1\<rparr>) c11, s12) = (SQLITE_OK, c13, s13)"
    using copy_sub_ctx_total [OF tot, of "put_sub_ctx 0 (r\<lparr>cc_pass := Some b, pass_sz := nKey, derive_key := 1\<rparr>) c11"
        "r\<lparr>cc_pass := Some b, pass_sz := nKey, derive_key := 1\<rparr>" w s12] n
    by (auto simp: put_sub_ctx_def)
  with 1 2 3 show ?thesis by blast
qed

lemma codec_ctx_init_total:
  assumes tot: "never_fails xMalloc" and ok: "defaults_ok st" and n: "0 < nKey" "nKey \<le> 2 ^ 30"
  shows "\<exists>ctx st'. sqlcipher_codec_ctx_init xMalloc bt (Some zKey) nKey st = (SQLITE_OK, Some ctx, st')"
proof -
  obtain b s0 where b: "sc_alloc xMalloc sizeof_codec_ctx st = (Some b, s0)"
    using sc_alloc_total [OF tot, of sizeof_codec_ctx st] by auto
  obtain c1 s1 where i1: "alloc_salts xMalloc (zero_codec_ctx (buf_addr b) bt (default_provider s0), s0) = (SQLITE_OK, c1, s1)"
    using alloc_salts_total [OF tot] by blast
  have "heap_state.more s1 = heap_state.more st" using alloc_salts_OK [OF i1] sc_alloc_more [OF b] by auto
  note d1 = defaults_more [OF this]
  define prov pc where "prov = default_provider st" and "pc = snd (p_ctx_init prov)"
  define c2 where "c2 = c1\<lparr>ctx_flags := default_flags st, ctx_provider := prov, provider_ctx := pc,
      key_sz := p_get_key_sz prov pc, iv_sz := p_get_iv_sz prov pc, block_sz := p_get_block_sz prov pc\<rparr>"
  have i2: "init_provider_ctx (c1\<lparr>ctx_flags := default_flags s1, ctx_provider := default_provider s1\<rparr>) = (SQLITE_OK, c2)"
    using ok by (auto simp: init_provider_ctx_def defaults_ok_def d1 c2_def prov_def pc_def Let_def split: prod.splits)
  have nk2: "\<not> key_used c2" using ok by (simp add: key_used_def c2_def defaults_ok_def Let_def)
  obtain c3 s3 where i3: "sqlcipher_codec_ctx_set_pagesize xMalloc c2 (default_page_size s1) s1 = (SQLITE_OK, c3, s3)"
    using set_pagesize_total [OF tot, of "default_page_size s1" c2 s1] ok d1 by (auto simp: defaults_ok_def Let_def)
  then obtain pg where c3: "c3 = c2\<lparr>page_sz := default_page_size st, ctx_buffer := Some pg\<rparr>"
    and "heap_state.more s3 = heap_state.more s1" using set_pagesize_OK [OF i3 nk2] d1 by auto
  note d3 = defaults_more [OF this(2)]
  have k: "0 < key_sz c3" "key_sz c3 \<le> 2 ^ 30" "\<not> key_used c3" "0 < block_sz c3"
    using ok nk2 by (simp_all add: c3 c2_def defaults_ok_def provider_sizes_ok_def Let_def prov_def pc_def key_used_def)
  define hs where "hs = p_get_hmac_sz (ctx_provider c3) (provider_ctx c3) (default_hmac_algorithm st)"
  have h: "0 \<le> hs" "0 \<le> default_plaintext_header_size st" "block_sz c3 dvd default_plaintext_header_size st"
    "default_plaintext_header_size st + iv_sz c3 + hs + block_sz c3 \<le> page_sz c3"
    using ok by (simp_all add: c3 c2_def defaults_ok_def provider_sizes_ok_def Let_def prov_def pc_def hs_def)
  obtain c4 c5 c6 c7 c8 c9 where p: "sqlcipher_codec_ctx_set_kdf_iter c3 (default_kdf_iter st) = (SQLITE_OK, c4)"
    "sqlcipher_codec_ctx_set_fast_kdf_iter c4 FAST_PBKDF2_ITER = (SQLITE_OK, c5)"
    "sqlcipher_codec_ctx_set_hmac_algorithm c5 (default_hmac_algorithm st) = (SQLITE_OK, c6)"
    "sqlcipher_codec_ctx_set_use_hmac c6 (flag_get (default_flags st) CIPHER_FLAG_HMAC) = (SQLITE_OK, c7)"
    "sqlcipher_codec_ctx_set_kdf_algorithm c7 (default_kdf_algorithm st) = (SQLITE_OK, c8)"
    "sqlcipher_codec_ctx_set_plaintext_header_size c8 (default_plaintext_header_size st) = (SQLITE_OK, c9)" "key_sz c9 = key_sz c3"
    using set_parameters_total [OF k(3,4) hs_def h] by blast
  obtain c10 s10 c11 s11 c12 s12 c13 s13 where q: "init_sub_ctx xMalloc CIPHER_READ_CTX (c9, s3) = (SQLITE_OK, c10, s10)"
    "init_sub_ctx xMalloc CIPHER_WRITE_CTX (c10, s10) = (SQLITE_OK, c11, s11)"
    "sqlcipher_codec_ctx_set_pass xMalloc c11 (Some zKey) nKey CIPHER_READ_CTX s11 = (SQLITE_OK, c12, s12)"
    "copy_sub_ctx xMalloc CIPHER_READ_CTX (c12, s12) = (SQLITE_OK, c13, s13)"
    using keys_total [OF tot, of c9 nKey s3 zKey] k p(7) n by auto
  show ?thesis
    by (simp add: sqlcipher_codec_ctx_init_def b i1 then_ok_OK pure_step_def i2 [unfolded d1] i3 [unfolded d1] d1 d3 p q)
qed

lemma sample_defaults_ok: "defaults_ok sample_sc_state"
  by (simp add: defaults_ok_def provider_sizes_ok_def valid_page_size_def sample_simps)

section \<open>Properties\<close>

text \<open>C8. A codec context that was initialised successfully is well formed: sizes as the provider reports them, a
  valid page size with a page buffer of that length, a reserve of whole blocks with room for vector and
  HMAC, a plaintext header of whole blocks that fits the page, salt and key buffers of the right length,
  and both cipher contexts holding the passphrase and waiting to derive their keys from it.\<close>

theorem codec_ctx_init_wellformed:
  assumes "sqlcipher_codec_ctx_init xMalloc bt (Some zKey) (int (length zKey)) st = (SQLITE_OK, ctx, st')"
    and "zKey \<noteq> []" and "int (length zKey) < 2 ^ 31"
    and "\<not> flag_get (default_flags st) CIPHER_FLAG_KEY_USED" and "provider_sizes_ok (default_provider st)"
  shows "\<exists>c. ctx = Some c \<and> codec_fresh c zKey \<and> pBt c = bt \<and> ctx_provider c = default_provider st
    \<and> page_sz c = default_page_size st"
  using assms by (rule codec_ctx_init_fresh)

theorem codec_ctx_init_wellformed_witness:
  "\<exists>c st'. sqlcipher_codec_ctx_init (\<lambda>_ _. Some 4096) 0 (Some [1, 2, 3]) 3 sample_sc_state = (SQLITE_OK, Some c, st')
     \<and> codec_fresh c [1, 2, 3] \<and> page_sz c = 512"
proof -
  obtain ctx st' where run: "sqlcipher_codec_ctx_init (\<lambda>_ _. Some 4096) 0 (Some [1, 2, 3]) 3 sample_sc_state
      = (SQLITE_OK, ctx, st')"
    using codec_ctx_init_total [of "\<lambda>_ _. Some 4096" sample_sc_state 3 0 "[1, 2, 3]"] sample_defaults_ok
    by (auto simp: never_fails_def)
  have "\<not> flag_get (default_flags sample_sc_state) CIPHER_FLAG_KEY_USED" "provider_sizes_ok (default_provider sample_sc_state)"
    "default_page_size sample_sc_state = 512"
    by (simp_all add: sample_simps provider_sizes_ok_def)
  then show ?thesis
    using run codec_ctx_init_wellformed [of "\<lambda>_ _. Some 4096" 0 "[1, 2, 3]" sample_sc_state ctx st'] by auto
qed

text \<open>C9. Creating a codec context succeeds whenever memory is available: with defaults that fit together (a
  valid page size, a provider that starts, a plaintext header of whole blocks that leaves room for the
  reserve) and a non-empty key, no step of the initialisation fails.\<close>

theorem codec_ctx_init_succeeds:
  assumes "never_fails xMalloc" and "defaults_ok st" and "0 < nKey" and "nKey \<le> 2 ^ 30"
  shows "\<exists>ctx st'. sqlcipher_codec_ctx_init xMalloc bt (Some zKey) nKey st = (SQLITE_OK, Some ctx, st')"
  using assms by (rule codec_ctx_init_total)

theorem codec_ctx_init_succeeds_witness:
  "\<exists>ctx st'. sqlcipher_codec_ctx_init (\<lambda>_ _. Some 4096) 0 (Some [1, 2, 3]) 3 sample_sc_state = (SQLITE_OK, Some ctx, st')"
  by (rule codec_ctx_init_succeeds) (simp_all add: never_fails_def sample_defaults_ok)

text \<open>The reserve at the end of each page is the smallest number of whole cipher blocks that holds the
  initialization vector and, when HMAC is on, the HMAC.\<close>

theorem reserve_is_minimal:
  assumes "sqlcipher_codec_ctx_reserve_setup ctx = (rc, ctx')" and "0 < block_sz ctx"
  shows "rc = SQLITE_OK \<and> reserve_needed ctx \<le> reserve_sz ctx' \<and> reserve_sz ctx' < reserve_needed ctx + block_sz ctx
    \<and> block_sz ctx dvd reserve_sz ctx'"
  using assms roundup_block [OF assms(2) refl, of "reserve_needed ctx"] by (auto simp: reserve_setup_eq)

theorem reserve_is_minimal_witness:
  "\<exists>ctx'. sqlcipher_codec_ctx_reserve_setup (sample_codec_ctx\<lparr>block_sz := 16\<rparr>) = (SQLITE_OK, ctx')
     \<and> 3 \<le> reserve_sz ctx' \<and> reserve_sz ctx' < 19 \<and> 16 dvd reserve_sz ctx'"
proof -
  let ?ctx = "sample_codec_ctx\<lparr>block_sz := 16\<rparr>"
  obtain rc ctx' where run: "sqlcipher_codec_ctx_reserve_setup ?ctx = (rc, ctx')" by fastforce
  have "reserve_needed ?ctx = 3" by code_simp
  with run reserve_is_minimal [OF run] show ?thesis by auto
qed

end
