(* ===== verification/Codec_Callback.thy ===== *)
theory Codec_Callback
  imports Codec_Key
begin

text \<open>
  \<open>sqlite3Codec\<close> of \<open>src/sqlcipher.c\<close>, the callback through which the pager passes every page it reads
  or writes: deferred errors, key derivation on first use, the header of page 1, decryption in
  place, encryption into the context's buffer, and the error state that stops the pager.
\<close>

section \<open>Definitions\<close>

abbreviation (input) CODEC_READ_OP :: int where "CODEC_READ_OP \<equiv> 3"
abbreviation (input) CODEC_WRITE_OP :: int where "CODEC_WRITE_OP \<equiv> 6"
abbreviation (input) CODEC_JOURNAL_OP :: int where "CODEC_JOURNAL_OP \<equiv> 7"

text \<open>The 16 bytes of \<open>SQLITE_FILE_HEADER\<close>: "SQLite format 3" and NUL.\<close>

definition sqlite_file_header :: "byte list" where
  "sqlite_file_header =
     [0x53, 0x51, 0x4c, 0x69, 0x74, 0x65, 0x20, 0x66, 0x6f, 0x72, 0x6d, 0x61, 0x74, 0x20, 0x33, 0]"

text \<open>What \<open>sqlite3Codec\<close> returns: NULL, \<open>pData\<close> itself, or the context's buffer.\<close>

datatype codec_ret = Ret_Null | Ret_Data | Ret_Buffer

text \<open>\<open>page_cipher_at\<close> runs the page cipher on the part of page and buffer from \<open>offset\<close> on.\<close>

definition page_cipher_at ::
    "('p, 'a) sc_state_scheme \<Rightarrow> 'p codec_ctx \<Rightarrow> int \<Rightarrow> u32 \<Rightarrow> int \<Rightarrow> nat \<Rightarrow> byte list \<Rightarrow> int \<times> 'p codec_ctx" where
  "page_cipher_at st ctx cctx pgno mode offset pData =
     (let (rc, out, ctx') = sqlcipher_page_cipher st ctx cctx pgno mode (page_sz ctx - int offset)
                              (drop offset pData) (drop offset (buf_bytes (ctx_buffer ctx)))
      in (rc, ctx'\<lparr>ctx_buffer := buf_update (\<lambda>d. take offset d @ out) (ctx_buffer ctx)\<rparr>))"

definition codec_offset :: "'p codec_ctx \<Rightarrow> u32 \<Rightarrow> nat" where
  "codec_offset ctx pgno =
     (if pgno = 1 then (if plaintext_header_sz ctx \<noteq> 0 then nat (plaintext_header_sz ctx) else 16) else 0)"

definition wipe_buffer :: "nat \<Rightarrow> 'p codec_ctx \<Rightarrow> 'p codec_ctx" where
  "wipe_buffer offset ctx =
     ctx\<lparr>ctx_buffer := buf_update
           (\<lambda>d. take offset d @ sqlcipher_memset (drop offset d) 0 (nat (page_sz ctx) - offset)) (ctx_buffer ctx)\<rparr>"

definition codec_read ::
    "'p codec_ctx \<Rightarrow> byte list \<Rightarrow> u32 \<Rightarrow> ('p, 'a) sc_state_scheme
      \<Rightarrow> codec_ret \<times> byte list \<times> 'p codec_ctx \<times> ('p, 'a) sc_state_scheme" where
  "codec_read ctx pData pgno st =
     (let offset = codec_offset ctx pgno;
          ctx = (if pgno = 1
                 then ctx\<lparr>ctx_buffer := buf_copy (if plaintext_header_sz ctx \<noteq> 0 then pData else sqlite_file_header)
                                          (int offset) (ctx_buffer ctx)\<rparr>
                 else ctx);
          (rc, ctx) = page_cipher_at st ctx CIPHER_READ_CTX pgno CIPHER_DECRYPT offset pData;
          (ctx, st) =
            (if rc \<noteq> SQLITE_OK then
               let ctx = wipe_buffer offset ctx
               in if plaintext_header_sz ctx = page_sz ctx - reserve_sz ctx then (ctx, st)
                  else sqlcipher_codec_ctx_set_error ctx rc st
             else (ctx\<lparr>ctx_flags := flag_set (ctx_flags ctx) CIPHER_FLAG_KEY_USED\<rparr>, st));
          pData = buf_write 0 (take (nat (page_sz ctx)) (buf_bytes (ctx_buffer ctx))) pData
      in (Ret_Data, pData, ctx, st))"

text \<open>The header part of page 1 in the output buffer: the salt, or the plaintext header of the page.\<close>

definition write_header ::
    "'p codec_ctx \<Rightarrow> byte list \<Rightarrow> u32 \<Rightarrow> ('p, 'a) sc_state_scheme \<Rightarrow> int \<times> 'p codec_ctx" where
  "write_header ctx pData pgno st =
     (if pgno = 1 then
        let offset = codec_offset ctx pgno;
            (rc, salt, ctx) = sqlcipher_codec_ctx_get_kdf_salt ctx st
        in if rc \<noteq> SQLITE_OK then (rc, ctx)
           else (SQLITE_OK,
                 ctx\<lparr>ctx_buffer := buf_copy (if plaintext_header_sz ctx \<noteq> 0 then pData else buf_bytes salt)
                                     (int offset) (ctx_buffer ctx)\<rparr>)
      else (SQLITE_OK, ctx))"

definition codec_write ::
    "'p codec_ctx \<Rightarrow> byte list \<Rightarrow> u32 \<Rightarrow> int \<Rightarrow> ('p, 'a) sc_state_scheme
      \<Rightarrow> codec_ret \<times> byte list \<times> 'p codec_ctx \<times> ('p, 'a) sc_state_scheme" where
  "codec_write ctx pData pgno cctx st =
     (let offset = codec_offset ctx pgno;
          (rc, ctx) = write_header ctx pData pgno st
      in
      if rc \<noteq> SQLITE_OK then
        let (ctx, st) = sqlcipher_codec_ctx_set_error ctx rc st in (Ret_Null, pData, ctx, st)
      else
      let (rc, ctx) = page_cipher_at st ctx cctx pgno CIPHER_ENCRYPT offset pData
      in
      if rc \<noteq> SQLITE_OK then
        let (ctx, st) = sqlcipher_codec_ctx_set_error (wipe_buffer offset ctx) rc st
        in (Ret_Null, pData, ctx, st)
      else (Ret_Buffer, pData, ctx\<lparr>ctx_flags := flag_set (ctx_flags ctx) CIPHER_FLAG_KEY_USED\<rparr>, st))"

definition sqlite3Codec ::
    "xmalloc \<Rightarrow> 'p codec_ctx \<Rightarrow> byte list \<Rightarrow> u32 \<Rightarrow> int \<Rightarrow> ('p, 'a) sc_state_scheme
      \<Rightarrow> codec_ret \<times> byte list \<times> 'p codec_ctx \<times> ('p, 'a) sc_state_scheme" where
  "sqlite3Codec xMalloc ctx pData pgno mode st =
     (if ctx_error ctx \<noteq> SQLITE_OK then
        let (ctx, st) = sqlcipher_codec_ctx_set_error ctx (ctx_error ctx) st in (Ret_Null, pData, ctx, st)
      else
      let (rc, ctx, st) = sqlcipher_codec_key_derive xMalloc ctx st
      in
      if rc \<noteq> SQLITE_OK then
        let (ctx, st) = sqlcipher_codec_ctx_set_error ctx rc st in (Ret_Null, pData, ctx, st)
      else if plaintext_header_sz ctx < 0 then
        let (ctx, st) = sqlcipher_codec_ctx_set_error ctx SQLITE_ERROR st in (Ret_Null, pData, ctx, st)
      else if mode = CODEC_READ_OP then codec_read ctx pData pgno st
      else if mode = CODEC_WRITE_OP then codec_write ctx pData pgno CIPHER_WRITE_CTX st
      else if mode = CODEC_JOURNAL_OP then codec_write ctx pData pgno CIPHER_READ_CTX st
      else
        let (ctx, st) = sqlcipher_codec_ctx_set_error ctx SQLITE_ERROR st in (Ret_Data, pData, ctx, st))"

section \<open>Lemmas\<close>

subsection \<open>What the page cipher leaves alone\<close>

lemma check_page_hmac_ctx: "snd (snd (check_page_hmac st ctx c pgno n off inp out)) = c"
  by (simp add: check_page_hmac_def page_hmac_eq Let_def case_prod_beta)

lemma cipher_page_data_ctx: "snd (snd (cipher_page_data st ctx c mode n inp out)) = c"
  by (simp add: cipher_page_data_eq case_prod_beta)

lemma page_hmac_ctx: "snd (snd (sqlcipher_page_hmac st ctx c pgno inp)) = c"
  by (simp add: page_hmac_eq case_prod_beta)

lemma page_cipher_ctx:
  assumes run: "sqlcipher_page_cipher st ctx f pgno mode page_n inp out = (rc, out', ctx')" and c: "sub_ctx f ctx = Some c"
  shows "ctx' = ctx\<lparr>provider_ctx := provider_ctx ctx'\<rparr>"
proof -
  obtain rr bs pc where r: "p_random (ctx_provider ctx) (provider_ctx ctx) (nat (reserve_sz ctx)) = (rr, bs, pc)"
    by (metis prod.exhaust)
  have "ctx' = ctx \<or> ctx' = ctx\<lparr>provider_ctx := pc\<rparr>"
  proof (cases "mode = CIPHER_ENCRYPT")
    case True
    then show ?thesis
      using run c by (auto simp: sqlcipher_page_cipher_def Let_def r cipher_page_data_ctx page_hmac_ctx case_prod_beta
          split: if_splits)
  next
    case False
    then show ?thesis
      using run c by (auto simp: sqlcipher_page_cipher_def Let_def check_page_hmac_ctx cipher_page_data_ctx case_prod_beta
          split: if_splits hmac_verdict.splits)
  qed
  then show ?thesis by auto
qed

lemma page_cipher_at_ctx:
  assumes run: "page_cipher_at st ctx f pgno mode off pData = (rc, ctx')" and c: "sub_ctx f ctx = Some c"
  shows "ctx' = ctx\<lparr>provider_ctx := provider_ctx ctx', ctx_buffer := ctx_buffer ctx'\<rparr>"
    "rc = SQLITE_OK \<or> rc = SQLITE_ERROR"
proof -
  obtain rc1 out ctx1 where p: "sqlcipher_page_cipher st ctx f pgno mode (page_sz ctx - int off) (drop off pData)
      (drop off (buf_bytes (ctx_buffer ctx))) = (rc1, out, ctx1)" by (metis prod.exhaust)
  obtain pc where "ctx1 = ctx\<lparr>provider_ctx := pc\<rparr>" using page_cipher_ctx [OF p c] by blast
  moreover obtain B where "ctx' = ctx1\<lparr>ctx_buffer := B\<rparr>" and rc: "rc = rc1"
    using run by (auto simp: page_cipher_at_def p)
  ultimately show "ctx' = ctx\<lparr>provider_ctx := provider_ctx ctx', ctx_buffer := ctx_buffer ctx'\<rparr>" by simp
  show "rc = SQLITE_OK \<or> rc = SQLITE_ERROR" using page_cipher_error [OF p _ c] rc by blast
qed

lemma page_cipher_at_frame:
  assumes "page_cipher_at st ctx f pgno mode off pData = (rc, ctx')" and "sub_ctx f ctx = Some c"
  shows "ctx_frame ctx ctx'" "read_ctx ctx' = read_ctx ctx" "write_ctx ctx' = write_ctx ctx"
    "ctx_flags ctx' = ctx_flags ctx" "kdf_salt ctx' = kdf_salt ctx"
proof -
  obtain pc B where "ctx' = ctx\<lparr>provider_ctx := pc, ctx_buffer := B\<rparr>"
    using page_cipher_at_ctx(1) [OF assms] by blast
  then show "ctx_frame ctx ctx'" "read_ctx ctx' = read_ctx ctx" "write_ctx ctx' = write_ctx ctx"
    "ctx_flags ctx' = ctx_flags ctx" "kdf_salt ctx' = kdf_salt ctx" by (simp_all add: ctx_frame_def)
qed

lemma get_kdf_salt_frame:
  assumes "sqlcipher_codec_ctx_get_kdf_salt ctx st = (rc, salt, ctx')"
  shows "ctx_keep ctx ctx'" "rc = SQLITE_OK \<or> rc = SQLITE_ERROR" "salt = kdf_salt ctx'"
proof -
  obtain r x where i: "sqlcipher_codec_ctx_init_kdf_salt ctx st = (r, x)" by fastforce
  have "r = SQLITE_OK \<or> r = SQLITE_ERROR"
    using i by (auto simp: sqlcipher_codec_ctx_init_kdf_salt_def Let_def case_prod_beta split: if_splits)
  then show "ctx_keep ctx ctx'" "rc = SQLITE_OK \<or> rc = SQLITE_ERROR" "salt = kdf_salt ctx'"
    using assms init_kdf_salt_frame [OF i]
    by (auto simp: sqlcipher_codec_ctx_get_kdf_salt_def i Let_def split: if_splits)
qed

subsection \<open>Error states\<close>

text \<open>The codec has failed for good: the context carries the code, the pager is in its error state
  with the same code.\<close>

definition codec_failed :: "'p codec_ctx \<Rightarrow> ('p, 'a) sc_state_scheme \<Rightarrow> bool" where
  "codec_failed ctx st \<longleftrightarrow> ctx_error ctx \<noteq> SQLITE_OK
     \<and> pager_errCode (bt_store st (pBt ctx)) = ctx_error ctx
     \<and> pager_eState_error (bt_store st (pBt ctx)) \<and> db_errCode (bt_store st (pBt ctx)) = ctx_error ctx"

lemma set_error_failed:
  "error \<noteq> SQLITE_OK \<Longrightarrow> sqlcipher_codec_ctx_set_error ctx error st = (ctx', st') \<Longrightarrow> codec_failed ctx' st'"
  by (auto simp: sqlcipher_codec_ctx_set_error_def codec_failed_def sqlite3pager_error_def)

text \<open>The header of page 1 before encryption.\<close>

lemma write_header_frame:
  assumes "write_header ctx pData pgno st = (rc, ctx')"
  shows "ctx_frame ctx ctx'" "read_ctx ctx' = read_ctx ctx" "write_ctx ctx' = write_ctx ctx"
    "rc = SQLITE_OK \<or> rc = SQLITE_ERROR"
proof -
  obtain r salt x where g: "sqlcipher_codec_ctx_get_kdf_salt ctx st = (r, salt, x)" by (metis prod.exhaust)
  note k = get_kdf_salt_frame [OF g]
  have "ctx_frame x (x\<lparr>ctx_buffer := B\<rparr>)" for B by (simp add: ctx_frame_def)
  then have "ctx_frame ctx (x\<lparr>ctx_buffer := B\<rparr>)" for B
    using k(1) ctx_keep_frame ctx_frame_trans by blast
  then show "ctx_frame ctx ctx'" "read_ctx ctx' = read_ctx ctx" "write_ctx ctx' = write_ctx ctx"
    "rc = SQLITE_OK \<or> rc = SQLITE_ERROR"
    using assms k ctx_keep_frame [OF k(1)] by (auto simp: write_header_def g split: if_splits)
qed

lemma codec_write_contract:
  assumes run: "codec_write ctx pData pgno cctx st = (ret, d', ctx', st')"
    and ok: "ctx_error ctx = SQLITE_OK" and c: "sub_ctx cctx ctx = Some c"
  shows "d' = pData \<and> (ret = Ret_Buffer \<and> ctx_error ctx' = SQLITE_OK \<and> st' = st \<and> key_used ctx'
    \<or> ret = Ret_Null \<and> codec_failed ctx' st')"
proof -
  obtain rc1 ctx1 where h: "write_header ctx pData pgno st = (rc1, ctx1)" by fastforce
  note f1 = write_header_frame [OF h]
  have c1: "sub_ctx cctx ctx1 = Some c" using c f1 by (auto simp: sub_ctx_def)
  obtain rc2 ctx2 where p: "page_cipher_at st ctx1 cctx pgno CIPHER_ENCRYPT (codec_offset ctx pgno) pData = (rc2, ctx2)"
    by fastforce
  note f2 = page_cipher_at_frame [OF p c1] and rc2 = page_cipher_at_ctx(2) [OF p c1]
  have "ctx_error ctx2 = SQLITE_OK"
    using ok ctx_frame_fields [OF f1(1)] ctx_frame_fields [OF f2(1)] by simp
  moreover obtain e1 s1 where e1: "sqlcipher_codec_ctx_set_error ctx1 rc1 st = (e1, s1)" by fastforce
  moreover obtain e2 s2 where e2: "sqlcipher_codec_ctx_set_error (wipe_buffer (codec_offset ctx pgno) ctx2) rc2 st = (e2, s2)"
    by fastforce
  ultimately show ?thesis
    using run set_error_failed [OF _ e1] set_error_failed [OF _ e2]
    by (auto simp: codec_write_def Let_def h p key_used_def flag_get_set split: if_splits)
qed

subsection \<open>A context with its keys\<close>

text \<open>Both cipher contexts hold their derived keys.\<close>

definition codec_keyed :: "'p codec_ctx \<Rightarrow> cipher_ctx \<Rightarrow> cipher_ctx \<Rightarrow> bool" where
  "codec_keyed ctx r w \<longleftrightarrow> read_ctx ctx = Some r \<and> write_ctx ctx = Some w \<and> derive_key r = 0 \<and> derive_key w = 0"

lemma sc_free_globals [simp]: "shield_mask (sc_free b n st) = shield_mask st" "bt_store (sc_free b n st) = bt_store st"
  by (auto simp: sc_free_def sqlcipher_free_def sqlcipher_internal_free_def Let_def split: option.splits prod.splits)

lemma wipe_pass_globals:
  "wipe_pass xMalloc f ctx st = (ctx', st') \<Longrightarrow> shield_mask st' = shield_mask st \<and> bt_store st' = bt_store st"
  by (auto simp: wipe_pass_def sqlcipher_cipher_ctx_set_pass_def Let_def split: option.splits)

lemma keyed_key_derive:
  assumes k: "codec_keyed ctx r w"
  shows "\<exists>r' w' st'. sqlcipher_codec_key_derive xMalloc ctx st
      = (SQLITE_OK, ctx\<lparr>read_ctx := Some r', write_ctx := Some w'\<rparr>, st')
    \<and> derive_key r' = 0 \<and> derive_key w' = 0 \<and> same_keys r r' \<and> same_keys w w'
    \<and> (\<forall>c. cipher_ctx_ok c w' = cipher_ctx_ok c w)
    \<and> shield_mask st' = shield_mask st \<and> bt_store st' = bt_store st"
proof -
  have stages: "derive_read_stage ctx st = (SQLITE_OK, ctx, st)" "derive_write_stage xMalloc ctx st = (SQLITE_OK, ctx, st)"
    using k by (simp_all add: codec_keyed_def derive_read_stage_def derive_write_stage_def needs_derive_def sub_ctx_def)
  show ?thesis
  proof (cases "store_pass ctx = 1")
    case True
    then show ?thesis using stages k
      by (intro exI [of _ r] exI [of _ w] exI [of _ st])
        (auto simp: sqlcipher_codec_key_derive_def codec_keyed_def same_keys_def)
  next
    case False
    obtain ctx1 st1 where p1: "wipe_pass xMalloc CIPHER_READ_CTX ctx st = (ctx1, st1)" by fastforce
    have ctx1: "ctx1 = put_sub_ctx 0 (r\<lparr>cc_pass := None, pass_sz := 0\<rparr>) ctx"
      using k by (intro wipe_pass_eq [OF _ p1]) (simp add: sub_ctx_def codec_keyed_def)
    obtain ctx2 st2 where p2: "wipe_pass xMalloc CIPHER_WRITE_CTX ctx1 st1 = (ctx2, st2)" by fastforce
    have ctx2: "ctx2 = put_sub_ctx 1 (w\<lparr>cc_pass := None, pass_sz := 0\<rparr>) ctx1"
      using k by (intro wipe_pass_eq [OF _ p2]) (simp add: sub_ctx_def codec_keyed_def ctx1 put_sub_ctx_def)
    show ?thesis
      using stages False k p1 p2 wipe_pass_globals [OF p1] wipe_pass_globals [OF p2]
      by (intro exI [of _ "r\<lparr>cc_pass := None, pass_sz := 0\<rparr>"] exI [of _ "w\<lparr>cc_pass := None, pass_sz := 0\<rparr>"] exI [of _ st2])
        (auto simp: sqlcipher_codec_key_derive_def codec_keyed_def same_keys_def cipher_ctx_ok_def ctx1 ctx2 put_sub_ctx_def)
  qed
qed

text \<open>A context ready for pages: well-formed sizes, keys and buffers, the salt known, the header and the
  page divided into whole cipher blocks.\<close>

definition codec_ready :: "'p codec_ctx \<Rightarrow> cipher_ctx \<Rightarrow> cipher_ctx \<Rightarrow> bool" where
  "codec_ready ctx r w \<longleftrightarrow>
     codec_keyed ctx r w \<and> cipher_ctx_ok ctx w \<and> same_keys w r \<and> ctx_error ctx = SQLITE_OK \<and> sizes_ok ctx
     \<and> ctx_buffer ctx \<noteq> None \<and> int (length (buf_bytes (ctx_buffer ctx))) = page_sz ctx
     \<and> salt_ok ctx \<and> kdf_salt_sz ctx = FILE_HEADER_SZ \<and> flag_get (ctx_flags ctx) CIPHER_FLAG_HAS_KDF_SALT
     \<and> 0 \<le> plaintext_header_sz ctx \<and> plaintext_header_sz ctx \<le> page_sz ctx - reserve_sz ctx
     \<and> FILE_HEADER_SZ \<le> page_sz ctx - reserve_sz ctx
     \<and> block_sz ctx dvd FILE_HEADER_SZ \<and> block_sz ctx dvd plaintext_header_sz ctx
     \<and> block_sz ctx dvd page_sz ctx - reserve_sz ctx"

subsection \<open>Writing and reading back\<close>

lemma buf_update_exists [simp]: "\<exists>y. buf_update f (Some b) = Some y"
  by (simp add: buf_update_def)

lemma page_encrypt_length:
  assumes prov: "provider_ok (ctx_provider ctx)" and sizes: "sizes_ok ctx"
    and c: "sub_ctx for_ctx ctx = Some c" "cipher_ctx_ok ctx c"
    and geo: "reserve_sz ctx \<le> page_n" "block_sz ctx dvd page_n - reserve_sz ctx"
    and lens: "length inp = nat page_n" "length out = nat page_n"
    and enc: "sqlcipher_page_cipher st ctx for_ctx pgno CIPHER_ENCRYPT page_n inp out = (SQLITE_OK, page, ctx')"
  shows "length page = nat page_n" "same_codec ctx ctx'"
proof -
  have "length page = nat page_n \<and> same_codec ctx ctx'"
  proof (cases "pgno = 1 \<and> page_n - reserve_sz ctx = 0")
    case True
    then show ?thesis using enc c lens by (auto simp: sqlcipher_page_cipher_def same_codec_def)
  next
    case False
    show ?thesis
      by (rule page_encrypt_layout [OF prov sizes c geo lens enc False refl refl]) (use lens in auto)
  qed
  then show "length page = nat page_n" "same_codec ctx ctx'" by blast+
qed

definition page_header :: "'p codec_ctx \<Rightarrow> byte list \<Rightarrow> u32 \<Rightarrow> byte list" where
  "page_header ctx pData pgno =
     (if pgno = 1 then (if plaintext_header_sz ctx \<noteq> 0 then take (codec_offset ctx pgno) pData
                        else buf_bytes (kdf_salt ctx)) else [])"

lemma ready_sizes:
  assumes "codec_ready ctx r w"
  shows "int (codec_offset ctx pgno) \<le> page_sz ctx - reserve_sz ctx"
    "block_sz ctx dvd (page_sz ctx - int (codec_offset ctx pgno)) - reserve_sz ctx"
    "0 \<le> reserve_sz ctx"
proof -
  have "block_sz ctx dvd int (codec_offset ctx pgno)"
    using assms by (auto simp: codec_ready_def codec_offset_def)
  then have "block_sz ctx dvd (page_sz ctx - reserve_sz ctx) - int (codec_offset ctx pgno)"
    using assms by (auto simp: codec_ready_def intro: dvd_diff)
  then show "block_sz ctx dvd (page_sz ctx - int (codec_offset ctx pgno)) - reserve_sz ctx"
    by (simp add: algebra_simps)
  show "int (codec_offset ctx pgno) \<le> page_sz ctx - reserve_sz ctx" "0 \<le> reserve_sz ctx"
    using assms by (auto simp: codec_ready_def codec_offset_def sizes_ok_def)
qed

lemma length_page_header:
  assumes "codec_ready ctx r w" and "length pData = nat (page_sz ctx)"
  shows "length (page_header ctx pData pgno) = codec_offset ctx pgno"
  using assms ready_sizes(1,2) [OF assms(1), of pgno] ready_sizes(3) [OF assms(1)]
  by (auto simp: page_header_def codec_offset_def codec_ready_def salt_ok_def split: if_splits)

lemma write_header_ready:
  assumes ready: "codec_ready ctx r w" and len: "length pData = nat (page_sz ctx)"
  shows "\<exists>B. write_header ctx pData pgno st = (SQLITE_OK, ctx\<lparr>ctx_buffer := B\<rparr>) \<and> B \<noteq> None
    \<and> int (length (buf_bytes B)) = page_sz ctx
    \<and> take (codec_offset ctx pgno) (buf_bytes B) = page_header ctx pData pgno"
proof (cases "pgno = 1")
  case True
  define src where "src = (if plaintext_header_sz ctx \<noteq> 0 then pData else buf_bytes (kdf_salt ctx))"
  define off where "off = codec_offset ctx pgno"
  have hdr: "take off src = page_header ctx pData pgno" "length (take off src) = off"
    using ready length_page_header [OF ready len, of pgno] True
    by (auto simp: src_def page_header_def off_def codec_ready_def salt_ok_def codec_offset_def)
  have salt: "sqlcipher_codec_ctx_get_kdf_salt ctx st = (SQLITE_OK, kdf_salt ctx, ctx)"
    using ready by (simp add: sqlcipher_codec_ctx_get_kdf_salt_def codec_ready_def)
  have off: "off \<le> length (buf_bytes (ctx_buffer ctx))" and some: "ctx_buffer ctx \<noteq> None"
    using ready ready_sizes(1,2) [OF ready, of pgno] ready_sizes(3) [OF ready] by (auto simp: codec_ready_def off_def)
  show ?thesis
    using True salt hdr off some ready
    by (intro exI [of _ "buf_copy src (int off) (ctx_buffer ctx)"])
      (auto simp: write_header_def src_def off_def buf_copy_def buf_bytes_update codec_ready_def take_buf_write_0)
next
  case False
  then show ?thesis using ready
    by (intro exI [of _ "ctx_buffer ctx"]) (auto simp: write_header_def page_header_def codec_offset_def codec_ready_def)
qed

lemma codec_write_ready:
  assumes ready: "codec_ready ctx r w" and prov: "provider_ok (ctx_provider ctx)"
    and len: "length pData = nat (page_sz ctx)"
    and run: "codec_write ctx pData pgno CIPHER_WRITE_CTX st = (Ret_Buffer, d', ctx', st')"
  obtains B enc ctx1 where
    "int (length (buf_bytes B)) = page_sz ctx"
    "sqlcipher_page_cipher st (ctx\<lparr>ctx_buffer := B\<rparr>) CIPHER_WRITE_CTX pgno CIPHER_ENCRYPT
       (page_sz ctx - int (codec_offset ctx pgno)) (drop (codec_offset ctx pgno) pData)
       (drop (codec_offset ctx pgno) (buf_bytes B)) = (SQLITE_OK, enc, ctx1)"
    "buf_bytes (ctx_buffer ctx') = page_header ctx pData pgno @ enc" "ctx_buffer ctx' \<noteq> None"
    "ctx' = ctx\<lparr>provider_ctx := provider_ctx ctx1, ctx_buffer := ctx_buffer ctx',
       ctx_flags := flag_set (ctx_flags ctx) CIPHER_FLAG_KEY_USED\<rparr>" "st' = st"
proof -
  define off where "off = codec_offset ctx pgno"
  obtain B where h: "write_header ctx pData pgno st = (SQLITE_OK, ctx\<lparr>ctx_buffer := B\<rparr>)" and B: "B \<noteq> None"
    "int (length (buf_bytes B)) = page_sz ctx" "take off (buf_bytes B) = page_header ctx pData pgno"
    using write_header_ready [OF ready len] unfolding off_def by blast
  let ?ctx = "ctx\<lparr>ctx_buffer := B\<rparr>"
  obtain rc enc ctx1 where p: "sqlcipher_page_cipher st ?ctx CIPHER_WRITE_CTX pgno CIPHER_ENCRYPT
      (page_sz ctx - int off) (drop off pData) (drop off (buf_bytes B)) = (rc, enc, ctx1)" by (metis prod.exhaust)
  have w: "sub_ctx CIPHER_WRITE_CTX ?ctx = Some w" using ready by (simp add: sub_ctx_def codec_ready_def codec_keyed_def)
  obtain pc where ctx1: "ctx1 = ?ctx\<lparr>provider_ctx := pc\<rparr>" using page_cipher_ctx [OF p w] by blast
  have rc: "rc = SQLITE_OK"
    using run by (auto simp: codec_write_def h page_cipher_at_def p off_def [symmetric] case_prod_beta split: if_splits)
  show thesis
    using run B rc p
    by (intro that [of B enc ctx1])
      (auto simp: codec_write_def h page_cipher_at_def off_def [symmetric] ctx1 buf_bytes_update)
qed

text \<open>What reading a written page returns: the header string replaces the salt at the start of page 1.\<close>

definition page_content :: "'p codec_ctx \<Rightarrow> byte list \<Rightarrow> u32 \<Rightarrow> byte list" where
  "page_content ctx pData pgno =
     (let usable = take (nat (page_sz ctx - reserve_sz ctx)) pData
      in if pgno = 1 \<and> plaintext_header_sz ctx = 0 then sqlite_file_header @ drop 16 usable else usable)"

definition read_header :: "'p codec_ctx \<Rightarrow> byte list \<Rightarrow> u32 \<Rightarrow> byte list" where
  "read_header ctx page pgno =
     (if pgno = 1 then (if plaintext_header_sz ctx \<noteq> 0 then take (codec_offset ctx pgno) page
                        else sqlite_file_header) else [])"

lemma length_file_header [simp]: "length sqlite_file_header = 16"
  by (simp add: sqlite_file_header_def)

lemma codec_read_OK:
  assumes r: "sub_ctx CIPHER_READ_CTX ctx = Some r"
    and B: "ctx_buffer ctx \<noteq> None" "int (length (buf_bytes (ctx_buffer ctx))) = page_sz ctx"
    and off: "off = codec_offset ctx pgno" "int off \<le> page_sz ctx" and len: "length page = nat (page_sz ctx)"
    and hdr: "0 \<le> plaintext_header_sz ctx"
    and dec: "\<And>X out. length out = nat (page_sz ctx - int off) \<Longrightarrow>
       \<exists>dec. sqlcipher_page_cipher st (ctx\<lparr>ctx_buffer := X\<rparr>) CIPHER_READ_CTX pgno CIPHER_DECRYPT
         (page_sz ctx - int off) (drop off page) out = (SQLITE_OK, dec, ctx\<lparr>ctx_buffer := X\<rparr>) \<and> take n dec = m"
    and n: "int n \<le> page_sz ctx - int off" "length m = n"
  shows "\<exists>data ctx'. codec_read ctx page pgno st = (Ret_Data, data, ctx', st) \<and> ctx_error ctx' = ctx_error ctx
    \<and> take (off + n) data = read_header ctx page pgno @ m"
proof -
  define H where "H = read_header ctx page pgno"
  have lH: "length H = off" using off len hdr by (auto simp: H_def read_header_def codec_offset_def)
  define X where "X = (if pgno = 1 then buf_update (buf_write 0 H) (ctx_buffer ctx) else ctx_buffer ctx)"
  have X: "X \<noteq> None" "int (length (buf_bytes X)) = page_sz ctx" "take off (buf_bytes X) = H"
  proof -
    have fits: "length H \<le> length (buf_bytes (ctx_buffer ctx))" using B off lH by simp
    have "pgno \<noteq> 1 \<Longrightarrow> off = 0 \<and> H = []" by (simp add: off codec_offset_def H_def read_header_def)
    then show "X \<noteq> None" "int (length (buf_bytes X)) = page_sz ctx" "take off (buf_bytes X) = H"
      using B fits lH by (auto simp: X_def buf_bytes_update take_buf_write_0)
  qed
  have "length (drop off (buf_bytes X)) = nat (page_sz ctx - int off)" using X off by simp
  from dec [OF this, of X] obtain d where d: "sqlcipher_page_cipher st (ctx\<lparr>ctx_buffer := X\<rparr>) CIPHER_READ_CTX pgno
      CIPHER_DECRYPT (page_sz ctx - int off) (drop off page) (drop off (buf_bytes X)) = (SQLITE_OK, d, ctx\<lparr>ctx_buffer := X\<rparr>)"
    and dm: "take n d = m" by blast
  have hd: "(if pgno = 1 then ctx\<lparr>ctx_buffer := buf_copy (if plaintext_header_sz ctx \<noteq> 0 then page else sqlite_file_header)
      (int off) (ctx_buffer ctx)\<rparr> else ctx) = ctx\<lparr>ctx_buffer := X\<rparr>"
    using lH by (auto simp: X_def buf_copy_def H_def read_header_def off codec_offset_def)
  have bd: "buf_bytes (buf_update (\<lambda>x. take off x @ d) X) = H @ d" using X by (simp add: buf_bytes_update)
  define data where "data = buf_write 0 (take (nat (page_sz ctx)) (H @ d)) page"
  have "codec_read ctx page pgno st = (Ret_Data, data, (ctx\<lparr>ctx_buffer := buf_update (\<lambda>x. take off x @ d) X,
      ctx_flags := flag_set (ctx_flags ctx) CIPHER_FLAG_KEY_USED\<rparr>), st)"
    using d by (simp add: codec_read_def page_cipher_at_def off(1) [symmetric] hd Let_def data_def bd)
  moreover have "take (off + n) data = H @ m"
    using dm n lH off len by (auto simp: data_def buf_write_def)
  ultimately show ?thesis by (simp add: H_def)
qed

lemma same_keys_trans: "same_keys a b \<Longrightarrow> same_keys b c \<Longrightarrow> same_keys a c"
  by (simp add: same_keys_def)

lemma hmac_pgno_key_used: "hmac_pgno (flag_set f CIPHER_FLAG_KEY_USED) = hmac_pgno f"
  by (rule ext) (simp add: hmac_pgno_def flag_get_set(2))

lemma page_content_parts:
  assumes ready: "codec_ready ctx r w" and len: "length pData = nat (page_sz ctx)"
    and n: "n = nat ((page_sz ctx - int (codec_offset ctx pgno)) - reserve_sz ctx)"
  shows "page_content ctx pData pgno = (if pgno = 1 \<and> plaintext_header_sz ctx = 0 then sqlite_file_header
      else take (codec_offset ctx pgno) pData) @ take n (drop (codec_offset ctx pgno) pData)"
    and "nat (page_sz ctx - reserve_sz ctx) = codec_offset ctx pgno + n"
proof -
  show sum: "nat (page_sz ctx - reserve_sz ctx) = codec_offset ctx pgno + n"
    using n ready_sizes(1) [OF ready, of pgno] by linarith
  show "page_content ctx pData pgno = (if pgno = 1 \<and> plaintext_header_sz ctx = 0 then sqlite_file_header
      else take (codec_offset ctx pgno) pData) @ take n (drop (codec_offset ctx pgno) pData)"
  proof (cases "pgno = 1 \<and> plaintext_header_sz ctx = 0")
    case True
    then have "codec_offset ctx pgno = 16" by (simp add: codec_offset_def)
    with True show ?thesis by (simp add: page_content_def sum drop_take)
  next
    case False
    then show ?thesis by (simp only: page_content_def sum take_add Let_def if_False simp_thms)
  qed
qed

lemma sizes_ok_buffer [simp]: "sizes_ok (ctx\<lparr>ctx_buffer := B\<rparr>) = sizes_ok ctx"
  by (simp add: sizes_ok_def)

lemma write_then_read:
  assumes ready: "codec_ready ctx r w" and prov: "provider_ok (ctx_provider ctx)"
    and len: "length pData = nat (page_sz ctx)"
    and run: "codec_write ctx pData pgno CIPHER_WRITE_CTX st = (Ret_Buffer, d', ctx1, st1)"
    and ctx2: "ctx2 = ctx1\<lparr>read_ctx := Some r2, write_ctx := Some w2\<rparr>" and r2: "same_keys r r2"
    and st2: "shield_mask st2 = shield_mask st"
  shows "\<exists>data ctx3. codec_read ctx2 (buf_bytes (ctx_buffer ctx1)) pgno st2 = (Ret_Data, data, ctx3, st2)
    \<and> ctx_error ctx3 = SQLITE_OK
    \<and> take (nat (page_sz ctx - reserve_sz ctx)) data = page_content ctx pData pgno"
proof (rule codec_write_ready [OF ready prov len run])
  fix B enc ctxe
  define off where "off = codec_offset ctx pgno"
  define n where "n = nat ((page_sz ctx - int off) - reserve_sz ctx)"
  let ?ctx = "ctx\<lparr>ctx_buffer := B\<rparr>"
  assume B: "int (length (buf_bytes B)) = page_sz ctx"
    and enc: "sqlcipher_page_cipher st ?ctx CIPHER_WRITE_CTX pgno CIPHER_ENCRYPT
       (page_sz ctx - int (codec_offset ctx pgno)) (drop (codec_offset ctx pgno) pData)
       (drop (codec_offset ctx pgno) (buf_bytes B)) = (SQLITE_OK, enc, ctxe)"
    and buf: "buf_bytes (ctx_buffer ctx1) = page_header ctx pData pgno @ enc" "ctx_buffer ctx1 \<noteq> None"
    and ctx1: "ctx1 = ctx\<lparr>provider_ctx := provider_ctx ctxe, ctx_buffer := ctx_buffer ctx1,
       ctx_flags := flag_set (ctx_flags ctx) CIPHER_FLAG_KEY_USED\<rparr>"
  note enc = enc [folded off_def]
  note parts = page_content_parts [OF ready len n_def [unfolded off_def], folded off_def]
  have w: "sub_ctx CIPHER_WRITE_CTX ?ctx = Some w" "cipher_ctx_ok ?ctx w"
    using ready by (simp_all add: sub_ctx_def codec_ready_def codec_keyed_def cipher_ctx_ok_def)
  have sizes: "sizes_ok ?ctx" "provider_ok (ctx_provider ?ctx)"
    using ready prov by (simp_all add: codec_ready_def)
  note rs = ready_sizes(1,2) [OF ready, of pgno, folded off_def] ready_sizes(3) [OF ready]
  have geo: "reserve_sz ?ctx \<le> page_sz ctx - int off" "block_sz ?ctx dvd page_sz ctx - int off - reserve_sz ?ctx"
    using rs by simp_all
  have lens: "length (drop off pData) = nat (page_sz ctx - int off)"
    "length (drop off (buf_bytes B)) = nat (page_sz ctx - int off)"
    using len B by simp_all
  note le = page_encrypt_length [OF sizes(2,1) w geo lens enc]
  obtain pc where ctxe: "ctxe = ?ctx\<lparr>provider_ctx := pc\<rparr>" using page_cipher_ctx [OF enc w(1)] by blast
  define page where "page = buf_bytes (ctx_buffer ctx1)"
  have lh: "length (page_header ctx pData pgno) = off" using length_page_header [OF ready len] by (simp add: off_def)
  have page: "drop off page = enc" "length page = nat (page_sz ctx)" "take off page = page_header ctx pData pgno"
    using buf lh le(1) rs by (simp_all add: page_def)
  have f2: "page_sz ctx2 = page_sz ctx" "ctx_buffer ctx2 = ctx_buffer ctx1" "ctx_error ctx2 = ctx_error ctx"
    "plaintext_header_sz ctx2 = plaintext_header_sz ctx" "sub_ctx CIPHER_READ_CTX ctx2 = Some r2"
    by (subst ctx2, subst ctx1, simp add: sub_ctx_def)+
  have off2: "codec_offset ctx2 pgno = off" by (simp add: codec_offset_def off_def f2)
  obtain B1 where c1: "ctx1 = ctx\<lparr>provider_ctx := pc, ctx_buffer := B1,
       ctx_flags := flag_set (ctx_flags ctx) CIPHER_FLAG_KEY_USED\<rparr>" using ctx1 by (auto simp: ctxe)
  have same: "same_codec ctxe (ctx2\<lparr>ctx_buffer := X\<rparr>)" for X
    unfolding ctxe ctx2 c1 by (simp add: same_codec_def ctxe ctx2 flag_get_set(2) hmac_pgno_key_used)
  have wr: "same_keys w r2" using ready r2 same_keys_trans by (auto simp: codec_ready_def)
  have dec: "\<exists>dec. sqlcipher_page_cipher st2 (ctx2\<lparr>ctx_buffer := X\<rparr>) CIPHER_READ_CTX pgno CIPHER_DECRYPT
      (page_sz ctx2 - int off) (drop off page) out = (SQLITE_OK, dec, ctx2\<lparr>ctx_buffer := X\<rparr>)
      \<and> take n dec = take n (drop off pData)" if "length out = nat (page_sz ctx2 - int off)" for X out
    using page_cipher_reopens [OF sizes(2,1) w geo lens that [unfolded f2] enc _ wr same st2, of CIPHER_READ_CTX X] f2 page
    by (simp add: n_def sub_ctx_def)
  have "length (take n (drop off pData)) = n" using lens rs by (simp add: n_def)
  note read_ok = codec_read_OK [OF f2(5) _ _ off2 [symmetric] _ _ _ dec _ this]
  have pre: "ctx_buffer ctx2 \<noteq> None" "int (length (buf_bytes (ctx_buffer ctx2))) = page_sz ctx2"
    "int off \<le> page_sz ctx2" "length page = nat (page_sz ctx2)" "0 \<le> plaintext_header_sz ctx2"
    "int n \<le> page_sz ctx2 - int off"
    using f2 buf(2) page(2) rs ready by (simp_all add: codec_ready_def page_def n_def)
  obtain data ctx3 where rd: "codec_read ctx2 page pgno st2 = (Ret_Data, data, ctx3, st2)"
    "ctx_error ctx3 = ctx_error ctx2" "take (off + n) data = read_header ctx2 page pgno @ take n (drop off pData)"
    using read_ok [OF pre(1-5) _ pre(6)] by blast
  have "read_header ctx2 page pgno = (if pgno = 1 \<and> plaintext_header_sz ctx = 0 then sqlite_file_header else take off pData)"
    using page(3) by (auto simp: read_header_def page_header_def f2 off2) (auto simp: off_def codec_offset_def f2)
  then show ?thesis using rd ready f2 parts by (auto simp: page_def codec_ready_def)
qed

lemma codec_ready_rekeyed:
  assumes ready: "codec_ready ctx r w" and c: "ctx' = ctx\<lparr>read_ctx := Some r', write_ctx := Some w'\<rparr>"
    and k: "derive_key r' = 0" "derive_key w' = 0" "same_keys r r'" "same_keys w w'" "cipher_ctx_ok ctx w'"
  shows "codec_ready ctx' r' w'"
proof -
  have "same_keys w' r'" using ready k by (simp add: codec_ready_def same_keys_def)
  moreover have "sizes_ok ctx' = sizes_ok ctx" "salt_ok ctx' = salt_ok ctx" "cipher_ctx_ok ctx' w' = cipher_ctx_ok ctx w'"
    unfolding c by (simp_all add: sizes_ok_def salt_ok_def cipher_ctx_ok_def)
  ultimately show ?thesis using ready k by (simp add: codec_ready_def codec_keyed_def c)
qed

text \<open>Outside an error state the callback first settles the keys and then does the operation.\<close>

lemma codec_dispatch:
  assumes "ctx_error ctx = SQLITE_OK" and "sqlcipher_codec_key_derive xMalloc ctx st = (SQLITE_OK, ctx0, st0)"
    and "0 \<le> plaintext_header_sz ctx0"
  shows "sqlite3Codec xMalloc ctx pData pgno CODEC_READ_OP st = codec_read ctx0 pData pgno st0"
    "sqlite3Codec xMalloc ctx pData pgno CODEC_WRITE_OP st = codec_write ctx0 pData pgno CIPHER_WRITE_CTX st0"
    "sqlite3Codec xMalloc ctx pData pgno CODEC_JOURNAL_OP st = codec_write ctx0 pData pgno CIPHER_READ_CTX st0"
  using assms by (simp_all add: sqlite3Codec_def)

lemma codec_write_then_read:
  assumes ready: "codec_ready ctx r w" and prov: "provider_ok (ctx_provider ctx)"
    and len: "length pData = nat (page_sz ctx)"
    and run: "sqlite3Codec xMalloc ctx pData pgno CODEC_WRITE_OP st = (Ret_Buffer, d', ctx1, st1)"
  shows "\<exists>data ctx3 st3. sqlite3Codec xMalloc ctx1 (buf_bytes (ctx_buffer ctx1)) pgno CODEC_READ_OP st1
      = (Ret_Data, data, ctx3, st3) \<and> ctx_error ctx3 = SQLITE_OK
    \<and> take (nat (page_sz ctx - reserve_sz ctx)) data = page_content ctx pData pgno"
proof -
  obtain r' w' st0 where d0: "sqlcipher_codec_key_derive xMalloc ctx st
      = (SQLITE_OK, ctx\<lparr>read_ctx := Some r', write_ctx := Some w'\<rparr>, st0)"
    and k0: "derive_key r' = 0" "derive_key w' = 0" "same_keys r r'" "same_keys w w'" "cipher_ctx_ok ctx w'"
    using keyed_key_derive [of ctx r w xMalloc st] ready by (auto simp: codec_ready_def)
  define ctx0 where "ctx0 = ctx\<lparr>read_ctx := Some r', write_ctx := Some w'\<rparr>"
  have ready0: "codec_ready ctx0 r' w'" by (rule codec_ready_rekeyed [OF ready ctx0_def k0])
  have w0: "codec_write ctx0 pData pgno CIPHER_WRITE_CTX st0 = (Ret_Buffer, d', ctx1, st1)"
    using run codec_dispatch(2) [OF _ d0] ready by (simp add: codec_ready_def ctx0_def)
  have same: "provider_ok (ctx_provider ctx0)" "length pData = nat (page_sz ctx0)"
    "page_sz ctx0 = page_sz ctx" "reserve_sz ctx0 = reserve_sz ctx" "page_content ctx0 = page_content ctx"
    using prov len by (auto simp: ctx0_def page_content_def fun_eq_iff)
  obtain pc B f where ctx1: "ctx1 = ctx0\<lparr>provider_ctx := pc, ctx_buffer := B, ctx_flags := f\<rparr>" and st1: "st1 = st0"
    by (rule codec_write_ready [OF ready0 same(1,2) w0]) blast
  have k1: "codec_keyed ctx1 r' w'" using ready0 by (simp add: ctx1 codec_ready_def codec_keyed_def)
  obtain r2 w2 st2 where d1: "sqlcipher_codec_key_derive xMalloc ctx1 st1
      = (SQLITE_OK, ctx1\<lparr>read_ctx := Some r2, write_ctx := Some w2\<rparr>, st2)" and k2: "same_keys r' r2"
    "shield_mask st2 = shield_mask st1"
    using keyed_key_derive [OF k1, of xMalloc st1] by auto
  have e1: "ctx_error ctx1 = SQLITE_OK" "0 \<le> plaintext_header_sz (ctx1\<lparr>read_ctx := Some r2, write_ctx := Some w2\<rparr>)"
    using ready0 by (simp_all add: ctx1 codec_ready_def)
  obtain data ctx3 where "codec_read (ctx1\<lparr>read_ctx := Some r2, write_ctx := Some w2\<rparr>) (buf_bytes (ctx_buffer ctx1)) pgno st2
      = (Ret_Data, data, ctx3, st2)" "ctx_error ctx3 = SQLITE_OK"
    "take (nat (page_sz ctx - reserve_sz ctx)) data = page_content ctx pData pgno"
    using write_then_read [OF ready0 same(1,2) w0 refl k2(1) k2(2) [unfolded st1], of w2] same by auto
  then show ?thesis using codec_dispatch(1) [OF e1(1) d1 e1(2)] by auto
qed

lemma codec_encrypt_total:
  assumes run: "sqlite3Codec xMalloc ctx pData pgno mode st = (ret, d', ctx', st')"
    and mode: "mode = CODEC_WRITE_OP \<or> mode = CODEC_JOURNAL_OP"
    and rw: "read_ctx ctx = Some r" "write_ctx ctx = Some w"
  shows "d' = pData \<and> (ret = Ret_Buffer \<and> ctx_error ctx' = SQLITE_OK \<and> key_used ctx'
    \<or> ret = Ret_Null \<and> codec_failed ctx' st')"
proof -
  obtain rc ctx0 st0 where k: "sqlcipher_codec_key_derive xMalloc ctx st = (rc, ctx0, st0)" by (metis prod.exhaust)
  have err: "codec_failed c' s'" if "sqlcipher_codec_ctx_set_error c e s = (c', s')" "e \<noteq> SQLITE_OK"
    for c c' s s' e using set_error_failed that by blast
  show ?thesis
  proof (cases "ctx_error ctx = SQLITE_OK \<and> rc = SQLITE_OK \<and> 0 \<le> plaintext_header_sz ctx0")
    case True
    obtain r' w' where ctx0: "read_ctx ctx0 = Some r'" "write_ctx ctx0 = Some w'" "ctx_frame ctx ctx0"
      using codec_key_derive_OK [OF _ rw] k True by blast
    have e0: "ctx_error ctx0 = SQLITE_OK" using ctx_frame_fields [OF ctx0(3)] True by simp
    have "\<exists>cctx c. codec_write ctx0 pData pgno cctx st0 = (ret, d', ctx', st') \<and> sub_ctx cctx ctx0 = Some c"
      using codec_dispatch(2,3) [of ctx xMalloc st ctx0 st0] True k run mode ctx0 by (auto simp: sub_ctx_def)
    then show ?thesis using codec_write_contract [OF _ e0] by blast
  next
    case False
    then show ?thesis using run k err [of ctx "ctx_error ctx" st] err [of ctx0 rc st0] err [of ctx0 SQLITE_ERROR st0]
      by (auto simp: sqlite3Codec_def split: if_splits prod.splits)
  qed
qed

lemma codec_read_failure:
  assumes run: "codec_read ctx pData pgno st = (ret, data, ctx', st')" and err: "ctx_error ctx' \<noteq> SQLITE_OK"
    and ok: "ctx_error ctx = SQLITE_OK" and c: "sub_ctx CIPHER_READ_CTX ctx = Some c"
    and len: "length pData = nat (page_sz ctx)" "length (buf_bytes (ctx_buffer ctx)) = nat (page_sz ctx)"
    and some: "ctx_buffer ctx \<noteq> None"
  shows "ret = Ret_Data \<and> codec_failed ctx' st'
    \<and> drop (codec_offset ctx pgno) data = replicate (nat (page_sz ctx) - codec_offset ctx pgno) 0"
proof -
  define off where "off = codec_offset ctx pgno"
  define B where "B = (if pgno = 1 then buf_copy (if plaintext_header_sz ctx \<noteq> 0 then pData else sqlite_file_header)
      (int off) (ctx_buffer ctx) else ctx_buffer ctx)"
  have B: "(if pgno = 1 then ctx\<lparr>ctx_buffer := buf_copy (if plaintext_header_sz ctx \<noteq> 0 then pData else sqlite_file_header)
      (int off) (ctx_buffer ctx)\<rparr> else ctx) = ctx\<lparr>ctx_buffer := B\<rparr>" by (simp add: B_def)
  obtain rc ctx1 where p: "page_cipher_at st (ctx\<lparr>ctx_buffer := B\<rparr>) CIPHER_READ_CTX pgno CIPHER_DECRYPT off pData = (rc, ctx1)"
    by fastforce
  have c1: "sub_ctx CIPHER_READ_CTX (ctx\<lparr>ctx_buffer := B\<rparr>) = Some c" using c by (simp add: sub_ctx_def)
  obtain pc B1 where ctx1: "ctx1 = ctx\<lparr>provider_ctx := pc, ctx_buffer := B1\<rparr>"
    using page_cipher_at_ctx(1) [OF p c1] by auto
  obtain e s where e: "sqlcipher_codec_ctx_set_error (wipe_buffer off ctx1) rc st = (e, s)" by fastforce
  have fail: "rc \<noteq> SQLITE_OK" "ctx' = e" "st' = s" "ret = Ret_Data"
    "data = buf_write 0 (take (nat (page_sz ctx)) (buf_bytes (ctx_buffer (wipe_buffer off ctx1)))) pData"
    using run err ok e
    by (auto simp: codec_read_def Let_def off_def [symmetric] B p ctx1 wipe_buffer_def sqlcipher_codec_ctx_set_error_def split: if_splits)
  obtain out where out: "take (nat (page_sz ctx - int off)) out = replicate (nat (page_sz ctx - int off)) 0"
    "B1 = buf_update (\<lambda>d. take off d @ out) B"
  proof -
    obtain out ctx2 where q: "sqlcipher_page_cipher st (ctx\<lparr>ctx_buffer := B\<rparr>) CIPHER_READ_CTX pgno CIPHER_DECRYPT
        (page_sz ctx - int off) (drop off pData) (drop off (buf_bytes B)) = (rc, out, ctx2)"
      and ctx2: "ctx1 = ctx2\<lparr>ctx_buffer := buf_update (\<lambda>d. take off d @ out) B\<rparr>"
      using p by (auto simp: page_cipher_at_def split: prod.splits)
    have "ctx_buffer ctx1 = B1" "ctx_buffer ctx1 = buf_update (\<lambda>d. take off d @ out) B"
      by (simp add: ctx1, simp add: ctx2)
    with page_cipher_error [OF q fail(1) c1] show thesis by (intro that [of out]) auto
  qed
  have some: "B \<noteq> None" using some by (auto simp: B_def buf_copy_def)
  have n: "nat (page_sz ctx - int off) = nat (page_sz ctx) - off" by simp
  have "drop off data = replicate (nat (page_sz ctx) - off) 0"
  proof (cases "off \<le> nat (page_sz ctx)")
    case True
    have lB: "length (buf_bytes B) = nat (page_sz ctx)"
      using True len assms(7) by (auto simp: B_def buf_copy_def buf_bytes_update)
    have "buf_bytes (ctx_buffer (wipe_buffer off ctx1)) = take off (buf_bytes B) @ replicate (nat (page_sz ctx) - off) 0
        @ drop (nat (page_sz ctx) - off) out"
      using some True lB by (simp add: wipe_buffer_def ctx1 out(2) buf_bytes_update sqlcipher_memset_def)
    then show ?thesis using True lB len by (simp add: fail(5) buf_write_def)
  qed (use len in \<open>auto simp: fail(5) buf_write_def\<close>)
  then show ?thesis using fail set_error_failed [OF fail(1) e] by (simp add: off_def)
qed

section \<open>Properties\<close>

text \<open>C6. What the callback wrote it reads back: on a context that holds its keys, with a provider that keeps
  its contract, the page returned by a successful write is read without error to the page that
  was written, up to the reserve at its end; on page 1 the bytes of the salt come back as the
  header string of the file format.\<close>

theorem codec_write_read_roundtrip:
  assumes "codec_ready ctx r w" and "provider_ok (ctx_provider ctx)" and "length pData = nat (page_sz ctx)"
    and "sqlite3Codec xMalloc ctx pData pgno CODEC_WRITE_OP st = (Ret_Buffer, d', ctx1, st1)"
  shows "\<exists>data ctx3 st3. sqlite3Codec xMalloc ctx1 (buf_bytes (ctx_buffer ctx1)) pgno CODEC_READ_OP st1
      = (Ret_Data, data, ctx3, st3) \<and> ctx_error ctx3 = SQLITE_OK
    \<and> take (nat (page_sz ctx - reserve_sz ctx)) data = page_content ctx pData pgno"
  using assms by (rule codec_write_then_read)

lemma sample_codec_ready: "codec_ready sample_codec_ctx sample_cipher_ctx sample_cipher_ctx"
  unfolding codec_ready_def codec_keyed_def
  using sample_codec_ctx_ok by (simp add: same_keys_def salt_ok_def sample_simps)

theorem codec_write_read_roundtrip_witness:
  "\<exists>d' ctx1 st1 data ctx3 st3.
     sqlite3Codec (\<lambda>_ _. None) sample_codec_ctx (sqlite_file_header @ [1, 2, 3, 4, 5, 6, 7, 8, 9, 10, 11, 12, 0, 0, 0, 0]) 1 CODEC_WRITE_OP sample_sc_state
       = (Ret_Buffer, d', ctx1, st1)
     \<and> sqlite3Codec (\<lambda>_ _. None) ctx1 (buf_bytes (ctx_buffer ctx1)) 1 CODEC_READ_OP st1 = (Ret_Data, data, ctx3, st3)
     \<and> take 28 data = sqlite_file_header @ [1, 2, 3, 4, 5, 6, 7, 8, 9, 10, 11, 12]"
proof -
  let ?pData = "sqlite_file_header @ [1, 2, 3, 4, 5, 6, 7, 8, 9, 10, 11, 12, 0, 0, 0, 0]"
  have len: "length ?pData = nat (page_sz sample_codec_ctx)" by code_simp
  have prov: "provider_ok (ctx_provider sample_codec_ctx)" by (simp only: sample_codec_ctx_ok(4) sample_provider_ok)
  have ret: "fst (sqlite3Codec (\<lambda>_ _. None) sample_codec_ctx ?pData 1 CODEC_WRITE_OP sample_sc_state) = Ret_Buffer"
    by code_simp
  then obtain d' ctx1 st1 where w: "sqlite3Codec (\<lambda>_ _. None) sample_codec_ctx ?pData 1 CODEC_WRITE_OP sample_sc_state
      = (Ret_Buffer, d', ctx1, st1)" using ret by (metis fst_conv prod.exhaust)
  have "page_content sample_codec_ctx ?pData 1 = sqlite_file_header @ [1, 2, 3, 4, 5, 6, 7, 8, 9, 10, 11, 12]"
    "nat (page_sz sample_codec_ctx - reserve_sz sample_codec_ctx) = 28"
    by code_simp+
  then show ?thesis using w codec_write_read_roundtrip [OF sample_codec_ready prov len w] by auto
qed

text \<open>Encryption never touches the page the pager holds: after a write or journal operation \<open>pData\<close> is as
  it was, and either the context's buffer is returned, no error is recorded and the key is marked
  as used, or NULL is returned and context, pager and connection are all in the error state.\<close>

theorem codec_encrypt_contract:
  assumes "sqlite3Codec xMalloc ctx pData pgno mode st = (ret, d', ctx', st')"
    and "mode = CODEC_WRITE_OP \<or> mode = CODEC_JOURNAL_OP"
    and "read_ctx ctx = Some r" and "write_ctx ctx = Some w"
  shows "d' = pData \<and> (ret = Ret_Buffer \<and> ctx_error ctx' = SQLITE_OK \<and> key_used ctx'
    \<or> ret = Ret_Null \<and> codec_failed ctx' st')"
  using assms by (rule codec_encrypt_total)

theorem codec_encrypt_contract_witness:
  "\<exists>ctx' st'. sqlite3Codec (\<lambda>_ _. None) (sample_codec_ctx\<lparr>plaintext_header_sz := - 1\<rparr>) (replicate 32 5) 2
       CODEC_JOURNAL_OP sample_sc_state = (Ret_Null, replicate 32 5, ctx', st') \<and> codec_failed ctx' st'"
proof -
  let ?ctx = "sample_codec_ctx\<lparr>plaintext_header_sz := - 1\<rparr>"
  have "fst (sqlite3Codec (\<lambda>_ _. None) ?ctx (replicate 32 5) 2 CODEC_JOURNAL_OP sample_sc_state) = Ret_Null"
    by code_simp
  then obtain d' ctx' st' where run: "sqlite3Codec (\<lambda>_ _. None) ?ctx (replicate 32 5) 2 CODEC_JOURNAL_OP sample_sc_state
      = (Ret_Null, d', ctx', st')" by (metis fst_conv prod.exhaust)
  have "read_ctx ?ctx = Some sample_cipher_ctx" "write_ctx ?ctx = Some sample_cipher_ctx" by (simp_all add: sample_simps)
  then show ?thesis using run codec_encrypt_contract [OF run] by simp
qed

text \<open>An error is final: once the context carries an error code, every further call of the callback, in any
  mode, returns NULL with the page untouched and puts pager and connection in the error state with that
  same code, and no key is derived and no page cipher runs (the provider's state does not change).\<close>

theorem codec_error_sticky:
  assumes "ctx_error ctx \<noteq> SQLITE_OK" and "sqlite3Codec xMalloc ctx pData pgno mode st = (ret, d', ctx', st')"
  shows "ret = Ret_Null \<and> d' = pData \<and> ctx' = ctx \<and> codec_failed ctx' st'"
proof -
  have "codec_failed ctx' st'" if "sqlcipher_codec_ctx_set_error ctx (ctx_error ctx) st = (ctx', st')"
    using set_error_failed assms(1) that by blast
  then show ?thesis using assms by (auto simp: sqlite3Codec_def sqlcipher_codec_ctx_set_error_def split: prod.splits)
qed

theorem codec_error_sticky_witness:
  "\<exists>st'. sqlite3Codec (\<lambda>_ _. None) (sample_codec_ctx\<lparr>ctx_error := SQLITE_ERROR\<rparr>) [1, 2] 1 CODEC_READ_OP sample_sc_state
     = (Ret_Null, [1, 2], sample_codec_ctx\<lparr>ctx_error := SQLITE_ERROR\<rparr>, st')
     \<and> codec_failed (sample_codec_ctx\<lparr>ctx_error := SQLITE_ERROR\<rparr>) st'"
proof -
  let ?ctx = "sample_codec_ctx\<lparr>ctx_error := SQLITE_ERROR\<rparr>"
  obtain ret d' ctx' st' where run: "sqlite3Codec (\<lambda>_ _. None) ?ctx [1, 2] 1 CODEC_READ_OP sample_sc_state = (ret, d', ctx', st')"
    by (metis prod.exhaust)
  then show ?thesis using codec_error_sticky [OF _ run] by auto
qed

text \<open>C7. A page that cannot be decrypted or does not authenticate never reaches the pager: when a read leaves
  an error, everything after the header of the page is zeroed, and context, pager and connection
  are in the error state.\<close>

theorem codec_read_failure_wipes:
  assumes "codec_read ctx pData pgno st = (ret, data, ctx', st')" and "ctx_error ctx' \<noteq> SQLITE_OK"
    and "ctx_error ctx = SQLITE_OK" and "sub_ctx CIPHER_READ_CTX ctx = Some c"
    and "length pData = nat (page_sz ctx)" and "length (buf_bytes (ctx_buffer ctx)) = nat (page_sz ctx)"
    and "ctx_buffer ctx \<noteq> None"
  shows "ret = Ret_Data \<and> codec_failed ctx' st'
    \<and> drop (codec_offset ctx pgno) data = replicate (nat (page_sz ctx) - codec_offset ctx pgno) 0"
  using assms by (rule codec_read_failure)

theorem codec_read_failure_wipes_witness:
  "\<exists>data ctx' st'. codec_read sample_codec_ctx (replicate 32 9) 1 sample_sc_state = (Ret_Data, data, ctx', st')
     \<and> codec_failed ctx' st' \<and> drop 16 data = replicate 16 0"
proof -
  obtain ret data ctx' st' where run: "codec_read sample_codec_ctx (replicate 32 9) 1 sample_sc_state = (ret, data, ctx', st')"
    by (metis prod.exhaust)
  have "ctx_error (fst (snd (snd (codec_read sample_codec_ctx (replicate 32 9) 1 sample_sc_state)))) \<noteq> SQLITE_OK"
    by code_simp
  then have "ctx_error ctx' \<noteq> SQLITE_OK" by (simp add: run)
  moreover have "ctx_error sample_codec_ctx = SQLITE_OK" "length (replicate 32 (9 :: byte)) = nat (page_sz sample_codec_ctx)"
    "length (buf_bytes (ctx_buffer sample_codec_ctx)) = nat (page_sz sample_codec_ctx)" "ctx_buffer sample_codec_ctx \<noteq> None"
    "codec_offset sample_codec_ctx 1 = 16" "nat (page_sz sample_codec_ctx) = 32"
    by (simp_all add: sample_simps codec_offset_def)
  ultimately show ?thesis
    using run codec_read_failure_wipes [OF run _ _ sample_codec_ctx_ok(2)] by simp
qed

end
