(* ===== verification/Codec_Api.thy ===== *)
theory Codec_Api
  imports Codec_Setup Codec_Callback
begin

text \<open>
  The entry points of \<open>src/sqlcipher.c\<close> that put a codec on a database connection: \<open>sqlcipherCodecAttach\<close> with
  \<open>sqlite3_key\<close> and \<open>sqlite3_key_v2\<close>, \<open>sqlite3_rekey\<close> and \<open>sqlite3_rekey_v2\<close>, \<open>sqlcipherCodecGetKey\<close>,
  \<open>sqlite3FreeCodecArg\<close>, the integrity check and \<open>sqlcipher_codec_add_random\<close>; and the setters of
  \<open>src/btree.c\<close> and \<open>src/pager.c\<close> that attaching calls.

  A database connection is a list of entries, each with its name and the index of its B-tree in
  \<open>bt_store\<close> (\<open>None\<close> for a NULL \<open>pBt\<close>); the codec of a pager is \<open>pager_codec\<close>. An access through a NULL
  B-tree or past the end of the entries is undefined behaviour of the C code: the result is then
  \<open>None\<close>. Mutexes and logging are left out. The transaction and page operations that \<open>sqlite3_rekey_v2\<close>
  calls are a record of arbitrary functions on the state.
\<close>

section \<open>Definitions\<close>

subsection \<open>State\<close>

record db_entry =
  zDbSName :: "byte list"
  db_pBt :: "nat option"

record conn =
  aDb :: "db_entry list"
  nextPagesize :: int

record 'p api_state = "'p sc_state" +
  sqlcipher_init :: bool
  sqlcipher_init_error :: int
  pager_codec :: "nat \<Rightarrow> 'p codec_ctx option"
  pager_xCodec :: "nat \<Rightarrow> bool"

text \<open>What the platform answers: the allocator, whether \<open>sqlite3PageMalloc\<close> succeeds, the result codes of
  \<open>sqlite3OsFileSize\<close> and \<open>sqlite3PcacheSetPageSize\<close>.\<close>

record sys_env =
  env_malloc :: xmalloc
  env_page_malloc :: bool
  env_file_size_rc :: int
  env_pcache_rc :: int

abbreviation (input) SQLITE_READONLY :: int where "SQLITE_READONLY \<equiv> 8"
abbreviation (input) SQLITE_MAX_PAGE_SIZE :: int where "SQLITE_MAX_PAGE_SIZE \<equiv> 65536"
abbreviation (input) PENDING_BYTE :: int where "PENDING_BYTE \<equiv> 0x40000000"
abbreviation (input) SQLITE_DEFAULT_AUTOVACUUM :: int where "SQLITE_DEFAULT_AUTOVACUUM \<equiv> 0"

subsection \<open>B-tree and pager settings\<close>

definition sqlite3PagerSetPagesize :: "sys_env \<Rightarrow> int \<Rightarrow> int \<Rightarrow> btree \<Rightarrow> int \<times> int \<times> btree" where
  "sqlite3PagerSetPagesize env pageSize nReserve bt =
     (let (rc, bt) =
        (if (\<not> pager_memDb bt \<or> pager_dbSize bt = 0) \<and> pager_refs bt = 0
            \<and> pageSize \<noteq> 0 \<and> pageSize \<noteq> pager_pageSize bt
         then
           let (rc, nByte) =
                 (if (pager_opened bt \<or> pager_eState_error bt) \<and> fd_open bt
                  then (env_file_size_rc env, int (os_file_size bt)) else (SQLITE_OK, 0));
               rc = (if rc = SQLITE_OK then (if env_page_malloc env then SQLITE_OK else SQLITE_NOMEM) else rc);
               rc = (if rc = SQLITE_OK then env_pcache_rc env else rc)
           in if rc = SQLITE_OK
              then (rc, bt\<lparr>pager_dbSize := (nByte + pageSize - 1) div pageSize mod 2 ^ 32, pager_pageSize := pageSize,
                           pager_lckPgno := PENDING_BYTE div pageSize + 1\<rparr>)
              else (rc, bt)
         else (SQLITE_OK, bt))
      in if rc = SQLITE_OK
         then (rc, pager_pageSize bt,
               bt\<lparr>pager_nReserve := (if nReserve < 0 then pager_nReserve bt else nReserve)\<rparr>)
         else (rc, pager_pageSize bt, bt))"

text \<open>\<open>(pageSize - 1) & pageSize\<close> is taken on a positive \<open>int\<close> of at most 17 bits.\<close>

definition sqlite3BtreeSetPageSize :: "sys_env \<Rightarrow> int \<Rightarrow> int \<Rightarrow> bool \<Rightarrow> btree \<Rightarrow> int \<times> btree" where
  "sqlite3BtreeSetPageSize env pageSize nReserve iFix bt =
     (let bt = bt\<lparr>bt_nReserveWanted := nReserve mod 256\<rparr>;
          x = bt_pageSize bt - bt_usableSize bt;
          nReserve = (if nReserve < x then x else nReserve)
      in if bts_pagesize_fixed bt then (SQLITE_READONLY, bt)
         else
           let bt = (if 512 \<le> pageSize \<and> pageSize \<le> SQLITE_MAX_PAGE_SIZE \<and> (pageSize - 1) AND pageSize = 0
                     then bt\<lparr>bt_pageSize := (if 32 < nReserve \<and> pageSize = 512 then 1024 else pageSize)\<rparr> else bt);
               (rc, ps, bt) = sqlite3PagerSetPagesize env (bt_pageSize bt) nReserve bt;
               bt = bt\<lparr>bt_pageSize := ps, bt_usableSize := (ps - nReserve mod 2 ^ 16) mod 2 ^ 32\<rparr>
           in (rc, if iFix then bt\<lparr>bts_pagesize_fixed := True\<rparr> else bt))"

text \<open>\<open>bts_secure\<close> is the two-bit field \<open>BTS_FAST_SECURE\<close> of the flags, in units of \<open>BTS_SECURE_DELETE\<close>.\<close>

definition sqlite3BtreeSecureDelete :: "int \<Rightarrow> btree \<Rightarrow> int \<times> btree" where
  "sqlite3BtreeSecureDelete newFlag bt =
     (let bt = (if 0 \<le> newFlag then bt\<lparr>bts_secure := newFlag mod 4\<rparr> else bt) in (bts_secure bt, bt))"

definition sqlite3BtreeSetAutoVacuum :: "int \<Rightarrow> btree \<Rightarrow> int \<times> btree" where
  "sqlite3BtreeSetAutoVacuum autoVacuum bt =
     (let av = autoVacuum mod 256
      in if bts_pagesize_fixed bt \<and> (av \<noteq> 0) \<noteq> (bt_autovacuum bt \<noteq> 0) then (SQLITE_READONLY, bt)
         else (SQLITE_OK, bt\<lparr>bt_autovacuum := (if av = 0 then 0 else if av = 2 then 2 else 1)\<rparr>))"

definition on_btree :: "nat \<Rightarrow> (btree \<Rightarrow> btree) \<Rightarrow> ('p, 'a) sc_state_scheme \<Rightarrow> ('p, 'a) sc_state_scheme" where
  "on_btree bt f st = st\<lparr>bt_store := (bt_store st)(bt := f (bt_store st bt))\<rparr>"

definition codec_set_btree_to_codec_pagesize ::
    "sys_env \<Rightarrow> conn \<Rightarrow> nat \<Rightarrow> 'p codec_ctx \<Rightarrow> ('p, 'a) sc_state_scheme \<Rightarrow> int \<times> conn \<times> ('p, 'a) sc_state_scheme" where
  "codec_set_btree_to_codec_pagesize env db bt ctx st =
     (let db = db\<lparr>nextPagesize := page_sz ctx\<rparr>;
          (rc, b) = sqlite3BtreeSetPageSize env (page_sz ctx) (reserve_sz ctx) False
                      ((bt_store st bt)\<lparr>bts_pagesize_fixed := False\<rparr>)
      in (rc, db, on_btree bt (\<lambda>_. b) st))"

definition codec_set_pass_key ::
    "sys_env \<Rightarrow> conn \<Rightarrow> nat \<Rightarrow> byte list option \<Rightarrow> int \<Rightarrow> int \<Rightarrow> ('p, 'a) api_state_scheme
      \<Rightarrow> int \<times> ('p, 'a) api_state_scheme" where
  "codec_set_pass_key env db nDb zKey nKey for_ctx st =
     (case db_pBt (aDb db ! nDb) of
        None \<Rightarrow> (SQLITE_ERROR, st)
      | Some bt \<Rightarrow>
          (case pager_codec st bt of
             None \<Rightarrow> (SQLITE_ERROR, st)
           | Some ctx \<Rightarrow>
               let (rc, ctx, st) = sqlcipher_codec_ctx_set_pass (env_malloc env) ctx zKey nKey for_ctx st
               in (rc, st\<lparr>pager_codec := (pager_codec st)(bt := Some ctx)\<rparr>)))"

subsection \<open>Attaching a codec\<close>

text \<open>\<open>pager_xCodec\<close> tells whether the pager calls the codec: it refuses the callback of an in-memory database but keeps the
  context. The reset of its cache and the choice of the method that reads pages have no state here.\<close>

definition sqlcipherPagerSetCodec :: "nat \<Rightarrow> bool \<Rightarrow> 'p codec_ctx option \<Rightarrow> ('p, 'a) api_state_scheme \<Rightarrow> ('p, 'a) api_state_scheme" where
  "sqlcipherPagerSetCodec bt xCodec ctx st =
     st\<lparr>pager_xCodec := (pager_xCodec st)(bt := (if pager_memDb (bt_store st bt) then False else xCodec)), pager_codec := (pager_codec st)(bt := ctx)\<rparr>"

definition sqlite3FreeCodecArg :: "'p codec_ctx \<Rightarrow> ('p, 'a) api_state_scheme \<Rightarrow> ('p, 'a) api_state_scheme" where
  "sqlite3FreeCodecArg ctx st = sqlcipher_codec_ctx_free ctx st"

definition attach_new_codec ::
    "sys_env \<Rightarrow> conn \<Rightarrow> nat \<Rightarrow> byte list option \<Rightarrow> int \<Rightarrow> ('p, 'a) api_state_scheme
      \<Rightarrow> int \<times> conn \<times> ('p, 'a) api_state_scheme" where
  "attach_new_codec env db bt zKey nKey st =
     (let fd_null = \<not> fd_open (bt_store st bt);
          (rc, ctx, st) = sqlcipher_codec_ctx_init (env_malloc env) bt zKey nKey st
      in case (rc = SQLITE_OK, ctx) of
           (True, Some ctx) \<Rightarrow>
             let st = sqlcipherPagerSetCodec bt True (Some ctx) st;
                 (_, db, st) = codec_set_btree_to_codec_pagesize env db bt ctx st;
                 st = on_btree bt (\<lambda>b. snd (sqlite3BtreeSecureDelete 1 b)) st;
                 st = (if fd_null then st
                       else on_btree bt (\<lambda>b. snd (sqlite3BtreeSetAutoVacuum SQLITE_DEFAULT_AUTOVACUUM b)) st)
             in (rc, db, st)
         | _ \<Rightarrow> (rc, db, on_btree bt (\<lambda>b. (sqlite3pager_error rc b)\<lparr>db_errCode := rc\<rparr>) st))"

definition sqlcipherCodecAttach ::
    "sys_env \<Rightarrow> conn option \<Rightarrow> nat \<Rightarrow> byte list option \<Rightarrow> int \<Rightarrow> ('p, 'a) api_state_scheme
      \<Rightarrow> (int \<times> conn option \<times> ('p, 'a) api_state_scheme) option" where
  "sqlcipherCodecAttach env db nDb zKey nKey st =
     (if \<not> sqlcipher_init st then Some (sqlcipher_init_error st, db, st)
      else if \<not> (nKey \<noteq> 0 \<and> zKey \<noteq> None) then Some (SQLITE_MISUSE, db, st)
      else case db of
        None \<Rightarrow> Some (SQLITE_MISUSE, db, st)
      | Some conn \<Rightarrow>
          if length (aDb conn) \<le> nDb then None
          else case db_pBt (aDb conn ! nDb) of
            None \<Rightarrow> None
          | Some bt \<Rightarrow>
              (case pager_codec st bt of
                 Some ctx \<Rightarrow>
                   if flag_get (ctx_flags ctx) CIPHER_FLAG_KEY_USED then Some (SQLITE_OK, db, st)
                   else if bt_sharable (bt_store st bt) then Some (SQLITE_OK, db, st)
                   else
                     let st = sqlcipherPagerSetCodec bt False None (sqlcipher_codec_ctx_free ctx st);
                         (rc, conn, st) = attach_new_codec env conn bt zKey nKey st
                     in Some (rc, Some conn, st)
               | None \<Rightarrow>
                   let (rc, conn, st) = attach_new_codec env conn bt zKey nKey st in Some (rc, Some conn, st)))"

text \<open>\<open>find_db_from\<close> is the loop of \<open>sqlcipher_find_db_index\<close> from an index on.\<close>

fun find_db_from :: "db_entry list \<Rightarrow> byte list \<Rightarrow> nat \<Rightarrow> nat option" where
  "find_db_from [] zDb i = None"
| "find_db_from (e # es) zDb i = (if zDbSName e = zDb then Some i else find_db_from es zDb (i + 1))"

definition sqlcipher_find_db_index :: "conn \<Rightarrow> byte list option \<Rightarrow> nat" where
  "sqlcipher_find_db_index db zDb =
     (case zDb of None \<Rightarrow> 0 | Some z \<Rightarrow> (case find_db_from (aDb db) z 0 of Some i \<Rightarrow> i | None \<Rightarrow> 0))"

definition zMain :: "byte list" where "zMain = [0x6d, 0x61, 0x69, 0x6e]"

definition sqlite3_key_v2 ::
    "sys_env \<Rightarrow> conn \<Rightarrow> byte list option \<Rightarrow> byte list option \<Rightarrow> int \<Rightarrow> ('p, 'a) api_state_scheme
      \<Rightarrow> (int \<times> conn option \<times> ('p, 'a) api_state_scheme) option" where
  "sqlite3_key_v2 env db zDb pKey nKey st =
     sqlcipherCodecAttach env (Some db) (sqlcipher_find_db_index db zDb) pKey nKey st"

definition sqlite3_key ::
    "sys_env \<Rightarrow> conn \<Rightarrow> byte list option \<Rightarrow> int \<Rightarrow> ('p, 'a) api_state_scheme
      \<Rightarrow> (int \<times> conn option \<times> ('p, 'a) api_state_scheme) option" where
  "sqlite3_key env db pKey nKey st = sqlite3_key_v2 env db (Some zMain) pKey nKey st"

subsection \<open>Re-keying\<close>

record 's tx_ops =
  tx_begin :: "nat \<Rightarrow> 's \<Rightarrow> int \<times> 's"
  tx_pagecount :: "nat \<Rightarrow> 's \<Rightarrow> nat"
  tx_get :: "nat \<Rightarrow> nat \<Rightarrow> 's \<Rightarrow> int \<times> 's"
  tx_write :: "nat \<Rightarrow> nat \<Rightarrow> 's \<Rightarrow> int \<times> 's"
  tx_unref :: "nat \<Rightarrow> nat \<Rightarrow> 's \<Rightarrow> 's"
  tx_commit :: "nat \<Rightarrow> 's \<Rightarrow> int \<times> 's"
  tx_rollback :: "nat \<Rightarrow> 's \<Rightarrow> 's"

definition sqlite3pager_is_sj_pgno :: "btree \<Rightarrow> nat \<Rightarrow> bool" where
  "sqlite3pager_is_sj_pgno bt pgno \<longleftrightarrow> pager_lckPgno bt = int pgno"

fun rekey_pages ::
    "('p, 'a) api_state_scheme tx_ops \<Rightarrow> nat \<Rightarrow> nat \<Rightarrow> nat \<Rightarrow> int \<Rightarrow> ('p, 'a) api_state_scheme
      \<Rightarrow> int \<times> ('p, 'a) api_state_scheme" where
  "rekey_pages ops bt pgno 0 rc st = (rc, st)"
| "rekey_pages ops bt pgno (Suc left) rc st =
     (if rc \<noteq> SQLITE_OK then (rc, st)
      else if sqlite3pager_is_sj_pgno (bt_store st bt) pgno then rekey_pages ops bt (pgno + 1) left rc st
      else
        let (rc, st) = tx_get ops bt pgno st
        in if rc \<noteq> SQLITE_OK then rekey_pages ops bt (pgno + 1) left rc st
           else
             let (rc, st) = tx_write ops bt pgno st;
                 st = (if rc = SQLITE_OK then tx_unref ops bt pgno st else st)
             in rekey_pages ops bt (pgno + 1) left rc st)"

definition key_copy_on ::
    "sys_env \<Rightarrow> nat \<Rightarrow> int \<Rightarrow> ('p, 'a) api_state_scheme \<Rightarrow> ('p, 'a) api_state_scheme" where
  "key_copy_on env bt source st =
     (case pager_codec st bt of
        None \<Rightarrow> st
      | Some ctx \<Rightarrow>
          let (_, ctx, st) = sqlcipher_codec_key_copy (env_malloc env) ctx source st
          in st\<lparr>pager_codec := (pager_codec st)(bt := Some ctx)\<rparr>)"

definition sqlite3_rekey_v2 ::
    "sys_env \<Rightarrow> ('p, 'a) api_state_scheme tx_ops \<Rightarrow> conn option \<Rightarrow> byte list option \<Rightarrow> byte list option \<Rightarrow> int
      \<Rightarrow> ('p, 'a) api_state_scheme \<Rightarrow> int \<times> ('p, 'a) api_state_scheme" where
  "sqlite3_rekey_v2 env ops db zDb pKey nKey st =
     (if \<not> sqlcipher_init st then (sqlcipher_init_error st, st)
      else case db of
        None \<Rightarrow> (SQLITE_ERROR, st)
      | Some conn \<Rightarrow>
          if pKey = None \<or> nKey = 0 then (SQLITE_ERROR, st)
          else
            let db_index = sqlcipher_find_db_index conn zDb
            in case db_pBt (aDb conn ! db_index) of
                 None \<Rightarrow> (SQLITE_OK, st)
               | Some bt \<Rightarrow>
                   (case pager_codec st bt of
                      None \<Rightarrow> (SQLITE_MISUSE, st)
                    | Some _ \<Rightarrow>
                        let (_, st) = codec_set_pass_key env conn db_index pKey nKey CIPHER_WRITE_CTX st;
                            (rc, st) = tx_begin ops bt st;
                            page_count = tx_pagecount ops bt st;
                            (rc, st) = rekey_pages ops bt 1 page_count rc st
                        in if rc = SQLITE_OK then
                             let (rc, st) = tx_commit ops bt st;
                                 st = key_copy_on env bt CIPHER_WRITE_CTX st
                             in (SQLITE_OK, st)
                           else (SQLITE_OK, tx_rollback ops bt st)))"

definition sqlite3_rekey ::
    "sys_env \<Rightarrow> ('p, 'a) api_state_scheme tx_ops \<Rightarrow> conn option \<Rightarrow> byte list option \<Rightarrow> int
      \<Rightarrow> ('p, 'a) api_state_scheme \<Rightarrow> int \<times> ('p, 'a) api_state_scheme" where
  "sqlite3_rekey env ops db pKey nKey st = sqlite3_rekey_v2 env ops db (Some zMain) pKey nKey st"

subsection \<open>Reading the key back, adding entropy\<close>

text \<open>The out parameters of \<open>sqlcipherCodecGetKey\<close>: left as they were, the key NULL and the size left as it was,
  set to a buffer (or NULL) and a size, or undefined, when the passphrase is copied to a buffer that could not be allocated.\<close>

datatype get_key = Key_Untouched | Key_Null | Key_Undefined | Key_Is "heap_buf option" int

definition sqlcipherCodecGetKey ::
    "sys_env \<Rightarrow> conn \<Rightarrow> nat \<Rightarrow> ('p, 'a) api_state_scheme \<Rightarrow> get_key \<times> ('p, 'a) api_state_scheme" where
  "sqlcipherCodecGetKey env db nDb st =
     (case db_pBt (aDb db ! nDb) of
        None \<Rightarrow> (Key_Untouched, st)
      | Some bt \<Rightarrow>
          (case pager_codec st bt of
             None \<Rightarrow> (Key_Is None 0, st)
           | Some ctx \<Rightarrow>
               (case read_ctx ctx of
                  None \<Rightarrow> (Key_Undefined, st)
                | Some r \<Rightarrow>
                    if derive_key r \<noteq> 0 \<or> store_pass ctx = 1 then
                      let (b, st) = sc_alloc (env_malloc env) (pass_sz r) st
                      in (if b = None \<and> pass_sz r \<noteq> 0 then (Key_Undefined, st)
                          else (Key_Is (buf_copy (buf_bytes (cc_pass r)) (pass_sz r) b) (pass_sz r), st))
                    else
                      (case sqlcipher_cipher_ctx_get_keyspec (env_malloc env) ctx r st of
                         (rc, Some (b, n), r, st) \<Rightarrow>
                           (Key_Is (Some b) n, st\<lparr>pager_codec := (pager_codec st)(bt := Some (ctx\<lparr>read_ctx := Some r\<rparr>))\<rparr>)
                       | (rc, None, r, st) \<Rightarrow> (Key_Null, st)))))"

text \<open>\<open>PRAGMA cipher_add_random\<close>: the blob literal \<open>x'...'\<close> is decoded and handed to the provider. \<open>None\<close> is
  the write through NULL when the buffer cannot be allocated.\<close>

definition sqlcipher_codec_add_random ::
    "xmalloc \<Rightarrow> 'p codec_ctx \<Rightarrow> byte list \<Rightarrow> int \<Rightarrow> 'a heap_state_scheme
      \<Rightarrow> (int \<times> 'p codec_ctx \<times> 'a heap_state_scheme) option" where
  "sqlcipher_codec_add_random xMalloc ctx zRight random_sz st =
     (let n = random_sz - 3
      in if 0 < n \<and> sqlite3_strnicmp (Some zRight) (Some [0x78, 0x27]) 2 = 0
            \<and> sqlite3_strnicmp (Some (drop (nat (random_sz - 1)) zRight)) (Some [0x27]) 1 = 0 \<and> n mod 2 = 0 then
           let buffer_sz = n div 2
           in case sc_alloc xMalloc buffer_sz st of
                (None, st) \<Rightarrow> None
              | (Some b, st) \<Rightarrow>
                  let random = buf_write 0 (cipher_hex2bin (drop 2 zRight) (nat n)) (buf_data b);
                      (rc, pc) = p_add_random (ctx_provider ctx) (provider_ctx ctx) random
                  in Some (rc, ctx\<lparr>provider_ctx := pc\<rparr>, sc_free (Some b) buffer_sz st)
         else Some (SQLITE_ERROR, ctx, st))"

subsection \<open>Integrity check\<close>

text \<open>The rows of \<open>PRAGMA cipher_integrity_check\<close>.\<close>

datatype integrity_row =
    File_Undefined
  | Hmac_Not_Enabled
  | Keys_Not_Derived
  | Read_Failed int nat int
  | Hmac_Op_Failed nat
  | Hmac_Mismatch nat
  | Invalid_Size nat int int

text \<open>Size read, size covered by the HMAC and file offset of a page. \<open>(page - 1) * ctx->page_sz\<close> multiplies a
  32-bit unsigned page number with an \<open>int\<close>: the product is reduced modulo \<open>2 ^ 32\<close> before it becomes
  the 64-bit offset.\<close>

definition page_extent :: "'p codec_ctx \<Rightarrow> nat \<Rightarrow> int \<times> int \<times> int" where
  "page_extent ctx page =
     (let offset = (int page - 1) * page_sz ctx mod 2 ^ 32;
          payload_sz = page_sz ctx - reserve_sz ctx + iv_sz ctx;
          read_sz = page_sz ctx
      in if page = 1 then
           let page1_offset = (if plaintext_header_sz ctx \<noteq> 0 then plaintext_header_sz ctx else FILE_HEADER_SZ)
           in (read_sz - page1_offset, payload_sz - page1_offset, offset + page1_offset)
         else (read_sz, payload_sz, offset))"

definition check_file_page ::
    "('p, 'a) sc_state_scheme \<Rightarrow> 'p codec_ctx \<Rightarrow> cipher_ctx \<Rightarrow> nat \<Rightarrow> integrity_row list \<times> 'p codec_ctx \<times> cipher_ctx" where
  "check_file_page st ctx c page =
     (let (read_sz, payload_sz, offset) = page_extent ctx page;
          buffer = sqlcipher_memset (buf_bytes (ctx_buffer ctx)) 0 (nat (page_sz ctx));
          hmac_out = replicate (nat (hmac_sz ctx)) 0;
          (rc, bytes) = os_read (bt_store st (pBt ctx)) (nat read_sz) (nat offset);
          buffer = buf_write 0 (take (nat read_sz) bytes) buffer;
          ctx = ctx\<lparr>ctx_buffer := buf_update (\<lambda>_. buffer) (ctx_buffer ctx)\<rparr>
      in if rc \<noteq> SQLITE_OK then ([Read_Failed read_sz page offset], ctx, c)
         else
           let (rc, mac, c) = sqlcipher_page_hmac st ctx c (word_of_nat page) (take (nat payload_sz) buffer);
               hmac_out = buf_write 0 mac hmac_out
           in if rc \<noteq> SQLITE_OK then ([Hmac_Op_Failed page], ctx, c)
              else if sqlcipher_memcmp (drop (nat payload_sz) buffer) hmac_out (nat (hmac_sz ctx)) \<noteq> 0
              then ([Hmac_Mismatch page], ctx, c)
              else ([], ctx, c))"

fun check_file_pages ::
    "('p, 'a) sc_state_scheme \<Rightarrow> nat \<Rightarrow> nat \<Rightarrow> 'p codec_ctx \<Rightarrow> cipher_ctx
      \<Rightarrow> integrity_row list \<times> 'p codec_ctx \<times> cipher_ctx" where
  "check_file_pages st page 0 ctx c = ([], ctx, c)"
| "check_file_pages st page (Suc left) ctx c =
     (if sqlite3pager_is_sj_pgno (bt_store st (pBt ctx)) page then check_file_pages st (page + 1) left ctx c
      else
        let (rows, ctx, c) = check_file_page st ctx c page;
            (rows', ctx, c) = check_file_pages st (page + 1) left ctx c
        in (rows @ rows', ctx, c))"

text \<open>The result is \<open>None\<close> when the HMAC is written through a NULL buffer: the allocation is not checked.\<close>

definition sqlcipher_codec_ctx_integrity_check ::
    "xmalloc \<Rightarrow> 'p codec_ctx \<Rightarrow> ('p, 'a) sc_state_scheme
      \<Rightarrow> (integrity_row list \<times> 'p codec_ctx \<times> ('p, 'a) sc_state_scheme) option" where
  "sqlcipher_codec_ctx_integrity_check xMalloc ctx st =
     (let fd = bt_store st (pBt ctx)
      in if \<not> fd_open fd then Some ([File_Undefined], ctx, st)
         else if \<not> flag_get (ctx_flags ctx) CIPHER_FLAG_HMAC then Some ([Hmac_Not_Enabled], ctx, st)
         else
           let (rc, ctx, st) = sqlcipher_codec_key_derive xMalloc ctx st
           in if rc \<noteq> SQLITE_OK then Some ([Keys_Not_Derived], ctx, st)
              else
                let file_sz = int (os_file_size fd);
                    pages = nat (file_sz div page_sz ctx);
                    (hmac_out, st) = sc_alloc xMalloc (hmac_sz ctx) st
                in case read_ctx ctx of
                     None \<Rightarrow> None
                   | Some c \<Rightarrow>
                       if hmac_out = None \<and> 0 < pages then None
                       else
                         let (rows, ctx, c) = check_file_pages st 1 pages ctx c;
                             rows = (if file_sz mod page_sz ctx \<noteq> 0
                                     then rows @ [Invalid_Size (pages + 1)
                                            (file_sz - (file_sz div page_sz ctx) * page_sz ctx) (page_sz ctx)]
                                     else rows)
                         in Some (rows, ctx\<lparr>read_ctx := Some c\<rparr>, sc_free hmac_out (hmac_sz ctx) st))"

section \<open>Lemmas\<close>

subsection \<open>Creation and release of a context leave everything but the heap alone\<close>

definition heap_only :: "'a heap_state_scheme \<Rightarrow> 'a heap_state_scheme \<Rightarrow> bool" where
  "heap_only st st' \<longleftrightarrow> heap_state.more st' = heap_state.more st"

lemma heap_only_refl [simp]: "heap_only st st"
  by (simp add: heap_only_def)

lemma heap_only_trans: "heap_only a b \<Longrightarrow> heap_only b c \<Longrightarrow> heap_only a c"
  by (simp add: heap_only_def)

lemma heap_only_sc_free: "heap_only st (sc_free b n st)" "heap_only st (sqlcipher_free p m st)"
  using sc_free_more [of b n st] sc_free_more [of "Some \<lparr>buf_addr = p, buf_data = []\<rparr>" "int m" st]
  by (auto simp: heap_only_def sqlcipher_free_def sqlcipher_internal_free_def Let_def split: option.splits prod.splits)

lemma heap_only_sc_alloc: "heap_only st (snd (sc_alloc xMalloc n st))"
  using sc_alloc_more [of xMalloc n st] by (cases "sc_alloc xMalloc n st") (simp add: heap_only_def)

lemma heap_only_fields:
  fixes st st' :: "('p, 'a) api_state_scheme"
  assumes "heap_only st st'"
  shows "bt_store st' = bt_store st" "pager_codec st' = pager_codec st" "sqlcipher_init st' = sqlcipher_init st"
    "shield_mask st' = shield_mask st"
  using assms unfolding heap_only_def by (cases st; cases st'; simp)+

lemma heap_only_step:
  assumes "heap_only st (snd (snd r))" and "\<And>c s. heap_only st s \<Longrightarrow> heap_only st (snd (snd (k (c, s))))"
  shows "heap_only st (snd (snd (then_ok r k)))"
  using assms by (cases r) (auto simp: then_ok_def)

lemma heap_only_alloc_then:
  assumes "sc_alloc xMalloc n s = (b, s')" and "heap_only st s"
  shows "heap_only st s'"
  using heap_only_sc_alloc [of s xMalloc n] assms heap_only_trans by fastforce

lemma heap_only_free_then: "heap_only st s \<Longrightarrow> heap_only st (sc_free b n s)"
  using heap_only_sc_free heap_only_trans by blast

lemma heap_only_ops:
  assumes st: "heap_only st s"
  shows "heap_only st (snd (snd (alloc_salts xMalloc (c, s))))"
    "heap_only st (snd (snd (pure_step f (c, s))))"
    "heap_only st (snd (snd (sqlcipher_codec_ctx_set_pagesize xMalloc c n s)))"
    "heap_only st (snd (snd (init_sub_ctx xMalloc w (c, s))))"
    "heap_only st (snd (snd (sqlcipher_codec_ctx_set_pass xMalloc c zKey n 0 s)))"
    "heap_only st (snd (snd (copy_sub_ctx xMalloc 0 (c, s))))"
proof -
  note st = st [unfolded heap_only_def]
  note splits = prod.split option.split
  show "heap_only st (snd (snd (alloc_salts xMalloc (c, s))))"
    using st by (auto simp: heap_only_def alloc_salts_def Let_def split: splits dest!: sc_alloc_more)
  show "heap_only st (snd (snd (pure_step f (c, s))))"
    using st by (auto simp: heap_only_def pure_step_def split: splits)
  show "heap_only st (snd (snd (sqlcipher_codec_ctx_set_pagesize xMalloc c n s)))"
    using st by (auto simp: heap_only_def sqlcipher_codec_ctx_set_pagesize_def Let_def sc_free_more
        split: splits dest!: sc_alloc_more)
  show "heap_only st (snd (snd (init_sub_ctx xMalloc w (c, s))))"
    using st by (auto simp: heap_only_def init_sub_ctx_def sqlcipher_cipher_ctx_init_def Let_def
        split: splits dest!: sc_alloc_more)
  show "heap_only st (snd (snd (sqlcipher_codec_ctx_set_pass xMalloc c zKey n 0 s)))"
    using st by (auto simp: heap_only_def sqlcipher_codec_ctx_set_pass_def sqlcipher_cipher_ctx_set_pass_def Let_def
        sc_free_more split: splits dest!: sc_alloc_more)
  show "heap_only st (snd (snd (copy_sub_ctx xMalloc 0 (c, s))))"
    using st by (auto simp: heap_only_def copy_sub_ctx_def sqlcipher_cipher_ctx_copy_def Let_def
        sc_free_more split: splits dest!: sc_alloc_more)
qed

lemma codec_ctx_init_heap_only:
  assumes "sqlcipher_codec_ctx_init xMalloc bt zKey nKey st = (rc, ctx, st')"
  shows "heap_only st st'"
proof -
  obtain b s0 where b: "sc_alloc xMalloc sizeof_codec_ctx st = (b, s0)" by fastforce
  have s0: "heap_only st s0" using heap_only_alloc_then [OF b] by simp
  show ?thesis
  proof (cases b)
    case None
    then show ?thesis using assms b s0 by (simp add: sqlcipher_codec_ctx_init_def)
  next
    case (Some a)
    have "heap_only st (snd (snd (sqlcipher_codec_ctx_init xMalloc bt zKey nKey st)))"
      unfolding sqlcipher_codec_ctx_init_def b Some
      by (simp add: Let_def case_prod_beta) (intro heap_only_step heap_only_ops; simp add: heap_only_ops s0)
    then show ?thesis by (simp add: assms)
  qed
qed

lemma codec_ctx_free_heap_only: "heap_only st (sqlcipher_codec_ctx_free ctx st)"
proof -
  have f: "heap_only st (sqlcipher_free p m s)" if "heap_only st s" for p m s
    using that heap_only_sc_free(2) heap_only_trans by blast
  have c: "heap_only st (sqlcipher_cipher_ctx_free ctx c s)" if "heap_only st s" for c s
    using that by (simp add: sqlcipher_cipher_ctx_free_def Let_def f heap_only_free_then)
  show ?thesis
    unfolding sqlcipher_codec_ctx_free_def Let_def
    by (auto intro!: f c heap_only_free_then split: option.splits)
qed

subsection \<open>Attaching\<close>

lemma on_btree_fields [simp]:
  "bt_store (on_btree bt f st) = (bt_store st)(bt := f (bt_store st bt))"
  "default_flags (on_btree bt f st) = default_flags st"
  by (simp_all add: on_btree_def)

lemma on_btree_codec [simp]: "pager_codec (on_btree bt f st) = pager_codec st" "pager_xCodec (on_btree bt f st) = pager_xCodec st"
  by (simp_all add: on_btree_def)

lemma set_codec_fields [simp]:
  "pager_codec (sqlcipherPagerSetCodec bt x c st) = (pager_codec st)(bt := c)"
  "pager_xCodec (sqlcipherPagerSetCodec bt x c st) = (pager_xCodec st)(bt := \<not> pager_memDb (bt_store st bt) \<and> x)"
  "bt_store (sqlcipherPagerSetCodec bt x c st) = bt_store st"
  by (simp_all add: sqlcipherPagerSetCodec_def)

text \<open>The codec now attached, with the B-tree set up for it: the page size and the reserve of the codec, secure delete, and for a
  database with a file no auto-vacuum.\<close>

definition btree_for_codec :: "sys_env \<Rightarrow> 'p codec_ctx \<Rightarrow> btree \<Rightarrow> btree" where
  "btree_for_codec env ctx b =
     (let b' = snd (sqlite3BtreeSetPageSize env (page_sz ctx) (reserve_sz ctx) False (b\<lparr>bts_pagesize_fixed := False\<rparr>))
      in b'\<lparr>bts_secure := 1, bt_autovacuum := (if fd_open b then 0 else bt_autovacuum b')\<rparr>)"

definition codec_attached :: "sys_env \<Rightarrow> nat \<Rightarrow> 'p codec_ctx \<Rightarrow> conn \<Rightarrow> ('p, 'a) api_state_scheme \<Rightarrow> ('p, 'a) api_state_scheme \<Rightarrow> bool" where
  "codec_attached env bt ctx db st st' \<longleftrightarrow>
     pager_codec st' bt = Some ctx \<and> pager_xCodec st' bt = (\<not> pager_memDb (bt_store st bt)) \<and> nextPagesize db = page_sz ctx
     \<and> bt_store st' = (bt_store st)(bt := btree_for_codec env ctx (bt_store st bt))"

text \<open>No codec, and pager and connection stopped with an error code.\<close>

definition attach_failed :: "nat \<Rightarrow> int \<Rightarrow> ('p, 'a) api_state_scheme \<Rightarrow> bool" where
  "attach_failed bt rc st \<longleftrightarrow>
     rc \<noteq> SQLITE_OK \<and> pager_codec st bt = None \<and> pager_errCode (bt_store st bt) = rc
     \<and> pager_eState_error (bt_store st bt) \<and> db_errCode (bt_store st bt) = rc"

lemma set_pagesize_unfixed: "\<not> bts_pagesize_fixed b \<Longrightarrow> \<not> bts_pagesize_fixed (snd (sqlite3BtreeSetPageSize env ps nr False b))"
  by (auto simp: sqlite3BtreeSetPageSize_def sqlite3PagerSetPagesize_def Let_def split: prod.splits if_splits)

lemma attach_new_codec_outcome:
  assumes run: "attach_new_codec env db bt zKey nKey st = (rc, db', st')" and none: "pager_codec st bt = None"
  shows "(\<exists>ctx s. rc = SQLITE_OK \<and> sqlcipher_codec_ctx_init (env_malloc env) bt zKey nKey st = (SQLITE_OK, Some ctx, s)
      \<and> codec_attached env bt ctx db' st st') \<or> attach_failed bt rc st'"
proof -
  obtain rc0 ctx0 s0 where i: "sqlcipher_codec_ctx_init (env_malloc env) bt zKey nKey st = (rc0, ctx0, s0)" by (metis prod.exhaust)
  note h = heap_only_fields [OF codec_ctx_init_heap_only [OF i]]
  have some: "ctx0 \<noteq> None" if "rc0 = SQLITE_OK"
    using codec_ctx_init_steps i that by blast
  show ?thesis
  proof (cases "rc0 = SQLITE_OK")
    case True
    then obtain ctx where ctx: "ctx0 = Some ctx" using some by blast
    have "\<not> bts_pagesize_fixed (snd (sqlite3BtreeSetPageSize env (page_sz ctx) (reserve_sz ctx) False ((bt_store st bt)\<lparr>bts_pagesize_fixed := False\<rparr>)))"
      by (rule set_pagesize_unfixed) simp
    then have "codec_attached env bt ctx db' st st' \<and> rc = SQLITE_OK"
      using run i True ctx h
      by (auto simp: attach_new_codec_def codec_set_btree_to_codec_pagesize_def Let_def codec_attached_def btree_for_codec_def case_prod_beta
          sqlite3BtreeSecureDelete_def sqlite3BtreeSetAutoVacuum_def split: if_splits)
    then show ?thesis using i True ctx by blast
  next
    case False
    then have "attach_failed bt rc st'"
      using run i h none by (auto simp: attach_new_codec_def Let_def attach_failed_def sqlite3pager_error_def)
    then show ?thesis by blast
  qed
qed

lemma attach_outcome:
  fixes st :: "('p, 'a) api_state_scheme"
  assumes run: "sqlcipherCodecAttach env (Some db) nDb (Some zKey) nKey st = Some (rc, db', st')"
    and "sqlcipher_init st" and "nKey \<noteq> 0" and nDb: "nDb < length (aDb db)" "db_pBt (aDb db ! nDb) = Some bt"
  shows "(\<exists>ctx. pager_codec st bt = Some ctx \<and> (key_used ctx \<or> bt_sharable (bt_store st bt))
        \<and> rc = SQLITE_OK \<and> db' = Some db \<and> st' = st)
    \<or> (\<exists>ctx conn (s :: ('p, 'a) api_state_scheme) s'. rc = SQLITE_OK \<and> db' = Some conn \<and> codec_attached env bt ctx conn st st'
        \<and> default_flags s = default_flags st \<and> default_provider s = default_provider st
        \<and> sqlcipher_codec_ctx_init (env_malloc env) bt (Some zKey) nKey s = (SQLITE_OK, Some ctx, s'))
    \<or> attach_failed bt rc st'"
proof -
  obtain s where "(\<exists>ctx. pager_codec st bt = Some ctx \<and> (key_used ctx \<or> bt_sharable (bt_store st bt))
        \<and> rc = SQLITE_OK \<and> db' = Some db \<and> st' = st)
    \<or> (pager_codec s bt = None \<and> bt_store s = bt_store st \<and> default_flags s = default_flags st \<and> default_provider s = default_provider st
      \<and> (\<exists>conn. attach_new_codec env db bt (Some zKey) nKey s = (rc, conn, st') \<and> db' = Some conn))"
  proof (cases "pager_codec st bt")
    case None
    then show thesis using assms by (intro that [of st]) (auto simp: sqlcipherCodecAttach_def Let_def split: prod.splits)
  next
    case (Some ctx)
    have f: "heap_only st (sqlcipher_codec_ctx_free ctx st)" by (rule codec_ctx_free_heap_only)
    note d = defaults_more [OF f [unfolded heap_only_def]] heap_only_fields(1) [OF f]
    show thesis using assms Some d
      by (intro that [of "sqlcipherPagerSetCodec bt False None (sqlcipher_codec_ctx_free ctx st)"])
        (auto simp: sqlcipherCodecAttach_def Let_def key_used_def sqlcipherPagerSetCodec_def split: prod.splits if_splits)
  qed
  then show ?thesis
  proof (elim disjE, goal_cases)
    case 1
    then show ?thesis by (intro disjI1)
  next
    case 2
    then obtain conn where
      s: "pager_codec s bt = None" "default_flags s = default_flags st" "default_provider s = default_provider st" "bt_store s = bt_store st"
      and conn: "attach_new_codec env db bt (Some zKey) nKey s = (rc, conn, st')" "db' = Some conn" by blast
    have "codec_attached env bt ctx c s st' = codec_attached env bt ctx c st st'" for ctx c using s(4) by (simp add: codec_attached_def)
    with attach_new_codec_outcome [OF conn(1) s(1)] show ?thesis
      using s(2,3) conn(2) by (elim disjE) (intro disjI2 disjI1, blast, intro disjI2)
  qed
qed

subsection \<open>The integrity check\<close>

text \<open>What is wrong with a page of the file: its content, without the header of page 1, is read from its place in the file, and
  the HMAC of the part in front of the stored one has to be the stored one.\<close>

definition page_report :: "('p, 'a) sc_state_scheme \<Rightarrow> 'p codec_ctx \<Rightarrow> cipher_ctx \<Rightarrow> nat \<Rightarrow> integrity_row list" where
  "page_report st ctx c page =
     (let skip = (if page \<noteq> 1 then 0 else if plaintext_header_sz ctx \<noteq> 0 then plaintext_header_sz ctx else FILE_HEADER_SZ);
          place = (int page - 1) * page_sz ctx + skip;
          covered = nat (page_sz ctx - reserve_sz ctx + iv_sz ctx - skip);
          (rc, bytes) = os_read (bt_store st (pBt ctx)) (nat (page_sz ctx - skip)) (nat place);
          (mac_rc, mac) = p_hmac (ctx_provider ctx) (provider_ctx ctx) (hmac_algorithm ctx)
              (unshielded st (key_sz ctx) (cc_hmac_key c)) (take covered bytes) (hmac_pgno (ctx_flags ctx) (word_of_nat page))
      in if rc \<noteq> SQLITE_OK then [Read_Failed (page_sz ctx - skip) page place]
         else if mac_rc \<noteq> SQLITE_OK then [Hmac_Op_Failed page]
         else if mac = take (nat (hmac_sz ctx)) (drop covered bytes) then [] else [Hmac_Mismatch page])"

text \<open>A file whose reads return as many bytes as were asked for when they succeed.\<close>

definition file_reads_ok :: "btree \<Rightarrow> bool" where
  "file_reads_ok bt \<longleftrightarrow> (\<forall>n off. fst (os_read bt n off) = SQLITE_OK \<longrightarrow> length (snd (os_read bt n off)) = n)"

text \<open>The page sizes the check works with: a header on page 1 that leaves room for the reserve.\<close>

definition check_sizes_ok :: "'p codec_ctx \<Rightarrow> bool" where
  "check_sizes_ok ctx \<longleftrightarrow>
     sizes_ok ctx \<and> flag_get (ctx_flags ctx) CIPHER_FLAG_HMAC \<and> 0 \<le> plaintext_header_sz ctx
     \<and> plaintext_header_sz ctx \<le> page_sz ctx - reserve_sz ctx \<and> FILE_HEADER_SZ \<le> page_sz ctx - reserve_sz ctx"

lemma page_extent_bounds:
  assumes "check_sizes_ok ctx" and "page_extent ctx page = (read_sz, payload_sz, offset)"
  shows "0 \<le> payload_sz" "payload_sz + hmac_sz ctx \<le> read_sz" "read_sz \<le> page_sz ctx" "0 \<le> hmac_sz ctx"
  using assms by (auto simp: page_extent_def check_sizes_ok_def sizes_ok_def Let_def split: if_splits)

text \<open>Within the first 4 GiB the 32-bit offset is the place of the page.\<close>

lemma page_extent_place:
  assumes "0 < page_sz ctx" "1 \<le> page" "(int page - 1) * page_sz ctx < 2 ^ 32"
  shows "page_extent ctx page =
    (let skip = (if page \<noteq> 1 then 0 else if plaintext_header_sz ctx \<noteq> 0 then plaintext_header_sz ctx else FILE_HEADER_SZ)
     in (page_sz ctx - skip, page_sz ctx - reserve_sz ctx + iv_sz ctx - skip, (int page - 1) * page_sz ctx + skip))"
proof -
  have "(int page - 1) * page_sz ctx mod 2 ^ 32 = (int page - 1) * page_sz ctx"
    using assms by (intro mod_pos_pos_trivial mult_nonneg_nonneg) auto
  then show ?thesis by (simp add: page_extent_def Let_def)
qed

lemma page_extent_buffer [simp]:
  "page_extent (ctx\<lparr>ctx_buffer := B\<rparr>) = page_extent ctx"
  by (simp add: page_extent_def fun_eq_iff Let_def)

lemma page_report_cong:
  assumes "pBt ctx' = pBt ctx" "page_sz ctx' = page_sz ctx" "reserve_sz ctx' = reserve_sz ctx" "iv_sz ctx' = iv_sz ctx" "hmac_sz ctx' = hmac_sz ctx"
    "key_sz ctx' = key_sz ctx" "plaintext_header_sz ctx' = plaintext_header_sz ctx" "ctx_provider ctx' = ctx_provider ctx"
    "provider_ctx ctx' = provider_ctx ctx" "hmac_algorithm ctx' = hmac_algorithm ctx" "ctx_flags ctx' = ctx_flags ctx"
    "unshielded st' (key_sz ctx) (cc_hmac_key c') = unshielded st (key_sz ctx) (cc_hmac_key c)" "bt_store st' = bt_store st"
  shows "page_report st' ctx' c' = page_report st ctx c"
  by (rule ext) (simp only: page_report_def assms)

lemma check_sizes_buffer [simp]:
  "check_sizes_ok (ctx\<lparr>ctx_buffer := B\<rparr>) = check_sizes_ok ctx"
  "page_report st (ctx\<lparr>ctx_buffer := B\<rparr>) c = page_report st ctx c"
  by (simp add: check_sizes_ok_def) (rule page_report_cong; simp)

lemma check_file_page_rows:
  assumes ok: "check_sizes_ok ctx" "provider_hmac_ok (ctx_provider ctx)" "file_reads_ok (bt_store st (pBt ctx))"
    and buf: "length (buf_bytes (ctx_buffer ctx)) = nat (page_sz ctx)" "ctx_buffer ctx \<noteq> None"
    and page: "0 < page_sz ctx" "1 \<le> page" "(int page - 1) * page_sz ctx < 2 ^ 32"
  shows "\<exists>B. check_file_page st ctx c page = (page_report st ctx c page, ctx\<lparr>ctx_buffer := B\<rparr>, c) \<and> B \<noteq> None
    \<and> length (buf_bytes B) = nat (page_sz ctx)"
proof -
  obtain rd pl off where ext: "page_extent ctx page = (rd, pl, off)" by (metis prod.exhaust)
  note b = page_extent_bounds [OF ok(1) ext]
  obtain rc bytes where rdp: "os_read (bt_store st (pBt ctx)) (nat rd) (nat off) = (rc, bytes)" by fastforce
  define buffer where "buffer = buf_write 0 (take (nat rd) bytes) (sqlcipher_memset (buf_bytes (ctx_buffer ctx)) 0 (nat (page_sz ctx)))"
  define B where "B = buf_update (\<lambda>_. buffer) (ctx_buffer ctx)"
  obtain mrc mac where mac: "p_hmac (ctx_provider ctx) (provider_ctx ctx) (hmac_algorithm ctx)
      (unshielded st (key_sz ctx) (cc_hmac_key c)) (take (nat pl) buffer) (hmac_pgno (ctx_flags ctx) (word_of_nat page)) = (mrc, mac)"
    by fastforce
  have lB: "length buffer = nat (page_sz ctx)" "B \<noteq> None" "length (buf_bytes B) = nat (page_sz ctx)"
    using buf b by (simp_all add: buffer_def B_def buf_bytes_update)
  have mb: "take (nat pl) buffer = take (nat pl) bytes" "take (nat (hmac_sz ctx)) (drop (nat pl) buffer)
      = take (nat (hmac_sz ctx)) (drop (nat pl) bytes)" if "rc = SQLITE_OK"
  proof -
    have lb: "length bytes = nat rd" using ok(3) rdp that unfolding file_reads_ok_def by (metis fst_conv snd_conv)
    have "nat pl + nat (hmac_sz ctx) \<le> nat rd" using b by linarith
    then show "take (nat pl) buffer = take (nat pl) bytes"
      "take (nat (hmac_sz ctx)) (drop (nat pl) buffer) = take (nat (hmac_sz ctx)) (drop (nat pl) bytes)"
      using lb by (simp_all add: buffer_def buf_write_def)
  qed
  have lm: "length mac = nat (hmac_sz ctx)" if "mrc = SQLITE_OK"
    using ok mac that by (force simp: provider_hmac_ok_def check_sizes_ok_def sizes_ok_def)
  have cmp: "sqlcipher_memcmp (drop (nat pl) buffer) (buf_write 0 mac (replicate (nat (hmac_sz ctx)) 0)) (nat (hmac_sz ctx)) = 0
      \<longleftrightarrow> take (nat (hmac_sz ctx)) (drop (nat pl) buffer) = mac" if "mrc = SQLITE_OK"
    using lm [OF that] lB b by (subst memcmp_eq_0_iff) (auto simp: buf_write_def)
  define rows where "rows = (if rc \<noteq> SQLITE_OK then [Read_Failed rd page off] else if mrc \<noteq> SQLITE_OK then [Hmac_Op_Failed page]
       else if take (nat (hmac_sz ctx)) (drop (nat pl) buffer) = mac then [] else [Hmac_Mismatch page])"
  have run: "check_file_page st ctx c page = (rows, ctx\<lparr>ctx_buffer := B\<rparr>, c)"
    using cmp by (simp add: check_file_page_def ext rdp Let_def buffer_def [symmetric] B_def [symmetric] page_hmac_eq mac rows_def)
  have "page_report st ctx c page = rows"
    using mb mac ext rdp unfolding page_extent_place [OF page] by (auto simp: page_report_def Let_def rows_def)
  with run lB(2,3) show ?thesis by blast
qed

lemma check_file_pages_rows:
  assumes "check_sizes_ok ctx" "provider_hmac_ok (ctx_provider ctx)" "file_reads_ok (bt_store st (pBt ctx))"
    and "length (buf_bytes (ctx_buffer ctx)) = nat (page_sz ctx)" "ctx_buffer ctx \<noteq> None"
    and "0 < page_sz ctx" "1 \<le> page" "\<And>i. i < page + n \<Longrightarrow> (int i - 1) * page_sz ctx < 2 ^ 32"
  shows "\<exists>B. check_file_pages st page n ctx c =
    (concat (map (page_report st ctx c) (filter (\<lambda>i. int i \<noteq> pager_lckPgno (bt_store st (pBt ctx))) [page..<page + n])), ctx\<lparr>ctx_buffer := B\<rparr>, c)"
  using assms
proof (induction n arbitrary: page ctx)
  case 0
  have "ctx = ctx\<lparr>ctx_buffer := ctx_buffer ctx\<rparr>" by simp
  then show ?case by (intro exI [of _ "ctx_buffer ctx"]) simp
next
  case (Suc n)
  let ?bt = "bt_store st (pBt ctx)"
  define ps where "ps = [page + 1..<page + 1 + n]"
  have up: "[page..<page + Suc n] = page # ps" by (simp add: ps_def upt_conv_Cons)
  have more: "\<And>i. i < page + 1 + n \<Longrightarrow> (int i - 1) * page_sz ctx < 2 ^ 32" using Suc.prems(8) by simp
  show ?case
  proof (cases "sqlite3pager_is_sj_pgno ?bt page")
    case True
    have "\<exists>B. check_file_pages st (page + 1) n ctx c = (concat (map (page_report st ctx c)
        (filter (\<lambda>i. int i \<noteq> pager_lckPgno ?bt) [page + 1..<page + 1 + n])), ctx\<lparr>ctx_buffer := B\<rparr>, c)"
      by (rule Suc.IH [OF Suc.prems(1-6) _ more]) simp
    then show ?thesis using True unfolding up ps_def [symmetric] by (simp add: sqlite3pager_is_sj_pgno_def)
  next
    case False
    obtain B where p: "check_file_page st ctx c page = (page_report st ctx c page, ctx\<lparr>ctx_buffer := B\<rparr>, c)" "B \<noteq> None"
      "length (buf_bytes B) = nat (page_sz ctx)"
      using check_file_page_rows [OF Suc.prems(1-7) Suc.prems(8)] by auto
    have "\<exists>B'. check_file_pages st (page + 1) n (ctx\<lparr>ctx_buffer := B\<rparr>) c = (concat (map (page_report st (ctx\<lparr>ctx_buffer := B\<rparr>) c)
        (filter (\<lambda>i. int i \<noteq> pager_lckPgno (bt_store st (pBt (ctx\<lparr>ctx_buffer := B\<rparr>)))) [page + 1..<page + 1 + n])), ctx\<lparr>ctx_buffer := B\<rparr>\<lparr>ctx_buffer := B'\<rparr>, c)"
      by (rule Suc.IH) (use Suc.prems p(2,3) more in auto)
    then obtain B' where "check_file_pages st (page + 1) n (ctx\<lparr>ctx_buffer := B\<rparr>) c
        = (concat (map (page_report st ctx c) (filter (\<lambda>i. int i \<noteq> pager_lckPgno ?bt) ps)), ctx\<lparr>ctx_buffer := B'\<rparr>, c)"
      unfolding ps_def by auto
    then show ?thesis using False p(1) unfolding up by (auto simp: sqlite3pager_is_sj_pgno_def)
  qed
qed

lemma page_report_rekeyed:
  assumes "same_keys r r'" "shield_mask st' = shield_mask st" "bt_store st' = bt_store st"
  shows "page_report st' (ctx\<lparr>read_ctx := a, write_ctx := b\<rparr>) r' = page_report st ctx r"
  by (rule page_report_cong) (use assms in \<open>simp_all add: unshielded_def same_keys_def\<close>)

lemma check_sizes_rekeyed: "check_sizes_ok (ctx\<lparr>read_ctx := a, write_ctx := b\<rparr>) = check_sizes_ok ctx"
  by (simp add: check_sizes_ok_def sizes_ok_def)

lemma integrity_check_rows:
  assumes keyed: "codec_keyed ctx r w" and fdo: "fd_open (bt_store st (pBt ctx))" "file_reads_ok (bt_store st (pBt ctx))"
    and sizes: "check_sizes_ok ctx" "provider_hmac_ok (ctx_provider ctx)" "0 < page_sz ctx"
    and buf: "length (buf_bytes (ctx_buffer ctx)) = nat (page_sz ctx)" "ctx_buffer ctx \<noteq> None"
    and mem: "never_fails xMalloc" "0 < hmac_sz ctx" "hmac_sz ctx \<le> 2 ^ 30"
    and n: "n = int (os_file_size (bt_store st (pBt ctx)))" "n \<le> 2 ^ 32"
  shows "\<exists>ctx' st'. sqlcipher_codec_ctx_integrity_check xMalloc ctx st = Some
    (concat (map (page_report st ctx r) (filter (\<lambda>i. int i \<noteq> pager_lckPgno (bt_store st (pBt ctx))) [1..<1 + nat (n div page_sz ctx)]))
      @ (if page_sz ctx dvd n then [] else [Invalid_Size (nat (n div page_sz ctx) + 1) (n mod page_sz ctx) (page_sz ctx)]), ctx', st')"
proof -
  obtain r' w' s1 where k: "sqlcipher_codec_key_derive xMalloc ctx st = (SQLITE_OK, ctx\<lparr>read_ctx := Some r', write_ctx := Some w'\<rparr>, s1)"
    and k': "same_keys r r'" "shield_mask s1 = shield_mask st" "bt_store s1 = bt_store st"
    using keyed_key_derive [OF keyed, of xMalloc st] by blast
  define ctx1 where "ctx1 = ctx\<lparr>read_ctx := Some r', write_ctx := Some w'\<rparr>"
  have f1: "pBt ctx1 = pBt ctx" "page_sz ctx1 = page_sz ctx" "hmac_sz ctx1 = hmac_sz ctx" "ctx_buffer ctx1 = ctx_buffer ctx"
    "ctx_provider ctx1 = ctx_provider ctx" "read_ctx ctx1 = Some r'" by (simp_all add: ctx1_def)
  obtain b s2 where b: "sc_alloc xMalloc (hmac_sz ctx) s1 = (Some b, s2)" using sc_alloc_total [OF mem] by blast
  have s2: "bt_store s2 = bt_store st" "shield_mask s2 = shield_mask st"
    using sc_alloc_more [OF b] k' by (cases s2; cases s1; simp)+
  define pages where "pages = nat (n div page_sz ctx)"
  have pages: "int pages = n div page_sz ctx" using n(1) sizes(3) by (simp add: pages_def pos_imp_zdiv_nonneg_iff)
  have place: "(int i - 1) * page_sz ctx < 2 ^ 32" if "i < 1 + pages" for i
  proof -
    have "int i * page_sz ctx \<le> n div page_sz ctx * page_sz ctx" using that pages sizes(3) by (intro mult_right_mono) auto
    also have "\<dots> \<le> n" using div_mult_mod_eq [of n "page_sz ctx"] pos_mod_sign [OF sizes(3), of n] by linarith
    finally show ?thesis using n(2) sizes(3) by (simp add: left_diff_distrib)
  qed
  obtain B where "check_file_pages s2 1 pages ctx1 r' = (concat (map (page_report s2 ctx1 r')
      (filter (\<lambda>i. int i \<noteq> pager_lckPgno (bt_store s2 (pBt ctx1))) [1..<1 + pages])), ctx1\<lparr>ctx_buffer := B\<rparr>, r')"
    using check_file_pages_rows [of ctx1 s2 1 pages r'] sizes fdo buf f1 s2 place by (auto simp: ctx1_def check_sizes_rekeyed)
  moreover have "page_report s2 ctx1 r' = page_report st ctx r"
    unfolding ctx1_def by (rule page_report_rekeyed [OF k'(1) s2(2,1)])
  ultimately have c: "check_file_pages s2 1 pages ctx1 r' = (concat (map (page_report st ctx r)
      (filter (\<lambda>i. int i \<noteq> pager_lckPgno (bt_store st (pBt ctx))) [1..<1 + pages])), ctx1\<lparr>ctx_buffer := B\<rparr>, r')"
    by (simp add: s2 f1)
  have h: "flag_get (ctx_flags ctx) CIPHER_FLAG_HMAC" using sizes(1) by (simp add: check_sizes_ok_def)
  have m: "n - n div page_sz ctx * page_sz ctx = n mod page_sz ctx" by (simp add: minus_div_mult_eq_mod)
  show ?thesis
    using fdo(1) h b
    by (simp add: sqlcipher_codec_ctx_integrity_check_def k ctx1_def [symmetric] f1 n(1) [symmetric] pages_def [symmetric]
        c [simplified] m dvd_eq_mod_eq_0)
qed

subsection \<open>Re-keying\<close>









section \<open>Properties\<close>

text \<open>C11. Every way in which giving a connection a key can end. A library that is not initialised returns its recorded error and
  does nothing; a missing connection or key is misuse and does nothing. Otherwise there are three outcomes: a codec whose key is
  in use, or that is shared, is left exactly as it is and success is reported; or a codec from a successful initialisation is
  attached with its callback, and connection and B-tree are set up for it; or there is no codec at all, and pager and
  connection are stopped with the code that is returned.\<close>

theorem codec_attach_outcomes:
  fixes st :: "('p, 'a) api_state_scheme"
  assumes "sqlcipherCodecAttach env db nDb zKey nKey st = Some (rc, db', st')"
    and "\<And>key. zKey = Some key \<Longrightarrow> nKey = int (length key) \<and> nKey < 2 ^ 31"
    and "\<not> flag_get (default_flags st) CIPHER_FLAG_KEY_USED" and "provider_sizes_ok (default_provider st)"
  shows "\<not> sqlcipher_init st \<and> rc = sqlcipher_init_error st \<and> db' = db \<and> st' = st
    \<or> sqlcipher_init st \<and> (db = None \<or> zKey = None \<or> nKey = 0) \<and> rc = SQLITE_MISUSE \<and> db' = db \<and> st' = st
    \<or> (\<exists>conn key bt. sqlcipher_init st \<and> db = Some conn \<and> zKey = Some key \<and> key \<noteq> [] \<and> db_pBt (aDb conn ! nDb) = Some bt \<and>
        ((\<exists>ctx. pager_codec st bt = Some ctx \<and> (key_used ctx \<or> bt_sharable (bt_store st bt)) \<and> rc = SQLITE_OK \<and> db' = db \<and> st' = st)
         \<or> (\<exists>ctx conn'. rc = SQLITE_OK \<and> db' = Some conn' \<and> codec_attached env bt ctx conn' st st' \<and> codec_fresh ctx key)
         \<or> attach_failed bt rc st'))"
proof (cases "sqlcipher_init st \<and> db \<noteq> None \<and> zKey \<noteq> None \<and> nKey \<noteq> 0")
  case False
  then show ?thesis using assms(1) by (auto simp: sqlcipherCodecAttach_def split: if_splits option.splits)
next
  case True
  then obtain conn key where c: "db = Some conn" "zKey = Some key" "sqlcipher_init st" "nKey \<noteq> 0" by auto
  obtain bt where bt: "nDb < length (aDb conn)" "db_pBt (aDb conn ! nDb) = Some bt"
    using assms(1) c by (auto simp: sqlcipherCodecAttach_def split: if_splits option.splits)
  have key: "key \<noteq> []" "nKey = int (length key)" "int (length key) < 2 ^ 31" using assms(2) [OF c(2)] c(4) by auto
  have "(\<exists>ctx. pager_codec st bt = Some ctx \<and> (key_used ctx \<or> bt_sharable (bt_store st bt)) \<and> rc = SQLITE_OK \<and> db' = db \<and> st' = st)
     \<or> (\<exists>ctx conn'. rc = SQLITE_OK \<and> db' = Some conn' \<and> codec_attached env bt ctx conn' st st' \<and> codec_fresh ctx key)
     \<or> attach_failed bt rc st'"
    using attach_outcome [OF assms(1) [unfolded c] c(3,4) bt]
  proof (elim disjE, goal_cases)
    case 2
    then obtain ctx conn' and s :: "('p, 'a) api_state_scheme" and s' where a: "rc = SQLITE_OK" "db' = Some conn'" "codec_attached env bt ctx conn' st st'"
      and d: "default_flags s = default_flags st" "default_provider s = default_provider st"
      and i: "sqlcipher_codec_ctx_init (env_malloc env) bt (Some key) (int (length key)) s = (SQLITE_OK, Some ctx, s')"
      unfolding key(2) by (elim exE conjE) (rule that)
    have "codec_fresh ctx key" using codec_ctx_init_fresh [OF i key(1,3)] d assms(3,4) by simp
    with a show ?thesis by blast
  qed (use c(1) in blast)+
  then show ?thesis using c key(1) bt(2) by blast
qed

text \<open>A connection with one database, for evaluating the entry points.\<close>

definition sample_conn :: conn where
  "sample_conn = \<lparr>aDb = [\<lparr>zDbSName = zMain, db_pBt = Some 0\<rparr>], nextPagesize = 0\<rparr>"

definition sample_env :: sys_env where
  "sample_env = \<lparr>env_malloc = (\<lambda>_ _. Some 4096), env_page_malloc = True, env_file_size_rc = 0, env_pcache_rc = 0\<rparr>"

definition sample_api_state :: "(nat \<Rightarrow> nat codec_ctx option) \<Rightarrow> nat api_state" where
  "sample_api_state codecs = sc_state.extend sample_sc_state (api_state.fields True 0 codecs (\<lambda>_. False))"

lemma sample_api_fields:
  "sqlcipher_init (sample_api_state codecs)" "pager_codec (sample_api_state codecs) = codecs"
  "default_flags (sample_api_state codecs) = 3" "default_provider (sample_api_state codecs) = sample_provider"
  "bt_store (sample_api_state codecs) = (\<lambda>_. sample_btree)" "shield_mask (sample_api_state codecs) = [0x5a, 0xc3]"
  by (simp_all add: sample_api_state_def api_state.defs sc_state.defs sample_sc_state_def heap_state.defs sample_heap_state_def)

lemma sample_conn_fields: "length (aDb sample_conn) = 1" "db_pBt (aDb sample_conn ! 0) = Some 0"
  by (simp_all add: sample_conn_def)

lemma sample_provider_sizes_ok: "provider_sizes_ok sample_provider"
  by (simp add: provider_sizes_ok_def sample_provider_def)

theorem codec_attach_outcomes_witness:
  "\<exists>rc db' st'. sqlcipherCodecAttach sample_env (Some sample_conn) 0 (Some [1, 2, 3]) 3 (sample_api_state (\<lambda>_. None))
      = Some (rc, db', st')
    \<and> ((\<exists>ctx conn. rc = SQLITE_OK \<and> db' = Some conn \<and> codec_attached sample_env 0 ctx conn (sample_api_state (\<lambda>_. None)) st' \<and> codec_fresh ctx [1, 2, 3])
       \<or> attach_failed 0 rc st')"
proof -
  let ?st = "sample_api_state (\<lambda>_. None)"
  obtain rc conn st' where "attach_new_codec sample_env sample_conn 0 (Some [1, 2, 3]) 3 ?st = (rc, conn, st')"
    by (metis prod.exhaust)
  then have run: "sqlcipherCodecAttach sample_env (Some sample_conn) 0 (Some [1, 2, 3]) 3 ?st = Some (rc, Some conn, st')"
    by (simp add: sqlcipherCodecAttach_def sample_api_fields sample_conn_fields)
  have "\<not> flag_get (default_flags ?st) CIPHER_FLAG_KEY_USED" by (simp add: sample_api_fields flag_get_def)
  then show ?thesis
    using run codec_attach_outcomes [OF run] sample_provider_sizes_ok
    by (simp add: sample_api_fields sample_conn_fields)
qed




text \<open>C13. The integrity check is exact: on a context that holds its keys, with memory available and a file of at most 4 GiB, its
  report consists, page by page in ascending order and without the lock page, of what \<open>page_report\<close> finds wrong with the
  page, followed by a row for the incomplete page at the end of the file if there is one.\<close>

theorem integrity_check_exact:
  assumes "codec_keyed ctx r w" and "fd_open (bt_store st (pBt ctx))" and "file_reads_ok (bt_store st (pBt ctx))"
    and "check_sizes_ok ctx" and "provider_hmac_ok (ctx_provider ctx)" and "0 < page_sz ctx"
    and "length (buf_bytes (ctx_buffer ctx)) = nat (page_sz ctx)" and "ctx_buffer ctx \<noteq> None"
    and "never_fails xMalloc" and "0 < hmac_sz ctx" and "hmac_sz ctx \<le> 2 ^ 30"
    and "n = int (os_file_size (bt_store st (pBt ctx)))" and "n \<le> 2 ^ 32"
  shows "\<exists>ctx' st'. sqlcipher_codec_ctx_integrity_check xMalloc ctx st = Some
    (concat (map (page_report st ctx r) (filter (\<lambda>i. int i \<noteq> pager_lckPgno (bt_store st (pBt ctx))) [1..<1 + nat (n div page_sz ctx)]))
      @ (if page_sz ctx dvd n then [] else [Invalid_Size (nat (n div page_sz ctx) + 1) (n mod page_sz ctx) (page_sz ctx)]), ctx', st')"
  using assms by (rule integrity_check_rows)

theorem integrity_check_exact_witness:
  "\<exists>ctx' st'. sqlcipher_codec_ctx_integrity_check (\<lambda>_ _. Some 4096) sample_codec_ctx
       (sample_sc_state\<lparr>bt_store := (\<lambda>_. sample_btree\<lparr>fd_open := True, os_file_size := 33\<rparr>)\<rparr>)
     = Some (page_report (sample_sc_state\<lparr>bt_store := (\<lambda>_. sample_btree\<lparr>fd_open := True, os_file_size := 33\<rparr>)\<rparr>) sample_codec_ctx sample_cipher_ctx 1
         @ [Invalid_Size 2 1 32], ctx', st')"
proof -
  let ?bt = "sample_btree\<lparr>fd_open := True, os_file_size := 33\<rparr>"
  let ?st = "sample_sc_state\<lparr>bt_store := (\<lambda>_. ?bt)\<rparr>"
  have "check_sizes_ok sample_codec_ctx" using sample_codec_ctx_ok(1)
    unfolding check_sizes_ok_def by (simp add: sample_codec_ctx_def zero_codec_ctx_def flag_get_def)
  moreover have "codec_keyed sample_codec_ctx sample_cipher_ctx sample_cipher_ctx" "file_reads_ok ?bt"
    "page_sz sample_codec_ctx = 32" "length (buf_bytes (ctx_buffer sample_codec_ctx)) = 32" "ctx_buffer sample_codec_ctx \<noteq> None"
    "provider_hmac_ok (ctx_provider sample_codec_ctx)" "pager_lckPgno ?bt \<noteq> 1"
    using sample_provider_ok by (simp_all add: codec_keyed_def file_reads_ok_def sample_simps provider_ok_def)
  ultimately show ?thesis
    using integrity_check_exact [of sample_codec_ctx sample_cipher_ctx sample_cipher_ctx ?st "\<lambda>_ _. Some 4096" 33]
    by (simp add: never_fails_def sample_codec_ctx_fields eval_nat_numeral)
qed

text \<open>The integrity check looks in the wrong place beyond 4 GiB: the file offset of a page is computed in 32-bit
  arithmetic, so two pages whose distance is a multiple of 4 GiB are checked at the same offset.\<close>

theorem integrity_offset_wraps:
  assumes "page = other + k" and "int k * page_sz ctx = 2 ^ 32" and "1 < other"
  shows "snd (snd (page_extent ctx page)) = snd (snd (page_extent ctx other))"
proof -
  have "(int page - 1) * page_sz ctx = (int other - 1) * page_sz ctx + 2 ^ 32"
    using assms(1,2) by (simp add: algebra_simps)
  then show ?thesis using assms(1,3) by (simp add: page_extent_def Let_def)
qed

theorem integrity_offset_wraps_witness:
  "snd (snd (page_extent (sample_codec_ctx\<lparr>page_sz := 4096\<rparr>) 1048578)) = 4096"
  using integrity_offset_wraps [of 1048578 2 1048576 "sample_codec_ctx\<lparr>page_sz := 4096\<rparr>"] by (simp add: page_extent_def Let_def)

end
