(* ===== verification/Util_Int.thy ===== *)
theory Util_Int
  imports Util_Text
begin

text \<open>
  Conversions between integers and text, and overflow-checked arithmetic, of \<open>src/util.c\<close>.

  \<open>i64\<close> and \<open>int\<close> values are integers, with the range written out where a statement needs it; \<open>u64\<close> and
  \<open>u32\<close> accumulators are words, so that they wrap. A position in a string is an offset; the bytes of a string that
  is not zero-terminated are read only below its end. The decimal routines read UTF-8 (\<open>enc = 1\<close>) or UTF-16
  little-endian (2) or big-endian (3).
\<close>

section \<open>Definitions\<close>

abbreviation (input) LARGEST_INT64 :: int where "LARGEST_INT64 \<equiv> 9223372036854775807"
abbreviation (input) SMALLEST_INT64 :: int where "SMALLEST_INT64 \<equiv> - 9223372036854775808"

subsection \<open>Printing\<close>

text \<open>The loop fills \<open>zTemp\<close> from its end; the list is what has been filled.\<close>

lemma u64_div10_less: "x div 10 \<noteq> 0 \<Longrightarrow> unat (x div 10) < unat x" for x :: u64
proof -
  assume "x div 10 \<noteq> 0"
  then have "0 < unat (x div 10)" by (simp add: unat_gt_0)
  then show ?thesis by (simp add: unat_div)
qed

function int64_digits :: "u64 \<Rightarrow> byte list \<Rightarrow> byte list" where
  "int64_digits x zTemp =
     (let zTemp = (ucast (x mod 10) + 0x30) # zTemp; x = x div 10
      in if x = 0 then zTemp else int64_digits x zTemp)"
  by pat_completeness auto
termination
  by (relation "measure (\<lambda>(x, _). unat x)") (auto intro: u64_div10_less)

declare int64_digits.simps [simp del]

definition sqlite3Int64ToText :: "int \<Rightarrow> byte list" where
  "sqlite3Int64ToText v =
     (let x = (if v < 0 then (if v = SMALLEST_INT64 then push_bit 63 1 else word_of_int (- v)) else word_of_int v)
      in (if v < 0 then 0x2d # int64_digits x [] else int64_digits x []))"

subsection \<open>Decimal and hexadecimal text\<close>

definition incr_of :: "nat \<Rightarrow> nat" where
  "incr_of enc = (if enc = 1 then 1 else 2)"

text \<open>\<open>while( zNum<zEnd && P(*zNum) ) zNum += incr\<close>\<close>

function skip_while :: "(byte \<Rightarrow> bool) \<Rightarrow> byte list \<Rightarrow> nat \<Rightarrow> nat \<Rightarrow> nat \<Rightarrow> nat" where
  "skip_while P z enc zEnd p =
     (if p < zEnd \<and> P (z ! p) then skip_while P z enc zEnd (p + incr_of enc) else p)"
  by pat_completeness auto
termination
  by (relation "measure (\<lambda>(_, _, _, zEnd, p). zEnd - p)") (auto simp: incr_of_def)

declare skip_while.simps [simp del]

text \<open>The loop that accumulates digits; \<open>i\<close> starts at 0 and the result is its last value and \<open>u\<close>.\<close>

definition dec_digit :: "byte \<Rightarrow> bool" where
  "dec_digit c \<longleftrightarrow> 0x30 \<le> c \<and> c \<le> 0x39"

function atoi64_digits :: "byte list \<Rightarrow> nat \<Rightarrow> nat \<Rightarrow> nat \<Rightarrow> nat \<Rightarrow> u64 \<Rightarrow> nat \<times> u64" where
  "atoi64_digits z enc zEnd zNum i u =
     (if zNum + i < zEnd \<and> dec_digit (z ! (zNum + i))
      then atoi64_digits z enc zEnd zNum (i + incr_of enc) (u * 10 + ucast (z ! (zNum + i)) - 0x30)
      else (i, u))"
  by pat_completeness auto
termination
  by (relation "measure (\<lambda>(_, _, zEnd, zNum, i, _). zEnd - (zNum + i))") (auto simp: incr_of_def)

declare atoi64_digits.simps [simp del]

definition pow63 :: "byte list" where
  "pow63 = map of_char ''922337203685477580''"

fun compare_digits :: "byte list \<Rightarrow> byte list \<Rightarrow> int" where
  "compare_digits (z # zs) (p # ps) =
     (let c = (uint z - uint p) * 10 in if c \<noteq> 0 then c else compare_digits zs ps)"
| "compare_digits _ _ = 0"

definition compare2pow63 :: "byte list \<Rightarrow> nat \<Rightarrow> nat \<Rightarrow> int" where
  "compare2pow63 z zNum incr =
     (let c = compare_digits (map (\<lambda>i. z ! (zNum + i * incr)) [0..<18]) pow63
      in if c = 0 then uint (z ! (zNum + 18 * incr)) - 0x38 else c)"

text \<open>The result is the return code and the value stored in \<open>*pNum\<close>.\<close>

definition sqlite3Atoi64 :: "byte list \<Rightarrow> nat \<Rightarrow> nat \<Rightarrow> int \<times> int" where
  "sqlite3Atoi64 z len enc =
     (let incr = incr_of enc;
          (zNum, zEnd, nonNum) =
            (if enc = 1 then (0, len, False)
             else let len = 2 * (len div 2);
                      i = skip_while (\<lambda>c. c = 0) z enc len (3 - enc)
                  in (enc mod 2, (if even i then i + 1 else i - 1), i < len));
          zNum = skip_while sqlite3Isspace z enc zEnd zNum;
          (neg, zNum) =
            (if zNum < zEnd \<and> z ! zNum = 0x2d then (True, zNum + incr)
             else if zNum < zEnd \<and> z ! zNum = 0x2b then (False, zNum + incr)
             else (False, zNum));
          zStart = zNum;
          zNum = skip_while (\<lambda>c. c = 0x30) z enc zEnd zNum;
          (i, u) = atoi64_digits z enc zEnd zNum 0 0;
          limit = (if neg then SMALLEST_INT64 else LARGEST_INT64);
          num = (if LARGEST_INT64 < uint u then limit else if neg then - uint u else uint u);
          rc = (if i = 0 \<and> zStart = zNum then - 1
                else if nonNum then 1
                else if zNum + i < zEnd \<and> skip_while sqlite3Isspace z enc zEnd (zNum + i) < zEnd then 1
                else 0)
      in if i < 19 * incr then (rc, num)
         else
           let c = (if 19 * incr < i then 1 else compare2pow63 z zNum incr)
           in if c < 0 then (rc, num)
              else if 0 < c then (2, limit)
              else (if neg then rc else 3, limit))"

text \<open>\<open>strspn\<close> of the C library, and the text accumulated in base 16.\<close>

definition strspn :: "byte list \<Rightarrow> (byte \<Rightarrow> bool) \<Rightarrow> nat" where
  "strspn z P = length (takeWhile P z)"

definition hex_value :: "'a::len word \<Rightarrow> byte list \<Rightarrow> 'a word" where
  "hex_value u zs = foldl (\<lambda>u c. u * 16 + ucast (sqlite3HexToInt c)) u zs"

definition sqlite3DecOrHexToI64 :: "byte list \<Rightarrow> int \<times> int" where
  "sqlite3DecOrHexToI64 z =
     (if chr_at z 0 = 0x30 \<and> (chr_at z 1 = 0x78 \<or> chr_at z 1 = 0x58) then
        let i = 2 + strspn (drop 2 z) (\<lambda>c. c = 0x30);
            k = i + strspn (drop i z) sqlite3Isxdigit;
            u = hex_value 0 (buf_read i (k - i) z) :: u64
        in (if 16 < k - i then 2 else if chr_at z k \<noteq> 0 then 1 else 0, sint u)
      else
        let n = nat (0x3fffffff AND int (strspn z (\<lambda>c. c \<in> set (map of_char ''+- '' @ [0x0a, 0x09] @ map of_char ''0123456789''))));
            n = (if chr_at z n \<noteq> 0 then n + 1 else n)
        in sqlite3Atoi64 z n 1)"

definition dec_value :: "byte list \<Rightarrow> int" where
  "dec_value zs = foldl (\<lambda>v c. v * 10 + (uint c - 48)) 0 zs"

text \<open>\<open>None\<close> when \<open>sqlite3GetInt32\<close> returns false.\<close>

definition get_int32_dec :: "bool \<Rightarrow> byte list \<Rightarrow> int option" where
  "get_int32_dec neg z =
     (if \<not> sqlite3Isdigit (chr_at z 0) then None
      else
        let z = dropWhile (\<lambda>c. c = 0x30) z;
            digits = takeWhile dec_digit (take 11 z);
            v = dec_value digits
        in if 10 < length digits then None
           else if 2147483647 < v - (if neg then 1 else 0) then None
           else Some (if neg then - v else v))"

definition sqlite3GetInt32 :: "byte list \<Rightarrow> int option" where
  "sqlite3GetInt32 z =
     (if chr_at z 0 = 0x2d then get_int32_dec True (drop 1 z)
      else if chr_at z 0 = 0x2b then get_int32_dec False (drop 1 z)
      else if chr_at z 0 = 0x30 \<and> (chr_at z 1 = 0x78 \<or> chr_at z 1 = 0x58) \<and> sqlite3Isxdigit (chr_at z 2) then
        let z = dropWhile (\<lambda>c. c = 0x30) (drop 2 z);
            digits = takeWhile sqlite3Isxdigit (take 8 z);
            u = hex_value 0 digits :: u32
        in if u AND 0x80000000 = 0 \<and> \<not> sqlite3Isxdigit (chr_at z (length digits)) then Some (uint u) else None
      else get_int32_dec False z)"

definition sqlite3Atoi :: "byte list \<Rightarrow> int" where
  "sqlite3Atoi z = (case sqlite3GetInt32 z of None \<Rightarrow> 0 | Some x \<Rightarrow> x)"

text \<open>The result is whether the conversion succeeded and the value stored.\<close>

fun get_uint32_from :: "byte list \<Rightarrow> nat \<Rightarrow> u64 \<Rightarrow> bool \<times> u32" where
  "get_uint32_from [] i v = (if i = 0 then (False, 0) else (True, ucast v))"
| "get_uint32_from (c # z) i v =
     (if sqlite3Isdigit c then
        let v = v * 10 + ucast c - 0x30
        in if 4294967296 < v then (False, 0) else get_uint32_from z (i + 1) v
      else (False, 0))"

definition sqlite3GetUInt32 :: "byte list \<Rightarrow> bool \<times> u32" where
  "sqlite3GetUInt32 z = get_uint32_from z 0 0"

subsection \<open>Arithmetic\<close>

text \<open>The result is the return value and the new \<open>*pA\<close>. \<open>builtin\<close> is the condition of the preprocessor: with GCC 5.4 or later the
  functions are the built-ins \<open>__builtin_add_overflow\<close> and so on, which store the result reduced to 64 bits also when it
  overflows; otherwise they are the portable code. C division truncates.\<close>

definition cdiv :: "int \<Rightarrow> int \<Rightarrow> int" where
  "cdiv a b = sgn a * sgn b * (\<bar>a\<bar> div \<bar>b\<bar>)"

definition builtin_overflow :: "int \<Rightarrow> int \<times> int" where
  "builtin_overflow x = (let v = sint (word_of_int x :: u64) in (if v = x then 0 else 1, v))"

definition sqlite3AddInt64 :: "bool \<Rightarrow> int \<Rightarrow> int \<Rightarrow> int \<times> int" where
  "sqlite3AddInt64 builtin iA iB =
     (if builtin then builtin_overflow (iA + iB)
      else if 0 \<le> iB then (if 0 < iA \<and> LARGEST_INT64 - iA < iB then (1, iA) else (0, iA + iB))
      else (if iA < 0 \<and> iB + 1 < - (iA + LARGEST_INT64) then (1, iA) else (0, iA + iB)))"

definition sqlite3SubInt64 :: "bool \<Rightarrow> int \<Rightarrow> int \<Rightarrow> int \<times> int" where
  "sqlite3SubInt64 builtin iA iB =
     (if builtin then builtin_overflow (iA - iB)
      else if iB = SMALLEST_INT64 then (if 0 \<le> iA then (1, iA) else (0, iA - iB)) else sqlite3AddInt64 builtin iA (- iB))"

definition sqlite3MulInt64 :: "bool \<Rightarrow> int \<Rightarrow> int \<Rightarrow> int \<times> int" where
  "sqlite3MulInt64 builtin iA iB =
     (if builtin then builtin_overflow (iA * iB)
      else if 0 < iB \<and> cdiv LARGEST_INT64 iB < iA then (1, iA)
      else if 0 < iB \<and> iA < cdiv SMALLEST_INT64 iB then (1, iA)
      else if iB < 0 \<and> 0 < iA \<and> iB < cdiv SMALLEST_INT64 iA then (1, iA)
      else if iB < 0 \<and> iA < 0 \<and> (iB = SMALLEST_INT64 \<or> iA = SMALLEST_INT64) then (1, iA)
      else if iB < 0 \<and> iA < 0 \<and> cdiv LARGEST_INT64 (- iB) < - iA then (1, iA)
      else (0, iA * iB))"

definition sqlite3AbsInt32 :: "int \<Rightarrow> int" where
  "sqlite3AbsInt32 x = (if 0 \<le> x then x else if x = - 2147483648 then 0x7fffffff else - x)"

section \<open>Lemmas\<close>

subsection \<open>Scanning UTF-8\<close>

lemma skip_while_append:
  "skip_while P (xs @ ys) 1 (length xs + length ys) (length xs) = length xs + length (takeWhile P ys)"
proof (induction ys arbitrary: xs)
  case Nil
  then show ?case by (simp add: skip_while.simps [of P xs])
next
  case (Cons y ys)
  show ?case
    using Cons.IH [of "xs @ [y]"]
    by (subst skip_while.simps) (simp add: incr_of_def nth_append)
qed

lemma atoi64_digits_append:
  "zNum + i = length xs \<Longrightarrow> atoi64_digits (xs @ ys) 1 (length xs + length ys) zNum i u
    = (i + length (takeWhile dec_digit ys), foldl (\<lambda>u c. u * 10 + ucast c - 0x30) u (takeWhile dec_digit ys))"
proof (induction ys arbitrary: xs i u)
  case Nil
  then show ?case by (subst atoi64_digits.simps) simp
next
  case (Cons y ys)
  have "atoi64_digits (xs @ y # ys) 1 (length xs + length (y # ys)) zNum (i + 1) (u * 10 + ucast y - 0x30)
      = (i + 1 + length (takeWhile dec_digit ys), foldl (\<lambda>u c. u * 10 + ucast c - 0x30) (u * 10 + ucast y - 0x30) (takeWhile dec_digit ys))"
    using Cons.IH [of "i + 1" "xs @ [y]"] Cons.prems by simp
  then show ?case using Cons.prems
    by (subst atoi64_digits.simps) (simp add: incr_of_def nth_append)
qed

subsection \<open>Digits\<close>

lemma dec_digit_cases:
  assumes "dec_digit c"
  shows "c \<in> set [0x30, 0x31, 0x32, 0x33, 0x34, 0x35, 0x36, 0x37, 0x38, 0x39]"
proof -
  have "48 \<le> unat c \<and> unat c \<le> 57" using assms by (simp add: dec_digit_def word_le_nat_alt)
  then have "unat c = 48 \<or> unat c = 49 \<or> unat c = 50 \<or> unat c = 51 \<or> unat c = 52 \<or> unat c = 53
      \<or> unat c = 54 \<or> unat c = 55 \<or> unat c = 56 \<or> unat c = 57" by presburger
  then show ?thesis by (auto simp: word_unat_eq_iff)
qed

lemma dec_digit_class: "dec_digit c \<Longrightarrow> \<not> sqlite3Isspace c \<and> c \<noteq> 0x2d \<and> c \<noteq> 0x2b \<and> sqlite3Isdigit c"
  using dec_digit_cases [of c] by (auto simp: ctype_def sqlite3CtypeMap_def)

lemma dec_digit_uint: "dec_digit c \<Longrightarrow> 48 \<le> uint c \<and> uint c \<le> 57"
  by (simp add: dec_digit_def word_le_def)

lemma sign_not_space: "\<not> sqlite3Isspace 0x2d" "\<not> sqlite3Isspace 0x2b"
  by (simp_all add: ctype_def sqlite3CtypeMap_def)

lemma space_not_digit: "sqlite3Isspace c \<Longrightarrow> \<not> dec_digit c"
  using dec_digit_class by blast

text \<open>Values of digit strings.\<close>

lemma dec_value_snoc: "dec_value (zs @ [c]) = dec_value zs * 10 + (uint c - 48)"
  by (simp add: dec_value_def)

lemma dec_value_nonneg: "list_all dec_digit zs \<Longrightarrow> 0 \<le> dec_value zs"
  by (induction zs rule: rev_induct) (auto simp: dec_value_snoc dec_value_def dest: dec_digit_uint)

lemma dec_value_less: "list_all dec_digit zs \<Longrightarrow> dec_value zs < 10 ^ length zs"
proof (induction zs rule: rev_induct)
  case (snoc c zs)
  then show ?case using dec_digit_uint [of c] by (simp add: dec_value_snoc)
qed (simp add: dec_value_def)

lemma dec_value_append: "dec_value (xs @ ys) = dec_value xs * 10 ^ length ys + dec_value ys"
proof (induction ys rule: rev_induct)
  case (snoc y ys)
  have "dec_value (xs @ ys @ [y]) = dec_value (xs @ ys) * 10 + (uint y - 48)"
    using dec_value_snoc [of "xs @ ys" y] by simp
  then show ?case using snoc by (simp add: dec_value_snoc algebra_simps)
qed (simp add: dec_value_def)

lemma dec_value_zeros: "dec_value (replicate k 0x30) = 0"
  by (induction k) (simp_all add: dec_value_def)

lemma dec_value_lower:
  assumes "list_all dec_digit (c # zs)" "c \<noteq> 0x30"
  shows "10 ^ length zs \<le> dec_value (c # zs)"
proof -
  have "dec_value (c # zs) = (uint c - 48) * 10 ^ length zs + dec_value zs"
    using dec_value_append [of "[c]" zs] by (simp add: dec_value_def)
  moreover have "1 \<le> uint c - 48"
    using assms dec_digit_uint [of c] by (auto simp: word_uint_eq_iff)
  moreover have "0 \<le> dec_value zs" using assms dec_value_nonneg by simp
  ultimately show ?thesis by (smt (verit, best) mult_left_le_imp_le mult_le_cancel_right1 zero_less_power)
qed

text \<open>The accumulator is the value modulo \<open>2 ^ 64\<close>.\<close>

lemma digits_word:
  "foldl (\<lambda>u c. u * 10 + ucast c - 0x30) (0 :: u64) ds = word_of_int (dec_value ds)"
proof (induction ds rule: rev_induct)
  case (snoc c ds)
  have "(ucast c :: u64) = word_of_int (uint c)" by simp
  then show ?case using snoc by (simp add: dec_value_snoc)
qed (simp add: dec_value_def)

lemma dec_value_Cons: "dec_value (c # zs) = (uint c - 48) * 10 ^ length zs + dec_value zs"
  using dec_value_append [of "[c]" zs] by (simp add: dec_value_def)

lemma compare_digits_sign:
  assumes "length zs = length ps" "list_all dec_digit zs" "list_all dec_digit ps"
  shows "sgn (compare_digits zs ps) = sgn (dec_value zs - dec_value ps)"
  using assms
proof (induction zs ps rule: list_induct2)
  case (Cons z zs p ps)
  define m :: int where "m = 10 ^ length zs"
  have b: "0 \<le> dec_value zs" "dec_value zs < m" "0 \<le> dec_value ps" "dec_value ps < m"
    using Cons.prems Cons.hyps dec_value_nonneg [of zs] dec_value_less [of zs] dec_value_nonneg [of ps] dec_value_less [of ps]
    unfolding m_def by simp_all
  have v: "dec_value (z # zs) - dec_value (p # ps) = (uint z - uint p) * m + (dec_value zs - dec_value ps)"
    using Cons.hyps by (simp add: dec_value_Cons m_def algebra_simps)
  consider "uint z = uint p" | "uint z < uint p" | "uint p < uint z" by linarith
  then show ?case
  proof cases
    case 1
    then show ?thesis using Cons v by simp
  next
    case 2
    then have "(uint z - uint p) * m \<le> - m" using b mult_right_mono [of "uint z - uint p" "- 1" m] by simp
    then have "dec_value (z # zs) - dec_value (p # ps) < 0" using b v by linarith
    then show ?thesis using 2 by (simp add: sgn_if)
  next
    case 3
    then have "m \<le> (uint z - uint p) * m" using b mult_right_mono [of 1 "uint z - uint p" m] by simp
    then have "0 < dec_value (z # zs) - dec_value (p # ps)" using b v by linarith
    then show ?thesis using 3 by (simp add: sgn_if)
  qed
qed simp

lemma pow63_digits: "length pow63 = 18" "list_all dec_digit pow63" "dec_value pow63 = 922337203685477580"
  by code_simp+

lemma compare2pow63_sign:
  assumes "length es = 19" "list_all dec_digit es"
  shows "sgn (compare2pow63 (xs @ es @ ys) (length xs) 1) = sgn (dec_value es - 2 ^ 63)"
proof -
  obtain hs c where es: "es = hs @ [c]" "length hs = 18" using assms(1) by (cases es rule: rev_cases) auto
  have m: "map (\<lambda>i. (xs @ es @ ys) ! (length xs + i * 1)) [0..<18] = hs"
    by (rule nth_equalityI) (auto simp: es nth_append)
  have c: "(xs @ es @ ys) ! (length xs + 18 * 1) = c" by (simp add: es nth_append)
  have d: "dec_digit c" "list_all dec_digit hs" using assms(2) es by auto
  have "sgn (compare_digits hs pow63) = sgn (dec_value hs - 922337203685477580)"
    using compare_digits_sign [of hs pow63] d es pow63_digits by simp
  moreover have "dec_value es = dec_value hs * 10 + (uint c - 48)" using es by (simp add: dec_value_snoc)
  ultimately show ?thesis
    unfolding compare2pow63_def m c using dec_digit_uint [OF d(1)]
    by (simp add: sgn_if Let_def split: if_splits)
qed

subsection \<open>The decimal parser on its own language\<close>

lemma takeWhile_all: "list_all P xs \<Longrightarrow> (ys = [] \<or> \<not> P (hd ys)) \<Longrightarrow> takeWhile P (xs @ ys) = xs"
  by (induction xs) (auto simp: takeWhile_eq_Nil_iff)

text \<open>What a digit string stands for: the return code and the stored value.\<close>

definition atoi64_spec :: "bool \<Rightarrow> int \<Rightarrow> int \<times> int" where
  "atoi64_spec neg n =
     (if neg then (if n \<le> 2 ^ 63 then (0, - n) else (2, SMALLEST_INT64))
      else (if n < 2 ^ 63 then (0, n) else if n = 2 ^ 63 then (3, LARGEST_INT64) else (2, LARGEST_INT64)))"

lemma atoi64_finish:
  fixes u :: u64
  assumes es: "list_all dec_digit es" "es = [] \<or> hd es \<noteq> 0x30" and u: "u = word_of_int (dec_value es)"
    and c: "length es = 19 \<Longrightarrow> sgn c = sgn (dec_value es - 2 ^ 63)"
    and limit: "limit = (if neg then SMALLEST_INT64 else LARGEST_INT64)"
    and num: "num = (if LARGEST_INT64 < uint u then limit else if neg then - uint u else uint u)"
  shows "(if length es < 19 then (0, num)
      else let c = (if 19 < length es then 1 else c)
           in if c < 0 then (0, num) else if 0 < c then (2, limit) else (if neg then 0 else 3, limit))
    = atoi64_spec neg (dec_value es)"
proof -
  note b = dec_value_nonneg [OF es(1)] dec_value_less [OF es(1)]
  consider "length es < 19" | "length es = 19" | "19 < length es" by linarith
  then show ?thesis
  proof cases
    case 1
    then have "(10 :: int) ^ length es \<le> 10 ^ 18" by (intro power_increasing) simp_all
    then have v: "dec_value es < 10 ^ 18" using b by linarith
    then have "uint u = dec_value es" using b u by (simp add: uint_word_of_int_eq take_bit_int_eq_self)
    then show ?thesis using 1 v by (simp add: num limit atoi64_spec_def)
  next
    case 2
    then have "uint u = dec_value es" using b u by (simp add: uint_word_of_int_eq take_bit_int_eq_self)
    then show ?thesis using 2 c b by (auto simp: num limit atoi64_spec_def sgn_if split: if_splits)
  next
    case 3
    then obtain d ds where d: "es = d # ds" "19 \<le> length ds" by (cases es) auto
    have "(10 :: int) ^ 19 \<le> 10 ^ length ds" using d by (intro power_increasing) simp_all
    then have "10 ^ 19 \<le> dec_value es" using dec_value_lower [of d ds] es d by simp
    then show ?thesis using 3 by (simp add: limit atoi64_spec_def)
  qed
qed

lemma strip_zeros: "\<exists>k es. ds = replicate k 0x30 @ es \<and> (es = [] \<or> hd es \<noteq> (0x30 :: byte))"
proof (induction ds)
  case (Cons d ds)
  then obtain k es where "ds = replicate k 0x30 @ es" "es = [] \<or> hd es \<noteq> (0x30 :: byte)" by blast
  then show ?case
    by (cases "d = 0x30") (auto intro: exI [of _ "Suc k"] exI [of _ "0 :: nat"])
qed simp

text \<open>White space, a sign, digits, white space: the whole text is consumed.\<close>

lemma atoi64_decimal:
  assumes ws: "list_all sqlite3Isspace ws" "list_all sqlite3Isspace tr"
    and ds: "list_all dec_digit ds" "ds \<noteq> []"
    and sg: "sg = (if neg then [0x2d] else if plus_sign then [0x2b] else [])"
  shows "sqlite3Atoi64 (ws @ sg @ ds @ tr) (length (ws @ sg @ ds @ tr)) 1 = atoi64_spec neg (dec_value ds)"
proof -
  obtain k es where e: "ds = replicate k 0x30 @ es" "es = [] \<or> hd es \<noteq> (0x30 :: byte)" using strip_zeros by blast
  let ?z = "ws @ sg @ ds @ tr"
  have es: "list_all dec_digit es" using ds e by simp
  have tr: "tr = [] \<or> sqlite3Isspace (hd tr)" using ws by (cases tr) auto
  have hd: "dec_digit (hd ds)" using ds by (cases ds) auto
  have s1: "skip_while sqlite3Isspace ?z 1 (length ?z) 0 = length ws"
  proof -
    have "takeWhile sqlite3Isspace ?z = ws"
      using ws(1) sg sign_not_space dec_digit_class [OF hd] ds(2) by (intro takeWhile_all) auto
    then show ?thesis using skip_while_append [of sqlite3Isspace "[]" ?z] by simp
  qed
  define p where "p = length (ws @ sg)"
  have s2: "skip_while (\<lambda>c. c = 0x30) ?z 1 (length ?z) p = p + k"
  proof -
    have "es @ tr = [] \<or> hd (es @ tr) \<noteq> 0x30"
      using e(2) tr dec_digit_class [of "0x30"] by (cases es; cases tr) (auto simp: dec_digit_def)
    then have "takeWhile (\<lambda>c. c = 0x30) (replicate k 0x30 @ es @ tr) = replicate k (0x30 :: byte)"
      by (intro takeWhile_all) (auto simp: list_all_iff)
    then show ?thesis
      using skip_while_append [of "\<lambda>c. c = 0x30" "ws @ sg" "ds @ tr"] e(1) by (simp add: p_def add.assoc)
  qed
  have s3: "atoi64_digits ?z 1 (length ?z) (p + k) 0 0 = (length es, word_of_int (dec_value es))"
  proof -
    have "takeWhile dec_digit (es @ tr) = es"
      using es tr space_not_digit by (intro takeWhile_all) auto
    then show ?thesis
      using atoi64_digits_append [of "p + k" 0 "ws @ sg @ replicate k 0x30" "es @ tr" 0] digits_word [of es] e(1)
      by (simp add: p_def add.assoc)
  qed
  have s4: "skip_while sqlite3Isspace ?z 1 (length ?z) (p + k + length es) = length ?z"
    using skip_while_append [of sqlite3Isspace "ws @ sg @ ds" tr] ws(2) e(1)
    by (simp add: p_def add.assoc list_all_iff takeWhile_eq_all_conv [THEN iffD2])
  have c: "length es = 19 \<Longrightarrow> sgn (compare2pow63 ?z (p + k) 1) = sgn (dec_value es - 2 ^ 63)"
    using compare2pow63_sign [of es "ws @ sg @ replicate k 0x30" tr] es e(1) by (simp add: p_def add.assoc)
  have v: "dec_value ds = dec_value es" using e(1) by (simp add: dec_value_append dec_value_zeros)
  have sign: "(if length ws < length ?z \<and> ?z ! length ws = 0x2d then (True, length ws + 1)
      else if length ws < length ?z \<and> ?z ! length ws = 0x2b then (False, length ws + 1)
      else (False, length ws)) = (neg, p)"
    using sg ds(2) dec_digit_class [OF hd] by (auto simp: p_def nth_append hd_conv_nth)
  have rc: "(length es = 0 \<and> p = p + k) = False" using ds(2) e(1) by auto
  show ?thesis
    unfolding sqlite3Atoi64_def incr_of_def v
    using atoi64_finish [OF es e(2) refl c refl refl]
    by (simp only: Let_def if_True if_False simp_thms prod.case s1 sign s2 s3 s4 rc less_irrefl mult_1_right)
qed

subsection \<open>Printed integers\<close>

lemma digit_char:
  fixes x :: u64
  shows "uint (ucast (x mod 10) + 0x30 :: byte) = uint x mod 10 + 48" "dec_digit (ucast (x mod 10) + 0x30)"
proof -
  have m: "uint (x mod 10) = uint x mod 10" by (simp add: uint_mod)
  have "0 \<le> uint x mod 10" "uint x mod 10 < 10" by simp_all
  then show *: "uint (ucast (x mod 10) + 0x30 :: byte) = uint x mod 10 + 48"
    by (simp add: uint_word_ariths unsigned_ucast_eq m take_bit_eq_mod)
  show "dec_digit (ucast (x mod 10) + 0x30)"
    unfolding dec_digit_def word_le_def * using \<open>0 \<le> uint x mod 10\<close> \<open>uint x mod 10 < 10\<close> by simp
qed

lemma int64_digits_sound:
  "\<exists>ds. int64_digits x zTemp = ds @ zTemp \<and> ds \<noteq> [] \<and> list_all dec_digit ds \<and> dec_value ds = uint x
    \<and> (length ds = 1 \<or> 10 ^ (length ds - 1) \<le> uint x)"
proof (induction x zTemp rule: int64_digits.induct)
  case (1 x zTemp)
  let ?c = "ucast (x mod 10) + 0x30 :: byte"
  have d: "uint (x div 10) = uint x div 10" by (simp add: uint_div)
  show ?case
  proof (cases "x div 10 = 0")
    case True
    then have "uint x div 10 = 0" using d by (metis unsigned_0)
    then have "dec_value [?c] = uint x" using digit_char(1) [of x] by (simp add: dec_value_def)
    then show ?thesis using True digit_char(2) [of x] by (subst int64_digits.simps) (auto intro!: exI [of _ "[?c]"])
  next
    case False
    then obtain ds where ds: "int64_digits (x div 10) (?c # zTemp) = ds @ ?c # zTemp" "ds \<noteq> []"
      "list_all dec_digit ds" "dec_value ds = uint x div 10" "length ds = 1 \<or> 10 ^ (length ds - 1) \<le> uint x div 10"
      using 1 [OF refl refl False] d by auto
    have "dec_value (ds @ [?c]) = uint x" using ds(4) digit_char(1) [of x] by (simp add: dec_value_snoc)
    moreover have "10 ^ length ds \<le> uint x"
    proof -
      have "0 \<le> uint x div 10" by (simp add: pos_imp_zdiv_nonneg_iff)
      moreover have "uint x div 10 \<noteq> 0" using False d by (metis uint_0_iff)
      ultimately have "10 ^ (length ds - 1) \<le> uint x div 10" using ds(5) by auto
      moreover have "(10 :: int) ^ length ds = 10 ^ (length ds - 1) * 10" using ds(2) by (cases ds) auto
      ultimately show ?thesis by linarith
    qed
    ultimately show ?thesis using ds False digit_char(2) [of x]
      by (subst int64_digits.simps) (auto intro!: exI [of _ "ds @ [?c]"])
  qed
qed

lemma uint_of_int64: "0 \<le> w \<Longrightarrow> w < 2 ^ 64 \<Longrightarrow> uint (word_of_int w :: u64) = w"
  by (simp add: uint_word_of_int_eq take_bit_int_eq_self)

lemma digits_length:
  assumes "length ds = 1 \<or> (10 :: int) ^ (length ds - 1) \<le> v" "v \<le> 2 ^ 63"
  shows "length ds \<le> 19"
proof (rule ccontr)
  assume "\<not> length ds \<le> 19"
  then have "(10 :: int) ^ 19 \<le> 10 ^ (length ds - 1)" by (intro power_increasing) simp_all
  then show False using assms \<open>\<not> length ds \<le> 19\<close> by auto
qed

lemma int64_text_shape:
  assumes "SMALLEST_INT64 \<le> v" "v \<le> LARGEST_INT64"
  shows "\<exists>ds. sqlite3Int64ToText v = (if v < 0 then [0x2d] else []) @ ds \<and> ds \<noteq> [] \<and> list_all dec_digit ds
    \<and> dec_value ds = \<bar>v\<bar> \<and> length ds \<le> 19"
proof -
  define x :: u64 where "x = (if v < 0 then (if v = SMALLEST_INT64 then push_bit 63 1 else word_of_int (- v)) else word_of_int v)"
  have x: "uint x = \<bar>v\<bar>"
  proof (cases "v < 0")
    case True
    then have "uint (word_of_int (- v) :: u64) = - v" using assms by (intro uint_of_int64) simp_all
    then show ?thesis using True by (simp add: x_def del: of_int_minus)
  next
    case False
    then show ?thesis using assms uint_of_int64 [of v] by (simp add: x_def)
  qed
  obtain ds where ds: "int64_digits x [] = ds" "ds \<noteq> []" "list_all dec_digit ds" "dec_value ds = \<bar>v\<bar>"
    "length ds = 1 \<or> 10 ^ (length ds - 1) \<le> \<bar>v\<bar>"
    using int64_digits_sound [of x "[]"] x by auto
  moreover have "\<bar>v\<bar> \<le> 2 ^ 63" using assms by simp
  ultimately have "length ds \<le> 19" using digits_length by blast
  then show ?thesis using ds by (auto simp: sqlite3Int64ToText_def x_def Let_def)
qed

subsection \<open>Unsigned 32-bit text\<close>

lemma u64_digit_bound: "uint v \<le> 4294967296 \<Longrightarrow> uint d \<le> 57 \<Longrightarrow> uint (v :: u64) * 10 + (uint (d :: byte) - 48) < 2 ^ 64"
  by simp

lemma get_uint32_from_digits:
  assumes "list_all dec_digit ds" "uint v \<le> 4294967296" "0 < i \<or> ds \<noteq> []"
  shows "get_uint32_from ds i v =
    (let w = uint v * 10 ^ length ds + dec_value ds
     in if w \<le> 4294967296 then (True, word_of_int w) else (False, 0))"
  using assms
proof (induction ds arbitrary: i v)
  case Nil
  then show ?case by (simp add: dec_value_def word_of_int_uint [symmetric] del: word_of_int_uint)
next
  case (Cons d ds)
  let ?v = "v * 10 + ucast d - 0x30 :: u64"
  have d: "48 \<le> uint d" "uint d \<le> 57" "sqlite3Isdigit d"
    using Cons.prems(1) dec_digit_uint dec_digit_class by auto
  have "?v = word_of_int (uint v) * 10 + word_of_int (uint d) - 0x30" by (simp only: ucast_eq word_of_int_uint)
  then have "?v = word_of_int (uint v * 10 + (uint d - 48))" by (simp only: of_int_add of_int_diff of_int_mult of_int_numeral) simp
  then have v: "uint ?v = uint v * 10 + (uint d - 48)"
    using d Cons.prems(2) uint_of_int64 [of "uint v * 10 + (uint d - 48)"] unsigned_greater_eq [of v] 
    by (metis (no_types, opaque_lifting) add_nonneg_nonneg diff_ge_0_iff_ge mult_nonneg_nonneg u64_digit_bound zero_le_numeral)
  have w: "uint v * 10 ^ length (d # ds) + dec_value (d # ds) = uint ?v * 10 ^ length ds + dec_value ds"
    unfolding v by (simp add: dec_value_Cons algebra_simps)
  have n: "0 \<le> dec_value ds" using Cons.prems(1) dec_value_nonneg by simp
  show ?case
  proof (cases "4294967296 < ?v")
    case True
    then have "4294967296 < uint ?v" by (simp add: word_less_def)
    moreover have "uint ?v \<le> uint ?v * 10 ^ length ds" by (simp add: mult_le_cancel_left1)
    ultimately have "\<not> uint ?v * 10 ^ length ds + dec_value ds \<le> 4294967296" using n by linarith
    then show ?thesis using True d(3) unfolding w by (simp add: Let_def)
  next
    case False
    then have "uint ?v \<le> 4294967296" by (simp add: word_less_def)
    then show ?thesis using Cons.IH [of ?v "i + 1"] Cons.prems(1) d(3) False unfolding w by (simp add: Let_def)
  qed
qed

subsection \<open>Checked arithmetic\<close>

definition int64_result :: "int \<Rightarrow> int \<Rightarrow> int \<times> int" where
  "int64_result old r = (if SMALLEST_INT64 \<le> r \<and> r \<le> LARGEST_INT64 then (0, r) else (1, old))"

lemma div_less_iff: "0 < b \<Longrightarrow> n div b < m \<longleftrightarrow> n < m * b" for n b m :: int
proof -
  assume b: "0 < b"
  have "m \<le> n div b \<longleftrightarrow> m * b \<le> n"
  proof
    assume "m \<le> n div b"
    then have "m * b \<le> (n div b) * b" using b by simp
    moreover have "(n div b) * b \<le> n" using div_mult_mod_eq [of n b] pos_mod_sign [OF b, of n] by linarith
    ultimately show "m * b \<le> n" by linarith
  next
    assume "m * b \<le> n"
    then have "m * b div b \<le> n div b" using b by (intro zdiv_mono1)
    then show "m \<le> n div b" using b by simp
  qed
  then show ?thesis by linarith
qed

lemma mul_guards:
  "0 < b \<Longrightarrow> cdiv LARGEST_INT64 b < a \<longleftrightarrow> LARGEST_INT64 < a * b"
  "0 < b \<Longrightarrow> a < cdiv SMALLEST_INT64 b \<longleftrightarrow> a * b < SMALLEST_INT64"
  using div_less_iff [of b LARGEST_INT64 a] div_less_iff [of b "- SMALLEST_INT64" "- a"]
  by (auto simp: cdiv_def)

lemma mul_exact:
  assumes "SMALLEST_INT64 \<le> a" "a \<le> LARGEST_INT64" "SMALLEST_INT64 \<le> b" "b \<le> LARGEST_INT64"
  shows "sqlite3MulInt64 False a b = int64_result a (a * b)"
proof -
  consider "b = 0" | "0 < b" | "b < 0" "a = 0" | "b < 0" "0 < a" | "b < 0" "a < 0" by linarith
  then show ?thesis
  proof cases
    case 2
    then show ?thesis using mul_guards [OF 2, of a] unfolding sqlite3MulInt64_def int64_result_def by auto
  next
    case 4
    then have "a * b \<le> 0" by (simp add: mult_nonneg_nonpos)
    moreover have "b < cdiv SMALLEST_INT64 a \<longleftrightarrow> a * b < SMALLEST_INT64" using mul_guards(2) [of a b] 4 by (simp add: mult.commute)
    ultimately show ?thesis using 4 unfolding sqlite3MulInt64_def int64_result_def by auto
  next
    case 5
    then have p: "0 \<le> a * b" "cdiv LARGEST_INT64 (- b) < - a \<longleftrightarrow> LARGEST_INT64 < a * b"
      using mul_guards(1) [of "- b" "- a"] by (auto simp: mult_nonpos_nonpos)
    have "a = SMALLEST_INT64 \<or> b = SMALLEST_INT64 \<Longrightarrow> LARGEST_INT64 < a * b"
      using 5 assms mult_left_mono_neg [of b "- 1" a] mult_right_mono_neg [of a "- 1" b] by auto
    then show ?thesis using 5 p unfolding sqlite3MulInt64_def int64_result_def by auto
  qed (auto simp: sqlite3MulInt64_def int64_result_def)
qed

lemma builtin_overflow_exact:
  "builtin_overflow x = (if SMALLEST_INT64 \<le> x \<and> x \<le> LARGEST_INT64 then (0, x) else (1, (x + 2 ^ 63) mod 2 ^ 64 - 2 ^ 63))"
proof -
  have v: "sint (word_of_int x :: u64) = (x + 2 ^ 63) mod 2 ^ 64 - 2 ^ 63"
    by (simp add: sint_sbintrunc' signed_take_bit_eq_take_bit_shift take_bit_eq_mod)
  have "(x + 2 ^ 63) mod 2 ^ 64 - 2 ^ 63 = x \<longleftrightarrow> SMALLEST_INT64 \<le> x \<and> x \<le> LARGEST_INT64"
  proof
    assume "(x + 2 ^ 63) mod 2 ^ 64 - 2 ^ 63 = x"
    then show "SMALLEST_INT64 \<le> x \<and> x \<le> LARGEST_INT64"
      using pos_mod_bound [of "2 ^ 64" "x + 2 ^ 63"] pos_mod_sign [of "2 ^ 64" "x + 2 ^ 63"] by simp
  qed (simp add: mod_pos_pos_trivial)
  then show ?thesis by (auto simp: builtin_overflow_def v Let_def)
qed

section \<open>Properties\<close>

text \<open>The text \<open>sqlite3Int64ToText\<close> prints for a 64-bit integer fits the 21 bytes its callers provide, and
  \<open>sqlite3Atoi64\<close> reads the same integer back without an error, for every value including the smallest.\<close>

theorem int64_text_roundtrip:
  assumes "SMALLEST_INT64 \<le> v" "v \<le> LARGEST_INT64"
  shows "sqlite3Atoi64 (sqlite3Int64ToText v) (length (sqlite3Int64ToText v)) 1 = (0, v)
    \<and> length (sqlite3Int64ToText v) + 1 \<le> 21"
proof -
  obtain ds where ds: "sqlite3Int64ToText v = (if v < 0 then [0x2d] else []) @ ds" "ds \<noteq> []" "list_all dec_digit ds"
    "dec_value ds = \<bar>v\<bar>" "length ds \<le> 19"
    using int64_text_shape [OF assms] by blast
  have "sqlite3Atoi64 (sqlite3Int64ToText v) (length (sqlite3Int64ToText v)) 1 = atoi64_spec (v < 0) \<bar>v\<bar>"
    using atoi64_decimal [of "[]" "[]" ds _ "v < 0" False] ds by (cases "v < 0") auto
  then show ?thesis using assms ds by (auto simp: atoi64_spec_def)
qed

theorem int64_text_roundtrip_witness:
  "sqlite3Atoi64 (sqlite3Int64ToText SMALLEST_INT64) (length (sqlite3Int64ToText SMALLEST_INT64)) 1 = (0, SMALLEST_INT64)"
  using int64_text_roundtrip [of SMALLEST_INT64] by simp

text \<open>C37. \<open>sqlite3Atoi64\<close> on a decimal literal, with any white space around it, any sign and any number of leading
  zeros and digits: return code 0 and the exact value when it fits 64 bits; the special code 3 for exactly
  \<open>9223372036854775808\<close>; code 2 and the nearest limit beyond that, even where the 64-bit accumulator has wrapped.\<close>

theorem atoi64_exact:
  assumes "list_all sqlite3Isspace ws" "list_all sqlite3Isspace tr" "list_all dec_digit ds" "ds \<noteq> []"
    and "sg = (if neg then [0x2d] else if plus_sign then [0x2b] else [])"
  shows "sqlite3Atoi64 (ws @ sg @ ds @ tr) (length (ws @ sg @ ds @ tr)) 1 =
    (let n = (if neg then - dec_value ds else dec_value ds)
     in if SMALLEST_INT64 \<le> n \<and> n \<le> LARGEST_INT64 then (0, n)
        else if n = LARGEST_INT64 + 1 then (3, LARGEST_INT64)
        else (2, if neg then SMALLEST_INT64 else LARGEST_INT64))"
  using atoi64_decimal [OF assms] dec_value_nonneg [OF assms(3)] by (auto simp: atoi64_spec_def)

theorem atoi64_exact_witness:
  "sqlite3Atoi64 ([0x20] @ [0x2d] @ replicate 40 0x39 @ [0x0a]) 43 1 = (2, SMALLEST_INT64)"
proof -
  have "dec_value (replicate 40 0x39) = 10 ^ 40 - 1" by code_simp
  then show ?thesis
    using atoi64_exact [of "[0x20]" "[0x0a]" "replicate 40 0x39" "[0x2d]" True False]
    by (simp add: ctype_def sqlite3CtypeMap_def dec_digit_def list_all_iff)
qed

text \<open>\<open>sqlite3GetUInt32\<close> accepts a string of digits exactly when its value is at most \<open>2 ^ 32\<close>, and stores the value
  modulo \<open>2 ^ 32\<close>: the string \<open>4294967296\<close>, one above the largest unsigned 32-bit value, is accepted and stored as 0.\<close>

theorem getUInt32_exact:
  assumes "list_all dec_digit ds" "ds \<noteq> []"
  shows "sqlite3GetUInt32 ds =
    (if dec_value ds \<le> 4294967296 then (True, word_of_int (dec_value ds)) else (False, 0))"
  using get_uint32_from_digits [of ds 0 0] assms by (simp add: sqlite3GetUInt32_def)

theorem getUInt32_exact_witness:
  "sqlite3GetUInt32 (map of_char ''4294967296'') = (True, 0)"
proof -
  have "dec_value (map of_char ''4294967296'') = 4294967296" by code_simp
  moreover have "list_all dec_digit (map of_char ''4294967296'')" by code_simp
  ultimately show ?thesis using getUInt32_exact [of "map of_char ''4294967296''"] by simp
qed

text \<open>C38. The overflow-checked 64-bit operations, in both ways they can be compiled: the exact sum, difference or product with
  return value 0 when it is a 64-bit integer, and otherwise return value 1. The operand is then unchanged in the portable
  code, as the comment says; with the compiler's built-ins it holds the result reduced modulo \<open>2 ^ 64\<close> to a signed integer.\<close>

theorem int64_arith_exact:
  assumes "SMALLEST_INT64 \<le> a" "a \<le> LARGEST_INT64" "SMALLEST_INT64 \<le> b" "b \<le> LARGEST_INT64"
    and "result = (\<lambda>x. if SMALLEST_INT64 \<le> x \<and> x \<le> LARGEST_INT64 then (0, x)
           else (1, if builtin then (x + 2 ^ 63) mod 2 ^ 64 - 2 ^ 63 else a))"
  shows "sqlite3AddInt64 builtin a b = result (a + b) \<and> sqlite3SubInt64 builtin a b = result (a - b)
    \<and> sqlite3MulInt64 builtin a b = result (a * b)"
proof (cases builtin)
  case True
  then show ?thesis by (simp add: sqlite3AddInt64_def sqlite3SubInt64_def sqlite3MulInt64_def builtin_overflow_exact assms(5))
next
  case False
  have "sqlite3AddInt64 False a b = int64_result a (a + b)"
    using assms by (auto simp: sqlite3AddInt64_def int64_result_def)
  moreover have "sqlite3SubInt64 False a b = int64_result a (a - b)"
    using assms by (auto simp: sqlite3SubInt64_def sqlite3AddInt64_def int64_result_def)
  moreover have "sqlite3MulInt64 False a b = int64_result a (a * b)" by (rule mul_exact [OF assms(1-4)])
  moreover have "int64_result a x = result x" for x using False by (simp add: int64_result_def assms(5))
  ultimately show ?thesis using False by simp
qed

theorem int64_arith_exact_witness:
  "sqlite3MulInt64 False (- 4294967296) 2147483648 = (0, SMALLEST_INT64) \<and> sqlite3MulInt64 False 4294967296 2147483648 = (1, 4294967296)
   \<and> sqlite3MulInt64 True 4294967296 2147483648 = (1, SMALLEST_INT64)"
  using int64_arith_exact [OF _ _ _ _ refl, of "- 4294967296" 2147483648 False] int64_arith_exact [OF _ _ _ _ refl, of 4294967296 2147483648]
  by simp

end
