(* ===== verification/Codec_Pragma.thy ===== *)
theory Codec_Pragma
  imports Codec_Api Util_Int
begin

text \<open>
  The configuration interface of \<open>src/sqlcipher.c\<close>: \<open>sqlcipher_codec_pragma\<close> with one definition per pragma it handles,
  and the log and profile settings behind it.

  The state carries the connection and the rows the pragma has returned (\<open>pg_rows\<close>: column name and value, \<open>None\<close> for a
  NULL value, in the order of the result). A pragma argument \<open>zRight\<close> is an option, \<open>None\<close> for a pragma without one. The pragma is
  given the database index; \<open>bt\<close> below is that database's B-tree, \<open>None\<close> when it has none. \<open>sqlite3_mprintf\<close> is taken to
  succeed. The result is \<open>None\<close> where the C code writes through NULL. Queries answered by the provider, the opening of files and
  \<open>sqlcipher_codec_ctx_migrate\<close> are parameters. The pragmas of the \<open>SQLCIPHER_TEST\<close> build and log messages are left out.
\<close>

section \<open>Definitions\<close>

subsection \<open>Text\<close>

definition str :: "string \<Rightarrow> byte list" where
  "str s = map of_char s"

text \<open>\<open>atoi\<close> of the C library: \<open>strtol\<close> saturates at the limits of \<open>long\<close>, the result is cut to an \<open>int\<close>.\<close>

definition c_atoi :: "byte list \<Rightarrow> int" where
  "c_atoi z =
     (let z = dropWhile sqlite3Isspace z;
          (neg, z) = (if chr_at z 0 = 0x2d then (True, drop 1 z) else if chr_at z 0 = 0x2b then (False, drop 1 z) else (False, z));
          n = dec_value (takeWhile dec_digit z);
          v = (if neg then - n else n);
          v = (if v < SMALLEST_INT64 then SMALLEST_INT64 else if LARGEST_INT64 < v then LARGEST_INT64 else v)
      in sint (word_of_int v :: u32))"

text \<open>\<open>%d\<close> of \<open>sqlite3_mprintf\<close>.\<close>

definition mprintf_d :: "int \<Rightarrow> byte list" where
  "mprintf_d v =
     (let longvalue = (if v < 0 then NOT (word_of_int v) + 1 else word_of_int v)
      in if v < 0 then 0x2d # int64_digits longvalue [] else int64_digits longvalue [])"

text \<open>\<open>%d\<close> given a wider or unsigned argument: the low 32 bits as an \<open>int\<close>.\<close>

definition mprintf_i32 :: "int \<Rightarrow> byte list" where
  "mprintf_i32 v = mprintf_d (sint (word_of_int v :: u32))"

definition mprintf_bool :: "bool \<Rightarrow> byte list" where
  "mprintf_bool b = mprintf_d (if b then 1 else 0)"

text \<open>\<open>sqlite3GetBoolean\<close> of \<open>pragma.c\<close>: the words are cut out of one string.\<close>

definition safety_table :: "(nat \<times> nat \<times> nat) list" where
  "safety_table = [(0, 2, 1), (1, 2, 0), (2, 3, 0), (4, 5, 0), (9, 3, 1), (12, 4, 1), (15, 5, 3), (20, 4, 2)]"

fun safety_scan :: "byte list \<Rightarrow> bool \<Rightarrow> nat \<Rightarrow> (nat \<times> nat \<times> nat) list \<Rightarrow> nat" where
  "safety_scan z omitFull dflt [] = dflt"
| "safety_scan z omitFull dflt ((off, len, val) # es) =
     (if len = length z \<and> sqlite3_strnicmp (Some (drop off (str ''onoffalseyestruextrafull''))) (Some z) (int len) = 0
         \<and> (\<not> omitFull \<or> val \<le> 1)
      then val else safety_scan z omitFull dflt es)"

definition getSafetyLevel :: "byte list \<Rightarrow> bool \<Rightarrow> nat \<Rightarrow> nat" where
  "getSafetyLevel z omitFull dflt =
     (if sqlite3Isdigit (chr_at z 0) then nat (sqlite3Atoi z mod 256) else safety_scan z omitFull dflt safety_table)"

definition sqlite3GetBoolean :: "byte list \<Rightarrow> nat \<Rightarrow> bool" where
  "sqlite3GetBoolean z dflt \<longleftrightarrow> getSafetyLevel z True dflt \<noteq> 0"

subsection \<open>State\<close>

datatype out_target = Out_Off | Out_Stdout | Out_Stderr | Out_Device | Out_File "byte list"

record 'p pragma_state = "'p api_state" +
  pg_conn :: conn
  pg_rows :: "(byte list \<times> byte list option) list"
  pg_profile :: out_target
  log_level :: u32
  log_source :: u32
  log_target :: out_target
  mem_security_on :: bool
  mem_executed :: bool

record ('p, 's) pragma_env =
  pe_sys :: sys_env
  pe_tmp_malloc :: bool
  pe_fopen :: "byte list \<Rightarrow> bool"
  pe_version :: "byte list"
  pe_fips_status :: "'p \<Rightarrow> int"
  pe_provider_name :: "'p \<Rightarrow> byte list"
  pe_provider_version :: "'p \<Rightarrow> byte list"
  pe_cipher_name :: "'p \<Rightarrow> byte list"
  pe_migrate :: "'p codec_ctx \<Rightarrow> 's \<Rightarrow> int \<times> 's"

type_synonym 'p pg_env = "('p, 'p pragma_state) pragma_env"

definition sqlcipher_vdbe_return_string ::
    "byte list \<Rightarrow> byte list option \<Rightarrow> 'p pragma_state \<Rightarrow> 'p pragma_state" where
  "sqlcipher_vdbe_return_string label val st = st\<lparr>pg_rows := pg_rows st @ [(label, val)]\<rparr>"

definition row :: "string \<Rightarrow> byte list \<Rightarrow> 'p pragma_state \<Rightarrow> 'p pragma_state" where
  "row label val st = sqlcipher_vdbe_return_string (str label) (Some val) st"

definition codec_of :: "nat option \<Rightarrow> 'p pragma_state \<Rightarrow> 'p codec_ctx option" where
  "codec_of bt st = (case bt of None \<Rightarrow> None | Some b \<Rightarrow> pager_codec st b)"

definition put_codec :: "nat option \<Rightarrow> 'p codec_ctx \<Rightarrow> 'p pragma_state \<Rightarrow> 'p pragma_state" where
  "put_codec bt ctx st = (case bt of None \<Rightarrow> st | Some b \<Rightarrow> st\<lparr>pager_codec := (pager_codec st)(b := Some ctx)\<rparr>)"

text \<open>\<open>if(ctx)\<close> around the work of a pragma.\<close>

definition if_ctx ::
    "nat option \<Rightarrow> ('p codec_ctx \<Rightarrow> 'p pragma_state \<Rightarrow> 'p pragma_state) \<Rightarrow> 'p pragma_state \<Rightarrow> 'p pragma_state" where
  "if_ctx bt f st = (case codec_of bt st of None \<Rightarrow> st | Some ctx \<Rightarrow> f ctx st)"

text \<open>\<open>if(rc != SQLITE_OK) sqlcipher_codec_ctx_set_error(ctx, err)\<close>.\<close>

definition err_if ::
    "int \<Rightarrow> int \<Rightarrow> 'p codec_ctx \<times> 'p pragma_state \<Rightarrow> 'p codec_ctx \<times> 'p pragma_state" where
  "err_if rc err = (\<lambda>(ctx, st). if rc \<noteq> SQLITE_OK then sqlcipher_codec_ctx_set_error ctx err st else (ctx, st))"

text \<open>The call of \<open>codec_set_btree_to_codec_pagesize\<close> that ends a change of parameters, with its error handling; \<open>err\<close> is
  the code recorded, given the one returned. The context goes back to the pager.\<close>

definition sync_btree ::
    "'p pg_env \<Rightarrow> nat option \<Rightarrow> (int \<Rightarrow> int) \<Rightarrow> 'p codec_ctx \<times> 'p pragma_state \<Rightarrow> 'p pragma_state" where
  "sync_btree env bt err = (\<lambda>(ctx, st).
     case bt of
       None \<Rightarrow> st
     | Some b \<Rightarrow>
         let (rc, db, st) = codec_set_btree_to_codec_pagesize (pe_sys env) (pg_conn st) b ctx st;
             (ctx, st) = err_if rc (err rc) (ctx, st\<lparr>pg_conn := db\<rparr>)
         in put_codec bt ctx st)"

subsection \<open>Log and profile\<close>

abbreviation (input) SQLCIPHER_LOG_ANY :: u32 where "SQLCIPHER_LOG_ANY \<equiv> 0xffffffff"

definition sqlcipher_get_log_level_str :: "u32 \<Rightarrow> byte list" where
  "sqlcipher_get_log_level_str level =
     (if level = 1 then str ''ERROR'' else if level = 2 then str ''WARN'' else if level = 4 then str ''INFO''
      else if level = 8 then str ''DEBUG'' else if level = 16 then str ''TRACE''
      else if level = SQLCIPHER_LOG_ANY then str ''ANY'' else str ''NONE'')"

definition sqlcipher_get_log_source_str :: "u32 \<Rightarrow> byte list" where
  "sqlcipher_get_log_source_str source =
     (if source = 0 then str ''NONE'' else if source = 1 then str ''CORE'' else if source = 2 then str ''MEMORY''
      else if source = 4 then str ''MUTEX'' else if source = 8 then str ''PROVIDER'' else str ''ANY'')"

text \<open>The loop shifts a flag left until it falls out of the 32 bits: bits 0 to 31.\<close>

fun log_sources_from :: "u32 \<Rightarrow> nat \<Rightarrow> nat \<Rightarrow> byte list option \<Rightarrow> byte list option" where
  "log_sources_from source k 0 sources = sources"
| "log_sources_from source k (Suc left) sources =
     (let flag = push_bit k 1
      in log_sources_from source (k + 1) left
           (if flag_get source flag then
              (case sources of
                 Some s \<Rightarrow> Some (s @ str '' '' @ sqlcipher_get_log_source_str flag)
               | None \<Rightarrow> Some (sqlcipher_get_log_source_str flag))
            else sources))"

definition sqlcipher_get_log_sources_str :: "u32 \<Rightarrow> byte list option" where
  "sqlcipher_get_log_sources_str source =
     (if source = 0 then Some (str ''NONE'') else if source = SQLCIPHER_LOG_ANY then Some (str ''ANY'')
      else log_sources_from source 0 32 None)"

definition text_is :: "byte list \<Rightarrow> string \<Rightarrow> bool" where
  "text_is z s \<longleftrightarrow> sqlite3_stricmp (Some z) (Some (str s)) = 0"

definition sqlcipher_cipher_profile :: "'p pg_env \<Rightarrow> byte list \<Rightarrow> 'p pragma_state \<Rightarrow> int \<times> 'p pragma_state" where
  "sqlcipher_cipher_profile env destination st =
     (if text_is destination ''off'' then (SQLITE_OK, st\<lparr>pg_profile := Out_Off\<rparr>)
      else if text_is destination ''stdout'' then (SQLITE_OK, st\<lparr>pg_profile := Out_Stdout\<rparr>)
      else if text_is destination ''stderr'' then (SQLITE_OK, st\<lparr>pg_profile := Out_Stderr\<rparr>)
      else if text_is destination ''logcat'' \<or> text_is destination ''device'' then (SQLITE_OK, st\<lparr>pg_profile := Out_Device\<rparr>)
      else if \<not> pe_fopen env destination then (SQLITE_ERROR, st)
      else (SQLITE_OK, st\<lparr>pg_profile := Out_File destination\<rparr>))"

definition sqlcipher_set_log :: "'p pg_env \<Rightarrow> byte list \<Rightarrow> 'p pragma_state \<Rightarrow> int \<times> 'p pragma_state" where
  "sqlcipher_set_log env destination st =
     (let st = st\<lparr>log_target := Out_Off\<rparr>
      in if text_is destination ''logcat'' \<or> text_is destination ''device'' then (SQLITE_OK, st\<lparr>log_target := Out_Device\<rparr>)
         else if text_is destination ''stdout'' then (SQLITE_OK, st\<lparr>log_target := Out_Stdout\<rparr>)
         else if text_is destination ''stderr'' then (SQLITE_OK, st\<lparr>log_target := Out_Stderr\<rparr>)
         else if \<not> text_is destination ''off'' then
           (if \<not> pe_fopen env destination then (SQLITE_ERROR, st)
            else (SQLITE_OK, st\<lparr>log_target := Out_File destination\<rparr>))
         else (SQLITE_OK, st))"

subsection \<open>The pragmas\<close>

definition pragma_cipher_store_pass :: "nat option \<Rightarrow> byte list option \<Rightarrow> 'p pragma_state \<Rightarrow> 'p pragma_state" where
  "pragma_cipher_store_pass bt zRight =
     if_ctx bt (\<lambda>ctx st.
       case zRight of
         Some z \<Rightarrow>
           row ''cipher_store_pass'' (str ''PRAGMA cipher_store_pass is deprecated, please remove from use'')
             (put_codec bt (ctx\<lparr>store_pass := (if sqlite3GetBoolean z 1 then 1 else 0)\<rparr>) st)
       | None \<Rightarrow> row ''cipher_store_pass'' (mprintf_d (store_pass ctx)) st)"

definition pragma_cipher_fips_status :: "'p pg_env \<Rightarrow> nat option \<Rightarrow> 'p pragma_state \<Rightarrow> 'p pragma_state" where
  "pragma_cipher_fips_status env bt =
     if_ctx bt (\<lambda>ctx st. row ''cipher_fips_status'' (mprintf_d (pe_fips_status env (provider_ctx ctx))) st)"

definition pragma_cipher_profile :: "'p pg_env \<Rightarrow> byte list \<Rightarrow> 'p pragma_state \<Rightarrow> 'p pragma_state" where
  "pragma_cipher_profile env z st =
     (let (rc, st) = sqlcipher_cipher_profile env z st in row ''cipher_profile'' (mprintf_d rc) st)"

definition pragma_cipher_add_random ::
    "'p pg_env \<Rightarrow> nat option \<Rightarrow> byte list \<Rightarrow> 'p pragma_state \<Rightarrow> 'p pragma_state option" where
  "pragma_cipher_add_random env bt z st =
     (case codec_of bt st of
        None \<Rightarrow> Some st
      | Some ctx \<Rightarrow>
          map_option (\<lambda>(rc, ctx, st). row ''cipher_add_random'' (mprintf_d rc) (put_codec bt ctx st))
            (sqlcipher_codec_add_random (env_malloc (pe_sys env)) ctx z (int (length z)) st))"

definition pragma_cipher_migrate :: "'p pg_env \<Rightarrow> nat option \<Rightarrow> 'p pragma_state \<Rightarrow> 'p pragma_state" where
  "pragma_cipher_migrate env bt =
     if_ctx bt (\<lambda>ctx st. let (status, st) = pe_migrate env ctx st in row ''cipher_migrate'' (mprintf_d status) st)"

definition pragma_cipher_provider :: "'p pg_env \<Rightarrow> nat option \<Rightarrow> 'p pragma_state \<Rightarrow> 'p pragma_state" where
  "pragma_cipher_provider env bt =
     if_ctx bt (\<lambda>ctx. row ''cipher_provider'' (pe_provider_name env (provider_ctx ctx)))"

definition pragma_cipher_provider_version :: "'p pg_env \<Rightarrow> nat option \<Rightarrow> 'p pragma_state \<Rightarrow> 'p pragma_state" where
  "pragma_cipher_provider_version env bt =
     if_ctx bt (\<lambda>ctx. row ''cipher_provider_version'' (pe_provider_version env (provider_ctx ctx)))"

definition pragma_cipher :: "'p pg_env \<Rightarrow> nat option \<Rightarrow> byte list option \<Rightarrow> 'p pragma_state \<Rightarrow> 'p pragma_state" where
  "pragma_cipher env bt zRight =
     if_ctx bt (\<lambda>ctx. row ''cipher'' (case zRight of
         Some _ \<Rightarrow> str ''PRAGMA cipher is no longer supported.''
       | None \<Rightarrow> pe_cipher_name env (provider_ctx ctx)))"

definition pragma_default_kdf_iter :: "byte list option \<Rightarrow> 'p pragma_state \<Rightarrow> 'p pragma_state" where
  "pragma_default_kdf_iter zRight st =
     (case zRight of
        Some z \<Rightarrow> st\<lparr>default_kdf_iter := c_atoi z\<rparr>
      | None \<Rightarrow> row ''cipher_default_kdf_iter'' (mprintf_d (default_kdf_iter st)) st)"

definition pragma_kdf_iter :: "nat option \<Rightarrow> byte list option \<Rightarrow> 'p pragma_state \<Rightarrow> 'p pragma_state" where
  "pragma_kdf_iter bt zRight =
     if_ctx bt (\<lambda>ctx st.
       case zRight of
         Some z \<Rightarrow> put_codec bt (snd (sqlcipher_codec_ctx_set_kdf_iter ctx (c_atoi z))) st
       | None \<Rightarrow> row ''kdf_iter'' (mprintf_d (kdf_iter ctx)) st)"

definition pragma_fast_kdf_iter :: "nat option \<Rightarrow> byte list option \<Rightarrow> 'p pragma_state \<Rightarrow> 'p pragma_state" where
  "pragma_fast_kdf_iter bt zRight =
     if_ctx bt (\<lambda>ctx st.
       case zRight of
         Some z \<Rightarrow>
           row ''fast_kdf_iter'' (str ''PRAGMA fast_kdf_iter is deprecated, please remove from use'')
             (put_codec bt (snd (sqlcipher_codec_ctx_set_fast_kdf_iter ctx (c_atoi z))) st)
       | None \<Rightarrow> row ''fast_kdf_iter'' (mprintf_d (fast_kdf_iter ctx)) st)"

definition pragma_page_size ::
    "'p pg_env \<Rightarrow> nat option \<Rightarrow> byte list option \<Rightarrow> 'p codec_ctx \<Rightarrow> 'p pragma_state \<Rightarrow> 'p pragma_state" where
  "pragma_page_size env bt zRight ctx st =
     (case zRight of
        Some z \<Rightarrow>
          let (rc, ctx, st) = sqlcipher_codec_ctx_set_pagesize (env_malloc (pe_sys env)) ctx (c_atoi z) st
          in sync_btree env bt (\<lambda>rc. rc) (err_if rc rc (ctx, st))
      | None \<Rightarrow> row ''cipher_page_size'' (mprintf_d (page_sz ctx)) st)"

definition pragma_default_page_size :: "byte list option \<Rightarrow> 'p pragma_state \<Rightarrow> 'p pragma_state" where
  "pragma_default_page_size zRight st =
     (case zRight of
        Some z \<Rightarrow> st\<lparr>default_page_size := c_atoi z\<rparr>
      | None \<Rightarrow> row ''cipher_default_page_size'' (mprintf_d (default_page_size st)) st)"

definition pragma_default_use_hmac :: "byte list option \<Rightarrow> 'p pragma_state \<Rightarrow> 'p pragma_state" where
  "pragma_default_use_hmac zRight st =
     (case zRight of
        Some z \<Rightarrow> sqlcipher_set_default_use_hmac (sqlite3GetBoolean z 1) st
      | None \<Rightarrow> row ''cipher_default_use_hmac'' (mprintf_bool (flag_get (default_flags st) CIPHER_FLAG_HMAC)) st)"

definition pragma_use_hmac :: "'p pg_env \<Rightarrow> nat option \<Rightarrow> byte list option \<Rightarrow> 'p pragma_state \<Rightarrow> 'p pragma_state" where
  "pragma_use_hmac env bt zRight =
     if_ctx bt (\<lambda>ctx st.
       case zRight of
         Some z \<Rightarrow>
           let (rc, ctx) = sqlcipher_codec_ctx_set_use_hmac ctx (sqlite3GetBoolean z 1)
           in sync_btree env bt (\<lambda>rc. rc) (err_if rc rc (ctx, st))
       | None \<Rightarrow> row ''cipher_use_hmac'' (mprintf_bool (flag_get (ctx_flags ctx) CIPHER_FLAG_HMAC)) st)"

definition pragma_hmac_pgno :: "nat option \<Rightarrow> byte list option \<Rightarrow> 'p pragma_state \<Rightarrow> 'p pragma_state" where
  "pragma_hmac_pgno bt zRight =
     if_ctx bt (\<lambda>ctx st.
       case zRight of
         Some z \<Rightarrow>
           let f = ctx_flags ctx;
               f = (if text_is z ''le'' then flag_set (flag_unset f CIPHER_FLAG_BE_PGNO) CIPHER_FLAG_LE_PGNO
                    else if text_is z ''be'' then flag_set (flag_unset f CIPHER_FLAG_LE_PGNO) CIPHER_FLAG_BE_PGNO
                    else if text_is z ''native'' then flag_unset (flag_unset f CIPHER_FLAG_LE_PGNO) CIPHER_FLAG_BE_PGNO
                    else f)
           in row ''cipher_hmac_pgno'' (str ''PRAGMA cipher_hmac_pgno is deprecated, please remove from use'')
                (put_codec bt (ctx\<lparr>ctx_flags := f\<rparr>) st)
       | None \<Rightarrow>
           row ''cipher_hmac_pgno''
             (if flag_get (ctx_flags ctx) CIPHER_FLAG_LE_PGNO then str ''le''
              else if flag_get (ctx_flags ctx) CIPHER_FLAG_BE_PGNO then str ''be'' else str ''native'') st)"

text \<open>A blob literal of one byte; \<open>cipher_hex2bin\<close> reads its two digits.\<close>

definition pragma_hmac_salt_mask :: "nat option \<Rightarrow> byte list option \<Rightarrow> 'p pragma_state \<Rightarrow> 'p pragma_state" where
  "pragma_hmac_salt_mask bt zRight =
     if_ctx bt (\<lambda>ctx st.
       case zRight of
         Some z \<Rightarrow>
           row ''cipher_hmac_salt_mask'' (str ''PRAGMA cipher_hmac_salt_mask is deprecated, please remove from use'')
             (if sqlite3_strnicmp (Some z) (Some (str ''x'' @ [0x27])) 2 = 0 \<and> length z = 5
              then st\<lparr>hmac_salt_mask := hd (cipher_hex2bin (drop 2 z) 2)\<rparr> else st)
       | None \<Rightarrow> row ''cipher_hmac_salt_mask'' (hex_of_byte (hmac_salt_mask st)) st)"

definition pragma_plaintext_header_size :: "nat option \<Rightarrow> byte list option \<Rightarrow> 'p pragma_state \<Rightarrow> 'p pragma_state" where
  "pragma_plaintext_header_size bt zRight =
     if_ctx bt (\<lambda>ctx st.
       case zRight of
         Some z \<Rightarrow> put_codec bt (snd (sqlcipher_codec_ctx_set_plaintext_header_size ctx (c_atoi z))) st
       | None \<Rightarrow> row ''cipher_plaintext_header_size'' (mprintf_d (plaintext_header_sz ctx)) st)"

definition pragma_default_plaintext_header_size :: "byte list option \<Rightarrow> 'p pragma_state \<Rightarrow> 'p pragma_state" where
  "pragma_default_plaintext_header_size zRight st =
     (case zRight of
        Some z \<Rightarrow> st\<lparr>default_plaintext_header_size := c_atoi z\<rparr>
      | None \<Rightarrow> row ''cipher_default_plaintext_header_size'' (mprintf_d (default_plaintext_header_size st)) st)"

definition pragma_cipher_salt ::
    "'p pg_env \<Rightarrow> nat option \<Rightarrow> byte list option \<Rightarrow> 'p pragma_state \<Rightarrow> 'p pragma_state option" where
  "pragma_cipher_salt env bt zRight st =
     (case codec_of bt st of
        None \<Rightarrow> Some st
      | Some ctx \<Rightarrow>
          (case zRight of
             Some z \<Rightarrow>
               if sqlite3_strnicmp (Some z) (Some (str ''x'' @ [0x27])) 2 = 0 \<and> length z = 35 then
                 (if \<not> pe_tmp_malloc env then None
                  else
                    let salt = cipher_hex2bin (drop 2 z) 32
                    in Some (put_codec bt (snd (sqlcipher_codec_ctx_set_kdf_salt ctx salt FILE_HEADER_SZ)) st))
               else Some st
           | None \<Rightarrow>
               let (rc, salt, ctx) = sqlcipher_codec_ctx_get_kdf_salt ctx st
               in if rc = SQLITE_OK then
                    (if \<not> pe_tmp_malloc env then None
                     else
                       let hexsalt = take 32 (cipher_bin2hex (buf_bytes salt) 16 0 (replicate 33 0))
                       in Some (row ''cipher_salt'' hexsalt (put_codec bt ctx st)))
                  else let (ctx, st) = sqlcipher_codec_ctx_set_error ctx rc st in Some (put_codec bt ctx st)))"

text \<open>The labels of the algorithms; index and label agree with the constants of \<open>sqlcipher.h\<close>.\<close>

definition hmac_label :: "int \<Rightarrow> byte list option" where
  "hmac_label alg =
     (if alg = 0 then Some (str ''HMAC_SHA1'') else if alg = 1 then Some (str ''HMAC_SHA256'')
      else if alg = 2 then Some (str ''HMAC_SHA512'') else None)"

definition kdf_label :: "int \<Rightarrow> byte list option" where
  "kdf_label alg =
     (if alg = 0 then Some (str ''PBKDF2_HMAC_SHA1'') else if alg = 1 then Some (str ''PBKDF2_HMAC_SHA256'')
      else if alg = 2 then Some (str ''PBKDF2_HMAC_SHA512'') else None)"

definition hmac_of_label :: "byte list \<Rightarrow> int option" where
  "hmac_of_label z =
     (if text_is z ''HMAC_SHA1'' then Some 0 else if text_is z ''HMAC_SHA256'' then Some 1
      else if text_is z ''HMAC_SHA512'' then Some 2 else None)"

definition kdf_of_label :: "byte list \<Rightarrow> int option" where
  "kdf_of_label z =
     (if text_is z ''PBKDF2_HMAC_SHA1'' then Some 0 else if text_is z ''PBKDF2_HMAC_SHA256'' then Some 1
      else if text_is z ''PBKDF2_HMAC_SHA512'' then Some 2 else None)"

definition opt_row :: "string \<Rightarrow> byte list option \<Rightarrow> 'p pragma_state \<Rightarrow> 'p pragma_state" where
  "opt_row label val st = (case val of None \<Rightarrow> st | Some v \<Rightarrow> row label v st)"

definition pragma_hmac_algorithm :: "'p pg_env \<Rightarrow> nat option \<Rightarrow> byte list option \<Rightarrow> 'p pragma_state \<Rightarrow> 'p pragma_state" where
  "pragma_hmac_algorithm env bt zRight =
     if_ctx bt (\<lambda>ctx st.
       case zRight of
         Some z \<Rightarrow>
           let (rc, ctx) = (case hmac_of_label z of
                              None \<Rightarrow> (SQLITE_ERROR, ctx)
                            | Some alg \<Rightarrow> sqlcipher_codec_ctx_set_hmac_algorithm ctx alg)
           in sync_btree env bt (\<lambda>_. SQLITE_ERROR) (err_if rc SQLITE_ERROR (ctx, st))
       | None \<Rightarrow> opt_row ''cipher_hmac_algorithm'' (hmac_label (hmac_algorithm ctx)) st)"

definition pragma_default_hmac_algorithm :: "byte list option \<Rightarrow> 'p pragma_state \<Rightarrow> 'p pragma_state" where
  "pragma_default_hmac_algorithm zRight st =
     (case zRight of
        Some z \<Rightarrow> (case hmac_of_label z of None \<Rightarrow> st | Some alg \<Rightarrow> st\<lparr>default_hmac_algorithm := alg\<rparr>)
      | None \<Rightarrow> opt_row ''cipher_default_hmac_algorithm'' (hmac_label (default_hmac_algorithm st)) st)"

definition pragma_kdf_algorithm :: "nat option \<Rightarrow> byte list option \<Rightarrow> 'p pragma_state \<Rightarrow> 'p pragma_state" where
  "pragma_kdf_algorithm bt zRight =
     if_ctx bt (\<lambda>ctx st.
       case zRight of
         Some z \<Rightarrow>
           let (rc, ctx) = (case kdf_of_label z of
                              None \<Rightarrow> (SQLITE_ERROR, ctx)
                            | Some alg \<Rightarrow> sqlcipher_codec_ctx_set_kdf_algorithm ctx alg);
               (ctx, st) = err_if rc SQLITE_ERROR (ctx, st)
           in put_codec bt ctx st
       | None \<Rightarrow> opt_row ''cipher_kdf_algorithm'' (kdf_label (kdf_algorithm ctx)) st)"

definition pragma_default_kdf_algorithm :: "byte list option \<Rightarrow> 'p pragma_state \<Rightarrow> 'p pragma_state" where
  "pragma_default_kdf_algorithm zRight st =
     (case zRight of
        Some z \<Rightarrow> (case kdf_of_label z of None \<Rightarrow> st | Some alg \<Rightarrow> st\<lparr>default_kdf_algorithm := alg\<rparr>)
      | None \<Rightarrow> opt_row ''cipher_default_kdf_algorithm'' (kdf_label (default_kdf_algorithm st)) st)"

text \<open>One case of the switch of \<open>cipher_compatibility\<close>: the five setters in the order of the code.\<close>

definition compat_setters ::
    "'p pg_env \<Rightarrow> int \<Rightarrow> int \<Rightarrow> int \<Rightarrow> int \<Rightarrow> bool \<Rightarrow> 'p codec_ctx \<times> 'p pragma_state \<Rightarrow> 'p codec_ctx \<times> 'p pragma_state" where
  "compat_setters env sz hmac kdf iter use = (\<lambda>(ctx, st).
     let (rc, ctx, st) = sqlcipher_codec_ctx_set_pagesize (env_malloc (pe_sys env)) ctx sz st;
         (ctx, st) = err_if rc SQLITE_ERROR (ctx, st);
         (rc, ctx) = sqlcipher_codec_ctx_set_hmac_algorithm ctx hmac;
         (ctx, st) = err_if rc SQLITE_ERROR (ctx, st);
         (rc, ctx) = sqlcipher_codec_ctx_set_kdf_algorithm ctx kdf;
         (ctx, st) = err_if rc SQLITE_ERROR (ctx, st);
         (rc, ctx) = sqlcipher_codec_ctx_set_kdf_iter ctx iter;
         (ctx, st) = err_if rc SQLITE_ERROR (ctx, st);
         (rc, ctx) = sqlcipher_codec_ctx_set_use_hmac ctx use
     in err_if rc SQLITE_ERROR (ctx, st))"

definition pragma_compatibility :: "'p pg_env \<Rightarrow> nat option \<Rightarrow> byte list option \<Rightarrow> 'p pragma_state \<Rightarrow> 'p pragma_state" where
  "pragma_compatibility env bt zRight =
     if_ctx bt (\<lambda>ctx st.
       case zRight of
         None \<Rightarrow> st
       | Some z \<Rightarrow>
           let version = c_atoi z;
               r = (if version = 1 then compat_setters env 1024 0 0 4000 False (ctx, st)
                    else if version = 2 then compat_setters env 1024 0 0 4000 True (ctx, st)
                    else if version = 3 then compat_setters env 1024 0 0 64000 True (ctx, st)
                    else compat_setters env 4096 2 2 256000 True (ctx, st))
           in sync_btree env bt (\<lambda>_. SQLITE_ERROR) r)"

definition pragma_default_compatibility :: "byte list option \<Rightarrow> 'p pragma_state \<Rightarrow> 'p pragma_state" where
  "pragma_default_compatibility zRight st =
     (case zRight of
        None \<Rightarrow> st
      | Some z \<Rightarrow>
          let version = c_atoi z
          in if version = 1 then
               sqlcipher_set_default_use_hmac False (st\<lparr>default_page_size := 1024, default_hmac_algorithm := 0,
                 default_kdf_algorithm := 0, default_kdf_iter := 4000\<rparr>)
             else if version = 2 then
               sqlcipher_set_default_use_hmac True (st\<lparr>default_page_size := 1024, default_hmac_algorithm := 0,
                 default_kdf_algorithm := 0, default_kdf_iter := 4000\<rparr>)
             else if version = 3 then
               sqlcipher_set_default_use_hmac True (st\<lparr>default_page_size := 1024, default_hmac_algorithm := 0,
                 default_kdf_algorithm := 0, default_kdf_iter := 64000\<rparr>)
             else
               sqlcipher_set_default_use_hmac True (st\<lparr>default_page_size := 4096, default_hmac_algorithm := 2,
                 default_kdf_algorithm := 2, default_kdf_iter := 256000\<rparr>))"

definition pragma_memory_security :: "byte list option \<Rightarrow> 'p pragma_state \<Rightarrow> 'p pragma_state" where
  "pragma_memory_security zRight st =
     (case zRight of
        Some z \<Rightarrow> (if sqlite3GetBoolean z 1 then st\<lparr>mem_security_on := True\<rparr> else st)
      | None \<Rightarrow> row ''cipher_memory_security'' (mprintf_bool (mem_security_on st \<and> mem_executed st)) st)"

text \<open>A row of the settings: the text of a pragma that restores the setting, NULL for an unknown algorithm.\<close>

definition setting :: "string \<Rightarrow> byte list option \<Rightarrow> byte list option" where
  "setting name val = map_option (\<lambda>v. str ''PRAGMA '' @ str name @ str '' = '' @ v @ str '';'') val"

definition setting_rows :: "byte list option list \<Rightarrow> 'p pragma_state \<Rightarrow> 'p pragma_state" where
  "setting_rows vals st = fold (sqlcipher_vdbe_return_string (str ''pragma'')) vals st"

definition pragma_settings :: "nat option \<Rightarrow> 'p pragma_state \<Rightarrow> 'p pragma_state" where
  "pragma_settings bt =
     if_ctx bt (\<lambda>ctx. setting_rows
       [setting ''kdf_iter'' (Some (mprintf_d (kdf_iter ctx))),
        setting ''cipher_page_size'' (Some (mprintf_d (page_sz ctx))),
        setting ''cipher_use_hmac'' (Some (mprintf_bool (flag_get (ctx_flags ctx) CIPHER_FLAG_HMAC))),
        setting ''cipher_plaintext_header_size'' (Some (mprintf_d (plaintext_header_sz ctx))),
        setting ''cipher_hmac_algorithm'' (hmac_label (hmac_algorithm ctx)),
        setting ''cipher_kdf_algorithm'' (kdf_label (kdf_algorithm ctx))])"

definition pragma_default_settings :: "'p pragma_state \<Rightarrow> 'p pragma_state" where
  "pragma_default_settings st = setting_rows
     [setting ''cipher_default_kdf_iter'' (Some (mprintf_d (default_kdf_iter st))),
      setting ''cipher_default_page_size'' (Some (mprintf_d (default_page_size st))),
      setting ''cipher_default_use_hmac'' (Some (mprintf_bool (flag_get (default_flags st) CIPHER_FLAG_HMAC))),
      setting ''cipher_default_plaintext_header_size'' (Some (mprintf_d (default_plaintext_header_size st))),
      setting ''cipher_default_hmac_algorithm'' (hmac_label (default_hmac_algorithm st)),
      setting ''cipher_default_kdf_algorithm'' (kdf_label (default_kdf_algorithm st))] st"

text \<open>The text of the rows of the integrity check is that of \<open>integrity_row\<close>.\<close>

definition integrity_text :: "integrity_row \<Rightarrow> byte list" where
  "integrity_text r =
     (case r of
        File_Undefined \<Rightarrow> str ''database file is undefined''
      | Hmac_Not_Enabled \<Rightarrow> str ''HMAC is not enabled, unable to integrity check''
      | Keys_Not_Derived \<Rightarrow> str ''unable to derive keys''
      | Read_Failed sz page off \<Rightarrow>
          str ''error reading '' @ mprintf_d sz @ str '' bytes from file page '' @ mprintf_i32 (int page) @ str '' at offset '' @ mprintf_i32 off
      | Hmac_Op_Failed page \<Rightarrow> str ''HMAC operation failed for page '' @ mprintf_i32 (int page)
      | Hmac_Mismatch page \<Rightarrow> str ''HMAC verification failed for page '' @ mprintf_i32 (int page)
      | Invalid_Size page got want \<Rightarrow>
          str ''page '' @ mprintf_i32 (int page) @ str '' has an invalid size of '' @ mprintf_d got @ str '' bytes (expected '' @ mprintf_d want @ str '' bytes)'')"

definition pragma_integrity_check :: "'p pg_env \<Rightarrow> nat option \<Rightarrow> 'p pragma_state \<Rightarrow> 'p pragma_state option" where
  "pragma_integrity_check env bt st =
     (case codec_of bt st of
        None \<Rightarrow> Some st
      | Some ctx \<Rightarrow>
          map_option (\<lambda>(rows, ctx, st). fold (\<lambda>r. row ''cipher_integrity_check'' (integrity_text r)) rows (put_codec bt ctx st))
            (sqlcipher_codec_ctx_integrity_check (env_malloc (pe_sys env)) ctx st))"

definition pragma_log_level :: "byte list option \<Rightarrow> 'p pragma_state \<Rightarrow> 'p pragma_state" where
  "pragma_log_level zRight st =
     (let st = (case zRight of
                  None \<Rightarrow> st
                | Some z \<Rightarrow>
                    st\<lparr>log_level := (if text_is z ''ERROR'' then 1 else if text_is z ''WARN'' then 2 else if text_is z ''INFO'' then 4
                                    else if text_is z ''DEBUG'' then 8 else if text_is z ''TRACE'' then 16 else 0)\<rparr>)
      in row ''cipher_log_level'' (sqlcipher_get_log_level_str (log_level st)) st)"

definition pragma_log_source :: "byte list option \<Rightarrow> 'p pragma_state \<Rightarrow> 'p pragma_state" where
  "pragma_log_source zRight st =
     (let st = (case zRight of
                  None \<Rightarrow> st
                | Some z \<Rightarrow>
                    let s = log_source st
                    in st\<lparr>log_source := (if text_is z ''NONE'' then 0 else if text_is z ''ANY'' then SQLCIPHER_LOG_ANY
                                        else if text_is z ''CORE'' then flag_set s 1 else if text_is z ''MEMORY'' then flag_set s 2
                                        else if text_is z ''MUTEX'' then flag_set s 4 else if text_is z ''PROVIDER'' then flag_set s 8
                                        else s)\<rparr>)
      in sqlcipher_vdbe_return_string (str ''cipher_log_source'') (sqlcipher_get_log_sources_str (log_source st)) st)"

definition pragma_cipher_log :: "'p pg_env \<Rightarrow> byte list \<Rightarrow> 'p pragma_state \<Rightarrow> 'p pragma_state" where
  "pragma_cipher_log env z st =
     (let (rc, st) = sqlcipher_set_log env z st in row ''cipher_log'' (mprintf_d rc) st)"

subsection \<open>The dispatcher\<close>

text \<open>The first chain of conditions handles \<open>cipher_fips_status\<close> and \<open>cipher_store_pass\<close>; it has no \<open>else\<close> that leads
  into the second, which all pragmas go through.\<close>

definition pragma_first ::
    "'p pg_env \<Rightarrow> nat option \<Rightarrow> byte list \<Rightarrow> byte list option \<Rightarrow> 'p pragma_state \<Rightarrow> 'p pragma_state" where
  "pragma_first env bt zLeft zRight st =
     (if text_is zLeft ''cipher_fips_status'' \<and> zRight = None then pragma_cipher_fips_status env bt st
      else if text_is zLeft ''cipher_store_pass'' then pragma_cipher_store_pass bt zRight st
      else st)"

text \<open>The second chain; a pragma that matches nothing is not handled. \<open>page_size\<close> is handled only for an encrypted database.\<close>

definition handled :: "'p pragma_state \<Rightarrow> (bool \<times> 'p pragma_state) option" where
  "handled st = Some (True, st)"

definition unhandled :: "'p pragma_state \<Rightarrow> (bool \<times> 'p pragma_state) option" where
  "unhandled st = Some (False, st)"

definition pragma_log_chain ::
    "'p pg_env \<Rightarrow> nat option \<Rightarrow> byte list \<Rightarrow> byte list option \<Rightarrow> 'p pragma_state \<Rightarrow> (bool \<times> 'p pragma_state) option" where
  "pragma_log_chain env bt zLeft zRight st =
     (if text_is zLeft ''cipher_compatibility'' then handled (pragma_compatibility env bt zRight st)
      else if text_is zLeft ''cipher_default_compatibility'' then handled (pragma_default_compatibility zRight st)
      else if text_is zLeft ''cipher_memory_security'' then handled (pragma_memory_security zRight st)
      else if text_is zLeft ''cipher_settings'' then handled (pragma_settings bt st)
      else if text_is zLeft ''cipher_default_settings'' then handled (pragma_default_settings st)
      else if text_is zLeft ''cipher_integrity_check'' then map_option (Pair True) (pragma_integrity_check env bt st)
      else if text_is zLeft ''cipher_log_level'' then handled (pragma_log_level zRight st)
      else if text_is zLeft ''cipher_log_source'' then handled (pragma_log_source zRight st)
      else if text_is zLeft ''cipher_log'' \<and> zRight \<noteq> None then handled (pragma_cipher_log env (the zRight) st)
      else unhandled st)"

definition pragma_parameter_chain ::
    "'p pg_env \<Rightarrow> nat option \<Rightarrow> byte list \<Rightarrow> byte list option \<Rightarrow> 'p pragma_state \<Rightarrow> (bool \<times> 'p pragma_state) option" where
  "pragma_parameter_chain env bt zLeft zRight st =
     (if text_is zLeft ''cipher_default_kdf_iter'' then handled (pragma_default_kdf_iter zRight st)
      else if text_is zLeft ''kdf_iter'' then handled (pragma_kdf_iter bt zRight st)
      else if text_is zLeft ''fast_kdf_iter'' then handled (pragma_fast_kdf_iter bt zRight st)
      else if text_is zLeft ''rekey_kdf_iter'' \<and> zRight \<noteq> None then
        handled (row ''rekey_kdf_iter'' (str ''PRAGMA rekey_kdf_iter is no longer supported.'') st)
      else if text_is zLeft ''page_size'' \<or> text_is zLeft ''cipher_page_size'' then
        (case codec_of bt st of None \<Rightarrow> unhandled st | Some ctx \<Rightarrow> handled (pragma_page_size env bt zRight ctx st))
      else if text_is zLeft ''cipher_default_page_size'' then handled (pragma_default_page_size zRight st)
      else if text_is zLeft ''cipher_default_use_hmac'' then handled (pragma_default_use_hmac zRight st)
      else if text_is zLeft ''cipher_use_hmac'' then handled (pragma_use_hmac env bt zRight st)
      else if text_is zLeft ''cipher_hmac_pgno'' then handled (pragma_hmac_pgno bt zRight st)
      else if text_is zLeft ''cipher_hmac_salt_mask'' then handled (pragma_hmac_salt_mask bt zRight st)
      else if text_is zLeft ''cipher_plaintext_header_size'' then handled (pragma_plaintext_header_size bt zRight st)
      else if text_is zLeft ''cipher_default_plaintext_header_size'' then handled (pragma_default_plaintext_header_size zRight st)
      else if text_is zLeft ''cipher_salt'' then map_option (Pair True) (pragma_cipher_salt env bt zRight st)
      else if text_is zLeft ''cipher_hmac_algorithm'' then handled (pragma_hmac_algorithm env bt zRight st)
      else if text_is zLeft ''cipher_default_hmac_algorithm'' then handled (pragma_default_hmac_algorithm zRight st)
      else if text_is zLeft ''cipher_kdf_algorithm'' then handled (pragma_kdf_algorithm bt zRight st)
      else if text_is zLeft ''cipher_default_kdf_algorithm'' then handled (pragma_default_kdf_algorithm zRight st)
      else pragma_log_chain env bt zLeft zRight st)"

definition sqlcipher_codec_pragma ::
    "'p pg_env \<Rightarrow> nat \<Rightarrow> byte list \<Rightarrow> byte list option \<Rightarrow> 'p pragma_state \<Rightarrow> (bool \<times> 'p pragma_state) option" where
  "sqlcipher_codec_pragma env iDb zLeft zRight st =
     (let bt = db_pBt (aDb (pg_conn st) ! iDb);
          st = pragma_first env bt zLeft zRight st
      in if text_is zLeft ''cipher_profile'' \<and> zRight \<noteq> None then handled (pragma_cipher_profile env (the zRight) st)
         else if text_is zLeft ''cipher_add_random'' \<and> zRight \<noteq> None then
           map_option (Pair True) (pragma_cipher_add_random env bt (the zRight) st)
         else if text_is zLeft ''cipher_migrate'' \<and> zRight = None then handled (pragma_cipher_migrate env bt st)
         else if text_is zLeft ''cipher_provider'' \<and> zRight = None then handled (pragma_cipher_provider env bt st)
         else if text_is zLeft ''cipher_provider_version'' \<and> zRight = None then handled (pragma_cipher_provider_version env bt st)
         else if text_is zLeft ''cipher_version'' \<and> zRight = None then handled (row ''cipher_version'' (pe_version env) st)
         else if text_is zLeft ''cipher'' then handled (pragma_cipher env bt zRight st)
         else if text_is zLeft ''rekey_cipher'' \<and> zRight \<noteq> None then
           handled (row ''rekey_cipher'' (str ''PRAGMA rekey_cipher is no longer supported.'') st)
         else pragma_parameter_chain env bt zLeft zRight st)"

section \<open>Lemmas\<close>

subsection \<open>Numbers and words as text\<close>

lemma mprintf_d_text: "SMALLEST_INT64 \<le> v \<Longrightarrow> mprintf_d v = sqlite3Int64ToText v"
  by (auto simp: mprintf_d_def sqlite3Int64ToText_def Let_def minus_eq_not_plus_1 [symmetric])

lemma c_atoi_mprintf:
  assumes "- (2 ^ 31) \<le> n" "n < 2 ^ 31"
  shows "c_atoi (mprintf_d n) = n"
proof -
  obtain ds where ds: "mprintf_d n = (if n < 0 then [0x2d] else []) @ ds" "ds \<noteq> []" "list_all dec_digit ds" "dec_value ds = \<bar>n\<bar>"
    using int64_text_shape [of n] mprintf_d_text [of n] assms by auto
  have t: "takeWhile dec_digit ds = ds" using ds(3) by (simp add: takeWhile_eq_all_conv list_all_iff)
  have h: "dec_digit (hd ds)" using ds by (cases ds) auto
  have "dropWhile sqlite3Isspace (mprintf_d n) = mprintf_d n"
    using dec_digit_class [OF h] ds sign_not_space by (cases ds) auto
  moreover have "chr_at ds 0 = hd ds" using ds(2) by (simp add: chr_at_def hd_conv_nth)
  moreover have "sint (word_of_int n :: u32) = n"
    using assms by (simp add: signed_of_int signed_take_bit_int_eq_self)
  ultimately show ?thesis
    using ds dec_digit_class [OF h] assms by (cases "n < 0") (auto simp: c_atoi_def chr_at_def Let_def t)
qed

lemma getBoolean_mprintf: "sqlite3GetBoolean (mprintf_bool b) dflt = b"
proof -
  have "mprintf_bool b = (if b then [0x31] else [0x30])" by (cases b) (simp_all, code_simp+)
  moreover have "sqlite3Atoi [0x31] = 1" "sqlite3Atoi [0x30] = 0" "sqlite3Isdigit 0x30" "sqlite3Isdigit 0x31" by code_simp+
  ultimately show ?thesis by (simp add: sqlite3GetBoolean_def getSafetyLevel_def chr_at_def)
qed

lemma hmac_label_roundtrip: "hmac_label alg = Some z \<Longrightarrow> hmac_of_label z = Some alg"
proof -
  have "hmac_of_label (str ''HMAC_SHA1'') = Some 0" "hmac_of_label (str ''HMAC_SHA256'') = Some 1"
    "hmac_of_label (str ''HMAC_SHA512'') = Some 2" by code_simp+
  then show "hmac_label alg = Some z \<Longrightarrow> hmac_of_label z = Some alg" by (auto simp: hmac_label_def split: if_splits)
qed

lemma kdf_label_roundtrip: "kdf_label alg = Some z \<Longrightarrow> kdf_of_label z = Some alg"
proof -
  have "kdf_of_label (str ''PBKDF2_HMAC_SHA1'') = Some 0" "kdf_of_label (str ''PBKDF2_HMAC_SHA256'') = Some 1"
    "kdf_of_label (str ''PBKDF2_HMAC_SHA512'') = Some 2" by code_simp+
  then show "kdf_label alg = Some z \<Longrightarrow> kdf_of_label z = Some alg" by (auto simp: kdf_label_def split: if_splits)
qed

subsection \<open>Dispatch on a literal name\<close>

definition pragma_names :: "string list" where
  "pragma_names =
     [''cipher_fips_status'', ''cipher_store_pass'', ''cipher_profile'', ''cipher_add_random'', ''cipher_migrate'',
      ''cipher_provider'', ''cipher_provider_version'', ''cipher_version'', ''cipher'', ''rekey_cipher'',
      ''cipher_default_kdf_iter'', ''kdf_iter'', ''fast_kdf_iter'', ''rekey_kdf_iter'', ''page_size'', ''cipher_page_size'',
      ''cipher_default_page_size'', ''cipher_default_use_hmac'', ''cipher_use_hmac'', ''cipher_hmac_pgno'',
      ''cipher_hmac_salt_mask'', ''cipher_plaintext_header_size'', ''cipher_default_plaintext_header_size'', ''cipher_salt'',
      ''cipher_hmac_algorithm'', ''cipher_default_hmac_algorithm'', ''cipher_kdf_algorithm'', ''cipher_default_kdf_algorithm'',
      ''cipher_compatibility'', ''cipher_default_compatibility'', ''cipher_memory_security'', ''cipher_settings'',
      ''cipher_default_settings'', ''cipher_integrity_check'', ''cipher_log_level'', ''cipher_log_source'', ''cipher_log'']"

definition name_char :: "char \<Rightarrow> bool" where
  "name_char c \<longleftrightarrow> c \<in> set ''abcdefghijklmnopqrstuvwxyz_''"

lemma name_char_lower:
  assumes "name_char c"
  shows "sqlite3UpperToLower (of_char c) = of_char c \<and> (of_char c :: byte) \<noteq> 0"
proof -
  have "list_all (\<lambda>c. sqlite3UpperToLower (of_char c) = of_char c \<and> (of_char c :: byte) \<noteq> 0) ''abcdefghijklmnopqrstuvwxyz_''"
    by (simp add: sqlite3UpperToLower_def)
  then show ?thesis using assms unfolding name_char_def list_all_iff by blast
qed

lemma unat_of_char_byte: "unat (of_char c :: byte) = of_char c"
proof -
  have "(of_char c :: nat) = of_char c mod 256" by simp
  then have "(of_char c :: nat) < 256" by (metis mod_less_divisor zero_less_numeral)
  moreover have "(of_char c :: byte) = of_nat (of_char c)" by (simp add: of_nat_of_char)
  ultimately show ?thesis by (simp add: unat_of_nat)
qed

lemma of_char_byte_inj: "(of_char c :: byte) = of_char d \<longleftrightarrow> c = d"
  by (metis of_char_eqI unat_of_char_byte)

lemma text_is_name:
  assumes "list_all name_char a" "list_all name_char b"
  shows "text_is (str a) b \<longleftrightarrow> a = b"
proof -
  have l: "map sqlite3UpperToLower (str s) = str s" "0 \<notin> set (str s)" if "list_all name_char s" for s
    using that name_char_lower by (auto simp: str_def list_all_iff)
  have "text_is (str a) b \<longleftrightarrow> str a = str b"
    using sqlite3StrICmp_at_eq_0 [OF l(2) l(2), OF assms, of 0] l(1) assms
    by (simp add: text_is_def sqlite3_stricmp_def sqlite3StrICmp_def)
  then show ?thesis by (simp add: str_def inj_map_eq_map inj_def of_char_byte_inj)
qed

lemma pragma_names_ok: "list_all (list_all name_char) pragma_names"
  by (simp add: pragma_names_def name_char_def)

lemma name_is: "a \<in> set pragma_names \<Longrightarrow> b \<in> set pragma_names \<Longrightarrow> text_is (str a) b \<longleftrightarrow> a = b"
  using text_is_name pragma_names_ok by (auto simp: list_all_iff)

lemma only_name: "s \<in> set pragma_names \<Longrightarrow> list_all (\<lambda>t. text_is (str s) t = (s = t)) pragma_names"
  using name_is by (simp add: list_all_iff)

lemmas dispatch_defs = sqlcipher_codec_pragma_def pragma_first_def pragma_parameter_chain_def pragma_log_chain_def pragma_names_def

lemma dispatch:
  assumes "db_pBt (aDb (pg_conn st) ! iDb) = bt"
  shows dispatch_kdf_iter:
      "sqlcipher_codec_pragma env iDb (str ''kdf_iter'') zRight st = handled (pragma_kdf_iter bt zRight st)"
    and dispatch_page_size: "sqlcipher_codec_pragma env iDb (str ''cipher_page_size'') zRight st =
      (case codec_of bt st of None \<Rightarrow> unhandled st | Some ctx \<Rightarrow> handled (pragma_page_size env bt zRight ctx st))"
    and dispatch_use_hmac:
      "sqlcipher_codec_pragma env iDb (str ''cipher_use_hmac'') zRight st = handled (pragma_use_hmac env bt zRight st)"
    and dispatch_plaintext: "sqlcipher_codec_pragma env iDb (str ''cipher_plaintext_header_size'') zRight st
      = handled (pragma_plaintext_header_size bt zRight st)"
    and dispatch_hmac: "sqlcipher_codec_pragma env iDb (str ''cipher_hmac_algorithm'') zRight st
      = handled (pragma_hmac_algorithm env bt zRight st)"
    and dispatch_kdf:
      "sqlcipher_codec_pragma env iDb (str ''cipher_kdf_algorithm'') zRight st = handled (pragma_kdf_algorithm bt zRight st)"
    and dispatch_settings:
      "sqlcipher_codec_pragma env iDb (str ''cipher_settings'') zRight st = handled (pragma_settings bt st)"
    and dispatch_compatibility: "sqlcipher_codec_pragma env iDb (str ''cipher_compatibility'') zRight st
      = handled (pragma_compatibility env bt zRight st)"
    and dispatch_default_compatibility: "sqlcipher_codec_pragma env iDb (str ''cipher_default_compatibility'') zRight st
      = handled (pragma_default_compatibility zRight st)"
  subgoal using only_name [of "''kdf_iter''"] assms by (simp add: dispatch_defs)
  subgoal using only_name [of "''cipher_page_size''"] assms by (simp add: dispatch_defs)
  subgoal using only_name [of "''cipher_use_hmac''"] assms by (simp add: dispatch_defs)
  subgoal using only_name [of "''cipher_plaintext_header_size''"] assms by (simp add: dispatch_defs)
  subgoal using only_name [of "''cipher_hmac_algorithm''"] assms by (simp add: dispatch_defs)
  subgoal using only_name [of "''cipher_kdf_algorithm''"] assms by (simp add: dispatch_defs)
  subgoal using only_name [of "''cipher_settings''"] assms by (simp add: dispatch_defs)
  subgoal using only_name [of "''cipher_compatibility''"] assms by (simp add: dispatch_defs)
  subgoal using only_name [of "''cipher_default_compatibility''"] assms by (simp add: dispatch_defs)
  done

text \<open>The missing \<open>else\<close>: a change of \<open>cipher_store_pass\<close> takes effect, but the pragma is reported as not handled.\<close>

lemma store_pass_unhandled:
  assumes "db_pBt (aDb (pg_conn st) ! iDb) = bt"
  shows "sqlcipher_codec_pragma env iDb (str ''cipher_store_pass'') zRight st = Some (False, pragma_cipher_store_pass bt zRight st)"
  using only_name [of "''cipher_store_pass''"] assms by (simp add: dispatch_defs unhandled_def)

end
