(* ===== verification/Codec_Settings.thy ===== *)
theory Codec_Settings
  imports Codec_Pragma
begin

text \<open>
  What the pragmas of \<open>sqlcipher_codec_pragma\<close> (\<open>src/sqlcipher.c\<close>) do to the parameters of a codec: each of them refines an
  update of an abstract record of six parameters. On this rest the restoration of the settings that
  \<open>PRAGMA cipher_settings\<close> prints and the agreement of the two compatibility pragmas.
\<close>

section \<open>Lemmas\<close>

subsection \<open>Parameters of a codec\<close>

text \<open>The settings the pragmas are about, and what a pragma keeps of the context.\<close>

record codec_params =
  par_kdf_iter :: int
  par_page_size :: int
  par_use_hmac :: bool
  par_plaintext :: int
  par_hmac :: int
  par_kdf :: int

definition params_of :: "'p codec_ctx \<Rightarrow> codec_params" where
  "params_of c = \<lparr>par_kdf_iter = kdf_iter c, par_page_size = page_sz c, par_use_hmac = flag_get (ctx_flags c) CIPHER_FLAG_HMAC,
     par_plaintext = plaintext_header_sz c, par_hmac = hmac_algorithm c, par_kdf = kdf_algorithm c\<rparr>"

definition same_provider :: "'p codec_ctx \<Rightarrow> 'p codec_ctx \<Rightarrow> bool" where
  "same_provider c d \<longleftrightarrow> iv_sz c = iv_sz d \<and> block_sz c = block_sz d \<and> ctx_provider c = ctx_provider d
     \<and> provider_ctx c = provider_ctx d"

text \<open>The reserve that goes with the HMAC settings.\<close>

definition reserve_of :: "'p codec_ctx \<Rightarrow> bool \<Rightarrow> int \<Rightarrow> int" where
  "reserve_of c use alg =
     (let n = iv_sz c + (if use then p_get_hmac_sz (ctx_provider c) (provider_ctx c) alg else 0)
      in if 0 < block_sz c then (if n mod block_sz c = 0 then n else (n div block_sz c + 1) * block_sz c) else n)"

lemma reserve_setup_reserve:
  "reserve_sz (snd (sqlcipher_codec_ctx_reserve_setup c)) = reserve_of c (flag_get (ctx_flags c) CIPHER_FLAG_HMAC) (hmac_algorithm c)"
  by (simp add: reserve_setup_eq reserve_needed_def reserve_of_def Let_def)

lemma reserve_of_cong: "same_provider c d \<Longrightarrow> reserve_of c = reserve_of d"
  by (rule ext)+ (simp add: reserve_of_def same_provider_def Let_def)

text \<open>The setters, as updates of the parameters.\<close>

lemma setter_params:
  assumes "\<not> key_used c"
  shows "params_of (snd (sqlcipher_codec_ctx_set_kdf_iter c n)) = (params_of c)\<lparr>par_kdf_iter := n\<rparr>"
    and "params_of (snd (sqlcipher_codec_ctx_set_use_hmac c use)) = (params_of c)\<lparr>par_use_hmac := use\<rparr>"
    and "params_of (snd (sqlcipher_codec_ctx_set_hmac_algorithm c alg)) = (params_of c)\<lparr>par_hmac := alg\<rparr>"
    and "params_of (snd (sqlcipher_codec_ctx_set_kdf_algorithm c alg)) = (params_of c)\<lparr>par_kdf := alg\<rparr>"
    and "valid_page_size sz \<Longrightarrow>
      params_of (fst (snd (sqlcipher_codec_ctx_set_pagesize xm c sz st))) = (params_of c)\<lparr>par_page_size := sz\<rparr>"
  using assms flag_get_set(1) [of CIPHER_FLAG_HMAC "ctx_flags c"] flag_get_unset(1) [of "ctx_flags c" CIPHER_FLAG_HMAC]
  by (auto simp: params_of_def sqlcipher_codec_ctx_set_kdf_iter_def sqlcipher_set_derive_key_def
      sqlcipher_codec_ctx_set_use_hmac_def sqlcipher_codec_ctx_set_hmac_algorithm_def reserve_setup_eq
      sqlcipher_codec_ctx_set_kdf_algorithm_def sqlcipher_codec_ctx_set_pagesize_def Let_def split: prod.splits)

lemma setter_frame:
  "same_provider (snd (sqlcipher_codec_ctx_set_kdf_iter c n)) c" "key_used (snd (sqlcipher_codec_ctx_set_kdf_iter c n)) = key_used c"
  "same_provider (snd (sqlcipher_codec_ctx_set_use_hmac c use)) c" "key_used (snd (sqlcipher_codec_ctx_set_use_hmac c use)) = key_used c"
  "same_provider (snd (sqlcipher_codec_ctx_set_hmac_algorithm c alg)) c"
  "key_used (snd (sqlcipher_codec_ctx_set_hmac_algorithm c alg)) = key_used c"
  "same_provider (snd (sqlcipher_codec_ctx_set_kdf_algorithm c alg)) c"
  "key_used (snd (sqlcipher_codec_ctx_set_kdf_algorithm c alg)) = key_used c"
  "same_provider (fst (snd (sqlcipher_codec_ctx_set_pagesize xm c sz st))) c"
  "key_used (fst (snd (sqlcipher_codec_ctx_set_pagesize xm c sz st))) = key_used c"
  by (auto simp: same_provider_def key_used_def sqlcipher_codec_ctx_set_kdf_iter_def sqlcipher_set_derive_key_def
      sqlcipher_codec_ctx_set_use_hmac_def sqlcipher_codec_ctx_set_hmac_algorithm_def reserve_setup_eq flag_get_set(2) flag_get_unset(2)
      sqlcipher_codec_ctx_set_kdf_algorithm_def sqlcipher_codec_ctx_set_pagesize_def Let_def split: prod.splits)

lemma setter_reserve:
  assumes "\<not> key_used c"
  shows "reserve_sz (snd (sqlcipher_codec_ctx_set_use_hmac c use)) = reserve_of c use (hmac_algorithm c)"
    and "reserve_sz (snd (sqlcipher_codec_ctx_set_hmac_algorithm c alg))
      = reserve_of c (flag_get (ctx_flags c) CIPHER_FLAG_HMAC) alg"
    and "reserve_sz (snd (sqlcipher_codec_ctx_set_kdf_algorithm c alg)) = reserve_sz c"
  using assms flag_get_set(1) [of CIPHER_FLAG_HMAC "ctx_flags c"] flag_get_unset(1) [of "ctx_flags c" CIPHER_FLAG_HMAC]
  by (auto simp: sqlcipher_codec_ctx_set_use_hmac_def sqlcipher_codec_ctx_set_hmac_algorithm_def
      sqlcipher_codec_ctx_set_kdf_algorithm_def reserve_setup_reserve) (simp_all add: reserve_of_def Let_def)

subsection \<open>The context of a database\<close>

definition codec_at :: "nat \<Rightarrow> nat \<Rightarrow> 'p pragma_state \<Rightarrow> 'p codec_ctx \<Rightarrow> bool" where
  "codec_at iDb b st c \<longleftrightarrow> db_pBt (aDb (pg_conn st) ! iDb) = Some b \<and> pager_codec st b = Some c"

lemma codec_at_of: "codec_at iDb b st c \<Longrightarrow> codec_of (Some b) st = Some c" "codec_at iDb b st c \<Longrightarrow> db_pBt (aDb (pg_conn st) ! iDb) = Some b"
  by (simp_all add: codec_at_def codec_of_def)

lemma codec_at_put: "codec_at iDb b st c \<Longrightarrow> codec_at iDb b (put_codec (Some b) c' st) c'"
  by (simp add: codec_at_def put_codec_def)

lemma error_irrelevant [simp]:
  "params_of (c\<lparr>ctx_error := e\<rparr>) = params_of c" "same_provider (c\<lparr>ctx_error := e\<rparr>) d = same_provider c d"
  "key_used (c\<lparr>ctx_error := e\<rparr>) = key_used c" "reserve_sz (c\<lparr>ctx_error := e\<rparr>) = reserve_sz c"
  by (simp_all add: params_of_def same_provider_def key_used_def)

lemma err_if_at:
  assumes "codec_at iDb b st d"
  obtains e st' where "err_if rc err (c, st) = (c\<lparr>ctx_error := e\<rparr>, st')" "codec_at iDb b st' d"
proof (cases "rc = SQLITE_OK")
  case True
  then have "err_if rc err (c, st) = (c\<lparr>ctx_error := ctx_error c\<rparr>, st)" by (simp add: err_if_def)
  then show ?thesis using assms by (rule that)
next
  case False
  then have "err_if rc err (c, st) = (c\<lparr>ctx_error := err\<rparr>, snd (sqlcipher_codec_ctx_set_error c err st))"
    by (simp add: err_if_def sqlcipher_codec_ctx_set_error_def)
  moreover have "codec_at iDb b (snd (sqlcipher_codec_ctx_set_error c err st)) d"
    using assms by (simp add: sqlcipher_codec_ctx_set_error_def codec_at_def)
  ultimately show ?thesis by (rule that)
qed

lemma err_if_OK: "err_if SQLITE_OK err x = x"
  by (cases x) (simp add: err_if_def)

lemma sync_btree_at:
  assumes "codec_at iDb b st d"
  obtains e where "codec_at iDb b (sync_btree env (Some b) err (c, st)) (c\<lparr>ctx_error := e\<rparr>)"
proof -
  obtain rc db st1 where r: "codec_set_btree_to_codec_pagesize (pe_sys env) (pg_conn st) b c st = (rc, db, st1)"
    by (metis prod.exhaust)
  have a: "codec_at iDb b (st1\<lparr>pg_conn := db\<rparr>) d"
    using assms r by (auto simp: codec_set_btree_to_codec_pagesize_def codec_at_def on_btree_def Let_def split: prod.splits)
  obtain e st' where e: "err_if rc (err rc) (c, st1\<lparr>pg_conn := db\<rparr>) = (c\<lparr>ctx_error := e\<rparr>, st')" "codec_at iDb b st' d"
    using err_if_at [OF a] by blast
  have "sync_btree env (Some b) err (c, st) = put_codec (Some b) (c\<lparr>ctx_error := e\<rparr>) st'"
    using r e(1) by (simp add: sync_btree_def)
  then show ?thesis using codec_at_put [OF e(2)] by (intro that [of e]) simp
qed

lemma err_sync_at:
  assumes "codec_at iDb b st d"
  obtains e where "codec_at iDb b (sync_btree env (Some b) err (err_if rc x (c, st))) (c\<lparr>ctx_error := e\<rparr>)"
proof -
  obtain e st' where e: "err_if rc x (c, st) = (c\<lparr>ctx_error := e\<rparr>, st')" "codec_at iDb b st' d"
    using err_if_at [OF assms] by blast
  obtain e' where "codec_at iDb b (sync_btree env (Some b) err (c\<lparr>ctx_error := e\<rparr>, st')) (c\<lparr>ctx_error := e, ctx_error := e'\<rparr>)"
    using sync_btree_at [OF e(2)] by blast
  then show ?thesis by (intro that [of e']) (simp add: e(1))
qed

lemma pragma_fields_more:
  fixes st st' :: "'p pragma_state"
  assumes "heap_state.more st' = heap_state.more st"
  shows "codec_at iDb b st' c = codec_at iDb b st c"
  using assms by (cases st; cases st') (simp add: codec_at_def)

lemma set_pagesize_more:
  "heap_state.more (snd (snd (sqlcipher_codec_ctx_set_pagesize xm c sz st))) = heap_state.more st"
  by (auto simp: sqlcipher_codec_ctx_set_pagesize_def Let_def sc_free_more dest!: sc_alloc_more split: prod.splits)

subsection \<open>One pragma\<close>

text \<open>A pragma with an argument is handled, and leaves a context of which \<open>P\<close> holds.\<close>

definition pragma_gives ::
    "'p pg_env \<Rightarrow> nat \<Rightarrow> nat \<Rightarrow> string \<Rightarrow> byte list \<Rightarrow> 'p pragma_state \<Rightarrow> ('p codec_ctx \<Rightarrow> bool) \<Rightarrow> bool" where
  "pragma_gives env iDb b name z st P \<longleftrightarrow>
     (\<exists>st' c. sqlcipher_codec_pragma env iDb (str name) (Some z) st = Some (True, st') \<and> codec_at iDb b st' c \<and> P c)"

text \<open>The refinement of a pragma: an update of the parameters, with everything it computes from them in place.\<close>

definition refines_update :: "'p codec_ctx \<Rightarrow> codec_params \<Rightarrow> 'p codec_ctx \<Rightarrow> bool" where
  "refines_update c p c' \<longleftrightarrow> params_of c' = p \<and> same_provider c' c \<and> \<not> key_used c'"

lemma refines_update_error [simp]: "refines_update c p (c'\<lparr>ctx_error := e\<rparr>) = refines_update c p c'"
  by (simp add: refines_update_def)

lemma kdf_iter_refines:
  assumes "codec_at iDb b st c" "\<not> key_used c"
  shows "pragma_gives env iDb b ''kdf_iter'' z st (refines_update c ((params_of c)\<lparr>par_kdf_iter := c_atoi z\<rparr>))"
proof -
  let ?c = "snd (sqlcipher_codec_ctx_set_kdf_iter c (c_atoi z))"
  have "sqlcipher_codec_pragma env iDb (str ''kdf_iter'') (Some z) st = Some (True, put_codec (Some b) ?c st)"
    by (simp add: dispatch_kdf_iter [OF codec_at_of(2) [OF assms(1)]] pragma_kdf_iter_def if_ctx_def codec_at_of(1) [OF assms(1)] handled_def)
  moreover have "codec_at iDb b (put_codec (Some b) ?c st) ?c" using codec_at_put [OF assms(1)] .
  ultimately show ?thesis unfolding pragma_gives_def refines_update_def
    using setter_params(1) [OF assms(2)] setter_frame(1,2) [of c] assms(2) by blast
qed

lemma page_size_refines:
  assumes "codec_at iDb b st c" "\<not> key_used c" "valid_page_size (c_atoi z)"
  shows "pragma_gives env iDb b ''cipher_page_size'' z st (refines_update c ((params_of c)\<lparr>par_page_size := c_atoi z\<rparr>))"
proof -
  obtain rc c1 st1 where r: "sqlcipher_codec_ctx_set_pagesize (env_malloc (pe_sys env)) c (c_atoi z) st = (rc, c1, st1)"
    by (metis prod.exhaust)
  have c1: "refines_update c ((params_of c)\<lparr>par_page_size := c_atoi z\<rparr>) c1"
    using setter_params(5) [OF assms(2,3), of "env_malloc (pe_sys env)" st]
      setter_frame(9,10) [of "env_malloc (pe_sys env)" c "c_atoi z" st] assms(2) r
    by (simp add: refines_update_def)
  have "codec_at iDb b st1 c"
    using pragma_fields_more [of st1 st] set_pagesize_more [of "env_malloc (pe_sys env)" c "c_atoi z" st] r assms(1) by simp
  then obtain e where "codec_at iDb b (sync_btree env (Some b) (\<lambda>rc. rc) (err_if rc rc (c1, st1))) (c1\<lparr>ctx_error := e\<rparr>)"
    using err_sync_at by blast
  moreover have "sqlcipher_codec_pragma env iDb (str ''cipher_page_size'') (Some z) st
      = Some (True, sync_btree env (Some b) (\<lambda>rc. rc) (err_if rc rc (c1, st1)))"
    by (simp add: dispatch_page_size [OF codec_at_of(2) [OF assms(1)]] codec_at_of(1) [OF assms(1)] pragma_page_size_def r handled_def)
  ultimately show ?thesis unfolding pragma_gives_def using c1 by (metis refines_update_error)
qed

lemma use_hmac_refines:
  assumes "codec_at iDb b st c" "\<not> key_used c"
  shows "pragma_gives env iDb b ''cipher_use_hmac'' z st
    (\<lambda>c'. refines_update c ((params_of c)\<lparr>par_use_hmac := sqlite3GetBoolean z 1\<rparr>) c'
      \<and> reserve_sz c' = reserve_of c (sqlite3GetBoolean z 1) (hmac_algorithm c))"
proof -
  obtain rc c1 where r: "sqlcipher_codec_ctx_set_use_hmac c (sqlite3GetBoolean z 1) = (rc, c1)" by (metis prod.exhaust)
  have c1: "refines_update c ((params_of c)\<lparr>par_use_hmac := sqlite3GetBoolean z 1\<rparr>) c1"
    "reserve_sz c1 = reserve_of c (sqlite3GetBoolean z 1) (hmac_algorithm c)"
    using setter_params(2) [OF assms(2), of "sqlite3GetBoolean z 1"] setter_frame(3,4) [of c "sqlite3GetBoolean z 1"]
      setter_reserve(1) [OF assms(2), of "sqlite3GetBoolean z 1"] assms(2) r
    by (simp_all add: refines_update_def)
  obtain e where "codec_at iDb b (sync_btree env (Some b) (\<lambda>rc. rc) (err_if rc rc (c1, st))) (c1\<lparr>ctx_error := e\<rparr>)"
    using err_sync_at [OF assms(1)] by blast
  moreover have "sqlcipher_codec_pragma env iDb (str ''cipher_use_hmac'') (Some z) st
      = Some (True, sync_btree env (Some b) (\<lambda>rc. rc) (err_if rc rc (c1, st)))"
    by (simp add: dispatch_use_hmac [OF codec_at_of(2) [OF assms(1)]] codec_at_of(1) [OF assms(1)] if_ctx_def pragma_use_hmac_def r [simplified] handled_def)
  ultimately show ?thesis unfolding pragma_gives_def using c1 by (metis error_irrelevant(4) refines_update_error)
qed

text \<open>The size of the plaintext header that is in effect after a size \<open>n\<close> was asked for: \<open>- 1\<close> stands for one that does not fit the page.\<close>

definition plaintext_set :: "int \<Rightarrow> int \<Rightarrow> int" where
  "plaintext_set n usable = (if n \<le> usable then n else - 1)"

lemma plaintext_refines:
  assumes "codec_at iDb b st c" "\<not> key_used c" "c_atoi z = n" and "0 \<le> n" "0 < block_sz c" "n mod block_sz c = 0"
  shows "pragma_gives env iDb b ''cipher_plaintext_header_size'' z st
    (refines_update c ((params_of c)\<lparr>par_plaintext := plaintext_set n (page_sz c - reserve_sz c)\<rparr>))"
proof -
  let ?n = "plaintext_set n (page_sz c - reserve_sz c)"
  let ?c = "c\<lparr>plaintext_header_sz := ?n\<rparr>"
  have "sqlcipher_codec_pragma env iDb (str ''cipher_plaintext_header_size'') (Some z) st = Some (True, put_codec (Some b) ?c st)"
    using assms(3-)
    by (simp add: dispatch_plaintext [OF codec_at_of(2) [OF assms(1)]] pragma_plaintext_header_size_def if_ctx_def plaintext_set_def
        codec_at_of(1) [OF assms(1)] handled_def sqlcipher_codec_ctx_set_plaintext_header_size_def)
  moreover have "refines_update c ((params_of c)\<lparr>par_plaintext := ?n\<rparr>) ?c"
    using assms(2) by (simp add: refines_update_def params_of_def same_provider_def key_used_def)
  ultimately show ?thesis unfolding pragma_gives_def using codec_at_put [OF assms(1)] by blast
qed

lemma hmac_refines:
  assumes "codec_at iDb b st c" "\<not> key_used c" "hmac_of_label z = Some alg"
  shows "pragma_gives env iDb b ''cipher_hmac_algorithm'' z st
    (\<lambda>c'. refines_update c ((params_of c)\<lparr>par_hmac := alg\<rparr>) c'
      \<and> reserve_sz c' = reserve_of c (flag_get (ctx_flags c) CIPHER_FLAG_HMAC) alg)"
proof -
  obtain rc c1 where r: "sqlcipher_codec_ctx_set_hmac_algorithm c alg = (rc, c1)" by (metis prod.exhaust)
  have c1: "refines_update c ((params_of c)\<lparr>par_hmac := alg\<rparr>) c1"
    "reserve_sz c1 = reserve_of c (flag_get (ctx_flags c) CIPHER_FLAG_HMAC) alg"
    using setter_params(3) [OF assms(2), of alg] setter_frame(5,6) [of c alg] setter_reserve(2) [OF assms(2), of alg] assms(2) r
    by (simp_all add: refines_update_def)
  obtain e where "codec_at iDb b (sync_btree env (Some b) (\<lambda>_. 1) (err_if rc 1 (c1, st))) (c1\<lparr>ctx_error := e\<rparr>)"
    using err_sync_at [OF assms(1)] by blast
  moreover have "sqlcipher_codec_pragma env iDb (str ''cipher_hmac_algorithm'') (Some z) st
      = Some (True, sync_btree env (Some b) (\<lambda>_. 1) (err_if rc 1 (c1, st)))"
    by (simp add: dispatch_hmac [OF codec_at_of(2) [OF assms(1)]] codec_at_of(1) [OF assms(1)] if_ctx_def pragma_hmac_algorithm_def
        assms(3) r handled_def)
  ultimately show ?thesis unfolding pragma_gives_def using c1 by (metis error_irrelevant(4) refines_update_error)
qed

lemma kdf_refines:
  assumes "codec_at iDb b st c" "\<not> key_used c" "kdf_of_label z = Some alg"
  shows "pragma_gives env iDb b ''cipher_kdf_algorithm'' z st
    (\<lambda>c'. refines_update c ((params_of c)\<lparr>par_kdf := alg\<rparr>) c' \<and> reserve_sz c' = reserve_sz c)"
proof -
  let ?c = "c\<lparr>kdf_algorithm := alg\<rparr>"
  have "sqlcipher_codec_pragma env iDb (str ''cipher_kdf_algorithm'') (Some z) st = Some (True, put_codec (Some b) ?c st)"
    using assms(2,3)
    by (simp add: dispatch_kdf [OF codec_at_of(2) [OF assms(1)]] pragma_kdf_algorithm_def if_ctx_def codec_at_of(1) [OF assms(1)]
        handled_def sqlcipher_codec_ctx_set_kdf_algorithm_def err_if_def)
  moreover have "refines_update c ((params_of c)\<lparr>par_kdf := alg\<rparr>) ?c" "reserve_sz ?c = reserve_sz c"
    using assms(2) by (simp_all add: refines_update_def params_of_def same_provider_def key_used_def)
  ultimately show ?thesis unfolding pragma_gives_def using codec_at_put [OF assms(1)] by blast
qed

subsection \<open>Sequences of pragmas\<close>

fun run_pragmas :: "'p pg_env \<Rightarrow> nat \<Rightarrow> (string \<times> byte list) list \<Rightarrow> 'p pragma_state \<Rightarrow> 'p pragma_state option" where
  "run_pragmas env iDb [] st = Some st"
| "run_pragmas env iDb ((name, z) # ps) st =
     (case sqlcipher_codec_pragma env iDb (str name) (Some z) st of
        Some (True, st') \<Rightarrow> run_pragmas env iDb ps st'
      | _ \<Rightarrow> None)"

definition settings_of :: "'p codec_ctx \<Rightarrow> (string \<times> byte list) list" where
  "settings_of c =
     [(''kdf_iter'', mprintf_d (kdf_iter c)), (''cipher_page_size'', mprintf_d (page_sz c)),
      (''cipher_use_hmac'', mprintf_bool (flag_get (ctx_flags c) CIPHER_FLAG_HMAC)),
      (''cipher_plaintext_header_size'', mprintf_d (plaintext_header_sz c)),
      (''cipher_hmac_algorithm'', the (hmac_label (hmac_algorithm c))),
      (''cipher_kdf_algorithm'', the (kdf_label (kdf_algorithm c)))]"

text \<open>The parameters a codec can have.\<close>

definition settings_ok :: "'p codec_ctx \<Rightarrow> bool" where
  "settings_ok c \<longleftrightarrow> - (2 ^ 31) \<le> kdf_iter c \<and> kdf_iter c < 2 ^ 31 \<and> valid_page_size (page_sz c)
     \<and> 0 \<le> plaintext_header_sz c \<and> plaintext_header_sz c \<le> page_sz c \<and> 0 < block_sz c \<and> plaintext_header_sz c mod block_sz c = 0
     \<and> 0 \<le> hmac_algorithm c \<and> hmac_algorithm c \<le> 2 \<and> 0 \<le> kdf_algorithm c \<and> kdf_algorithm c \<le> 2
     \<and> reserve_sz c = reserve_of c (flag_get (ctx_flags c) CIPHER_FLAG_HMAC) (hmac_algorithm c)"

lemma labels_exist:
  "0 \<le> alg \<Longrightarrow> alg \<le> 2 \<Longrightarrow> hmac_label alg = Some (the (hmac_label alg))"
  "0 \<le> alg \<Longrightarrow> alg \<le> 2 \<Longrightarrow> kdf_label alg = Some (the (kdf_label alg))"
  by (auto simp: hmac_label_def kdf_label_def)

lemma settings_rows:
  assumes "codec_at iDb b st c" "settings_ok c"
  shows "\<exists>st'. sqlcipher_codec_pragma env iDb (str ''cipher_settings'') None st = Some (True, st')
    \<and> pg_rows st' = pg_rows st @ map (\<lambda>(name, z). (str ''pragma'', setting name (Some z))) (settings_of c)"
  using labels_exist assms(2) unfolding settings_ok_def
  by (simp add: dispatch_settings [OF codec_at_of(2) [OF assms(1)]] handled_def pragma_settings_def if_ctx_def
      codec_at_of(1) [OF assms(1)] setting_rows_def sqlcipher_vdbe_return_string_def settings_of_def)

lemma settings_restore:
  fixes c1 c2 :: "'p codec_ctx"
  assumes ok: "settings_ok c1" and at: "codec_at iDb b st c2" and c2: "\<not> key_used c2" "same_provider c2 c1"
  shows "\<exists>st' c. run_pragmas env iDb (settings_of c1) st = Some st' \<and> codec_at iDb b st' c
    \<and> params_of c = (params_of c1)\<lparr>par_plaintext := plaintext_set (plaintext_header_sz c1)
        (page_sz c1 - reserve_of c1 (flag_get (ctx_flags c1) CIPHER_FLAG_HMAC) (hmac_algorithm c2))\<rparr> \<and> reserve_sz c = reserve_sz c1"
proof -
  let ?use = "flag_get (ctx_flags c1) CIPHER_FLAG_HMAC"
  have r: "reserve_of c = reserve_of c1" if "same_provider c c1" for c :: "'p codec_ctx"
    using reserve_of_cong that by blast
  have t: "same_provider c d \<Longrightarrow> same_provider d c1 \<Longrightarrow> same_provider c c1" for c d by (simp add: same_provider_def)
  have a: "c_atoi (mprintf_d (kdf_iter c1)) = kdf_iter c1" "c_atoi (mprintf_d (page_sz c1)) = page_sz c1"
    using ok by (auto intro!: c_atoi_mprintf simp: settings_ok_def valid_page_size_def)
  from kdf_iter_refines [OF at c2(1), of env "mprintf_d (kdf_iter c1)"] a(1)
  obtain st3 c3 where 3: "sqlcipher_codec_pragma env iDb (str ''kdf_iter'') (Some (mprintf_d (kdf_iter c1))) st = Some (True, st3)"
    "codec_at iDb b st3 c3" "params_of c3 = (params_of c2)\<lparr>par_kdf_iter := kdf_iter c1\<rparr>" "same_provider c3 c1" "\<not> key_used c3"
    using t c2(2) by (auto simp: pragma_gives_def refines_update_def)
  have v: "valid_page_size (c_atoi (mprintf_d (page_sz c1)))" using a ok by (simp add: settings_ok_def)
  from page_size_refines [OF 3(2,5) v, of env] a(2)
  obtain st4 c4 where 4: "sqlcipher_codec_pragma env iDb (str ''cipher_page_size'') (Some (mprintf_d (page_sz c1))) st3 = Some (True, st4)"
    "codec_at iDb b st4 c4" "params_of c4 = (params_of c3)\<lparr>par_page_size := page_sz c1\<rparr>" "same_provider c4 c1" "\<not> key_used c4"
    using t 3(4) by (auto simp: pragma_gives_def refines_update_def)
  from use_hmac_refines [OF 4(2,5), of env "mprintf_bool ?use"]
  obtain st5 c5 where 5: "sqlcipher_codec_pragma env iDb (str ''cipher_use_hmac'') (Some (mprintf_bool ?use)) st4 = Some (True, st5)"
    "codec_at iDb b st5 c5" "params_of c5 = (params_of c4)\<lparr>par_use_hmac := ?use\<rparr>" "same_provider c5 c1" "\<not> key_used c5"
    "reserve_sz c5 = reserve_of c4 ?use (hmac_algorithm c4)"
    using t 4(4) unfolding pragma_gives_def refines_update_def getBoolean_mprintf by blast
  have p5: "page_sz c5 = page_sz c1" "hmac_algorithm c4 = hmac_algorithm c2" "block_sz c5 = block_sz c1"
    using 3(3) 4(3) 5(3,4) by (auto simp: params_of_def same_provider_def)
  let ?n = "plaintext_set (plaintext_header_sz c1) (page_sz c1 - reserve_of c1 ?use (hmac_algorithm c2))"
  have n: "0 \<le> plaintext_header_sz c1" "0 < block_sz c5" "plaintext_header_sz c1 mod block_sz c5 = 0"
    using ok p5 by (auto simp: settings_ok_def)
  have u: "page_sz c5 - reserve_sz c5 = page_sz c1 - reserve_of c1 ?use (hmac_algorithm c2)" using r [OF 4(4)] 5(6) p5 by simp
  have pz: "c_atoi (mprintf_d (plaintext_header_sz c1)) = plaintext_header_sz c1"
    using ok by (intro c_atoi_mprintf) (auto simp: settings_ok_def valid_page_size_def)
  from plaintext_refines [OF 5(2,5) pz n, of env, unfolded u]
  obtain st6 c6 where 6: "sqlcipher_codec_pragma env iDb (str ''cipher_plaintext_header_size'')
      (Some (mprintf_d (plaintext_header_sz c1))) st5 = Some (True, st6)"
    "codec_at iDb b st6 c6" "params_of c6 = (params_of c5)\<lparr>par_plaintext := ?n\<rparr>" "same_provider c6 c1"
    "\<not> key_used c6"
    using t 5(4) by (auto simp: pragma_gives_def refines_update_def)
  have lab: "hmac_of_label (the (hmac_label (hmac_algorithm c1))) = Some (hmac_algorithm c1)"
    "kdf_of_label (the (kdf_label (kdf_algorithm c1))) = Some (kdf_algorithm c1)"
    using ok hmac_label_roundtrip [OF labels_exist(1)] kdf_label_roundtrip [OF labels_exist(2)] by (auto simp: settings_ok_def)
  from hmac_refines [OF 6(2,5) lab(1), of env]
  obtain st7 c7 where 7: "sqlcipher_codec_pragma env iDb (str ''cipher_hmac_algorithm'')
      (Some (the (hmac_label (hmac_algorithm c1)))) st6 = Some (True, st7)"
    "codec_at iDb b st7 c7" "params_of c7 = (params_of c6)\<lparr>par_hmac := hmac_algorithm c1\<rparr>" "same_provider c7 c1" "\<not> key_used c7"
    "reserve_sz c7 = reserve_of c6 (flag_get (ctx_flags c6) CIPHER_FLAG_HMAC) (hmac_algorithm c1)"
    using t 6(4) unfolding pragma_gives_def refines_update_def by blast
  from kdf_refines [OF 7(2,5) lab(2), of env]
  obtain st8 c8 where 8: "sqlcipher_codec_pragma env iDb (str ''cipher_kdf_algorithm'')
      (Some (the (kdf_label (kdf_algorithm c1)))) st7 = Some (True, st8)"
    "codec_at iDb b st8 c8" "params_of c8 = (params_of c7)\<lparr>par_kdf := kdf_algorithm c1\<rparr>" "reserve_sz c8 = reserve_sz c7"
    unfolding pragma_gives_def refines_update_def by blast
  have "flag_get (ctx_flags c6) CIPHER_FLAG_HMAC = ?use" using 5(3) 6(3) by (simp add: params_of_def)
  then have "reserve_sz c8 = reserve_sz c1" using 8(4) 7(6) r [OF 6(4)] ok by (simp add: settings_ok_def)
  moreover have "params_of c8 = (params_of c1)\<lparr>par_plaintext := ?n\<rparr>" using 8(3) 7(3) 6(3) 5(3) 4(3) 3(3) by (simp add: params_of_def)
  moreover have "run_pragmas env iDb (settings_of c1) st = Some st8"
    using 3(1) 4(1) 5(1) 6(1) 7(1) 8(1) by (simp add: settings_of_def)
  ultimately show ?thesis using 8(2) by blast
qed

subsection \<open>Compatibility\<close>

text \<open>The parameters of a version of SQLCipher.\<close>

definition compat_params :: "int \<Rightarrow> codec_params \<Rightarrow> codec_params" where
  "compat_params version p =
     (if version = 1 then p\<lparr>par_page_size := 1024, par_hmac := 0, par_kdf := 0, par_kdf_iter := 4000, par_use_hmac := False\<rparr>
      else if version = 2 then p\<lparr>par_page_size := 1024, par_hmac := 0, par_kdf := 0, par_kdf_iter := 4000, par_use_hmac := True\<rparr>
      else if version = 3 then p\<lparr>par_page_size := 1024, par_hmac := 0, par_kdf := 0, par_kdf_iter := 64000, par_use_hmac := True\<rparr>
      else p\<lparr>par_page_size := 4096, par_hmac := 2, par_kdf := 2, par_kdf_iter := 256000, par_use_hmac := True\<rparr>)"

lemma compat_setters_at:
  assumes "codec_at iDb b st d" "\<not> key_used c" "valid_page_size sz"
  shows "\<exists>c' st'. compat_setters env sz hmac kdf iter use (c, st) = (c', st') \<and> codec_at iDb b st' d
    \<and> params_of c' = (params_of c)\<lparr>par_page_size := sz, par_hmac := hmac, par_kdf := kdf, par_kdf_iter := iter, par_use_hmac := use\<rparr>"
proof -
  obtain rc1 c1 st1 where 1: "sqlcipher_codec_ctx_set_pagesize (env_malloc (pe_sys env)) c sz st = (rc1, c1, st1)"
    by (metis prod.exhaust)
  have "codec_at iDb b st1 d"
    using pragma_fields_more [of st1 st] set_pagesize_more [of "env_malloc (pe_sys env)" c sz st] 1 assms(1) by simp
  then obtain e2 st2 where 2: "err_if rc1 SQLITE_ERROR (c1, st1) = (c1\<lparr>ctx_error := e2\<rparr>, st2)" "codec_at iDb b st2 d"
    using err_if_at by blast
  let ?c2 = "c1\<lparr>ctx_error := e2\<rparr>"
  have k2: "\<not> key_used ?c2" "params_of ?c2 = (params_of c)\<lparr>par_page_size := sz\<rparr>"
    using setter_frame(10) [of "env_malloc (pe_sys env)" c sz st] setter_params(5) [OF assms(2,3), of "env_malloc (pe_sys env)" st] 1 assms(2)
    by simp_all
  define c3 where "c3 = snd (sqlcipher_codec_ctx_set_hmac_algorithm ?c2 hmac)"
  define c4 where "c4 = snd (sqlcipher_codec_ctx_set_kdf_algorithm c3 kdf)"
  define c5 where "c5 = snd (sqlcipher_codec_ctx_set_kdf_iter c4 iter)"
  define c6 where "c6 = snd (sqlcipher_codec_ctx_set_use_hmac c5 use)"
  have k: "\<not> key_used c3" "\<not> key_used c4" "\<not> key_used c5"
    using k2(1) by (simp_all only: c3_def c4_def c5_def setter_frame simp_thms)
  have s: "sqlcipher_codec_ctx_set_hmac_algorithm ?c2 hmac = (SQLITE_OK, c3)" "sqlcipher_codec_ctx_set_kdf_algorithm c3 kdf = (SQLITE_OK, c4)"
    "sqlcipher_codec_ctx_set_kdf_iter c4 iter = (SQLITE_OK, c5)" "sqlcipher_codec_ctx_set_use_hmac c5 use = (SQLITE_OK, c6)"
    using k2(1) k
    by (simp_all add: c3_def c4_def c5_def c6_def sqlcipher_codec_ctx_set_hmac_algorithm_def sqlcipher_codec_ctx_set_kdf_algorithm_def
        sqlcipher_codec_ctx_set_kdf_iter_def sqlcipher_codec_ctx_set_use_hmac_def reserve_setup_eq)
  have "compat_setters env sz hmac kdf iter use (c, st) = (c6, st2)"
    by (simp add: compat_setters_def 1 2(1) s err_if_OK)
  moreover have "params_of c6 = (params_of c)\<lparr>par_page_size := sz, par_hmac := hmac, par_kdf := kdf, par_kdf_iter := iter, par_use_hmac := use\<rparr>"
    unfolding c6_def setter_params(2) [OF k(3)] unfolding c5_def setter_params(1) [OF k(2)]
    unfolding c4_def setter_params(4) [OF k(1)] unfolding c3_def setter_params(3) [OF k2(1)] k2(2) by simp
  ultimately show ?thesis using 2(2) by blast
qed

subsection \<open>Samples\<close>

definition sample_pragma_state :: "nat codec_ctx \<Rightarrow> nat pragma_state" where
  "sample_pragma_state c = api_state.extend (sample_api_state [0 \<mapsto> c])
     (pragma_state.fields sample_conn [] Out_Off 2 1 Out_Stderr False False)"

definition sample_pragma_env :: "nat pg_env" where
  "sample_pragma_env = \<lparr>pe_sys = sample_env, pe_tmp_malloc = True, pe_fopen = (\<lambda>_. True), pe_version = [], pe_fips_status = (\<lambda>_. 0),
     pe_provider_name = (\<lambda>_. []), pe_provider_version = (\<lambda>_. []), pe_cipher_name = (\<lambda>_. []), pe_migrate = (\<lambda>_ st. (0, st))\<rparr>"

definition sample_settings_ctx :: "nat codec_ctx" where
  "sample_settings_ctx = sample_codec_ctx\<lparr>page_sz := 1024, kdf_iter := 4000, reserve_sz := 3, plaintext_header_sz := 32,
     hmac_algorithm := 1, kdf_algorithm := 2\<rparr>"

lemma sample_pragma_at: "codec_at 0 0 (sample_pragma_state c) c"
  by (simp add: codec_at_def sample_pragma_state_def sample_conn_def pragma_state.defs api_state.defs sample_api_state_def sc_state.defs)

lemma sample_settings_ok: "settings_ok sample_settings_ctx" "same_provider sample_codec_ctx sample_settings_ctx"
  "\<not> key_used sample_codec_ctx" "reserve_of sample_settings_ctx True alg = 3" "flag_get (ctx_flags sample_settings_ctx) 1"
  by (simp_all add: settings_ok_def sample_settings_ctx_def sample_simps valid_page_size_def reserve_of_def same_provider_def key_used_def)

section \<open>Properties\<close>

text \<open>C36. The rows of \<open>PRAGMA cipher_settings\<close> are pragmas, and running them in their order on another database whose key has not been used
  gives it the iteration count, the page size, the HMAC flag, the HMAC and the KDF algorithm of the first, with the page reserve that goes with them: numbers, flags and algorithm names
  survive printing, matching and parsing, whatever the memory allocator and the pager answer on the way. The size of the plaintext header is restored too if it fits the page with
  the reserve of the HMAC algorithm that the second database had before, because that pragma is run before the algorithm is changed; otherwise it becomes \<open>- 1\<close>, which makes the codec unusable.
  (\<open>fast_kdf_iter\<close>, the byte order of the page number and the salt mask are not among the rows.)\<close>

theorem settings_roundtrip:
  fixes c1 c2 :: "'p codec_ctx"
  assumes "codec_at i1 b1 st1 c1" "settings_ok c1" "codec_at i2 b2 st2 c2" "\<not> key_used c2" "same_provider c2 c1"
  shows "\<exists>ps st1' st2' c. sqlcipher_codec_pragma env1 i1 (str ''cipher_settings'') None st1 = Some (True, st1')
    \<and> pg_rows st1' = pg_rows st1 @ map (\<lambda>(name, z). (str ''pragma'', setting name (Some z))) ps
    \<and> run_pragmas env2 i2 ps st2 = Some st2' \<and> codec_at i2 b2 st2' c \<and> reserve_sz c = reserve_sz c1
    \<and> params_of c = \<lparr>par_kdf_iter = kdf_iter c1, par_page_size = page_sz c1, par_use_hmac = flag_get (ctx_flags c1) CIPHER_FLAG_HMAC,
        par_plaintext = (if plaintext_header_sz c1 \<le> page_sz c1 - reserve_of c1 (flag_get (ctx_flags c1) CIPHER_FLAG_HMAC) (hmac_algorithm c2)
                         then plaintext_header_sz c1 else - 1),
        par_hmac = hmac_algorithm c1, par_kdf = kdf_algorithm c1\<rparr>"
proof -
  have "(params_of c1)\<lparr>par_plaintext := n\<rparr> = \<lparr>par_kdf_iter = kdf_iter c1, par_page_size = page_sz c1, par_use_hmac = flag_get (ctx_flags c1) CIPHER_FLAG_HMAC,
        par_plaintext = n, par_hmac = hmac_algorithm c1, par_kdf = kdf_algorithm c1\<rparr>" for n by (simp add: params_of_def)
  then show ?thesis using settings_rows [OF assms(1,2), of env1] settings_restore [OF assms(2-5), of env2] unfolding plaintext_set_def by metis
qed

theorem settings_roundtrip_witness:
  "\<exists>ps st1' st2' c. sqlcipher_codec_pragma sample_pragma_env 0 (str ''cipher_settings'') None (sample_pragma_state sample_settings_ctx)
      = Some (True, st1')
    \<and> run_pragmas sample_pragma_env 0 ps (sample_pragma_state sample_codec_ctx) = Some st2' \<and> codec_at 0 0 st2' c
    \<and> kdf_iter c = 4000 \<and> page_sz c = 1024 \<and> plaintext_header_sz c = 32 \<and> hmac_algorithm c = 1"
proof -
  have fits: "plaintext_header_sz sample_settings_ctx \<le> page_sz sample_settings_ctx
      - reserve_of sample_settings_ctx (flag_get (ctx_flags sample_settings_ctx) CIPHER_FLAG_HMAC) (hmac_algorithm sample_codec_ctx)"
    using sample_settings_ok by (simp add: sample_settings_ctx_def)
  obtain ps st1' st2' c where x: "sqlcipher_codec_pragma sample_pragma_env 0 (str ''cipher_settings'') None (sample_pragma_state sample_settings_ctx)
      = Some (True, st1')"
    "run_pragmas sample_pragma_env 0 ps (sample_pragma_state sample_codec_ctx) = Some st2'" "codec_at 0 0 st2' c"
    "params_of c = \<lparr>par_kdf_iter = kdf_iter sample_settings_ctx, par_page_size = page_sz sample_settings_ctx,
        par_use_hmac = flag_get (ctx_flags sample_settings_ctx) CIPHER_FLAG_HMAC, par_plaintext = plaintext_header_sz sample_settings_ctx,
        par_hmac = hmac_algorithm sample_settings_ctx, par_kdf = kdf_algorithm sample_settings_ctx\<rparr>"
    using settings_roundtrip [OF sample_pragma_at sample_settings_ok(1) sample_pragma_at sample_settings_ok(3,2),
        of sample_pragma_env sample_pragma_env] unfolding if_P [OF fits] by blast
  from x(4) have "kdf_iter c = 4000 \<and> page_sz c = 1024 \<and> plaintext_header_sz c = 32 \<and> hmac_algorithm c = 1"
    by (simp add: params_of_def sample_settings_ctx_def)
  then show ?thesis using x(1-3) by blast
qed

text \<open>\<open>PRAGMA cipher_compatibility\<close> gives a codec whose key has not been used exactly the parameters that
  \<open>PRAGMA cipher_default_compatibility\<close> with the same argument, whatever text it is, makes the defaults of codecs created from then on.\<close>

theorem compatibility_agrees:
  assumes "codec_at iDb b st c" "\<not> key_used c"
  shows "\<exists>st1 c' st2. sqlcipher_codec_pragma env iDb (str ''cipher_compatibility'') (Some z) st = Some (True, st1)
    \<and> codec_at iDb b st1 c'
    \<and> sqlcipher_codec_pragma env iDb (str ''cipher_default_compatibility'') (Some z) st = Some (True, st2)
    \<and> params_of c' = compat_params (c_atoi z) (params_of c)
    \<and> params_of c' = \<lparr>par_kdf_iter = default_kdf_iter st2, par_page_size = default_page_size st2,
        par_use_hmac = flag_get (default_flags st2) CIPHER_FLAG_HMAC, par_plaintext = plaintext_header_sz c,
        par_hmac = default_hmac_algorithm st2, par_kdf = default_kdf_algorithm st2\<rparr>"
proof -
  let ?v = "c_atoi z"
  have v: "valid_page_size 1024" "valid_page_size 4096" by (simp_all add: valid_page_size_def)
  define r where "r = (if ?v = 1 then compat_setters env 1024 0 0 4000 False (c, st)
    else if ?v = 2 then compat_setters env 1024 0 0 4000 True (c, st)
    else if ?v = 3 then compat_setters env 1024 0 0 64000 True (c, st)
    else compat_setters env 4096 2 2 256000 True (c, st))"
  obtain c1 st1 where 1: "r = (c1, st1)" "codec_at iDb b st1 c" "params_of c1 = compat_params ?v (params_of c)"
    unfolding r_def compat_params_def
    using compat_setters_at [OF assms v(1), of env 0 0 4000 False] compat_setters_at [OF assms v(1), of env 0 0 4000 True]
      compat_setters_at [OF assms v(1), of env 0 0 64000 True] compat_setters_at [OF assms v(2), of env 2 2 256000 True]
    by (cases "?v = 1"; cases "?v = 2"; cases "?v = 3"; fastforce)
  obtain e where e: "codec_at iDb b (sync_btree env (Some b) (\<lambda>_. SQLITE_ERROR) (c1, st1)) (c1\<lparr>ctx_error := e\<rparr>)"
    using sync_btree_at [OF 1(2)] by blast
  have p: "sqlcipher_codec_pragma env iDb (str ''cipher_compatibility'') (Some z) st
      = Some (True, sync_btree env (Some b) (\<lambda>_. SQLITE_ERROR) (c1, st1))"
    unfolding 1(1) [symmetric] r_def
    by (simp add: dispatch_compatibility [OF codec_at_of(2) [OF assms(1)]] pragma_compatibility_def if_ctx_def
        codec_at_of(1) [OF assms(1)] handled_def Let_def)
  have q: "sqlcipher_codec_pragma env iDb (str ''cipher_default_compatibility'') (Some z) st
      = Some (True, pragma_default_compatibility (Some z) st)"
    by (simp add: dispatch_default_compatibility [OF codec_at_of(2) [OF assms(1)]] handled_def)
  have d: "compat_params ?v (params_of c) = (let st2 = pragma_default_compatibility (Some z) st in
      \<lparr>par_kdf_iter = default_kdf_iter st2, par_page_size = default_page_size st2,
        par_use_hmac = flag_get (default_flags st2) CIPHER_FLAG_HMAC, par_plaintext = plaintext_header_sz c,
        par_hmac = default_hmac_algorithm st2, par_kdf = default_kdf_algorithm st2\<rparr>)"
    by (simp add: compat_params_def params_of_def pragma_default_compatibility_def sqlcipher_set_default_use_hmac_def
        flag_get_set flag_get_unset Let_def)
  have "params_of (c1\<lparr>ctx_error := e\<rparr>) = compat_params ?v (params_of c)" using 1(3) by simp
  then show ?thesis using p q e d by (metis (no_types, lifting))
qed

theorem compatibility_agrees_witness:
  "\<exists>st1 c'. sqlcipher_codec_pragma sample_pragma_env 0 (str ''cipher_compatibility'') (Some (str ''3'')) (sample_pragma_state sample_codec_ctx)
      = Some (True, st1) \<and> codec_at 0 0 st1 c' \<and> page_sz c' = 1024 \<and> kdf_iter c' = 64000"
proof -
  have "c_atoi (str ''3'') = 3" by code_simp
  then show ?thesis
    using compatibility_agrees [OF sample_pragma_at sample_settings_ok(3), of sample_pragma_env "str ''3''"]
    by (fastforce simp: compat_params_def params_of_def)
qed

end
