(* ===== verification/Codec_Frozen.thy ===== *)
theory Codec_Frozen
  imports Codec_Settings
begin

text \<open>
  What the pragmas of \<open>sqlcipher_codec_pragma\<close> (\<open>src/sqlcipher.c\<close>) can still change once the key of a codec has been used: an invariant of all of them but
  \<open>cipher_migrate\<close>, which is a parameter of the model. Kept are the keys and everything that they and the size of a page are computed from. Not kept, because the code has no
  guard there, are the size of the plaintext header, the byte order of the page number in the HMAC, the mask of the HMAC salt and whether the passphrase is stored.
\<close>

section \<open>Definitions\<close>


text \<open>The parameters that are the same in two contexts, both with a key that has been used.\<close>

definition same_parameters :: "'p codec_ctx \<Rightarrow> 'p codec_ctx \<Rightarrow> bool" where
  "same_parameters c c' \<longleftrightarrow> kdf_iter c' = kdf_iter c \<and> fast_kdf_iter c' = fast_kdf_iter c \<and> kdf_salt c' = kdf_salt c \<and> kdf_salt_sz c' = kdf_salt_sz c
     \<and> kdf_algorithm c' = kdf_algorithm c \<and> hmac_algorithm c' = hmac_algorithm c \<and> page_sz c' = page_sz c \<and> reserve_sz c' = reserve_sz c
     \<and> key_sz c' = key_sz c \<and> iv_sz c' = iv_sz c \<and> block_sz c' = block_sz c \<and> hmac_sz c' = hmac_sz c \<and> pBt c' = pBt c \<and> ctx_provider c' = ctx_provider c
     \<and> flag_get (ctx_flags c') CIPHER_FLAG_HMAC = flag_get (ctx_flags c) CIPHER_FLAG_HMAC"

definition frozen :: "'p codec_ctx \<Rightarrow> cipher_ctx \<Rightarrow> cipher_ctx \<Rightarrow> 'p codec_ctx \<Rightarrow> bool" where
  "frozen c r w c' \<longleftrightarrow> same_parameters c c' \<and> key_used c' \<and> flag_get (ctx_flags c') CIPHER_FLAG_HAS_KDF_SALT
     \<and> (\<exists>r' w'. codec_keyed c' r' w' \<and> same_keys r r' \<and> same_keys w w')"

section \<open>Lemmas\<close>

subsection \<open>Contexts\<close>

lemma frozen_fields [simp]:
  "frozen c r w (c'\<lparr>ctx_error := e\<rparr>) = frozen c r w c'" "frozen c r w (c'\<lparr>store_pass := n\<rparr>) = frozen c r w c'"
  "frozen c r w (c'\<lparr>plaintext_header_sz := n\<rparr>) = frozen c r w c'" "frozen c r w (c'\<lparr>provider_ctx := q\<rparr>) = frozen c r w c'"
  "frozen c r w (c'\<lparr>ctx_buffer := B\<rparr>) = frozen c r w c'"
  by (simp_all add: frozen_def same_parameters_def key_used_def codec_keyed_def)









subsection \<open>The integrity check\<close>






subsection \<open>States\<close>

definition held :: "nat \<Rightarrow> nat \<Rightarrow> 'p codec_ctx \<Rightarrow> cipher_ctx \<Rightarrow> cipher_ctx \<Rightarrow> 'p pragma_state \<Rightarrow> bool" where
  "held iDb b c r w st \<longleftrightarrow> (\<exists>c'. codec_at iDb b st c' \<and> frozen c r w c')"


lemma held_fields [simp]:
  "held iDb b c r w (st\<lparr>default_kdf_iter := n\<rparr>) = held iDb b c r w st" "held iDb b c r w (st\<lparr>default_page_size := n\<rparr>) = held iDb b c r w st"
  "held iDb b c r w (st\<lparr>default_plaintext_header_size := n\<rparr>) = held iDb b c r w st" "held iDb b c r w (st\<lparr>default_hmac_algorithm := n\<rparr>) = held iDb b c r w st"
  "held iDb b c r w (st\<lparr>default_kdf_algorithm := n\<rparr>) = held iDb b c r w st" "held iDb b c r w (st\<lparr>default_flags := f\<rparr>) = held iDb b c r w st"
  "held iDb b c r w (st\<lparr>pg_profile := t\<rparr>) = held iDb b c r w st" "held iDb b c r w (st\<lparr>log_target := t\<rparr>) = held iDb b c r w st"
  "held iDb b c r w (st\<lparr>log_level := f\<rparr>) = held iDb b c r w st" "held iDb b c r w (st\<lparr>log_source := f\<rparr>) = held iDb b c r w st"
  "held iDb b c r w (st\<lparr>mem_security_on := u\<rparr>) = held iDb b c r w st" "held iDb b c r w (st\<lparr>hmac_salt_mask := m\<rparr>) = held iDb b c r w st"
  by (simp_all add: held_def codec_at_def)










subsection \<open>Pragmas\<close>



lemma held_default_hmac [simp]: "held iDb b c r w (sqlcipher_set_default_use_hmac use st) = held iDb b c r w st"
  by (simp add: sqlcipher_set_default_use_hmac_def)
















section \<open>Properties\<close>




end
