(* ===== verification/Lifecycle.thy ===== *)
theory Lifecycle
  imports Codec_Setup "HOL-Library.Multiset"
begin

text \<open>
  Start-up and shut-down of SQLCipher in \<open>src/sqlcipher.c\<close>: \<open>sqlcipher_extra_init\<close>, \<open>sqlcipher_extra_shutdown\<close>,
  the list of registered providers, and the life cycle they form together.

  A provider is a pointer; \<open>lf_next\<close> is the \<open>next\<close> field of each, so that the list surgery of
  \<open>sqlcipher_register_provider\<close> is done on pointers as in the C code, and its search loop, which would
  not end on a cyclic list, is a partial function. The answers of the platform and of the provider
  (mutex allocation, memory, the provider's \<open>init\<close>, \<open>ctx_init\<close> and \<open>random\<close>) are the environment of one
  call; \<open>has_shutdown\<close> says which providers have a \<open>shutdown\<close> function, and \<open>lf_shutdown_calls\<close> records its calls (what a
  provider does to its own state there is not modelled). The master mutex and the log are left out. The registration of \<open>atexit\<close> is the flag \<open>lf_cleanup\<close>.
\<close>

section \<open>Definitions\<close>

abbreviation (input) SQLCIPHER_MUTEX_COUNT :: nat where "SQLCIPHER_MUTEX_COUNT \<equiv> 8"
abbreviation (input) SQLCIPHER_LOG_NONE :: int where "SQLCIPHER_LOG_NONE \<equiv> 0"
abbreviation (input) SQLCIPHER_LOG_WARN :: int where "SQLCIPHER_LOG_WARN \<equiv> 2"
abbreviation (input) SHIELD_MASK_SZ :: nat where "SHIELD_MASK_SZ \<equiv> 32"
abbreviation (input) sizeof_provider :: int where "sizeof_provider \<equiv> 144"

record life_state = heap_state +
  lf_init :: bool
  lf_init_error :: int
  lf_shutdown :: bool
  lf_cleanup :: bool
  lf_log_set :: bool
  lf_log_level :: int
  lf_log_target :: bool
  lf_mutex :: "bool list"
  lf_default :: "nat option"
  lf_next :: "nat \<Rightarrow> nat option"
  lf_shield :: "heap_buf option"
  lf_export :: bool
  lf_shutdown_calls :: "nat list"

record life_env =
  le_malloc :: xmalloc
  le_mutex :: "nat \<Rightarrow> bool"
  le_prov_init :: "nat \<Rightarrow> int option"
  le_ctx_init :: int
  le_seed :: "int \<times> xoshiro"
  le_mask :: "int \<times> byte list"

subsection \<open>Providers\<close>

text \<open>The search for the provider behind the default one; when found it is unlinked. The first component
  of the result is \<open>preexisting\<close>.\<close>

partial_function (option) register_search ::
    "(nat \<Rightarrow> nat option) \<Rightarrow> nat \<Rightarrow> nat \<Rightarrow> nat option \<Rightarrow> (bool \<times> (nat \<Rightarrow> nat option)) option" where
  "register_search nxt p previous current =
     (if current = None then Some (False, nxt)
      else if the current = p then Some (True, nxt(previous := nxt (the current)))
      else register_search nxt p (the current) (nxt (the current)))"

definition sqlcipher_register_provider ::
    "(nat \<Rightarrow> int option) \<Rightarrow> nat option \<Rightarrow> 'a life_state_scheme \<Rightarrow> (int \<times> 'a life_state_scheme) option" where
  "sqlcipher_register_provider p_init p st =
     (case p of
        None \<Rightarrow> Some (SQLITE_OK, st)
      | Some q \<Rightarrow>
          if lf_default st = Some q then Some (SQLITE_OK, st)
          else
            (case (case lf_default st of
                     None \<Rightarrow> Some (False, (lf_next st)(q := None))
                   | Some d \<Rightarrow>
                       map_option (\<lambda>(pre, nxt). (pre, nxt(q := Some d))) (register_search (lf_next st) q d (lf_next st d))) of
               None \<Rightarrow> None
             | Some (preexisting, nxt) \<Rightarrow>
                 let st = st\<lparr>lf_next := nxt\<rparr>;
                     rc = (if \<not> preexisting then (case p_init q of None \<Rightarrow> SQLITE_OK | Some rc \<Rightarrow> rc) else SQLITE_OK)
                 in Some (rc, if rc = SQLITE_OK then st\<lparr>lf_default := Some q\<rparr> else st)))"

definition sqlcipher_get_provider :: "'a life_state_scheme \<Rightarrow> nat option" where
  "sqlcipher_get_provider st = lf_default st"

subsection \<open>Initialisation\<close>

definition init_logging :: "'a life_state_scheme \<Rightarrow> 'a life_state_scheme" where
  "init_logging st =
     (if \<not> lf_log_set st
      then st\<lparr>lf_log_level := (if lf_log_level st = SQLCIPHER_LOG_NONE then SQLCIPHER_LOG_WARN else lf_log_level st),
              lf_log_target := True, lf_log_set := True\<rparr>
      else st)"

text \<open>The loop over the static mutexes stops at the first one that cannot be allocated.\<close>

fun init_mutexes :: "(nat \<Rightarrow> bool) \<Rightarrow> nat \<Rightarrow> bool list \<Rightarrow> bool \<times> bool list" where
  "init_mutexes ok i [] = (True, [])"
| "init_mutexes ok i (m # ms) =
     (if m \<or> ok i then (let (r, ms') = init_mutexes ok (i + 1) ms in (r, True # ms')) else (False, m # ms))"

text \<open>Every early exit frees heap, mask and mutexes, and records the code; the provider list is not touched.\<close>

definition private_heap_ptr :: "'a heap_state_scheme \<Rightarrow> nat option" where
  "private_heap_ptr st = (case private_heap st of [] \<Rightarrow> None | b # _ \<Rightarrow> Some (b_addr b))"

definition free_private_heap :: "'a heap_state_scheme \<Rightarrow> 'a heap_state_scheme" where
  "free_private_heap st =
     (case private_heap_ptr st of
        None \<Rightarrow> st
      | Some a \<Rightarrow> (sqlcipher_internal_free a (private_heap_sz st) st)\<lparr>private_heap := []\<rparr>)"

definition free_shield_mask :: "'a life_state_scheme \<Rightarrow> 'a life_state_scheme" where
  "free_shield_mask st =
     (case lf_shield st of
        None \<Rightarrow> st
      | Some b \<Rightarrow> (sqlcipher_internal_free (buf_addr b) SHIELD_MASK_SZ st)\<lparr>lf_shield := None\<rparr>)"

definition free_mutexes :: "'a life_state_scheme \<Rightarrow> 'a life_state_scheme" where
  "free_mutexes st = st\<lparr>lf_mutex := map (\<lambda>_. False) (lf_mutex st)\<rparr>"

definition init_error_exit :: "int \<Rightarrow> 'a life_state_scheme \<Rightarrow> int \<times> 'a life_state_scheme" where
  "init_error_exit rc st =
     (rc, (free_mutexes (free_shield_mask (free_private_heap st)))\<lparr>lf_init_error := rc\<rparr>)"

text \<open>Registration of the built-in provider. A NULL provider structure is written to by its set-up: \<open>None\<close>.\<close>

definition init_provider ::
    "life_env \<Rightarrow> 'a life_state_scheme \<Rightarrow> (int \<times> 'a life_state_scheme) option" where
  "init_provider env st =
     (if sqlcipher_get_provider st = None then
        (case sc_alloc (le_malloc env) sizeof_provider st of
           (None, st) \<Rightarrow> None
         | (Some b, st) \<Rightarrow> sqlcipher_register_provider (le_prov_init env) (Some (buf_addr b)) st)
      else Some (SQLITE_OK, st))"

definition init_shield_mask :: "life_env \<Rightarrow> 'a life_state_scheme \<Rightarrow> bool \<times> int \<times> 'a life_state_scheme" where
  "init_shield_mask env st =
     (if lf_shield st \<noteq> None then (True, SQLITE_OK, st)
      else
        (case sqlcipher_internal_malloc (le_malloc env) SHIELD_MASK_SZ st of
           (None, st) \<Rightarrow> (False, SQLITE_OK, st)
         | (Some a, st) \<Rightarrow>
             let (rc, bytes) = le_mask env;
                 st = st\<lparr>lf_shield := Some \<lparr>buf_addr = a, buf_data = bytes\<rparr>\<rparr>
             in (rc = SQLITE_OK, rc, st)))"

definition sqlcipher_extra_init :: "life_env \<Rightarrow> 'a life_state_scheme \<Rightarrow> (int \<times> 'a life_state_scheme) option" where
  "sqlcipher_extra_init env st =
     (if lf_init st then Some (SQLITE_OK, st)
      else
        let st = init_logging (st\<lparr>lf_cleanup := True\<rparr>);
            (ok, ms) = init_mutexes (le_mutex env) 0 (lf_mutex st);
            st = st\<lparr>lf_mutex := ms\<rparr>
        in if \<not> ok then Some (init_error_exit SQLITE_NOMEM st)
           else
             let st = (if private_heap st = [] then private_heap_init (le_malloc env) st else st)
             in if private_heap st = [] then Some (init_error_exit SQLITE_NOMEM st)
                else case init_provider env st of
                  None \<Rightarrow> None
                | Some (rc, st) \<Rightarrow>
                    if rc \<noteq> SQLITE_OK then Some (init_error_exit rc st)
                    else if le_ctx_init env \<noteq> SQLITE_OK then Some (init_error_exit (le_ctx_init env) st)
                    else
                      let (rc, seed) = le_seed env;
                          st = st\<lparr>xoshiro_s := seed\<rparr>
                      in if rc \<noteq> SQLITE_OK then Some (init_error_exit rc st)
                         else
                           let (ok, rc, st) = init_shield_mask env st
                           in if \<not> ok then Some (init_error_exit rc st)
                              else Some (SQLITE_OK, st\<lparr>lf_init := True, lf_shutdown := False, lf_export := True\<rparr>))"

subsection \<open>Shut-down\<close>

text \<open>The loop that releases the provider list follows the \<open>next\<close> pointers.\<close>

partial_function (option) free_providers ::
    "(nat \<Rightarrow> bool) \<Rightarrow> nat option \<Rightarrow> 'a life_state_scheme \<Rightarrow> 'a life_state_scheme option" where
  "free_providers has_shutdown provider st =
     (if provider = None then Some st
      else let next_provider = lf_next st (the provider);
               st = (if has_shutdown (the provider) then st\<lparr>lf_shutdown_calls := lf_shutdown_calls st @ [the provider]\<rparr> else st)
           in free_providers has_shutdown next_provider (sqlcipher_free (the provider) (size_arg sizeof_provider) st))"

definition sqlcipher_extra_shutdown :: "(nat \<Rightarrow> bool) \<Rightarrow> 'a life_state_scheme \<Rightarrow> 'a life_state_scheme option" where
  "sqlcipher_extra_shutdown has_shutdown st =
     map_option (\<lambda>st. st\<lparr>lf_init := False, lf_init_error := SQLITE_ERROR, lf_shutdown := True\<rparr>)
       (if \<not> lf_init st \<or> lf_shutdown st then Some st
        else
          (case free_providers has_shutdown (lf_default st) (free_shield_mask st) of
             None \<Rightarrow> None
           | Some st \<Rightarrow> Some (free_mutexes (free_private_heap (st\<lparr>lf_default := None\<rparr>)))))"

section \<open>Lemmas\<close>

subsection \<open>The provider list\<close>

text \<open>The pointers reachable from a provider, in order.\<close>

fun prov_list :: "(nat \<Rightarrow> nat option) \<Rightarrow> nat option \<Rightarrow> nat list \<Rightarrow> bool" where
  "prov_list nxt h [] \<longleftrightarrow> h = None"
| "prov_list nxt h (x # xs) \<longleftrightarrow> h = Some x \<and> prov_list nxt (nxt x) xs"

text \<open>Registration on the level of lists: the provider moves to the front.\<close>

definition promote :: "nat \<Rightarrow> nat list \<Rightarrow> nat list" where
  "promote p xs = p # remove1 p xs"

lemma prov_list_upd: "p \<notin> set xs \<Longrightarrow> prov_list (nxt(p := v)) h xs = prov_list nxt h xs"
  by (induction xs arbitrary: h) auto

lemma register_search_absent:
  "prov_list nxt cur xs \<Longrightarrow> p \<notin> set xs \<Longrightarrow> register_search nxt p prev cur = Some (False, nxt)"
  by (induction xs arbitrary: prev cur) (subst register_search.simps; simp)+

lemma register_search_present:
  assumes "prov_list nxt cur xs" "p \<in> set xs" "distinct (prev # xs)" "nxt prev = cur"
  shows "\<exists>nxt'. register_search nxt p prev cur = Some (True, nxt') \<and> prov_list nxt' (nxt' prev) (remove1 p xs)
    \<and> (\<forall>x. x \<notin> insert prev (set xs) \<longrightarrow> nxt' x = nxt x)"
  using assms
proof (induction xs arbitrary: prev cur)
  case (Cons x xs)
  show ?case
  proof (cases "x = p")
    case True
    then have "register_search nxt p prev cur = Some (True, nxt(prev := nxt p))"
      using Cons.prems by (subst register_search.simps) simp
    moreover have "prov_list (nxt(prev := nxt p)) (nxt p) xs" using Cons.prems True by (auto simp: prov_list_upd)
    ultimately show ?thesis using True by auto
  next
    case False
    then obtain nxt' where n: "register_search nxt p x (nxt x) = Some (True, nxt')"
      "prov_list nxt' (nxt' x) (remove1 p xs)" "\<forall>y. y \<notin> insert x (set xs) \<longrightarrow> nxt' y = nxt y"
      using Cons.IH [of "nxt x" x] Cons.prems by auto
    have "register_search nxt p prev cur = Some (True, nxt')"
      using Cons.prems False n(1) by (subst register_search.simps) simp
    moreover have "nxt' prev = Some x" using n(3) Cons.prems by auto
    ultimately show ?thesis using False n by auto
  qed
qed simp

text \<open>Registration in one step, for every well-formed list.\<close>

definition provider_rc :: "(nat \<Rightarrow> int option) \<Rightarrow> nat \<Rightarrow> nat list \<Rightarrow> int" where
  "provider_rc p_init q xs = (if q \<in> set xs then SQLITE_OK else case p_init q of None \<Rightarrow> SQLITE_OK | Some rc \<Rightarrow> rc)"

lemma register_provider_step:
  assumes "prov_list (lf_next st) (lf_default st) xs" "distinct xs"
  shows "\<exists>nxt def. sqlcipher_register_provider p_init (Some q) st
      = Some (provider_rc p_init q xs, st\<lparr>lf_next := nxt, lf_default := def\<rparr>)
    \<and> prov_list nxt def (if provider_rc p_init q xs = SQLITE_OK then promote q xs else xs)"
proof (cases xs)
  case Nil
  let ?rc = "provider_rc p_init q xs"
  have "sqlcipher_register_provider p_init (Some q) st
      = Some (?rc, st\<lparr>lf_next := (lf_next st)(q := None), lf_default := (if ?rc = 0 then Some q else lf_default st)\<rparr>)"
    using assms Nil by (simp add: sqlcipher_register_provider_def provider_rc_def Let_def)
  moreover have "prov_list ((lf_next st)(q := None)) (if ?rc = 0 then Some q else lf_default st)
      (if ?rc = 0 then promote q xs else xs)"
    using assms Nil by (simp add: promote_def)
  ultimately show ?thesis by blast
next
  case (Cons d ys)
  have d: "lf_default st = Some d" "prov_list (lf_next st) (lf_next st d) ys" "distinct (d # ys)"
    using assms Cons by auto
  consider "q = d" | "q \<noteq> d" "q \<in> set ys" | "q \<noteq> d" "q \<notin> set ys" by blast
  then show ?thesis
  proof cases
    case 1
    then have rc: "provider_rc p_init q xs = 0" "promote q xs = xs" using Cons by (auto simp: provider_rc_def promote_def)
    have "sqlcipher_register_provider p_init (Some q) st
        = Some (provider_rc p_init q xs, st\<lparr>lf_next := lf_next st, lf_default := lf_default st\<rparr>)"
      using d 1 rc by (simp add: sqlcipher_register_provider_def)
    moreover have "prov_list (lf_next st) (lf_default st) (if provider_rc p_init q xs = 0 then promote q xs else xs)"
      using assms(1) rc by simp
    ultimately show ?thesis by blast
  next
    case 2
    obtain nxt' where n: "register_search (lf_next st) q d (lf_next st d) = Some (True, nxt')"
      "prov_list nxt' (nxt' d) (remove1 q ys)"
      using register_search_present [OF d(2) 2(2) d(3) refl] by blast
    have "sqlcipher_register_provider p_init (Some q) st = Some (0, st\<lparr>lf_next := nxt'(q := Some d), lf_default := Some q\<rparr>)"
      using 2 d n by (simp add: sqlcipher_register_provider_def Let_def)
    moreover have "prov_list (nxt'(q := Some d)) (Some q) (promote q xs)"
      using 2 d n Cons by (auto simp: promote_def prov_list_upd)
    ultimately show ?thesis using 2 Cons by (auto simp: provider_rc_def)
  next
    case 3
    have "register_search (lf_next st) q d (lf_next st d) = Some (False, lf_next st)"
      using register_search_absent [OF d(2) 3(2)] .
    then have r: "sqlcipher_register_provider p_init (Some q) st = Some (provider_rc p_init q xs,
        st\<lparr>lf_next := (lf_next st)(q := Some d),
           lf_default := (if provider_rc p_init q xs = 0 then Some q else lf_default st)\<rparr>)"
      using 3 d Cons by (auto simp: sqlcipher_register_provider_def provider_rc_def Let_def split: option.splits)
    moreover have "prov_list ((lf_next st)(q := Some d)) (Some q) (promote q xs)"
      using 3 d Cons by (auto simp: promote_def prov_list_upd remove1_idem)
    moreover have "prov_list ((lf_next st)(q := Some d)) (lf_default st) xs"
      using 3 d Cons by (simp add: prov_list_upd)
    ultimately have "prov_list ((lf_next st)(q := Some d)) (if provider_rc p_init q xs = 0 then Some q else lf_default st)
        (if provider_rc p_init q xs = 0 then promote q xs else xs)" by simp
    then show ?thesis using r by blast
  qed
qed

lemma distinct_promote: "distinct xs \<Longrightarrow> distinct (promote q xs)"
  by (auto simp: promote_def)

subsection \<open>Allocation and release do not touch the other globals\<close>

lemma internal_free_more: "heap_state.more (sqlcipher_internal_free p n st) = heap_state.more st"
  by (simp add: sqlcipher_internal_free_def split: prod.splits)

lemma free_more: "heap_state.more (sqlcipher_free p n st) = heap_state.more st"
  by (simp add: sqlcipher_free_def internal_free_more Let_def split: prod.splits option.splits)

lemma internal_malloc_more: "heap_state.more (snd (sqlcipher_internal_malloc xm n st)) = heap_state.more st"
  by (simp add: sqlcipher_internal_malloc_def split: option.splits)

lemma heap_init_more: "heap_state.more (private_heap_init xm st) = heap_state.more st"
proof (induction xm st rule: private_heap_init.induct)
  case (1 xm st)
  obtain r st' where r: "sqlcipher_internal_malloc xm (private_heap_sz st) st = (r, st')" by (metis prod.exhaust)
  then have "heap_state.more st' = heap_state.more st"
    using internal_malloc_more [of xm "private_heap_sz st" st] by simp
  then show ?case using 1 [OF _ r [symmetric]]
    by (subst private_heap_init.simps) (simp add: r split: option.splits prod.splits)
qed

lemma free_private_heap_more: "heap_state.more (free_private_heap st) = heap_state.more st"
  by (simp add: free_private_heap_def internal_free_more split: option.splits)

lemma life_fields_more:
  fixes st st' :: "'a life_state_scheme"
  assumes "heap_state.more st' = heap_state.more st"
  shows "lf_init st' = lf_init st" "lf_init_error st' = lf_init_error st" "lf_shutdown st' = lf_shutdown st"
    "lf_mutex st' = lf_mutex st" "lf_default st' = lf_default st" "lf_next st' = lf_next st" "lf_shield st' = lf_shield st"
  using assms by (cases st; cases st'; simp)+

lemmas life_fields_heap [simp] =
  life_fields_more [OF internal_free_more] life_fields_more [OF free_more] life_fields_more [OF internal_malloc_more]
  life_fields_more [OF heap_init_more] life_fields_more [OF free_private_heap_more]

lemma free_private_heap_empty [simp]: "private_heap (free_private_heap st) = []"
  by (simp add: free_private_heap_def private_heap_ptr_def split: option.splits list.splits)

lemma free_shield_mask_fields [simp]:
  "lf_shield (free_shield_mask st) = None" "private_heap (free_shield_mask st) = private_heap st"
  "private_heap_sz (free_shield_mask st) = private_heap_sz st"
  "lf_init (free_shield_mask st) = lf_init st" "lf_shutdown (free_shield_mask st) = lf_shutdown st"
  "lf_mutex (free_shield_mask st) = lf_mutex st" "lf_default (free_shield_mask st) = lf_default st"
  "lf_next (free_shield_mask st) = lf_next st"
  by (simp_all add: free_shield_mask_def split: option.splits)
    (simp add: sqlcipher_internal_free_def split: prod.splits)

lemma init_logging_fields [simp]:
  "lf_init (init_logging st) = lf_init st" "lf_shutdown (init_logging st) = lf_shutdown st"
  "lf_mutex (init_logging st) = lf_mutex st" "lf_default (init_logging st) = lf_default st"
  "lf_next (init_logging st) = lf_next st" "lf_shield (init_logging st) = lf_shield st"
  "private_heap (init_logging st) = private_heap st" "private_heap_sz (init_logging st) = private_heap_sz st"
  "sys_live (init_logging st) = sys_live st"
  by (simp_all add: init_logging_def)

lemma init_mutexes_props:
  "length (snd (init_mutexes ok i ms)) = length ms"
  "fst (init_mutexes ok i ms) \<Longrightarrow> list_all (\<lambda>m. m) (snd (init_mutexes ok i ms))"
  by (induction ms arbitrary: i) (auto simp: Let_def case_prod_beta split: if_splits)

lemma heap_scan_alloc_nonempty: "heap_scan_alloc n bs = Some (p, bs') \<Longrightarrow> bs' \<noteq> []"
  by (cases bs) (auto split: if_splits)

lemma heap_scan_free_nonempty: "heap_scan_free q prev bs = Some (m, bs') \<Longrightarrow> bs' \<noteq> []"
  by (induction q prev bs arbitrary: m bs' rule: heap_scan_free.induct)
    (auto simp: Let_def split: if_splits option.splits list.splits)

lemma heap_stays:
  "private_heap st \<noteq> [] \<Longrightarrow> private_heap (snd (sqlcipher_malloc xm n st)) \<noteq> []"
  "private_heap st \<noteq> [] \<Longrightarrow> private_heap (sqlcipher_free p n st) \<noteq> []"
  by (cases "n = 0"; auto simp: sqlcipher_malloc_heap dest: heap_scan_alloc_nonempty split: option.splits)
    (auto simp: sqlcipher_free_heap dest: heap_scan_free_nonempty split: option.splits)

subsection \<open>The invariant of the life cycle\<close>

definition chain_ok :: "'a life_state_scheme \<Rightarrow> bool" where
  "chain_ok st \<longleftrightarrow> (\<exists>xs. distinct xs \<and> prov_list (lf_next st) (lf_default st) xs)"

definition life_inv :: "'a life_state_scheme \<Rightarrow> bool" where
  "life_inv st \<longleftrightarrow> chain_ok st \<and> length (lf_mutex st) = SQLCIPHER_MUTEX_COUNT
     \<and> (lf_init st \<longrightarrow> private_heap st \<noteq> [] \<and> lf_shield st \<noteq> None \<and> lf_default st \<noteq> None
          \<and> list_all (\<lambda>m. m) (lf_mutex st) \<and> \<not> lf_shutdown st)"

lemma register_inv:
  assumes "sqlcipher_register_provider p_init q st = Some (rc, st')" "chain_ok st"
  shows "chain_ok st' \<and> (\<exists>nxt def. st' = st\<lparr>lf_next := nxt, lf_default := def\<rparr>)
    \<and> (rc = SQLITE_OK \<longrightarrow> q \<noteq> None \<longrightarrow> lf_default st' = q) \<and> (lf_default st \<noteq> None \<longrightarrow> lf_default st' \<noteq> None)"
proof (cases q)
  case None
  then have "st' = st" using assms(1) by (simp add: sqlcipher_register_provider_def)
  moreover have "\<exists>nxt def. st = st\<lparr>lf_next := nxt, lf_default := def\<rparr>"
    by (rule exI [of _ "lf_next st"], rule exI [of _ "lf_default st"]) simp
  ultimately show ?thesis using None assms by auto
next
  case (Some p)
  obtain xs where xs: "distinct xs" "prov_list (lf_next st) (lf_default st) xs" using assms(2) by (auto simp: chain_ok_def)
  obtain nxt def where n: "sqlcipher_register_provider p_init (Some p) st
      = Some (provider_rc p_init p xs, st\<lparr>lf_next := nxt, lf_default := def\<rparr>)"
    "prov_list nxt def (if provider_rc p_init p xs = SQLITE_OK then promote p xs else xs)"
    using register_provider_step [OF xs(2,1), of p_init p] by blast
  have st': "st' = st\<lparr>lf_next := nxt, lf_default := def\<rparr>" "rc = provider_rc p_init p xs"
    using assms(1) Some n(1) by auto
  moreover have "chain_ok st'"
    unfolding chain_ok_def st' using n(2) xs(1) distinct_promote [of xs p] by (auto split: if_splits)
  moreover have "rc = 0 \<longrightarrow> def = q" "lf_default st \<noteq> None \<longrightarrow> def \<noteq> None"
    using n(2) xs st'(2) Some by (auto simp: promote_def split: if_splits) (cases xs; auto)
  ultimately show ?thesis by auto
qed

lemma sc_alloc_heap: "private_heap st \<noteq> [] \<Longrightarrow> private_heap (snd (sc_alloc xm n st)) \<noteq> []"
  using heap_stays(1) [of st xm "size_arg n"]
  by (auto simp: sc_alloc_def split: prod.splits option.splits)

lemma init_provider_inv:
  assumes "init_provider env st = Some (rc, st')" "chain_ok st" "private_heap st \<noteq> []"
  shows "chain_ok st' \<and> private_heap st' \<noteq> [] \<and> lf_mutex st' = lf_mutex st \<and> lf_init st' = lf_init st
    \<and> lf_shield st' = lf_shield st \<and> (rc = SQLITE_OK \<longrightarrow> lf_default st' \<noteq> None)"
proof (cases "lf_default st")
  case None
  obtain b st1 where b: "sc_alloc (le_malloc env) sizeof_provider st = (Some b, st1)"
    "sqlcipher_register_provider (le_prov_init env) (Some (buf_addr b)) st1 = Some (rc, st')"
    using assms(1) None
    by (auto simp: init_provider_def sqlcipher_get_provider_def split: prod.splits option.splits)
  have m: "heap_state.more st1 = heap_state.more st" using sc_alloc_more b(1) by blast
  have "chain_ok st1" using assms(2) by (simp add: chain_ok_def life_fields_more [OF m])
  moreover have "private_heap st1 \<noteq> []" using sc_alloc_heap [OF assms(3), of "le_malloc env" sizeof_provider] b(1) by simp
  ultimately show ?thesis using register_inv [OF b(2)] life_fields_more [OF m] by auto
next
  case (Some d)
  then show ?thesis using assms by (auto simp: init_provider_def sqlcipher_get_provider_def)
qed

lemma init_error_exit_inv:
  assumes "chain_ok st" "length (lf_mutex st) = 8" "\<not> lf_init st"
  shows "life_inv (snd (init_error_exit rc st)) \<and> \<not> lf_init (snd (init_error_exit rc st))"
  using assms by (simp add: init_error_exit_def life_inv_def chain_ok_def free_mutexes_def)

lemma init_shield_mask_inv:
  assumes "init_shield_mask env st = (ok, rc, st')"
  shows "lf_next st' = lf_next st \<and> lf_default st' = lf_default st \<and> lf_mutex st' = lf_mutex st \<and> lf_init st' = lf_init st
    \<and> private_heap st' = private_heap st \<and> (ok \<longrightarrow> lf_shield st' \<noteq> None \<and> rc = SQLITE_OK)"
  using assms
  by (auto simp: init_shield_mask_def sqlcipher_internal_malloc_def Let_def split: if_splits option.splits prod.splits)

text \<open>What an attempt to initialise goes through: the state before the built-in provider is registered, and
  what follows its registration.\<close>

definition init_start :: "life_env \<Rightarrow> 'a life_state_scheme \<Rightarrow> bool \<times> 'a life_state_scheme" where
  "init_start env st =
     (let st = init_logging (st\<lparr>lf_cleanup := True\<rparr>);
          (ok, ms) = init_mutexes (le_mutex env) 0 (lf_mutex st);
          st = st\<lparr>lf_mutex := ms\<rparr>
      in if \<not> ok then (False, st)
         else
           let st = (if private_heap st = [] then private_heap_init (le_malloc env) st else st)
           in (private_heap st \<noteq> [], st))"

definition init_finish :: "life_env \<Rightarrow> 'a life_state_scheme \<Rightarrow> int \<times> 'a life_state_scheme" where
  "init_finish env st =
     (if le_ctx_init env \<noteq> SQLITE_OK then init_error_exit (le_ctx_init env) st
      else
        let (rc, seed) = le_seed env;
            st = st\<lparr>xoshiro_s := seed\<rparr>
        in if rc \<noteq> SQLITE_OK then init_error_exit rc st
           else
             let (ok, rc, st) = init_shield_mask env st
             in if \<not> ok then init_error_exit rc st
                else (SQLITE_OK, st\<lparr>lf_init := True, lf_shutdown := False, lf_export := True\<rparr>))"

lemma extra_init_stages:
  "sqlcipher_extra_init env st =
     (if lf_init st then Some (SQLITE_OK, st)
      else case init_start env st of
        (False, st1) \<Rightarrow> Some (init_error_exit SQLITE_NOMEM st1)
      | (True, st1) \<Rightarrow>
          (case init_provider env st1 of
             None \<Rightarrow> None
           | Some (rc, st2) \<Rightarrow> Some (if rc \<noteq> SQLITE_OK then init_error_exit rc st2 else init_finish env st2)))"
  unfolding sqlcipher_extra_init_def init_start_def init_finish_def Let_def
  by (simp split: prod.splits option.splits)

lemma init_start_inv:
  assumes "init_start env st = (ok, st1)" "life_inv st" "\<not> lf_init st"
  shows "chain_ok st1 \<and> length (lf_mutex st1) = 8 \<and> \<not> lf_init st1 \<and> lf_shield st1 = lf_shield st
    \<and> lf_default st1 = lf_default st \<and> (ok \<longrightarrow> private_heap st1 \<noteq> [] \<and> list_all (\<lambda>m. m) (lf_mutex st1))"
  using assms init_mutexes_props [of "le_mutex env" 0 "lf_mutex st"]
  by (auto simp: init_start_def Let_def life_inv_def chain_ok_def split: if_splits prod.splits)

lemma init_finish_inv:
  assumes "chain_ok st" "length (lf_mutex st) = 8" "\<not> lf_init st" "private_heap st \<noteq> []" "lf_default st \<noteq> None"
    and "list_all (\<lambda>m. m) (lf_mutex st)"
  shows "life_inv (snd (init_finish env st))"
proof -
  obtain ok rc st1 where m: "init_shield_mask env (st\<lparr>xoshiro_s := snd (le_seed env)\<rparr>) = (ok, rc, st1)" by (metis prod.exhaust)
  note s = init_shield_mask_inv [OF m]
  have "chain_ok st1" using s assms(1) by (simp add: chain_ok_def)
  then have "\<not> ok \<Longrightarrow> life_inv (snd (init_error_exit rc st1))"
    "ok \<Longrightarrow> life_inv (st1\<lparr>lf_init := True, lf_shutdown := False, lf_export := True\<rparr>)"
    using s assms init_error_exit_inv [of st1 rc] by (auto simp: life_inv_def chain_ok_def)
  moreover have "life_inv (snd (init_error_exit (le_ctx_init env) st))" using init_error_exit_inv assms by blast
  moreover have "life_inv (snd (init_error_exit (fst (le_seed env)) (st\<lparr>xoshiro_s := snd (le_seed env)\<rparr>)))"
    using init_error_exit_inv [of "st\<lparr>xoshiro_s := snd (le_seed env)\<rparr>"] assms by (simp add: chain_ok_def)
  ultimately show ?thesis using m by (auto simp: init_finish_def Let_def split: prod.splits)
qed

lemma extra_init_inv:
  assumes "life_inv st" "sqlcipher_extra_init env st = Some (rc, st')"
  shows "life_inv st'"
proof (cases "lf_init st")
  case True
  then show ?thesis using assms by (simp add: extra_init_stages)
next
  case False
  obtain ok st1 where s: "init_start env st = (ok, st1)" by (metis prod.exhaust)
  note i = init_start_inv [OF s assms(1) False]
  show ?thesis
  proof (cases ok)
    case False
    then show ?thesis using assms(2) s i init_error_exit_inv [of st1 7] \<open>\<not> lf_init st\<close>
      by (simp add: extra_init_stages)
  next
    case True
    then obtain rc2 st2 where p: "init_provider env st1 = Some (rc2, st2)"
      "(rc, st') = (if rc2 \<noteq> 0 then init_error_exit rc2 st2 else init_finish env st2)"
      using assms(2) s \<open>\<not> lf_init st\<close> by (auto simp: extra_init_stages split: option.splits)
    have st': "st' = snd (if rc2 \<noteq> 0 then init_error_exit rc2 st2 else init_finish env st2)" using p(2) by (metis snd_conv)
    show ?thesis
      using init_provider_inv [OF p(1)] i True init_error_exit_inv [of st2 rc2] init_finish_inv [of st2 env]
      unfolding st' by auto
  qed
qed

text \<open>A release keeps the place of the heap, and the blocks in use other than the one released.\<close>

lemma heap_release_hd: "b_addr (hd (heap_release xs b ys)) = b_addr (hd (xs @ [b]))"
  by (cases xs rule: rev_cases) (auto simp: heap_release_def merge_left_def merge_right_def Let_def hd_append split: list.split)

lemma heap_release_places:
  assumes "b_addr b + 16 \<noteq> q" "\<forall>c \<in> set (xs @ b # ys). b_addr c + 16 = q \<longrightarrow> is_used c"
  shows "(\<exists>c \<in> set (heap_release xs b ys). b_addr c + 16 = q) = (\<exists>c \<in> set (xs @ b # ys). b_addr c + 16 = q)"
    "\<forall>c \<in> set (heap_release xs b ys). b_addr c + 16 = q \<longrightarrow> is_used c"
  using assms by (cases xs rule: rev_cases; cases ys; auto simp: heap_release_def merge_left_def merge_right_def Let_def)+

text \<open>Providers outside the heap; a provider in the heap whose block is in use is not one of them, and stays where it is when another is freed.\<close>

definition outside :: "private_block list \<Rightarrow> nat \<Rightarrow> bool" where
  "outside bs q \<longleftrightarrow> (\<forall>c \<in> set bs. b_addr c + sizeof_private_block \<noteq> q)"

definition not_freed :: "private_block list \<Rightarrow> nat \<Rightarrow> bool" where
  "not_freed bs q \<longleftrightarrow> (\<forall>c \<in> set bs. b_addr c + sizeof_private_block = q \<longrightarrow> is_used c)"

lemma free_places:
  assumes "not_freed (private_heap st) q" "q \<noteq> p"
  shows "outside (private_heap (sqlcipher_free p n st)) q = outside (private_heap st) q" "not_freed (private_heap (sqlcipher_free p n st)) q"
proof -
  have "outside (private_heap (sqlcipher_free p n st)) q = outside (private_heap st) q \<and> not_freed (private_heap (sqlcipher_free p n st)) q"
  proof (cases "heap_scan_free p None (private_heap st)")
    case None
    then show ?thesis using assms(1) by (simp add: sqlcipher_free_heap)
  next
    case (Some x)
    then obtain sz bs' where x: "heap_scan_free p None (private_heap st) = Some (sz, bs')" by (cases x) simp
    obtain xs b ys where h: "private_heap st = xs @ b # ys" "p = b_addr b + 16" "bs' = heap_release xs b ys" by (rule heap_scan_free_Some [OF x])
    have "private_heap (sqlcipher_free p n st) = bs'" using x by (simp add: sqlcipher_free_heap)
    moreover have "b_addr b + 16 \<noteq> q" using assms(2) h(2) by simp
    ultimately show ?thesis using heap_release_places [OF _ assms(1) [unfolded h(1) not_freed_def]] h(1,3) unfolding outside_def not_freed_def by metis
  qed
  then show "outside (private_heap (sqlcipher_free p n st)) q = outside (private_heap st) q" "not_freed (private_heap (sqlcipher_free p n st)) q" by blast+
qed

lemma internal_free_live: "sys_live (sqlcipher_internal_free p n st) = remove1 p (sys_live st)" "private_heap (sqlcipher_internal_free p n st) = private_heap st"
  "private_heap_sz (sqlcipher_internal_free p n st) = private_heap_sz st"
  by (simp_all add: sqlcipher_internal_free_def split: prod.split)

lemma free_effect:
  "sys_live (sqlcipher_free p n st) = (if outside (private_heap st) p then remove1 p (sys_live st) else sys_live st)"
  "private_heap_ptr (sqlcipher_free p n st) = private_heap_ptr st"
proof -
  have "sys_live (sqlcipher_free p n st) = (if outside (private_heap st) p then remove1 p (sys_live st) else sys_live st)
    \<and> private_heap_ptr (sqlcipher_free p n st) = private_heap_ptr st"
  proof (cases "heap_scan_free p None (private_heap st)")
    case None
    then have "outside (private_heap st) p" by (simp add: heap_scan_free_None_iff outside_def)
    then show ?thesis using None by (simp add: sqlcipher_free_def internal_free_live private_heap_ptr_def)
  next
    case (Some x)
    then obtain sz bs' where x: "heap_scan_free p None (private_heap st) = Some (sz, bs')" by (cases x) simp
    obtain xs b ys where h: "private_heap st = xs @ b # ys" "p = b_addr b + 16" "bs' = heap_release xs b ys" by (rule heap_scan_free_Some [OF x])
    have out: "\<not> outside (private_heap st) p" using h by (simp add: outside_def)
    have "bs' \<noteq> []" using heap_scan_free_nonempty [OF x] .
    moreover have "b_addr (hd bs') = b_addr (hd (private_heap st))" "private_heap st \<noteq> []"
      using heap_release_hd [of xs b ys] h by (simp_all add: hd_append)
    ultimately have "(case bs' of [] \<Rightarrow> None | b # _ \<Rightarrow> Some (b_addr b)) = (case private_heap st of [] \<Rightarrow> None | b # _ \<Rightarrow> Some (b_addr b))"
      by (cases bs'; cases "private_heap st") simp_all
    then show ?thesis using x out by (auto simp: sqlcipher_free_def private_heap_ptr_def Let_def split: prod.split)
  qed
  then show "sys_live (sqlcipher_free p n st) = (if outside (private_heap st) p then remove1 p (sys_live st) else sys_live st)"
    "private_heap_ptr (sqlcipher_free p n st) = private_heap_ptr st" by blast+
qed

lemma shutdown_calls_more:
  fixes st st' :: "'a life_state_scheme"
  shows "heap_state.more st' = heap_state.more st \<Longrightarrow> lf_shutdown_calls st' = lf_shutdown_calls st"
  by (cases st; cases st'; simp)

lemma outside_frees:
  assumes "distinct (x # xs)" "\<forall>q \<in> set (x # xs). not_freed (private_heap st) q"
  shows "filter (outside (private_heap (sqlcipher_free x n st))) xs = filter (outside (private_heap st)) xs"
    "\<forall>q \<in> set xs. not_freed (private_heap (sqlcipher_free x n st)) q"
  using assms free_places [of st _ x n] by (auto intro!: filter_cong)

lemma free_providers_step: "free_providers hs (Some x) st = free_providers hs (lf_next st x)
    (sqlcipher_free x (size_arg sizeof_provider) (if hs x then st\<lparr>lf_shutdown_calls := lf_shutdown_calls st @ [x]\<rparr> else st))"
  by (subst free_providers.simps) (simp add: Let_def)

text \<open>The loop over the providers: each is called and released once, in the order of the list.\<close>

lemma free_providers_effect:
  fixes st :: "'a life_state_scheme"
  assumes "prov_list (lf_next st) h xs" "distinct xs" "\<forall>q \<in> set xs. not_freed (private_heap st) q"
  shows "\<exists>st' cs. free_providers hs h st = Some st' \<and> heap_state.more st' = heap_state.more (st\<lparr>lf_shutdown_calls := cs\<rparr>)
    \<and> cs = lf_shutdown_calls st @ filter hs xs \<and> private_heap_ptr st' = private_heap_ptr st
    \<and> mset (sys_live st') = mset (sys_live st) - mset (filter (outside (private_heap st)) xs)"
  using assms
proof (induction xs arbitrary: h st)
  case Nil
  then show ?case by (subst free_providers.simps) simp
next
  case (Cons x xs)
  define s0 where "s0 = (if hs x then st\<lparr>lf_shutdown_calls := lf_shutdown_calls st @ [x]\<rparr> else st)"
  define s where "s = sqlcipher_free x (size_arg sizeof_provider) s0"
  have s0: "private_heap s0 = private_heap st" "sys_live s0 = sys_live st" "lf_next s0 = lf_next st" "private_heap_ptr s0 = private_heap_ptr st"
      "lf_shutdown_calls s0 = lf_shutdown_calls st @ filter hs [x]" by (simp_all add: s0_def private_heap_ptr_def)
  have sm: "heap_state.more s = heap_state.more s0" unfolding s_def by (rule free_more)
  note m = life_fields_more [OF sm] shutdown_calls_more [OF sm]
  have f: "prov_list (lf_next s) (lf_next st x) xs" using Cons.prems(1) m(6) s0(3) by simp
  have o: "filter (outside (private_heap s)) xs = filter (outside (private_heap st)) xs" "\<forall>q \<in> set xs. not_freed (private_heap s) q"
    using outside_frees [of x xs s0 "size_arg sizeof_provider"] Cons.prems(2,3) unfolding s_def s0(1) by auto
  obtain st' cs where st': "free_providers hs (lf_next st x) s = Some st'" "heap_state.more st' = heap_state.more (s\<lparr>lf_shutdown_calls := cs\<rparr>)"
      "cs = lf_shutdown_calls s @ filter hs xs" "private_heap_ptr st' = private_heap_ptr s"
      "mset (sys_live st') = mset (sys_live s) - mset (filter (outside (private_heap s)) xs)"
    using Cons.IH [OF f _ o(2)] Cons.prems(2) by auto
  have "free_providers hs h st = Some st'"
    using Cons.prems(1) st'(1) free_providers_step [of hs x st] unfolding s_def s0_def by simp
  moreover have "heap_state.more (s\<lparr>lf_shutdown_calls := cs\<rparr>) = heap_state.more (st\<lparr>lf_shutdown_calls := cs\<rparr>)"
    using sm by (cases s; cases st) (auto simp: s0_def)
  moreover have "mset (sys_live s) = mset (sys_live st) - mset (filter (outside (private_heap st)) [x])"
    using free_effect(1) [of x "size_arg sizeof_provider" s0] s0 by (simp add: s_def)
  then have "mset (sys_live st') = mset (sys_live st) - mset (filter (outside (private_heap st)) [x]) - mset (filter (outside (private_heap st)) xs)"
    unfolding st'(5) o(1) by simp
  then have "mset (sys_live st') = mset (sys_live st) - mset (filter (outside (private_heap st)) (x # xs))"
    by (cases "outside (private_heap st) x") simp_all
  moreover have "cs = lf_shutdown_calls st @ filter hs (x # xs)" "private_heap_ptr st' = private_heap_ptr st"
    using st'(3,4) m(8) s0 free_effect(2) [of x "size_arg sizeof_provider" s0] by (simp_all add: s_def)
  ultimately show ?case using trans [OF st'(2)] by (intro exI [of _ st'] exI [of _ cs] conjI)
qed

lemma free_providers_returns:
  "prov_list (lf_next st) h xs \<Longrightarrow>
    \<exists>st' cs. free_providers hs h st = Some st' \<and> heap_state.more st' = heap_state.more (st\<lparr>lf_shutdown_calls := cs\<rparr>)"
proof (induction xs arbitrary: h st)
  case Nil
  have "heap_state.more st = heap_state.more (st\<lparr>lf_shutdown_calls := lf_shutdown_calls st\<rparr>)" by simp
  moreover have "free_providers hs h st = Some st" using Nil by (subst free_providers.simps) simp
  ultimately show ?case by blast
next
  case (Cons x xs)
  define s0 where "s0 = (if hs x then st\<lparr>lf_shutdown_calls := lf_shutdown_calls st @ [x]\<rparr> else st)"
  define s where "s = sqlcipher_free x (size_arg sizeof_provider) s0"
  have sm: "heap_state.more s = heap_state.more s0" unfolding s_def by (rule free_more)
  have "lf_next s = lf_next st" using life_fields_more(6) [OF sm] by (simp add: s0_def)
  then obtain st' cs where st': "free_providers hs (lf_next st x) s = Some st'" "heap_state.more st' = heap_state.more (s\<lparr>lf_shutdown_calls := cs\<rparr>)"
    using Cons.IH [of s "lf_next st x"] Cons.prems by auto
  have "free_providers hs h st = Some st'"
    using Cons.prems st'(1) free_providers_step [of hs x st] unfolding s_def s0_def by simp
  moreover have "heap_state.more (s\<lparr>lf_shutdown_calls := cs\<rparr>) = heap_state.more (st\<lparr>lf_shutdown_calls := cs\<rparr>)"
    using sm by (cases s; cases st) (auto simp: s0_def)
  ultimately show ?case using st'(2) by auto
qed

lemma shutdown_effect:
  assumes "chain_ok st" "lf_init st" "\<not> lf_shutdown st"
  obtains st' where "sqlcipher_extra_shutdown hs st = Some st'" "private_heap st' = []" "lf_default st' = None"
    "lf_shield st' = None" "lf_mutex st' = map (\<lambda>_. False) (lf_mutex st)" "\<not> lf_init st'" "lf_shutdown st'"
    "lf_init_error st' = SQLITE_ERROR"
proof -
  obtain xs where "prov_list (lf_next st) (lf_default st) xs" using assms(1) by (auto simp: chain_ok_def)
  then have "prov_list (lf_next (free_shield_mask st)) (lf_default st) xs" by simp
  then obtain st1 cs where f: "free_providers hs (lf_default st) (free_shield_mask st) = Some st1"
    "heap_state.more st1 = heap_state.more ((free_shield_mask st)\<lparr>lf_shutdown_calls := cs\<rparr>)"
    using free_providers_returns by blast
  note m = life_fields_more [OF f(2)]
  have "sqlcipher_extra_shutdown hs st = Some ((free_mutexes (free_private_heap (st1\<lparr>lf_default := None\<rparr>)))
      \<lparr>lf_init := False, lf_init_error := SQLITE_ERROR, lf_shutdown := True\<rparr>)"
    using assms f(1) by (simp add: sqlcipher_extra_shutdown_def)
  then show ?thesis by (rule that) (simp_all add: m free_mutexes_def)
qed

text \<open>What a shut-down gives back to the platform: the mask, the providers outside the heap, the heap with all in it.\<close>

definition owned :: "'a life_state_scheme \<Rightarrow> nat list \<Rightarrow> nat multiset" where
  "owned st xs = mset (map buf_addr (case lf_shield st of None \<Rightarrow> [] | Some b \<Rightarrow> [b])) + mset (filter (outside (private_heap st)) xs)
     + mset (case private_heap_ptr st of None \<Rightarrow> [] | Some a \<Rightarrow> [a])"

lemma shutdown_gives_back:
  assumes "prov_list (lf_next st) (lf_default st) xs" "distinct xs" "\<forall>q \<in> set xs. not_freed (private_heap st) q"
    and "lf_init st" "\<not> lf_shutdown st" "sqlcipher_extra_shutdown hs st = Some st'"
  shows "mset (sys_live st') = mset (sys_live st) - owned st xs \<and> lf_shutdown_calls st' = lf_shutdown_calls st @ filter hs xs"
proof -
  let ?s = "free_shield_mask st"
  have s: "prov_list (lf_next ?s) (lf_default st) xs" "\<forall>q \<in> set xs. not_freed (private_heap ?s) q" using assms(1,3) by simp_all
  have live: "mset (sys_live ?s) = mset (sys_live st) - mset (map buf_addr (case lf_shield st of None \<Rightarrow> [] | Some b \<Rightarrow> [b]))"
    by (simp add: free_shield_mask_def internal_free_live split: option.split)
  have sc: "lf_shutdown_calls ?s = lf_shutdown_calls st" "private_heap_ptr ?s = private_heap_ptr st"
    using shutdown_calls_more [OF internal_free_more, of _ _ st] by (simp_all add: free_shield_mask_def private_heap_ptr_def internal_free_live split: option.split)
  obtain st1 cs where f: "free_providers hs (lf_default st) ?s = Some st1" "heap_state.more st1 = heap_state.more (?s\<lparr>lf_shutdown_calls := cs\<rparr>)"
      "cs = lf_shutdown_calls ?s @ filter hs xs" "private_heap_ptr st1 = private_heap_ptr ?s"
      "mset (sys_live st1) = mset (sys_live ?s) - mset (filter (outside (private_heap ?s)) xs)"
    using free_providers_effect [OF s(1) assms(2) s(2), of hs] by blast
  let ?s1 = "st1\<lparr>lf_default := None\<rparr>"
  have "st' = (free_mutexes (free_private_heap ?s1))\<lparr>lf_init := False, lf_init_error := SQLITE_ERROR, lf_shutdown := True\<rparr>"
    using assms(4-6) f(1) by (simp add: sqlcipher_extra_shutdown_def)
  moreover have "lf_shutdown_calls (free_private_heap ?s1) = cs"
    using shutdown_calls_more [OF free_private_heap_more, of ?s1] shutdown_calls_more [OF f(2)] by simp
  moreover have "mset (sys_live (free_private_heap ?s1)) = mset (sys_live st1) - mset (case private_heap_ptr st of None \<Rightarrow> [] | Some a \<Rightarrow> [a])"
    using f(4) sc(2) by (simp add: free_private_heap_def private_heap_ptr_def internal_free_live split: option.split list.split)
  ultimately show ?thesis using f(3,5) live sc(1) by (simp add: owned_def free_mutexes_def diff_diff_add)
qed

lemma prov_list_unique: "prov_list nxt h xs \<Longrightarrow> prov_list nxt h ys \<Longrightarrow> xs = ys"
  by (induction xs arbitrary: h ys) (case_tac ys; auto)+

lemma shutdown_inv:
  assumes "life_inv st" "sqlcipher_extra_shutdown hs st = Some st'"
  shows "life_inv st'"
proof (cases "lf_init st \<and> \<not> lf_shutdown st")
  case True
  then have "chain_ok st" "lf_init st" "\<not> lf_shutdown st" using assms(1) by (auto simp: life_inv_def)
  then show ?thesis
  proof (rule shutdown_effect)
    fix st2 assume "sqlcipher_extra_shutdown hs st = Some st2" "lf_default st2 = None"
      "lf_mutex st2 = map (\<lambda>_. False) (lf_mutex st)" "\<not> lf_init st2"
    then show ?thesis using assms by (auto simp: life_inv_def chain_ok_def intro: exI [of _ "[]"])
  qed
next
  case False
  then show ?thesis using assms by (auto simp: sqlcipher_extra_shutdown_def life_inv_def chain_ok_def)
qed

subsection \<open>Histories\<close>

text \<open>The memory of a provider structure is allocated: a used block of the private heap, or a block of the
  platform allocator. Dereferencing a provider that is not is undefined behaviour, so the histories below go
  no further from a state whose default provider dangles.\<close>

definition provider_allocated :: "'a heap_state_scheme \<Rightarrow> nat \<Rightarrow> bool" where
  "provider_allocated st q \<longleftrightarrow>
     q \<in> set (sys_live st) \<or> list_ex (\<lambda>b. is_used b \<and> q = b_addr b + sizeof_private_block) (private_heap st)"

definition no_dangling :: "'a life_state_scheme \<Rightarrow> bool" where
  "no_dangling st \<longleftrightarrow> (case lf_default st of None \<Rightarrow> True | Some d \<Rightarrow> provider_allocated st d)"

definition life_start :: "'a life_state_scheme \<Rightarrow> bool" where
  "life_start st \<longleftrightarrow> \<not> lf_init st \<and> private_heap st = [] \<and> lf_default st = None \<and> lf_shield st = None
     \<and> lf_mutex st = replicate SQLCIPHER_MUTEX_COUNT False"

inductive life_step :: "'a life_state_scheme \<Rightarrow> 'a life_state_scheme \<Rightarrow> bool" where
  life_init: "no_dangling st \<Longrightarrow> sqlcipher_extra_init env st = Some (rc, st') \<Longrightarrow> life_step st st'"
| life_register: "no_dangling st \<Longrightarrow> sqlcipher_register_provider p_init q st = Some (rc, st') \<Longrightarrow> life_step st st'"
| life_malloc: "life_step st (snd (sqlcipher_malloc xm n st))"
| life_free: "life_step st (sqlcipher_free p n st)"
| life_shutdown: "no_dangling st \<Longrightarrow> sqlcipher_extra_shutdown hs st = Some st' \<Longrightarrow> life_step st st'"

inductive_cases life_stepE: "life_step st st'"

lemma malloc_more: "heap_state.more (snd (sqlcipher_malloc xm n st)) = heap_state.more st"
  by (simp add: sqlcipher_malloc_def sqlcipher_internal_malloc_def Let_def split: option.splits prod.splits)

lemma life_inv_heap:
  fixes st st' :: "'a life_state_scheme"
  assumes "heap_state.more st' = heap_state.more st" "private_heap st \<noteq> [] \<Longrightarrow> private_heap st' \<noteq> []" "life_inv st"
  shows "life_inv st'"
  using assms(2,3) by (auto simp: life_inv_def chain_ok_def life_fields_more [OF assms(1)])

lemma register_life_inv:
  assumes "life_inv st" "sqlcipher_register_provider p_init q st = Some (rc, st')"
  shows "life_inv st'"
  using register_inv [OF assms(2)] assms(1) by (auto simp: life_inv_def)

lemma life_step_inv: "life_step st st' \<Longrightarrow> life_inv st \<Longrightarrow> life_inv st'"
proof (induction rule: life_step.induct)
  case (life_malloc st xm n)
  then show ?case using life_inv_heap [OF malloc_more heap_stays(1)] by blast
next
  case (life_free st p n)
  then show ?case using life_inv_heap [OF free_more heap_stays(2)] by blast
qed (blast intro: extra_init_inv register_life_inv shutdown_inv)+

lemma life_start_inv: "life_start st \<Longrightarrow> life_inv st"
  by (auto simp: life_inv_def life_start_def chain_ok_def intro: exI [of _ "[]"])

lemma life_reach_inv: "life_step\<^sup>*\<^sup>* st st' \<Longrightarrow> life_start st \<Longrightarrow> life_inv st'"
  by (induction rule: rtranclp_induct) (blast intro: life_step_inv life_start_inv)+

subsection \<open>Failing initialisations\<close>

lemma init_mutexes_all: "(\<And>i. ok i) \<Longrightarrow> init_mutexes ok i ms = (True, replicate (length ms) True)"
  by (induction ms arbitrary: i) auto

text \<open>The heap cannot be created any more once the size to ask for is below the step.\<close>

lemma heap_init_small: "private_heap_sz st < PRIVATE_HEAP_SIZE_STEP \<Longrightarrow> private_heap_init xm st = st"
  by (subst private_heap_init.simps) simp

lemma heap_init_fails:
  assumes "\<And>n. sqlite3_malloc xm n (sys_live st) = None" "private_heap st = []"
  shows "private_heap (private_heap_init xm st) = [] \<and> private_heap_sz (private_heap_init xm st) < PRIVATE_HEAP_SIZE_STEP"
  using assms
proof (induction xm st rule: private_heap_init.induct)
  case (1 xm st)
  have "sqlcipher_internal_malloc xm (private_heap_sz st) st = (None, st)"
    using 1(2) by (simp add: sqlcipher_internal_malloc_def)
  then show ?case using 1 by (subst (1 2) private_heap_init.simps) simp
qed

lemma init_error_exit_fields [simp]:
  "fst (init_error_exit rc st) = rc" "lf_init (snd (init_error_exit rc st)) = lf_init st"
  "lf_default (snd (init_error_exit rc st)) = lf_default st" "lf_init_error (snd (init_error_exit rc st)) = rc"
  "private_heap (snd (init_error_exit rc st)) = []"
  by (simp_all add: init_error_exit_def free_mutexes_def)

lemma free_private_heap_sz [simp]:
  "private_heap_sz (free_private_heap st) = private_heap_sz st"
  by (simp add: free_private_heap_def sqlcipher_internal_free_def split: option.splits prod.splits)

lemma init_error_exit_sz [simp]: "private_heap_sz (snd (init_error_exit rc st)) = private_heap_sz st"
  by (simp add: init_error_exit_def free_mutexes_def)

lemma init_small_heap:
  assumes "\<not> lf_init st" "private_heap st = []" "private_heap_sz st < PRIVATE_HEAP_SIZE_STEP"
  shows "\<exists>st'. sqlcipher_extra_init env st = Some (SQLITE_NOMEM, st') \<and> \<not> lf_init st' \<and> private_heap st' = []
    \<and> private_heap_sz st' < PRIVATE_HEAP_SIZE_STEP"
proof -
  obtain ok st1 where s: "init_start env st = (ok, st1)" by (metis prod.exhaust)
  then have "\<not> ok" "\<not> lf_init st1" "private_heap_sz st1 = private_heap_sz st"
    using assms heap_init_small by (auto simp: init_start_def Let_def heap_init_small split: prod.splits if_splits)
  then have "sqlcipher_extra_init env st = Some (SQLITE_NOMEM, snd (init_error_exit SQLITE_NOMEM st1))"
    using s assms(1) by (simp add: extra_init_stages) (metis init_error_exit_fields(1) prod.collapse)
  then show ?thesis using assms \<open>\<not> lf_init st1\<close> \<open>private_heap_sz st1 = private_heap_sz st\<close> by simp
qed

lemma init_start_heap:
  assumes "\<not> lf_init st" "private_heap st = []" "\<And>i. le_mutex env i"
    and "sqlite3_malloc (le_malloc env) (private_heap_sz st) (sys_live st) = Some a"
    and "PRIVATE_HEAP_SIZE_STEP \<le> private_heap_sz st" "private_heap_sz st < 2 ^ 31"
  shows "\<exists>st1. init_start env st = (True, st1) \<and> private_heap st1 = fresh_heap a (private_heap_sz st - 16)
    \<and> sys_live st1 = a # sys_live st \<and> lf_default st1 = lf_default st \<and> lf_shield st1 = lf_shield st \<and> \<not> lf_init st1"
  using assms init_mutexes_all [of "le_mutex env" 0 "lf_mutex st"]
  by (simp add: init_start_def Let_def private_heap_init.simps sqlcipher_internal_malloc_def fresh_heap_def split: prod.splits)

lemma init_provider_fresh:
  assumes "private_heap st = fresh_heap a n" "lf_default st = None" "208 \<le> n" "le_prov_init env (a + 16) \<in> {None, Some SQLITE_OK}"
  shows "\<exists>st2. init_provider env st = Some (SQLITE_OK, st2) \<and> lf_default st2 = Some (a + 16)
    \<and> b_addr (hd (private_heap st2)) = a \<and> private_heap st2 \<noteq> [] \<and> lf_next st2 (a + 16) = None
    \<and> not_freed (private_heap st2) (a + 16) \<and> \<not> outside (private_heap st2) (a + 16) \<and> sys_live st2 = sys_live st \<and> lf_shield st2 = lf_shield st \<and> lf_init st2 = lf_init st"
proof -
  have "heap_scan_alloc (heap_roundup 144) (private_heap st)
      = Some (a + 16, [\<lparr>b_addr = a, b_size = 144, is_used = True\<rparr>, \<lparr>b_addr = a + 144 + 16, b_size = n - 144 - 16, is_used = False\<rparr>])"
    using assms(1,3) by (simp add: heap_roundup_def fresh_heap_def)
  then show ?thesis using assms(2,4) unfolding not_freed_def outside_def
    by (auto simp: init_provider_def sqlcipher_get_provider_def sc_alloc_def sqlcipher_malloc_def size_arg_def
        sqlcipher_register_provider_def Let_def)
qed

lemma init_error_exit_live:
  assumes "private_heap st \<noteq> []" "lf_shield st = None" "b_addr (hd (private_heap st)) = a"
  shows "sys_live (snd (init_error_exit rc st)) = remove1 a (sys_live st)"
proof -
  have "private_heap_ptr st = Some a" using assms by (cases "private_heap st") (auto simp: private_heap_ptr_def)
  then show ?thesis using assms(2)
    by (simp add: init_error_exit_def free_mutexes_def free_shield_mask_def free_private_heap_def
        sqlcipher_internal_free_def split: prod.splits option.splits)
qed

lemma init_succeeds:
  assumes "\<not> lf_init st" "private_heap st = []" "lf_default st = None" "lf_shield st = None" "\<And>i. le_mutex env i"
    and "sqlite3_malloc (le_malloc env) (private_heap_sz st) (sys_live st) = Some a"
    and "PRIVATE_HEAP_SIZE_STEP \<le> private_heap_sz st" "private_heap_sz st < 2 ^ 31"
    and "le_prov_init env (a + 16) \<in> {None, Some SQLITE_OK}" "le_ctx_init env = SQLITE_OK" "fst (le_seed env) = SQLITE_OK"
    and "sqlite3_malloc (le_malloc env) SHIELD_MASK_SZ (a # sys_live st) \<noteq> None" "fst (le_mask env) = SQLITE_OK"
  shows "\<exists>st' m. sqlcipher_extra_init env st = Some (SQLITE_OK, st') \<and> lf_init st' \<and> \<not> lf_shutdown st' \<and> prov_list (lf_next st') (lf_default st') [a + 16]
    \<and> not_freed (private_heap st') (a + 16) \<and> \<not> outside (private_heap st') (a + 16) \<and> private_heap_ptr st' = Some a
    \<and> lf_shield st' = Some m \<and> sys_live st' = buf_addr m # a # sys_live st"
proof -
  obtain st1 where 1: "init_start env st = (True, st1)" "private_heap st1 = fresh_heap a (private_heap_sz st - 16)"
    "sys_live st1 = a # sys_live st" "lf_default st1 = lf_default st" "lf_shield st1 = lf_shield st" "\<not> lf_init st1"
    using init_start_heap [OF assms(1,2,5,6,7,8)] by blast
  have d: "lf_default st1 = None" using 1(4) assms(3) by simp
  have "208 \<le> private_heap_sz st - 16" using assms(7) by simp
  from init_provider_fresh [OF 1(2) d this assms(9)]
  obtain st2 where 2: "init_provider env st1 = Some (SQLITE_OK, st2)" "sys_live st2 = sys_live st1" "lf_shield st2 = lf_shield st1"
    "lf_default st2 = Some (a + 16)" "lf_next st2 (a + 16) = None" "b_addr (hd (private_heap st2)) = a" "private_heap st2 \<noteq> []"
    "not_freed (private_heap st2) (a + 16)" "\<not> outside (private_heap st2) (a + 16)" by blast
  obtain b where b: "sqlite3_malloc (le_malloc env) SHIELD_MASK_SZ (sys_live st2) = Some b"
    using assms(12) 1(3) 2(2) by auto
  have "\<exists>st3 m. init_shield_mask env (st2\<lparr>xoshiro_s := snd (le_seed env)\<rparr>) = (True, SQLITE_OK, st3) \<and> lf_shield st3 = Some m
      \<and> sys_live st3 = buf_addr m # sys_live st2 \<and> private_heap st3 = private_heap st2 \<and> lf_next st3 = lf_next st2 \<and> lf_default st3 = lf_default st2"
    using b assms(4,13) 2(3) 1(5)
    by (cases "le_mask env") (simp add: init_shield_mask_def sqlcipher_internal_malloc_def)
  then obtain st3 m where 3: "init_shield_mask env (st2\<lparr>xoshiro_s := snd (le_seed env)\<rparr>) = (True, SQLITE_OK, st3)" "lf_shield st3 = Some m"
      "sys_live st3 = buf_addr m # sys_live st2" "private_heap st3 = private_heap st2" "lf_next st3 = lf_next st2" "lf_default st3 = lf_default st2" by blast
  let ?st' = "st3\<lparr>lf_init := True, lf_shutdown := False, lf_export := True\<rparr>"
  have "init_finish env st2 = (SQLITE_OK, ?st')" using 3(1) assms(10,11) by (cases "le_seed env") (auto simp: init_finish_def)
  then have "sqlcipher_extra_init env st = Some (SQLITE_OK, ?st')" using assms(1) 1(1) 2(1) by (simp add: extra_init_stages)
  moreover have "private_heap_ptr ?st' = Some a" using 3(4) 2(6,7) by (cases "private_heap st2") (auto simp: private_heap_ptr_def)
  ultimately show ?thesis using 1(3) 2 3 by (intro exI [of _ ?st'] exI [of _ m]) simp
qed

lemma init_mask_nomem:
  assumes "\<not> lf_init st" "private_heap st = []" "lf_default st = None" "lf_shield st = None" "\<And>i. le_mutex env i"
    and "sqlite3_malloc (le_malloc env) (private_heap_sz st) (sys_live st) = Some a"
    and "PRIVATE_HEAP_SIZE_STEP \<le> private_heap_sz st" "private_heap_sz st < 2 ^ 31"
    and "le_prov_init env (a + 16) \<in> {None, Some SQLITE_OK}" "le_ctx_init env = SQLITE_OK" "fst (le_seed env) = SQLITE_OK"
    and "sqlite3_malloc (le_malloc env) SHIELD_MASK_SZ (a # sys_live st) = None"
  shows "\<exists>st'. sqlcipher_extra_init env st = Some (SQLITE_OK, st') \<and> \<not> lf_init st' \<and> lf_init_error st' = SQLITE_OK"
proof -
  obtain st1 where 1: "init_start env st = (True, st1)" "private_heap st1 = fresh_heap a (private_heap_sz st - 16)"
    "sys_live st1 = a # sys_live st" "lf_default st1 = lf_default st" "lf_shield st1 = lf_shield st" "\<not> lf_init st1"
    using init_start_heap [OF assms(1,2,5,6,7,8)] by blast
  have d: "lf_default st1 = None" using 1(4) assms(3) by simp
  have "208 \<le> private_heap_sz st - 16" using assms(7) by simp
  from init_provider_fresh [OF 1(2) d this assms(9)]
  obtain st2 where 2: "init_provider env st1 = Some (SQLITE_OK, st2)" "sys_live st2 = sys_live st1"
    "lf_shield st2 = lf_shield st1" "lf_init st2 = lf_init st1" by blast
  let ?s = "st2\<lparr>xoshiro_s := snd (le_seed env)\<rparr>"
  have "init_shield_mask env ?s = (False, SQLITE_OK, ?s)"
    using assms(4,12) 2 1(3,5) by (simp add: init_shield_mask_def sqlcipher_internal_malloc_def)
  then have "init_finish env st2 = init_error_exit SQLITE_OK ?s"
    using assms(10,11) by (cases "le_seed env") (auto simp: init_finish_def)
  then have "sqlcipher_extra_init env st = Some (init_error_exit SQLITE_OK ?s)"
    using assms(1) 1(1) 2(1) by (simp add: extra_init_stages)
  then show ?thesis using 1(6) 2(4) init_error_exit_fields [of 0 ?s]
    by (cases "init_error_exit SQLITE_OK ?s") auto
qed

definition sample_life :: life_state where
  "sample_life = heap_state.extend (sample_heap_state\<lparr>private_heap := [], private_heap_sz := 49152\<rparr>)
     \<lparr>lf_init = False, lf_init_error = 0, lf_shutdown = False, lf_cleanup = False, lf_log_set = False, lf_log_level = 0,
      lf_log_target = False, lf_mutex = replicate 8 False, lf_default = None, lf_next = (\<lambda>_. None), lf_shield = None,
      lf_export = False, lf_shutdown_calls = []\<rparr>"

definition sample_life_env :: life_env where
  "sample_life_env = \<lparr>le_malloc = (\<lambda>live n. Some (8 * n + 8192)), le_mutex = (\<lambda>_. True), le_prov_init = (\<lambda>_. None),
     le_ctx_init = 0, le_seed = (0, xoshiro_s sample_life), le_mask = (0, replicate 32 7)\<rparr>"

lemma sample_life_init: "\<exists>st m. sqlcipher_extra_init sample_life_env sample_life = Some (SQLITE_OK, st) \<and> lf_init st \<and> prov_list (lf_next st) (lf_default st) [401424]
    \<and> not_freed (private_heap st) 401424 \<and> \<not> outside (private_heap st) 401424 \<and> private_heap_ptr st = Some 401408
    \<and> lf_shield st = Some m \<and> sys_live st = buf_addr m # 401408 # []"
proof -
  have "sys_live sample_life = []" by (simp add: sample_life_def sample_heap_state_def heap_state.defs)
  then show ?thesis using init_succeeds [of sample_life sample_life_env 401408]
    by (auto simp: sample_life_def sample_life_env_def sample_heap_state_def sqlite3_malloc_def heap_state.defs)
qed

lemma sample_life_start: "life_start sample_life" "no_dangling sample_life"
  by (simp_all add: life_start_def no_dangling_def sample_life_def heap_state.defs)

lemma sample_life_reach: "\<exists>st. life_step\<^sup>*\<^sup>* sample_life st \<and> lf_init st"
  using sample_life_init life_init [OF sample_life_start(2)] by (meson r_into_rtranclp)

section \<open>Properties\<close>

text \<open>C32. Registering a provider, done by unlinking and relinking \<open>next\<close> pointers, moves it to the front of the list of
  registered providers (adding it when it was not there) when its initialiser succeeds, runs the initialiser only for a
  provider not registered before, and leaves the list as it was when the initialiser fails.\<close>

theorem register_refines_promote:
  assumes "prov_list (lf_next st) (lf_default st) xs" "distinct xs"
    and "rc = (if q \<in> set xs \<or> p_init q = None then SQLITE_OK else the (p_init q))"
  shows "\<exists>st'. sqlcipher_register_provider p_init (Some q) st = Some (rc, st')
    \<and> prov_list (lf_next st') (lf_default st') (if rc = SQLITE_OK then promote q xs else xs)
    \<and> distinct (promote q xs)"
proof -
  have "rc = provider_rc p_init q xs" using assms(3) by (auto simp: provider_rc_def)
  then show ?thesis using register_provider_step [OF assms(1,2), of p_init q] distinct_promote [OF assms(2)] by force
qed

theorem register_refines_promote_witness:
  "\<exists>st'. sqlcipher_register_provider (\<lambda>_. Some 1) (Some 30)
      (sample_life\<lparr>lf_default := Some 10, lf_next := [10 \<mapsto> 20, 20 \<mapsto> 30]\<rparr>) = Some (0, st')
    \<and> prov_list (lf_next st') (lf_default st') [30, 10, 20]"
  using register_refines_promote [of "sample_life\<lparr>lf_default := Some 10, lf_next := [10 \<mapsto> 20, 20 \<mapsto> 30]\<rparr>" "[10, 20, 30]" 0 30 "\<lambda>_. Some 1"]
  by (auto simp: promote_def)

text \<open>C30. In every history of initialisations, registrations, allocations, releases and shut-downs, with any answers of the
  platform and of the providers, a library that counts as initialised has its private heap, its shield mask, all its
  mutexes and a default provider, and the providers always form a finite list without repetition.\<close>

theorem life_reachable_ok:
  assumes "life_start st0" "life_step\<^sup>*\<^sup>* st0 st"
  shows "(lf_init st \<longrightarrow> private_heap st \<noteq> [] \<and> lf_shield st \<noteq> None \<and> lf_default st \<noteq> None
      \<and> lf_mutex st = replicate SQLCIPHER_MUTEX_COUNT True)
    \<and> (\<exists>xs. distinct xs \<and> prov_list (lf_next st) (lf_default st) xs)"
proof -
  have "life_inv st" using life_reach_inv assms by blast
  moreover have "list_all (\<lambda>m. m) ms \<Longrightarrow> ms = replicate (length ms) True" for ms by (induction ms) auto
  ultimately show ?thesis by (metis chain_ok_def life_inv_def)
qed

theorem life_reachable_ok_witness:
  "\<exists>st. life_step\<^sup>*\<^sup>* sample_life st \<and> lf_init st \<and> private_heap st \<noteq> [] \<and> lf_default st \<noteq> None"
proof -
  obtain st where "life_step\<^sup>*\<^sup>* sample_life st" "lf_init st" using sample_life_reach by blast
  then show ?thesis using life_reachable_ok [OF sample_life_start(1)] by blast
qed

text \<open>C31. From every reachable initialised state a shut-down returns, although its loop follows pointers, and gives back exactly what the library owns (\<open>owned\<close>): of the blocks that the
  platform has handed out, the mask, the providers outside the private heap and the heap with everything in it are released, each once, and no other. The \<open>shutdown\<close> function of every provider that has one
  is called once, in the order of the list. No heap, mask, provider or mutex is left in the globals, and the library is uninitialised. (No registered provider was freed before: a provider in the
  heap has a block in use.)\<close>

theorem shutdown_releases:
  assumes "life_start st0" "life_step\<^sup>*\<^sup>* st0 st" "lf_init st" "prov_list (lf_next st) (lf_default st) xs" "\<forall>q \<in> set xs. not_freed (private_heap st) q"
  shows "\<exists>st'. sqlcipher_extra_shutdown has_shutdown st = Some st' \<and> mset (sys_live st') = mset (sys_live st) - owned st xs
    \<and> lf_shutdown_calls st' = lf_shutdown_calls st @ filter has_shutdown xs \<and> private_heap st' = [] \<and> lf_shield st' = None
    \<and> lf_default st' = None \<and> lf_mutex st' = replicate SQLCIPHER_MUTEX_COUNT False \<and> \<not> lf_init st'
    \<and> lf_init_error st' = SQLITE_ERROR"
proof -
  have i: "chain_ok st" "\<not> lf_shutdown st" "length (lf_mutex st) = 8"
    using life_reach_inv [OF assms(2,1)] assms(3) by (auto simp: life_inv_def)
  have d: "distinct xs" using i(1) prov_list_unique [OF assms(4)] by (auto simp: chain_ok_def)
  have m: "map (\<lambda>_. False) (lf_mutex st) = replicate 8 False" using i(3) by (simp add: map_replicate_const)
  note g = shutdown_gives_back [OF assms(4) d assms(5,3) i(2)]
  show ?thesis by (rule shutdown_effect [OF i(1) assms(3) i(2), of has_shutdown]) (use m g in auto)
qed

theorem shutdown_releases_witness:
  "\<exists>st st'. life_step\<^sup>*\<^sup>* sample_life st \<and> lf_init st \<and> length (sys_live st) = 2 \<and> sqlcipher_extra_shutdown (\<lambda>_. True) st = Some st'
     \<and> sys_live st' = [] \<and> length (lf_shutdown_calls st') = length (lf_shutdown_calls st) + 1 \<and> private_heap st' = []"
proof -
  obtain st m where s: "sqlcipher_extra_init sample_life_env sample_life = Some (SQLITE_OK, st)" "lf_init st" "prov_list (lf_next st) (lf_default st) [401424]"
      "not_freed (private_heap st) 401424" "\<not> outside (private_heap st) 401424" "private_heap_ptr st = Some 401408"
      "lf_shield st = Some m" "sys_live st = buf_addr m # 401408 # []" using sample_life_init by blast
  have r: "life_step\<^sup>*\<^sup>* sample_life st" using life_init [OF sample_life_start(2) s(1)] by blast
  have "mset (sys_live st) - owned st [401424] = {#}" using s(5-8) by (simp add: owned_def)
  then show ?thesis using shutdown_releases [OF sample_life_start(1) r s(2,3), of "\<lambda>_. True"] s(2,4,8) r by fastforce
qed

text \<open>When the provider cannot create a context during the first initialisation, the code tears down the private heap
  and returns the provider's error code, but keeps the default provider, whose structure lay in that heap: the pointer
  dangles.\<close>

theorem init_failure_dangles:
  assumes "\<not> lf_init st" "private_heap st = []" "lf_default st = None" "lf_shield st = None" "\<And>i. le_mutex env i"
    and "sqlite3_malloc (le_malloc env) (private_heap_sz st) (sys_live st) = Some a"
    and "PRIVATE_HEAP_SIZE_STEP \<le> private_heap_sz st" "private_heap_sz st < 2 ^ 31"
    and "le_prov_init env (a + 16) = None" "le_ctx_init env = rc" "rc \<noteq> SQLITE_OK" "a + 16 \<notin> set (sys_live st)"
  shows "\<exists>st'. sqlcipher_extra_init env st = Some (rc, st') \<and> lf_default st' = Some (a + 16) \<and> \<not> no_dangling st'"
proof -
  obtain st1 where 1: "init_start env st = (True, st1)" "private_heap st1 = fresh_heap a (private_heap_sz st - 16)"
    "sys_live st1 = a # sys_live st" "lf_default st1 = lf_default st" "lf_shield st1 = lf_shield st" "\<not> lf_init st1"
    using init_start_heap [OF assms(1,2,5,6,7,8)] by blast
  have d: "lf_default st1 = None" "208 \<le> private_heap_sz st - 16" "le_prov_init env (a + 16) \<in> {None, Some SQLITE_OK}"
    using 1(4) assms(3,7,9) by simp_all
  from init_provider_fresh [OF 1(2) d]
  obtain st2 where 2: "init_provider env st1 = Some (SQLITE_OK, st2)" "lf_default st2 = Some (a + 16)"
    "b_addr (hd (private_heap st2)) = a" "private_heap st2 \<noteq> []" "sys_live st2 = sys_live st1" "lf_shield st2 = lf_shield st1"
    by blast
  have "sqlcipher_extra_init env st = Some (init_error_exit rc st2)"
    using assms(1,10,11) 1(1) 2(1) by (simp add: extra_init_stages init_finish_def)
  moreover have "sys_live (snd (init_error_exit rc st2)) = sys_live st"
    using init_error_exit_live [OF 2(4) _ 2(3)] 2(5,6) 1(3,5) assms(4) by simp
  ultimately show ?thesis using 2(2) assms(12)
    using init_error_exit_fields [of rc st2]
    by (cases "init_error_exit rc st2") (auto simp: no_dangling_def provider_allocated_def)
qed

theorem init_failure_dangles_witness:
  "\<exists>st'. sqlcipher_extra_init (sample_life_env\<lparr>le_ctx_init := 1\<rparr>) sample_life = Some (1, st')
    \<and> lf_default st' = Some 401424 \<and> \<not> no_dangling st'"
  using init_failure_dangles [of sample_life "sample_life_env\<lparr>le_ctx_init := 1\<rparr>" 401408 1]
  by (simp add: sample_life_def sample_life_env_def sample_heap_state_def sqlite3_malloc_def heap_state.defs)

text \<open>The size of the private heap that the creation loop asks for is reduced in a static variable: once no allocation
  has succeeded, every later initialisation fails with \<open>SQLITE_NOMEM\<close>, however much memory there is by then.\<close>

theorem init_nomem_permanent:
  assumes "\<not> lf_init st" "private_heap st = []" "\<And>i. le_mutex env i"
    and "\<And>n. sqlite3_malloc (le_malloc env) n (sys_live st) = None"
  shows "\<exists>st1. sqlcipher_extra_init env st = Some (SQLITE_NOMEM, st1)
    \<and> (\<forall>env'. \<exists>st2. sqlcipher_extra_init env' st1 = Some (SQLITE_NOMEM, st2) \<and> \<not> lf_init st2)"
proof -
  let ?st = "(init_logging (st\<lparr>lf_cleanup := True\<rparr>))\<lparr>lf_mutex := replicate (length (lf_mutex st)) True\<rparr>"
  let ?st1 = "snd (init_error_exit SQLITE_NOMEM (private_heap_init (le_malloc env) ?st))"
  have f: "private_heap (private_heap_init (le_malloc env) ?st) = []"
    "private_heap_sz (private_heap_init (le_malloc env) ?st) < PRIVATE_HEAP_SIZE_STEP"
    using heap_init_fails [of "le_malloc env" ?st] assms(2,4) by simp_all
  have "init_start env st = (False, private_heap_init (le_malloc env) ?st)"
    using f(1) assms(2) init_mutexes_all [of "le_mutex env" 0 "lf_mutex st"] assms(3)
    by (simp add: init_start_def Let_def)
  then have "sqlcipher_extra_init env st = Some (SQLITE_NOMEM, ?st1)"
    using assms(1) by (simp add: extra_init_stages init_error_exit_def)
  moreover have "\<not> lf_init ?st1" "private_heap ?st1 = []" "private_heap_sz ?st1 < PRIVATE_HEAP_SIZE_STEP"
    using assms(1) f(2) by simp_all
  ultimately show ?thesis using init_small_heap by blast
qed

theorem init_nomem_permanent_witness:
  "\<exists>st1. sqlcipher_extra_init (sample_life_env\<lparr>le_malloc := \<lambda>_ _. None\<rparr>) sample_life = Some (SQLITE_NOMEM, st1)
    \<and> (\<exists>st2. sqlcipher_extra_init sample_life_env st1 = Some (SQLITE_NOMEM, st2) \<and> \<not> lf_init st2)"
proof -
  have "\<exists>st1. sqlcipher_extra_init (sample_life_env\<lparr>le_malloc := \<lambda>_ _. None\<rparr>) sample_life = Some (SQLITE_NOMEM, st1)
    \<and> (\<forall>env'. \<exists>st2. sqlcipher_extra_init env' st1 = Some (SQLITE_NOMEM, st2) \<and> \<not> lf_init st2)"
    by (rule init_nomem_permanent)
      (simp_all add: sample_life_def sample_life_env_def sqlite3_malloc_def heap_state.defs Let_def)
  then show ?thesis by blast
qed

end
