(* ===== verification/Util_Hash.thy ===== *)
theory Util_Hash
  imports Util_Text "HOL-Library.Multiset"
begin

text \<open>
  The hash table of \<open>src/hash.c\<close>, which maps names to data without regard to the case of ASCII letters.

  The doubly linked list of all elements is the list \<open>h_elems\<close> in the order of the \<open>next\<close> pointers, each element with its
  address; a bucket is the pair of \<open>count\<close> and \<open>chain\<close>, the latter an address. A table without buckets has \<open>h_ht = None\<close>.
  NULL data is \<open>None\<close>. What \<open>sqlite3Malloc\<close> answers is a parameter: the size in bytes of the block granted for a bucket array,
  and the address of a new element. A key is the bytes before the NUL. The 32-bit counters are naturals: they would wrap around
  only with \<open>2 ^ 32\<close> elements of 40 bytes each.
\<close>

section \<open>Definitions\<close>

record 'd hash_elem =
  he_addr :: nat
  he_data :: 'd
  he_key :: "byte list"
  he_h :: u32

record 'd hash_table =
  h_size :: nat
  h_count :: nat
  h_elems :: "'d hash_elem list"
  h_ht :: "(nat \<times> nat) list option"

definition sqlite3HashInit :: "'d hash_table" where
  "sqlite3HashInit = \<lparr>h_size = 0, h_count = 0, h_elems = [], h_ht = None\<rparr>"

definition sqlite3HashClear :: "'d hash_table \<Rightarrow> 'd hash_table" where
  "sqlite3HashClear pH = pH\<lparr>h_elems := [], h_ht := None, h_size := 0, h_count := 0\<rparr>"

definition strHash :: "byte list \<Rightarrow> u32" where
  "strHash z = foldl (\<lambda>h c. (h + ucast (0xdf AND c)) * 0x9e3779b1) 0 z"

text \<open>A new element goes before the first of its bucket, or to the front of the list.\<close>

fun insert_before :: "nat \<Rightarrow> 'd hash_elem \<Rightarrow> 'd hash_elem list \<Rightarrow> 'd hash_elem list" where
  "insert_before pHead pNew [] = [pNew]"
| "insert_before pHead pNew (e # es) = (if he_addr e = pHead then pNew # e # es else e # insert_before pHead pNew es)"

definition insertElement :: "nat option \<Rightarrow> 'd hash_elem \<Rightarrow> 'd hash_table \<Rightarrow> 'd hash_table" where
  "insertElement pEntry pNew pH =
     (case (pEntry, h_ht pH) of
        (Some i, Some ht) \<Rightarrow>
          let (cnt, chain) = ht ! i
          in pH\<lparr>h_ht := Some (ht[i := (cnt + 1, he_addr pNew)]),
                h_elems := (if cnt \<noteq> 0 then insert_before chain pNew (h_elems pH) else pNew # h_elems pH)\<rparr>
      | _ \<Rightarrow> pH\<lparr>h_elems := pNew # h_elems pH\<rparr>)"

abbreviation (input) sizeof_ht :: nat where "sizeof_ht \<equiv> 16"
abbreviation (input) SQLITE_MALLOC_SOFT_LIMIT :: nat where "SQLITE_MALLOC_SOFT_LIMIT \<equiv> 1024"

definition rehash_insert :: "'d hash_table \<Rightarrow> 'd hash_elem \<Rightarrow> 'd hash_table" where
  "rehash_insert pH elem = insertElement (Some (unat (he_h elem) mod h_size pH)) elem pH"

definition rehash :: "(nat \<Rightarrow> nat option) \<Rightarrow> 'd hash_table \<Rightarrow> nat \<Rightarrow> 'd hash_table" where
  "rehash ht_malloc pH new_size =
     (let new_size = (if SQLITE_MALLOC_SOFT_LIMIT < new_size * sizeof_ht then SQLITE_MALLOC_SOFT_LIMIT div sizeof_ht else new_size)
      in if new_size = h_size pH then pH
         else case ht_malloc (new_size * sizeof_ht) of
           None \<Rightarrow> pH
         | Some bytes \<Rightarrow>
             let new_size = bytes div sizeof_ht;
                 elems = h_elems pH;
                 pH = pH\<lparr>h_ht := Some (replicate new_size (0, 0)), h_size := new_size, h_elems := []\<rparr>
             in foldl rehash_insert pH elems)"

fun hash_walk :: "'d hash_elem list \<Rightarrow> byte list \<Rightarrow> u32 \<Rightarrow> nat \<Rightarrow> 'd hash_elem option" where
  "hash_walk (e # es) pKey h (Suc cnt) =
     (if h = he_h e \<and> sqlite3StrICmp (he_key e) pKey = 0 then Some e else hash_walk es pKey h cnt)"
| "hash_walk _ pKey h _ = None"

definition findElementWithHash :: "'d hash_table \<Rightarrow> byte list \<Rightarrow> 'd hash_elem option" where
  "findElementWithHash pH pKey =
     (let h = strHash pKey
      in case h_ht pH of
           Some ht \<Rightarrow>
             let (cnt, chain) = ht ! (unat h mod h_size pH)
             in hash_walk (dropWhile (\<lambda>e. he_addr e \<noteq> chain) (h_elems pH)) pKey h cnt
         | None \<Rightarrow> hash_walk (h_elems pH) pKey h (h_count pH))"

text \<open>\<open>next_of\<close> is the \<open>next\<close> pointer; the address 0 is NULL.\<close>

definition next_of :: "nat \<Rightarrow> 'd hash_elem list \<Rightarrow> nat" where
  "next_of a es = (case dropWhile (\<lambda>e. he_addr e \<noteq> a) es of _ # e # _ \<Rightarrow> he_addr e | _ \<Rightarrow> 0)"

definition removeElement :: "'d hash_elem \<Rightarrow> 'd hash_table \<Rightarrow> 'd hash_table" where
  "removeElement elem pH =
     (let a = he_addr elem;
          ht = (case h_ht pH of
                  None \<Rightarrow> None
                | Some ht \<Rightarrow>
                    let i = unat (he_h elem) mod h_size pH; (cnt, chain) = ht ! i
                    in Some (ht[i := (cnt - 1, if chain = a then next_of a (h_elems pH) else chain)]));
          pH = pH\<lparr>h_elems := filter (\<lambda>e. he_addr e \<noteq> a) (h_elems pH), h_ht := ht, h_count := h_count pH - 1\<rparr>
      in if h_count pH = 0 then sqlite3HashClear pH else pH)"

definition sqlite3HashFind :: "'d hash_table \<Rightarrow> byte list \<Rightarrow> 'd option" where
  "sqlite3HashFind pH pKey = map_option he_data (findElementWithHash pH pKey)"

text \<open>The result is the returned data and the table. \<open>ht_malloc\<close> and \<open>elem_malloc\<close> are the answers of the allocator.\<close>

definition sqlite3HashInsert ::
    "(nat \<Rightarrow> nat option) \<Rightarrow> nat option \<Rightarrow> 'd hash_table \<Rightarrow> byte list \<Rightarrow> 'd option \<Rightarrow> 'd option \<times> 'd hash_table" where
  "sqlite3HashInsert ht_malloc elem_malloc pH pKey data =
     (case findElementWithHash pH pKey of
        Some elem \<Rightarrow>
          (Some (he_data elem),
           case data of
             None \<Rightarrow> removeElement elem pH
           | Some d \<Rightarrow>
               pH\<lparr>h_elems := map (\<lambda>e. if he_addr e = he_addr elem then e\<lparr>he_data := d, he_key := pKey\<rparr> else e) (h_elems pH)\<rparr>)
      | None \<Rightarrow>
          (case data of
             None \<Rightarrow> (None, pH)
           | Some d \<Rightarrow>
               (case elem_malloc of
                  None \<Rightarrow> (Some d, pH)
                | Some a \<Rightarrow>
                    let new_elem = \<lparr>he_addr = a, he_data = d, he_key = pKey, he_h = strHash pKey\<rparr>;
                        pH = pH\<lparr>h_count := h_count pH + 1\<rparr>;
                        pH = (if 5 \<le> h_count pH \<and> 2 * h_size pH < h_count pH then rehash ht_malloc pH (h_count pH * 3) else pH)
                    in (None, insertElement
                          (if h_ht pH \<noteq> None then Some (unat (he_h new_elem) mod h_size pH) else None) new_elem pH))))"

section \<open>Lemmas\<close>

subsection \<open>Keys up to case\<close>

definition fold_key :: "byte list \<Rightarrow> byte list" where
  "fold_key k = map sqlite3UpperToLower k"

lemma StrICmp_fold: "0 \<notin> set a \<Longrightarrow> 0 \<notin> set b \<Longrightarrow> sqlite3StrICmp a b = 0 \<longleftrightarrow> fold_key a = fold_key b"
  using sqlite3StrICmp_at_eq_0 [of a b 0] by (simp add: sqlite3StrICmp_def fold_key_def)

lemma upper_to_lower_df: "0xdf AND sqlite3UpperToLower c = 0xdf AND c"
proof (cases "0x41 \<le> c \<and> c \<le> 0x5a")
  case True
  then have "65 \<le> unat c \<and> unat c \<le> 90" by (simp add: word_le_nat_alt)
  then have "unat c \<in> set [65, 66, 67, 68, 69, 70, 71, 72, 73, 74, 75, 76, 77, 78, 79, 80, 81, 82, 83, 84, 85, 86, 87, 88, 89, 90]"
    by simp presburger
  moreover have "list_all (\<lambda>n. 0xdf AND (word_of_nat n + 0x20 :: byte) = 0xdf AND word_of_nat n)
      [65, 66, 67, 68, 69, 70, 71, 72, 73, 74, 75, 76, 77, 78, 79, 80, 81, 82, 83, 84, 85, 86, 87, 88, 89, 90]" by simp
  ultimately have "0xdf AND (word_of_nat (unat c) + 0x20 :: byte) = 0xdf AND word_of_nat (unat c)"
    unfolding list_all_iff by blast
  then show ?thesis using True by (simp add: sqlite3UpperToLower_def)
next
  case False
  then have "sqlite3UpperToLower c = c" unfolding sqlite3UpperToLower_def by presburger
  then show ?thesis by simp
qed

lemma strHash_fold: "fold_key a = fold_key b \<Longrightarrow> strHash a = strHash b"
proof -
  have "strHash (fold_key z) = strHash z" for z
    by (simp add: strHash_def fold_key_def foldl_map upper_to_lower_df)
  then show "fold_key a = fold_key b \<Longrightarrow> strHash a = strHash b" by metis
qed

subsection \<open>The invariant\<close>

text \<open>The elements of one bucket, in list order. They stand together in the list.\<close>

definition bucket :: "nat \<Rightarrow> nat \<Rightarrow> 'd hash_elem list \<Rightarrow> 'd hash_elem list" where
  "bucket n i es = filter (\<lambda>e. unat (he_h e) mod n = i) es"

definition together :: "nat \<Rightarrow> nat \<Rightarrow> 'd hash_elem list \<Rightarrow> bool" where
  "together n i es \<longleftrightarrow> (\<exists>xs ys. xs @ bucket n i es @ ys = es)"

definition buckets_ok :: "nat \<Rightarrow> (nat \<times> nat) list \<Rightarrow> 'd hash_elem list \<Rightarrow> bool" where
  "buckets_ok n ht es \<longleftrightarrow> 0 < n \<and> length ht = n
     \<and> (\<forall>i < n. together n i es \<and> fst (ht ! i) = length (bucket n i es)
          \<and> (bucket n i es \<noteq> [] \<longrightarrow> snd (ht ! i) = he_addr (hd (bucket n i es))))"

text \<open>\<open>spread n H\<close>: the table has \<open>n\<close> buckets which agree with its list.\<close>

definition spread :: "nat \<Rightarrow> 'd hash_table \<Rightarrow> bool" where
  "spread n H \<longleftrightarrow> h_size H = n \<and> (\<exists>ht. h_ht H = Some ht \<and> buckets_ok n ht (h_elems H))"

definition layout_ok :: "'d hash_table \<Rightarrow> bool" where
  "layout_ok H \<longleftrightarrow> (h_ht H = None \<and> h_size H = 0) \<or> spread (h_size H) H"

definition elems_ok :: "'d hash_elem list \<Rightarrow> bool" where
  "elems_ok es \<longleftrightarrow> distinct (map he_addr es) \<and> distinct (map (fold_key \<circ> he_key) es)
     \<and> (\<forall>e \<in> set es. 0 \<notin> set (he_key e) \<and> he_h e = strHash (he_key e) \<and> he_addr e \<noteq> 0)"

definition hash_ok :: "'d hash_table \<Rightarrow> bool" where
  "hash_ok H \<longleftrightarrow> elems_ok (h_elems H) \<and> h_count H = length (h_elems H) \<and> layout_ok H"

text \<open>What the table stands for.\<close>

definition elem_map :: "'d hash_elem list \<Rightarrow> byte list \<Rightarrow> 'd option" where
  "elem_map es = map_of (map (\<lambda>e. (fold_key (he_key e), he_data e)) es)"

definition hash_abs :: "'d hash_table \<Rightarrow> byte list \<Rightarrow> 'd option" where
  "hash_abs H = elem_map (h_elems H)"

subsection \<open>Insertion into the list\<close>

lemma bucket_simps [simp]:
  "bucket n i [] = []"
  "bucket n i (e # es) = (if unat (he_h e) mod n = i then e # bucket n i es else bucket n i es)"
  "bucket n i (xs @ ys) = bucket n i xs @ bucket n i ys"
  by (simp_all add: bucket_def)

lemma bucket_in: "e \<in> set (bucket n i es) \<longleftrightarrow> e \<in> set es \<and> unat (he_h e) mod n = i"
  by (auto simp: bucket_def)

lemma togetherI: "xs @ S @ ys = es \<Longrightarrow> bucket n i es = S \<Longrightarrow> together n i es"
  unfolding together_def by blast

lemma buckets_okD:
  assumes "buckets_ok n ht es" "i < n"
  shows "together n i es" "fst (ht ! i) = length (bucket n i es)"
    "bucket n i es \<noteq> [] \<Longrightarrow> snd (ht ! i) = he_addr (hd (bucket n i es))"
  using assms unfolding buckets_ok_def by blast+

lemma buckets_okI:
  assumes "0 < n" "length ht = n" "\<And>i. i < n \<Longrightarrow> together n i es"
    "\<And>i. i < n \<Longrightarrow> fst (ht ! i) = length (bucket n i es)"
    "\<And>i. i < n \<Longrightarrow> bucket n i es \<noteq> [] \<Longrightarrow> snd (ht ! i) = he_addr (hd (bucket n i es))"
  shows "buckets_ok n ht es"
  using assms unfolding buckets_ok_def by blast

text \<open>A bucket splits the list into what precedes it, the bucket, and what follows it.\<close>

lemma together_parts:
  assumes "together n i es"
  obtains xs ys where "es = xs @ bucket n i es @ ys" "bucket n i xs = []" "bucket n i ys = []"
proof -
  obtain xs ys where e: "xs @ bucket n i es @ ys = es" using assms by (auto simp: together_def)
  have idem: "bucket n i (bucket n i es) = bucket n i es" by (simp add: bucket_def)
  have "length (bucket n i xs) + length (bucket n i es) + length (bucket n i ys) = length (bucket n i es)"
    using arg_cong [OF e, of "\<lambda>l. length (bucket n i l)"] by (simp add: idem)
  then show ?thesis using that [OF e [symmetric]] by simp
qed

lemma split_around:
  assumes "us @ S @ vs = xs @ d # ys" "d \<notin> set S"
  shows "\<exists>us' vs'. us' @ S @ vs' = xs @ e # d # ys"
proof -
  from assms(1) consider ws where "us = xs @ ws" "d # ys = ws @ S @ vs" | ws where "xs = us @ ws" "S @ vs = ws @ d # ys"
    by (auto simp: append_eq_append_conv2)
  then show ?thesis
  proof cases
    case (1 ws)
    then have "(xs @ e # ws) @ S @ vs = xs @ e # d # ys" by simp
    then show ?thesis by blast
  next
    case (2 ws)
    from 2(2) consider ts where "S = ws @ ts" "d # ys = ts @ vs" | ts where "ws = S @ ts" "vs = ts @ d # ys"
      by (auto simp: append_eq_append_conv2)
    then show ?thesis
    proof cases
      case (1 ts)
      with assms(2) have "ts = []" by (cases ts) auto
      with 1 2 have "us @ S @ (e # d # ys) = xs @ e # d # ys" by simp
      then show ?thesis by blast
    next
      case (2 ts)
      with \<open>xs = us @ ws\<close> have "us @ S @ (ts @ e # d # ys) = xs @ e # d # ys" by simp
      then show ?thesis by blast
    qed
  qed
qed

lemma insert_before_split:
  "\<forall>x \<in> set xs. he_addr x \<noteq> he_addr d \<Longrightarrow> insert_before (he_addr d) e (xs @ d # ys) = xs @ e # d # ys"
  by (induction xs) auto

lemma mset_insert_before: "mset (insert_before a e es) = add_mset e (mset es)"
  by (induction es) auto

text \<open>Linking an element in keeps every bucket together, with its cnt and its first element.\<close>

definition linked :: "(nat \<times> nat) \<Rightarrow> 'd hash_elem \<Rightarrow> 'd hash_elem list \<Rightarrow> 'd hash_elem list" where
  "linked p e es = (if fst p \<noteq> 0 then insert_before (snd p) e es else e # es)"

lemma mset_linked: "mset (linked p e es) = add_mset e (mset es)"
  by (simp add: linked_def mset_insert_before)

lemma linked_shape:
  assumes ok: "buckets_ok n ht es" and d: "distinct (map he_addr es)" and i: "i = unat (he_h e) mod n"
  obtains xs ys where "es = xs @ ys" "linked (ht ! i) e es = xs @ e # ys"
    "bucket n i xs = []" "\<And>j. j < n \<Longrightarrow> j \<noteq> i \<Longrightarrow> together n j (xs @ e # ys)" "together n i (xs @ e # ys)"
proof (cases "bucket n i es")
  case Nil
  have n: "0 < n" "i < n" using ok i by (auto simp: buckets_ok_def)
  have "fst (ht ! i) = 0" using buckets_okD(2) [OF ok n(2)] Nil by simp
  then have l: "linked (ht ! i) e es = [] @ e # es" by (simp add: linked_def)
  have t: "together n j ([] @ e # es)" if jn: "j < n" "j \<noteq> i" for j
  proof -
    obtain xs ys where s: "xs @ bucket n j es @ ys = es"
      using buckets_okD(1) [OF ok jn(1)] unfolding together_def by blast
    have "bucket n j (e # es) = bucket n j es" using that i by simp
    then show ?thesis using togetherI [of "e # xs" "bucket n j es" ys] s by simp
  qed
  have "together n i ([] @ e # es)" using Nil i togetherI [of "[]" "[e]" es] by simp
  then show ?thesis using that [of "[]" es] l t by simp
next
  case (Cons d0 seg)
  have n: "0 < n" "i < n" using ok i by (auto simp: buckets_ok_def)
  have tg: "together n i es" using buckets_okD(1) [OF ok n(2)] .
  obtain xs ys where s: "es = xs @ bucket n i es @ ys" and b: "bucket n i xs = []" "bucket n i ys = []"
    using together_parts [OF tg] by blast
  have s': "es = xs @ d0 # seg @ ys" using s unfolding Cons by simp
  have h: "fst (ht ! i) \<noteq> 0" "snd (ht ! i) = he_addr d0" using buckets_okD(2,3) [OF ok n(2)] Cons by simp_all
  have "\<forall>x \<in> set xs. he_addr x \<noteq> he_addr d0" using d unfolding s' by (auto simp: image_iff)
  from insert_before_split [OF this, of e "seg @ ys"]
  have l: "linked (ht ! i) e es = xs @ e # d0 # seg @ ys" unfolding s' linked_def using h by simp
  have d0: "unat (he_h d0) mod n = i" using bucket_in [of d0 n i es] Cons by simp
  have t: "together n j (xs @ e # d0 # seg @ ys)" if jn: "j < n" "j \<noteq> i" for j
  proof -
    obtain us vs where u: "us @ bucket n j es @ vs = es"
      using buckets_okD(1) [OF ok jn(1)] unfolding together_def by blast
    have "d0 \<notin> set (bucket n j es)" using d0 that by (simp add: bucket_in)
    with u have "\<exists>us' vs'. us' @ bucket n j es @ vs' = xs @ e # d0 # seg @ ys" 
      using split_around [of us "bucket n j es" vs xs d0 "seg @ ys" e] s' by simp
    then obtain us' vs' where "us' @ bucket n j es @ vs' = xs @ e # d0 # seg @ ys" by blast
    moreover have "bucket n j (xs @ e # d0 # seg @ ys) = bucket n j es"
    proof -
      have "bucket n j (xs @ e # d0 # seg @ ys) = bucket n j (xs @ d0 # seg @ ys)" using that i by simp
      then show ?thesis using s' by simp
    qed
    ultimately show ?thesis by (rule togetherI)
  qed
  have sg: "bucket n i seg = seg"
  proof -
    have "bucket n i (bucket n i es) = bucket n i es" by (simp add: bucket_def)
    then show ?thesis unfolding Cons using d0 by simp
  qed
  have "together n i (xs @ e # d0 # seg @ ys)"
    by (rule togetherI [of xs "e # d0 # seg" ys]) (use b d0 i sg in simp_all)
  then show ?thesis using that [OF s' l b(1)] t by simp
qed

lemma linked_buckets_ok:
  assumes ok: "buckets_ok n ht es" and d: "distinct (map he_addr es)" and i: "i = unat (he_h e) mod n"
  shows "buckets_ok n (ht[i := (Suc (fst (ht ! i)), he_addr e)]) (linked (ht ! i) e es)"
proof -
  obtain xs ys where s: "es = xs @ ys" "linked (ht ! i) e es = xs @ e # ys" "bucket n i xs = []"
      "\<And>j. j < n \<Longrightarrow> j \<noteq> i \<Longrightarrow> together n j (xs @ e # ys)" "together n i (xs @ e # ys)"
    using linked_shape [OF ok d i] by blast
  have n: "0 < n" "length ht = n" "i < n" using ok i by (auto simp: buckets_ok_def)
  have bi: "bucket n i (xs @ e # ys) = e # bucket n i es" using s(1,3) i by simp
  have bj: "bucket n j (xs @ e # ys) = bucket n j es" if "j \<noteq> i" for j using s(1) i that by simp
  show ?thesis unfolding s(2)
  proof (rule buckets_okI)
    fix j assume j: "j < n"
    show "together n j (xs @ e # ys)" using s(4,5) j by blast
    show "fst (ht[i := (Suc (fst (ht ! i)), he_addr e)] ! j) = length (bucket n j (xs @ e # ys))"
      using buckets_okD(2) [OF ok j] n bi bj by (cases "j = i") simp_all
    show "snd (ht[i := (Suc (fst (ht ! i)), he_addr e)] ! j) = he_addr (hd (bucket n j (xs @ e # ys)))"
      if "bucket n j (xs @ e # ys) \<noteq> []"
      using buckets_okD(3) [OF ok j] n bi bj that by (cases "j = i") simp_all
  qed (use n in simp_all)
qed

subsection \<open>Rehashing\<close>

lemma insertElement_some:
  "h_ht H = Some ht \<Longrightarrow> insertElement (Some i) e H =
     H\<lparr>h_ht := Some (ht[i := (Suc (fst (ht ! i)), he_addr e)]), h_elems := linked (ht ! i) e (h_elems H)\<rparr>"
  by (simp add: insertElement_def linked_def split: prod.split)

lemma insertElement_spread:
  assumes "spread n H" "distinct (map he_addr (h_elems H))"
  shows "spread n (insertElement (Some (unat (he_h e) mod n)) e H)"
    "mset (h_elems (insertElement (Some (unat (he_h e) mod n)) e H)) = add_mset e (mset (h_elems H))"
    "h_count (insertElement (Some (unat (he_h e) mod n)) e H) = h_count H"
  using assms linked_buckets_ok [OF _ assms(2) refl]
  by (auto simp: spread_def insertElement_some mset_linked)

lemma distinct_mset_cong: "mset xs = mset ys \<Longrightarrow> distinct (map f xs) \<longleftrightarrow> distinct (map f ys)"
  by (metis mset_eq_imp_distinct_iff mset_map)

lemma foldl_rehash_spread:
  assumes "spread n H" "distinct (map he_addr (h_elems H @ es))"
  shows "spread n (foldl rehash_insert H es) \<and> h_count (foldl rehash_insert H es) = h_count H
    \<and> mset (h_elems (foldl rehash_insert H es)) = mset (h_elems H) + mset es"
  using assms
proof (induction es arbitrary: H)
  case (Cons e es)
  let ?H = "insertElement (Some (unat (he_h e) mod n)) e H"
  have d: "distinct (map he_addr (h_elems H))" using Cons.prems(2) by simp
  note i = insertElement_spread [OF Cons.prems(1) d, of e]
  have r: "rehash_insert H e = ?H" using Cons.prems(1) by (simp add: rehash_insert_def spread_def)
  have "mset (h_elems ?H @ es) = mset (h_elems H @ e # es)" using i(2) by simp
  then have "distinct (map he_addr (h_elems ?H @ es))" using Cons.prems(2) distinct_mset_cong by blast
  from Cons.IH [OF i(1) this] show ?case using i r by simp
qed simp

lemma spread_empty: "0 < n \<Longrightarrow> spread n (H\<lparr>h_ht := Some (replicate n (0, 0)), h_size := n, h_elems := []\<rparr>)"
  by (auto simp: spread_def intro!: buckets_okI togetherI [of "[]" "[]" "[]"])

text \<open>What \<open>sqlite3MallocSize\<close> promises of a granted block: it has at least the bytes that were asked for.\<close>

definition grants :: "(nat \<Rightarrow> nat option) \<Rightarrow> bool" where
  "grants ht_malloc \<longleftrightarrow> (\<forall>n b. ht_malloc n = Some b \<longrightarrow> n \<le> b)"

lemma rehash_layout:
  assumes "layout_ok H" "distinct (map he_addr (h_elems H))" "grants ht_malloc" "0 < n"
  shows "layout_ok (rehash ht_malloc H n)" "mset (h_elems (rehash ht_malloc H n)) = mset (h_elems H)"
    "h_count (rehash ht_malloc H n) = h_count H"
proof -
  define m where "m = (if 1024 < n * 16 then 64 else n)"
  have m: "0 < m" using assms(4) by (simp add: m_def)
  have r: "rehash ht_malloc H n = (if m = h_size H then H else case ht_malloc (m * 16) of None \<Rightarrow> H
      | Some b \<Rightarrow> foldl rehash_insert (H\<lparr>h_ht := Some (replicate (b div 16) (0, 0)), h_size := b div 16, h_elems := []\<rparr>) (h_elems H))"
    by (simp add: rehash_def m_def Let_def split: option.split)
  have *: "layout_ok (rehash ht_malloc H n) \<and> mset (h_elems (rehash ht_malloc H n)) = mset (h_elems H)
      \<and> h_count (rehash ht_malloc H n) = h_count H"
  proof (cases "m = h_size H \<or> ht_malloc (m * 16) = None")
    case True
    then show ?thesis using assms(1) by (auto simp: r)
  next
    case False
    then obtain b where b: "ht_malloc (m * 16) = Some b" by blast
    then have "m * 16 \<le> b" using assms(3) by (auto simp: grants_def)
    then have pos: "0 < b div 16" using m by (simp add: div_greater_zero_iff)
    have "distinct (map he_addr (h_elems (H\<lparr>h_ht := Some (replicate (b div 16) (0, 0)), h_size := b div 16, h_elems := []\<rparr>) @ h_elems H))"
      using assms(2) by simp
    from foldl_rehash_spread [OF spread_empty [OF pos] this] False b
    show ?thesis by (simp add: r layout_ok_def spread_def)
  qed
  show "layout_ok (rehash ht_malloc H n)" "mset (h_elems (rehash ht_malloc H n)) = mset (h_elems H)"
    "h_count (rehash ht_malloc H n) = h_count H" using * by blast+
qed

subsection \<open>Lookup\<close>

definition matches :: "byte list \<Rightarrow> 'd hash_elem \<Rightarrow> bool" where
  "matches k e \<longleftrightarrow> fold_key (he_key e) = fold_key k"

lemma hash_walk_find:
  "hash_walk (xs @ ys) k h (length xs) = find (\<lambda>e. h = he_h e \<and> sqlite3StrICmp (he_key e) k = 0) xs"
proof (induction xs)
  case Nil
  then show ?case by (cases ys) simp_all
qed simp

lemma hash_walk_0 [simp]: "hash_walk es k h 0 = None"
  by (cases es) simp_all

lemma find_bucket: "(\<And>e. e \<in> set es \<Longrightarrow> P e \<Longrightarrow> unat (he_h e) mod n = i) \<Longrightarrow> find P (bucket n i es) = find P es"
  by (induction es) auto

lemma find_cong_set: "(\<And>e. e \<in> set es \<Longrightarrow> P e = Q e) \<Longrightarrow> find P es = find Q es"
  by (induction es) auto

lemma elems_okD:
  assumes "elems_ok es" "e \<in> set es"
  shows "0 \<notin> set (he_key e)" "he_h e = strHash (he_key e)" "he_addr e \<noteq> 0"
  using assms by (auto simp: elems_ok_def)

lemma findElement_matches:
  assumes ok: "hash_ok H" and k: "0 \<notin> set k"
  shows "findElementWithHash H k = find (matches k) (h_elems H)"
proof -
  let ?P = "\<lambda>e. strHash k = he_h e \<and> sqlite3StrICmp (he_key e) k = 0"
  have el: "elems_ok (h_elems H)" using ok by (simp add: hash_ok_def)
  have P: "?P e = matches k e" if "e \<in> set (h_elems H)" for e
    using elems_okD [OF el that] k strHash_fold [of "he_key e" k] by (auto simp: matches_def StrICmp_fold)
  then have f: "find ?P (h_elems H) = find (matches k) (h_elems H)" by (rule find_cong_set)
  show ?thesis
  proof (cases "h_ht H")
    case None
    then show ?thesis using ok hash_walk_find [of "h_elems H" "[]" k "strHash k"] f
      by (simp add: findElementWithHash_def hash_ok_def)
  next
    case (Some ht)
    let ?n = "h_size H"
    let ?i = "unat (strHash k) mod ?n"
    let ?S = "bucket ?n ?i (h_elems H)"
    have b: "buckets_ok ?n ht (h_elems H)" using ok Some by (auto simp: hash_ok_def layout_ok_def spread_def)
    then have i: "?i < ?n" by (simp add: buckets_ok_def)
    have "find ?P ?S = find ?P (h_elems H)" by (rule find_bucket) simp
    moreover have "hash_walk (dropWhile (\<lambda>e. he_addr e \<noteq> snd (ht ! ?i)) (h_elems H)) k (strHash k) (fst (ht ! ?i)) = find ?P ?S"
    proof (cases ?S)
      case Nil
      then show ?thesis using buckets_okD(2) [OF b i] by simp
    next
      case (Cons d seg)
      obtain xs ys where s: "h_elems H = xs @ ?S @ ys" using together_parts [OF buckets_okD(1) [OF b i]] by blast
      have s': "h_elems H = xs @ d # seg @ ys" using s unfolding Cons by simp
      have "distinct (map he_addr (h_elems H))" using el by (simp add: elems_ok_def)
      then have "\<forall>x \<in> set xs. he_addr x \<noteq> he_addr d" unfolding s' by (auto simp: image_iff)
      then have "dropWhile (\<lambda>e. he_addr e \<noteq> he_addr d) (xs @ d # seg @ ys) = (d # seg) @ ys"
        by (simp add: dropWhile_append2)
      then have dw: "dropWhile (\<lambda>e. he_addr e \<noteq> he_addr d) (h_elems H) = (d # seg) @ ys" unfolding s' .
      have "fst (ht ! ?i) = length (d # seg)" "snd (ht ! ?i) = he_addr d"
        using buckets_okD(2,3) [OF b i] Cons by simp_all
      then show ?thesis using hash_walk_find [of "d # seg" ys] dw Cons by simp
    qed
    ultimately show ?thesis using Some f by (simp add: findElementWithHash_def Let_def case_prod_unfold)
  qed
qed

lemma elem_map_find: "elem_map es (fold_key k) = map_option he_data (find (matches k) es)"
  by (induction es) (auto simp: matches_def elem_map_def)

lemma elems_ok_mset: "mset xs = mset ys \<Longrightarrow> elems_ok xs = elems_ok ys"
  unfolding elems_ok_def
  using distinct_mset_cong [of xs ys he_addr] distinct_mset_cong [of xs ys "fold_key \<circ> he_key"] mset_eq_setD [of xs ys] by simp

lemma elem_map_mset:
  assumes "elems_ok xs" "mset xs = mset ys"
  shows "elem_map xs = elem_map ys"
proof -
  have "elems_ok ys" using assms elems_ok_mset by blast
  with assms show ?thesis unfolding elem_map_def
    by (subst map_of_inject_set) (auto simp: elems_ok_def comp_def dest: mset_eq_setD)
qed

text \<open>In a well-formed list the address tells the element with a given name.\<close>

lemma addr_iff_matches:
  assumes "elems_ok es" "elem \<in> set es" "matches k elem" "e \<in> set es"
  shows "he_addr e = he_addr elem \<longleftrightarrow> matches k e"
proof
  assume "he_addr e = he_addr elem"
  then have "e = elem" using assms(1,2,4) by (auto simp: elems_ok_def distinct_map dest: inj_onD)
  then show "matches k e" using assms(3) by simp
next
  assume "matches k e"
  then have "(fold_key \<circ> he_key) e = (fold_key \<circ> he_key) elem" using assms(3) by (simp add: matches_def)
  moreover have "inj_on (fold_key \<circ> he_key) (set es)" using assms(1) unfolding elems_ok_def distinct_map by blast
  ultimately have "e = elem" using assms(2,4) by (blast dest: inj_onD)
  then show "he_addr e = he_addr elem" by simp
qed

subsection \<open>Removal\<close>

lemma elem_map_filter: "elem_map (filter (\<lambda>e. \<not> matches k e) es) = (elem_map es)(fold_key k := None)"
  by (induction es) (auto simp: elem_map_def matches_def)

lemma bucket_filter: "bucket n i (filter P es) = filter P (bucket n i es)"
  by (simp add: bucket_def conj_commute)

lemma together_filter: "together n i es \<Longrightarrow> together n i (filter P es)"
proof -
  assume "together n i es"
  then obtain xs ys where "xs @ bucket n i es @ ys = es" by (auto simp: together_def)
  from arg_cong [OF this, of "filter P"]
  have "filter P xs @ bucket n i (filter P es) @ filter P ys = filter P es" by (simp add: bucket_filter)
  then show ?thesis by (rule togetherI) (rule refl)
qed

lemma filter_addr_id: "\<forall>x \<in> set xs. he_addr x \<noteq> a \<Longrightarrow> filter (\<lambda>e. he_addr e \<noteq> a) xs = xs"
  by (simp add: filter_id_conv)

lemma length_filter_addr:
  "distinct (map he_addr es) \<Longrightarrow> elem \<in> set es \<Longrightarrow> Suc (length (filter (\<lambda>e. he_addr e \<noteq> he_addr elem) es)) = length es"
proof (induction es)
  case (Cons x es)
  show ?case
  proof (cases "x = elem")
    case True
    then have "filter (\<lambda>e. he_addr e \<noteq> he_addr elem) es = es" using Cons.prems(1) by (intro filter_addr_id) (auto simp: image_iff)
    then show ?thesis using True by simp
  next
    case False
    then have "he_addr x \<noteq> he_addr elem" using Cons.prems by auto
    then show ?thesis using Cons False by simp
  qed
qed simp

lemma next_of_split:
  "\<forall>x \<in> set xs. he_addr x \<noteq> he_addr d \<Longrightarrow> next_of (he_addr d) (xs @ d # y # ys) = he_addr y"
  by (simp add: next_of_def dropWhile_append2)

lemma remove_buckets_ok:
  assumes ok: "buckets_ok n ht es" and d: "distinct (map he_addr es)" and e: "e \<in> set es" and i: "i = unat (he_h e) mod n"
  shows "buckets_ok n (ht[i := (fst (ht ! i) - 1, if snd (ht ! i) = he_addr e then next_of (he_addr e) es else snd (ht ! i))])
     (filter (\<lambda>x. he_addr x \<noteq> he_addr e) es)" (is "buckets_ok n ?ht (filter ?P es)")
proof (rule buckets_okI)
  have n: "0 < n" "length ht = n" "i < n" using ok i by (auto simp: buckets_ok_def)
  then show "0 < n" "length ?ht = n" by simp_all
  let ?B = "bucket n i es"
  have eB: "e \<in> set ?B" using e i by (simp add: bucket_in)
  have dB: "distinct (map he_addr ?B)" using d by (simp add: bucket_def distinct_map_filter)
  have other: "filter ?P (bucket n j es) = bucket n j es" if "j \<noteq> i" for j
  proof (rule filter_addr_id, rule ballI, rule notI)
    fix x assume x: "x \<in> set (bucket n j es)" "he_addr x = he_addr e"
    then have "x = e" using d e by (auto simp: bucket_in distinct_map dest: inj_onD)
    then show False using x(1) that i by (simp add: bucket_in)
  qed
  fix j assume j: "j < n"
  show "together n j (filter ?P es)" using buckets_okD(1) [OF ok j] by (rule together_filter)
  show "fst (?ht ! j) = length (bucket n j (filter ?P es))"
  proof (cases "j = i")
    case True
    then show ?thesis using length_filter_addr [OF dB eB] buckets_okD(2) [OF ok n(3)] n by (simp add: bucket_filter)
  next
    case False
    then show ?thesis using buckets_okD(2) [OF ok j] other by (simp add: bucket_filter)
  qed
  assume ne: "bucket n j (filter ?P es) \<noteq> []"
  show "snd (?ht ! j) = he_addr (hd (bucket n j (filter ?P es)))"
  proof (cases "j = i")
    case False
    then show ?thesis using buckets_okD(3) [OF ok j] other ne by (simp add: bucket_filter)
  next
    case True
    obtain c seg where B: "?B = c # seg" using eB by (cases ?B) auto
    obtain xs ys where "es = xs @ ?B @ ys" using together_parts [OF buckets_okD(1) [OF ok n(3)]] by blast
    then have s: "es = xs @ c # seg @ ys" unfolding B by simp
    have c: "snd (ht ! i) = he_addr c" using buckets_okD(3) [OF ok n(3)] B by simp
    show ?thesis
    proof (cases "he_addr c = he_addr e")
      case False
      then show ?thesis using True c n B by (simp add: bucket_filter)
    next
      case same: True
      have "filter ?P seg = seg" using dB same unfolding B by (intro filter_addr_id) (auto simp: image_iff)
      then have f: "bucket n i (filter ?P es) = seg" using B same by (simp add: bucket_filter)
      then obtain y seg' where y: "seg = y # seg'" using ne True by (cases seg) auto
      have "\<forall>x \<in> set xs. he_addr x \<noteq> he_addr c" using d unfolding s by (auto simp: image_iff)
      from next_of_split [OF this, of y "seg' @ ys"] have "next_of (he_addr e) es = he_addr y" using s y same by simp
      then show ?thesis using True c same n f y by simp
    qed
  qed
qed

lemma hash_clear_ok: "hash_ok (sqlite3HashClear H)" "hash_abs (sqlite3HashClear H) = Map.empty"
  by (simp_all add: hash_ok_def sqlite3HashClear_def elems_ok_def layout_ok_def hash_abs_def elem_map_def)

lemma elems_ok_filter: "elems_ok es \<Longrightarrow> elems_ok (filter P es)"
  by (auto simp: elems_ok_def distinct_map_filter)

lemma removeElement_ok:
  assumes ok: "hash_ok H" and e: "e \<in> set (h_elems H)" and m: "matches k e"
  shows "hash_ok (removeElement e H)" "hash_abs (removeElement e H) = (hash_abs H)(fold_key k := None)"
proof -
  let ?es = "filter (\<lambda>x. he_addr x \<noteq> he_addr e) (h_elems H)"
  have el: "elems_ok (h_elems H)" "h_count H = length (h_elems H)" "layout_ok H" using ok by (simp_all add: hash_ok_def)
  have d: "distinct (map he_addr (h_elems H))" using el(1) by (simp add: elems_ok_def)
  have len: "length ?es = h_count H - 1" using length_filter_addr [OF d e] el(2) by simp
  have "?es = filter (\<lambda>x. \<not> matches k x) (h_elems H)" using addr_iff_matches [OF el(1) e m] by (intro filter_cong) auto
  then have ab: "elem_map ?es = (elem_map (h_elems H))(fold_key k := None)" by (simp add: elem_map_filter)
  have "hash_ok (removeElement e H) \<and> hash_abs (removeElement e H) = elem_map ?es"
  proof (cases "h_count H - 1 = 0")
    case True
    then have "?es = []" using len by simp
    then show ?thesis using True by (simp add: removeElement_def hash_clear_ok Let_def elem_map_def)
  next
    case False
    then have r: "h_elems (removeElement e H) = ?es" "h_count (removeElement e H) = length ?es" "h_size (removeElement e H) = h_size H"
      using len by (simp_all add: removeElement_def Let_def)
    have "layout_ok (removeElement e H)"
    proof (cases "h_ht H")
      case None
      then show ?thesis using el(3) False by (simp add: removeElement_def Let_def layout_ok_def spread_def)
    next
      case (Some ht)
      then have b: "buckets_ok (h_size H) ht (h_elems H)" using el(3) by (simp add: layout_ok_def spread_def)
      let ?i = "unat (he_h e) mod h_size H"
      have "h_ht (removeElement e H) = Some (ht[?i := (fst (ht ! ?i) - 1,
          if snd (ht ! ?i) = he_addr e then next_of (he_addr e) (h_elems H) else snd (ht ! ?i))])"
        using False Some by (simp add: removeElement_def Let_def case_prod_unfold)
      then show ?thesis using remove_buckets_ok [OF b d e refl] unfolding layout_ok_def spread_def r(1,3) by blast
    qed
    then show ?thesis using r el(1) by (simp add: hash_ok_def elems_ok_filter hash_abs_def)
  qed
  then show "hash_ok (removeElement e H)" "hash_abs (removeElement e H) = (hash_abs H)(fold_key k := None)"
    using ab by (simp_all add: hash_abs_def)
qed

subsection \<open>Replacement\<close>

definition retag :: "byte list \<Rightarrow> 'd \<Rightarrow> 'd hash_elem \<Rightarrow> 'd hash_elem" where
  "retag k d e = (if matches k e then e\<lparr>he_data := d, he_key := k\<rparr> else e)"

lemma retag_simps [simp]:
  "he_addr (retag k d e) = he_addr e" "he_h (retag k d e) = he_h e"
  "fold_key (he_key (retag k d e)) = fold_key (he_key e)"
  by (simp_all add: retag_def matches_def)

lemma elem_map_retag:
  "elem_map (map (retag k d) es) = (\<lambda>c. if c = fold_key k then map_option (\<lambda>_. d) (elem_map es c) else elem_map es c)"
  by (induction es) (auto simp: elem_map_def retag_def matches_def fun_eq_iff)

lemma bucket_retag: "bucket n i (map (retag k d) es) = map (retag k d) (bucket n i es)"
  by (induction es) simp_all

lemma retag_buckets_ok:
  assumes ok: "buckets_ok n ht es"
  shows "buckets_ok n ht (map (retag k d) es)"
proof (rule buckets_okI)
  fix i assume i: "i < n"
  obtain xs ys where "xs @ bucket n i es @ ys = es" using buckets_okD(1) [OF ok i] unfolding together_def by blast
  from arg_cong [OF this, of "map (retag k d)"]
  have "map (retag k d) xs @ bucket n i (map (retag k d) es) @ map (retag k d) ys = map (retag k d) es"
    by (simp add: bucket_retag)
  then show "together n i (map (retag k d) es)" by (rule togetherI) (rule refl)
qed (use ok buckets_okD(2,3) [OF ok] in \<open>auto simp: buckets_ok_def bucket_retag hd_map\<close>)

lemma retag_ok:
  assumes "hash_ok H" "0 \<notin> set k"
  shows "hash_ok (H\<lparr>h_elems := map (retag k d) (h_elems H)\<rparr>)"
proof -
  have el: "elems_ok (h_elems H)" using assms(1) by (simp add: hash_ok_def)
  have "0 \<notin> set (he_key (retag k d e)) \<and> he_h (retag k d e) = strHash (he_key (retag k d e)) \<and> he_addr (retag k d e) \<noteq> 0"
    if "e \<in> set (h_elems H)" for e
    using elems_okD [OF el that] assms(2) strHash_fold [of "he_key e" k] by (simp add: retag_def matches_def)
  moreover have "map he_addr (map (retag k d) (h_elems H)) = map he_addr (h_elems H)"
      "map (fold_key \<circ> he_key) (map (retag k d) (h_elems H)) = map (fold_key \<circ> he_key) (h_elems H)" by simp_all
  ultimately have "elems_ok (map (retag k d) (h_elems H))" using el unfolding elems_ok_def by (metis (no_types, lifting) image_iff list.set_map)
  then show ?thesis using assms(1) by (auto simp: hash_ok_def layout_ok_def spread_def intro: retag_buckets_ok)
qed

subsection \<open>Insertion refines the update of a map\<close>

text \<open>What \<open>sqlite3HashInsert\<close> promises, on maps: the value returned and the new map. \<open>granted\<close> says whether memory was available.\<close>

definition map_put :: "bool \<Rightarrow> ('c \<Rightarrow> 'v option) \<Rightarrow> 'c \<Rightarrow> 'v option \<Rightarrow> 'v option \<times> ('c \<Rightarrow> 'v option)" where
  "map_put granted m c v =
     (case m c of
        Some old \<Rightarrow> (Some old, m(c := v))
      | None \<Rightarrow> if v \<noteq> None \<and> \<not> granted then (v, m) else (None, m(c := v)))"

definition fresh_elem :: "nat option \<Rightarrow> 'd hash_table \<Rightarrow> bool" where
  "fresh_elem elem_malloc H \<longleftrightarrow> (\<forall>a. elem_malloc = Some a \<longrightarrow> a \<noteq> 0 \<and> a \<notin> he_addr ` set (h_elems H))"

lemma insert_new_ok:
  assumes ok: "hash_ok H" and k: "0 \<notin> set k" and new: "hash_abs H (fold_key k) = None"
    and a: "a \<noteq> 0" "a \<notin> he_addr ` set (h_elems H)" and g: "grants ht_malloc"
    and find: "findElementWithHash H k = None"
  shows "\<exists>H'. sqlite3HashInsert ht_malloc (Some a) H k (Some d) = (None, H') \<and> hash_ok H'
    \<and> hash_abs H' = (hash_abs H)(fold_key k \<mapsto> d)"
proof -
  define e where "e = \<lparr>he_addr = a, he_data = d, he_key = k, he_h = strHash k\<rparr>"
  define H1 where "H1 = H\<lparr>h_count := h_count H + 1\<rparr>"
  define H2 where "H2 = (if 5 \<le> h_count H1 \<and> 2 * h_size H1 < h_count H1 then rehash ht_malloc H1 (h_count H1 * 3) else H1)"
  define H3 where "H3 = insertElement (if h_ht H2 \<noteq> None then Some (unat (he_h e) mod h_size H2) else None) e H2"
  have el: "elems_ok (h_elems H)" "h_count H = length (h_elems H)" "layout_ok H" using ok by (simp_all add: hash_ok_def)
  have d1: "distinct (map he_addr (h_elems H1))" "layout_ok H1" using el by (simp_all add: elems_ok_def H1_def layout_ok_def spread_def)
  have 2: "layout_ok H2" "mset (h_elems H2) = mset (h_elems H)" "h_count H2 = Suc (h_count H)"
    using rehash_layout [OF d1(2,1) g, of "h_count H1 * 3"] d1 by (auto simp: H2_def H1_def)
  have d2: "distinct (map he_addr (h_elems H2))" using el(1) distinct_mset_cong [OF 2(2), of he_addr] by (simp add: elems_ok_def)
  have 3: "layout_ok H3 \<and> mset (h_elems H3) = add_mset e (mset (h_elems H2)) \<and> h_count H3 = h_count H2"
  proof (cases "h_ht H2")
    case None
    then show ?thesis using 2(1) by (simp add: H3_def insertElement_def layout_ok_def spread_def)
  next
    case (Some ht)
    then have "spread (h_size H2) H2" using 2(1) by (simp add: layout_ok_def)
    from insertElement_spread [OF this d2, of e] Some show ?thesis by (simp add: H3_def layout_ok_def spread_def)
  qed
  then have ms: "mset (h_elems H3) = mset (e # h_elems H)" using 2(2) by simp
  have "fold_key k \<notin> (fold_key \<circ> he_key) ` set (h_elems H)"
    using new by (auto simp: hash_abs_def elem_map_def map_of_eq_None_iff image_iff)
  then have oke: "elems_ok (e # h_elems H)" using el(1) a k by (auto simp: elems_ok_def e_def image_iff)
  then have "elems_ok (h_elems H3)" using elems_ok_mset [OF ms] by simp
  moreover have "length (h_elems H3) = Suc (length (h_elems H))" using arg_cong [OF ms, of size] by simp
  moreover have "hash_abs H3 = (hash_abs H)(fold_key k \<mapsto> d)"
    using elem_map_mset [OF oke ms [symmetric]] by (simp add: hash_abs_def elem_map_def e_def)
  moreover have "sqlite3HashInsert ht_malloc (Some a) H k (Some d) = (None, H3)"
    using find by (simp add: sqlite3HashInsert_def Let_def H3_def H2_def H1_def e_def)
  ultimately show ?thesis using 3 2(3) el(2) by (simp add: hash_ok_def)
qed

lemma sqlite3HashInsert_map_put:
  assumes ok: "hash_ok H" and k: "0 \<notin> set k" and g: "grants ht_malloc" and a: "fresh_elem elem_malloc H"
    and r: "sqlite3HashInsert ht_malloc elem_malloc H k data = (res, H')"
  shows "hash_ok H'" "(res, hash_abs H') = map_put (elem_malloc \<noteq> None) (hash_abs H) (fold_key k) data"
proof -
  let ?c = "fold_key k"
  have f: "findElementWithHash H k = find (matches k) (h_elems H)" by (rule findElement_matches [OF ok k])
  have ab: "hash_abs H ?c = map_option he_data (findElementWithHash H k)" by (simp add: f hash_abs_def elem_map_find)
  have el: "elems_ok (h_elems H)" using ok by (simp add: hash_ok_def)
  have "hash_ok H' \<and> (res, hash_abs H') = map_put (elem_malloc \<noteq> None) (hash_abs H) ?c data"
  proof (cases "findElementWithHash H k")
    case (Some e)
    then have e: "e \<in> set (h_elems H)" "matches k e" using f by (auto simp: find_Some_iff)
    show ?thesis
    proof (cases data)
      case None
      then show ?thesis using removeElement_ok [OF ok e] r Some ab by (auto simp: sqlite3HashInsert_def map_put_def split: option.split)
    next
      case (Some d)
      have "map (\<lambda>x. if he_addr x = he_addr e then x\<lparr>he_data := d, he_key := k\<rparr> else x) (h_elems H) = map (retag k d) (h_elems H)"
        using addr_iff_matches [OF el e] by (intro map_cong) (auto simp: retag_def)
      then have "H' = H\<lparr>h_elems := map (retag k d) (h_elems H)\<rparr>" "res = Some (he_data e)"
        using r \<open>findElementWithHash H k = Some e\<close> Some by (auto simp: sqlite3HashInsert_def)
      moreover have "elem_map (map (retag k d) (h_elems H)) = (elem_map (h_elems H))(?c \<mapsto> d)"
        using ab \<open>findElementWithHash H k = Some e\<close> unfolding elem_map_retag hash_abs_def by auto
      ultimately show ?thesis using retag_ok [OF ok k] ab \<open>findElementWithHash H k = Some e\<close> Some
        by (simp add: map_put_def hash_abs_def)
    qed
  next
    case None
    then have new: "hash_abs H ?c = None" using ab by simp
    show ?thesis
    proof (cases "data = None \<or> elem_malloc = None")
      case True
      then show ?thesis using r None new ok by (auto simp: sqlite3HashInsert_def map_put_def split: option.splits)
    next
      case False
      then obtain d p where "data = Some d" "elem_malloc = Some p" by auto
      then show ?thesis using insert_new_ok [OF ok k new _ _ g None, of p d] a r new by (auto simp: fresh_elem_def map_put_def)
    qed
  qed
  then show "hash_ok H'" "(res, hash_abs H') = map_put (elem_malloc \<noteq> None) (hash_abs H) ?c data" by blast+
qed

subsection \<open>The contract of a store of named data\<close>

text \<open>
  What a client of the table relies on: \<open>view\<close> is the map a state stands for, over canonical names; \<open>get\<close> reads it and
  \<open>put\<close>, given what the allocator answers, acts on it as \<open>map_put\<close>. \<open>adm\<close> says which answers an allocator can give in a state.
\<close>

fun store_run :: "('a \<Rightarrow> 's \<Rightarrow> 'k \<Rightarrow> 'v option \<Rightarrow> 'v option \<times> 's) \<Rightarrow> ('a \<times> 'k \<times> 'v option) list \<Rightarrow> 's \<Rightarrow> 's" where
  "store_run put [] s = s"
| "store_run put ((a, k, v) # ops) s = store_run put ops (snd (put a s k v))"

fun run_adm :: "('a \<Rightarrow> 's \<Rightarrow> bool) \<Rightarrow> ('a \<Rightarrow> 's \<Rightarrow> 'k \<Rightarrow> 'v option \<Rightarrow> 'v option \<times> 's) \<Rightarrow> ('a \<times> 'k \<times> 'v option) list \<Rightarrow> 's \<Rightarrow> bool" where
  "run_adm adm put [] s \<longleftrightarrow> True"
| "run_adm adm put ((a, k, v) # ops) s \<longleftrightarrow> adm a s \<and> run_adm adm put ops (snd (put a s k v))"

definition last_write :: "('k \<Rightarrow> 'c) \<Rightarrow> ('a \<times> 'k \<times> 'v option) list \<Rightarrow> 'c \<Rightarrow> 'v option option" where
  "last_write canon ops c = map_option (\<lambda>(a, k, v). v) (find (\<lambda>(a, k, v). canon k = c) (rev ops))"

lemma find_append: "find P (xs @ ys) = (case find P xs of None \<Rightarrow> find P ys | Some x \<Rightarrow> Some x)"
  by (induction xs) auto

lemma last_write_Cons:
  "last_write canon ((a, k, v) # ops) c = (case last_write canon ops c of Some w \<Rightarrow> Some w | None \<Rightarrow> if canon k = c then Some v else None)"
  by (auto simp: last_write_def find_append split: option.split)

locale name_store =
  fixes inv :: "'s \<Rightarrow> bool"
    and view :: "'s \<Rightarrow> 'c \<Rightarrow> 'v option"
    and canon :: "'k \<Rightarrow> 'c"
    and name_ok :: "'k \<Rightarrow> bool"
    and adm :: "'a \<Rightarrow> 's \<Rightarrow> bool"
    and granted :: "'a \<Rightarrow> bool"
    and get :: "'s \<Rightarrow> 'k \<Rightarrow> 'v option"
    and put :: "'a \<Rightarrow> 's \<Rightarrow> 'k \<Rightarrow> 'v option \<Rightarrow> 'v option \<times> 's"
  assumes get_view: "inv s \<Longrightarrow> name_ok k \<Longrightarrow> get s k = view s (canon k)"
    and put_inv: "inv s \<Longrightarrow> name_ok k \<Longrightarrow> adm a s \<Longrightarrow> inv (snd (put a s k v))"
    and put_view: "inv s \<Longrightarrow> name_ok k \<Longrightarrow> adm a s \<Longrightarrow>
      (fst (put a s k v), view (snd (put a s k v))) = map_put (granted a) (view s) (canon k) v"
begin

lemma put_granted:
  "inv s \<Longrightarrow> name_ok k \<Longrightarrow> adm a s \<Longrightarrow> granted a \<Longrightarrow> view (snd (put a s k v)) = (view s)(canon k := v)"
  using put_view [of s k a v] by (auto simp: map_put_def split: option.splits)

lemma put_refused:
  assumes "inv s" "name_ok k" "adm a s" "\<not> granted a" "get s k = None" "v \<noteq> None"
  shows "fst (put a s k v) = v" "view (snd (put a s k v)) = view s"
  using put_view [of s k a v] get_view [of s k] assms by (simp_all add: map_put_def)

lemma get_put:
  "inv s \<Longrightarrow> name_ok k \<Longrightarrow> name_ok k' \<Longrightarrow> adm a s \<Longrightarrow> granted a \<Longrightarrow>
     get (snd (put a s k v)) k' = (if canon k' = canon k then v else get s k')"
  by (simp add: get_view put_inv put_granted)

lemma run_inv:
  "inv s \<Longrightarrow> \<forall>(a, k, v) \<in> set ops. name_ok k \<Longrightarrow> run_adm adm put ops s \<Longrightarrow> inv (store_run put ops s)"
  by (induction ops arbitrary: s) (auto simp: put_inv)

lemma run_view:
  "inv s \<Longrightarrow> \<forall>(a, k, v) \<in> set ops. name_ok k \<and> granted a \<Longrightarrow> run_adm adm put ops s \<Longrightarrow>
     view (store_run put ops s) c = (case last_write canon ops c of Some v \<Rightarrow> v | None \<Rightarrow> view s c)"
proof (induction ops arbitrary: s)
  case Nil
  then show ?case by (simp add: last_write_def)
next
  case (Cons op ops)
  obtain a k v where op: "op = (a, k, v)" by (cases op)
  have "inv (snd (put a s k v))" "view (snd (put a s k v)) = (view s)(canon k := v)"
    using Cons.prems op by (auto simp: put_inv put_granted)
  then show ?case using Cons op by (auto simp: last_write_Cons split: option.split)
qed

lemma run_get:
  assumes "inv s" "\<forall>(a, k, v) \<in> set ops. name_ok k \<and> granted a" "run_adm adm put ops s" "name_ok k"
  shows "get (store_run put ops s) k = (case last_write canon ops (canon k) of Some v \<Rightarrow> v | None \<Rightarrow> get s k)"
proof -
  have "inv (store_run put ops s)" using run_inv [of s ops] assms by fastforce
  then show ?thesis using assms by (simp add: get_view run_view split: option.split)
qed

end

text \<open>The hash table meets the contract. The allocator answers with a pair: for bucket arrays and for the element.\<close>

definition hash_put :: "(nat \<Rightarrow> nat option) \<times> nat option \<Rightarrow> 'd hash_table \<Rightarrow> byte list \<Rightarrow> 'd option \<Rightarrow> 'd option \<times> 'd hash_table" where
  "hash_put m H k v = sqlite3HashInsert (fst m) (snd m) H k v"

definition hash_adm :: "(nat \<Rightarrow> nat option) \<times> nat option \<Rightarrow> 'd hash_table \<Rightarrow> bool" where
  "hash_adm m H \<longleftrightarrow> grants (fst m) \<and> fresh_elem (snd m) H"

lemma sqlite3HashFind_view: "hash_ok H \<Longrightarrow> 0 \<notin> set k \<Longrightarrow> sqlite3HashFind H k = hash_abs H (fold_key k)"
  by (simp add: sqlite3HashFind_def findElement_matches hash_abs_def elem_map_find)

interpretation hs: name_store hash_ok hash_abs fold_key "\<lambda>k. 0 \<notin> set k" hash_adm "\<lambda>m. snd m \<noteq> None" sqlite3HashFind hash_put
proof
  fix H :: "'d hash_table" and k :: "byte list" and m v
  assume H: "hash_ok H" and k: "0 \<notin> set k"
  then show "sqlite3HashFind H k = hash_abs H (fold_key k)" by (rule sqlite3HashFind_view)
  assume "hash_adm m H"
  then have "grants (fst m)" "fresh_elem (snd m) H" by (simp_all add: hash_adm_def)
  from sqlite3HashInsert_map_put [OF H k this, of v "fst (hash_put m H k v)" "snd (hash_put m H k v)"]
  show "hash_ok (snd (hash_put m H k v))"
    "(fst (hash_put m H k v), hash_abs (snd (hash_put m H k v))) = map_put (snd m \<noteq> None) (hash_abs H) (fold_key k) v"
    by (simp_all add: hash_put_def)
qed

lemma hash_init_ok: "hash_ok sqlite3HashInit" "hash_abs sqlite3HashInit = Map.empty"
  by (simp_all add: hash_ok_def sqlite3HashInit_def elems_ok_def layout_ok_def hash_abs_def elem_map_def)

section \<open>Properties\<close>

text \<open>C26. \<open>sqlite3HashInsert\<close> is the update of a map whose names are compared without case: it returns the old data, or the new data
  if there was none and no memory for an element; NULL data deletes. The invariant of the table (every bucket contiguous in the
  list, its count and first element right, names distinct) is kept, whether or not the bucket array could grow.\<close>

theorem sqlite3HashInsert_refines:
  assumes "hash_ok H" "0 \<notin> set k" "grants ht_malloc" "fresh_elem elem_malloc H"
    and "sqlite3HashInsert ht_malloc elem_malloc H k data = (res, H')"
  shows "hash_ok H' \<and> (res, hash_abs H') = map_put (elem_malloc \<noteq> None) (hash_abs H) (fold_key k) data"
  using sqlite3HashInsert_map_put [OF assms] by blast

theorem sqlite3HashInsert_refines_witness:
  "hash_ok (snd (sqlite3HashInsert (\<lambda>n. Some n) (Some 8) sqlite3HashInit [0x61] (Some True)))"
  using sqlite3HashInsert_refines [OF hash_init_ok(1), of "[0x61]" "\<lambda>n. Some n" "Some 8" "Some True"]
  by (simp add: grants_def fresh_elem_def sqlite3HashInit_def prod_eq_iff)

text \<open>After any sequence of insertions and deletions into an empty table, with memory available, \<open>sqlite3HashFind\<close> returns what the last
  of them with that name stored, upper and lower case letters being the same, and NULL if there was none.\<close>

theorem hash_returns_last_write:
  assumes "run_adm hash_adm hash_put ops sqlite3HashInit" "\<forall>(m, k, v) \<in> set ops. 0 \<notin> set k \<and> snd m \<noteq> None" "0 \<notin> set k"
  shows "sqlite3HashFind (store_run hash_put ops sqlite3HashInit) k
    = (case last_write fold_key ops (fold_key k) of Some v \<Rightarrow> v | None \<Rightarrow> None)"
  using hs.run_get [OF hash_init_ok(1) assms(2,1,3)] assms(3)
  by (simp add: sqlite3HashFind_view hash_init_ok split: option.split)

theorem hash_returns_last_write_witness:
  "sqlite3HashFind (store_run hash_put [((\<lambda>n. Some n, Some 8), [0x61], Some True)] sqlite3HashInit) [0x41] = Some True"
  using hash_returns_last_write [of "[((\<lambda>n. Some n, Some 8), [0x61], Some True)]" "[0x41]"]
  by (simp add: hash_adm_def grants_def fresh_elem_def sqlite3HashInit_def last_write_def fold_key_def sqlite3UpperToLower_def)

end
