(* ===== verification/Row_Set.thy ===== *)
theory Row_Set
  imports Sc_Prelude "HOL-Library.Monad_Syntax"
begin

text \<open>
  The sets of row identifiers of \<open>src/rowset.c\<close>, which the virtual machine fills, tests in batches or empties in order.

  Entries are used either as a list linked by \<open>pRight\<close> or as nodes of a search tree, never both at once and never shared, so a
  chain is a list of row identifiers and a tree a datatype; the forest is the list of the trees of its entries, NULL being
  \<open>Null\<close>. Of the memory pool only the number of chunks and of fresh entries is kept, and \<open>rs_mallocFailed\<close> is the flag of the
  connection. Whether an allocation succeeds is the parameter \<open>ok\<close>. Row identifiers are only compared, so they are integers.
\<close>

section \<open>Definitions\<close>

datatype rs_tree = Null | Entry rs_tree int rs_tree

record row_set =
  rs_nChunk :: nat
  rs_pEntry :: "int list"
  rs_pForest :: "rs_tree list"
  rs_nFresh :: nat
  rs_sorted :: bool
  rs_next :: bool
  rs_iBatch :: int
  rs_mallocFailed :: bool

abbreviation (input) ROWSET_ENTRY_PER_CHUNK :: nat where "ROWSET_ENTRY_PER_CHUNK \<equiv> 42"

text \<open>\<open>N\<close> is the size of the block that was granted for the 56 bytes of the structure; an entry has 24 bytes.\<close>

definition sqlite3RowSetInit :: "nat \<Rightarrow> row_set" where
  "sqlite3RowSetInit N = \<lparr>rs_nChunk = 0, rs_pEntry = [], rs_pForest = [], rs_nFresh = ((N - 56) div 24) mod 65536,
     rs_sorted = True, rs_next = False, rs_iBatch = 0, rs_mallocFailed = False\<rparr>"

definition sqlite3RowSetClear :: "row_set \<Rightarrow> row_set" where
  "sqlite3RowSetClear p = p\<lparr>rs_nChunk := 0, rs_nFresh := 0, rs_pEntry := [], rs_pForest := [], rs_sorted := True, rs_next := False\<rparr>"

definition rowSetEntryAlloc :: "bool \<Rightarrow> row_set \<Rightarrow> bool \<times> row_set" where
  "rowSetEntryAlloc ok p =
     (if rs_nFresh p = 0
      then if ok then (True, p\<lparr>rs_nChunk := rs_nChunk p + 1, rs_nFresh := ROWSET_ENTRY_PER_CHUNK - 1\<rparr>)
           else (False, p\<lparr>rs_mallocFailed := True\<rparr>)
      else (True, p\<lparr>rs_nFresh := rs_nFresh p - 1\<rparr>))"

definition sqlite3RowSetInsert :: "bool \<Rightarrow> row_set \<Rightarrow> int \<Rightarrow> row_set" where
  "sqlite3RowSetInsert ok p rowid =
     (case rowSetEntryAlloc ok p of
        (False, p) \<Rightarrow> p
      | (True, p) \<Rightarrow>
          p\<lparr>rs_sorted := (if rs_pEntry p \<noteq> [] \<and> rowid \<le> last (rs_pEntry p) then False else rs_sorted p),
            rs_pEntry := rs_pEntry p @ [rowid]\<rparr>)"

fun rowSetEntryMerge :: "int list \<Rightarrow> int list \<Rightarrow> int list" where
  "rowSetEntryMerge (a # pA) (b # pB) =
     (if a \<le> b then (if a < b then [a] else []) @ (if pA = [] then b # pB else rowSetEntryMerge pA (b # pB))
      else b # (if pB = [] then a # pA else rowSetEntryMerge (a # pA) pB))"
| "rowSetEntryMerge pA pB = pA @ pB"

text \<open>The buckets of the sort. Going past the last of them is outside the array.\<close>

fun bucket_carry :: "int list list \<Rightarrow> int list \<Rightarrow> int list list option" where
  "bucket_carry [] pIn = None"
| "bucket_carry (b # aBucket) pIn =
     (if b = [] then Some (pIn # aBucket) else map_option (\<lambda>bs. [] # bs) (bucket_carry aBucket (rowSetEntryMerge b pIn)))"

fun sort_fill :: "int list \<Rightarrow> int list list \<Rightarrow> int list list option" where
  "sort_fill [] aBucket = Some aBucket"
| "sort_fill (v # pIn) aBucket = Option.bind (bucket_carry aBucket [v]) (sort_fill pIn)"

definition sort_collect :: "int list list \<Rightarrow> int list" where
  "sort_collect aBucket = foldl (\<lambda>pIn b. if b = [] then pIn else if pIn \<noteq> [] then rowSetEntryMerge pIn b else b) (hd aBucket) (tl aBucket)"

definition rowSetEntrySort :: "int list \<Rightarrow> int list option" where
  "rowSetEntrySort pIn = map_option sort_collect (sort_fill pIn (replicate 40 []))"

fun rowSetTreeToList :: "rs_tree \<Rightarrow> int list" where
  "rowSetTreeToList Null = []"
| "rowSetTreeToList (Entry l v r) = rowSetTreeToList l @ v # rowSetTreeToList r"

function rowSetNDeepTree :: "int list \<Rightarrow> nat \<Rightarrow> rs_tree \<times> int list" where
  "rowSetNDeepTree [] iDepth = (Null, [])"
| "rowSetNDeepTree (v # pList) iDepth =
     (if 1 < iDepth
      then let (pLeft, ppList) = rowSetNDeepTree (v # pList) (iDepth - 1)
           in (case ppList of
                 [] \<Rightarrow> (pLeft, [])
               | p # ppList \<Rightarrow> let (pRight, ppList) = rowSetNDeepTree ppList (iDepth - 1) in (Entry pLeft p pRight, ppList))
      else (Entry Null v Null, pList))"
  by pat_completeness auto
termination by (relation "measure snd") auto

lemma NDeepTree_list: "rowSetNDeepTree xs d = (t, ys) \<Longrightarrow> rowSetTreeToList t @ ys = xs"
proof (induction xs d arbitrary: t ys rule: rowSetNDeepTree.induct)
  case (2 v pList d)
  show ?case
  proof (cases "1 < d")
    case True
    obtain l zs where l: "rowSetNDeepTree (v # pList) (d - 1) = (l, zs)" by fastforce
    note left = 2(1) [OF True l]
    show ?thesis
    proof (cases zs)
      case Nil
      then show ?thesis using 2(3) True l left by simp
    next
      case (Cons p ws)
      obtain r us where r: "rowSetNDeepTree ws (d - 1) = (r, us)" by fastforce
      then have "rowSetTreeToList r @ us = ws" using 2(2) [OF True l [symmetric] refl Cons r] by simp
      then show ?thesis using 2(3) True l r Cons left by auto
    qed
  next
    case False
    then show ?thesis using 2(3) by auto
  qed
qed simp

lemma NDeepTree_length: "rowSetNDeepTree xs d = (t, ys) \<Longrightarrow> length ys \<le> length xs"
  using NDeepTree_list [of xs d t ys] by auto

function listToTree_loop :: "rs_tree \<Rightarrow> int list \<Rightarrow> nat \<Rightarrow> rs_tree" where
  "listToTree_loop p [] iDepth = p"
| "listToTree_loop p (v # pList) iDepth =
     (let (pRight, pList) = rowSetNDeepTree pList iDepth in listToTree_loop (Entry p v pRight) pList (iDepth + 1))"
  by pat_completeness auto
termination
  by (relation "measure (\<lambda>(p, xs, d). length xs)") (auto dest!: NDeepTree_length [OF sym])

definition rowSetListToTree :: "int list \<Rightarrow> rs_tree" where
  "rowSetListToTree pList = (case pList of [] \<Rightarrow> Null | v # pList \<Rightarrow> listToTree_loop (Entry Null v Null) pList 1)"

text \<open>The result is None when the sort leaves its array, else the row identifier if there was one, and the set.\<close>

definition sqlite3RowSetNext :: "row_set \<Rightarrow> (int option \<times> row_set) option" where
  "sqlite3RowSetNext p =
     do {
       p \<leftarrow> (if \<not> rs_next p
             then do {
               xs \<leftarrow> (if \<not> rs_sorted p then rowSetEntrySort (rs_pEntry p) else Some (rs_pEntry p));
               Some (p\<lparr>rs_pEntry := xs, rs_sorted := True, rs_next := True\<rparr>)
             }
             else Some p);
       (case rs_pEntry p of
          [] \<Rightarrow> Some (None, p)
        | v # xs \<Rightarrow> Some (Some v, if xs = [] then sqlite3RowSetClear (p\<lparr>rs_pEntry := xs\<rparr>) else p\<lparr>rs_pEntry := xs\<rparr>))
     }"

text \<open>The walk along the forest puts the entries, merged with the trees it passes, into the first empty slot. The result is the
  forest, and the entries if it had none.\<close>

fun forest_put :: "rs_tree list \<Rightarrow> int list \<Rightarrow> rs_tree list \<times> int list option" where
  "forest_put [] p = ([], Some p)"
| "forest_put (t # ts) p =
     (if t = Null then (rowSetListToTree p # ts, None)
      else let (ts, rest) = forest_put ts (rowSetEntryMerge (rowSetTreeToList t) p) in (Null # ts, rest))"

fun tree_test :: "rs_tree \<Rightarrow> int \<Rightarrow> bool" where
  "tree_test Null iRowid \<longleftrightarrow> False"
| "tree_test (Entry l v r) iRowid \<longleftrightarrow> (if v < iRowid then tree_test r iRowid else if v > iRowid then tree_test l iRowid else True)"

definition forest_batch :: "bool \<Rightarrow> row_set \<Rightarrow> int list \<Rightarrow> row_set" where
  "forest_batch ok p xs =
     (let (ts, rest) = forest_put (rs_pForest p) xs;
          p = p\<lparr>rs_pForest := ts\<rparr>;
          p = (case rest of
                 None \<Rightarrow> p
               | Some ys \<Rightarrow> (case rowSetEntryAlloc ok p of
                                (True, p) \<Rightarrow> p\<lparr>rs_pForest := rs_pForest p @ [rowSetListToTree ys]\<rparr>
                              | (False, p) \<Rightarrow> p))
      in p\<lparr>rs_pEntry := [], rs_sorted := True\<rparr>)"

definition sqlite3RowSetTest :: "bool \<Rightarrow> row_set \<Rightarrow> int \<Rightarrow> int \<Rightarrow> (bool \<times> row_set) option" where
  "sqlite3RowSetTest ok p iBatch iRowid =
     do {
       p \<leftarrow> (if iBatch \<noteq> rs_iBatch p
             then if rs_pEntry p \<noteq> []
                  then do {
                    xs \<leftarrow> (if \<not> rs_sorted p then rowSetEntrySort (rs_pEntry p) else Some (rs_pEntry p));
                    Some (forest_batch ok p xs\<lparr>rs_iBatch := iBatch\<rparr>)
                  }
                  else Some (p\<lparr>rs_iBatch := iBatch\<rparr>)
             else Some p);
       Some (\<exists>t \<in> set (rs_pForest p). tree_test t iRowid, p)
     }"

section \<open>Lemmas\<close>

subsection \<open>Merging and sorting\<close>

abbreviation strict :: "int list \<Rightarrow> bool" where "strict \<equiv> sorted_wrt (<)"

lemma merge_Nil2 [simp]: "rowSetEntryMerge xs [] = xs"
  by (cases xs) simp_all

lemma merge_Cons:
  "rowSetEntryMerge (a # xs) (b # ys) =
     (if a < b then a # rowSetEntryMerge xs (b # ys) else if a = b then rowSetEntryMerge xs (b # ys) else b # rowSetEntryMerge (a # xs) ys)"
  by auto

lemma set_merge [simp]: "set (rowSetEntryMerge xs ys) = set xs \<union> set ys"
proof (induction xs ys rule: rowSetEntryMerge.induct)
  case (1 a xs b ys)
  have "a \<le> b \<Longrightarrow> set (rowSetEntryMerge xs (b # ys)) = set xs \<union> set (b # ys)" using 1(1) by (cases "xs = []") simp_all
  moreover have "\<not> a \<le> b \<Longrightarrow> set (rowSetEntryMerge (a # xs) ys) = set (a # xs) \<union> set ys" using 1(2) by (cases "ys = []") simp_all
  ultimately show ?case unfolding merge_Cons by auto
qed simp_all

lemma merge_empty [simp]: "rowSetEntryMerge xs ys = [] \<longleftrightarrow> xs = [] \<and> ys = []"
  using set_merge [of xs ys] by (metis Un_empty set_empty)

lemma strict_merge: "strict xs \<Longrightarrow> strict ys \<Longrightarrow> strict (rowSetEntryMerge xs ys)"
proof (induction xs ys rule: rowSetEntryMerge.induct)
  case (1 a xs b ys)
  have "a \<le> b \<Longrightarrow> strict (rowSetEntryMerge xs (b # ys))" using 1(1,3,4) by (cases "xs = []") simp_all
  moreover have "\<not> a \<le> b \<Longrightarrow> strict (rowSetEntryMerge (a # xs) ys)" using 1(2-4) by (cases "ys = []") simp_all
  ultimately show ?case using 1(3,4) unfolding merge_Cons by (auto simp del: rowSetEntryMerge.simps)
qed simp_all

text \<open>The occupied buckets are the binary digits of the number of entries seen.\<close>

fun occupied :: "int list list \<Rightarrow> nat" where
  "occupied [] = 0"
| "occupied (b # bs) = (if b = [] then 0 else 1) + 2 * occupied bs"

lemma carry_counts:
  "Suc (occupied bs) < 2 ^ length bs \<Longrightarrow> xs \<noteq> [] \<Longrightarrow>
     \<exists>bs'. bucket_carry bs xs = Some bs' \<and> occupied bs' = Suc (occupied bs) \<and> length bs' = length bs"
proof (induction bs arbitrary: xs)
  case (Cons b bs)
  show ?case
  proof (cases "b = []")
    case False
    then have "Suc (occupied bs) < 2 ^ length bs" using Cons.prems(1) by simp
    from Cons.IH [OF this, of "rowSetEntryMerge b xs"] False show ?thesis by auto
  qed (use Cons.prems in simp)
qed simp

lemma carry_keeps:
  "bucket_carry bs xs = Some bs' \<Longrightarrow> strict xs \<Longrightarrow> \<forall>b \<in> set bs. strict b \<Longrightarrow>
     (\<forall>b \<in> set bs'. strict b) \<and> \<Union> (set ` set bs') = \<Union> (set ` set bs) \<union> set xs \<and> length bs' = length bs"
proof (induction bs arbitrary: xs bs')
  case (Cons b bs)
  show ?case
  proof (cases "b = []")
    case True
    then show ?thesis using Cons.prems by auto
  next
    case False
    then obtain cs where cs: "bucket_carry bs (rowSetEntryMerge b xs) = Some cs" "bs' = [] # cs" using Cons.prems(1) by auto
    have "strict (rowSetEntryMerge b xs)" using Cons.prems strict_merge by simp
    from Cons.IH [OF cs(1) this] Cons.prems(3) cs(2) show ?thesis by auto
  qed
qed simp

lemma fill_counts:
  "occupied bs + length xs < 2 ^ length bs \<Longrightarrow> \<exists>bs'. sort_fill xs bs = Some bs'"
proof (induction xs arbitrary: bs)
  case (Cons x xs)
  have "Suc (occupied bs) < 2 ^ length bs" using Cons.prems by simp
  from carry_counts [OF this, of "[x]"] obtain cs
    where "bucket_carry bs [x] = Some cs" "occupied cs = Suc (occupied bs)" "length cs = length bs" by auto
  with Cons.IH [of cs] Cons.prems show ?case by simp
qed simp

lemma fill_keeps:
  "sort_fill xs bs = Some bs' \<Longrightarrow> \<forall>b \<in> set bs. strict b \<Longrightarrow>
     (\<forall>b \<in> set bs'. strict b) \<and> \<Union> (set ` set bs') = \<Union> (set ` set bs) \<union> set xs \<and> length bs' = length bs"
proof (induction xs arbitrary: bs)
  case (Cons x xs)
  then obtain cs where cs: "bucket_carry bs [x] = Some cs" "sort_fill xs cs = Some bs'" by (auto split: bind_splits)
  have "strict [x]" by simp
  note k = carry_keeps [OF cs(1) this Cons.prems(2)]
  from Cons.IH [OF cs(2)] k show ?case by auto
qed simp

lemma collect_fold:
  "strict xs \<Longrightarrow> \<forall>b \<in> set bs. strict b \<Longrightarrow>
     strict (foldl (\<lambda>pIn b. if b = [] then pIn else if pIn \<noteq> [] then rowSetEntryMerge pIn b else b) xs bs)
     \<and> set (foldl (\<lambda>pIn b. if b = [] then pIn else if pIn \<noteq> [] then rowSetEntryMerge pIn b else b) xs bs) = set xs \<union> \<Union> (set ` set bs)"
proof (induction bs arbitrary: xs)
  case (Cons b bs)
  let ?ys = "if b = [] then xs else if xs \<noteq> [] then rowSetEntryMerge xs b else b"
  have "strict ?ys" "set ?ys = set xs \<union> set b" using Cons.prems strict_merge by auto
  with Cons.IH [of ?ys] Cons.prems(2) show ?case by (simp add: Un_assoc)
qed simp

lemma strict_unique: "strict xs \<Longrightarrow> set xs = S \<Longrightarrow> xs = sorted_list_of_set S"
  by (rule strict_sorted_equal) auto

lemma rowSetEntrySort_eq:
  assumes "length xs < 2 ^ 40"
  shows "rowSetEntrySort xs = Some (sorted_list_of_set (set xs))"
proof -
  have "occupied (replicate n []) = 0" for n by (induction n) simp_all
  then obtain bs where bs: "sort_fill xs (replicate 40 []) = Some bs" using fill_counts [of "replicate 40 []" xs] assms by auto
  have k: "\<forall>b \<in> set bs. strict b" "\<Union> (set ` set bs) = set xs" "length bs = 40" using fill_keeps [OF bs] by auto
  then obtain b cs where b: "bs = b # cs" by (cases bs) auto
  have "strict (sort_collect bs)" "set (sort_collect bs) = set xs"
    using collect_fold [of b cs] k b by (simp_all add: sort_collect_def)
  then show ?thesis using bs strict_unique by (simp add: rowSetEntrySort_def)
qed

subsection \<open>Trees\<close>

fun rs_height :: "rs_tree \<Rightarrow> nat" where
  "rs_height Null = 0"
| "rs_height (Entry l v r) = Suc (max (rs_height l) (rs_height r))"

text \<open>A tree of depth \<open>d\<close> is complete unless the list has run out.\<close>

lemma NDeepTree_shape:
  "rowSetNDeepTree xs d = (t, ys) \<Longrightarrow> 0 < d \<Longrightarrow>
     rs_height t \<le> d \<and> (ys \<noteq> [] \<longrightarrow> length (rowSetTreeToList t) = 2 ^ d - 1)"
proof (induction xs d arbitrary: t ys rule: rowSetNDeepTree.induct)
  case (2 v pList d)
  show ?case
  proof (cases "1 < d")
    case True
    obtain l zs where l: "rowSetNDeepTree (v # pList) (d - 1) = (l, zs)" by fastforce
    have d: "0 < d - 1" using True by simp
    note left = 2(1) [OF True l d]
    have pow: "(2::nat) ^ d = 2 * 2 ^ (d - 1)" "(1::nat) \<le> 2 ^ (d - 1)" using True by (simp_all flip: power_Suc)
    show ?thesis
    proof (cases zs)
      case Nil
      then show ?thesis using 2(3) True l left by auto
    next
      case (Cons p ws)
      obtain r us where r: "rowSetNDeepTree ws (d - 1) = (r, us)" by fastforce
      have right: "rs_height r \<le> d - 1 \<and> (us \<noteq> [] \<longrightarrow> length (rowSetTreeToList r) = 2 ^ (d - 1) - 1)"
        using 2(2) [OF True l [symmetric] refl Cons r d] .
      have t: "t = Entry l p r" "ys = us" using 2(3) True l r Cons by simp_all
      have "rs_height t \<le> d" using t left right True by auto
      moreover have "length (rowSetTreeToList t) = 2 ^ d - 1" if "ys \<noteq> []"
        using t left right that Cons pow by simp
      ultimately show ?thesis by blast
    qed
  next
    case False
    then have "d = 1" using 2(4) by simp
    then show ?thesis using 2(3) by auto
  qed
qed simp

lemma listToTree_loop_list: "rowSetTreeToList (listToTree_loop t xs d) = rowSetTreeToList t @ xs"
proof (induction t xs d rule: listToTree_loop.induct)
  case (2 t v xs d)
  obtain r ys where r: "rowSetNDeepTree xs d = (r, ys)" by fastforce
  show ?case using 2 [OF r [symmetric] refl] NDeepTree_list [OF r] r by simp
qed simp

lemma listToTree_list [simp]: "rowSetTreeToList (rowSetListToTree xs) = xs"
  by (simp add: rowSetListToTree_def listToTree_loop_list split: list.split)

lemma listToTree_loop_height:
  "length (rowSetTreeToList t) = 2 ^ d - 1 \<Longrightarrow> rs_height t \<le> d \<Longrightarrow> 0 < d \<Longrightarrow>
     2 ^ (rs_height (listToTree_loop t xs d) - 1) \<le> length (rowSetTreeToList t) + length xs"
proof (induction t xs d rule: listToTree_loop.induct)
  case (1 t d)
  have "(2::nat) ^ (rs_height t - 1) \<le> 2 ^ (d - 1)" using 1 by (intro power_increasing) auto
  also have "\<dots> \<le> 2 ^ d - 1"
  proof -
    have "(2::nat) ^ d = 2 * 2 ^ (d - 1)" "(1::nat) \<le> 2 ^ (d - 1)" using 1 by (simp_all flip: power_Suc)
    then show ?thesis by linarith
  qed
  finally show ?case using 1 by simp
next
  case (2 t v xs d)
  obtain r ys where r: "rowSetNDeepTree xs d = (r, ys)" by fastforce
  note sh = NDeepTree_shape [OF r 2(4)]
  have len: "length (rowSetTreeToList r) + length ys = length xs" using NDeepTree_list [OF r] by (metis length_append)
  have one: "(1::nat) \<le> 2 ^ d" by simp
  have ht: "rs_height (Entry t v r) \<le> d + 1" using 2(3) sh by simp
  show ?case
  proof (cases "ys = []")
    case True
    then have "listToTree_loop t (v # xs) d = Entry t v r" using r by simp
    moreover have "(2::nat) ^ (rs_height (Entry t v r) - 1) \<le> 2 ^ d" using ht by (intro power_increasing) auto
    moreover have "2 ^ d \<le> length (rowSetTreeToList t) + length (v # xs)" using 2(2) one by simp
    ultimately show ?thesis by (metis le_trans length_Cons)
  next
    case False
    then have "length (rowSetTreeToList (Entry t v r)) = 2 ^ (d + 1) - 1" using 2(2) sh one by simp
    from 2(1) [OF r [symmetric] refl this ht] have
      "2 ^ (rs_height (listToTree_loop (Entry t v r) ys (d + 1)) - 1) \<le> length (rowSetTreeToList (Entry t v r)) + length ys" by simp
    then show ?thesis using r len by simp
  qed
qed

lemma listToTree_height: "xs \<noteq> [] \<Longrightarrow> 2 ^ (rs_height (rowSetListToTree xs) - 1) \<le> length xs"
  using listToTree_loop_height [of "Entry Null (hd xs) Null" 1 "tl xs"] by (cases xs) (simp_all add: rowSetListToTree_def)

lemma tree_test_set: "strict (rowSetTreeToList t) \<Longrightarrow> tree_test t r \<longleftrightarrow> r \<in> set (rowSetTreeToList t)"
  by (induction t) (auto simp: sorted_wrt_append)

subsection \<open>The forest\<close>

definition forest_set :: "rs_tree list \<Rightarrow> int set" where
  "forest_set ts = \<Union> ((\<lambda>t. set (rowSetTreeToList t)) ` set ts)"

definition forest_ok :: "rs_tree list \<Rightarrow> bool" where
  "forest_ok ts \<longleftrightarrow> (\<forall>t \<in> set ts. strict (rowSetTreeToList t))"

lemma forest_simps [simp]:
  "forest_set [] = {}" "forest_set (t # ts) = set (rowSetTreeToList t) \<union> forest_set ts" "forest_set (ts @ us) = forest_set ts \<union> forest_set us"
  "forest_ok []" "forest_ok (t # ts) \<longleftrightarrow> strict (rowSetTreeToList t) \<and> forest_ok ts" "forest_ok (ts @ us) \<longleftrightarrow> forest_ok ts \<and> forest_ok us"
  by (auto simp: forest_set_def forest_ok_def)

lemma forest_put_ok:
  "forest_put ts xs = (ts', rest) \<Longrightarrow> forest_ok ts \<Longrightarrow> strict xs \<Longrightarrow>
     forest_ok ts' \<and> (case rest of None \<Rightarrow> forest_set ts' = forest_set ts \<union> set xs
       | Some ys \<Rightarrow> forest_set ts' = {} \<and> strict ys \<and> set ys = forest_set ts \<union> set xs)"
proof (induction ts arbitrary: xs ts')
  case (Cons t ts)
  show ?case
  proof (cases "t = Null")
    case True
    then show ?thesis using Cons.prems by auto
  next
    case False
    let ?ys = "rowSetEntryMerge (rowSetTreeToList t) xs"
    obtain us where us: "forest_put ts ?ys = (us, rest)" "ts' = Null # us"
      using Cons.prems(1) False by (auto split: prod.splits)
    have "strict ?ys" using Cons.prems strict_merge by simp
    from Cons.IH [OF us(1) _ this] Cons.prems(2) us(2) show ?thesis by (auto split: option.splits)
  qed
qed auto

lemma forest_test: "forest_ok ts \<Longrightarrow> (\<exists>t \<in> set ts. tree_test t r) \<longleftrightarrow> r \<in> forest_set ts"
  by (auto simp: forest_ok_def forest_set_def tree_test_set)

subsection \<open>The invariant\<close>

definition row_ok :: "row_set \<Rightarrow> bool" where
  "row_ok p \<longleftrightarrow> forest_ok (rs_pForest p) \<and> (rs_sorted p \<longrightarrow> strict (rs_pEntry p)) \<and> rs_nFresh p < 65536"

lemma init_ok: "row_ok (sqlite3RowSetInit N)"
  by (simp add: row_ok_def sqlite3RowSetInit_def)

lemma strict_snoc: "strict xs \<Longrightarrow> xs = [] \<or> last xs < x \<Longrightarrow> strict (xs @ [x])"
proof (induction xs)
  case (Cons a xs)
  show ?case
  proof (cases "xs = []")
    case False
    then have "a < last xs" "last xs < x" using Cons.prems last_in_set [of xs] by auto
    then have "a < x" by (rule less_trans)
    then show ?thesis using Cons False by simp
  qed (use Cons.prems in simp)
qed simp

lemma insert_ok:
  assumes "row_ok p"
  shows "row_ok (sqlite3RowSetInsert True p x)" "rs_pEntry (sqlite3RowSetInsert True p x) = rs_pEntry p @ [x]"
    "rs_pForest (sqlite3RowSetInsert True p x) = rs_pForest p" "rs_iBatch (sqlite3RowSetInsert True p x) = rs_iBatch p"
    "rs_next (sqlite3RowSetInsert True p x) = rs_next p"
  using assms strict_snoc [of "rs_pEntry p" x]
  by (auto simp: sqlite3RowSetInsert_def rowSetEntryAlloc_def row_ok_def)

lemma sorted_entries:
  assumes "row_ok p" "length (rs_pEntry p) < 2 ^ 40"
  shows "(if \<not> rs_sorted p then rowSetEntrySort (rs_pEntry p) else Some (rs_pEntry p)) = Some (sorted_list_of_set (set (rs_pEntry p)))"
  using assms strict_unique [of "rs_pEntry p"] by (auto simp: rowSetEntrySort_eq row_ok_def)

lemma forest_batch_ok:
  assumes "row_ok p" "strict xs"
  shows "row_ok (forest_batch True p xs)" "forest_set (rs_pForest (forest_batch True p xs)) = forest_set (rs_pForest p) \<union> set xs"
    "rs_pEntry (forest_batch True p xs) = []" "rs_iBatch (forest_batch True p xs) = rs_iBatch p"
proof -
  obtain ts rest where f: "forest_put (rs_pForest p) xs = (ts, rest)" by fastforce
  have "forest_ok (rs_pForest p)" using assms(1) by (simp add: row_ok_def)
  note k = forest_put_ok [OF f this assms(2)]
  have fresh: "rs_nFresh p < 65536" using assms(1) by (simp add: row_ok_def)
  have "row_ok (forest_batch True p xs) \<and> forest_set (rs_pForest (forest_batch True p xs)) = forest_set (rs_pForest p) \<union> set xs
    \<and> rs_pEntry (forest_batch True p xs) = [] \<and> rs_iBatch (forest_batch True p xs) = rs_iBatch p"
  proof (cases rest)
    case None
    then have "forest_batch True p xs = p\<lparr>rs_pForest := ts, rs_pEntry := [], rs_sorted := True\<rparr>" using f by (simp add: forest_batch_def)
    then show ?thesis using k None fresh by (simp add: row_ok_def)
  next
    case (Some ys)
    define q where "q = forest_batch True p xs"
    have q: "rs_pForest q = ts @ [rowSetListToTree ys]" "rs_pEntry q = []" "rs_iBatch q = rs_iBatch p" "rs_nFresh q < 65536"
      using f Some fresh by (auto simp: q_def forest_batch_def rowSetEntryAlloc_def Let_def)
    have "forest_ok ts" "forest_set ts = {}" "strict ys" "set ys = forest_set (rs_pForest p) \<union> set xs" using k Some by simp_all
    then show ?thesis using q(4) unfolding q_def [symmetric] row_ok_def q(1-3) by simp
  qed
  then show "row_ok (forest_batch True p xs)" "forest_set (rs_pForest (forest_batch True p xs)) = forest_set (rs_pForest p) \<union> set xs"
    "rs_pEntry (forest_batch True p xs) = []" "rs_iBatch (forest_batch True p xs) = rs_iBatch p" by blast+
qed

lemma test_ok:
  assumes ok: "row_ok p" and len: "length (rs_pEntry p) < 2 ^ 40"
  shows "\<exists>p'. sqlite3RowSetTest True p b r = Some (r \<in> forest_set (rs_pForest p'), p') \<and> row_ok p' \<and> rs_iBatch p' = b
    \<and> forest_set (rs_pForest p') = forest_set (rs_pForest p) \<union> (if b \<noteq> rs_iBatch p then set (rs_pEntry p) else {})
    \<and> rs_pEntry p' = (if b \<noteq> rs_iBatch p then [] else rs_pEntry p)"
proof (cases "b \<noteq> rs_iBatch p \<and> rs_pEntry p \<noteq> []")
  case True
  let ?xs = "sorted_list_of_set (set (rs_pEntry p))"
  let ?p = "forest_batch True p ?xs\<lparr>rs_iBatch := b\<rparr>"
  have st: "strict ?xs" by simp
  note fb = forest_batch_ok [OF ok st]
  have r: "row_ok ?p" using fb(1) by (simp add: row_ok_def)
  have "sqlite3RowSetTest True p b r = Some (\<exists>t \<in> set (rs_pForest ?p). tree_test t r, ?p)"
    unfolding sqlite3RowSetTest_def sorted_entries [OF ok len] using True by simp
  moreover have "(\<exists>t \<in> set (rs_pForest ?p). tree_test t r) \<longleftrightarrow> r \<in> forest_set (rs_pForest ?p)"
    using r by (intro forest_test) (simp add: row_ok_def)
  ultimately show ?thesis using r fb True by (intro exI [of _ ?p]) simp
next
  case False
  let ?p = "p\<lparr>rs_iBatch := b\<rparr>"
  have "sqlite3RowSetTest True p b r = Some (\<exists>t \<in> set (rs_pForest p). tree_test t r, ?p)"
    using False by (auto simp: sqlite3RowSetTest_def)
  moreover have "(\<exists>t \<in> set (rs_pForest p). tree_test t r) \<longleftrightarrow> r \<in> forest_set (rs_pForest p)"
    using ok by (intro forest_test) (simp add: row_ok_def)
  ultimately show ?thesis using ok False by (intro exI [of _ ?p]) (auto simp: row_ok_def)
qed

subsection \<open>The contract of batched membership tests\<close>

text \<open>A history of a row set that is tested: the operations, and the answers of the tests.\<close>

datatype rs_op = Ins int | Tst int int

fun batch_run :: "('s \<Rightarrow> int \<Rightarrow> 's) \<Rightarrow> ('s \<Rightarrow> int \<Rightarrow> int \<Rightarrow> (bool \<times> 's) option) \<Rightarrow> rs_op list \<Rightarrow> 's \<Rightarrow> bool list option" where
  "batch_run ins tst [] s = Some []"
| "batch_run ins tst (Ins r # ops) s = batch_run ins tst ops (ins s r)"
| "batch_run ins tst (Tst b r # ops) s =
     Option.bind (tst s b r) (\<lambda>(res, s'). map_option (\<lambda>bs. res # bs) (batch_run ins tst ops s'))"

text \<open>The answers specified: rows of batches that ended before the test, \<open>old\<close>, and the rows of the current batch, \<open>new\<close>.\<close>

fun batch_spec :: "rs_op list \<Rightarrow> int set \<Rightarrow> int set \<Rightarrow> int \<Rightarrow> bool list" where
  "batch_spec [] old new batch = []"
| "batch_spec (Ins r # ops) old new batch = batch_spec ops old (insert r new) batch"
| "batch_spec (Tst b r # ops) old new batch =
     (if b \<noteq> batch then (r \<in> old \<union> new) # batch_spec ops (old \<union> new) {} b else (r \<in> old) # batch_spec ops old new batch)"

locale batch_set =
  fixes inv :: "'s \<Rightarrow> bool"
    and old :: "'s \<Rightarrow> int set"
    and new :: "'s \<Rightarrow> int set"
    and batch :: "'s \<Rightarrow> int"
    and used :: "'s \<Rightarrow> nat"
    and limit :: nat
    and ins :: "'s \<Rightarrow> int \<Rightarrow> 's"
    and tst :: "'s \<Rightarrow> int \<Rightarrow> int \<Rightarrow> (bool \<times> 's) option"
  assumes ins_law: "inv s \<Longrightarrow> inv (ins s r) \<and> old (ins s r) = old s \<and> new (ins s r) = insert r (new s)
      \<and> batch (ins s r) = batch s \<and> used (ins s r) \<le> Suc (used s)"
    and tst_law: "inv s \<Longrightarrow> used s < limit \<Longrightarrow> \<exists>s'. tst s b r = Some (r \<in> old s', s') \<and> inv s' \<and> batch s' = b \<and> used s' \<le> used s
      \<and> old s' = old s \<union> (if b \<noteq> batch s then new s else {}) \<and> new s' = (if b \<noteq> batch s then {} else new s)"
begin

lemma run_spec:
  "inv s \<Longrightarrow> used s + length ops < limit \<Longrightarrow> batch_run ins tst ops s = Some (batch_spec ops (old s) (new s) (batch s))"
proof (induction ops arbitrary: s)
  case (Cons op ops)
  show ?case
  proof (cases op)
    case (Ins r)
    then show ?thesis using Cons.IH [of "ins s r"] ins_law [OF Cons.prems(1), of r] Cons.prems(2) by simp
  next
    case (Tst b r)
    have "used s < limit" using Cons.prems(2) by simp
    from tst_law [OF Cons.prems(1) this, of b r] obtain s' where s': "tst s b r = Some (r \<in> old s', s')" "inv s'" "batch s' = b"
      "used s' \<le> used s" "old s' = old s \<union> (if b \<noteq> batch s then new s else {})" "new s' = (if b \<noteq> batch s then {} else new s)" by blast
    then show ?thesis using Tst Cons.IH [of s'] Cons.prems(2) by auto
  qed
qed simp

end

interpretation rs: batch_set row_ok "\<lambda>p. forest_set (rs_pForest p)" "\<lambda>p. set (rs_pEntry p)" rs_iBatch "\<lambda>p. length (rs_pEntry p)" "2 ^ 40"
  "sqlite3RowSetInsert True" "sqlite3RowSetTest True"
proof
  fix p b r assume ok: "row_ok p"
  show "row_ok (sqlite3RowSetInsert True p r) \<and> forest_set (rs_pForest (sqlite3RowSetInsert True p r)) = forest_set (rs_pForest p)
    \<and> set (rs_pEntry (sqlite3RowSetInsert True p r)) = insert r (set (rs_pEntry p))
    \<and> rs_iBatch (sqlite3RowSetInsert True p r) = rs_iBatch p
    \<and> length (rs_pEntry (sqlite3RowSetInsert True p r)) \<le> Suc (length (rs_pEntry p))"
    using insert_ok [OF ok] by simp
  assume "length (rs_pEntry p) < 2 ^ 40"
  from test_ok [OF ok this, of b r]
  show "\<exists>s'. sqlite3RowSetTest True p b r = Some (r \<in> forest_set (rs_pForest s'), s') \<and> row_ok s' \<and> rs_iBatch s' = b
    \<and> length (rs_pEntry s') \<le> length (rs_pEntry p)
    \<and> forest_set (rs_pForest s') = forest_set (rs_pForest p) \<union> (if b \<noteq> rs_iBatch p then set (rs_pEntry p) else {})
    \<and> set (rs_pEntry s') = (if b \<noteq> rs_iBatch p then {} else set (rs_pEntry p))" by auto
qed

subsection \<open>Emptying the set in order\<close>

text \<open>\<open>n\<close> calls of \<open>sqlite3RowSetNext\<close>.\<close>

fun next_run :: "nat \<Rightarrow> row_set \<Rightarrow> int option list option" where
  "next_run 0 p = Some []"
| "next_run (Suc n) p = Option.bind (sqlite3RowSetNext p) (\<lambda>(r, p'). map_option (\<lambda>rs. r # rs) (next_run n p'))"

definition ready :: "row_set \<Rightarrow> bool" where
  "ready p \<longleftrightarrow> rs_next p \<or> rs_sorted p"

lemma next_ready:
  assumes "ready p"
  shows "\<exists>p'. sqlite3RowSetNext p = Some (if rs_pEntry p = [] then None else Some (hd (rs_pEntry p)), p')
    \<and> ready p' \<and> rs_pEntry p' = tl (rs_pEntry p)"
  using assms by (cases "rs_pEntry p") (auto simp: sqlite3RowSetNext_def ready_def sqlite3RowSetClear_def)

lemma next_run_ready:
  "ready p \<Longrightarrow> next_run n p = Some (map (\<lambda>i. if i < length (rs_pEntry p) then Some (rs_pEntry p ! i) else None) [0..<n])"
proof (induction n arbitrary: p)
  case (Suc n)
  let ?xs = "rs_pEntry p"
  let ?f = "\<lambda>xs i. if i < length xs then Some (xs ! i) else None :: int option"
  obtain p' where p': "sqlite3RowSetNext p = Some (if ?xs = [] then None else Some (hd ?xs), p')" "ready p'" "rs_pEntry p' = tl ?xs"
    using next_ready [OF Suc.prems] by blast
  have "next_run (Suc n) p = Some (?f ?xs 0 # map (?f (tl ?xs)) [0..<n])" using p' Suc.IH [OF p'(2)] by (cases ?xs) simp_all
  also have "?f ?xs 0 # map (?f (tl ?xs)) [0..<n] = map (?f ?xs) [0..<Suc n]"
    by (cases ?xs) (simp_all add: map_upt_Suc del: upt_Suc)
  finally show ?case .
qed simp

lemma next_sorts:
  assumes "row_ok p" "length (rs_pEntry p) < 2 ^ 40" "\<not> rs_next p"
  shows "next_run n p = next_run n (p\<lparr>rs_pEntry := sorted_list_of_set (set (rs_pEntry p)), rs_sorted := True\<rparr>)"
proof -
  have "sqlite3RowSetNext p = sqlite3RowSetNext (p\<lparr>rs_pEntry := sorted_list_of_set (set (rs_pEntry p)), rs_sorted := True\<rparr>)"
    unfolding sqlite3RowSetNext_def sorted_entries [OF assms(1,2)] using assms(3) by simp
  then show ?thesis by (cases n) simp_all
qed

lemma inserts_ok:
  "row_ok p \<Longrightarrow> row_ok (foldl (sqlite3RowSetInsert True) p xs) \<and> rs_pEntry (foldl (sqlite3RowSetInsert True) p xs) = rs_pEntry p @ xs
     \<and> rs_next (foldl (sqlite3RowSetInsert True) p xs) = rs_next p"
  by (induction xs arbitrary: p) (simp_all add: insert_ok)

section \<open>Properties\<close>

text \<open>C27. After the rows \<open>xs\<close> (fewer than \<open>2 ^ 40\<close>, the capacity of the sort) are inserted in any order, the successive calls of
  \<open>sqlite3RowSetNext\<close> return each of them once, in increasing order, and then report that the set is empty.\<close>

theorem rowset_next_in_order:
  assumes "length xs < 2 ^ 40"
  shows "next_run n (foldl (sqlite3RowSetInsert True) (sqlite3RowSetInit N) xs)
    = Some (map (\<lambda>i. if i < card (set xs) then Some (sorted_list_of_set (set xs) ! i) else None) [0..<n])"
proof -
  let ?p = "foldl (sqlite3RowSetInsert True) (sqlite3RowSetInit N) xs"
  let ?q = "?p\<lparr>rs_pEntry := sorted_list_of_set (set xs), rs_sorted := True\<rparr>"
  have p: "row_ok ?p" "rs_pEntry ?p = xs" "\<not> rs_next ?p"
    using inserts_ok [OF init_ok, of N xs] by (simp_all add: sqlite3RowSetInit_def)
  then have "next_run n ?p = next_run n ?q" using next_sorts [of ?p] assms by simp
  also have "\<dots> = Some (map (\<lambda>i. if i < card (set xs) then Some (sorted_list_of_set (set xs) ! i) else None) [0..<n])"
    using next_run_ready [of ?q n] by (simp add: ready_def)
  finally show ?thesis .
qed

theorem rowset_next_in_order_witness:
  "next_run 3 (foldl (sqlite3RowSetInsert True) (sqlite3RowSetInit 56) [7, -2, 7]) = Some [Some (- 2), Some 7, None]"
proof -
  have s: "sorted_list_of_set (set [7, -2, 7]) = [-2, 7 :: int]"
    unfolding sorted_list_of_set_sort_remdups by simp
  have "card (set [7, -2, 7 :: int]) = 2" unfolding length_remdups_card_conv [symmetric] by simp
  with rowset_next_in_order [of "[7, -2, 7]" 3 56] show ?thesis unfolding s by (simp add: upt_rec del: next_run.simps list.set)
qed

text \<open>C28. In every history of insertions and tests of fewer than \<open>2 ^ 40\<close> operations, with memory available, \<open>sqlite3RowSetTest\<close> answers
  whether the row was inserted in a batch that ended before the test: the forest of trees, however it was merged, is the set of those rows.\<close>

theorem rowset_test_refines:
  assumes "length ops < 2 ^ 40"
  shows "batch_run (sqlite3RowSetInsert True) (sqlite3RowSetTest True) ops (sqlite3RowSetInit N) = Some (batch_spec ops {} {} 0)"
  using rs.run_spec [OF init_ok, of N ops] assms by (simp add: sqlite3RowSetInit_def)

theorem rowset_test_refines_witness:
  "batch_run (sqlite3RowSetInsert True) (sqlite3RowSetTest True) [Ins 5, Tst 0 5, Tst 1 5] (sqlite3RowSetInit 56) = Some [False, True]"
  using rowset_test_refines [of "[Ins 5, Tst 0 5, Tst 1 5]" 56] by (simp del: batch_run.simps)

text \<open>If the entry for a new tree cannot be allocated while \<open>sqlite3RowSetTest\<close> merges a full forest, the rows of all earlier batches
  are gone: the test and every later test of that batch answer 0 for every row. Only the flag \<open>mallocFailed\<close> tells.\<close>

theorem rowset_oom_forgets:
  assumes "row_ok p" "length (rs_pEntry p) < 2 ^ 40" "rs_pEntry p \<noteq> []" "b \<noteq> rs_iBatch p"
    and "rs_nFresh p = 0" "Null \<notin> set (rs_pForest p)"
  shows "\<exists>p'. sqlite3RowSetTest False p b r = Some (False, p') \<and> rs_mallocFailed p'
    \<and> (\<forall>r'. sqlite3RowSetTest False p' b r' = Some (False, p'))"
proof -
  have full: "Null \<notin> set ts \<Longrightarrow> \<exists>ys. forest_put ts xs = (replicate (length ts) Null, Some ys)" for ts xs
  proof (induction ts arbitrary: xs)
    case (Cons t ts)
    from Cons.IH [of "rowSetEntryMerge (rowSetTreeToList t) xs"] Cons.prems show ?case by auto
  qed simp
  let ?xs = "sorted_list_of_set (set (rs_pEntry p))"
  obtain ys where "forest_put (rs_pForest p) ?xs = (replicate (length (rs_pForest p)) Null, Some ys)" using full assms(6) by blast
  then have fb: "rs_pForest (forest_batch False p ?xs) = replicate (length (rs_pForest p)) Null" "rs_mallocFailed (forest_batch False p ?xs)"
    using assms(5) by (simp_all add: forest_batch_def rowSetEntryAlloc_def Let_def)
  let ?p = "forest_batch False p ?xs\<lparr>rs_iBatch := b\<rparr>"
  have "sqlite3RowSetTest False p b r = Some (False, ?p)"
    unfolding sqlite3RowSetTest_def sorted_entries [OF assms(1,2)] using assms(3,4) fb by simp
  moreover have "sqlite3RowSetTest False ?p b r' = Some (False, ?p)" for r' using fb by (simp add: sqlite3RowSetTest_def)
  ultimately show ?thesis using fb by auto
qed

theorem rowset_oom_forgets_witness:
  "\<exists>p'. sqlite3RowSetTest False (sqlite3RowSetInit 80\<lparr>rs_pEntry := [5], rs_nFresh := 0\<rparr>) 1 5 = Some (False, p') \<and> rs_mallocFailed p'"
  using rowset_oom_forgets [of "sqlite3RowSetInit 80\<lparr>rs_pEntry := [5], rs_nFresh := 0\<rparr>" 1 5]
  by (auto simp: sqlite3RowSetInit_def row_ok_def)

text \<open>The search tree built from a list has the list as its in-order traversal and logarithmic height:
  \<open>2 ^ (height - 1)\<close> is at most the number of entries.\<close>

theorem rowset_tree_balanced:
  assumes "xs \<noteq> []"
  shows "rowSetTreeToList (rowSetListToTree xs) = xs \<and> 2 ^ (rs_height (rowSetListToTree xs) - 1) \<le> length xs"
  using listToTree_height [OF assms] by simp

theorem rowset_tree_balanced_witness: "2 ^ (rs_height (rowSetListToTree [1, 2, 3, 4, 5]) - 1) \<le> (5 :: nat)"
  using rowset_tree_balanced [of "[1, 2, 3, 4, 5]"] by simp

end
