(* ===== verification/Ring_Table.thy ===== *)
theory Ring_Table
  imports Main
begin

text \<open>
  Tables with open addressing: a search starts at a home slot and goes from slot to slot around the table. \<open>ring n h t\<close> is the slot that is
  reached from \<open>h\<close> after \<open>t\<close> steps in a table of \<open>n\<close> slots. The hash tables of bit vectors and of the write-ahead log are of this kind.
\<close>

definition ring :: "nat \<Rightarrow> nat \<Rightarrow> nat \<Rightarrow> nat" where
  "ring n h t = (h + t) mod n"

lemma ring_less [simp]: "0 < n \<Longrightarrow> ring n h t < n"
  by (simp add: ring_def)

lemma ring_0: "ring n h 0 = h mod n"
  by (simp add: ring_def)

lemma ring_step: "(ring n h t + 1) mod n = ring n h (t + 1)"
  by (simp add: ring_def mod_simps)

lemma ring_surj:
  assumes "j < n"
  shows "\<exists>u < n. ring n h u = j"
proof (intro exI conjI)
  have "h mod n \<le> n" using assms by (simp add: less_imp_le)
  then have "h mod n + (j + (n - h mod n)) = j + n" by linarith
  then have "(h mod n + (j + (n - h mod n))) mod n = j" using assms by simp
  then have "(h + (j + (n - h mod n)) mod n) mod n = j" by (metis mod_add_eq mod_mod_trivial)
  then show "ring n h ((j + (n - h mod n)) mod n) = j" by (simp only: ring_def)
  show "(j + (n - h mod n)) mod n < n" using assms by simp
qed

lemma ring_inj:
  assumes "ring n h t = ring n h u" "t < n" "u < n"
  shows "t = u"
proof -
  have le: "a = b" if "a \<le> b" "b < n" "ring n h a = ring n h b" for a b
  proof -
    have "(h + b) mod n = (h + a) mod n" using that(3) by (simp add: ring_def)
    then have "n dvd (h + b) - (h + a)" using that(1) by (simp add: mod_eq_dvd_iff_nat)
    then have "n dvd b - a" by simp
    then show ?thesis using that(1,2) by (auto dest: dvd_imp_le)
  qed
  show ?thesis using le [of t u] le [of u t] assms by (cases "t \<le> u") simp_all
qed

end
