(* ===== verification/Bit_Vec.thy ===== *)
theory Bit_Vec
  imports Sc_Prelude Ring_Table
begin

text \<open>
  The bit vectors of \<open>src/bitvec.c\<close>, with which the pager remembers sets of pages. A vector is a bitmap, a hash table with
  open addressing, or an array of sub-vectors, and changes from the second form to the third when the table fills up.

  The union of the C structure is a datatype; its form is a function of \<open>iSize\<close> and \<open>iDivisor\<close> there, and a constructor here. The
  constants are those of a 64-bit build. \<open>ok k\<close> says whether the \<open>k\<close>-th allocation succeeds, and the counter is passed along.
  Internal indexes start at 0, as they do after the \<open>i--\<close> of the code. The recursion of \<open>sqlite3BitvecSet\<close> into sub-vectors
  goes down five levels at most (\<open>3968 * 62 ^ 4\<close> exceeds every 32-bit size); \<open>bv_set\<close> counts them.
\<close>

section \<open>Definitions\<close>

abbreviation (input) BITVEC_NELEM :: nat where "BITVEC_NELEM \<equiv> 496"
abbreviation (input) BITVEC_NBIT :: nat where "BITVEC_NBIT \<equiv> 3968"
abbreviation (input) BITVEC_NINT :: nat where "BITVEC_NINT \<equiv> 124"
abbreviation (input) BITVEC_MXHASH :: nat where "BITVEC_MXHASH \<equiv> 62"
abbreviation (input) BITVEC_NPTR :: nat where "BITVEC_NPTR \<equiv> 62"

datatype bitvec =
    Bv_map (iSize: nat) "byte list"
  | Bv_hash (iSize: nat) nat "nat list"
  | Bv_sub (iSize: nat) nat nat "bitvec option list"

definition sqlite3BitvecCreate :: "nat \<Rightarrow> bitvec" where
  "sqlite3BitvecCreate n =
     (if n \<le> BITVEC_NBIT then Bv_map n (replicate BITVEC_NELEM 0) else Bv_hash n 0 (replicate BITVEC_NINT 0))"

text \<open>The sub-vector of an index; the array bound is kept by the invariant.\<close>

definition sub_at :: "bitvec option list \<Rightarrow> nat \<Rightarrow> bitvec option" where
  "sub_at apSub bin = (if bin < length apSub then apSub ! bin else None)"

lemma sub_at_size [termination_simp]: "sub_at apSub bin = Some c \<Longrightarrow> size c < Suc (size_list (size_option size) apSub)"
proof -
  assume "sub_at apSub bin = Some c"
  then have "Some c \<in> set apSub" by (auto simp: sub_at_def split: if_splits) (metis nth_mem)
  from size_list_estimation [OF this, of "size c" "size_option size"] show ?thesis by simp
qed

text \<open>The search of the table: \<open>Some None\<close> if the value is found, the free slot if it is not, and None if the loop would not end.\<close>

fun bv_probe :: "nat list \<Rightarrow> nat \<Rightarrow> nat \<Rightarrow> nat \<Rightarrow> nat option option" where
  "bv_probe aHash h i 0 = None"
| "bv_probe aHash h i (Suc n) =
     (if aHash ! h = 0 then Some (Some h) else if aHash ! h = i then Some None
      else bv_probe aHash ((h + 1) mod BITVEC_NINT) i n)"

fun bv_test :: "bitvec \<Rightarrow> nat \<Rightarrow> bool option" where
  "bv_test (Bv_sub s n iDivisor apSub) i =
     (case sub_at apSub (i div iDivisor) of None \<Rightarrow> Some False | Some p \<Rightarrow> bv_test p (i mod iDivisor))"
| "bv_test (Bv_map s aBitmap) i = Some (aBitmap ! (i div 8) AND push_bit (i mod 8) 1 \<noteq> 0)"
| "bv_test (Bv_hash s n aHash) i = map_option (\<lambda>r. r = None) (bv_probe aHash (i mod BITVEC_NINT) (i + 1) BITVEC_NINT)"

definition sqlite3BitvecTestNotNull :: "bitvec \<Rightarrow> nat \<Rightarrow> bool option" where
  "sqlite3BitvecTestNotNull p i =
     (let i = (if i = 0 then 2 ^ 32 - 1 else i - 1) in if iSize p \<le> i then Some False else bv_test p i)"

definition sqlite3BitvecTest :: "bitvec option \<Rightarrow> nat \<Rightarrow> bool option" where
  "sqlite3BitvecTest p i = (case p of None \<Rightarrow> Some False | Some p \<Rightarrow> sqlite3BitvecTestNotNull p i)"

definition bv_divisor :: "nat \<Rightarrow> nat" where
  "bv_divisor s =
     (let d = s div BITVEC_NPTR; d = (if s mod BITVEC_NPTR \<noteq> 0 then d + 1 else d) in if d < BITVEC_NBIT then BITVEC_NBIT else d)"

type_synonym bv_setter = "(nat \<Rightarrow> bool) \<Rightarrow> nat \<Rightarrow> bitvec \<Rightarrow> nat \<Rightarrow> (int \<times> bitvec \<times> nat) option"

definition sub_set :: "bv_setter \<Rightarrow> (nat \<Rightarrow> bool) \<Rightarrow> nat \<Rightarrow> nat \<Rightarrow> bitvec option list \<Rightarrow> nat
    \<Rightarrow> (int \<times> bitvec option list \<times> nat) option" where
  "sub_set rset ok k iDivisor apSub i =
     (let bin = i div iDivisor
      in case sub_at apSub bin of
           None \<Rightarrow>
             if ok k
             then map_option (\<lambda>(rc, p, k). (rc, apSub[bin := Some p], k)) (rset ok (k + 1) (sqlite3BitvecCreate iDivisor) (i mod iDivisor))
             else Some (SQLITE_NOMEM, apSub, k + 1)
         | Some p \<Rightarrow> map_option (\<lambda>(rc, p, k). (rc, apSub[bin := Some p], k)) (rset ok k p (i mod iDivisor)))"

fun sub_sets :: "bv_setter \<Rightarrow> (nat \<Rightarrow> bool) \<Rightarrow> nat \<Rightarrow> nat \<Rightarrow> bitvec option list \<Rightarrow> nat list
    \<Rightarrow> (int \<times> bitvec option list \<times> nat) option" where
  "sub_sets rset ok k iDivisor apSub [] = Some (SQLITE_OK, apSub, k)"
| "sub_sets rset ok k iDivisor apSub (i # is) =
     Option.bind (sub_set rset ok k iDivisor apSub i) (\<lambda>(rc, apSub, k).
       map_option (\<lambda>(rc', apSub, k). (rc OR rc', apSub, k)) (sub_sets rset ok k iDivisor apSub is))"

definition hash_values :: "nat list \<Rightarrow> nat list" where
  "hash_values aHash = map (\<lambda>v. v - 1) (filter (\<lambda>v. v \<noteq> 0) aHash)"

definition bv_rehash :: "bv_setter \<Rightarrow> (nat \<Rightarrow> bool) \<Rightarrow> nat \<Rightarrow> nat \<Rightarrow> nat \<Rightarrow> nat list \<Rightarrow> nat \<Rightarrow> nat \<Rightarrow> (int \<times> bitvec \<times> nat) option" where
  "bv_rehash rset ok k s n aHash h i =
     (if BITVEC_MXHASH \<le> n
      then if ok k
           then map_option (\<lambda>(rc, apSub, k). (rc, Bv_sub s n (bv_divisor s) apSub, k))
                  (sub_sets rset ok (k + 1) (bv_divisor s) (replicate BITVEC_NPTR None) (i # hash_values aHash))
           else Some (SQLITE_NOMEM, Bv_hash s n aHash, k + 1)
      else Some (SQLITE_OK, Bv_hash s (n + 1) (aHash[h := i + 1]), k))"

primrec bv_set :: "nat \<Rightarrow> bv_setter" where
  "bv_set 0 = (\<lambda>ok k p i. None)"
| "bv_set (Suc level) = (\<lambda>ok k p i.
     case p of
       Bv_sub s n iDivisor apSub \<Rightarrow>
         map_option (\<lambda>(rc, apSub, k). (rc, Bv_sub s n iDivisor apSub, k)) (sub_set (bv_set level) ok k iDivisor apSub i)
     | Bv_map s aBitmap \<Rightarrow> Some (SQLITE_OK, Bv_map s (aBitmap[i div 8 := aBitmap ! (i div 8) OR push_bit (i mod 8) 1]), k)
     | Bv_hash s n aHash \<Rightarrow>
         let h = i mod BITVEC_NINT
         in if aHash ! h = 0
            then if n < BITVEC_NINT - 1 then Some (SQLITE_OK, Bv_hash s (n + 1) (aHash[h := i + 1]), k)
                 else bv_rehash (bv_set level) ok k s n aHash h i
            else (case bv_probe aHash h (i + 1) BITVEC_NINT of
                    None \<Rightarrow> None
                  | Some None \<Rightarrow> Some (SQLITE_OK, p, k)
                  | Some (Some h) \<Rightarrow> bv_rehash (bv_set level) ok k s n aHash h i))"

definition sqlite3BitvecSet :: "(nat \<Rightarrow> bool) \<Rightarrow> bitvec \<Rightarrow> nat \<Rightarrow> (int \<times> bitvec) option" where
  "sqlite3BitvecSet ok p i = map_option (\<lambda>(rc, p, k). (rc, p)) (bv_set 5 ok 0 p (i - 1))"

text \<open>Clearing a bit of a hash table builds the table anew.\<close>

fun bv_refill :: "nat list \<Rightarrow> nat list \<Rightarrow> nat list option" where
  "bv_refill [] aHash = Some aHash"
| "bv_refill (v # vs) aHash =
     (case bv_probe aHash ((v - 1) mod BITVEC_NINT) 0 BITVEC_NINT of
        Some (Some h) \<Rightarrow> bv_refill vs (aHash[h := v])
      | _ \<Rightarrow> None)"

fun bv_clear :: "bitvec \<Rightarrow> nat \<Rightarrow> bitvec option" where
  "bv_clear (Bv_sub s n iDivisor apSub) i =
     (let bin = i div iDivisor
      in case sub_at apSub bin of
           None \<Rightarrow> Some (Bv_sub s n iDivisor apSub)
         | Some p \<Rightarrow> map_option (\<lambda>p. Bv_sub s n iDivisor (apSub[bin := Some p])) (bv_clear p (i mod iDivisor)))"
| "bv_clear (Bv_map s aBitmap) i = Some (Bv_map s (aBitmap[i div 8 := aBitmap ! (i div 8) AND NOT (push_bit (i mod 8) 1)]))"
| "bv_clear (Bv_hash s n aHash) i =
     (let vs = filter (\<lambda>v. v \<noteq> 0 \<and> v \<noteq> i + 1) aHash
      in map_option (Bv_hash s (length vs)) (bv_refill vs (replicate BITVEC_NINT 0)))"

definition sqlite3BitvecClear :: "bitvec \<Rightarrow> nat \<Rightarrow> bitvec option" where
  "sqlite3BitvecClear p i = bv_clear p (i - 1)"

section \<open>Lemmas\<close>

subsection \<open>The hash table\<close>

abbreviation slot :: "nat \<Rightarrow> nat \<Rightarrow> nat" where "slot \<equiv> ring 124"

lemmas slot_next = ring_step [of 124]
lemmas slot_surj = ring_surj [where n = 124]

lemma probe_free:
  "bv_probe A (slot h t) v m = Some (Some j) \<Longrightarrow>
     \<exists>u < m. j = slot h (t + u) \<and> A ! j = 0 \<and> (\<forall>u' < u. A ! slot h (t + u') \<noteq> 0 \<and> A ! slot h (t + u') \<noteq> v)"
proof (induction m arbitrary: t)
  case (Suc m)
  show ?case
  proof (cases "A ! slot h t = 0 \<or> A ! slot h t = v")
    case True
    then show ?thesis using Suc.prems by (intro exI [of _ 0]) (auto split: if_splits)
  next
    case False
    then have "bv_probe A (slot h (t + 1)) v m = Some (Some j)" using Suc.prems by (simp add: slot_next [simplified])
    from Suc.IH [OF this] obtain u where u: "u < m" "j = slot h (t + 1 + u)" "A ! j = 0"
      "\<forall>u' < u. A ! slot h (t + 1 + u') \<noteq> 0 \<and> A ! slot h (t + 1 + u') \<noteq> v" by blast
    have "A ! slot h (t + u') \<noteq> 0 \<and> A ! slot h (t + u') \<noteq> v" if "u' < Suc u" for u'
      using u(4) False that by (cases u') auto
    then show ?thesis using u(1-3) by (intro exI [of _ "Suc u"]) simp
  qed
qed simp

lemma probe_found: "bv_probe A (slot h t) v m = Some None \<Longrightarrow> length A = 124 \<Longrightarrow> v \<in> set A \<and> v \<noteq> 0"
proof (induction m arbitrary: t)
  case (Suc m)
  show ?case
  proof (cases "A ! slot h t = 0 \<or> A ! slot h t = v")
    case True
    then show ?thesis using Suc.prems nth_mem [of "slot h t" A] by (auto split: if_splits)
  next
    case False
    then have "bv_probe A (slot h (t + 1)) v m = Some None" using Suc.prems(1) by (simp add: slot_next [simplified])
    from Suc.IH [OF this Suc.prems(2)] show ?thesis .
  qed
qed simp

lemma probe_endless: "bv_probe A (slot h t) v m = None \<Longrightarrow> u < m \<Longrightarrow> A ! slot h (t + u) \<noteq> 0"
proof (induction m arbitrary: t u)
  case (Suc m)
  then have h: "A ! slot h t \<noteq> 0" "bv_probe A (slot h (t + 1)) v m = None" by (auto simp: slot_next [simplified] split: if_splits)
  show ?case using Suc.IH [OF h(2), of "u - 1"] Suc.prems(2) h(1) by (cases u) auto
qed simp

text \<open>Every value of a table is reached from its home slot over occupied slots.\<close>

definition reach :: "nat list \<Rightarrow> nat \<Rightarrow> nat \<Rightarrow> bool" where
  "reach A v t \<longleftrightarrow> A ! slot (v - 1) t = v \<and> (\<forall>t' < t. A ! slot (v - 1) t' \<noteq> 0)"

definition tab_ok :: "nat list \<Rightarrow> bool" where
  "tab_ok A \<longleftrightarrow> length A = 124 \<and> (\<forall>v \<in> set A. v \<noteq> 0 \<longrightarrow> (\<exists>t. reach A v t)) \<and> distinct (filter (\<lambda>v. v \<noteq> 0) A)"

lemma probe_table:
  assumes "tab_ok A" "0 \<in> set A" "v \<noteq> 0"
  shows "bv_probe A ((v - 1) mod 124) v 124 = Some None \<longleftrightarrow> v \<in> set A"
    and "v \<notin> set A \<Longrightarrow> \<exists>j u. bv_probe A ((v - 1) mod 124) v 124 = Some (Some j) \<and> j = slot (v - 1) u \<and> A ! j = 0
      \<and> (\<forall>u' < u. A ! slot (v - 1) u' \<noteq> 0)"
proof -
  let ?r = "bv_probe A ((v - 1) mod 124) v 124"
  have len: "length A = 124" using assms(1) by (simp add: tab_ok_def)
  have s0: "(v - 1) mod 124 = slot (v - 1) 0" by (simp add: ring_0)
  obtain j where j: "j < 124" "A ! j = 0" using assms(2) len by (metis in_set_conv_nth)
  obtain w where w: "w < 124" "slot (v - 1) w = j" using slot_surj [OF j(1)] by blast
  have ne: "?r \<noteq> None" using probe_endless [of A "v - 1" 0 v 124 w] w j(2) s0 by auto
  have free: "\<exists>u. j = slot (v - 1) u \<and> A ! j = 0 \<and> (\<forall>u' < u. A ! slot (v - 1) u' \<noteq> 0 \<and> A ! slot (v - 1) u' \<noteq> v)"
    if "?r = Some (Some j)" for j
    using probe_free [of A "v - 1" 0 v 124 j] that s0 by auto
  have no: "v \<notin> set A" if fr: "?r = Some (Some j)" for j
  proof
    assume "v \<in> set A"
    then obtain t where t: "reach A v t" using assms(1,3) by (auto simp: tab_ok_def)
    obtain u where u: "A ! slot (v - 1) u = 0" "\<forall>u' < u. A ! slot (v - 1) u' \<noteq> 0 \<and> A ! slot (v - 1) u' \<noteq> v"
      using free [OF fr] by auto
    show False using t u assms(3) by (cases t u rule: linorder_cases) (auto simp: reach_def)
  qed
  have yes: "v \<in> set A" if "?r = Some None" using probe_found [of A "v - 1" 0 v 124] that s0 len by simp
  consider "?r = Some None" | j where "?r = Some (Some j)" using ne by (cases ?r) auto
  note cases_r = this
  show "?r = Some None \<longleftrightarrow> v \<in> set A" by (rule cases_r) (use yes no in auto)
  show "\<exists>j u. ?r = Some (Some j) \<and> j = slot (v - 1) u \<and> A ! j = 0 \<and> (\<forall>u' < u. A ! slot (v - 1) u' \<noteq> 0)" if "v \<notin> set A"
    by (rule cases_r) (use yes free that in blast)+
qed

definition nonzero :: "nat list \<Rightarrow> nat list" where
  "nonzero A = filter (\<lambda>v. v \<noteq> 0) A"

lemma nonzero_update:
  assumes "j < length A" "A ! j = 0" "v \<noteq> 0"
  shows "\<exists>xs ys. nonzero A = xs @ ys \<and> nonzero (A[j := v]) = xs @ v # ys"
proof (intro exI conjI)
  have "nonzero (take j A @ A ! j # drop (Suc j) A) = nonzero (take j A) @ nonzero (drop (Suc j) A)" using assms by (simp add: nonzero_def)
  then show "nonzero A = nonzero (take j A) @ nonzero (drop (Suc j) A)" using id_take_nth_drop [OF assms(1)] by simp
  show "nonzero (A[j := v]) = nonzero (take j A) @ v # nonzero (drop (Suc j) A)"
    using assms by (simp add: upd_conv_take_nth_drop nonzero_def)
qed

lemma tab_insert:
  assumes ok: "tab_ok A" and j: "j = slot (v - 1) u" "A ! j = 0" "\<forall>u' < u. A ! slot (v - 1) u' \<noteq> 0" and v: "v \<noteq> 0" "v \<notin> set A"
  shows "tab_ok (A[j := v])" "\<And>w. w \<noteq> 0 \<Longrightarrow> w \<in> set (A[j := v]) \<longleftrightarrow> w = v \<or> w \<in> set A"
    "length (nonzero (A[j := v])) = Suc (length (nonzero A))"
proof -
  have len: "length A = 124" "j < length A" using ok j(1) by (simp_all add: tab_ok_def)
  obtain xs ys where n: "nonzero A = xs @ ys" "nonzero (A[j := v]) = xs @ v # ys" using nonzero_update [OF len(2) j(2) v(1)] by blast
  show set: "w \<in> set (A[j := v]) \<longleftrightarrow> w = v \<or> w \<in> set A" if "w \<noteq> 0" for w
  proof -
    have "w \<in> set (nonzero (A[j := v])) \<longleftrightarrow> w = v \<or> w \<in> set (nonzero A)" unfolding n by auto
    then show ?thesis using that v(1) by (auto simp: nonzero_def)
  qed
  show "length (nonzero (A[j := v])) = Suc (length (nonzero A))" unfolding n by simp
  have keep: "(A[j := v]) ! k \<noteq> 0" if "A ! k \<noteq> 0" "k < 124" for k using that len v(1) by (cases "k = j") simp_all
  have "\<exists>t. reach (A[j := v]) w t" if w: "w \<in> set (A[j := v])" "w \<noteq> 0" for w
  proof (cases "w = v")
    case True
    then show ?thesis using j len keep by (intro exI [of _ u]) (simp add: reach_def)
  next
    case False
    then have "w \<in> set A" using set w by blast
    then obtain t where t: "reach A w t" using ok w(2) by (auto simp: tab_ok_def)
    then have "slot (w - 1) t \<noteq> j" using j(2) w(2) by (auto simp: reach_def)
    then show ?thesis using t keep by (intro exI [of _ t]) (simp add: reach_def)
  qed
  moreover have "distinct (nonzero (A[j := v]))"
  proof -
    have "distinct (xs @ ys)" using ok n(1) by (simp add: tab_ok_def nonzero_def)
    moreover have "v \<notin> set (xs @ ys)" using v(2) unfolding n(1) [symmetric] by (simp add: nonzero_def)
    ultimately show ?thesis unfolding n(2) by auto
  qed
  ultimately show "tab_ok (A[j := v])" using len by (auto simp: tab_ok_def nonzero_def)
qed

subsection \<open>The invariant and the meaning of a vector\<close>

lemma sub_elem_size [termination_simp]: "Some c \<in> set apSub \<Longrightarrow> size c < Suc (size_list (size_option size) apSub)"
  using size_list_estimation [of "Some c" apSub "size c" "size_option size"] by simp

fun bv_ok :: "bitvec \<Rightarrow> bool" where
  "bv_ok (Bv_map s A) \<longleftrightarrow> s \<le> 3968 \<and> length A = 496"
| "bv_ok (Bv_hash s n A) \<longleftrightarrow> 3968 < s \<and> tab_ok A \<and> n = length (nonzero A) \<and> n < 124 \<and> (\<forall>v \<in> set A. v \<le> s)"
| "bv_ok (Bv_sub s n d cs) \<longleftrightarrow> 3968 < s \<and> d = bv_divisor s \<and> length cs = 62
     \<and> (\<forall>c \<in> set cs. case c of None \<Rightarrow> True | Some p \<Rightarrow> iSize p = d \<and> bv_ok p)"

fun bv_mem :: "bitvec \<Rightarrow> nat \<Rightarrow> bool" where
  "bv_mem (Bv_map s A) i \<longleftrightarrow> bit (A ! (i div 8)) (i mod 8)"
| "bv_mem (Bv_hash s n A) i \<longleftrightarrow> Suc i \<in> set A"
| "bv_mem (Bv_sub s n d cs) i \<longleftrightarrow> (case sub_at cs (i div d) of None \<Rightarrow> False | Some p \<Rightarrow> bv_mem p (i mod d))"

lemma divisor_bounds:
  assumes "3968 < s"
  shows "bv_divisor s < s" "s \<le> 62 * bv_divisor s" "3968 \<le> bv_divisor s" "s \<le> 3968 * 62 ^ Suc l \<Longrightarrow> bv_divisor s \<le> 3968 * 62 ^ l"
proof -
  let ?e = "(if s mod 62 \<noteq> 0 then s div 62 + 1 else s div 62)"
  have d: "bv_divisor s = max ?e 3968" by (auto simp: bv_divisor_def Let_def)
  have e: "s \<le> 62 * ?e" "62 * ?e < s + 62" by (auto, presburger+)
  show "bv_divisor s < s" "s \<le> 62 * bv_divisor s" "3968 \<le> bv_divisor s" using d e assms by (auto simp: max_def)
  assume "s \<le> 3968 * 62 ^ Suc l"
  then have "62 * ?e < 62 * (3968 * 62 ^ l) + 62" using e(2) by simp
  then have "62 * ?e < 62 * (3968 * 62 ^ l + 1)" by (simp only: distrib_left mult_1_right)
  then have "?e < 3968 * 62 ^ l + 1" by (simp only: mult_less_cancel1)
  then have "?e \<le> 3968 * 62 ^ l" by (simp only: Suc_eq_plus1 [symmetric] less_Suc_eq_le)
  moreover have "(3968 :: nat) \<le> 3968 * 62 ^ l" by simp
  ultimately show "bv_divisor s \<le> 3968 * 62 ^ l" unfolding d by simp
qed

definition subs_ok :: "nat \<Rightarrow> bitvec option list \<Rightarrow> bool" where
  "subs_ok d cs \<longleftrightarrow> 3968 \<le> d \<and> length cs = 62 \<and> (\<forall>j p. sub_at cs j = Some p \<longrightarrow> iSize p = d \<and> bv_ok p)"

definition sub_mem :: "nat \<Rightarrow> bitvec option list \<Rightarrow> nat \<Rightarrow> bool" where
  "sub_mem d cs i \<longleftrightarrow> (case sub_at cs (i div d) of None \<Rightarrow> False | Some p \<Rightarrow> bv_mem p (i mod d))"

lemma bv_ok_sub: "bv_ok (Bv_sub s n d cs) \<longleftrightarrow> 3968 < s \<and> d = bv_divisor s \<and> subs_ok d cs"
proof -
  have "(\<forall>c \<in> set cs. case c of None \<Rightarrow> True | Some p \<Rightarrow> iSize p = d \<and> bv_ok p)
      \<longleftrightarrow> (\<forall>j p. sub_at cs j = Some p \<longrightarrow> iSize p = d \<and> bv_ok p)"
    (is "?l \<longleftrightarrow> ?r")
  proof
    show "?l \<Longrightarrow> ?r" by (auto simp: sub_at_def split: if_splits option.splits dest!: nth_mem)
    assume r: ?r
    show ?l
    proof
      fix c assume "c \<in> set cs"
      then obtain j where "j < length cs" "cs ! j = c" by (auto simp: in_set_conv_nth)
      then have "sub_at cs j = c" by (simp add: sub_at_def)
      then show "case c of None \<Rightarrow> True | Some p \<Rightarrow> iSize p = d \<and> bv_ok p" using r by (cases c) auto
    qed
  qed
  then show ?thesis using divisor_bounds(3) [of s] by (auto simp: subs_ok_def)
qed

declare bv_ok.simps(3) [simp del]

lemma bv_mem_sub [simp]: "bv_mem (Bv_sub s n d cs) i \<longleftrightarrow> sub_mem d cs i"
  by (simp add: sub_mem_def)

declare bv_mem.simps(3) [simp del]

lemma create_ok: "bv_ok (sqlite3BitvecCreate n)" "iSize (sqlite3BitvecCreate n) = n"
  by (simp_all add: sqlite3BitvecCreate_def tab_ok_def nonzero_def)

lemma create_mem: "i < n \<Longrightarrow> \<not> bv_mem (sqlite3BitvecCreate n) i"
  by (auto simp: sqlite3BitvecCreate_def)

subsection \<open>Testing\<close>

lemma free_slot: "length A = 124 \<Longrightarrow> length (nonzero A) < 124 \<Longrightarrow> 0 \<in> set A"
proof (rule ccontr)
  assume "length A = 124" "length (nonzero A) < 124" "0 \<notin> set A"
  then have "nonzero A = A" unfolding nonzero_def by (intro filter_True) (metis)
  then show False using \<open>length A = 124\<close> \<open>length (nonzero A) < 124\<close> by simp
qed

lemma bv_test_mem: "bv_ok p \<Longrightarrow> bv_test p i = Some (bv_mem p i)"
proof (induction p i rule: bv_test.induct)
  case (1 s n d cs i)
  show ?case
  proof (cases "sub_at cs (i div d)")
    case (Some c)
    then show ?thesis using 1 by (simp add: bv_ok_sub subs_ok_def sub_mem_def)
  qed (simp add: sub_mem_def)
next
  case (3 s n A i)
  then have "0 \<in> set A" "tab_ok A" by (auto simp: tab_ok_def intro: free_slot)
  note pt = probe_table [OF this(2,1), of "Suc i"]
  show ?case
  proof (cases "Suc i \<in> set A")
    case True
    then show ?thesis using pt(1) by simp
  next
    case False
    then show ?thesis using pt(2) by auto
  qed
qed (simp add: and_exp_eq_0_iff_not_bit)

subsection \<open>Setting\<close>

text \<open>What a call promises about the indexes below \<open>s\<close>: nothing is set but what was set before and \<open>is\<close>; with result 0, all of it is
  set; and the result is 0 if no allocation fails.\<close>

definition adds :: "(nat \<Rightarrow> bool) \<Rightarrow> nat \<Rightarrow> (nat \<Rightarrow> bool) \<Rightarrow> (nat \<Rightarrow> bool) \<Rightarrow> nat list \<Rightarrow> int \<Rightarrow> bool" where
  "adds ok s m m' is rc \<longleftrightarrow> (rc = 0 \<or> rc = 7) \<and> ((\<forall>n. ok n) \<longrightarrow> rc = 0)
     \<and> (\<forall>x < s. m' x \<longrightarrow> m x \<or> x \<in> set is) \<and> (rc = 0 \<longrightarrow> (\<forall>x < s. m x \<or> x \<in> set is \<longrightarrow> m' x))"

definition setter_ok :: "bv_setter \<Rightarrow> nat \<Rightarrow> bool" where
  "setter_ok rset N \<longleftrightarrow> (\<forall>ok k p i. bv_ok p \<longrightarrow> iSize p \<le> N \<longrightarrow> i < iSize p \<longrightarrow>
     (\<exists>rc p' k'. rset ok k p i = Some (rc, p', k') \<and> bv_ok p' \<and> iSize p' = iSize p \<and> adds ok (iSize p) (bv_mem p) (bv_mem p') [i] rc))"

lemma adds_refl: "adds ok s m m [] 0"
  by (simp add: adds_def)

lemma adds_trans: "adds ok s m m1 [i] rc \<Longrightarrow> adds ok s m1 m2 is rc' \<Longrightarrow> adds ok s m m2 (i # is) (rc OR rc')"
  unfolding adds_def by (elim conjE disjE) auto

lemma adds_cong:
  assumes "adds ok s m m' is rc" "s' \<le> s" "\<And>x. m x \<or> x \<in> set is \<longleftrightarrow> n x \<or> x \<in> set js"
  shows "adds ok s' n m' js rc"
  using assms unfolding adds_def by (meson less_le_trans)

lemma sub_at_update: "j < length cs \<Longrightarrow> sub_at (cs[j := Some p]) j' = (if j' = j then Some p else sub_at cs j')"
  by (simp add: sub_at_def nth_list_update)

lemma sub_update:
  assumes ok: "subs_ok d cs" and i: "i < 62 * d" and p: "bv_ok p" "iSize p = d"
    and q: "\<And>y. y < d \<Longrightarrow> q y \<longleftrightarrow> (case sub_at cs (i div d) of None \<Rightarrow> False | Some c \<Rightarrow> bv_mem c y)"
    and a: "adds al d q (bv_mem p) [i mod d] rc"
  shows "subs_ok d (cs[i div d := Some p])" "adds al (62 * d) (sub_mem d cs) (sub_mem d (cs[i div d := Some p])) [i] rc"
proof -
  have d: "0 < d" "length cs = 62" using ok by (auto simp: subs_ok_def)
  have bin: "i div d < length cs" using i d by (simp add: less_mult_imp_div_less)
  note at = sub_at_update [OF bin, of p]
  show "subs_ok d (cs[i div d := Some p])" using ok p by (simp add: subs_ok_def at)
  have m': "sub_mem d (cs[i div d := Some p]) x \<longleftrightarrow> (if x div d = i div d then bv_mem p (x mod d) else sub_mem d cs x)" for x
    by (simp add: sub_mem_def at)
  have m: "sub_mem d cs x \<longleftrightarrow> q (x mod d)" if "x div d = i div d" for x using q [of "x mod d"] d that by (simp add: sub_mem_def)
  have same: "x = i \<longleftrightarrow> x mod d = i mod d" if "x div d = i div d" for x using that by (metis div_mult_mod_eq)
  have lt: "x mod d < d" for x using d by simp
  have ne: "x div d = i div d \<Longrightarrow> x \<noteq> i \<Longrightarrow> x mod d \<noteq> i mod d" for x using same by blast
  show "adds al (62 * d) (sub_mem d cs) (sub_mem d (cs[i div d := Some p])) [i] rc"
    unfolding adds_def
  proof (intro conjI allI impI)
    show "rc = 0 \<or> rc = 7" "\<forall>n. al n \<Longrightarrow> rc = 0" using a by (simp_all add: adds_def)
    fix x assume "x < 62 * d"
    show "sub_mem d cs x \<or> x \<in> set [i]" if "sub_mem d (cs[i div d := Some p]) x"
      using a that m' [of x] m [of x] lt [of x] ne [of x] by (auto simp: adds_def split: if_splits)
    show "sub_mem d (cs[i div d := Some p]) x" if "rc = 0" "sub_mem d cs x \<or> x \<in> set [i]"
      using a that m' [of x] m [of x] lt [of x] by (auto simp: adds_def split: if_splits)
  qed
qed

lemma sub_set_ok:
  assumes rset: "setter_ok rset N" "d \<le> N" and ok: "subs_ok d cs" and i: "i < 62 * d"
  shows "\<exists>rc cs' k'. sub_set rset al k d cs i = Some (rc, cs', k') \<and> subs_ok d cs' \<and> adds al (62 * d) (sub_mem d cs) (sub_mem d cs') [i] rc"
proof (cases "sub_at cs (i div d)")
  case None
  have d: "i mod d < d" using ok by (auto simp: subs_ok_def)
  show ?thesis
  proof (cases "al k")
    case True
    obtain rc p' k' where r: "rset al (k + 1) (sqlite3BitvecCreate d) (i mod d) = Some (rc, p', k')" "bv_ok p'" "iSize p' = d"
        "adds al d (bv_mem (sqlite3BitvecCreate d)) (bv_mem p') [i mod d] rc"
      using rset create_ok [of d] d unfolding setter_ok_def by metis
    have "\<And>y. y < d \<Longrightarrow> bv_mem (sqlite3BitvecCreate d) y \<longleftrightarrow> (case sub_at cs (i div d) of None \<Rightarrow> False | Some c \<Rightarrow> bv_mem c y)"
      using None create_mem by simp
    from sub_update [OF ok i r(2,3) this r(4)] show ?thesis using r(1) None True by (simp add: sub_set_def)
  next
    case False
    then show ?thesis using None ok by (auto simp: sub_set_def adds_def)
  qed
next
  case (Some c)
  have d: "i mod d < d" "bv_ok c" "iSize c = d" using ok Some by (auto simp: subs_ok_def)
  obtain rc p' k' where r: "rset al k c (i mod d) = Some (rc, p', k')" "bv_ok p'" "iSize p' = d"
      "adds al d (bv_mem c) (bv_mem p') [i mod d] rc"
    using rset d unfolding setter_ok_def by metis
  have "\<And>y. y < d \<Longrightarrow> bv_mem c y \<longleftrightarrow> (case sub_at cs (i div d) of None \<Rightarrow> False | Some c \<Rightarrow> bv_mem c y)" using Some by simp
  from sub_update [OF ok i r(2,3) this r(4)] show ?thesis using r(1) Some by (simp add: sub_set_def)
qed

lemma sub_sets_ok:
  assumes rset: "setter_ok rset N" "d \<le> N"
  shows "subs_ok d cs \<Longrightarrow> \<forall>i \<in> set is. i < 62 * d \<Longrightarrow>
    \<exists>rc cs' k'. sub_sets rset al k d cs is = Some (rc, cs', k') \<and> subs_ok d cs' \<and> adds al (62 * d) (sub_mem d cs) (sub_mem d cs') is rc"
proof (induction "is" arbitrary: cs k)
  case Nil
  then show ?case by (simp add: adds_refl)
next
  case (Cons i "is")
  obtain rc cs1 k1 where 1: "sub_set rset al k d cs i = Some (rc, cs1, k1)" "subs_ok d cs1" "adds al (62 * d) (sub_mem d cs) (sub_mem d cs1) [i] rc"
    using sub_set_ok [OF rset Cons.prems(1)] Cons.prems(2) by (metis list.set_intros(1))
  obtain rc' cs2 k2 where 2: "sub_sets rset al k1 d cs1 is = Some (rc', cs2, k2)" "subs_ok d cs2" "adds al (62 * d) (sub_mem d cs1) (sub_mem d cs2) is rc'"
    using Cons.IH [OF 1(2)] Cons.prems(2) by (metis list.set_intros(2))
  show ?case using 1 2 adds_trans [OF 1(3) 2(3)] by simp
qed

text \<open>The table takes a new value if it has room, else its values move into sub-vectors.\<close>

definition set_post :: "(nat \<Rightarrow> bool) \<Rightarrow> bitvec \<Rightarrow> nat \<Rightarrow> (int \<times> bitvec \<times> nat) option \<Rightarrow> bool" where
  "set_post ok p i r \<longleftrightarrow> (\<exists>rc p' k'. r = Some (rc, p', k') \<and> bv_ok p' \<and> iSize p' = iSize p \<and> adds ok (iSize p) (bv_mem p) (bv_mem p') [i] rc)"

lemma hash_add_post:
  assumes ok: "bv_ok (Bv_hash s n A)" and i: "i < s" "Suc i \<notin> set A" and n: "n < 123"
    and h: "h = slot i u" "A ! h = 0" "\<forall>u' < u. A ! slot i u' \<noteq> 0"
  shows "set_post al (Bv_hash s n A) i (Some (0, Bv_hash s (n + 1) (A[h := i + 1]), k))"
proof -
  have "tab_ok A" using ok by simp
  note t = tab_insert [OF this, of h "Suc i" u, unfolded diff_Suc_1, OF h Suc_not_Zero i(2)]
  have "\<forall>v \<in> set (A[h := Suc i]). v \<le> s" using ok i(1) set_update_subset_insert [of A h "Suc i"] by auto
  then show ?thesis using ok n t by (auto simp: set_post_def adds_def)
qed

lemma hash_split_post:
  assumes ok: "bv_ok (Bv_hash s n A)" and i: "i < s" and rset: "setter_ok rset N" "bv_divisor s \<le> N"
    and r: "r = map_option (\<lambda>(rc, cs, k). (rc, Bv_sub s n (bv_divisor s) cs, k))
      (sub_sets rset al k (bv_divisor s) (replicate 62 None) (i # hash_values A))"
  shows "set_post al (Bv_hash s n A) i r"
proof -
  let ?d = "bv_divisor s"
  have s: "3968 < s" using ok by simp
  note d = divisor_bounds [OF s]
  have empty: "subs_ok ?d (replicate 62 None)" using d(3) by (auto simp: subs_ok_def sub_at_def split: if_splits)
  have em: "\<not> sub_mem ?d (replicate 62 None) x" for x by (simp add: sub_mem_def sub_at_def)
  have vals: "x \<in> set (hash_values A) \<longleftrightarrow> Suc x \<in> set A" for x by (force simp: hash_values_def image_iff)
  have "\<forall>x \<in> set (i # hash_values A). x < 62 * ?d" using ok i d(2) vals by fastforce
  from sub_sets_ok [OF rset empty this, of al k] obtain rc cs k'
    where c: "sub_sets rset al k ?d (replicate 62 None) (i # hash_values A) = Some (rc, cs, k')" "subs_ok ?d cs"
      and a: "adds al (62 * ?d) (sub_mem ?d (replicate 62 None)) (sub_mem ?d cs) (i # hash_values A) rc" by blast
  have "adds al s (bv_mem (Bv_hash s n A)) (sub_mem ?d cs) [i] rc"
    by (rule adds_cong [OF a d(2)]) (use em vals in auto)
  then have "adds al s (bv_mem (Bv_hash s n A)) (bv_mem (Bv_sub s n ?d cs)) [i] rc" by (simp add: adds_def)
  then show ?thesis using c s by (simp add: set_post_def r bv_ok_sub)
qed

lemma bv_rehash_post:
  assumes ok: "bv_ok (Bv_hash s n A)" and i: "i < s" "Suc i \<notin> set A" and rset: "setter_ok rset N" "bv_divisor s \<le> N"
    and h: "h = slot i u" "A ! h = 0" "\<forall>u' < u. A ! slot i u' \<noteq> 0"
  shows "set_post al (Bv_hash s n A) i (bv_rehash rset al k s n A h i)"
proof (cases "62 \<le> n \<and> \<not> al k")
  case True
  then show ?thesis using ok by (auto simp: bv_rehash_def set_post_def adds_def)
next
  case False
  show ?thesis
  proof (cases "62 \<le> n")
    case True
    then show ?thesis using hash_split_post [OF ok i(1) rset refl] False by (simp add: bv_rehash_def)
  next
    case False
    then show ?thesis using hash_add_post [OF ok i _ h, of al k] by (simp add: bv_rehash_def)
  qed
qed

lemma bv_set_post:
  assumes ok: "bv_ok p" and i: "i < iSize p" and rset: "3968 < iSize p \<Longrightarrow> setter_ok (bv_set l) N \<and> bv_divisor (iSize p) \<le> N"
  shows "set_post al p i (bv_set (Suc l) al k p i)"
proof (cases p)
  case (Bv_map s A)
  have "bit ((A[i div 8 := A ! (i div 8) OR push_bit (i mod 8) 1]) ! (x div 8)) (x mod 8) \<longleftrightarrow> x = i \<or> bit (A ! (x div 8)) (x mod 8)"
    if "x < s" for x
  proof (cases "x div 8 = i div 8")
    case True
    then have "x = i \<longleftrightarrow> x mod 8 = i mod 8" by (metis div_mult_mod_eq)
    moreover have "i div 8 < length A" using ok i Bv_map by auto
    ultimately show ?thesis using True by (auto simp: bit_simps)
  next
    case False
    then show ?thesis by auto
  qed
  then show ?thesis using ok Bv_map by (auto simp: set_post_def adds_def simp del: push_bit_of_1)
next
  case (Bv_sub s n d cs)
  have s: "3968 < s" "d = bv_divisor s" "subs_ok d cs" using ok Bv_sub by (auto simp: bv_ok_sub)
  have "i < 62 * d" using i Bv_sub divisor_bounds(2) [OF s(1)] s(2) by simp
  moreover have "setter_ok (bv_set l) N" "d \<le> N" using rset s Bv_sub by auto
  ultimately obtain rc cs' k' where c: "sub_set (bv_set l) al k d cs i = Some (rc, cs', k')" "subs_ok d cs'"
      "adds al (62 * d) (sub_mem d cs) (sub_mem d cs') [i] rc" using sub_set_ok s(3) by blast
  have "adds al s (sub_mem d cs) (sub_mem d cs') [i] rc"
    by (rule adds_cong [OF c(3)]) (use divisor_bounds(2) [OF s(1)] s(2) in auto)
  then have "adds al s (bv_mem (Bv_sub s n d cs)) (bv_mem (Bv_sub s n d cs')) [i] rc" by (simp add: adds_def)
  then show ?thesis using Bv_sub s c by (simp add: set_post_def bv_ok_sub)
next
  case (Bv_hash s n A)
  have okh: "bv_ok (Bv_hash s n A)" "i < s" and t: "tab_ok A" and z: "0 \<in> set A"
    using ok i Bv_hash free_slot [of A] by (auto simp: tab_ok_def)
  have rs: "setter_ok (bv_set l) N" "bv_divisor s \<le> N" using rset ok Bv_hash by auto
  have home: "i mod 124 = slot i 0" by (simp add: ring_0)
  note pt = probe_table [OF t z, of "Suc i"]
  show ?thesis
  proof (cases "A ! (i mod 124) = 0")
    case True
    have "\<not> reach A (Suc i) u" for u
    proof (cases u)
      case 0
      then show ?thesis using True home unfolding reach_def diff_Suc_1 by simp
    next
      case (Suc u')
      then show ?thesis using True home unfolding reach_def diff_Suc_1 by (metis zero_less_Suc)
    qed
    then have new: "Suc i \<notin> set A" using t by (auto simp: tab_ok_def)
    note h = home True [unfolded home]
    show ?thesis
    proof (cases "n < 123")
      case True
      then show ?thesis using hash_add_post [OF okh new True home \<open>A ! (i mod 124) = 0\<close>] \<open>A ! (i mod 124) = 0\<close> Bv_hash by simp
    next
      case False
      then show ?thesis using bv_rehash_post [OF okh new rs home \<open>A ! (i mod 124) = 0\<close>] \<open>A ! (i mod 124) = 0\<close> Bv_hash by simp
    qed
  next
    case False
    show ?thesis
    proof (cases "Suc i \<in> set A")
      case True
      then show ?thesis using False pt(1) Bv_hash okh by (auto simp: set_post_def adds_def)
    next
      case new: False
      obtain j u where j: "bv_probe A (i mod 124) (Suc i) 124 = Some (Some j)" "j = slot i u" "A ! j = 0" "\<forall>u' < u. A ! slot i u' \<noteq> 0"
        using pt(2) new by auto
      then show ?thesis using bv_rehash_post [OF okh new rs j(2-4)] False Bv_hash by simp
    qed
  qed
qed

lemma bv_set_setter: "setter_ok (bv_set (Suc l)) (3968 * 62 ^ l)"
proof (induction l)
  case 0
  have "set_post al p i (bv_set (Suc 0) al k p i)" if "bv_ok p" "iSize p \<le> 3968" "i < iSize p" for al p i k
    using bv_set_post [OF that(1,3), of 0 0 al k] that(2) by simp
  then show ?case unfolding setter_ok_def set_post_def [symmetric] by simp
next
  case (Suc l)
  have "set_post al p i (bv_set (Suc (Suc l)) al k p i)" if "bv_ok p" "iSize p \<le> 3968 * 62 ^ Suc l" "i < iSize p" for al p i k
    using bv_set_post [OF that(1,3), of "Suc l" "3968 * 62 ^ l" al k] Suc divisor_bounds(4) [OF _ that(2)] by blast
  then show ?case unfolding setter_ok_def set_post_def [symmetric] by blast
qed

lemma sqlite3BitvecSet_adds:
  assumes "bv_ok p" "iSize p < 2 ^ 32" "0 < i" "i \<le> iSize p"
  shows "\<exists>rc p'. sqlite3BitvecSet ok p i = Some (rc, p') \<and> bv_ok p' \<and> iSize p' = iSize p \<and> adds ok (iSize p) (bv_mem p) (bv_mem p') [i - 1] rc"
proof -
  have five: "(5 :: nat) = Suc 4" by simp
  have "setter_ok (bv_set 5) (3968 * 62 ^ 4)" unfolding five by (rule bv_set_setter)
  moreover have "iSize p \<le> 3968 * 62 ^ 4" "i - 1 < iSize p" using assms by simp_all
  ultimately obtain rc p' k' where "bv_set 5 ok 0 p (i - 1) = Some (rc, p', k')" "bv_ok p'" "iSize p' = iSize p"
    "adds ok (iSize p) (bv_mem p) (bv_mem p') [i - 1] rc" using assms(1) unfolding setter_ok_def by blast
  then show ?thesis by (simp add: sqlite3BitvecSet_def)
qed

subsection \<open>Clearing\<close>

lemma bv_refill_ok:
  "tab_ok A \<Longrightarrow> length (nonzero A) + length vs < 124 \<Longrightarrow> distinct vs \<Longrightarrow> \<forall>v \<in> set vs. v \<noteq> 0 \<and> v \<notin> set A \<Longrightarrow>
     \<exists>A'. bv_refill vs A = Some A' \<and> tab_ok A' \<and> length (nonzero A') = length (nonzero A) + length vs
       \<and> (\<forall>w. w \<noteq> 0 \<longrightarrow> (w \<in> set A' \<longleftrightarrow> w \<in> set vs \<or> w \<in> set A))"
proof (induction vs arbitrary: A)
  case (Cons v vs)
  have v: "v \<noteq> 0" "v \<notin> set A" using Cons.prems(4) by auto
  have len: "length A = 124" using Cons.prems(1) by (simp add: tab_ok_def)
  then have z: "0 \<in> set A" using free_slot Cons.prems(2) by simp
  obtain k where k: "k < 124" "A ! k = 0" using z len by (metis in_set_conv_nth)
  obtain w where w: "w < 124" "slot (v - 1) w = k" using slot_surj [OF k(1)] by blast
  have home: "(v - 1) mod 124 = slot (v - 1) 0" by (simp add: ring_0)
  have "bv_probe A (slot (v - 1) 0) 0 124 \<noteq> None" using probe_endless [of A "v - 1" 0 0 124 w] w k(2) by auto
  moreover have "bv_probe A (slot (v - 1) 0) 0 124 \<noteq> Some None" using probe_found [OF _ len, of "v - 1" 0 0 124] by blast
  ultimately obtain j where j: "bv_probe A (slot (v - 1) 0) 0 124 = Some (Some j)" by auto
  from probe_free [OF this] obtain u where u: "j = slot (v - 1) u" "A ! j = 0" "\<forall>u' < u. A ! slot (v - 1) u' \<noteq> 0" by auto
  note t = tab_insert [OF Cons.prems(1) u v]
  have "\<exists>A'. bv_refill vs (A[j := v]) = Some A' \<and> tab_ok A' \<and> length (nonzero A') = length (nonzero (A[j := v])) + length vs
       \<and> (\<forall>w. w \<noteq> 0 \<longrightarrow> (w \<in> set A' \<longleftrightarrow> w \<in> set vs \<or> w \<in> set (A[j := v])))"
    using Cons.prems t by (intro Cons.IH) auto
  then show ?case using j home t by (auto simp del: bv_probe.simps)
qed simp

lemma bv_clear_ok:
  "bv_ok p \<Longrightarrow> i < iSize p \<Longrightarrow> \<exists>p'. bv_clear p i = Some p' \<and> bv_ok p' \<and> iSize p' = iSize p
     \<and> (\<forall>x < iSize p. bv_mem p' x \<longleftrightarrow> x \<noteq> i \<and> bv_mem p x)"
proof (induction p i rule: bv_clear.induct)
  case (1 s n d cs i)
  have s: "3968 < s" "d = bv_divisor s" "subs_ok d cs" using 1(2) by (auto simp: bv_ok_sub)
  have d: "0 < d" "length cs = 62" using s(3) by (auto simp: subs_ok_def)
  show ?case
  proof (cases "sub_at cs (i div d)")
    case None
    then show ?thesis using 1(2) by (auto simp: sub_mem_def)
  next
    case (Some c)
    then have c: "bv_ok c" "iSize c = d" "i mod d < d" using s(3) d by (auto simp: subs_ok_def)
    obtain p' where p': "bv_clear c (i mod d) = Some p'" "bv_ok p'" "iSize p' = d" "\<forall>x < d. bv_mem p' x \<longleftrightarrow> x \<noteq> i mod d \<and> bv_mem c x"
      using 1(1) [OF refl Some] c by auto
    have bin: "i div d < length cs" using Some by (auto simp: sub_at_def split: if_splits)
    note at = sub_at_update [OF bin, of p']
    have "subs_ok d (cs[i div d := Some p'])" using s(3) p' by (simp add: subs_ok_def at)
    moreover have "sub_mem d (cs[i div d := Some p']) x \<longleftrightarrow> x \<noteq> i \<and> sub_mem d cs x" for x
    proof (cases "x div d = i div d")
      case True
      then have "x = i \<longleftrightarrow> x mod d = i mod d" by (metis div_mult_mod_eq)
      then show ?thesis using True Some p'(4) d by (simp add: sub_mem_def at)
    next
      case False
      then show ?thesis by (auto simp: sub_mem_def at)
    qed
    ultimately show ?thesis using Some p' s by (simp add: bv_ok_sub)
  qed
next
  case (2 s A i)
  have "bit ((A[i div 8 := A ! (i div 8) AND NOT (push_bit (i mod 8) 1)]) ! (x div 8)) (x mod 8) \<longleftrightarrow> x \<noteq> i \<and> bit (A ! (x div 8)) (x mod 8)" for x
  proof (cases "x div 8 = i div 8")
    case True
    then have "x = i \<longleftrightarrow> x mod 8 = i mod 8" by (metis div_mult_mod_eq)
    moreover have "i div 8 < length A" using 2 by auto
    ultimately show ?thesis using True by (auto simp: bit_simps)
  next
    case False
    then show ?thesis by auto
  qed
  then show ?case using 2 by (auto simp del: push_bit_of_1)
next
  case (3 s n A i)
  let ?vs = "filter (\<lambda>v. v \<noteq> 0 \<and> v \<noteq> i + 1) A"
  have vs: "?vs = filter (\<lambda>v. v \<noteq> i + 1) (nonzero A)" by (simp add: nonzero_def conj_commute)
  have "distinct (nonzero A)" "length (nonzero A) < 124" using 3(1) by (simp_all add: tab_ok_def nonzero_def)
  then have d: "distinct ?vs" "length ?vs < 124" unfolding vs
    using length_filter_le [of "\<lambda>v. v \<noteq> i + 1" "nonzero A"] by (simp, linarith)
  define Z where "Z = replicate 124 (0 :: nat)"
  have Z: "tab_ok Z" "length (nonzero Z) = 0" "set Z = {0}" by (simp_all add: tab_ok_def nonzero_def Z_def)
  have "\<exists>A'. bv_refill ?vs Z = Some A' \<and> tab_ok A' \<and> length (nonzero A') = length (nonzero Z) + length ?vs
       \<and> (\<forall>w. w \<noteq> 0 \<longrightarrow> (w \<in> set A' \<longleftrightarrow> w \<in> set ?vs \<or> w \<in> set Z))"
    by (rule bv_refill_ok) (use Z d in auto)
  then obtain A' where A': "bv_refill ?vs Z = Some A'" "tab_ok A'" "length (nonzero A') = length ?vs"
      "\<And>w. w \<noteq> 0 \<Longrightarrow> w \<in> set A' \<longleftrightarrow> w \<in> set A \<and> w \<noteq> i + 1" using Z by auto
  have "\<forall>v \<in> set A'. v \<le> s"
  proof
    fix v assume "v \<in> set A'"
    then show "v \<le> s" using A'(4) [of v] 3(1) by (cases "v = 0") auto
  qed
  moreover have "bv_clear (Bv_hash s n A) i = Some (Bv_hash s (length ?vs) A')" using A'(1) by (simp add: Z_def Let_def)
  moreover have "Suc x \<in> set A' \<longleftrightarrow> x \<noteq> i \<and> Suc x \<in> set A" for x using A'(4) [of "Suc x"] by auto
  ultimately show ?case using A'(2,3) d(2) 3(1) by simp
qed

subsection \<open>The contract of a set of indexes\<close>

text \<open>The pages a client has put into the set and not taken out again are those that test as members.\<close>

datatype bv_op = Put nat | Drop nat

definition bv_pages :: "bitvec \<Rightarrow> nat set" where
  "bv_pages p = {i. 0 < i \<and> i \<le> iSize p \<and> bv_mem p (i - 1)}"

lemma pages_simps [simp]: "0 \<notin> bv_pages p" "Suc x \<in> bv_pages p \<longleftrightarrow> x < iSize p \<and> bv_mem p x"
  by (auto simp: bv_pages_def)

fun index_run :: "('s \<Rightarrow> nat \<Rightarrow> 's option) \<Rightarrow> ('s \<Rightarrow> nat \<Rightarrow> 's option) \<Rightarrow> bv_op list \<Rightarrow> 's \<Rightarrow> 's option" where
  "index_run put del [] s = Some s"
| "index_run put del (Put i # ops) s = Option.bind (put s i) (index_run put del ops)"
| "index_run put del (Drop i # ops) s = Option.bind (del s i) (index_run put del ops)"

fun index_spec :: "bv_op list \<Rightarrow> nat set \<Rightarrow> nat set" where
  "index_spec [] S = S"
| "index_spec (Put i # ops) S = index_spec ops (insert i S)"
| "index_spec (Drop i # ops) S = index_spec ops (S - {i})"

fun op_index :: "bv_op \<Rightarrow> nat" where
  "op_index (Put i) = i"
| "op_index (Drop i) = i"

locale index_set =
  fixes inv :: "nat \<Rightarrow> 's \<Rightarrow> bool"
    and members :: "'s \<Rightarrow> nat set"
    and test :: "'s \<Rightarrow> nat \<Rightarrow> bool option"
    and put :: "'s \<Rightarrow> nat \<Rightarrow> 's option"
    and del :: "'s \<Rightarrow> nat \<Rightarrow> 's option"
  assumes test_law: "inv n s \<Longrightarrow> test s i = Some (i \<in> members s)"
    and put_law: "inv n s \<Longrightarrow> 0 < i \<Longrightarrow> i \<le> n \<Longrightarrow> \<exists>s'. put s i = Some s' \<and> inv n s' \<and> members s' = insert i (members s)"
    and drop_law: "inv n s \<Longrightarrow> 0 < i \<Longrightarrow> i \<le> n \<Longrightarrow> \<exists>s'. del s i = Some s' \<and> inv n s' \<and> members s' = members s - {i}"
begin

lemma run_members:
  "inv n s \<Longrightarrow> \<forall>op \<in> set ops. 0 < op_index op \<and> op_index op \<le> n \<Longrightarrow>
     \<exists>s'. index_run put del ops s = Some s' \<and> inv n s' \<and> members s' = index_spec ops (members s)"
proof (induction ops arbitrary: s)
  case (Cons op ops)
  show ?case
  proof (cases op)
    case (Put i)
    then have "0 < i" "i \<le> n" using Cons.prems(2) by simp_all
    from put_law [OF Cons.prems(1) this] obtain s' where "put s i = Some s'" "inv n s'" "members s' = insert i (members s)" by blast
    then show ?thesis using Cons.IH [of s'] Cons.prems(2) Put by simp
  next
    case (Drop i)
    then have "0 < i" "i \<le> n" using Cons.prems(2) by simp_all
    from drop_law [OF Cons.prems(1) this] obtain s' where "del s i = Some s'" "inv n s'" "members s' = members s - {i}" by blast
    then show ?thesis using Cons.IH [of s'] Cons.prems(2) Drop by simp
  qed
qed simp

lemma run_test:
  assumes "inv n s" "\<forall>op \<in> set ops. 0 < op_index op \<and> op_index op \<le> n"
  shows "\<exists>s'. index_run put del ops s = Some s' \<and> test s' i = Some (i \<in> index_spec ops (members s))"
proof -
  obtain s' where "index_run put del ops s = Some s'" "inv n s'" "members s' = index_spec ops (members s)"
    using run_members [OF assms] by blast
  then show ?thesis using test_law [of n s' i] by simp
qed

end

definition bv_inv :: "nat \<Rightarrow> bitvec \<Rightarrow> bool" where
  "bv_inv n p \<longleftrightarrow> bv_ok p \<and> iSize p = n \<and> n < 2 ^ 32"

definition bv_put :: "bitvec \<Rightarrow> nat \<Rightarrow> bitvec option" where
  "bv_put p i = map_option snd (sqlite3BitvecSet (\<lambda>_. True) p i)"

lemma bv_test_law: "bv_inv n p \<Longrightarrow> sqlite3BitvecTestNotNull p i = Some (i \<in> bv_pages p)"
  by (cases i) (auto simp: bv_inv_def sqlite3BitvecTestNotNull_def Let_def bv_test_mem)

lemma bv_put_law:
  assumes "bv_inv n p" "0 < i" "i \<le> n"
  shows "\<exists>p'. sqlite3BitvecSet (\<lambda>_. True) p i = Some (0, p') \<and> bv_inv n p' \<and> bv_pages p' = insert i (bv_pages p)"
proof -
  obtain rc p' where p': "sqlite3BitvecSet (\<lambda>_. True) p i = Some (rc, p')" "bv_ok p'" "iSize p' = iSize p"
      "adds (\<lambda>_. True) (iSize p) (bv_mem p) (bv_mem p') [i - 1] rc"
    using sqlite3BitvecSet_adds [of p i "\<lambda>_. True"] assms by (auto simp: bv_inv_def)
  then have rc: "rc = 0" and m: "\<And>x. x < iSize p \<Longrightarrow> bv_mem p' x \<longleftrightarrow> bv_mem p x \<or> x = i - 1" by (auto simp: adds_def)
  have "j \<in> bv_pages p' \<longleftrightarrow> j = i \<or> j \<in> bv_pages p" for j
    using m [of "j - 1"] assms p'(3) by (cases j; cases i) (auto simp: bv_inv_def)
  then show ?thesis using p' rc assms by (auto simp: bv_inv_def)
qed

lemma bv_drop_law:
  assumes "bv_inv n p" "0 < i" "i \<le> n"
  shows "\<exists>p'. sqlite3BitvecClear p i = Some p' \<and> bv_inv n p' \<and> bv_pages p' = bv_pages p - {i}"
proof -
  obtain p' where p': "bv_clear p (i - 1) = Some p'" "bv_ok p'" "iSize p' = iSize p"
      "\<And>x. x < iSize p \<Longrightarrow> bv_mem p' x \<longleftrightarrow> x \<noteq> i - 1 \<and> bv_mem p x"
  proof -
    have "bv_ok p" "i - 1 < iSize p" using assms by (auto simp: bv_inv_def)
    from bv_clear_ok [OF this] show ?thesis using that by blast
  qed
  have "j \<in> bv_pages p' \<longleftrightarrow> j \<noteq> i \<and> j \<in> bv_pages p" for j
    using p'(4) [of "j - 1"] assms p'(3) by (cases j; cases i) (auto simp: bv_inv_def)
  then show ?thesis using p' assms by (auto simp: bv_inv_def sqlite3BitvecClear_def)
qed

interpretation bv: index_set bv_inv bv_pages sqlite3BitvecTestNotNull bv_put sqlite3BitvecClear
proof
  fix n p i assume p: "bv_inv n p"
  then show "sqlite3BitvecTestNotNull p i = Some (i \<in> bv_pages p)" by (rule bv_test_law)
  assume i: "0 < i" "i \<le> n"
  obtain p' where "sqlite3BitvecSet (\<lambda>_. True) p i = Some (0, p')" "bv_inv n p'" "bv_pages p' = insert i (bv_pages p)"
    using bv_put_law [OF p i] by blast
  then show "\<exists>p'. bv_put p i = Some p' \<and> bv_inv n p' \<and> bv_pages p' = insert i (bv_pages p)" by (simp add: bv_put_def)
  show "\<exists>p'. sqlite3BitvecClear p i = Some p' \<and> bv_inv n p' \<and> bv_pages p' = bv_pages p - {i}" by (rule bv_drop_law [OF p i])
qed

lemma create_inv: "n < 2 ^ 32 \<Longrightarrow> bv_inv n (sqlite3BitvecCreate n)" "bv_pages (sqlite3BitvecCreate n) = {}"
  by (auto simp: bv_inv_def create_ok bv_pages_def create_mem)

section \<open>Properties\<close>

text \<open>C29. After any sequence of \<open>sqlite3BitvecSet\<close> and \<open>sqlite3BitvecClear\<close> on a new vector, with memory available, the loops all end and
  \<open>sqlite3BitvecTestNotNull\<close> answers exactly whether the index is in the set those operations describe, whatever form the vector took.\<close>

theorem bitvec_is_a_set:
  assumes "n < 2 ^ 32" "\<forall>op \<in> set ops. 0 < op_index op \<and> op_index op \<le> n"
  shows "\<exists>p. index_run bv_put sqlite3BitvecClear ops (sqlite3BitvecCreate n) = Some p
    \<and> sqlite3BitvecTestNotNull p i = Some (i \<in> index_spec ops {})"
  using bv.run_test [OF create_inv(1) [OF assms(1)] assms(2), of i] by (simp add: create_inv(2))

theorem bitvec_is_a_set_witness:
  "\<exists>p. index_run bv_put sqlite3BitvecClear [Put 4000, Put 7, Drop 4000] (sqlite3BitvecCreate 5000) = Some p
    \<and> sqlite3BitvecTestNotNull p 7 = Some True"
  using bitvec_is_a_set [of 5000 "[Put 4000, Put 7, Drop 4000]" 7] by simp

text \<open>\<open>sqlite3BitvecSet\<close> under any pattern of allocation failures ends, keeps the invariant and the size, and returns 0 or
  \<open>SQLITE_NOMEM\<close>. With 0 the index was added to the set; in either case nothing else was added. (With \<open>SQLITE_NOMEM\<close> members may be lost.)\<close>

theorem bitvec_set_under_oom:
  assumes "bv_ok p" "iSize p < 2 ^ 32" "0 < i" "i \<le> iSize p"
  shows "\<exists>rc p'. sqlite3BitvecSet ok p i = Some (rc, p') \<and> bv_ok p' \<and> iSize p' = iSize p \<and> (rc = SQLITE_OK \<or> rc = SQLITE_NOMEM)
    \<and> bv_pages p' \<subseteq> insert i (bv_pages p) \<and> (rc = SQLITE_OK \<longrightarrow> bv_pages p' = insert i (bv_pages p))"
proof -
  obtain rc p' where p': "sqlite3BitvecSet ok p i = Some (rc, p')" "bv_ok p'" "iSize p' = iSize p"
      "adds ok (iSize p) (bv_mem p) (bv_mem p') [i - 1] rc"
    using sqlite3BitvecSet_adds [OF assms] by blast
  have sub: "j \<in> bv_pages p' \<Longrightarrow> j = i \<or> j \<in> bv_pages p" for j
    using p'(3,4) assms(3) by (cases j; cases i) (auto simp: adds_def)
  have sup: "j \<in> bv_pages p'" if "rc = 0" "j = i \<or> j \<in> bv_pages p" for j
  proof -
    obtain x where x: "i = Suc x" using assms(3) by (cases i) simp_all
    have m: "\<And>y. y < iSize p \<Longrightarrow> bv_mem p y \<or> y = x \<Longrightarrow> bv_mem p' y" using p'(4) that(1) x by (auto simp: adds_def)
    show ?thesis using that(2) m p'(3) assms(4) x by (cases j) auto
  qed
  have "rc = 0 \<or> rc = 7" using p'(4) by (simp add: adds_def)
  then show ?thesis using p' sub sup by blast
qed

theorem bitvec_set_under_oom_witness:
  "\<exists>rc p'. sqlite3BitvecSet (\<lambda>_. False) (sqlite3BitvecCreate 5000) 9 = Some (rc, p') \<and> bv_pages p' \<subseteq> {9}"
  using bitvec_set_under_oom [of "sqlite3BitvecCreate 5000" 9 "\<lambda>_. False"] by (auto simp: create_ok create_inv(2))

end
