(* ===== verification/Wal_Index.thy ===== *)
theory Wal_Index
  imports Sc_Prelude Ring_Table
begin

text \<open>
  The index of the write-ahead log (\<open>src/wal.c\<close>): which frame of the log holds the newest version of a page.

  The index is an array of pages in shared memory, each with the page numbers of consecutive frames (\<open>aPgno\<close>) and a hash table
  over them (\<open>aHash\<close>). The first page has room for 4062 frames, since it starts with the header of 136 bytes, the others for 4096.
  \<open>w_index\<close> is the content of those pages. Mapping a page can fail: \<open>map_rc h\<close> is the result code of \<open>walIndexPage\<close>
  for page \<open>h\<close>. \<open>w_live\<close> is the part of the header in shared memory that a rollback restores: its \<open>mxFrame\<close> and checksum. Frame and page numbers are naturals below \<open>2 ^ 32\<close>; 0 is the empty entry of both arrays. The model is
  of one connection: slots another connection adds during a read transaction are entries beyond \<open>mxFrame\<close>.
\<close>

section \<open>Definitions\<close>

abbreviation (input) HASHTABLE_NPAGE :: nat where "HASHTABLE_NPAGE \<equiv> 4096"
abbreviation (input) HASHTABLE_NPAGE_ONE :: nat where "HASHTABLE_NPAGE_ONE \<equiv> 4062"
abbreviation (input) HASHTABLE_NSLOT :: nat where "HASHTABLE_NSLOT \<equiv> 8192"
abbreviation (input) SQLITE_CORRUPT :: int where "SQLITE_CORRUPT \<equiv> 11"

record wi_page =
  aPgno :: "nat list"
  aHash :: "nat list"

record wal =
  w_index :: "nat \<Rightarrow> wi_page"
  w_mxFrame :: nat
  w_minFrame :: nat
  w_readLock :: int
  w_shmUnreliable :: bool
  w_cksum :: "u32 \<times> u32"
  w_nCkpt :: nat
  w_iReCksum :: nat
  w_live :: "nat \<times> (u32 \<times> u32)"

definition walHash :: "nat \<Rightarrow> nat" where
  "walHash iPage = (iPage * 383) mod 2 ^ 32 mod HASHTABLE_NSLOT"

definition walNextHash :: "nat \<Rightarrow> nat" where
  "walNextHash iPriorHash = (iPriorHash + 1) mod HASHTABLE_NSLOT"

text \<open>\<open>walHashGet\<close>: one less than the number of the first frame of an index page.\<close>

definition hash_iZero :: "nat \<Rightarrow> nat" where
  "hash_iZero iHash = (if iHash = 0 then 0 else HASHTABLE_NPAGE_ONE + (iHash - 1) * HASHTABLE_NPAGE)"

definition walFramePage :: "nat \<Rightarrow> nat" where
  "walFramePage iFrame = (iFrame + HASHTABLE_NPAGE - HASHTABLE_NPAGE_ONE - 1) div HASHTABLE_NPAGE"

definition walFramePgno :: "wal \<Rightarrow> nat \<Rightarrow> nat" where
  "walFramePgno W iFrame =
     (let iHash = walFramePage iFrame
      in if iHash = 0 then aPgno (w_index W 0) ! (iFrame - 1)
         else aPgno (w_index W iHash) ! ((iFrame - 1 - HASHTABLE_NPAGE_ONE) mod HASHTABLE_NPAGE))"

definition walCleanupHash :: "(nat \<Rightarrow> int) \<Rightarrow> wal \<Rightarrow> wal" where
  "walCleanupHash map_rc W =
     (if w_mxFrame W = 0 then W
      else let h = walFramePage (w_mxFrame W)
           in if map_rc h \<noteq> SQLITE_OK then W
              else let pg = w_index W h;
                       iLimit = w_mxFrame W - hash_iZero h;
                       pg = pg\<lparr>aHash := map (\<lambda>v. if iLimit < v then 0 else v) (aHash pg),
                               aPgno := take iLimit (aPgno pg) @ replicate (length (aPgno pg) - iLimit) 0\<rparr>
                   in W\<lparr>w_index := (w_index W)(h := pg)\<rparr>)"

fun append_probe :: "nat list \<Rightarrow> nat \<Rightarrow> nat \<Rightarrow> nat option" where
  "append_probe A iKey 0 = (if A ! iKey = 0 then Some iKey else None)"
| "append_probe A iKey (Suc nCollide) = (if A ! iKey = 0 then Some iKey else append_probe A (walNextHash iKey) nCollide)"

definition walIndexAppend :: "(nat \<Rightarrow> int) \<Rightarrow> wal \<Rightarrow> nat \<Rightarrow> nat \<Rightarrow> int \<times> wal" where
  "walIndexAppend map_rc W iFrame iPage =
     (let h = walFramePage iFrame
      in if map_rc h \<noteq> SQLITE_OK then (map_rc h, W)
         else let idx = iFrame - hash_iZero h;
                  pg = w_index W h;
                  pg = (if idx = 1 then pg\<lparr>aPgno := map (\<lambda>_. 0) (aPgno pg), aHash := map (\<lambda>_. 0) (aHash pg)\<rparr> else pg);
                  W = W\<lparr>w_index := (w_index W)(h := pg)\<rparr>;
                  W = (if aPgno pg ! (idx - 1) \<noteq> 0 then walCleanupHash map_rc W else W);
                  pg = w_index W h
              in case append_probe (aHash pg) (walHash iPage) idx of
                   None \<Rightarrow> (SQLITE_CORRUPT, W)
                 | Some iKey \<Rightarrow>
                     (SQLITE_OK, W\<lparr>w_index := (w_index W)(h := pg\<lparr>aPgno := (aPgno pg)[idx - 1 := iPage], aHash := (aHash pg)[iKey := idx]\<rparr>)\<rparr>))"

text \<open>The search of one table: \<open>hit\<close> is the condition on an entry; \<open>iRead\<close> the last entry that met it. None reports corruption.\<close>

fun find_probe :: "nat list \<Rightarrow> (nat \<Rightarrow> bool) \<Rightarrow> nat \<Rightarrow> nat \<Rightarrow> nat \<Rightarrow> nat option" where
  "find_probe A hit iKey iRead nCollide =
     (let iH = A ! iKey
      in if iH = 0 then Some iRead
         else let iRead = (if hit iH then iH else iRead)
              in if nCollide = 0 then None else find_probe A hit (walNextHash iKey) iRead (nCollide - 1))"

declare find_probe.simps [simp del]

fun find_tables :: "(nat \<Rightarrow> int) \<Rightarrow> wal \<Rightarrow> nat \<Rightarrow> nat \<Rightarrow> nat list \<Rightarrow> int \<times> nat" where
  "find_tables map_rc W pgno iLast [] = (SQLITE_OK, 0)"
| "find_tables map_rc W pgno iLast (iHash # hs) =
     (if map_rc iHash \<noteq> SQLITE_OK then (map_rc iHash, 0)
      else let pg = w_index W iHash; iZero = hash_iZero iHash;
               hit = (\<lambda>iH. iH + iZero \<le> iLast \<and> w_minFrame W \<le> iH + iZero \<and> aPgno pg ! (iH - 1) = pgno)
           in case find_probe (aHash pg) hit (walHash pgno) 0 HASHTABLE_NSLOT of
                None \<Rightarrow> (SQLITE_CORRUPT, 0)
              | Some iH \<Rightarrow> if iH \<noteq> 0 then (SQLITE_OK, iH + iZero) else find_tables map_rc W pgno iLast hs)"

definition walFindFrame :: "(nat \<Rightarrow> int) \<Rightarrow> wal \<Rightarrow> nat \<Rightarrow> int \<times> nat" where
  "walFindFrame map_rc W pgno =
     (let iLast = w_mxFrame W
      in if iLast = 0 \<or> (w_readLock W = 0 \<and> \<not> w_shmUnreliable W) then (SQLITE_OK, 0)
         else find_tables map_rc W pgno iLast (rev [walFramePage (w_minFrame W) ..< walFramePage iLast + 1]))"

text \<open>The linear search that \<open>SQLITE_ENABLE_EXPENSIVE_ASSERT\<close> compares it with.\<close>

fun linear_find :: "wal \<Rightarrow> nat \<Rightarrow> nat \<Rightarrow> nat" where
  "linear_find W pgno 0 = 0"
| "linear_find W pgno (Suc n) =
     (if Suc n < w_minFrame W then 0 else if walFramePgno W (Suc n) = pgno then Suc n else linear_find W pgno n)"

text \<open>The part of \<open>walFrames\<close> that indexes the frames it has written.\<close>

fun frames_append :: "(nat \<Rightarrow> int) \<Rightarrow> wal \<Rightarrow> nat \<Rightarrow> nat list \<Rightarrow> int \<times> nat \<times> wal" where
  "frames_append map_rc W iFrame [] = (SQLITE_OK, iFrame, W)"
| "frames_append map_rc W iFrame (pgno # ps) =
     (let (rc, W) = walIndexAppend map_rc W (iFrame + 1) pgno
      in if rc = SQLITE_OK then frames_append map_rc W (iFrame + 1) ps else (rc, iFrame + 1, W))"

definition walFrames_index :: "(nat \<Rightarrow> int) \<Rightarrow> wal \<Rightarrow> nat list \<Rightarrow> int \<times> wal" where
  "walFrames_index map_rc W ps =
     (let (rc, iFrame, W) = frames_append map_rc W (w_mxFrame W) ps
      in (rc, if rc = SQLITE_OK then W\<lparr>w_mxFrame := iFrame\<rparr> else W))"

text \<open>Savepoints and rollback. \<open>sqlite3WalUndo\<close> also returns the pages it passed to the callback, whose result code is \<open>xUndo\<close>.\<close>

definition sqlite3WalSavepoint :: "wal \<Rightarrow> nat \<times> (u32 \<times> u32) \<times> nat" where
  "sqlite3WalSavepoint W = (w_mxFrame W, w_cksum W, w_nCkpt W)"

definition sqlite3WalSavepointUndo :: "(nat \<Rightarrow> int) \<Rightarrow> wal \<Rightarrow> nat \<times> (u32 \<times> u32) \<times> nat \<Rightarrow> wal \<times> (nat \<times> (u32 \<times> u32) \<times> nat)" where
  "sqlite3WalSavepointUndo map_rc W aWalData =
     (let (mx, cksum, ckpt) = aWalData;
          (mx, ckpt) = (if ckpt \<noteq> w_nCkpt W then (0, w_nCkpt W) else (mx, ckpt));
          W = (if mx < w_mxFrame W
               then let W = walCleanupHash map_rc (W\<lparr>w_mxFrame := mx, w_cksum := cksum\<rparr>)
                    in if w_mxFrame W < w_iReCksum W then W\<lparr>w_iReCksum := 0\<rparr> else W
               else W)
      in (W, (mx, cksum, ckpt)))"

fun undo_pages :: "wal \<Rightarrow> (nat \<Rightarrow> int) \<Rightarrow> nat list \<Rightarrow> int \<times> nat list" where
  "undo_pages W xUndo [] = (SQLITE_OK, [])"
| "undo_pages W xUndo (iFrame # fs) =
     (let pgno = walFramePgno W iFrame
      in if xUndo pgno \<noteq> SQLITE_OK then (xUndo pgno, [pgno])
         else let (rc, ps) = undo_pages W xUndo fs in (rc, pgno # ps))"

definition sqlite3WalUndo :: "(nat \<Rightarrow> int) \<Rightarrow> wal \<Rightarrow> (nat \<Rightarrow> int) \<Rightarrow> int \<times> nat list \<times> wal" where
  "sqlite3WalUndo map_rc W xUndo =
     (let iMax = w_mxFrame W;
          W = W\<lparr>w_mxFrame := fst (w_live W), w_cksum := snd (w_live W)\<rparr>;
          (rc, ps) = undo_pages W xUndo [w_mxFrame W + 1 ..< iMax + 1];
          W = (if iMax \<noteq> w_mxFrame W then walCleanupHash map_rc W else W)
      in (rc, ps, W\<lparr>w_iReCksum := 0\<rparr>))"

section \<open>Lemmas\<close>

subsection \<open>One table\<close>

abbreviation wslot :: "nat \<Rightarrow> nat \<Rightarrow> nat" where "wslot \<equiv> ring 8192"

lemma walHash_eq: "walHash p = wslot (p * 383) 0"
  by (simp add: walHash_def ring_def mod_mod_cancel)

lemma walNextHash_step: "walNextHash (wslot h t) = wslot h (Suc t)"
  using ring_step [of 8192 h t] by (simp add: walNextHash_def)

text \<open>Entry \<open>i\<close> of a table, for the page number \<open>p\<close>, is reached from the home slot over older entries only.\<close>

definition settled :: "nat list \<Rightarrow> nat \<Rightarrow> nat \<Rightarrow> nat \<Rightarrow> bool" where
  "settled A p i t \<longleftrightarrow> t < 8192 \<and> A ! wslot (p * 383) t = i \<and> (\<forall>t' < t. 0 < A ! wslot (p * 383) t' \<and> A ! wslot (p * 383) t' < i)"

definition table_ok :: "nat list \<Rightarrow> nat list \<Rightarrow> bool" where
  "table_ok A ps \<longleftrightarrow> length A = 8192 \<and> (\<forall>s < 8192. A ! s \<le> length ps)
     \<and> (\<forall>s < 8192. \<forall>s' < 8192. A ! s = A ! s' \<longrightarrow> A ! s \<noteq> 0 \<longrightarrow> s = s')
     \<and> (\<forall>i < length ps. \<exists>t. settled A (ps ! i) (Suc i) t)"

lemma table_okD:
  assumes "table_ok A ps"
  shows "length A = 8192" "\<And>s. s < 8192 \<Longrightarrow> A ! s \<le> length ps"
    "\<And>s s'. s < 8192 \<Longrightarrow> s' < 8192 \<Longrightarrow> A ! s = A ! s' \<Longrightarrow> A ! s \<noteq> 0 \<Longrightarrow> s = s'"
    "\<And>i. i < length ps \<Longrightarrow> \<exists>t. settled A (ps ! i) (Suc i) t"
  using assms unfolding table_ok_def by blast+

text \<open>At most \<open>length ps\<close> steps meet occupied slots.\<close>

lemma occupied_run:
  assumes ok: "table_ok A ps" and occ: "\<forall>t < n. A ! wslot h t \<noteq> 0" and n: "n \<le> 8192"
  shows "n \<le> length ps"
proof -
  have inj: "inj_on (\<lambda>t. A ! wslot h t) {..<n}"
  proof (rule inj_onI)
    fix t u assume tu: "t \<in> {..<n}" "u \<in> {..<n}" "A ! wslot h t = A ! wslot h u"
    then have "wslot h t = wslot h u" using table_okD(3) [OF ok, of "wslot h t" "wslot h u"] occ by simp
    then show "t = u" using ring_inj [of 8192 h t u] tu n by simp
  qed
  have "(\<lambda>t. A ! wslot h t) ` {..<n} \<subseteq> {1..length ps}"
  proof
    fix v assume "v \<in> (\<lambda>t. A ! wslot h t) ` {..<n}"
    then obtain t where "t < n" "v = A ! wslot h t" by auto
    then show "v \<in> {1..length ps}" using occ table_okD(2) [OF ok, of "wslot h t"] by (simp add: Suc_leI)
  qed
  from card_mono [OF _ this] show ?thesis using card_image [OF inj] by simp
qed

lemma append_probe_free:
  assumes "\<forall>t' < t. A ! wslot h (u + t') \<noteq> 0" "A ! wslot h (u + t) = 0" "t \<le> n"
  shows "append_probe A (wslot h u) n = Some (wslot h (u + t))"
  using assms
proof (induction n arbitrary: u t)
  case 0
  then show ?case by simp
next
  case (Suc n)
  show ?case
  proof (cases t)
    case 0
    then show ?thesis using Suc.prems by simp
  next
    case (Suc t')
    then have "A ! wslot h u \<noteq> 0" using Suc.prems(1) by (metis add_0_right zero_less_Suc)
    moreover have "append_probe A (wslot h (Suc u)) n = Some (wslot h (Suc u + t'))"
      using Suc.prems Suc by (intro Suc.IH) (auto simp flip: add_Suc_right)
    ultimately show ?thesis using Suc by (simp add: walNextHash_step)
  qed
qed

text \<open>The first free slot.\<close>

lemma first_free:
  assumes ok: "table_ok A ps" and len: "length ps < 8192"
  obtains t where "t \<le> length ps" "A ! wslot h t = 0" "\<forall>t' < t. A ! wslot h t' \<noteq> 0"
proof -
  have "\<exists>t. A ! wslot h t = 0"
  proof (rule ccontr)
    assume "\<not> ?thesis"
    then have "\<forall>t < 8192. A ! wslot h t \<noteq> 0" by simp
    from occupied_run [OF ok this] len show False by simp
  qed
  then obtain t where t: "A ! wslot h t = 0" "\<forall>t' < t. A ! wslot h t' \<noteq> 0" using exists_least_iff [of "\<lambda>t. A ! wslot h t = 0"] by auto
  have "\<forall>t' < min t 8192. A ! wslot h t' \<noteq> 0" using t(2) by simp
  from occupied_run [OF ok this] have "min t 8192 \<le> length ps" by simp
  then have "t \<le> length ps" using len by linarith
  with t show ?thesis using that by blast
qed

lemma table_append:
  assumes ok: "table_ok A ps" and len: "length ps < 8191"
  obtains k where "append_probe A (walHash p) (Suc (length ps)) = Some k" "table_ok (A[k := Suc (length ps)]) (ps @ [p])"
proof -
  let ?h = "p * 383" and ?n = "Suc (length ps)"
  have "length ps < 8192" using len by simp
  then obtain t where t: "t \<le> length ps" "A ! wslot ?h t = 0" "\<forall>t' < t. A ! wslot ?h t' \<noteq> 0"
    using first_free [OF ok, of ?h] by blast
  let ?k = "wslot ?h t"
  let ?A = "A[?k := ?n]"
  have pr: "append_probe A (walHash p) ?n = Some ?k"
    using append_probe_free [of t A ?h 0 ?n] t by (simp add: walHash_eq)
  note D = table_okD [OF ok]
  have nth: "?A ! s = (if s = ?k then ?n else A ! s)" if "s < 8192" for s using that D(1) by simp
  have le: "A ! s < ?n" if "s < 8192" for s using D(2) [OF that] by simp
  have "\<exists>u. settled ?A ((ps @ [p]) ! i) (Suc i) u" if i: "i < length (ps @ [p])" for i
  proof (cases "i = length ps")
    case True
    have "t < 8192" using t(1) len by simp
    moreover have "?A ! wslot ?h t = ?n" using nth [of ?k] by simp
    moreover have "0 < ?A ! wslot ?h t' \<and> ?A ! wslot ?h t' < ?n" if t': "t' < t" for t'
    proof -
      have "wslot ?h t' \<noteq> ?k" using t(2,3) t' by metis
      then show ?thesis using nth [of "wslot ?h t'"] le [of "wslot ?h t'"] t(3) t' by simp
    qed
    ultimately show ?thesis using True unfolding settled_def by auto
  next
    case False
    then have i': "i < length ps" "(ps @ [p]) ! i = ps ! i" using i by (simp_all add: nth_append)
    obtain u where u: "settled A (ps ! i) (Suc i) u" using D(4) [OF i'(1)] by blast
    have keep: "?A ! wslot (ps ! i * 383) u' = A ! wslot (ps ! i * 383) u'" if "u' \<le> u" for u'
    proof -
      have "A ! wslot (ps ! i * 383) u' \<noteq> 0" using u that unfolding settled_def by (cases "u' = u") auto
      then have "wslot (ps ! i * 383) u' \<noteq> ?k" using t(2) by metis
      then show ?thesis by simp
    qed
    have "settled ?A (ps ! i) (Suc i) u" using u keep unfolding settled_def by simp
    then show ?thesis using i'(2) by auto
  qed
  moreover have "?A ! s = ?A ! s' \<Longrightarrow> ?A ! s \<noteq> 0 \<Longrightarrow> s = s'" if "s < 8192" "s' < 8192" for s s'
    using nth [OF that(1)] nth [OF that(2)] le [OF that(1)] le [OF that(2)] D(3) [OF that] by (auto split: if_splits)
  moreover have "?A ! s \<le> length (ps @ [p])" if "s < 8192" for s using nth [OF that] le [OF that] by (auto split: if_splits)
  ultimately have "table_ok ?A (ps @ [p])" using D(1) unfolding table_ok_def by auto
  then show ?thesis using that [of ?k] pr by blast
qed

lemma table_cut:
  assumes ok: "table_ok A ps"
  shows "table_ok (map (\<lambda>v. if n < v then 0 else v) A) (take n ps)"
proof -
  let ?B = "map (\<lambda>v. if n < v then 0 else v) A"
  note D = table_okD [OF ok]
  have nth: "?B ! s = (if n < A ! s then 0 else A ! s)" if "s < 8192" for s using that D(1) by simp
  have "\<exists>t. settled ?B (take n ps ! i) (Suc i) t" if i: "i < length (take n ps)" for i
  proof -
    have i': "i < length ps" "i < n" "take n ps ! i = ps ! i" using i by simp_all
    obtain t where t: "settled A (ps ! i) (Suc i) t" using D(4) [OF i'(1)] by blast
    have "settled ?B (ps ! i) (Suc i) t"
      unfolding settled_def using t i'(2) nth [of "wslot (ps ! i * 383) _"] by (auto simp: settled_def)
    then show ?thesis using i'(3) by auto
  qed
  moreover have "?B ! s \<le> length (take n ps)" if "s < 8192" for s using nth [OF that] D(2) [OF that] by simp
  moreover have "s = s'" if "s < 8192" "s' < 8192" "?B ! s = ?B ! s'" "?B ! s \<noteq> 0" for s s'
    using D(3) [OF that(1,2)] that(3,4) nth [OF that(1)] nth [OF that(2)] by (auto split: if_splits)
  moreover have "length ?B = 8192" using D(1) by simp
  ultimately show ?thesis unfolding table_ok_def by blast
qed

lemma table_zero: "length A = 8192 \<Longrightarrow> table_ok (map (\<lambda>_. 0) A) []"
  by (simp add: table_ok_def)

text \<open>The search visits the slots up to the first free one and remembers the last hit.\<close>

definition last_hit :: "nat list \<Rightarrow> (nat \<Rightarrow> bool) \<Rightarrow> nat \<Rightarrow> nat \<Rightarrow> nat list \<Rightarrow> nat" where
  "last_hit A hit h r ts = foldl (\<lambda>r t. if hit (A ! wslot h t) then A ! wslot h t else r) r ts"

lemma find_probe_run:
  assumes "\<forall>t < T. A ! wslot h t \<noteq> 0" "A ! wslot h T = 0" "u \<le> T" "T - u \<le> n"
  shows "find_probe A hit (wslot h u) r n = Some (last_hit A hit h r [u..<T])"
  using assms(3,4)
proof (induction "T - u" arbitrary: u r n)
  case 0
  then show ?case using assms(2) by (simp add: find_probe.simps last_hit_def Let_def)
next
  case (Suc k)
  then have u: "u < T" "0 < n" by simp_all
  let ?r = "if hit (A ! wslot h u) then A ! wslot h u else r"
  have "find_probe A hit (wslot h (Suc u)) ?r (n - 1) = Some (last_hit A hit h ?r [Suc u..<T])"
    using Suc.prems Suc.hyps(2) by (intro Suc.hyps(1)) auto
  moreover have "A ! wslot h u \<noteq> 0" using assms(1) u(1) by simp
  then have "find_probe A hit (wslot h u) r n = find_probe A hit (wslot h (Suc u)) ?r (n - 1)"
    using u(2) by (subst find_probe.simps) (simp add: Let_def walNextHash_step)
  ultimately show ?case using u(1) by (simp add: last_hit_def upt_conv_Cons)
qed

lemma last_hit_cases:
  "(last_hit A hit h 0 [0..<T] = 0 \<and> (\<forall>t < T. hit (A ! wslot h t) \<longrightarrow> A ! wslot h t = 0))
   \<or> (\<exists>t < T. last_hit A hit h 0 [0..<T] = A ! wslot h t \<and> hit (A ! wslot h t) \<and> (\<forall>t' < T. hit (A ! wslot h t') \<longrightarrow> t' \<le> t))"
proof (induction T)
  case (Suc T)
  have step: "last_hit A hit h 0 [0..<Suc T] = (if hit (A ! wslot h T) then A ! wslot h T else last_hit A hit h 0 [0..<T])"
    by (simp add: last_hit_def)
  show ?case
  proof (cases "hit (A ! wslot h T)")
    case True
    then show ?thesis using step less_Suc_eq_le by auto
  next
    case False
    then show ?thesis using step Suc by (auto simp: less_Suc_eq)
  qed
qed (simp add: last_hit_def)

lemma table_find:
  assumes ok: "table_ok A ps" and len: "length ps < 8192"
    and hit: "\<And>i. 0 < i \<Longrightarrow> i \<le> length ps \<Longrightarrow> hit i \<Longrightarrow> ps ! (i - 1) = p"
  obtains r where "find_probe A hit (walHash p) 0 8192 = Some r" "r = 0 \<or> r \<le> length ps \<and> hit r"
    "\<And>j. 0 < j \<Longrightarrow> j \<le> length ps \<Longrightarrow> hit j \<Longrightarrow> j \<le> r"
proof -
  let ?h = "p * 383"
  obtain T where T: "T \<le> length ps" "A ! wslot ?h T = 0" "\<forall>t < T. A ! wslot ?h t \<noteq> 0" using first_free [OF ok len, of ?h] by blast
  let ?r = "last_hit A hit ?h 0 [0..<T]"
  note D = table_okD [OF ok]
  have f: "find_probe A hit (walHash p) 0 8192 = Some ?r"
    using find_probe_run [OF T(3,2), of 0 8192 hit 0] T(1) len by (simp add: walHash_eq)
  have le: "A ! wslot ?h t \<le> length ps" for t using D(2) [of "wslot ?h t"] by simp
  have place: "\<exists>t < T. settled A p j t" if j: "0 < j" "j \<le> length ps" "hit j" for j
  proof -
    have "j - 1 < length ps" using j by linarith
    from D(4) [OF this] obtain t where t: "settled A (ps ! (j - 1)) (Suc (j - 1)) t" by blast
    then have "settled A p j t" using hit [OF j] j by simp
    moreover have "t < T"
    proof (rule ccontr)
      assume "\<not> t < T"
      then have tt: "T = t \<or> T < t" by linarith
      have "\<forall>t' < t. 0 < A ! wslot ?h t'" using \<open>settled A p j t\<close> by (simp add: settled_def)
      with tt have "T = t \<or> 0 < A ! wslot ?h T" by metis
      then show False using \<open>settled A p j t\<close> T(2) j(1) by (auto simp: settled_def)
    qed
    ultimately show ?thesis by blast
  qed
  have max: "j \<le> ?r" if j: "0 < j" "j \<le> length ps" "hit j" for j
  proof -
    obtain t where t: "t < T" "settled A p j t" using place [OF j] by blast
    then have at: "A ! wslot ?h t = j" by (simp add: settled_def)
    have "\<not> (\<forall>t < T. hit (A ! wslot ?h t) \<longrightarrow> A ! wslot ?h t = 0)" using t(1) at j by auto
    then obtain s where s: "s < T" "?r = A ! wslot ?h s" "hit (A ! wslot ?h s)" "\<forall>t' < T. hit (A ! wslot ?h t') \<longrightarrow> t' \<le> s"
      using last_hit_cases [of A hit ?h T] by auto
    have r: "0 < ?r" "?r \<le> length ps" "hit ?r" using s T(3) le by auto
    obtain s' where s': "s' < T" "settled A p ?r s'" using place [OF r] by blast
    have "wslot ?h s' = wslot ?h s" using D(3) [of "wslot ?h s'" "wslot ?h s"] s'(2) s(2) r(1) by (simp add: settled_def)
    then have "s' = s" using ring_inj [of 8192 ?h s' s] s'(1) s(1) T(1) len by simp
    moreover have "t \<le> s" using s(4) t(1) at j(3) by blast
    moreover have "t < s' \<Longrightarrow> A ! wslot ?h t < ?r" using s'(2) unfolding settled_def by blast
    ultimately show ?thesis using at s(2) by (cases "t = s") (simp_all add: less_imp_le)
  qed
  have "?r = 0 \<or> ?r \<le> length ps \<and> hit ?r" using last_hit_cases [of A hit ?h T] le by metis
  then show ?thesis using that [OF f] max by blast
qed

subsection \<open>The whole index\<close>

definition cap :: "nat \<Rightarrow> nat" where
  "cap h = (if h = 0 then 4062 else 4096)"

lemma iZero_Suc: "hash_iZero (Suc h) = hash_iZero h + cap h"
  by (simp add: hash_iZero_def cap_def) (cases h; simp)

lemma iZero_mono: "h \<le> h' \<Longrightarrow> hash_iZero h \<le> hash_iZero h'"
  by (rule lift_Suc_mono_le [of hash_iZero]) (simp_all add: iZero_Suc)

lemma frame_page:
  assumes "0 < f"
  shows "hash_iZero (walFramePage f) < f" "f \<le> hash_iZero (walFramePage f) + cap (walFramePage f)"
proof -
  let ?q = "(f + 33) div 4096"
  have q: "walFramePage f = ?q" by (simp add: walFramePage_def)
  have d: "4096 * ?q \<le> f + 33" "f + 33 < 4096 * ?q + 4096" by linarith+
  show "hash_iZero (walFramePage f) < f" "f \<le> hash_iZero (walFramePage f) + cap (walFramePage f)"
    unfolding q using d assms by (cases ?q; simp add: hash_iZero_def cap_def)+
qed

lemma frame_page_unique:
  assumes "hash_iZero h < f" "f \<le> hash_iZero h + cap h"
  shows "walFramePage f = h"
proof -
  have "0 < f" using assms(1) by simp
  note fp = frame_page [OF this]
  have "\<not> h < walFramePage f" using iZero_mono [of "Suc h" "walFramePage f"] fp(1) assms(2) by (auto simp: iZero_Suc)
  moreover have "\<not> walFramePage f < h" using iZero_mono [of "Suc (walFramePage f)" h] fp(2) assms(1) by (auto simp: iZero_Suc)
  ultimately show ?thesis by simp
qed

definition seg :: "nat \<Rightarrow> nat list \<Rightarrow> nat list" where
  "seg h fs = take (cap h) (drop (hash_iZero h) fs)"

lemma seg_length: "length (seg h fs) \<le> cap h" "cap h \<le> 4096"
  by (simp_all add: seg_def cap_def)

lemma seg_nth:
  assumes "0 < f" "f \<le> length fs"
  shows "f - hash_iZero (walFramePage f) - 1 < length (seg (walFramePage f) fs)"
    "seg (walFramePage f) fs ! (f - hash_iZero (walFramePage f) - 1) = fs ! (f - 1)"
  using frame_page [OF assms(1)] assms(2) by (auto simp: seg_def)

definition page_ok :: "nat \<Rightarrow> wi_page \<Rightarrow> nat list \<Rightarrow> bool" where
  "page_ok h pg ps \<longleftrightarrow> length ps \<le> cap h \<and> aPgno pg = ps @ replicate (cap h - length ps) 0 \<and> 0 \<notin> set ps \<and> table_ok (aHash pg) ps"

text \<open>The index holds the page numbers \<open>fs\<close> of the frames 1, 2, and so on. A page without such frames may hold anything.\<close>

definition index_ok :: "wal \<Rightarrow> nat list \<Rightarrow> bool" where
  "index_ok W fs \<longleftrightarrow> (\<forall>h. length (aPgno (w_index W h)) = cap h \<and> length (aHash (w_index W h)) = 8192)
     \<and> (\<forall>h. seg h fs \<noteq> [] \<longrightarrow> page_ok h (w_index W h) (seg h fs))"

lemma seg_append_other:
  assumes "h \<noteq> walFramePage (Suc (length fs))"
  shows "seg h (fs @ [p]) = seg h fs"
proof (cases "hash_iZero h \<le> length fs")
  case True
  then have "hash_iZero h + cap h \<le> length fs" using frame_page_unique [of h "Suc (length fs)"] assms by linarith
  then show ?thesis by (simp add: seg_def)
next
  case False
  then show ?thesis by (simp add: seg_def)
qed

lemma seg_append_same:
  assumes "h = walFramePage (Suc (length fs))"
  shows "seg h (fs @ [p]) = seg h fs @ [p]" "length (seg h fs) = length fs - hash_iZero h" "length (seg h fs) < cap h" "hash_iZero h \<le> length fs"
  using frame_page [of "Suc (length fs)"] assms by (auto simp: seg_def)

lemma seg_take_other:
  assumes "h \<noteq> walFramePage m" "0 < m" "seg h (take m fs) \<noteq> []"
  shows "seg h (take m fs) = seg h fs"
proof -
  have "hash_iZero h < m" using assms(3) by (auto simp: seg_def)
  then have "hash_iZero h + cap h < m" using frame_page_unique [of h m] assms(1) by linarith
  then show ?thesis by (simp add: seg_def drop_take min_def)
qed

lemma seg_take_same: "h = walFramePage m \<Longrightarrow> 0 < m \<Longrightarrow> seg h (take m fs) = take (m - hash_iZero h) (seg h fs)"
  using frame_page [of m] by (auto simp: seg_def drop_take min_def)

text \<open>Writing one entry into a page that has room.\<close>

lemma page_append:
  assumes ok: "page_ok h pg ps" and room: "length ps < cap h" and p: "p \<noteq> 0"
  obtains k where "append_probe (aHash pg) (walHash p) (Suc (length ps)) = Some k"
    "page_ok h (pg\<lparr>aPgno := (aPgno pg)[length ps := p], aHash := (aHash pg)[k := Suc (length ps)]\<rparr>) (ps @ [p])"
proof -
  have t: "table_ok (aHash pg) ps" "length ps < 8191" using ok room seg_length(2) [of h] by (auto simp: page_ok_def)
  obtain k where k: "append_probe (aHash pg) (walHash p) (Suc (length ps)) = Some k" "table_ok ((aHash pg)[k := Suc (length ps)]) (ps @ [p])"
    using table_append [OF t, of p] by blast
  have "cap h - length ps = Suc (cap h - length ps - 1)" using room by simp
  then have "replicate (cap h - length ps) (0 :: nat) = 0 # replicate (cap h - length ps - 1) 0" by (metis replicate_Suc)
  then have "(aPgno pg)[length ps := p] = (ps @ [p]) @ replicate (cap h - length (ps @ [p])) 0" using ok by (simp add: page_ok_def)
  then have "page_ok h (pg\<lparr>aPgno := (aPgno pg)[length ps := p], aHash := (aHash pg)[k := Suc (length ps)]\<rparr>) (ps @ [p])"
    using ok k(2) p room by (simp add: page_ok_def)
  then show ?thesis using that k(1) by blast
qed

text \<open>What the append does once a page has been made ready.\<close>

definition append_entry :: "wal \<Rightarrow> nat \<Rightarrow> nat \<Rightarrow> nat \<Rightarrow> int \<times> wal" where
  "append_entry W h idx iPage =
     (let pg = w_index W h
      in case append_probe (aHash pg) (walHash iPage) idx of
           None \<Rightarrow> (SQLITE_CORRUPT, W)
         | Some iKey \<Rightarrow> (0, W\<lparr>w_index := (w_index W)(h := pg\<lparr>aPgno := (aPgno pg)[idx - 1 := iPage], aHash := (aHash pg)[iKey := idx]\<rparr>)\<rparr>))"

definition same_hdr :: "wal \<Rightarrow> wal \<Rightarrow> bool" where
  "same_hdr W V \<longleftrightarrow> w_mxFrame V = w_mxFrame W \<and> w_minFrame V = w_minFrame W \<and> w_readLock V = w_readLock W \<and> w_shmUnreliable V = w_shmUnreliable W
     \<and> w_live V = w_live W"

definition zero_page :: "wal \<Rightarrow> nat \<Rightarrow> wal" where
  "zero_page W h = W\<lparr>w_index := (w_index W)(h := (w_index W h)\<lparr>aPgno := map (\<lambda>_. 0) (aPgno (w_index W h)), aHash := map (\<lambda>_. 0) (aHash (w_index W h))\<rparr>)\<rparr>"

lemma w_index_same: "W\<lparr>w_index := (w_index W)(h := w_index W h)\<rparr> = W"
  by simp

lemma walIndexAppend_eq:
  assumes "map_rc (walFramePage f) = 0" "h = walFramePage f" "idx = f - hash_iZero h"
  shows "walIndexAppend map_rc W f p =
    (let W = (if idx = 1 then zero_page W h else W);
         W = (if aPgno (w_index W h) ! (idx - 1) \<noteq> 0 then walCleanupHash map_rc W else W)
     in append_entry W h idx p)"
  using assms(1) unfolding assms(2,3) walIndexAppend_def append_entry_def zero_page_def
  by (cases "f - hash_iZero (walFramePage f) = 1") (simp_all add: Let_def split: option.split)

lemma append_entry_ok:
  assumes ok: "index_ok W fs" and h: "h = walFramePage (Suc (length fs))" and pg: "page_ok h (w_index W h) (seg h fs)" and p: "p \<noteq> 0"
  obtains W' where "append_entry W h (Suc (length fs) - hash_iZero h) p = (0, W')" "index_ok W' (fs @ [p])" "same_hdr W W'"
proof -
  note S = seg_append_same [OF h]
  let ?ps = "seg h fs"
  have idx: "Suc (length fs) - hash_iZero h = Suc (length ?ps)" using S by simp
  obtain k where k: "append_probe (aHash (w_index W h)) (walHash p) (Suc (length ?ps)) = Some k"
      "page_ok h ((w_index W h)\<lparr>aPgno := (aPgno (w_index W h))[length ?ps := p], aHash := (aHash (w_index W h))[k := Suc (length ?ps)]\<rparr>) (?ps @ [p])"
    using page_append [OF pg S(3) p] by blast
  let ?pg = "(w_index W h)\<lparr>aPgno := (aPgno (w_index W h))[length ?ps := p], aHash := (aHash (w_index W h))[k := Suc (length ?ps)]\<rparr>"
  let ?W = "W\<lparr>w_index := (w_index W)(h := ?pg)\<rparr>"
  have e: "append_entry W h (Suc (length fs) - hash_iZero h) p = (0, ?W)" using k(1) by (simp add: append_entry_def idx Let_def)
  have "page_ok h' (w_index ?W h') (seg h' (fs @ [p]))" if "seg h' (fs @ [p]) \<noteq> []" for h'
  proof (cases "h' = h")
    case True
    then show ?thesis using k(2) S(1) by simp
  next
    case False
    then show ?thesis using that ok h by (simp add: seg_append_other index_ok_def)
  qed
  moreover have "length (aPgno (w_index ?W h')) = cap h' \<and> length (aHash (w_index ?W h')) = 8192" for h' using ok by (simp add: index_ok_def)
  ultimately have "index_ok ?W (fs @ [p])" unfolding index_ok_def by blast
  then show ?thesis using that [OF e] by (simp add: same_hdr_def)
qed

lemma append_clean:
  assumes ok: "index_ok W fs" and rc: "map_rc (walFramePage (Suc (length fs))) = 0" and p: "p \<noteq> 0"
  obtains W' where "walIndexAppend map_rc W (Suc (length fs)) p = (0, W')" "index_ok W' (fs @ [p])" "same_hdr W W'"
proof -
  define h where "h = walFramePage (Suc (length fs))"
  define idx where "idx = Suc (length fs) - hash_iZero h"
  define V where "V = (if idx = 1 then zero_page W h else W)"
  note S = seg_append_same [OF h_def]
  have pg: "page_ok h (w_index V h) (seg h fs)"
  proof (cases "idx = 1")
    case True
    then have "seg h fs = []" using S by (simp add: idx_def)
    moreover have "length (aHash (w_index W h)) = 8192" "length (aPgno (w_index W h)) = cap h" using ok by (simp_all add: index_ok_def)
    ultimately show ?thesis using True table_zero [of "aHash (w_index W h)"] by (simp add: V_def zero_page_def page_ok_def map_replicate_const)
  next
    case False
    then have "seg h fs \<noteq> []" using S by (auto simp: idx_def)
    then show ?thesis using ok False by (simp add: V_def index_ok_def)
  qed
  have okV: "index_ok V fs"
  proof -
    have "page_ok h' (w_index V h') (seg h' fs)" if "seg h' fs \<noteq> []" for h'
      using pg ok that by (cases "h' = h") (auto simp: V_def zero_page_def index_ok_def)
    then show ?thesis using ok by (auto simp: index_ok_def V_def zero_page_def)
  qed
  have i: "idx - 1 = length (seg h fs)" using S by (simp add: idx_def)
  have "aPgno (w_index V h) ! (idx - 1) = 0" using pg S(3) unfolding i page_ok_def by (simp add: nth_append)
  then have "walIndexAppend map_rc W (Suc (length fs)) p = append_entry V h idx p"
    using walIndexAppend_eq [of map_rc "Suc (length fs)" h idx W p, OF rc h_def idx_def] by (simp add: V_def Let_def)
  moreover obtain W' where "append_entry V h idx p = (0, W')" "index_ok W' (fs @ [p])" "same_hdr V W'"
    using append_entry_ok [OF okV h_def pg p] unfolding idx_def by blast
  moreover have "same_hdr W V" by (simp add: V_def zero_page_def same_hdr_def)
  ultimately show ?thesis using that [of W'] by (simp add: same_hdr_def)
qed

subsection \<open>Rollback and the remnants of an interrupted transaction\<close>

lemma cleanup_ok:
  assumes ok: "index_ok W fs" and m: "0 < w_mxFrame W" "w_mxFrame W \<le> length fs" and rc: "map_rc (walFramePage (w_mxFrame W)) = 0"
  shows "index_ok (walCleanupHash map_rc W) (take (w_mxFrame W) fs)" "same_hdr W (walCleanupHash map_rc W)"
proof -
  define m where "m = w_mxFrame W"
  define h where "h = walFramePage m"
  define l where "l = m - hash_iZero h"
  define pg where "pg = (w_index W h)\<lparr>aHash := map (\<lambda>v. if l < v then 0 else v) (aHash (w_index W h)),
      aPgno := take l (aPgno (w_index W h)) @ replicate (length (aPgno (w_index W h)) - l) 0\<rparr>"
  have c: "walCleanupHash map_rc W = W\<lparr>w_index := (w_index W)(h := pg)\<rparr>"
    using assms(2,4) by (simp add: walCleanupHash_def Let_def pg_def l_def h_def m_def)
  have m0: "0 < m" "m \<le> length fs" using assms(2,3) by (simp_all add: m_def)
  note fp = frame_page [OF m0(1), folded h_def]
  have l: "0 < l" "l \<le> length (seg h fs)" "l \<le> cap h" using fp m0(2) by (auto simp: l_def seg_def)
  have "seg h fs \<noteq> []" using l by auto
  then have old: "page_ok h (w_index W h) (seg h fs)" using ok by (simp add: index_ok_def)
  have len: "length (aPgno (w_index W h)) = cap h" using ok by (simp add: index_ok_def)
  have "take l (aPgno (w_index W h)) = take l (seg h fs)" using old l(2) by (simp add: page_ok_def)
  then have new: "page_ok h pg (take l (seg h fs))"
    using old l len table_cut [of "aHash (w_index W h)" "seg h fs" l] by (auto simp: page_ok_def pg_def min_def dest: in_set_takeD)
  have "page_ok h' (w_index (W\<lparr>w_index := (w_index W)(h := pg)\<rparr>) h') (seg h' (take m fs))" if "seg h' (take m fs) \<noteq> []" for h'
  proof (cases "h' = h")
    case True
    then show ?thesis using new seg_take_same [OF h_def m0(1), of fs] by (simp add: l_def)
  next
    case False
    then have "seg h' (take m fs) = seg h' fs" using seg_take_other [of h' m fs] m0(1) that h_def by simp
    then show ?thesis using False that ok by (simp add: index_ok_def)
  qed
  moreover have "length (aPgno (w_index (W\<lparr>w_index := (w_index W)(h := pg)\<rparr>) h')) = cap h' \<and>
      length (aHash (w_index (W\<lparr>w_index := (w_index W)(h := pg)\<rparr>) h')) = 8192" for h'
    using ok l(3) len by (simp add: index_ok_def pg_def)
  ultimately show "index_ok (walCleanupHash map_rc W) (take (w_mxFrame W) fs)" unfolding c index_ok_def m_def by blast
  show "same_hdr W (walCleanupHash map_rc W)" by (simp add: c same_hdr_def)
qed

text \<open>An append right after the committed frames drops whatever the index still holds of later ones.\<close>

lemma append_dirty:
  assumes ok: "index_ok W fs" and m: "w_mxFrame W \<le> length fs" and p: "p \<noteq> 0" "0 \<notin> set fs" and rc: "\<And>h. map_rc h = 0"
  obtains W' where "walIndexAppend map_rc W (Suc (w_mxFrame W)) p = (0, W')" "index_ok W' (take (w_mxFrame W) fs @ [p])" "same_hdr W W'"
proof -
  define m where "m = w_mxFrame W"
  define h where "h = walFramePage (Suc m)"
  have lm: "length (take m fs) = m" using assms(2) by (simp add: m_def)
  note fp = frame_page [of "Suc m", folded h_def]
  note goal = that
  have plain: ?thesis if okt: "index_ok W (take m fs)"
  proof -
    obtain W' where "walIndexAppend map_rc W (Suc (length (take m fs))) p = (0, W')" "index_ok W' (take m fs @ [p])" "same_hdr W W'"
      by (rule append_clean [OF okt rc p(1)])
    then show ?thesis using goal [of W'] lm by (simp add: m_def)
  qed
  show ?thesis
  proof (cases "hash_iZero h = m")
    case True
    have "page_ok h' (w_index W h') (seg h' (take m fs))" if "seg h' (take m fs) \<noteq> []" for h'
    proof -
      have "0 < m" using that by (auto simp: seg_def)
      have "h' \<noteq> h" using that True by (auto simp: seg_def)
      have "hash_iZero h' < m" using that by (auto simp: seg_def)
      then have "hash_iZero h' + cap h' \<le> m" using frame_page_unique [of h' "Suc m"] \<open>h' \<noteq> h\<close> h_def by linarith
      then have "seg h' (take m fs) = seg h' fs" by (simp add: seg_def drop_take min_def)
      then show ?thesis using that ok by (simp add: index_ok_def)
    qed
    then have "index_ok W (take m fs)" using ok by (simp add: index_ok_def)
    then show ?thesis by (rule plain)
  next
    case False
    then have z: "hash_iZero h < m" "m \<le> hash_iZero h + cap h" using fp by simp_all
    have hm: "walFramePage m = h" by (rule frame_page_unique [OF z])
    show ?thesis
    proof (cases "m = length fs")
      case True
      then show ?thesis using plain ok by simp
    next
      case False
      then have ml: "m < length fs" using assms(2) by (simp add: m_def)
      let ?C = "walCleanupHash map_rc W"
      have m0: "0 < w_mxFrame W" using z by (simp add: m_def)
      note C = cleanup_ok [OF ok m0 assms(2), of map_rc, OF rc]
      have s: "seg h fs \<noteq> []" "m - hash_iZero h < length (seg h fs)" "seg h fs ! (m - hash_iZero h) = fs ! m"
        using seg_nth [of "Suc m" fs, folded h_def] z ml by auto
      then have "page_ok h (w_index W h) (seg h fs)" using ok by (simp add: index_ok_def)
      then have "aPgno (w_index W h) ! (m - hash_iZero h) = fs ! m" using s by (simp add: page_ok_def nth_append)
      then have nz: "aPgno (w_index W h) ! (m - hash_iZero h) \<noteq> 0" using p(2) ml nth_mem [of m fs] by metis
      have idx: "Suc m - hash_iZero h \<noteq> 1" "Suc m - hash_iZero h - 1 = m - hash_iZero h" using z by simp_all
      have d: "walIndexAppend map_rc W (Suc m) p = append_entry ?C h (Suc m - hash_iZero h) p"
        using walIndexAppend_eq [of map_rc "Suc m" h _ W p, OF rc h_def refl] idx nz by (simp add: Let_def)
      have okC: "index_ok ?C (take m fs)" using C(1) by (simp add: m_def)
      have segC: "seg h (take m fs) = take (m - hash_iZero h) (seg h fs)" using seg_take_same [of h m fs] hm z by simp
      have ne: "seg h (take m fs) \<noteq> []" using segC s(2) z by auto
      have pgC: "page_ok h (w_index ?C h) (seg h (take m fs))" using okC ne by (simp add: index_ok_def)
      have hC: "h = walFramePage (Suc (length (take m fs)))" using lm h_def by simp
      obtain W' where "append_entry ?C h (Suc (length (take m fs)) - hash_iZero h) p = (0, W')" "index_ok W' (take m fs @ [p])" "same_hdr ?C W'"
        using append_entry_ok [OF okC hC pgC p(1)] by blast
      then show ?thesis using that [of W'] d C(2) lm by (simp add: m_def same_hdr_def)
    qed
  qed
qed

subsection \<open>The search finds the newest frame\<close>

definition best :: "nat set \<Rightarrow> nat" where
  "best S = (if S = {} then 0 else Max S)"

lemma best_eqI:
  assumes "finite S" "r = 0 \<or> r \<in> S" "\<And>f. f \<in> S \<Longrightarrow> f \<le> r" "0 \<notin> S"
  shows "best S = r"
proof (cases "S = {}")
  case True
  then show ?thesis using assms(2) by (simp add: best_def)
next
  case False
  then have "r \<in> S" using assms(2-4) by (metis all_not_in_conv le_zero_eq)
  then show ?thesis using assms by (auto simp: best_def intro: Max_eqI)
qed

lemma best_cases: "finite S \<Longrightarrow> 0 \<notin> S \<Longrightarrow> (best S = 0 \<longleftrightarrow> S = {}) \<and> (S \<noteq> {} \<longrightarrow> best S \<in> S \<and> (\<forall>f \<in> S. f \<le> best S))"
  by (metis Max_ge Max_in best_def)

text \<open>The frames from \<open>lo\<close> to \<open>hi\<close> that hold page \<open>p\<close>.\<close>

definition frames_of :: "nat list \<Rightarrow> nat \<Rightarrow> nat \<Rightarrow> nat \<Rightarrow> nat set" where
  "frames_of fs p lo hi = {f. 0 < f \<and> lo \<le> f \<and> f \<le> hi \<and> fs ! (f - 1) = p}"

lemma frames_of_finite [simp]: "finite (frames_of fs p lo hi)" "0 \<notin> frames_of fs p lo hi"
  by (auto simp: frames_of_def intro: finite_subset [of _ "{..hi}"])

lemma frames_of_filter: "frames_of fs p lo hi = set (filter (\<lambda>f. lo \<le> f \<and> fs ! (f - 1) = p) [1..<Suc hi])"
  by (auto simp: frames_of_def)

lemma walFramePgno_nth:
  assumes ok: "index_ok W fs" and f: "0 < f" "f \<le> length fs"
  shows "walFramePgno W f = fs ! (f - 1)"
proof -
  let ?h = "walFramePage f"
  note s = seg_nth [OF f]
  have "seg ?h fs \<noteq> []" using s(1) by auto
  then have "page_ok ?h (w_index W ?h) (seg ?h fs)" using ok by (simp add: index_ok_def)
  then have n: "aPgno (w_index W ?h) ! (f - hash_iZero ?h - 1) = fs ! (f - 1)" using s by (simp add: page_ok_def nth_append)
  note fp = frame_page [OF f(1)]
  show ?thesis
  proof (cases "?h")
    case 0
    then show ?thesis using n by (simp add: walFramePgno_def hash_iZero_def)
  next
    case (Suc k)
    then have z: "hash_iZero ?h = 4062 + k * 4096" "cap ?h = 4096" by (simp_all add: hash_iZero_def cap_def)
    then have "f - 1 - 4062 = (f - hash_iZero ?h - 1) + k * 4096" "f - hash_iZero ?h - 1 < 4096" using fp by simp_all
    then have "(f - 1 - 4062) mod 4096 = f - hash_iZero ?h - 1" by simp
    then show ?thesis using n Suc by (simp add: walFramePgno_def Let_def)
  qed
qed

lemma linear_find_best:
  "index_ok W fs \<Longrightarrow> n \<le> length fs \<Longrightarrow> linear_find W p n = best (frames_of fs p (w_minFrame W) n)"
proof (induction n)
  case 0
  then show ?case by (simp add: best_def frames_of_def)
next
  case (Suc n)
  have pg: "walFramePgno W (Suc n) = fs ! n" using walFramePgno_nth [OF Suc.prems(1), of "Suc n"] Suc.prems(2) by simp
  show ?case
  proof (cases "Suc n < w_minFrame W \<or> fs ! n = p")
    case True
    then show ?thesis using pg by (intro best_eqI [symmetric]) (auto simp: frames_of_def)
  next
    case False
    then have "frames_of fs p (w_minFrame W) (Suc n) = frames_of fs p (w_minFrame W) n" by (auto simp: frames_of_def le_Suc_eq)
    then show ?thesis using Suc False pg by simp
  qed
qed

text \<open>One table finds the newest frame among its own.\<close>

lemma find_page:
  assumes ok: "index_ok W fs" and l: "iLast \<le> length fs"
    and ne: "hash_iZero h < iLast"
    and S: "S = {f \<in> frames_of fs p (w_minFrame W) iLast. hash_iZero h < f \<and> f \<le> hash_iZero (Suc h)}"
    and hit: "hit = (\<lambda>iH. iH + hash_iZero h \<le> iLast \<and> w_minFrame W \<le> iH + hash_iZero h \<and> aPgno (w_index W h) ! (iH - 1) = p)"
  obtains r where "find_probe (aHash (w_index W h)) hit (walHash p) 0 8192 = Some r"
    "(if r = 0 then 0 else r + hash_iZero h) = best S"
proof -
  let ?ps = "seg h fs" and ?z = "hash_iZero h"
  have "?ps \<noteq> []" using ne l by (auto simp: seg_def cap_def)
  then have pg: "page_ok h (w_index W h) ?ps" using ok by (simp add: index_ok_def)
  have t: "table_ok (aHash (w_index W h)) ?ps" "length ?ps < 8192" using pg seg_length(1) [of h fs] seg_length(2) [of h] by (auto simp: page_ok_def)
  have at: "aPgno (w_index W h) ! (i - 1) = ?ps ! (i - 1)" if "0 < i" "i \<le> length ?ps" for i
    using pg that by (simp add: page_ok_def nth_append) linarith
  have frame: "?ps ! (i - 1) = fs ! (i + ?z - 1)" if "0 < i" "i \<le> length ?ps" for i
    using that ne l by (cases i) (simp_all add: seg_def add.commute)
  obtain r where r: "find_probe (aHash (w_index W h)) hit (walHash p) 0 8192 = Some r" "r = 0 \<or> r \<le> length ?ps \<and> hit r"
      "\<And>j. 0 < j \<Longrightarrow> j \<le> length ?ps \<Longrightarrow> hit j \<Longrightarrow> j \<le> r"
  proof (rule table_find [OF t])
    fix i assume "0 < i" "i \<le> length ?ps" "hit i"
    then show "?ps ! (i - 1) = p" using at by (simp add: hit)
  next
    fix r assume r: "find_probe (aHash (w_index W h)) hit (walHash p) 0 8192 = Some r" "r = 0 \<or> r \<le> length ?ps \<and> hit r"
      and max: "\<And>j. 0 < j \<Longrightarrow> j \<le> length ?ps \<Longrightarrow> hit j \<Longrightarrow> j \<le> r"
    show thesis by (rule that [OF r max])
  qed
  have mem: "j + ?z \<in> S \<longleftrightarrow> hit j" if "0 < j" "j \<le> length ?ps" for j
  proof -
    have "j + ?z \<le> hash_iZero (Suc h)" using that seg_length(1) [of h fs] by (simp add: iZero_Suc)
    then show ?thesis using at [OF that] frame [OF that] that by (auto simp: S hit frames_of_def)
  qed
  have "(if r = 0 then 0 else r + ?z) = best S"
  proof (rule best_eqI [symmetric])
    show "finite S" "0 \<notin> S" by (simp_all add: S)
    show "(if r = 0 then 0 else r + ?z) = 0 \<or> (if r = 0 then 0 else r + ?z) \<in> S" using r(2) mem [of r] by auto
    fix f assume f: "f \<in> S"
    then have "?z < f" "f \<le> hash_iZero (Suc h)" "f \<le> iLast" by (auto simp: S frames_of_def)
    then have j: "0 < f - ?z" "f - ?z \<le> length ?ps" "f - ?z + ?z = f" using l by (auto simp: seg_def iZero_Suc)
    then have "hit (f - ?z)" using mem [OF j(1,2)] f by simp
    from r(3) [OF j(1,2) this] show "f \<le> (if r = 0 then 0 else r + ?z)" using j by auto
  qed
  then show ?thesis using that r(1) by blast
qed

lemma find_tables_best:
  assumes ok: "index_ok W fs" and l: "iLast \<le> length fs" and rc: "\<And>h. map_rc h = 0"
  shows "a \<le> b \<Longrightarrow> hash_iZero b < iLast \<Longrightarrow> find_tables map_rc W p iLast (rev [a..<Suc b])
    = (0, best {f \<in> frames_of fs p (w_minFrame W) iLast. hash_iZero a < f \<and> f \<le> hash_iZero (Suc b)})"
proof (induction b)
  let ?M = "frames_of fs p (w_minFrame W) iLast"
  let ?S = "\<lambda>a b. {f \<in> ?M. hash_iZero a < f \<and> f \<le> hash_iZero (Suc b)}"
  case 0
  obtain r where "find_probe (aHash (w_index W 0)) (\<lambda>iH. iH + hash_iZero 0 \<le> iLast \<and> w_minFrame W \<le> iH + hash_iZero 0
      \<and> aPgno (w_index W 0) ! (iH - 1) = p) (walHash p) 0 8192 = Some r" "(if r = 0 then 0 else r + hash_iZero 0) = best (?S 0 0)"
    by (rule find_page [OF ok l 0(2) refl refl])
  then show ?case using 0 rc by (auto simp: Let_def split: if_splits)
next
  let ?M = "frames_of fs p (w_minFrame W) iLast"
  let ?S = "\<lambda>a b. {f \<in> ?M. hash_iZero a < f \<and> f \<le> hash_iZero (Suc b)}"
  case (Suc b)
  let ?h = "Suc b"
  obtain r where r: "find_probe (aHash (w_index W ?h)) (\<lambda>iH. iH + hash_iZero ?h \<le> iLast \<and> w_minFrame W \<le> iH + hash_iZero ?h
      \<and> aPgno (w_index W ?h) ! (iH - 1) = p) (walHash p) 0 8192 = Some r" "(if r = 0 then 0 else r + hash_iZero ?h) = best (?S ?h ?h)"
    by (rule find_page [OF ok l Suc(3) refl refl])
  have step: "find_tables map_rc W p iLast (rev [a..<Suc ?h]) =
      (if r \<noteq> 0 then (0, r + hash_iZero ?h) else find_tables map_rc W p iLast (rev [a..<?h]))"
    using Suc(2) r(1) rc by (simp add: Let_def)
  have fin: "finite (?S a' b')" "0 \<notin> ?S a' b'" for a' b' by simp_all
  show ?case
  proof (cases "r = 0")
    case False
    have "best (?S a ?h) = r + hash_iZero ?h"
    proof (rule best_eqI [OF fin(1) _ _ fin(2)])
      have b: "best (?S ?h ?h) = r + hash_iZero ?h" using r(2) False by simp
      then have "r + hash_iZero ?h \<in> ?S ?h ?h" "\<forall>f \<in> ?S ?h ?h. f \<le> r + hash_iZero ?h" using best_cases [OF fin, of ?h ?h] False by auto
      then show "r + hash_iZero ?h = 0 \<or> r + hash_iZero ?h \<in> ?S a ?h" "\<And>f. f \<in> ?S a ?h \<Longrightarrow> f \<le> r + hash_iZero ?h"
        using iZero_mono [OF Suc(2)] by force+
    qed
    then show ?thesis using step False by simp
  next
    case True
    then have e: "?S ?h ?h = {}" using r(2) best_cases [OF fin, of ?h ?h] by auto
    show ?thesis
    proof (cases "a \<le> b")
      case True
      have "hash_iZero b < iLast" using Suc(3) iZero_mono [of b ?h] by simp
      note IH = Suc(1) [OF True this]
      have "f \<le> hash_iZero ?h" if f: "f \<in> ?S a ?h" for f
      proof (rule ccontr)
        assume "\<not> f \<le> hash_iZero ?h"
        with f have "f \<in> ?S ?h ?h" by simp
        with e show False by blast
      qed
      then have "?S a ?h = ?S a b" using iZero_mono [of ?h "Suc ?h"] by fastforce
      then show ?thesis using step \<open>r = 0\<close> IH by simp
    next
      case False
      then have "a = ?h" using Suc(2) by simp
      then show ?thesis using step \<open>r = 0\<close> e by (simp add: best_def)
    qed
  qed
qed

lemma walFindFrame_best:
  assumes ok: "index_ok W fs" and l: "w_mxFrame W \<le> length fs" and rc: "\<And>h. map_rc h = 0"
    and use_wal: "w_readLock W \<noteq> 0 \<or> w_shmUnreliable W"
  shows "walFindFrame map_rc W p = (0, best (frames_of fs p (w_minFrame W) (w_mxFrame W)))"
proof (cases "w_mxFrame W = 0")
  case True
  then show ?thesis by (simp add: walFindFrame_def best_def frames_of_def)
next
  case False
  let ?m = "w_mxFrame W" and ?a = "walFramePage (w_minFrame W)" and ?b = "walFramePage (w_mxFrame W)"
  let ?M = "frames_of fs p (w_minFrame W) ?m"
  have fp: "hash_iZero ?b < ?m" "?m \<le> hash_iZero (Suc ?b)" using frame_page [of ?m] False by (simp_all add: iZero_Suc)
  have low: "hash_iZero ?a < f" if "f \<in> ?M" for f
    using that frame_page(1) [of "w_minFrame W"] by (cases "w_minFrame W = 0") (auto simp: frames_of_def walFramePage_def hash_iZero_def)
  have u: "walFindFrame map_rc W p = find_tables map_rc W p ?m (rev [?a..<Suc ?b])" using False use_wal by (auto simp: walFindFrame_def Let_def)
  show ?thesis
  proof (cases "?a \<le> ?b")
    case True
    have "{f \<in> ?M. hash_iZero ?a < f \<and> f \<le> hash_iZero (Suc ?b)} = ?M" using low fp(2) by (auto simp: frames_of_def)
    then show ?thesis using find_tables_best [where map_rc = map_rc and p = p, OF ok l rc True fp(1)] u by simp
  next
    case False
    then have "hash_iZero (Suc ?b) \<le> hash_iZero ?a" using iZero_mono [of "Suc ?b" ?a] by simp
    then have "?M = {}" using low fp(2) by (fastforce simp: frames_of_def)
    then show ?thesis using u False by (simp add: best_def)
  qed
qed

subsection \<open>The contract of the log's index\<close>

text \<open>The index stands for the frames \<open>fs\<close>; it may hold entries of later frames, left by an interrupted transaction.\<close>

definition holds :: "wal \<Rightarrow> nat list \<Rightarrow> bool" where
  "holds W fs \<longleftrightarrow> w_mxFrame W = length fs \<and> (\<exists>rest. 0 \<notin> set (fs @ rest) \<and> index_ok W (fs @ rest))"

lemma index_ok_hdr: "index_ok (W\<lparr>w_mxFrame := m\<rparr>) fs = index_ok W fs" "index_ok (W\<lparr>w_cksum := c\<rparr>) fs = index_ok W fs"
  "index_ok (W\<lparr>w_iReCksum := n\<rparr>) fs = index_ok W fs"
  by (simp_all add: index_ok_def)

lemma frames_append_clean:
  "index_ok W fs \<Longrightarrow> 0 \<notin> set ps \<Longrightarrow> (\<And>h. map_rc h = 0) \<Longrightarrow>
     \<exists>W'. frames_append map_rc W (length fs) ps = (0, length fs + length ps, W') \<and> index_ok W' (fs @ ps) \<and> same_hdr W W'"
proof (induction ps arbitrary: W fs)
  case Nil
  then show ?case by (simp add: same_hdr_def)
next
  case (Cons p ps)
  have p: "p \<noteq> 0" "0 \<notin> set ps" using Cons.prems(2) by auto
  obtain V where V: "walIndexAppend map_rc W (Suc (length fs)) p = (0, V)" "index_ok V (fs @ [p])" "same_hdr W V"
    by (rule append_clean [OF Cons.prems(1) Cons.prems(3) p(1)])
  from Cons.IH [OF V(2) p(2) Cons.prems(3)] obtain W'
    where "frames_append map_rc V (length (fs @ [p])) ps = (0, length (fs @ [p]) + length ps, W')" "index_ok W' ((fs @ [p]) @ ps)" "same_hdr V W'" by blast
  then show ?case using V by (simp add: same_hdr_def)
qed

lemma walFrames_index_holds:
  assumes "holds W fs" "ps \<noteq> []" "0 \<notin> set ps" "\<And>h. map_rc h = 0"
  shows "\<exists>W'. walFrames_index map_rc W ps = (0, W') \<and> holds W' (fs @ ps) \<and> same_hdr (W\<lparr>w_mxFrame := length (fs @ ps)\<rparr>) W'"
proof -
  obtain rest where r: "w_mxFrame W = length fs" "0 \<notin> set (fs @ rest)" "index_ok W (fs @ rest)" using assms(1) by (auto simp: holds_def)
  obtain p qs where ps: "ps = p # qs" "p \<noteq> 0" "0 \<notin> set qs" using assms(2,3) by (cases ps) auto
  have le: "w_mxFrame W \<le> length (fs @ rest)" using r(1) by simp
  obtain V where V: "walIndexAppend map_rc W (Suc (w_mxFrame W)) p = (0, V)" "index_ok V (take (w_mxFrame W) (fs @ rest) @ [p])" "same_hdr W V"
    by (rule append_dirty [OF r(3) le ps(2) r(2) assms(4)])
  have V2: "index_ok V (fs @ [p])" using V(2) r(1) by simp
  obtain U where U: "frames_append map_rc V (length (fs @ [p])) qs = (0, length (fs @ [p]) + length qs, U)" "index_ok U ((fs @ [p]) @ qs)" "same_hdr V U"
    using frames_append_clean [of V "fs @ [p]" qs map_rc, OF V2 ps(3) assms(4)] by blast
  have "walFrames_index map_rc W ps = (0, U\<lparr>w_mxFrame := length (fs @ ps)\<rparr>)"
    using V(1) U(1) r(1) ps(1) by (simp add: walFrames_index_def)
  moreover have "holds (U\<lparr>w_mxFrame := length (fs @ ps)\<rparr>) (fs @ ps)"
    unfolding holds_def using U(2) ps r(2) by (auto simp: index_ok_hdr intro!: exI [of _ "[]"])
  ultimately show ?thesis using V(3) U(3) by (simp add: same_hdr_def)
qed

lemma cleanup_holds:
  assumes ok: "index_ok W (fs @ rest)" and m: "w_mxFrame W = length fs" and nz: "0 \<notin> set (fs @ rest)" and rc: "\<And>h. map_rc h = 0"
  shows "holds (walCleanupHash map_rc W) fs"
proof (cases "w_mxFrame W = 0")
  case True
  then show ?thesis using ok m nz unfolding holds_def by (auto simp: walCleanupHash_def)
next
  case False
  have "w_mxFrame W \<le> length (fs @ rest)" using m by simp
  from cleanup_ok [OF ok _ this, of map_rc, OF _ rc] False m nz show ?thesis
    unfolding holds_def by (auto simp: same_hdr_def intro!: exI [of _ "[]"])
qed

lemma savepoint_undo_holds:
  assumes "holds W fs" "n \<le> length fs" "\<And>h. map_rc h = 0"
  shows "holds (fst (sqlite3WalSavepointUndo map_rc W (n, c, w_nCkpt W))) (take n fs)"
proof (cases "n < length fs")
  case True
  obtain rest where r: "w_mxFrame W = length fs" "0 \<notin> set (fs @ rest)" "index_ok W (fs @ rest)" using assms(1) by (auto simp: holds_def)
  let ?V = "W\<lparr>w_mxFrame := n, w_cksum := c\<rparr>"
  have e: "take n fs @ drop n fs @ rest = fs @ rest" by simp
  have "index_ok ?V (take n fs @ drop n fs @ rest)" "0 \<notin> set (take n fs @ drop n fs @ rest)" unfolding e using r(2,3) by (simp_all add: index_ok_hdr)
  then have "holds (walCleanupHash map_rc ?V) (take n fs)" using assms(2) by (intro cleanup_holds [of _ _ "drop n fs @ rest"] assms(3)) simp_all
  then show ?thesis using True r(1) by (auto simp: sqlite3WalSavepointUndo_def Let_def holds_def index_ok_hdr)
next
  case False
  then show ?thesis using assms by (auto simp: sqlite3WalSavepointUndo_def Let_def holds_def)
qed

lemma undo_pages_ok: "\<forall>f \<in> set fs. xUndo (walFramePgno W f) = 0 \<Longrightarrow> undo_pages W xUndo fs = (0, map (walFramePgno W) fs)"
  by (induction fs) simp_all

text \<open>A history of the log: sets of frames written, and rollbacks to an earlier length.\<close>

datatype log_op = Write "nat list" | Back nat

fun log_run :: "('s \<Rightarrow> nat list \<Rightarrow> 's) \<Rightarrow> ('s \<Rightarrow> nat \<Rightarrow> 's) \<Rightarrow> log_op list \<Rightarrow> 's \<Rightarrow> 's" where
  "log_run wr bk [] s = s"
| "log_run wr bk (Write ps # ops) s = log_run wr bk ops (wr s ps)"
| "log_run wr bk (Back n # ops) s = log_run wr bk ops (bk s n)"

fun log_frames :: "log_op list \<Rightarrow> nat list \<Rightarrow> nat list" where
  "log_frames [] fs = fs"
| "log_frames (Write ps # ops) fs = log_frames ops (fs @ ps)"
| "log_frames (Back n # ops) fs = log_frames ops (take n fs)"

fun log_legal :: "log_op list \<Rightarrow> nat list \<Rightarrow> bool" where
  "log_legal [] fs \<longleftrightarrow> True"
| "log_legal (Write ps # ops) fs \<longleftrightarrow> ps \<noteq> [] \<and> 0 \<notin> set ps \<and> log_legal ops (fs @ ps)"
| "log_legal (Back n # ops) fs \<longleftrightarrow> n \<le> length fs \<and> log_legal ops (take n fs)"

locale page_log =
  fixes stands :: "'s \<Rightarrow> nat list \<Rightarrow> bool"
    and wr :: "'s \<Rightarrow> nat list \<Rightarrow> 's"
    and bk :: "'s \<Rightarrow> nat \<Rightarrow> 's"
    and fnd :: "'s \<Rightarrow> nat \<Rightarrow> int \<times> nat"
  assumes wr_law: "stands s fs \<Longrightarrow> ps \<noteq> [] \<Longrightarrow> 0 \<notin> set ps \<Longrightarrow> stands (wr s ps) (fs @ ps)"
    and bk_law: "stands s fs \<Longrightarrow> n \<le> length fs \<Longrightarrow> stands (bk s n) (take n fs)"
    and fnd_law: "stands s fs \<Longrightarrow> fnd s p = (0, best (frames_of fs p 1 (length fs)))"
begin

lemma run_stands: "stands s fs \<Longrightarrow> log_legal ops fs \<Longrightarrow> stands (log_run wr bk ops s) (log_frames ops fs)"
proof (induction ops arbitrary: s fs)
  case (Cons op ops)
  then show ?case by (cases op) (simp_all add: wr_law bk_law)
qed simp

lemma run_find:
  assumes "stands s fs" "log_legal ops fs"
  shows "fnd (log_run wr bk ops s) p = (0, best (frames_of (log_frames ops fs) p 1 (length (log_frames ops fs))))"
  using fnd_law [OF run_stands [OF assms]] .

end

definition wal_stands :: "wal \<Rightarrow> nat list \<Rightarrow> bool" where
  "wal_stands W fs \<longleftrightarrow> holds W fs \<and> w_minFrame W \<le> 1 \<and> (w_readLock W \<noteq> 0 \<or> w_shmUnreliable W)"

definition wal_write :: "wal \<Rightarrow> nat list \<Rightarrow> wal" where
  "wal_write W ps = snd (walFrames_index (\<lambda>_. 0) W ps)"

definition wal_back :: "wal \<Rightarrow> nat \<Rightarrow> wal" where
  "wal_back W n = fst (sqlite3WalSavepointUndo (\<lambda>_. 0) W (n, w_cksum W, w_nCkpt W))"

lemma same_hdr_cleanup: "same_hdr W (walCleanupHash map_rc W)"
  by (simp add: walCleanupHash_def same_hdr_def Let_def)

lemma frames_of_low: "w \<le> 1 \<Longrightarrow> frames_of fs p w hi = frames_of fs p 1 hi"
  by (auto simp: frames_of_def)

interpretation wl: page_log wal_stands wal_write wal_back "walFindFrame (\<lambda>_. 0)"
proof
  fix W fs ps n p
  assume st: "wal_stands W fs"
  then have h: "holds W fs" by (simp add: wal_stands_def)
  obtain rest where r: "w_mxFrame W = length fs" "index_ok W (fs @ rest)" using h by (auto simp: holds_def)
  have "walFindFrame (\<lambda>_. 0) W p = (0, best (frames_of (fs @ rest) p (w_minFrame W) (w_mxFrame W)))"
    using r st by (intro walFindFrame_best) (auto simp: wal_stands_def)
  moreover have "frames_of (fs @ rest) p (w_minFrame W) (length fs) = frames_of fs p 1 (length fs)"
    using st by (auto simp: frames_of_def wal_stands_def nth_append)
  ultimately show "walFindFrame (\<lambda>_. 0) W p = (0, best (frames_of fs p 1 (length fs)))" using r(1) by simp
  show "wal_stands (wal_back W n) (take n fs)" if "n \<le> length fs"
  proof -
    have "holds (wal_back W n) (take n fs)" unfolding wal_back_def by (rule savepoint_undo_holds [OF h that]) simp
    moreover have "w_minFrame (wal_back W n) = w_minFrame W" "w_readLock (wal_back W n) = w_readLock W" "w_shmUnreliable (wal_back W n) = w_shmUnreliable W"
      using same_hdr_cleanup [of "W\<lparr>w_mxFrame := n, w_cksum := w_cksum W\<rparr>" "\<lambda>_. 0"]
      by (auto simp: wal_back_def sqlite3WalSavepointUndo_def Let_def same_hdr_def)
    ultimately show ?thesis using st by (simp add: wal_stands_def)
  qed
  show "wal_stands (wal_write W ps) (fs @ ps)" if "ps \<noteq> []" "0 \<notin> set ps"
    using walFrames_index_holds [OF h that, of "\<lambda>_. 0"] st by (auto simp: wal_stands_def wal_write_def same_hdr_def)
qed

section \<open>Properties\<close>

text \<open>C19. \<open>walFindFrame\<close>, which searches the hash tables from the last to the first, returns what the linear search over all frames from
  \<open>mxFrame\<close> down to \<open>minFrame\<close> returns, the newest frame of the page, also when the tables hold entries beyond \<open>mxFrame\<close>.
  It never reports corruption on a well-formed index.\<close>

theorem walFindFrame_linear:
  assumes "index_ok W fs" "w_mxFrame W \<le> length fs" "\<And>h. map_rc h = SQLITE_OK" "w_readLock W \<noteq> 0 \<or> w_shmUnreliable W"
  shows "walFindFrame map_rc W pgno = (SQLITE_OK, linear_find W pgno (w_mxFrame W))"
  using walFindFrame_best [where map_rc = map_rc, OF assms] linear_find_best [OF assms(1,2)] by simp

text \<open>An index over shared memory that holds only zeros, and one over arbitrary content.\<close>

definition wal_new :: wal where
  "wal_new = \<lparr>w_index = (\<lambda>h. \<lparr>aPgno = replicate (cap h) 0, aHash = replicate 8192 0\<rparr>), w_mxFrame = 0, w_minFrame = 1, w_readLock = 1,
     w_shmUnreliable = False, w_cksum = (0, 0), w_nCkpt = 0, w_iReCksum = 0, w_live = (0, (0, 0))\<rparr>"

lemma wal_new_holds: "holds wal_new []" "wal_stands wal_new []"
  by (auto simp: holds_def wal_stands_def wal_new_def index_ok_def seg_def intro!: exI [of _ "[]"])

lemma wal_new_written:
  obtains W where "holds W [7, 9]" "w_mxFrame W = 2" "w_readLock W = 1" "w_live W = (0, (0, 0))"
proof -
  have "\<exists>W. holds W ([] @ [7, 9]) \<and> same_hdr (wal_new\<lparr>w_mxFrame := length ([] @ [7, 9 :: nat])\<rparr>) W"
    using walFrames_index_holds [OF wal_new_holds(1), of "[7, 9]" "\<lambda>_. 0"] by auto
  then show ?thesis using that by (auto simp: same_hdr_def wal_new_def)
qed

theorem walFindFrame_linear_witness:
  "\<exists>W. w_mxFrame W = 2 \<and> walFindFrame (\<lambda>_. 0) W 7 = (0, linear_find W 7 2)"
proof -
  obtain W where W: "holds W [7, 9]" "w_mxFrame W = 2" "w_readLock W = 1" by (rule wal_new_written)
  then obtain rest where "index_ok W ([7, 9] @ rest)" by (auto simp: holds_def)
  then show ?thesis using walFindFrame_linear [of W "[7, 9] @ rest" "\<lambda>_. 0" 7] W by auto
qed

text \<open>C18. Whatever the shared memory held at first, after every history of frame sets written and savepoints rolled back, \<open>walFindFrame\<close>
  returns the newest remaining frame of the page, and 0 for a page without one.\<close>

theorem wal_history_newest_frame:
  assumes "wal_stands W []" "log_legal ops []"
  shows "walFindFrame (\<lambda>_. SQLITE_OK) (log_run wal_write wal_back ops W) pgno
    = (SQLITE_OK, best (frames_of (log_frames ops []) pgno 1 (length (log_frames ops []))))"
  using wl.run_find [OF assms] .

theorem wal_history_newest_frame_witness:
  "walFindFrame (\<lambda>_. 0) (log_run wal_write wal_back [Write [3, 4, 3], Back 2, Write [8]] wal_new) 3 = (0, 1)"
proof -
  have "frames_of [3, 4, 8] 3 (Suc 0) (Suc (Suc (Suc 0))) = {1}" unfolding frames_of_filter by (simp add: upt_rec)
  then show ?thesis
    using wal_history_newest_frame [OF wal_new_holds(2), of "[Write [3, 4, 3], Back 2, Write [8]]" 3] by (simp add: best_def)
qed

text \<open>\<open>sqlite3WalUndo\<close> passes exactly the pages of the frames written since the last commit to the callback, in order, and leaves an
  index that stands for the committed frames.\<close>

theorem sqlite3WalUndo_exact:
  assumes "holds W (fs @ new)" "fst (w_live W) = length fs" "\<And>h. map_rc h = SQLITE_OK" "\<forall>p \<in> set new. xUndo p = SQLITE_OK"
  shows "\<exists>W'. sqlite3WalUndo map_rc W xUndo = (SQLITE_OK, new, W') \<and> holds W' fs \<and> w_cksum W' = snd (w_live W)"
proof -
  obtain rest where r: "w_mxFrame W = length (fs @ new)" "0 \<notin> set ((fs @ new) @ rest)" "index_ok W ((fs @ new) @ rest)"
    using assms(1) by (auto simp: holds_def)
  let ?V = "W\<lparr>w_mxFrame := length fs, w_cksum := snd (w_live W)\<rparr>"
  have pg: "walFramePgno ?V f = new ! (f - Suc (length fs))" if "length fs < f" "f \<le> length (fs @ new)" for f
  proof -
    have "walFramePgno ?V f = walFramePgno W f" by (simp add: walFramePgno_def Let_def)
    also have "\<dots> = ((fs @ new) @ rest) ! (f - 1)" using that by (intro walFramePgno_nth [OF r(3)]) simp_all
    also have "\<dots> = new ! (f - Suc (length fs))" using that by (simp add: nth_append) linarith
    finally show ?thesis .
  qed
  have m: "map (walFramePgno ?V) [length fs + 1 ..< length (fs @ new) + 1] = new" by (rule nth_equalityI) (simp_all add: pg del: upt_Suc)
  have "\<forall>q \<in> set (map (walFramePgno ?V) [length fs + 1 ..< length (fs @ new) + 1]). xUndo q = 0" unfolding m by (rule assms(4))
  then have "\<forall>f \<in> set [length fs + 1 ..< length (fs @ new) + 1]. xUndo (walFramePgno ?V f) = 0" by simp
  from undo_pages_ok [OF this] m have u: "undo_pages ?V xUndo [length fs + 1 ..< length (fs @ new) + 1] = (0, new)" by simp
  let ?W' = "(if length (fs @ new) \<noteq> length fs then walCleanupHash map_rc ?V else ?V)\<lparr>w_iReCksum := 0\<rparr>"
  have e: "sqlite3WalUndo map_rc W xUndo = (0, new, ?W')" using u r(1) assms(2) by (simp add: sqlite3WalUndo_def Let_def del: upt_Suc)
  have "holds (walCleanupHash map_rc ?V) fs" using r assms(3) by (intro cleanup_holds [of _ _ "new @ rest"]) (simp_all add: index_ok_hdr)
  moreover have "holds ?V fs" if "new = []" using r that unfolding holds_def by (auto simp: index_ok_hdr)
  ultimately have "holds ?W' fs" by (auto simp: holds_def index_ok_hdr)
  moreover have "w_cksum ?W' = snd (w_live W)" by (simp add: walCleanupHash_def Let_def)
  ultimately show ?thesis using e by blast
qed

theorem sqlite3WalUndo_exact_witness:
  "\<exists>W W'. sqlite3WalUndo (\<lambda>_. 0) W (\<lambda>_. 0) = (0, [7, 9], W') \<and> holds W' []"
proof -
  obtain W where "holds W [7, 9]" "w_live W = (0, (0, 0))" by (rule wal_new_written)
  then show ?thesis using sqlite3WalUndo_exact [of W "[]" "[7, 9]" "\<lambda>_. 0" "\<lambda>_. 0"] by auto
qed

end
