(* ===== verification/Wal_Iterator.thy ===== *)
theory Wal_Iterator
  imports Wal_Index
begin

text \<open>
  The iterator of the checkpoint (\<open>src/wal.c\<close>): the pages of the log in ascending order, each with its newest frame.

  Every page of the index becomes a segment: its entries sorted by page number, without the older of two entries of the same page. An array of
  which the code uses the first \<open>n\<close> elements is a list of length \<open>n\<close>. The sort merges in place; the model's merge returns the merged list.
\<close>

section \<open>Definitions\<close>

text \<open>\<open>aContent\<close> has the keys; the lists hold indices into it.\<close>

function walMerge :: "nat list \<Rightarrow> nat list \<Rightarrow> nat list \<Rightarrow> nat list" where
  "walMerge aContent aLeft aRight =
     (if aLeft = [] \<and> aRight = [] then []
      else let fromLeft = (aLeft \<noteq> [] \<and> (aRight = [] \<or> aContent ! hd aLeft < aContent ! hd aRight));
               logpage = (if fromLeft then hd aLeft else hd aRight);
               aLeft = (if fromLeft then tl aLeft else aLeft);
               aRight = (if fromLeft then aRight else tl aRight);
               dbpage = aContent ! logpage;
               aLeft = (if aLeft \<noteq> [] \<and> aContent ! hd aLeft = dbpage then tl aLeft else aLeft)
           in logpage # walMerge aContent aLeft aRight)"
  by pat_completeness auto
termination
proof (relation "measure (\<lambda>(aContent, aLeft, aRight). length aLeft + length aRight)", goal_cases)
  case (2 c l r fromLeft logpage l1 r1 dbpage l2)
  have "length l1 + length r1 < length l + length r" using 2(1-5) by (cases l; cases r) auto
  moreover have "length l2 \<le> length l1" using 2(7) by auto
  ultimately show ?case by simp
qed simp

declare walMerge.simps [simp del]

text \<open>The inner loop of \<open>walMergesort\<close>, over the sublists from \<open>iSub\<close> on, with the bits of \<open>iList\<close>.\<close>

fun merge_carry :: "nat list \<Rightarrow> nat list list \<Rightarrow> nat \<Rightarrow> nat \<Rightarrow> nat list \<Rightarrow> nat \<times> nat list" where
  "merge_carry aContent [] iList iSub aMerge = (iSub, aMerge)"
| "merge_carry aContent (s # subs) iList iSub aMerge =
     (if bit iList iSub then merge_carry aContent subs iList (iSub + 1) (walMerge aContent s aMerge) else (iSub, aMerge))"

fun sort_entries :: "nat list \<Rightarrow> nat list \<Rightarrow> nat list \<Rightarrow> nat list list \<times> nat \<times> nat list \<Rightarrow> nat list list \<times> nat \<times> nat list" where
  "sort_entries aContent aList [] S = S"
| "sort_entries aContent aList (iList # is) (aSub, iSub, aMerge) =
     (let (iSub, aMerge) = merge_carry aContent aSub iList 0 [aList ! iList]
      in sort_entries aContent aList is (aSub[iSub := aMerge], iSub, aMerge))"

fun sort_rest :: "nat list \<Rightarrow> nat list list \<Rightarrow> nat \<Rightarrow> nat \<Rightarrow> nat list \<Rightarrow> nat list" where
  "sort_rest aContent [] nList iSub aMerge = aMerge"
| "sort_rest aContent (s # subs) nList iSub aMerge =
     sort_rest aContent subs nList (iSub + 1) (if bit nList iSub then walMerge aContent s aMerge else aMerge)"

definition walMergesort :: "nat list \<Rightarrow> nat list \<Rightarrow> nat list" where
  "walMergesort aContent aList =
     (let nList = length aList;
          (aSub, iSub, aMerge) = sort_entries aContent aList [0 ..< nList] (replicate 13 [], 0, [])
      in sort_rest aContent (drop (iSub + 1) aSub) nList (iSub + 1) aMerge)"

text \<open>The iterator. \<open>walIteratorNext\<close> also gets the value of \<open>*piFrame\<close>, which it leaves alone when there is no further page.\<close>

record wal_segment =
  s_iNext :: nat
  s_aIndex :: "nat list"
  s_aPgno :: "nat list"
  s_nEntry :: nat
  s_iZero :: nat

record wal_iter =
  i_iPrior :: nat
  i_aSegment :: "wal_segment list"

function seg_skip :: "nat \<Rightarrow> wal_segment \<Rightarrow> wal_segment" where
  "seg_skip iMin pSegment =
     (if s_iNext pSegment < s_nEntry pSegment
      then let iPg = s_aPgno pSegment ! (s_aIndex pSegment ! s_iNext pSegment)
           in if iPg > iMin then pSegment else seg_skip iMin (pSegment\<lparr>s_iNext := s_iNext pSegment + 1\<rparr>)
      else pSegment)"
  by pat_completeness auto
termination by (relation "measure (\<lambda>(iMin, s). s_nEntry s - s_iNext s)") auto

declare seg_skip.simps [simp del]

fun next_segs :: "nat \<Rightarrow> wal_segment list \<Rightarrow> nat \<times> nat \<Rightarrow> wal_segment list \<times> (nat \<times> nat)" where
  "next_segs iMin [] r = ([], r)"
| "next_segs iMin (pSegment # ss) r =
     (let (ss, (iRet, iFrame)) = next_segs iMin ss r;
          pSegment = seg_skip iMin pSegment;
          i = s_aIndex pSegment ! s_iNext pSegment;
          iPg = s_aPgno pSegment ! i
      in (pSegment # ss,
          if s_iNext pSegment < s_nEntry pSegment \<and> iPg < iRet then (iPg, s_iZero pSegment + i) else (iRet, iFrame)))"

definition walIteratorNext :: "wal_iter \<Rightarrow> nat \<Rightarrow> bool \<times> nat \<times> nat \<times> wal_iter" where
  "walIteratorNext p piFrame =
     (let (ss, (iRet, iFrame)) = next_segs (i_iPrior p) (i_aSegment p) (0xFFFFFFFF, piFrame)
      in (iRet = 0xFFFFFFFF, iRet, iFrame, p\<lparr>i_iPrior := iRet, i_aSegment := ss\<rparr>))"

fun init_segs :: "(nat \<Rightarrow> int) \<Rightarrow> wal \<Rightarrow> nat \<Rightarrow> nat \<Rightarrow> nat list \<Rightarrow> wal_segment list \<Rightarrow> int \<times> wal_segment list" where
  "init_segs map_rc W iLast nSegment [] segs = (SQLITE_OK, segs)"
| "init_segs map_rc W iLast nSegment (i # is) segs =
     (if map_rc i \<noteq> SQLITE_OK then (map_rc i, segs)
      else let iZero = hash_iZero i;
               nEntry = (if i + 1 = nSegment then iLast - iZero else if i = 0 then HASHTABLE_NPAGE_ONE else HASHTABLE_NPAGE);
               aIndex = walMergesort (aPgno (w_index W i)) [0 ..< nEntry]
           in init_segs map_rc W iLast nSegment is
                (segs[i := \<lparr>s_iNext = 0, s_aIndex = aIndex, s_aPgno = aPgno (w_index W i), s_nEntry = length aIndex, s_iZero = iZero + 1\<rparr>]))"

definition walIteratorInit :: "(nat \<Rightarrow> int) \<Rightarrow> bool \<Rightarrow> wal \<Rightarrow> nat \<Rightarrow> int \<times> wal_iter option" where
  "walIteratorInit map_rc mem W nBackfill =
     (let iLast = w_mxFrame W;
          nSegment = walFramePage iLast + 1
      in if \<not> mem then (SQLITE_NOMEM, None)
         else let (rc, segs) = init_segs map_rc W iLast nSegment [walFramePage (nBackfill + 1) ..< nSegment]
                    (replicate nSegment \<lparr>s_iNext = 0, s_aIndex = [], s_aPgno = [], s_nEntry = 0, s_iZero = 0\<rparr>)
              in if rc \<noteq> SQLITE_OK then (rc, None) else (rc, Some \<lparr>i_iPrior = 0, i_aSegment = segs\<rparr>))"

section \<open>Lemmas\<close>

subsection \<open>The sort\<close>

text \<open>The list of the indices in \<open>A\<close>, ascending by key, with the largest index of each key.\<close>

definition newest :: "nat list \<Rightarrow> nat set \<Rightarrow> nat list \<Rightarrow> bool" where
  "newest c A ys \<longleftrightarrow> sorted_wrt (\<lambda>i j. c ! i < c ! j) ys \<and> set ys = {i \<in> A. \<forall>j \<in> A. c ! j = c ! i \<longrightarrow> j \<le> i}"

definition asc :: "nat list \<Rightarrow> nat list \<Rightarrow> bool" where
  "asc c ys \<longleftrightarrow> sorted_wrt (\<lambda>i j. c ! i < c ! j) ys"

lemma walMerge_asc:
  "asc c l \<Longrightarrow> asc c r \<Longrightarrow> asc c (walMerge c l r) \<and> set (walMerge c l r) = set r \<union> {i \<in> set l. \<forall>j \<in> set r. c ! j \<noteq> c ! i}"
proof (induction c l r rule: walMerge.induct)
  case (1 c l r)
  consider "l = []" "r = []" | x l' where "l = x # l'" "r = [] \<or> c ! x < c ! hd r" | y r' where "r = y # r'" "l = [] \<or> c ! y \<le> c ! hd l"
    by (cases l; cases r; cases "c ! hd l < c ! hd r") (auto simp: not_less)
  then show ?case
  proof cases
    case 1
    then show ?thesis by (simp add: walMerge.simps asc_def)
  next
    case (2 x l')
    have a: "asc c l'" "\<forall>i \<in> set l'. c ! x < c ! i" using 1(2) 2(1) by (auto simp: asc_def)
    have b: "\<forall>i \<in> set r. c ! x < c ! i" using 1(3) 2(2) by (cases r) (auto simp: asc_def)
    have hd: "\<not> (l' \<noteq> [] \<and> c ! hd l' = c ! x)" using a(2) by (cases l') auto
    have e: "walMerge c l r = x # walMerge c l' r" using 2 hd by (subst walMerge.simps) (auto simp: Let_def)
    have IH: "asc c (walMerge c l' r) \<and> set (walMerge c l' r) = set r \<union> {i \<in> set l'. \<forall>j \<in> set r. c ! j \<noteq> c ! i}"
      using 1(1) [OF _ refl refl refl refl refl refl] 2 hd a(1) 1(3) by auto
    have "asc c (x # walMerge c l' r)" using IH a(2) b by (auto simp: asc_def)
    moreover have "set (x # walMerge c l' r) = set r \<union> {i \<in> set l. \<forall>j \<in> set r. c ! j \<noteq> c ! i}"
      using IH 2(1) b by auto
    ultimately show ?thesis unfolding e by blast
  next
    case (3 y r')
    define l' where "l' = (if l \<noteq> [] \<and> c ! hd l = c ! y then tl l else l)"
    have a: "asc c r'" "\<forall>i \<in> set r'. c ! y < c ! i" using 1(3) 3(1) by (auto simp: asc_def)
    have al: "asc c l'" using 1(2) by (cases l) (auto simp: asc_def l'_def)
    have bl: "\<forall>i \<in> set l'. c ! y < c ! i" using 1(2) 3(2) by (cases l) (auto simp: asc_def l'_def)
    have sl: "set l' = {i \<in> set l. c ! i \<noteq> c ! y}"
      using 1(2) 3(2) by (cases l) (auto simp: asc_def l'_def)
    have nl: "\<not> (l \<noteq> [] \<and> (r = [] \<or> c ! hd l < c ! hd r))" using 3 by auto
    have e: "walMerge c l r = y # walMerge c l' r'" using 3(1) nl by (subst walMerge.simps) (auto simp: Let_def l'_def)
    have IH: "asc c (walMerge c l' r') \<and> set (walMerge c l' r') = set r' \<union> {i \<in> set l'. \<forall>j \<in> set r'. c ! j \<noteq> c ! i}"
      using 1(1) [OF _ refl refl refl refl refl refl] 3(1) nl a(1) al by (auto simp: l'_def)
    have "asc c (y # walMerge c l' r')" using IH a(2) bl by (auto simp: asc_def)
    moreover have "set (y # walMerge c l' r') = set r \<union> {i \<in> set l. \<forall>j \<in> set r. c ! j \<noteq> c ! i}"
      using IH 3(1) sl by auto
    ultimately show ?thesis unfolding e by blast
  qed
qed

lemma newest_keys: "finite A \<Longrightarrow> newest c A ys \<Longrightarrow> a \<in> A \<Longrightarrow> \<exists>y \<in> set ys. c ! y = c ! a \<and> a \<le> y"
proof -
  assume fin: "finite A" and n: "newest c A ys" and a: "a \<in> A"
  let ?S = "{i \<in> A. c ! i = c ! a}"
  have "finite ?S" "?S \<noteq> {}" using fin a by auto
  then have "Max ?S \<in> ?S" "\<forall>j \<in> ?S. j \<le> Max ?S" by (auto dest: Max_in)
  then show ?thesis using n a unfolding newest_def by (intro bexI [of _ "Max ?S"]) auto
qed

lemma newest_merge:
  assumes fin: "finite A" "finite B" and n: "newest c A l" "newest c B r" and lt: "\<And>a b. a \<in> A \<Longrightarrow> b \<in> B \<Longrightarrow> a < b"
  shows "newest c (A \<union> B) (walMerge c l r)"
proof -
  have "asc c l" "asc c r" using n by (auto simp: newest_def asc_def)
  note m = walMerge_asc [OF this]
  have "i \<in> set r \<union> {i \<in> set l. \<forall>j \<in> set r. c ! j \<noteq> c ! i} \<longleftrightarrow> i \<in> A \<union> B \<and> (\<forall>j \<in> A \<union> B. c ! j = c ! i \<longrightarrow> j \<le> i)" for i
  proof (cases "i \<in> B")
    case True
    then have "i \<notin> A" using lt by blast
    then have "i \<notin> set l" using n(1) by (auto simp: newest_def)
    moreover have "i \<in> set r \<longleftrightarrow> (\<forall>j \<in> B. c ! j = c ! i \<longrightarrow> j \<le> i)" using n(2) True by (auto simp: newest_def)
    moreover have "\<forall>j \<in> A. j \<le> i" using lt True by (auto intro: less_imp_le)
    ultimately show ?thesis using True by blast
  next
    case False
    then have ir: "i \<notin> set r" using n(2) by (auto simp: newest_def)
    have "(\<forall>j \<in> set r. c ! j \<noteq> c ! i) \<longleftrightarrow> (\<forall>j \<in> B. c ! j \<noteq> c ! i)"
      using newest_keys [OF fin(2) n(2)] n(2) by (auto simp: newest_def) metis
    moreover have "i \<in> A \<Longrightarrow> (\<forall>j \<in> B. c ! j \<noteq> c ! i) \<longleftrightarrow> (\<forall>j \<in> B. c ! j = c ! i \<longrightarrow> j \<le> i)" using lt by (meson not_le)
    ultimately show ?thesis using ir False n(1) unfolding newest_def by blast
  qed
  then show ?thesis using m unfolding newest_def asc_def by auto
qed

text \<open>After \<open>m\<close> blocks of size \<open>2 ^ k\<close>, the sublist of every set bit of \<open>m\<close> is sorted: it has the last blocks not in a lower one.\<close>

fun blocks :: "nat list \<Rightarrow> nat list list \<Rightarrow> nat \<Rightarrow> nat \<Rightarrow> bool" where
  "blocks c [] k m \<longleftrightarrow> True"
| "blocks c (s # subs) k m \<longleftrightarrow> (odd m \<longrightarrow> newest c {(m - 1) * 2 ^ k ..< m * 2 ^ k} s) \<and> blocks c subs (Suc k) (m div 2)"

lemma blocks_start: "blocks c (replicate n []) k 0"
  by (induction n arbitrary: k) simp_all

lemma newest_join:
  assumes "newest c {a..<b} l" "newest c {b..<d} r" "a \<le> b" "b \<le> d"
  shows "newest c {a..<d} (walMerge c l r)"
  using newest_merge [OF _ _ assms(1,2)] assms(3,4) by (simp add: ivl_disj_un_two(3))

lemma carry_blocks:
  assumes "blocks c subs k m" "m = i div 2 ^ k" "newest c {m * 2 ^ k ..< Suc m * 2 ^ k} M" "m < 2 ^ length subs - 1" "merge_carry c subs i k M = (j, M')"
  shows "k \<le> j \<and> j < k + length subs \<and> blocks c (subs[j - k := M']) k (Suc m) \<and> even (i div 2 ^ j)
    \<and> Suc (i div 2 ^ j) * 2 ^ j = Suc m * 2 ^ k \<and> newest c {i div 2 ^ j * 2 ^ j ..< Suc m * 2 ^ k} M'"
  using assms
proof (induction subs arbitrary: k m M)
  case Nil
  then show ?case by simp
next
  case (Cons s subs)
  have b: "bit i k \<longleftrightarrow> odd m" using Cons.prems(2) by (simp add: bit_iff_odd)
  show ?case
  proof (cases "odd m")
    case False
    then have "j = k" "M' = M" using Cons.prems(5) b by auto
    moreover have "Suc m div 2 = m div 2" using False by presburger
    ultimately show ?thesis using Cons.prems(1-3) False by simp
  next
    case True
    have q: "m div 2 = i div 2 ^ Suc k" using Cons.prems(2) by (metis div_mult2_eq power_Suc2)
    obtain n where m: "m = Suc (2 * n)" using True by (metis oddE Suc_eq_plus1)
    have "newest c {2 * n * 2 ^ k ..< Suc (2 * n) * 2 ^ k} s" using Cons.prems(1) m by simp
    moreover have "newest c {Suc (2 * n) * 2 ^ k ..< Suc (Suc (2 * n)) * 2 ^ k} M" using Cons.prems(3) m by simp
    ultimately have "newest c {2 * n * 2 ^ k ..< Suc (Suc (2 * n)) * 2 ^ k} (walMerge c s M)" by (rule newest_join) simp_all
    then have M: "newest c {m div 2 * 2 ^ Suc k ..< Suc (m div 2) * 2 ^ Suc k} (walMerge c s M)" using m by (simp add: algebra_simps)
    have lt: "m div 2 < 2 ^ length subs - 1" using Cons.prems(4) m by simp
    have bl: "blocks c subs (Suc k) (m div 2)" using Cons.prems(1) by simp
    have mc: "merge_carry c subs i (Suc k) (walMerge c s M) = (j, M')" using Cons.prems(5) b True by simp
    note IH = Cons.IH [OF bl q M lt mc]
    have e: "Suc (m div 2) * 2 ^ Suc k = Suc m * 2 ^ k" "Suc m div 2 = Suc (m div 2)" using m by (simp_all add: algebra_simps)
    have "j - k = Suc (j - Suc k)" using IH by (simp add: Suc_diff_Suc)
    then have "(s # subs)[j - k := M'] = s # subs[j - Suc k := M']" by simp
    moreover have "Suc k \<le> j" "j < Suc k + length subs" "blocks c (subs[j - Suc k := M']) (Suc k) (Suc (m div 2))" "even (i div 2 ^ j)"
      using IH by blast+
    moreover have "Suc (i div 2 ^ j) * 2 ^ j = Suc m * 2 ^ k" "newest c {i div 2 ^ j * 2 ^ j ..< Suc m * 2 ^ k} M'"
      using IH unfolding e(1) by blast+
    ultimately show ?thesis using e(2) True by (simp del: mult_Suc)
  qed
qed

lemma rest_blocks:
  assumes "blocks c subs k (n div 2 ^ k)" "newest c {n div 2 ^ k * 2 ^ k ..< n} M"
  shows "newest c {n div 2 ^ (k + length subs) * 2 ^ (k + length subs) ..< n} (sort_rest c subs n k M)"
  using assms
proof (induction subs arbitrary: k M)
  case (Cons s subs)
  let ?m = "n div 2 ^ k"
  have q: "?m div 2 = n div 2 ^ Suc k" by (metis div_mult2_eq power_Suc2)
  have le: "?m * 2 ^ k \<le> n" by simp
  define M1 where "M1 = (if bit n k then walMerge c s M else M)"
  have "newest c {?m div 2 * 2 ^ Suc k ..< n} M1"
  proof (cases "odd ?m")
    case True
    then obtain j where "?m = Suc (2 * j)" by (metis oddE Suc_eq_plus1)
    then have "?m div 2 * 2 ^ Suc k = (?m - 1) * 2 ^ k" by (simp only: diff_Suc_1 power_Suc div_mult_self1_is_m) simp
    moreover have "newest c {(?m - 1) * 2 ^ k ..< n} (walMerge c s M)"
      using Cons.prems True le by (intro newest_join [of c _ "?m * 2 ^ k"]) (simp_all add: mult_le_mono1)
    moreover have "M1 = walMerge c s M" using True by (simp add: M1_def bit_iff_odd)
    ultimately show ?thesis by metis
  next
    case False
    then obtain j where "?m = 2 * j" by blast
    then have "?m div 2 * 2 ^ Suc k = ?m * 2 ^ k" by (simp only: power_Suc) simp
    moreover have "M1 = M" using False by (simp add: M1_def bit_iff_odd)
    ultimately show ?thesis using Cons.prems(2) by metis
  qed
  then have n1: "newest c {n div 2 ^ Suc k * 2 ^ Suc k ..< n} M1" using q by metis
  have "blocks c subs (Suc k) (n div 2 ^ Suc k)" using Cons.prems(1) q by simp
  from Cons.IH [OF this n1] show ?case by (simp add: M1_def)
qed simp

lemma entries_blocks:
  assumes "i < n" "n \<le> 4096" "blocks c aSub 0 i" "length aSub = 13" "aList = [0 ..< n]"
  shows "\<exists>aSub' j M. sort_entries c aList [i ..< n] (aSub, x) = (aSub', j, M) \<and> length aSub' = 13 \<and> blocks c aSub' 0 n \<and> j < 13
    \<and> even ((n - 1) div 2 ^ j) \<and> Suc ((n - 1) div 2 ^ j) * 2 ^ j = n \<and> newest c {(n - 1) div 2 ^ j * 2 ^ j ..< n} M"
  using assms
proof (induction "n - i" arbitrary: i aSub x)
  case (Suc d)
  have al: "aList ! i = i" using Suc.prems(1,5) by simp
  obtain j M where mc: "merge_carry c aSub i 0 [aList ! i] = (j, M)" by fastforce
  have one: "newest c {i * 2 ^ 0 ..< Suc i * 2 ^ 0} [aList ! i]" unfolding al by (auto simp: newest_def)
  have lt: "i < 2 ^ length aSub - 1" using Suc.prems(1,2,4) by simp
  have i0: "i = i div 2 ^ 0" by simp
  note C = carry_blocks [OF Suc.prems(3) i0 one lt mc]
  have ns: "[i ..< n] = i # [Suc i ..< n]" using Suc.prems(1) by (simp add: upt_conv_Cons)
  have st: "sort_entries c aList [i ..< n] (aSub, x) = sort_entries c aList [Suc i ..< n] (aSub[j := M], j, M)"
    unfolding ns by (cases x) (simp add: mc)
  show ?case
  proof (cases "Suc i = n")
    case True
    then show ?thesis unfolding st using C Suc.prems(4) by (auto simp del: mult_Suc)
  next
    case False
    then show ?thesis unfolding st using C Suc.prems Suc.hyps(2) by (intro Suc.hyps(1)) auto
  qed
qed simp

text \<open>The sorted list of a segment of \<open>n\<close> entries.\<close>

lemma walMergesort_newest:
  assumes "0 < n" "n \<le> 4096"
  shows "newest c {0 ..< n} (walMergesort c [0 ..< n])"
proof -
  have "\<exists>aSub' j M. sort_entries c [0 ..< n] [0 ..< n] (replicate 13 [], 0, []) = (aSub', j, M) \<and> length aSub' = 13 \<and> blocks c aSub' 0 n \<and> j < 13
    \<and> even ((n - 1) div 2 ^ j) \<and> Suc ((n - 1) div 2 ^ j) * 2 ^ j = n \<and> newest c {(n - 1) div 2 ^ j * 2 ^ j ..< n} M"
    by (rule entries_blocks) (use assms in \<open>simp_all add: blocks_start\<close>)
  then obtain aSub j M where S: "sort_entries c [0 ..< n] [0 ..< n] (replicate 13 [], 0, []) = (aSub, j, M)" "length aSub = 13" "blocks c aSub 0 n" "j < 13"
    "even ((n - 1) div 2 ^ j)" "Suc ((n - 1) div 2 ^ j) * 2 ^ j = n" "newest c {(n - 1) div 2 ^ j * 2 ^ j ..< n} M" by blast
  obtain q where q: "(n - 1) div 2 ^ j = 2 * q" using S(5) by blast
  have nj: "n div 2 ^ j = Suc (2 * q)" using S(6) q by (metis nonzero_mult_div_cancel_right power_not_zero zero_neq_numeral)
  have "n div 2 ^ Suc j = n div 2 ^ j div 2" by (metis div_mult2_eq power_Suc2)
  then have n1: "n div 2 ^ Suc j = q" unfolding nj by simp
  have "(n - 1) div 2 ^ j * 2 ^ j = n div 2 ^ Suc j * 2 ^ Suc j" unfolding q n1 by simp
  then have M: "newest c {n div 2 ^ Suc j * 2 ^ Suc j ..< n} M" using S(7) by metis
  have dr: "blocks c (drop k aSub) k (n div 2 ^ k)" if "k \<le> 13" for k
    using that
  proof (induction k)
    case 0
    then show ?case using S(3) by simp
  next
    case (Suc k)
    then have "drop k aSub = aSub ! k # drop (Suc k) aSub" using S(2) by (simp add: Cons_nth_drop_Suc)
    moreover have "n div 2 ^ k div 2 = n div 2 ^ Suc k" by (metis div_mult2_eq power_Suc2)
    ultimately show ?case using Suc by simp
  qed
  have len: "Suc j + length (drop (Suc j) aSub) = 13" using S(2,4) by simp
  have "newest c {n div 2 ^ 13 * 2 ^ 13 ..< n} (sort_rest c (drop (Suc j) aSub) n (Suc j) M)"
    using rest_blocks [OF dr M, unfolded len] S(4) by simp
  moreover have "n div 2 ^ 13 = 0" using assms(2) by simp
  ultimately show ?thesis using S(1) by (simp add: walMergesort_def)
qed

subsection \<open>The segments\<close>

definition seg_ok :: "nat list \<Rightarrow> nat \<Rightarrow> nat \<Rightarrow> wal_segment \<Rightarrow> bool" where
  "seg_ok fs iMin h s \<longleftrightarrow> s_nEntry s = length (s_aIndex s) \<and> s_iZero s = Suc (hash_iZero h)
     \<and> newest (s_aPgno s) {0 ..< length (seg h fs)} (s_aIndex s) \<and> (\<forall>j < length (seg h fs). s_aPgno s ! j = seg h fs ! j)
     \<and> (\<forall>t < s_iNext s. t < s_nEntry s \<longrightarrow> s_aPgno s ! (s_aIndex s ! t) \<le> iMin)"

fun segs_ok :: "nat list \<Rightarrow> nat \<Rightarrow> nat \<Rightarrow> wal_segment list \<Rightarrow> bool" where
  "segs_ok fs iMin h [] \<longleftrightarrow> length fs \<le> hash_iZero h"
| "segs_ok fs iMin h (s # ss) \<longleftrightarrow> seg_ok fs iMin h s \<and> segs_ok fs iMin (Suc h) ss"

lemma seg_ok_mono: "seg_ok fs iMin h s \<Longrightarrow> iMin \<le> m \<Longrightarrow> seg_ok fs m h s"
  by (auto simp: seg_ok_def intro: order_trans)

lemma segs_ok_mono: "segs_ok fs iMin h ss \<Longrightarrow> iMin \<le> m \<Longrightarrow> segs_ok fs m h ss"
  by (induction ss arbitrary: h) (auto intro: seg_ok_mono)

lemma seg_skip_ok:
  "seg_ok fs iMin h s \<Longrightarrow> seg_ok fs iMin h (seg_skip iMin s)
     \<and> (let s' = seg_skip iMin s in s_iNext s' < s_nEntry s' \<longrightarrow> iMin < s_aPgno s' ! (s_aIndex s' ! s_iNext s'))"
proof (induction iMin s rule: seg_skip.induct)
  case (1 iMin s)
  show ?case
  proof (cases "s_iNext s < s_nEntry s \<and> \<not> iMin < s_aPgno s ! (s_aIndex s ! s_iNext s)")
    case True
    have "seg_ok fs iMin h (s\<lparr>s_iNext := s_iNext s + 1\<rparr>)" using 1(2) True by (auto simp: seg_ok_def less_Suc_eq)
    then show ?thesis using 1(1) [OF _ refl] True by (simp add: seg_skip.simps [of iMin s])
  next
    case False
    then have "seg_skip iMin s = s" by (auto simp: seg_skip.simps [of iMin s] Let_def)
    then show ?thesis using 1(2) False by (auto simp: Let_def)
  qed
qed

text \<open>The frames of a segment: those above \<open>hash_iZero h\<close>, up to that of the next.\<close>

lemma seg_frames:
  "f \<in> frames_of fs p (Suc (hash_iZero h)) (length fs) \<longleftrightarrow>
     f \<in> frames_of fs p (Suc (hash_iZero (Suc h))) (length fs) \<or> (\<exists>j < length (seg h fs). seg h fs ! j = p \<and> f = Suc (hash_iZero h + j))"
proof -
  have "(\<exists>j < length (seg h fs). seg h fs ! j = p \<and> f = Suc (hash_iZero h + j))
      \<longleftrightarrow> hash_iZero h < f \<and> f \<le> hash_iZero (Suc h) \<and> f \<le> length fs \<and> fs ! (f - 1) = p" (is "?l \<longleftrightarrow> ?r")
  proof
    assume ?l
    then show ?r by (auto simp: seg_def iZero_Suc)
  next
    assume r: ?r
    then show ?l by (intro exI [of _ "f - Suc (hash_iZero h)"]) (auto simp: seg_def iZero_Suc)
  qed
  then show ?thesis by (auto simp: frames_of_def iZero_Suc)
qed

lemma seg_keys:
  assumes ok: "seg_ok fs iMin h s" and j: "j < length (seg h fs)" "iMin < seg h fs ! j"
  shows "s_iNext s < s_nEntry s \<and> s_aPgno s ! (s_aIndex s ! s_iNext s) \<le> seg h fs ! j"
proof -
  let ?c = "s_aPgno s" and ?t = "s_iNext s"
  have n: "newest ?c {0 ..< length (seg h fs)} (s_aIndex s)" "s_nEntry s = length (s_aIndex s)" "?c ! j = seg h fs ! j" using ok j(1) by (auto simp: seg_ok_def)
  obtain y where "y \<in> set (s_aIndex s)" "?c ! y = ?c ! j" using newest_keys [OF _ n(1), of j] j(1) by auto
  then obtain u where u: "u < length (s_aIndex s)" "?c ! (s_aIndex s ! u) = seg h fs ! j" using n(3) by (auto simp: in_set_conv_nth)
  then have tu: "?t \<le> u" using ok j(2) n(2) by (auto simp: seg_ok_def not_less [symmetric])
  then have "?c ! (s_aIndex s ! ?t) \<le> ?c ! (s_aIndex s ! u)"
    using n(1) u(1) unfolding newest_def sorted_wrt_iff_nth_less by (cases "?t = u") (auto intro: less_imp_le)
  then show ?thesis using tu u n(2) by simp
qed

lemma seg_current:
  assumes ok: "seg_ok fs iMin h s" and t: "s_iNext s < s_nEntry s" and i: "i = s_aIndex s ! s_iNext s"
  shows "i < length (seg h fs)" "s_aPgno s ! i = seg h fs ! i" "\<And>j. j < length (seg h fs) \<Longrightarrow> seg h fs ! j = seg h fs ! i \<Longrightarrow> j \<le> i"
proof -
  have n: "newest (s_aPgno s) {0 ..< length (seg h fs)} (s_aIndex s)" "s_nEntry s = length (s_aIndex s)"
      "\<And>j. j < length (seg h fs) \<Longrightarrow> s_aPgno s ! j = seg h fs ! j" using ok by (auto simp: seg_ok_def)
  have m: "i \<in> set (s_aIndex s)" using t i n(2) by simp
  then show i: "i < length (seg h fs)" using n(1) by (auto simp: newest_def)
  then show "s_aPgno s ! i = seg h fs ! i" by (rule n(3))
  show "j \<le> i" if "j < length (seg h fs)" "seg h fs ! j = seg h fs ! i" for j
    using m n(1) n(3) [OF i] n(3) [OF that(1)] that unfolding newest_def by auto
qed

text \<open>The pages above \<open>iMin\<close> with a frame after the first \<open>lo\<close>, and what a step of the iterator returns of them.\<close>

definition pages_after :: "nat list \<Rightarrow> nat \<Rightarrow> nat \<Rightarrow> nat set" where
  "pages_after fs lo iMin = {q. iMin < q \<and> frames_of fs q (Suc lo) (length fs) \<noteq> {}}"

definition next_is :: "nat list \<Rightarrow> nat \<Rightarrow> nat \<Rightarrow> nat \<Rightarrow> nat \<Rightarrow> bool" where
  "next_is fs lo iMin iRet iFrame \<longleftrightarrow>
     (if iRet = 0xFFFFFFFF then pages_after fs lo iMin = {}
      else iRet \<in> pages_after fs lo iMin \<and> (\<forall>q \<in> pages_after fs lo iMin. iRet \<le> q) \<and> iFrame = best (frames_of fs iRet (Suc lo) (length fs)))"

lemma pages_after_seg:
  "q \<in> pages_after fs (hash_iZero h) iMin \<longleftrightarrow> q \<in> pages_after fs (hash_iZero (Suc h)) iMin \<or> iMin < q \<and> q \<in> set (seg h fs)"
  using seg_frames [of _ fs q h] unfolding pages_after_def by (auto simp: in_set_conv_nth)

lemma best_seg:
  assumes i: "i < length (seg h fs)" "seg h fs ! i = q" "\<And>j. j < length (seg h fs) \<Longrightarrow> seg h fs ! j = q \<Longrightarrow> j \<le> i"
    and none: "frames_of fs q (Suc (hash_iZero (Suc h))) (length fs) = {}"
  shows "best (frames_of fs q (Suc (hash_iZero h)) (length fs)) = Suc (hash_iZero h + i)"
  using seg_frames [of _ fs q h] none i by (intro best_eqI) auto

lemma best_later:
  assumes "frames_of fs q (Suc (hash_iZero (Suc h))) (length fs) \<noteq> {}"
  shows "best (frames_of fs q (Suc (hash_iZero h)) (length fs)) = best (frames_of fs q (Suc (hash_iZero (Suc h))) (length fs))" (is "best ?A = best ?B")
proof -
  have b: "best ?B \<in> ?B" "\<And>f. f \<in> ?B \<Longrightarrow> f \<le> best ?B" using best_cases [of ?B] assms by auto
  have "hash_iZero (Suc h) < best ?B" using b(1) by (simp add: frames_of_def)
  then show ?thesis using b seg_frames [of _ fs q h] by (intro best_eqI) (auto simp: iZero_Suc seg_def)
qed

lemma next_segs_ok:
  assumes "\<forall>q \<in> set fs. q < 0xFFFFFFFF" "segs_ok fs iMin h ss" "next_segs iMin ss (0xFFFFFFFF, f0) = (ss', (iRet, iFrame))"
  shows "segs_ok fs iMin h ss' \<and> next_is fs (hash_iZero h) iMin iRet iFrame \<and> length ss' = length ss"
  using assms(2,3)
proof (induction ss arbitrary: h ss' iRet iFrame)
  case Nil
  then show ?case by (auto simp: next_is_def pages_after_def frames_of_def)
next
  case (Cons s ss)
  obtain tt r f where N: "next_segs iMin ss (0xFFFFFFFF, f0) = (tt, (r, f))" by (metis surj_pair)
  let ?s = "seg_skip iMin s"
  let ?i = "s_aIndex ?s ! s_iNext ?s"
  let ?b = "s_iNext ?s < s_nEntry ?s \<and> s_aPgno ?s ! ?i < r"
  have e: "ss' = ?s # tt" "(iRet, iFrame) = (if ?b then (s_aPgno ?s ! ?i, s_iZero ?s + ?i) else (r, f))"
    using Cons.prems(2) N by (auto simp: Let_def)
  have IH: "segs_ok fs iMin (Suc h) tt" "next_is fs (hash_iZero (Suc h)) iMin r f" "length tt = length ss"
    using Cons.IH [OF _ N] Cons.prems(1) by auto
  have ok: "seg_ok fs iMin h ?s" "s_iNext ?s < s_nEntry ?s \<Longrightarrow> iMin < s_aPgno ?s ! ?i" using seg_skip_ok Cons.prems(1) by (auto simp: Let_def)
  have "next_is fs (hash_iZero h) iMin iRet iFrame"
  proof (cases ?b)
    case True
    note C = seg_current [OF ok(1) conjunct1 [OF True] refl]
    have q: "iRet = seg h fs ! ?i" "iFrame = Suc (hash_iZero h + ?i)" "iMin < iRet" "iRet < r"
      using e(2) True C(2) ok by (auto simp: seg_ok_def)
    have in_seg: "seg h fs ! ?i \<in> set (seg h fs)" using C(1) by simp
    then have "iRet \<in> set fs" using q(1) in_set_takeD in_set_dropD unfolding seg_def by metis
    then have m: "iRet \<noteq> 0xFFFFFFFF" using assms(1) by auto
    have "iRet \<notin> pages_after fs (hash_iZero (Suc h)) iMin" using IH(2) q(4) by (auto simp: next_is_def split: if_splits)
    then have none: "frames_of fs iRet (Suc (hash_iZero (Suc h))) (length fs) = {}" using q(3) by (simp add: pages_after_def)
    have bf: "iFrame = best (frames_of fs iRet (Suc (hash_iZero h)) (length fs))"
      using best_seg [OF C(1) q(1) [symmetric] _ none] C(3) q(1,2) by simp
    have least: "iRet \<le> p" if "p \<in> pages_after fs (hash_iZero h) iMin" for p
    proof (cases "p \<in> pages_after fs (hash_iZero (Suc h)) iMin")
      case True
      then show ?thesis using IH(2) q(4) by (auto simp: next_is_def split: if_splits)
    next
      case False
      then have "iMin < p" "p \<in> set (seg h fs)" using that pages_after_seg [of p fs h iMin] by blast+
      then obtain j where "j < length (seg h fs)" "seg h fs ! j = p" "iMin < p" by (auto simp: in_set_conv_nth)
      then show ?thesis using seg_keys [OF ok(1), of j] q(1) C(2) by simp
    qed
    have "iRet \<in> pages_after fs (hash_iZero h) iMin" using pages_after_seg [of iRet fs h iMin] q(1,3) in_seg by simp
    then show ?thesis using m bf least by (simp add: next_is_def)
  next
    case False
    then have q: "iRet = r" "iFrame = f" using e(2) by auto
    have inr: "r \<le> p" if pm: "iMin < p" "p \<in> set (seg h fs)" for p
    proof -
      obtain j where "j < length (seg h fs)" "seg h fs ! j = p" using pm(2) by (auto simp: in_set_conv_nth)
      then show ?thesis using seg_keys [OF ok(1), of j] pm(1) False by auto
    qed
    have lt: "p < 0xFFFFFFFF" if "p \<in> set (seg h fs)" for p
    proof -
      have "p \<in> set fs" using that unfolding seg_def by (blast dest: in_set_takeD in_set_dropD)
      then show ?thesis using assms(1) by blast
    qed
    show ?thesis
    proof (cases "r = 0xFFFFFFFF")
      case True
      then have "pages_after fs (hash_iZero (Suc h)) iMin = {}" using IH(2) by (simp add: next_is_def)
      moreover have "\<not> (iMin < p \<and> p \<in> set (seg h fs))" for p using inr [of p] lt [of p] True by (meson leD)
      ultimately have "p \<notin> pages_after fs (hash_iZero h) iMin" for p using pages_after_seg [of p fs h iMin] by blast
      then show ?thesis using True q(1) unfolding next_is_def by auto
    next
      case r: False
      then have I: "r \<in> pages_after fs (hash_iZero (Suc h)) iMin" "\<And>p. p \<in> pages_after fs (hash_iZero (Suc h)) iMin \<Longrightarrow> r \<le> p"
        "f = best (frames_of fs r (Suc (hash_iZero (Suc h))) (length fs))" using IH(2) by (auto simp: next_is_def)
      then have "frames_of fs r (Suc (hash_iZero (Suc h))) (length fs) \<noteq> {}" by (simp add: pages_after_def)
      then have "f = best (frames_of fs r (Suc (hash_iZero h)) (length fs))" using I(3) best_later by simp
      moreover have "r \<le> p" if "p \<in> pages_after fs (hash_iZero h) iMin" for p using that I(2) inr pages_after_seg [of p fs h iMin] by blast
      ultimately show ?thesis using I(1) q r pages_after_seg [of r fs h iMin] unfolding next_is_def by simp
    qed
  qed
  then show ?case using e(1) IH ok(1) by simp
qed

subsection \<open>The iterator\<close>

definition iter_ok :: "nat list \<Rightarrow> nat \<Rightarrow> wal_iter \<Rightarrow> bool" where
  "iter_ok fs first p \<longleftrightarrow> (\<exists>xs ys. i_aSegment p = xs @ ys \<and> (\<forall>s \<in> set xs. s_nEntry s = 0) \<and> segs_ok fs (i_iPrior p) first ys)"

lemma next_segs_unused: "\<forall>s \<in> set xs. s_nEntry s = 0 \<Longrightarrow> next_segs iMin xs r = (xs, r)"
  by (induction xs) (auto simp: seg_skip.simps Let_def split: prod.splits)

lemma next_segs_append:
  "next_segs iMin (xs @ ys) r = (let (ys', r') = next_segs iMin ys r; (xs', r'') = next_segs iMin xs r' in (xs' @ ys', r''))"
  by (induction xs) (simp_all add: Let_def case_prod_unfold)

lemma walIteratorNext_is:
  assumes pg: "\<forall>q \<in> set fs. q < 0xFFFFFFFF" and ok: "iter_ok fs first p" "i_iPrior p < 0xFFFFFFFF"
    and nx: "walIteratorNext p f0 = (done, iPage, iFrame, p')"
  shows "iter_ok fs first p' \<and> i_iPrior p' = iPage \<and> (done \<longleftrightarrow> iPage = 0xFFFFFFFF) \<and> next_is fs (hash_iZero first) (i_iPrior p) iPage iFrame"
proof -
  obtain xs ys where S: "i_aSegment p = xs @ ys" "\<forall>s \<in> set xs. s_nEntry s = 0" "segs_ok fs (i_iPrior p) first ys" using ok by (auto simp: iter_ok_def)
  obtain ys' r f where N: "next_segs (i_iPrior p) ys (0xFFFFFFFF, f0) = (ys', (r, f))" by (metis surj_pair)
  have e: "done \<longleftrightarrow> r = 0xFFFFFFFF" "iPage = r" "iFrame = f" "p' = p\<lparr>i_iPrior := r, i_aSegment := xs @ ys'\<rparr>"
    using nx S(1) N next_segs_unused [OF S(2)] by (auto simp: walIteratorNext_def next_segs_append Let_def)
  note K = next_segs_ok [OF pg S(3) N]
  have "i_iPrior p \<le> r" using K ok(2) by (auto simp: next_is_def pages_after_def split: if_splits)
  then have "segs_ok fs r first ys'" using K segs_ok_mono by blast
  then show ?thesis using e S(2) K by (auto simp: iter_ok_def)
qed

text \<open>The segment made of a page of the index.\<close>

definition fresh_seg :: "wal \<Rightarrow> nat \<Rightarrow> nat \<Rightarrow> nat \<Rightarrow> wal_segment" where
  "fresh_seg W iLast N h =
     (let nEntry = (if h + 1 = N then iLast - hash_iZero h else cap h);
          aIndex = walMergesort (aPgno (w_index W h)) [0 ..< nEntry]
      in \<lparr>s_iNext = 0, s_aIndex = aIndex, s_aPgno = aPgno (w_index W h), s_nEntry = length aIndex, s_iZero = hash_iZero h + 1\<rparr>)"

lemma init_segs_eq:
  assumes "\<And>h. map_rc h = 0"
  shows "i \<le> N \<Longrightarrow> length segs = N \<Longrightarrow> init_segs map_rc W iLast N [i ..< N] segs = (0, take i segs @ map (fresh_seg W iLast N) [i ..< N])"
proof (induction "N - i" arbitrary: i segs)
  case (Suc d)
  then have i: "i < N" by simp
  then have ns: "[i ..< N] = i # [Suc i ..< N]" by (simp add: upt_conv_Cons)
  have "init_segs map_rc W iLast N [i ..< N] segs = init_segs map_rc W iLast N [Suc i ..< N] (segs[i := fresh_seg W iLast N i])"
    unfolding ns using assms by (simp add: Let_def fresh_seg_def cap_def)
  also have "\<dots> = (0, take (Suc i) (segs[i := fresh_seg W iLast N i]) @ map (fresh_seg W iLast N) [Suc i ..< N])"
    using Suc.hyps(2) Suc.prems i by (intro Suc.hyps(1)) simp_all
  also have "take (Suc i) (segs[i := fresh_seg W iLast N i]) = take i segs @ [fresh_seg W iLast N i]"
    using i Suc.prems(2) by (simp add: take_Suc_conv_app_nth)
  finally show ?case unfolding ns by simp
qed simp

lemma fresh_seg_ok:
  assumes ok: "index_ok W (fs @ rest)" and N: "N = walFramePage (length fs) + 1" and fs: "fs \<noteq> []" and h: "h < N"
  shows "seg_ok fs 0 h (fresh_seg W (length fs) N h)"
proof -
  let ?n = "length (seg h fs)"
  have fp: "hash_iZero (N - 1) < length fs" "length fs \<le> hash_iZero (N - 1) + cap (N - 1)" using frame_page [of "length fs"] fs N by simp_all
  have n: "?n = (if h + 1 = N then length fs - hash_iZero h else cap h)"
  proof (cases "h + 1 = N")
    case True
    then have "h = N - 1" by simp
    then show ?thesis using fp True by (simp add: seg_def)
  next
    case False
    then have "hash_iZero (Suc h) \<le> hash_iZero (N - 1)" using h by (intro iZero_mono) simp
    then show ?thesis using fp False by (simp add: seg_def iZero_Suc)
  qed
  have le: "hash_iZero h \<le> hash_iZero (N - 1)" using h by (intro iZero_mono) simp
  then have pos: "0 < ?n" using fp by (simp add: seg_def cap_def)
  have four: "?n \<le> 4096" using seg_length(1) [of h fs] seg_length(2) [of h] by linarith
  have seg: "j < length (seg h (fs @ rest)) \<and> seg h (fs @ rest) ! j = seg h fs ! j" if "j < ?n" for j
    using that by (auto simp: seg_def nth_append)
  have "seg h (fs @ rest) \<noteq> []" using seg [OF pos] by auto
  then have "aPgno (w_index W h) = seg h (fs @ rest) @ replicate (cap h - length (seg h (fs @ rest))) 0"
    using ok by (auto simp: index_ok_def page_ok_def)
  then have "aPgno (w_index W h) ! j = seg h fs ! j" if "j < ?n" for j using seg [OF that] by (simp add: nth_append)
  then show ?thesis using walMergesort_newest [OF pos four, of "aPgno (w_index W h)"] unfolding seg_ok_def fresh_seg_def by (simp add: Let_def n)
qed

lemma fresh_segs_ok:
  assumes "index_ok W (fs @ rest)" "N = walFramePage (length fs) + 1" "fs \<noteq> []"
  shows "i \<le> N \<Longrightarrow> segs_ok fs 0 i (map (fresh_seg W (length fs) N) [i ..< N])"
proof (induction "N - i" arbitrary: i)
  case 0
  then have "i = N" by simp
  then show ?case using frame_page(2) [of "length fs"] assms(2,3) by (simp add: iZero_Suc)
next
  case (Suc d)
  then have "i < N" by simp
  then show ?case using Suc.hyps fresh_seg_ok [OF assms, of i] by (simp add: upt_conv_Cons)
qed

lemma walIteratorInit_ok:
  assumes ok: "index_ok W (fs @ rest)" "w_mxFrame W = length fs" and b: "nBackfill < length fs" and rc: "\<And>h. map_rc h = 0"
  shows "\<exists>p. walIteratorInit map_rc True W nBackfill = (0, Some p) \<and> i_iPrior p = 0 \<and> iter_ok fs (walFramePage (nBackfill + 1)) p"
proof -
  define N where "N = walFramePage (length fs) + 1"
  define i where "i = walFramePage (nBackfill + 1)"
  let ?z = "replicate N \<lparr>s_iNext = 0, s_aIndex = [], s_aPgno = [], s_nEntry = 0, s_iZero = 0\<rparr>"
  have fs: "fs \<noteq> []" using b by auto
  have "i \<le> walFramePage (length fs)" unfolding i_def walFramePage_def using b by (intro div_le_mono) simp
  then have i: "i \<le> N" by (simp add: N_def)
  have "walIteratorInit map_rc True W nBackfill = (0, Some \<lparr>i_iPrior = 0, i_aSegment = take i ?z @ map (fresh_seg W (length fs) N) [i ..< N]\<rparr>)"
    using init_segs_eq [where map_rc = map_rc and segs = ?z and W = W and iLast = "length fs", OF rc i] ok(2)
    by (simp add: walIteratorInit_def Let_def N_def i_def del: upt_Suc)
  moreover have "iter_ok fs i \<lparr>i_iPrior = 0, i_aSegment = take i ?z @ map (fresh_seg W (length fs) N) [i ..< N]\<rparr>"
    unfolding iter_ok_def using fresh_segs_ok [OF ok(1) N_def fs i]
    by (intro exI [of _ "take i ?z"] exI [of _ "map (fresh_seg W (length fs) N) [i ..< N]"]) (auto dest: in_set_takeD)
  ultimately show ?thesis unfolding i_def by auto
qed

text \<open>A step that returns a page returns one above the last.\<close>

lemma seg_skip_above: "let s' = seg_skip iMin s in s_iNext s' < s_nEntry s' \<longrightarrow> iMin < s_aPgno s' ! (s_aIndex s' ! s_iNext s')"
proof (induction iMin s rule: seg_skip.induct)
  case (1 iMin s)
  then show ?case by (cases "s_iNext s < s_nEntry s \<and> \<not> iMin < s_aPgno s ! (s_aIndex s ! s_iNext s)") (auto simp: seg_skip.simps [of iMin s] Let_def)
qed

lemma next_segs_above: "next_segs iMin ss r = (ss', r') \<Longrightarrow> r' = r \<or> iMin < fst r' \<and> fst r' < fst r"
proof (induction ss arbitrary: ss' r')
  case (Cons s ss)
  obtain tt q where "next_segs iMin ss r = (tt, q)" by (metis surj_pair)
  then show ?case using Cons seg_skip_above [of iMin s] by (fastforce simp: Let_def split: if_splits prod.splits)
qed simp

lemma iterator_advances: "walIteratorNext p f = (False, iPage, iFrame, p') \<Longrightarrow> i_iPrior p < i_iPrior p' \<and> i_iPrior p' < 0xFFFFFFFF"
  using next_segs_above [of "i_iPrior p" "i_aSegment p" "(0xFFFFFFFF, f)"] by (auto simp: walIteratorNext_def Let_def split: prod.splits)

section \<open>Properties\<close>

text \<open>C20. The sort of a segment, for every number of entries a page of the index can have: the result is strictly ascending by page number and has,
  for every page number of the segment, exactly the largest of its entries, that of the newest frame.\<close>

theorem walMergesort_keeps_newest:
  assumes "0 < n" "n \<le> HASHTABLE_NPAGE" "ys = walMergesort aContent [0 ..< n]"
  shows "sorted_wrt (\<lambda>i j. aContent ! i < aContent ! j) ys \<and> set ys = {i. i < n \<and> (\<forall>j < n. aContent ! j = aContent ! i \<longrightarrow> j \<le> i)}"
  using walMergesort_newest [OF assms(1,2), of aContent] assms(3) unfolding newest_def by auto

theorem walMergesort_keeps_newest_witness:
  "walMergesort [9, 4, 9, 2, 4] [0 ..< 5] = [3, 4, 2]
   \<and> set (walMergesort [9, 4, 9, 2, 4] [0 ..< 5]) = {i. i < 5 \<and> (\<forall>j < 5. [9, 4, 9, 2, 4 :: nat] ! j = [9, 4, 9, 2, 4] ! i \<longrightarrow> j \<le> i)}"
proof
  show "walMergesort [9, 4, 9, 2, 4] [0 ..< 5] = [3, 4, 2]" by code_simp
  show "set (walMergesort [9, 4, 9, 2, 4] [0 ..< 5]) = {i. i < 5 \<and> (\<forall>j < 5. [9, 4, 9, 2, 4 :: nat] ! j = [9, 4, 9, 2, 4] ! i \<longrightarrow> j \<le> i)}"
    using walMergesort_keeps_newest [of 5 _ "[9, 4, 9, 2, 4]"] by auto
qed

end
