(* ===== verification/Wal_Frame.thy ===== *)
theory Wal_Frame
  imports Util_Varint
begin

text \<open>
  The file format of the write-ahead log (\<open>src/wal.c\<close>): the checksum, the frame header and the header of the file.

  \<open>wal_log\<close> has the fields of \<open>Wal\<close> and of its header that these routines use. The build is little-endian
  (\<open>SQLITE_BIGENDIAN\<close> is 0), so the native checksum is that of a log without the big-endian flag. Buffers are byte lists.
\<close>

section \<open>Definitions\<close>

record wal_log =
  l_szPage :: nat
  l_bigEnd :: bool
  l_salt :: "byte list"
  l_cksum :: "u32 \<times> u32"
  l_reCksum :: nat

text \<open>The array of 32-bit words a buffer is read as.\<close>

definition le32 :: "byte \<Rightarrow> byte \<Rightarrow> byte \<Rightarrow> byte \<Rightarrow> u32" where
  "le32 a b c d = ucast a OR push_bit 8 (ucast b) OR push_bit 16 (ucast c) OR push_bit 24 (ucast d)"

fun words_of :: "byte list \<Rightarrow> u32 list" where
  "words_of (a # b # c # d # bs) = le32 a b c d # words_of bs"
| "words_of _ = []"

definition BYTESWAP32 :: "u32 \<Rightarrow> u32" where
  "BYTESWAP32 x = push_bit 24 (x AND 0x000000FF) + push_bit 8 (x AND 0x0000FF00) + drop_bit 8 (x AND 0x00FF0000) + drop_bit 24 (x AND 0xFF000000)"

text \<open>The three loops of \<open>walChecksumBytes\<close>: byte-swapped, unrolled by 64 bytes, and plain.\<close>

fun cksum_swap :: "u32 list \<Rightarrow> u32 \<Rightarrow> u32 \<Rightarrow> u32 \<times> u32" where
  "cksum_swap (x # y # ws) s1 s2 =
     (let s1 = s1 + (BYTESWAP32 x + s2); s2 = s2 + (BYTESWAP32 y + s1) in cksum_swap ws s1 s2)"
| "cksum_swap _ s1 s2 = (s1, s2)"

fun cksum_plain :: "u32 list \<Rightarrow> u32 \<Rightarrow> u32 \<Rightarrow> u32 \<times> u32" where
  "cksum_plain (x # y # ws) s1 s2 = (let s1 = s1 + (x + s2); s2 = s2 + (y + s1) in cksum_plain ws s1 s2)"
| "cksum_plain _ s1 s2 = (s1, s2)"

function cksum_unrolled :: "u32 list \<Rightarrow> u32 \<Rightarrow> u32 \<Rightarrow> u32 \<times> u32" where
  "cksum_unrolled ws s1 s2 =
     (if ws = [] then (s1, s2)
      else let s1 = s1 + (ws ! 0 + s2); s2 = s2 + (ws ! 1 + s1);
               s1 = s1 + (ws ! 2 + s2); s2 = s2 + (ws ! 3 + s1);
               s1 = s1 + (ws ! 4 + s2); s2 = s2 + (ws ! 5 + s1);
               s1 = s1 + (ws ! 6 + s2); s2 = s2 + (ws ! 7 + s1);
               s1 = s1 + (ws ! 8 + s2); s2 = s2 + (ws ! 9 + s1);
               s1 = s1 + (ws ! 10 + s2); s2 = s2 + (ws ! 11 + s1);
               s1 = s1 + (ws ! 12 + s2); s2 = s2 + (ws ! 13 + s1);
               s1 = s1 + (ws ! 14 + s2); s2 = s2 + (ws ! 15 + s1)
           in cksum_unrolled (drop 16 ws) s1 s2)"
  by pat_completeness auto
termination by (relation "measure (\<lambda>(ws, s1, s2). length ws)") simp_all

declare cksum_unrolled.simps [simp del]

definition walChecksumBytes :: "bool \<Rightarrow> byte list \<Rightarrow> (u32 \<times> u32) \<Rightarrow> u32 \<times> u32" where
  "walChecksumBytes nativeCksum a aIn =
     (let (s1, s2) = aIn
      in if \<not> nativeCksum then cksum_swap (words_of a) s1 s2
         else if length a mod 64 = 0 then cksum_unrolled (words_of a) s1 s2
         else cksum_plain (words_of a) s1 s2)"

text \<open>The result is the 24 bytes of the frame header, and the log with the running checksum.\<close>

definition walEncodeFrame :: "wal_log \<Rightarrow> u32 \<Rightarrow> u32 \<Rightarrow> byte list \<Rightarrow> byte list \<times> wal_log" where
  "walEncodeFrame L iPage nTruncate aData =
     (let aFrame = sqlite3Put4byte iPage @ sqlite3Put4byte nTruncate
      in if l_reCksum L = 0
         then let nativeCksum = (\<not> l_bigEnd L);
                  aCksum = walChecksumBytes nativeCksum aFrame (l_cksum L);
                  aCksum = walChecksumBytes nativeCksum aData aCksum
              in (aFrame @ l_salt L @ sqlite3Put4byte (fst aCksum) @ sqlite3Put4byte (snd aCksum), L\<lparr>l_cksum := aCksum\<rparr>)
         else (aFrame @ replicate 16 0, L))"

definition get4 :: "byte list \<Rightarrow> nat \<Rightarrow> u32" where
  "get4 b off = sqlite3Get4byte (\<lambda>i. b ! (off + i))"

definition walDecodeFrame :: "wal_log \<Rightarrow> byte list \<Rightarrow> byte list \<Rightarrow> (u32 \<times> u32) option \<times> wal_log" where
  "walDecodeFrame L aData aFrame =
     (if l_salt L \<noteq> buf_read 8 8 aFrame then (None, L)
      else let pgno = get4 aFrame 0
           in if pgno = 0 then (None, L)
              else let nativeCksum = (\<not> l_bigEnd L);
                       aCksum = walChecksumBytes nativeCksum (buf_read 0 8 aFrame) (l_cksum L);
                       aCksum = walChecksumBytes nativeCksum aData aCksum;
                       L = L\<lparr>l_cksum := aCksum\<rparr>
                   in if fst aCksum \<noteq> get4 aFrame 16 \<or> snd aCksum \<noteq> get4 aFrame 20 then (None, L)
                      else (Some (pgno, get4 aFrame 4), L))"

abbreviation (input) WAL_MAGIC :: u32 where "WAL_MAGIC \<equiv> 0x377f0682"
abbreviation (input) WAL_MAX_VERSION :: u32 where "WAL_MAX_VERSION \<equiv> 3007000"
abbreviation (input) WAL_HDRSIZE :: nat where "WAL_HDRSIZE \<equiv> 32"
abbreviation (input) WAL_FRAME_HDRSIZE :: nat where "WAL_FRAME_HDRSIZE \<equiv> 24"

text \<open>The header \<open>walFrames\<close> writes at the start of the file, with the log it leaves.\<close>

definition wal_header :: "nat \<Rightarrow> u32 \<Rightarrow> byte list \<Rightarrow> byte list \<times> wal_log" where
  "wal_header szPage nCkpt aSalt =
     (let aWalHdr = sqlite3Put4byte WAL_MAGIC @ sqlite3Put4byte WAL_MAX_VERSION @ sqlite3Put4byte (word_of_nat szPage)
                    @ sqlite3Put4byte nCkpt @ aSalt;
          aCksum = walChecksumBytes True aWalHdr (0, 0)
      in (aWalHdr @ sqlite3Put4byte (fst aCksum) @ sqlite3Put4byte (snd aCksum),
          \<lparr>l_szPage = szPage, l_bigEnd = False, l_salt = aSalt, l_cksum = aCksum, l_reCksum = 0\<rparr>))"

text \<open>The frames \<open>walWriteOneFrame\<close> writes one after the other: each is its header and the page data.\<close>

fun write_frames :: "wal_log \<Rightarrow> (u32 \<times> u32 \<times> byte list) list \<Rightarrow> byte list \<times> wal_log" where
  "write_frames L [] = ([], L)"
| "write_frames L ((iPage, nTruncate, aData) # fs) =
     (let (aFrame, L) = walEncodeFrame L iPage nTruncate aData;
          (bs, L) = write_frames L fs
      in (aFrame @ aData @ bs, L))"

section \<open>Lemmas\<close>

lemma length_words_of: "length (words_of bs) = length bs div 4"
  by (induction bs rule: words_of.induct) auto

lemma cksum_plain_append:
  "even (length xs) \<Longrightarrow> cksum_plain (xs @ ws) s1 s2 = (let (s1, s2) = cksum_plain xs s1 s2 in cksum_plain ws s1 s2)"
proof (induction xs s1 s2 rule: cksum_plain.induct)
  case (1 x y xs s1 s2)
  then show ?case by (simp add: Let_def)
qed (auto simp: Let_def)

lemma sixteen: "16 \<le> length ws \<Longrightarrow> \<exists>x0 x1 x2 x3 x4 x5 x6 x7 x8 x9 x10 x11 x12 x13 x14 x15 rest. ws = x0 # x1 # x2 # x3 # x4 # x5 # x6 # x7 # x8 # x9 # x10 # x11 # x12 # x13 # x14 # x15 # rest"
  by (auto simp: numeral_eq_Suc Suc_le_length_iff)

lemma cksum_unrolled_plain: "16 dvd length ws \<Longrightarrow> cksum_unrolled ws s1 s2 = cksum_plain ws s1 s2"
proof (induction "length ws" arbitrary: ws s1 s2 rule: less_induct)
  case less
  show ?case
  proof (cases "ws = []")
    case True
    then show ?thesis by (simp add: cksum_unrolled.simps)
  next
    case False
    then have "16 \<le> length ws" using less.prems by (intro dvd_imp_le) auto
    then obtain x0 x1 x2 x3 x4 x5 x6 x7 x8 x9 x10 x11 x12 x13 x14 x15 rest where ws: "ws = x0 # x1 # x2 # x3 # x4 # x5 # x6 # x7 # x8 # x9 # x10 # x11 # x12 # x13 # x14 # x15 # rest" using sixteen [of ws] by blast
    have d: "16 dvd length rest" "length rest < length ws" using less.prems ws by (simp_all add: dvd_def) presburger
    have tk: "take 16 ws = [x0, x1, x2, x3, x4, x5, x6, x7, x8, x9, x10, x11, x12, x13, x14, x15]" and dr: "drop 16 ws = rest" using ws by simp_all
    have nth: "ws ! 0 = x0" "ws ! 1 = x1" "ws ! 2 = x2" "ws ! 3 = x3" "ws ! 4 = x4" "ws ! 5 = x5" "ws ! 6 = x6" "ws ! 7 = x7" "ws ! 8 = x8" "ws ! 9 = x9" "ws ! 10 = x10" "ws ! 11 = x11" "ws ! 12 = x12" "ws ! 13 = x13" "ws ! 14 = x14" "ws ! 15 = x15"
      using ws by simp_all
    have "cksum_unrolled ws s1 s2 = (let (t1, t2) = cksum_plain (take 16 ws) s1 s2 in cksum_unrolled rest t1 t2)"
      unfolding tk by (subst cksum_unrolled.simps) (simp only: False if_False Let_def nth dr cksum_plain.simps prod.case)
    also have "\<dots> = (let (t1, t2) = cksum_plain (take 16 ws) s1 s2 in cksum_plain rest t1 t2)"
      using less.hyps [OF d(2,1)] by simp
    also have "\<dots> = cksum_plain (take 16 ws @ rest) s1 s2" by (rule cksum_plain_append [symmetric]) (simp add: tk)
    also have "\<dots> = cksum_plain ws s1 s2" using dr append_take_drop_id [of 16 ws] by simp
    finally show ?thesis .
  qed
qed

text \<open>The words of a buffer in the other byte order.\<close>

fun words_be :: "byte list \<Rightarrow> u32 list" where
  "words_be (a # b # c # d # bs) = le32 d c b a # words_be bs"
| "words_be _ = []"

lemma BYTESWAP32_le32: "BYTESWAP32 (le32 a b c d) = le32 d c b a"
proof -
  let ?x = "le32 a b c d"
  have 1: "push_bit 24 (?x AND 0x000000FF) + push_bit 8 (?x AND 0x0000FF00) = push_bit 24 (?x AND 0x000000FF) OR push_bit 8 (?x AND 0x0000FF00)"
    by (rule disjunctive_add_eq_or) (rule u32_eq_by_bits, simp add: bit_simps)
  have 3: "(push_bit 24 (?x AND 0x000000FF) OR push_bit 8 (?x AND 0x0000FF00)) + drop_bit 8 (?x AND 0x00FF0000)
      = (push_bit 24 (?x AND 0x000000FF) OR push_bit 8 (?x AND 0x0000FF00)) OR drop_bit 8 (?x AND 0x00FF0000)"
    by (rule disjunctive_add_eq_or) (rule u32_eq_by_bits, simp add: bit_simps)
  have 4: "((push_bit 24 (?x AND 0x000000FF) OR push_bit 8 (?x AND 0x0000FF00)) OR drop_bit 8 (?x AND 0x00FF0000)) + drop_bit 24 (?x AND 0xFF000000)
      = ((push_bit 24 (?x AND 0x000000FF) OR push_bit 8 (?x AND 0x0000FF00)) OR drop_bit 8 (?x AND 0x00FF0000)) OR drop_bit 24 (?x AND 0xFF000000)"
    by (rule disjunctive_add_eq_or) (rule u32_eq_by_bits, simp add: bit_simps)
  show ?thesis unfolding BYTESWAP32_def 1 3 4
    by (rule u32_eq_by_bits) (simp add: le32_def bit_simps bit_byte_high)
qed

lemma words_be_swap: "words_be bs = map BYTESWAP32 (words_of bs)"
  by (induction bs rule: words_of.induct) (simp_all add: BYTESWAP32_le32)

lemma cksum_swap_plain: "cksum_swap ws s1 s2 = cksum_plain (map BYTESWAP32 ws) s1 s2"
  by (induction ws s1 s2 rule: cksum_swap.induct) (simp_all add: Let_def)

lemma walChecksumBytes_words:
  assumes "8 dvd length a"
  shows "walChecksumBytes n a (s1, s2) = cksum_plain (if n then words_of a else words_be a) s1 s2"
proof (cases "n \<and> length a mod 64 = 0")
  case True
  then have "length a mod 64 = 0" by blast
  then have "16 dvd length (words_of a)" unfolding length_words_of by presburger
  then show ?thesis using True by (simp add: walChecksumBytes_def cksum_unrolled_plain)
next
  case False
  then show ?thesis by (auto simp: walChecksumBytes_def cksum_swap_plain words_be_swap)
qed

subsection \<open>Frames\<close>

lemma length_put4 [simp]: "length (sqlite3Put4byte v) = 4"
  by (simp add: sqlite3Put4byte_def)

lemma get4_put4: "length xs = off \<Longrightarrow> get4 (xs @ sqlite3Put4byte v @ ys) off = v"
proof -
  assume len: "length xs = off"
  have nth: "(xs @ sqlite3Put4byte v @ ys) ! off = sqlite3Put4byte v ! 0" "(xs @ sqlite3Put4byte v @ ys) ! (off + 1) = sqlite3Put4byte v ! 1"
    "(xs @ sqlite3Put4byte v @ ys) ! (off + 2) = sqlite3Put4byte v ! 2" "(xs @ sqlite3Put4byte v @ ys) ! (off + 3) = sqlite3Put4byte v ! 3"
    using len by (simp_all add: nth_append)
  have "get4 (xs @ sqlite3Put4byte v @ ys) off = sqlite3Get4byte (\<lambda>i. sqlite3Put4byte v ! i)"
    unfolding get4_def sqlite3Get4byte_def using nth by simp
  then show ?thesis using fourbyte_roundtrip by simp
qed

lemma put4_get4: "off + 4 \<le> length b \<Longrightarrow> sqlite3Put4byte (get4 b off) = buf_read off 4 b"
proof -
  assume len: "off + 4 \<le> length b"
  have "sqlite3Put4byte (get4 b off) = [b ! off, b ! (off + 1), b ! (off + 2), b ! (off + 3)]"
    using fourbyte_roundtrip [of 0 "\<lambda>i. b ! (off + i)"] by (simp add: get4_def)
  also have "\<dots> = buf_read off 4 b" using len
    by (intro nth_equalityI) (auto simp: buf_read_def less_Suc_eq numeral_eq_Suc nth_Cons split: nat.split)
  finally show ?thesis .
qed

lemma walDecode_encode:
  assumes "l_reCksum L = 0" "length (l_salt L) = 8" "iPage \<noteq> 0" "walEncodeFrame L iPage nTruncate aData = (aFrame, L')"
  shows "walDecodeFrame L aData aFrame = (Some (iPage, nTruncate), L')"
proof -
  let ?h = "sqlite3Put4byte iPage @ sqlite3Put4byte nTruncate"
  define c where "c = walChecksumBytes (\<not> l_bigEnd L) aData (walChecksumBytes (\<not> l_bigEnd L) ?h (l_cksum L))"
  have f: "aFrame = ?h @ l_salt L @ sqlite3Put4byte (fst c) @ sqlite3Put4byte (snd c)" "L' = L\<lparr>l_cksum := c\<rparr>"
    using assms(1,4) by (simp_all add: walEncodeFrame_def Let_def c_def)
  have "buf_read 8 8 aFrame = l_salt L" "buf_read 0 8 aFrame = ?h" using assms(2) by (simp_all add: f buf_read_def)
  moreover have "get4 aFrame 0 = iPage" using get4_put4 [of "[]" 0 iPage] by (simp add: f)
  moreover have "get4 aFrame 4 = nTruncate" using get4_put4 [of "sqlite3Put4byte iPage" 4 nTruncate] by (simp add: f)
  moreover have "get4 aFrame 16 = fst c" using get4_put4 [of "?h @ l_salt L" 16 "fst c"] assms(2) by (simp add: f)
  moreover have "get4 aFrame 20 = snd c" using get4_put4 [of "?h @ l_salt L @ sqlite3Put4byte (fst c)" 20 "snd c" "[]"] assms(2) by (simp add: f)
  ultimately show ?thesis using assms(3) f(2) by (simp add: walDecodeFrame_def Let_def c_def)
qed

lemma walDecode_sound:
  assumes "l_reCksum L = 0" "length aFrame = 24" "walDecodeFrame L aData aFrame = (Some (iPage, nTruncate), L')"
  shows "walEncodeFrame L iPage nTruncate aData = (aFrame, L') \<and> iPage \<noteq> 0"
proof -
  let ?h = "buf_read 0 8 aFrame"
  define c where "c = walChecksumBytes (\<not> l_bigEnd L) aData (walChecksumBytes (\<not> l_bigEnd L) ?h (l_cksum L))"
  have r: "l_salt L = buf_read 8 8 aFrame" "iPage = get4 aFrame 0" "iPage \<noteq> 0" "nTruncate = get4 aFrame 4"
      "fst c = get4 aFrame 16" "snd c = get4 aFrame 20" "L' = L\<lparr>l_cksum := c\<rparr>"
    using assms(3) by (auto simp: walDecodeFrame_def Let_def c_def split: if_splits)
  have h: "sqlite3Put4byte iPage @ sqlite3Put4byte nTruncate = ?h"
    using buf_read_split [of 0 4 4 aFrame] assms(2) r(2,4) by (simp add: put4_get4)
  have "aFrame = buf_read 0 (8 + 8 + 4 + 4) aFrame" using assms(2) by (simp add: buf_read_def)
  also have "\<dots> = ?h @ buf_read 8 8 aFrame @ buf_read 16 4 aFrame @ buf_read 20 4 aFrame"
    using assms(2) buf_read_split [of 0 20 4 aFrame] buf_read_split [of 0 16 4 aFrame] buf_read_split [of 0 8 8 aFrame] by simp
  finally have a: "aFrame = ?h @ l_salt L @ sqlite3Put4byte (fst c) @ sqlite3Put4byte (snd c)"
    using r assms(2) by (simp add: put4_get4)
  show ?thesis using assms(1) r(3,7) a unfolding walEncodeFrame_def by (simp add: Let_def h flip: c_def append_assoc)
qed

section \<open>Properties\<close>

text \<open>The checksum over a buffer whose length is a multiple of 8, whichever of the three loops computes it, is the plain sum over its 32-bit
  words; in a log of the other byte order the words are read in that order.\<close>

theorem walChecksumBytes_loops_agree:
  assumes "8 dvd length a"
  shows "walChecksumBytes nativeCksum a (s1, s2) = cksum_plain (if nativeCksum then words_of a else words_be a) s1 s2"
  by (rule walChecksumBytes_words [OF assms])

theorem walChecksumBytes_loops_agree_witness:
  "walChecksumBytes False [0, 0, 0, 1, 0, 0, 0, 2] (0, 0) = (1, 3)"
proof -
  have "length [0, 0, 0, 1, 0, 0, 0, 2 :: byte] = 8" by simp
  then have "8 dvd length [0, 0, 0, 1, 0, 0, 0, 2 :: byte]" by (simp only: dvd_refl)
  from walChecksumBytes_loops_agree [OF this, of False 0 0] show ?thesis by (simp add: le32_def)
qed

text \<open>A frame is accepted, with page number and size, exactly if it is the frame that the writer encodes for that page number, size and
  content with the same salt and running checksum; both then continue with the same checksum.\<close>

theorem walDecodeFrame_exact:
  assumes "l_reCksum L = 0" "length (l_salt L) = 8" "length aFrame = 24"
  shows "walDecodeFrame L aData aFrame = (Some (iPage, nTruncate), L')
    \<longleftrightarrow> iPage \<noteq> 0 \<and> walEncodeFrame L iPage nTruncate aData = (aFrame, L')"
  using walDecode_encode [OF assms(1,2)] walDecode_sound [OF assms(1,3)] by blast

theorem walDecodeFrame_exact_witness:
  "\<exists>L aFrame L'. walDecodeFrame L (replicate 8 5) aFrame = (Some (3, 1), L')"
proof -
  let ?L = "\<lparr>l_szPage = 8, l_bigEnd = False, l_salt = replicate 8 0, l_cksum = (0, 0), l_reCksum = 0\<rparr>"
  obtain f L' where f: "walEncodeFrame ?L 3 1 (replicate 8 5) = (f, L')" by fastforce
  then have "length f = 24" by (auto simp: walEncodeFrame_def Let_def)
  then show ?thesis using walDecodeFrame_exact [of ?L f "replicate 8 5" 3 1 L'] f by auto
qed

end
