(* ===== verification/Wal_Recover.thy ===== *)
theory Wal_Recover
  imports Wal_Index Wal_Frame
begin

text \<open>
  Recovery of the index from the file of the write-ahead log: \<open>walIndexRecover\<close> of \<open>src/wal.c\<close>.

  The file is a byte list. \<open>size_rc\<close>, \<open>hdr_rc\<close> and \<open>rd f\<close> are the result codes of \<open>sqlite3OsFileSize\<close> and of \<open>sqlite3OsRead\<close> for
  the header and for frame \<open>f\<close>, \<open>mem\<close> says whether the buffer could be allocated, and \<open>map_rc\<close> is that of \<open>walIndexPage\<close>. Each page of the
  index is built in a private buffer which then replaces the shared page; \<open>priv h\<close> is what the buffer holds when page \<open>h\<close> is begun, left
  by \<open>malloc\<close> or by the page before. The locks and the reset of the read marks at the end are not modelled.
\<close>

section \<open>Definitions\<close>

record recovery =
  r_wal :: wal
  r_log :: wal_log
  r_nPage :: u32
  r_saved :: "u32 \<times> u32"

abbreviation (input) SQLITE_CANTOPEN :: int where "SQLITE_CANTOPEN \<equiv> 14"

definition walFrameOffset :: "nat \<Rightarrow> nat \<Rightarrow> nat" where
  "walFrameOffset iFrame szPage = WAL_HDRSIZE + (iFrame - 1) * (szPage + WAL_FRAME_HDRSIZE)"

text \<open>The loop over the frames of one index page. The flag says whether it ran to its end.\<close>

fun recover_frames :: "(nat \<Rightarrow> int) \<Rightarrow> (nat \<Rightarrow> int) \<Rightarrow> byte list \<Rightarrow> nat \<Rightarrow> nat list \<Rightarrow> recovery \<Rightarrow> int \<times> bool \<times> recovery" where
  "recover_frames rd map_rc file szPage [] R = (SQLITE_OK, True, R)"
| "recover_frames rd map_rc file szPage (iFrame # fs) R =
     (if rd iFrame \<noteq> SQLITE_OK then (rd iFrame, False, R)
      else let aFrame = buf_read (walFrameOffset iFrame szPage) (szPage + WAL_FRAME_HDRSIZE) file
           in case walDecodeFrame (r_log R) (drop WAL_FRAME_HDRSIZE aFrame) (take WAL_FRAME_HDRSIZE aFrame) of
                (None, L) \<Rightarrow> (SQLITE_OK, False, R\<lparr>r_log := L\<rparr>)
              | (Some (pgno, nTruncate), L) \<Rightarrow>
                  let (rc, W) = walIndexAppend map_rc (r_wal R) iFrame (unat pgno);
                      R = R\<lparr>r_wal := W, r_log := L\<rparr>
                  in if rc \<noteq> SQLITE_OK then (rc, False, R)
                     else recover_frames rd map_rc file szPage fs
                       (if nTruncate \<noteq> 0
                        then R\<lparr>r_wal := W\<lparr>w_mxFrame := iFrame\<rparr>, r_nPage := nTruncate, r_saved := l_cksum L\<rparr>
                        else R))"

definition page_frames :: "nat \<Rightarrow> nat \<Rightarrow> nat list" where
  "page_frames iLastFrame iPg =
     (let iLast = min iLastFrame (HASHTABLE_NPAGE_ONE + iPg * HASHTABLE_NPAGE);
          iFirst = 1 + (if iPg = 0 then 0 else HASHTABLE_NPAGE_ONE + (iPg - 1) * HASHTABLE_NPAGE)
      in [iFirst ..< iLast + 1])"

fun recover_pages :: "(nat \<Rightarrow> int) \<Rightarrow> (nat \<Rightarrow> int) \<Rightarrow> (nat \<Rightarrow> wi_page) \<Rightarrow> byte list \<Rightarrow> nat \<Rightarrow> nat \<Rightarrow> nat list \<Rightarrow> recovery \<Rightarrow> int \<times> recovery" where
  "recover_pages rd map_rc priv file szPage iLastFrame [] R = (SQLITE_OK, R)"
| "recover_pages rd map_rc priv file szPage iLastFrame (iPg # hs) R =
     (if map_rc iPg \<noteq> SQLITE_OK then (map_rc iPg, R)
      else let W = r_wal R;
               R = R\<lparr>r_wal := W\<lparr>w_index := (w_index W)(iPg := priv iPg)\<rparr>\<rparr>;
               (rc, more, R) = recover_frames rd map_rc file szPage (page_frames iLastFrame iPg) R
           in if more then recover_pages rd map_rc priv file szPage iLastFrame hs R else (rc, R))"

text \<open>The end of the routine: the checksum of the last committed frame, and the header written to shared memory.\<close>

definition recover_finish :: "int \<Rightarrow> recovery \<Rightarrow> int \<times> recovery" where
  "recover_finish rc R =
     (if rc = SQLITE_OK
      then (rc, R\<lparr>r_wal := (r_wal R)\<lparr>w_cksum := r_saved R, w_live := (w_mxFrame (r_wal R), r_saved R)\<rparr>,
                  r_log := (r_log R)\<lparr>l_cksum := r_saved R\<rparr>\<rparr>)
      else (rc, R))"

definition walIndexRecover ::
    "int \<Rightarrow> int \<Rightarrow> bool \<Rightarrow> (nat \<Rightarrow> int) \<Rightarrow> (nat \<Rightarrow> int) \<Rightarrow> (nat \<Rightarrow> wi_page) \<Rightarrow> byte list \<Rightarrow> wal \<Rightarrow> wal_log \<Rightarrow> int \<times> recovery" where
  "walIndexRecover size_rc hdr_rc mem rd map_rc priv file W L =
     (let W = W\<lparr>w_mxFrame := 0, w_cksum := (0, 0)\<rparr>;
          L = L\<lparr>l_bigEnd := False, l_salt := replicate 8 0, l_cksum := (0, 0)\<rparr>;
          R = \<lparr>r_wal = W, r_log = L, r_nPage = 0, r_saved = (0, 0)\<rparr>
      in if size_rc \<noteq> SQLITE_OK then (size_rc, R)
         else if length file \<le> WAL_HDRSIZE then recover_finish SQLITE_OK R
         else if hdr_rc \<noteq> SQLITE_OK then (hdr_rc, R)
         else let aBuf = buf_read 0 WAL_HDRSIZE file;
                  magic = get4 aBuf 0;
                  szPage = get4 aBuf 8
              in if magic AND 0xFFFFFFFE \<noteq> WAL_MAGIC \<or> szPage AND (szPage - 1) \<noteq> 0 \<or> szPage > 65536 \<or> szPage < 512
                 then recover_finish SQLITE_OK R
                 else let W = W\<lparr>w_nCkpt := unat (get4 aBuf 12)\<rparr>;
                          L = L\<lparr>l_bigEnd := magic AND 1 \<noteq> 0, l_szPage := unat szPage, l_salt := buf_read 16 8 aBuf\<rparr>;
                          L = L\<lparr>l_cksum := walChecksumBytes (\<not> l_bigEnd L) (buf_read 0 24 aBuf) (0, 0)\<rparr>;
                          R = R\<lparr>r_wal := W, r_log := L\<rparr>
                      in if fst (l_cksum L) \<noteq> get4 aBuf 24 \<or> snd (l_cksum L) \<noteq> get4 aBuf 28 then recover_finish SQLITE_OK R
                         else if get4 aBuf 4 \<noteq> WAL_MAX_VERSION then recover_finish SQLITE_CANTOPEN R
                         else if \<not> mem then (SQLITE_NOMEM, R)
                         else let iLastFrame = (length file - WAL_HDRSIZE) div (unat szPage + WAL_FRAME_HDRSIZE);
                                  (rc, R) = recover_pages rd map_rc priv file (unat szPage) iLastFrame [0 ..< walFramePage iLastFrame + 1] R
                              in recover_finish rc R)"

section \<open>Lemmas\<close>

subsection \<open>The frames of a file\<close>

type_synonym wal_frame = "u32 \<times> u32 \<times> byte list"

definition frames_ok :: "nat \<Rightarrow> wal_frame list \<Rightarrow> bool" where
  "frames_ok szPage fs \<longleftrightarrow> (\<forall>(pgno, nTruncate, aData) \<in> set fs. pgno \<noteq> 0 \<and> length aData = szPage)"

definition log_ok :: "wal_log \<Rightarrow> bool" where
  "log_ok L \<longleftrightarrow> l_reCksum L = 0 \<and> length (l_salt L) = 8"

text \<open>The log after the first \<open>k\<close> frames.\<close>

definition log_after :: "wal_log \<Rightarrow> wal_frame list \<Rightarrow> nat \<Rightarrow> wal_log" where
  "log_after L fs k = snd (write_frames L (take k fs))"

lemma encode_length:
  "log_ok L \<Longrightarrow> walEncodeFrame L p t d = (f, L') \<Longrightarrow> length f = 24 \<and> log_ok L' \<and> l_salt L' = l_salt L \<and> l_bigEnd L' = l_bigEnd L"
  by (auto simp: walEncodeFrame_def Let_def log_ok_def)

lemma log_after_0 [simp]: "log_after L fs 0 = L"
  by (simp add: log_after_def)

lemma log_after_Cons: "log_after L ((p, t, d) # fs) (Suc k) = log_after (snd (walEncodeFrame L p t d)) fs k"
  by (simp add: log_after_def Let_def case_prod_unfold)

lemma log_after_ok: "log_ok L \<Longrightarrow> log_ok (log_after L fs k)"
proof (induction fs arbitrary: L k)
  case (Cons f fs)
  obtain p t d where f: "f = (p, t, d)" by (cases f)
  show ?case
  proof (cases k)
    case (Suc k')
    have "log_ok (snd (walEncodeFrame L p t d))" using encode_length [OF Cons.prems] by (metis prod.collapse)
    then show ?thesis using Cons.IH f Suc by (simp add: log_after_Cons)
  qed (use Cons.prems in simp)
qed (simp add: log_after_def)

lemma write_frames_length: "log_ok L \<Longrightarrow> frames_ok sz fs \<Longrightarrow> write_frames L fs = (bs, L') \<Longrightarrow> length bs = length fs * (sz + 24)"
proof (induction fs arbitrary: L bs)
  case (Cons f fs)
  obtain q u e where f: "f = (q, u, e)" by (cases f)
  obtain h M where h: "walEncodeFrame L q u e = (h, M)" by fastforce
  obtain cs where "write_frames M fs = (cs, L')" "bs = h @ e @ cs" using Cons.prems(3) f h by (auto simp: Let_def split: prod.splits)
  then show ?case using Cons.IH [of M cs] encode_length [OF Cons.prems(1) h] Cons.prems(2) f by (auto simp: frames_ok_def)
qed simp

text \<open>Frame \<open>k\<close> stands at its offset, and decoding it gives back its page number and size.\<close>

lemma write_frames_nth:
  assumes "log_ok L" "frames_ok sz fs" "k < length fs" "fs ! k = (p, t, d)" "write_frames L fs = (bs, L')"
  shows "walEncodeFrame (log_after L fs k) p t d = (take 24 (buf_read (k * (sz + 24)) (sz + 24) bs), log_after L fs (Suc k))
    \<and> drop 24 (buf_read (k * (sz + 24)) (sz + 24) bs) = d \<and> length bs = length fs * (sz + 24)"
  using assms
proof (induction fs arbitrary: L k bs)
  case (Cons f fs)
  obtain q u e where f: "f = (q, u, e)" by (cases f)
  obtain h M where h: "walEncodeFrame L q u e = (h, M)" by fastforce
  obtain cs where cs: "write_frames M fs = (cs, L')" "bs = h @ e @ cs" using Cons.prems(5) f h by (auto simp: Let_def split: prod.splits)
  have len: "length h = 24" "log_ok M" "length e = sz" "frames_ok sz fs"
    using encode_length [OF Cons.prems(1) h] Cons.prems(2) f by (auto simp: frames_ok_def)
  have lc: "length cs = length fs * (sz + 24)" by (rule write_frames_length [OF len(2,4) cs(1)])
  show ?case
  proof (cases k)
    case 0
    then have "buf_read (k * (sz + 24)) (sz + 24) bs = h @ e" using cs(2) len by (simp add: buf_read_def)
    then show ?thesis using 0 f h Cons.prems(4) len lc cs(2) by (simp add: log_after_Cons)
  next
    case (Suc k')
    have "buf_read (k * (sz + 24)) (sz + 24) bs = buf_read (k' * (sz + 24)) (sz + 24) cs"
      using Suc cs(2) len(1,3) by (simp add: buf_read_def)
    moreover have "fs ! k' = (p, t, d)" "k' < length fs" using Cons.prems(3,4) Suc by simp_all
    ultimately show ?thesis using Cons.IH [OF len(2,4) _ _ cs(1), of k'] Suc f h lc cs(2) len(1,3) by (simp add: log_after_Cons)
  qed
qed simp

subsection \<open>The scan\<close>

text \<open>The number of frames up to the last commit among the first \<open>n\<close>.\<close>

fun commit_len :: "wal_frame list \<Rightarrow> nat \<Rightarrow> nat" where
  "commit_len fs 0 = 0"
| "commit_len fs (Suc n) = (if fst (snd (fs ! n)) \<noteq> 0 then Suc n else commit_len fs n)"

lemma commit_len_le: "commit_len fs n \<le> n"
  by (induction n) (auto intro: le_SucI)

definition page_nos :: "wal_frame list \<Rightarrow> nat list" where
  "page_nos fs = map (\<lambda>(p, t, d). unat p) fs"

lemma page_nos_nz: "frames_ok sz fs \<Longrightarrow> 0 \<notin> set (page_nos fs)"
  by (auto simp: page_nos_def frames_ok_def unat_eq_0)

text \<open>What the state of the recovery is after \<open>k\<close> frames of the log.\<close>

definition scanned :: "wal_log \<Rightarrow> wal_frame list \<Rightarrow> nat \<Rightarrow> recovery \<Rightarrow> bool" where
  "scanned L fs k R \<longleftrightarrow> index_ok (r_wal R) (page_nos (take k fs)) \<and> w_mxFrame (r_wal R) = commit_len fs k
     \<and> r_nPage R = (if commit_len fs k = 0 then 0 else fst (snd (fs ! (commit_len fs k - 1))))
     \<and> r_saved R = (if commit_len fs k = 0 then (0, 0) else l_cksum (log_after L fs (commit_len fs k)))"

lemma page_nos_take_Suc: "k < length fs \<Longrightarrow> page_nos (take (Suc k) fs) = page_nos (take k fs) @ [unat (fst (fs ! k))]"
  by (simp add: page_nos_def take_Suc_conv_app_nth case_prod_unfold)

lemma length_page_nos [simp]: "length (page_nos fs) = length fs"
  by (simp add: page_nos_def)

lemma scan_step:
  assumes sc: "scanned L fs k R" "r_log R = log_after L fs k" and k: "k < length fs" and ok: "log_ok L" "frames_ok sz fs"
    and w: "write_frames L fs = (bs, L')" and rd: "rd (Suc k) = 0" and rc: "\<And>h. map_rc h = 0"
    and fl: "buf_read (walFrameOffset (Suc k) sz) (sz + 24) file = buf_read (k * (sz + 24)) (sz + 24) bs"
  obtains R' where "recover_frames rd map_rc file sz (Suc k # ns) R = recover_frames rd map_rc file sz ns R'"
    "scanned L fs (Suc k) R'" "r_log R' = log_after L fs (Suc k)"
proof -
  obtain p t d where f: "fs ! k = (p, t, d)" by (cases "fs ! k")
  let ?x = "buf_read (k * (sz + 24)) (sz + 24) bs"
  note n = write_frames_nth [OF ok k f w]
  have p: "p \<noteq> 0" using ok(2) k f nth_mem [OF k] by (auto simp: frames_ok_def)
  have "log_ok (log_after L fs k)" using log_after_ok ok(1) by blast
  then have dec: "walDecodeFrame (log_after L fs k) (drop 24 ?x) (take 24 ?x) = (Some (p, t), log_after L fs (Suc k))"
    using walDecode_encode [of "log_after L fs k" p t d "take 24 ?x" "log_after L fs (Suc k)"] n p by (auto simp: log_ok_def)
  have len: "length (page_nos (take k fs)) = k" using k by simp
  have io: "index_ok (r_wal R) (page_nos (take k fs))" using sc(1) by (simp add: scanned_def)
  have pn: "unat p \<noteq> 0" using p by (simp add: unat_eq_0)
  obtain W where "walIndexAppend map_rc (r_wal R) (Suc (length (page_nos (take k fs)))) (unat p) = (0, W)"
      "index_ok W (page_nos (take k fs) @ [unat p])" "same_hdr (r_wal R) W"
    by (rule append_clean [OF io rc pn])
  then have W: "walIndexAppend map_rc (r_wal R) (Suc k) (unat p) = (0, W)" "index_ok W (page_nos (take (Suc k) fs))" "same_hdr (r_wal R) W"
    using len k f by (simp_all add: page_nos_take_Suc)
  define R1 where "R1 = R\<lparr>r_wal := W, r_log := log_after L fs (Suc k)\<rparr>"
  define R' where "R' = (if t \<noteq> 0 then R1\<lparr>r_wal := W\<lparr>w_mxFrame := Suc k\<rparr>, r_nPage := t, r_saved := l_cksum (log_after L fs (Suc k))\<rparr> else R1)"
  have "recover_frames rd map_rc file sz (Suc k # ns) R = recover_frames rd map_rc file sz ns R'"
    using rd fl dec W(1) sc(2) by (simp add: R'_def R1_def Let_def)
  moreover have "scanned L fs (Suc k) R'"
    using sc(1) W(2,3) f by (auto simp: scanned_def R'_def R1_def same_hdr_def index_ok_hdr)
  moreover have "r_log R' = log_after L fs (Suc k)" by (simp add: R'_def R1_def)
  ultimately show ?thesis using that by blast
qed

text \<open>A file with these frames, and behind them nothing that decodes as a further frame.\<close>

definition log_file :: "wal_log \<Rightarrow> nat \<Rightarrow> wal_frame list \<Rightarrow> byte list \<Rightarrow> byte list \<Rightarrow> bool" where
  "log_file L sz fs tail file \<longleftrightarrow> (\<exists>hdr bs L'. length hdr = 32 \<and> write_frames L fs = (bs, L') \<and> file = hdr @ bs @ tail
     \<and> (length tail < sz + 24 \<or> fst (walDecodeFrame L' (drop 24 (take (sz + 24) tail)) (take 24 tail)) = None))"

lemma log_file_frame:
  assumes "log_ok L" "frames_ok sz fs" "write_frames L fs = (bs, L')" "length hdr = 32" "k < length fs"
  shows "buf_read (walFrameOffset (Suc k) sz) (sz + 24) (hdr @ bs @ tail) = buf_read (k * (sz + 24)) (sz + 24) bs"
proof -
  have len: "length bs = length fs * (sz + 24)" by (rule write_frames_length [OF assms(1-3)])
  have "Suc k * (sz + 24) \<le> length fs * (sz + 24)" using assms(5) by (intro mult_le_mono1) simp
  then have "k * (sz + 24) + (sz + 24) \<le> length bs" using len by simp
  then show ?thesis using assms(4) by (simp add: buf_read_def walFrameOffset_def)
qed

lemma scan_frames:
  assumes ok: "log_ok L" "frames_ok sz fs" and fl: "log_file L sz fs tail file"
    and rd: "\<And>f. rd f = 0" and rc: "\<And>h. map_rc h = 0"
  shows "scanned L fs k R \<Longrightarrow> r_log R = log_after L fs k \<Longrightarrow> k \<le> length fs \<Longrightarrow> k \<le> m \<Longrightarrow>
    m \<le> (length file - 32) div (sz + 24) \<Longrightarrow>
    \<exists>R'. recover_frames rd map_rc file sz [Suc k ..< Suc m] R = (0, m \<le> length fs, R') \<and> scanned L fs (min m (length fs)) R'
      \<and> (m \<le> length fs \<longrightarrow> r_log R' = log_after L fs m)"
proof (induction "m - k" arbitrary: k R)
  case 0
  then show ?case by simp
next
  case (Suc j)
  then have km: "k < m" by simp
  obtain hdr bs L' where F: "length hdr = 32" "write_frames L fs = (bs, L')" "file = hdr @ bs @ tail"
      "length tail < sz + 24 \<or> fst (walDecodeFrame L' (drop 24 (take (sz + 24) tail)) (take 24 tail)) = None"
    using fl unfolding log_file_def by blast
  have ns: "[Suc k ..< Suc m] = Suc k # [Suc (Suc k) ..< Suc m]" using km by (simp add: upt_conv_Cons)
  show ?case
  proof (cases "k < length fs")
    case True
    have fr: "buf_read (walFrameOffset (Suc k) sz) (sz + 24) file = buf_read (k * (sz + 24)) (sz + 24) bs"
      unfolding F(3) by (rule log_file_frame [OF ok F(2,1) True])
    obtain R1 where R1: "recover_frames rd map_rc file sz (Suc k # [Suc (Suc k) ..< Suc m]) R = recover_frames rd map_rc file sz [Suc (Suc k) ..< Suc m] R1"
        "scanned L fs (Suc k) R1" "r_log R1 = log_after L fs (Suc k)"
      by (rule scan_step [OF Suc.prems(1,2) True ok F(2) rd rc fr])
    then show ?thesis using Suc.hyps(1) [of "Suc k" R1] Suc.hyps(2) Suc.prems(5) True km unfolding ns by simp
  next
    case False
    then have k: "k = length fs" using Suc.prems(3) by simp
    have lb: "length bs = k * (sz + 24)" using write_frames_length [OF ok F(2)] k by simp
    have "Suc k * (sz + 24) \<le> m * (sz + 24)" using km by (intro mult_le_mono1) simp
    also have "\<dots> \<le> length file - 32" using Suc.prems(5) by (metis div_times_less_eq_dividend le_trans mult_le_mono1)
    finally have "sz + 24 \<le> length tail" using F(1,3) lb by simp
    then have bad: "fst (walDecodeFrame L' (drop 24 (take (sz + 24) tail)) (take 24 tail)) = None" using F(4) by simp
    have rdf: "buf_read (walFrameOffset (Suc k) sz) (sz + 24) file = take (sz + 24) tail"
      using F(1,3) lb by (simp add: buf_read_def walFrameOffset_def)
    have lg: "r_log R = L'" using Suc.prems(2) F(2) k by (simp add: log_after_def)
    obtain M where M: "walDecodeFrame L' (drop 24 (take (sz + 24) tail)) (take 24 tail) = (None, M)" using bad by (metis prod.collapse)
    have "recover_frames rd map_rc file sz [Suc k ..< Suc m] R = (0, False, R\<lparr>r_log := M\<rparr>)"
      unfolding ns using rd rdf lg M by (simp add: Let_def min_def)
    moreover have "scanned L fs (min m (length fs)) (R\<lparr>r_log := M\<rparr>)" using Suc.prems(1) k km by (simp add: scanned_def min_def)
    ultimately show ?thesis using k km by simp
  qed
qed

definition priv_ok :: "(nat \<Rightarrow> wi_page) \<Rightarrow> bool" where
  "priv_ok priv \<longleftrightarrow> (\<forall>h. length (aPgno (priv h)) = cap h \<and> length (aHash (priv h)) = 8192)"

lemma index_ok_fresh_page:
  "index_ok W ps \<Longrightarrow> length ps \<le> hash_iZero h \<Longrightarrow> priv_ok priv \<Longrightarrow> index_ok (W\<lparr>w_index := (w_index W)(h := priv h)\<rparr>) ps"
  by (auto simp: index_ok_def priv_ok_def seg_def)

lemma page_frames_eq: "page_frames n h = [Suc (hash_iZero h) ..< Suc (min n (hash_iZero (Suc h)))]"
  by (simp add: page_frames_def hash_iZero_def Let_def)

lemma scan_page:
  assumes ok: "log_ok L" "frames_ok sz fs" and fl: "log_file L sz fs tail file" and priv: "priv_ok priv"
    and rd: "\<And>f. rd f = 0" and rc: "\<And>h. map_rc h = 0" and n: "n = (length file - 32) div (sz + 24)"
    and sc: "scanned L fs (hash_iZero h) R" "r_log R = log_after L fs (hash_iZero h)" and len: "hash_iZero h \<le> length fs" "hash_iZero h \<le> n"
    and m: "m = min n (hash_iZero (Suc h))"
  shows "\<exists>R'. recover_pages rd map_rc priv file sz n (h # hs) R
      = (if m \<le> length fs then recover_pages rd map_rc priv file sz n hs R' else (0, R'))
    \<and> scanned L fs (min m (length fs)) R' \<and> (m \<le> length fs \<longrightarrow> r_log R' = log_after L fs m)"
proof -
  let ?R = "R\<lparr>r_wal := (r_wal R)\<lparr>w_index := (w_index (r_wal R))(h := priv h)\<rparr>\<rparr>"
  have "length (page_nos (take (hash_iZero h) fs)) \<le> hash_iZero h" by simp
  then have s: "scanned L fs (hash_iZero h) ?R" using sc(1) index_ok_fresh_page [OF _ _ priv] by (simp add: scanned_def)
  have l: "r_log ?R = log_after L fs (hash_iZero h)" using sc(2) by simp
  have hm: "hash_iZero h \<le> m" using m len(2) by (simp add: iZero_Suc)
  have mn: "m \<le> (length file - 32) div (sz + 24)" using m n by simp
  from scan_frames [where rd = rd and map_rc = map_rc, OF ok fl rd rc s l len(1) hm mn] obtain R'
    where "recover_frames rd map_rc file sz [Suc (hash_iZero h) ..< Suc m] ?R = (0, m \<le> length fs, R')" "scanned L fs (min m (length fs)) R'"
      "m \<le> length fs \<longrightarrow> r_log R' = log_after L fs m" by blast
  then show ?thesis using rc by (auto simp: page_frames_eq Let_def simp flip: m simp del: upt_Suc)
qed

lemma page_frame_bounds:
  assumes "H = walFramePage n"
  shows "n \<le> hash_iZero (Suc H)" "h < H \<Longrightarrow> hash_iZero (Suc h) < n"
proof -
  show "n \<le> hash_iZero (Suc H)" using frame_page(2) [of n] assms by (cases "n = 0") (simp_all add: iZero_Suc)
  assume h: "h < H"
  then have "0 < n" using assms by (cases "n = 0") (simp_all add: walFramePage_def)
  then show "hash_iZero (Suc h) < n" using frame_page(1) [of n] iZero_mono [of "Suc h" H] h assms by simp
qed

lemma scan_pages:
  assumes ok: "log_ok L" "frames_ok sz fs" and fl: "log_file L sz fs tail file" and priv: "priv_ok priv"
    and rd: "\<And>f. rd f = 0" and rc: "\<And>h. map_rc h = 0"
    and n: "n = (length file - 32) div (sz + 24)" and H: "H = walFramePage n"
  shows "h \<le> H \<Longrightarrow> scanned L fs (hash_iZero h) R \<Longrightarrow> r_log R = log_after L fs (hash_iZero h) \<Longrightarrow> hash_iZero h \<le> length fs \<Longrightarrow> hash_iZero h \<le> n \<Longrightarrow>
    \<exists>R'. recover_pages rd map_rc priv file sz n [h ..< Suc H] R = (0, R') \<and> scanned L fs (min n (length fs)) R'"
proof (induction "H - h" arbitrary: h R)
  case (0 h R)
  then have h: "h = H" by simp
  have m: "n = min n (hash_iZero (Suc H))" using page_frame_bounds(1) [OF H] by simp
  from scan_page [where rd = rd and map_rc = map_rc and hs = "[]", OF ok fl priv rd rc n "0.prems"(2-5) [unfolded h] m]
  show ?case unfolding h by (auto split: if_splits)
next
  case (Suc j h R)
  then have h: "h < H" by simp
  let ?m = "hash_iZero (Suc h)"
  have mn: "?m < n" by (rule page_frame_bounds(2) [OF H h])
  then have m: "?m = min n ?m" by simp
  have ns: "[h ..< Suc H] = h # [Suc h ..< Suc H]" using h by (simp add: upt_conv_Cons)
  from scan_page [where rd = rd and map_rc = map_rc and hs = "[Suc h ..< Suc H]", OF ok fl priv rd rc n Suc.prems(2-5) m] obtain R1
    where R1: "recover_pages rd map_rc priv file sz n (h # [Suc h ..< Suc H]) R
        = (if ?m \<le> length fs then recover_pages rd map_rc priv file sz n [Suc h ..< Suc H] R1 else (0, R1))"
      "scanned L fs (min ?m (length fs)) R1" "?m \<le> length fs \<longrightarrow> r_log R1 = log_after L fs ?m" by blast
  show ?case
  proof (cases "?m \<le> length fs")
    case True
    then show ?thesis using Suc.hyps(1) [of "Suc h" R1] Suc.hyps(2) R1 mn h unfolding ns by (simp del: upt_Suc)
  next
    case False
    then show ?thesis using R1 mn unfolding ns by (simp del: upt_Suc)
  qed
qed

subsection \<open>The header\<close>

lemma page_size_word:
  assumes "9 \<le> k" "k \<le> 16" "sz = 2 ^ k" "w = (word_of_nat sz :: u32)"
  shows "w AND (w - 1) = 0" "\<not> 65536 < w" "\<not> w < 512" "unat w = sz"
proof -
  have "k \<in> {9, 10, 11, 12, 13, 14, 15, 16}" using assms(1,2) by auto
  then show "w AND (w - 1) = 0" "\<not> 65536 < w" "\<not> w < 512" "unat w = sz" using assms(3,4) by (auto simp: unat_numeral)
qed

lemma wal_header_fields:
  assumes "length salt = 8" "wal_header sz nCkpt salt = (hdr, L)"
  shows "length hdr = 32" "get4 hdr 0 = WAL_MAGIC" "get4 hdr 4 = WAL_MAX_VERSION" "get4 hdr 8 = word_of_nat sz" "get4 hdr 12 = nCkpt"
    "buf_read 16 8 hdr = salt" "walChecksumBytes True (buf_read 0 24 hdr) (0, 0) = (get4 hdr 24, get4 hdr 28)"
    "L = \<lparr>l_szPage = sz, l_bigEnd = False, l_salt = salt, l_cksum = (get4 hdr 24, get4 hdr 28), l_reCksum = 0\<rparr>"
proof -
  let ?m = "sqlite3Put4byte WAL_MAGIC" and ?v = "sqlite3Put4byte WAL_MAX_VERSION" and ?s = "sqlite3Put4byte (word_of_nat sz)" and ?n = "sqlite3Put4byte nCkpt"
  define h where "h = ?m @ ?v @ ?s @ ?n @ salt"
  define c where "c = walChecksumBytes True h (0, 0)"
  have e: "hdr = h @ sqlite3Put4byte (fst c) @ sqlite3Put4byte (snd c)"
      "L = \<lparr>l_szPage = sz, l_bigEnd = False, l_salt = salt, l_cksum = c, l_reCksum = 0\<rparr>"
    using assms(2) by (auto simp: wal_header_def Let_def h_def c_def)
  have len: "length h = 24" using assms(1) by (simp add: h_def)
  show "length hdr = 32" using len by (simp add: e)
  show "get4 hdr 0 = WAL_MAGIC" using get4_put4 [of "[]" 0] by (simp add: e h_def)
  show "get4 hdr 4 = WAL_MAX_VERSION" using get4_put4 [of ?m 4] by (simp add: e h_def)
  show "get4 hdr 8 = word_of_nat sz" using get4_put4 [of "?m @ ?v" 8] by (simp add: e h_def)
  show "get4 hdr 12 = nCkpt" using get4_put4 [of "?m @ ?v @ ?s" 12] by (simp add: e h_def)
  show "buf_read 16 8 hdr = salt" using assms(1) by (simp add: e h_def buf_read_def)
  have 24: "get4 hdr 24 = fst c" using get4_put4 [OF len, of "fst c"] by (simp add: e)
  have 28: "get4 hdr 28 = snd c" using get4_put4 [of "h @ sqlite3Put4byte (fst c)" 28 "snd c" "[]"] len by (simp add: e)
  show "walChecksumBytes True (buf_read 0 24 hdr) (0, 0) = (get4 hdr 24, get4 hdr 28)"
    using len 24 28 by (simp add: e buf_read_def flip: c_def)
  show "L = \<lparr>l_szPage = sz, l_bigEnd = False, l_salt = salt, l_cksum = (get4 hdr 24, get4 hdr 28), l_reCksum = 0\<rparr>" using e(2) 24 28 by simp
qed

text \<open>A file with a header and at least one byte more: recovery is the scan of its pages.\<close>

lemma recover_valid_header:
  assumes k: "9 \<le> k" "k \<le> 16" "sz = 2 ^ k" and salt: "length salt = 8" "wal_header sz nCkpt salt = (hdr, L0)"
    and rest: "rest \<noteq> []" and L: "l_reCksum L = 0"
  shows "walIndexRecover 0 0 True rd map_rc priv (hdr @ rest) W L =
    (let n = length rest div (sz + 24);
         (rc, R) = recover_pages rd map_rc priv (hdr @ rest) sz n [0 ..< Suc (walFramePage n)]
           \<lparr>r_wal = W\<lparr>w_mxFrame := 0, w_cksum := (0, 0), w_nCkpt := unat nCkpt\<rparr>, r_log = L0, r_nPage = 0, r_saved = (0, 0)\<rparr>
     in recover_finish rc R)"
proof -
  note F = wal_header_fields [OF salt] and P = page_size_word [OF k refl]
  have b: "buf_read 0 32 (hdr @ rest) = hdr" using F(1) by (simp add: buf_read_def)
  have l0: "L\<lparr>l_bigEnd := False, l_szPage := sz, l_salt := salt, l_cksum := (get4 hdr 24, get4 hdr 28)\<rparr> = L0"
    unfolding F(8) using L by (cases L) simp
  show ?thesis
    unfolding walIndexRecover_def b
    using F(7) P l0 rest by (simp add: Let_def F(1-6) del: upt_Suc)
qed

lemma scanned_finish:
  assumes "scanned L fs (length fs) R" "frames_ok sz fs" "c = commit_len fs (length fs)"
  shows "holds (r_wal (snd (recover_finish 0 R))) (page_nos (take c fs))"
    "w_live (r_wal (snd (recover_finish 0 R))) = (c, if c = 0 then (0, 0) else l_cksum (log_after L fs c))"
    "r_nPage (snd (recover_finish 0 R)) = (if c = 0 then 0 else fst (snd (fs ! (c - 1))))"
proof -
  let ?W = "r_wal (snd (recover_finish 0 R))"
  have e: "page_nos (take c fs) @ page_nos (drop c fs) = page_nos fs" by (simp add: page_nos_def flip: map_append)
  have "c \<le> length fs" using assms(3) commit_len_le by simp
  then have "w_mxFrame ?W = length (page_nos (take c fs))" using assms(1,3) by (simp add: scanned_def recover_finish_def)
  moreover have "index_ok ?W (page_nos fs)" using assms(1) by (simp add: scanned_def recover_finish_def index_ok_def)
  ultimately show "holds ?W (page_nos (take c fs))"
    unfolding holds_def using page_nos_nz [OF assms(2)] e by metis
qed (use assms(1,3) in \<open>auto simp: scanned_def recover_finish_def\<close>)

lemma recover_committed:
  assumes "9 \<le> k" "k \<le> 16" "szPage = 2 ^ k" "length salt = 8" "wal_header szPage nCkpt salt = (hdr, L0)"
    and "frames_ok szPage fs" "write_frames L0 fs = (bs, L1)"
    and "length tail < szPage + 24 \<or> fst (walDecodeFrame L1 (drop 24 (take (szPage + 24) tail)) (take 24 tail)) = None"
    and "index_ok W []" "priv_ok priv" "l_reCksum L = 0"
    and "c = commit_len fs (length fs)" "walIndexRecover 0 0 True (\<lambda>_. 0) (\<lambda>_. 0) priv (hdr @ bs @ tail) W L = (rc, R)"
  shows "rc = SQLITE_OK \<and> holds (r_wal R) (page_nos (take c fs))
    \<and> w_live (r_wal R) = (c, if c = 0 then (0, 0) else l_cksum (snd (write_frames L0 (take c fs))))
    \<and> r_nPage R = (if c = 0 then 0 else fst (snd (fs ! (c - 1))))"
proof -
  note F = wal_header_fields [OF assms(4,5)]
  have L0: "log_ok L0" using F(8) assms(4) by (simp add: log_ok_def)
  have fl: "log_file L0 szPage fs tail (hdr @ bs @ tail)" unfolding log_file_def using F(1) assms(7,8) by blast
  have lb: "length bs = length fs * (szPage + 24)" by (rule write_frames_length [OF L0 assms(6,7)])
  have "\<exists>R'. (rc, R) = recover_finish 0 R' \<and> scanned L0 fs (length fs) R'"
  proof (cases "bs @ tail = []")
    case True
    let ?R = "\<lparr>r_wal = W\<lparr>w_mxFrame := 0, w_cksum := (0, 0)\<rparr>, r_log = L\<lparr>l_bigEnd := False, l_salt := replicate 8 0, l_cksum := (0, 0)\<rparr>, r_nPage = 0, r_saved = (0, 0)\<rparr>"
    have "fs = []" using True lb by simp
    moreover have "(rc, R) = recover_finish 0 ?R" using assms(13) True F(1) by (simp add: walIndexRecover_def Let_def)
    ultimately show ?thesis using assms(9) by (intro exI [of _ ?R]) (simp add: scanned_def index_ok_hdr page_nos_def)
  next
    case False
    let ?n = "length (bs @ tail) div (szPage + 24)"
    let ?R = "\<lparr>r_wal = W\<lparr>w_mxFrame := 0, w_cksum := (0, 0), w_nCkpt := unat nCkpt\<rparr>, r_log = L0, r_nPage = 0, r_saved = (0, 0)\<rparr>"
    have n: "?n = (length (hdr @ bs @ tail) - 32) div (szPage + 24)" using F(1) by simp
    have sc: "scanned L0 fs (hash_iZero 0) ?R" using assms(9) by (simp add: scanned_def index_ok_def page_nos_def hash_iZero_def)
    have lg: "r_log ?R = log_after L0 fs (hash_iZero 0)" by (simp add: hash_iZero_def)
    have z: "hash_iZero 0 \<le> j" for j by (simp add: hash_iZero_def)
    obtain R' where r: "recover_pages (\<lambda>_. 0) (\<lambda>_. 0) priv (hdr @ bs @ tail) szPage ?n [0 ..< Suc (walFramePage ?n)] ?R = (0, R')"
        and m: "scanned L0 fs (min ?n (length fs)) R'"
      using scan_pages [where rd = "\<lambda>_. 0" and map_rc = "\<lambda>_. 0", OF L0 assms(6) fl assms(10) refl refl n refl le0 sc lg z z] by blast
    have "min ?n (length fs) = length fs" using lb by simp
    then have "scanned L0 fs (length fs) R'" using m by simp
    moreover have "(rc, R) = recover_finish 0 R'"
      using recover_valid_header [OF assms(1-5) False assms(11), of "\<lambda>_. 0" "\<lambda>_. 0" priv W] r assms(13)
      by (simp only: Let_def append_assoc prod.case)
    ultimately show ?thesis by blast
  qed
  then obtain R' where R': "(rc, R) = recover_finish 0 R'" "scanned L0 fs (length fs) R'" by blast
  then have "rc = 0" "R = snd (recover_finish 0 R')" by (auto simp: recover_finish_def)
  then show ?thesis using scanned_finish [OF R'(2) assms(6,12)] by (simp add: log_after_def)
qed

section \<open>Properties\<close>

text \<open>C14. Crash recovery. Let the file hold the header and the frames \<open>fs\<close> as the writer wrote them, and behind them anything that does not
  decode as one more frame: nothing, a torn frame, or the remains of an older log. Then \<open>walIndexRecover\<close> succeeds, whatever the shared memory and
  its buffer held, and the index stands for the frames up to the last commit record, and for no other; the database size and the
  running checksum are those of that record.\<close>

theorem walIndexRecover_committed_prefix:
  assumes "9 \<le> k" "k \<le> 16" "szPage = 2 ^ k" "length salt = 8" "wal_header szPage nCkpt salt = (hdr, L0)"
    and "frames_ok szPage fs" "write_frames L0 fs = (bs, L1)"
    and "length tail < szPage + 24 \<or> fst (walDecodeFrame L1 (drop 24 (take (szPage + 24) tail)) (take 24 tail)) = None"
    and "index_ok W []" "priv_ok priv" "l_reCksum L = 0"
    and "c = commit_len fs (length fs)" "walIndexRecover 0 0 True (\<lambda>_. 0) (\<lambda>_. 0) priv (hdr @ bs @ tail) W L = (rc, R)"
  shows "rc = SQLITE_OK \<and> holds (r_wal R) (page_nos (take c fs))
    \<and> w_live (r_wal R) = (c, if c = 0 then (0, 0) else l_cksum (snd (write_frames L0 (take c fs))))
    \<and> r_nPage R = (if c = 0 then 0 else fst (snd (fs ! (c - 1))))"
  using recover_committed [OF assms] .

text \<open>A log of page size 512 with a committed transaction of two pages, an uncommitted frame, and a torn one.\<close>

theorem walIndexRecover_committed_prefix_witness:
  "\<exists>file R. walIndexRecover 0 0 True (\<lambda>_. 0) (\<lambda>_. 0) (w_index wal_new) file wal_new
       \<lparr>l_szPage = 0, l_bigEnd = False, l_salt = [], l_cksum = (0, 0), l_reCksum = 0\<rparr> = (0, R)
     \<and> holds (r_wal R) [7, 9] \<and> r_nPage R = 9"
proof -
  define fs :: "wal_frame list" where "fs = [(7, 0, replicate 512 1), (9, 9, replicate 512 2), (7, 0, replicate 512 3)]"
  let ?L = "\<lparr>l_szPage = 0, l_bigEnd = False, l_salt = [], l_cksum = (0, 0), l_reCksum = 0\<rparr>"
  obtain hdr L0 where h: "wal_header 512 0 (replicate 8 5) = (hdr, L0)" by fastforce
  obtain bs L1 where b: "write_frames L0 fs = (bs, L1)" by fastforce
  obtain rc R where r: "walIndexRecover 0 0 True (\<lambda>_. 0) (\<lambda>_. 0) (w_index wal_new) (hdr @ bs @ [1, 2, 3]) wal_new ?L = (rc, R)" by fastforce
  have ok: "frames_ok 512 fs" by (simp add: frames_ok_def fs_def)
  have ix: "index_ok wal_new []" "priv_ok (w_index wal_new)" by (simp_all add: index_ok_def priv_ok_def wal_new_def seg_def)
  have c: "2 = commit_len fs (length fs)" by (simp add: fs_def)
  have "rc = 0 \<and> holds (r_wal R) (page_nos (take 2 fs)) \<and> r_nPage R = fst (snd (fs ! 1))"
    using walIndexRecover_committed_prefix [OF _ _ _ _ h ok b _ ix _ c r, of 9] by simp
  moreover have "page_nos (take 2 fs) = [7, 9]" "fst (snd (fs ! 1)) = 9" by (simp_all add: fs_def page_nos_def)
  ultimately show ?thesis using r by auto
qed

end
