(* ===== verification/Wal_Checkpoint.thy ===== *)
theory Wal_Checkpoint
  imports Wal_Iterator Wal_Recover
begin

text \<open>
  The checkpoint (\<open>walCheckpoint\<close> of \<open>src/wal.c\<close>): copying the content of the log back into the database file while others read.

  \<open>ckpt\<close> is the checkpoint part of the shared memory (\<open>WalCkptInfo\<close>) and the database file, as a function from page numbers to contents. What the
  operating system and the other connections do is \<open>ckpt_env\<close>: the results of \<open>walBusyLock\<close> for the lock of each read mark and for all of them, of
  the allocation, and of reading, writing, truncating and synchronising the files. A write that fails leaves \<open>e_torn\<close> in the page. A lock another
  connection holds is busy. \<open>wal_file\<close> is the log as bytes. The interrupt flag is read before each page.
\<close>

section \<open>Definitions\<close>

abbreviation (input) SQLITE_BUSY :: int where "SQLITE_BUSY \<equiv> 5"
abbreviation (input) SQLITE_INTERRUPT :: int where "SQLITE_INTERRUPT \<equiv> 9"
abbreviation (input) READMARK_NOT_USED :: nat where "READMARK_NOT_USED \<equiv> 0xFFFFFFFF"
abbreviation (input) SQLITE_CHECKPOINT_PASSIVE :: nat where "SQLITE_CHECKPOINT_PASSIVE \<equiv> 0"
abbreviation (input) SQLITE_CHECKPOINT_RESTART :: nat where "SQLITE_CHECKPOINT_RESTART \<equiv> 2"
abbreviation (input) SQLITE_CHECKPOINT_TRUNCATE :: nat where "SQLITE_CHECKPOINT_TRUNCATE \<equiv> 3"

record ckpt =
  c_nBackfill :: nat
  c_nBackfillAttempted :: nat
  c_aReadMark :: "nat list"
  c_db :: "nat \<Rightarrow> byte list"

record ckpt_env =
  e_lock :: "nat \<Rightarrow> int"
  e_lock_readers :: int
  e_map :: "nat \<Rightarrow> int"
  e_mem :: bool
  e_sync_wal :: int
  e_size :: "int \<times> nat"
  e_interrupted :: "nat \<Rightarrow> bool"
  e_mallocFailed :: bool
  e_read :: "nat \<Rightarrow> int"
  e_write :: "nat \<Rightarrow> int"
  e_torn :: "nat \<Rightarrow> byte list"
  e_truncate_db :: int
  e_sync_db :: int
  e_truncate_wal :: int

text \<open>The loop over the read marks. The flag says whether it was left by an error.\<close>

fun ckpt_marks :: "(nat \<Rightarrow> int) \<Rightarrow> nat list \<Rightarrow> int \<Rightarrow> nat \<Rightarrow> nat list \<Rightarrow> bool \<times> int \<times> nat \<times> nat list" where
  "ckpt_marks lock [] rc mxSafeFrame aReadMark = (False, rc, mxSafeFrame, aReadMark)"
| "ckpt_marks lock (i # is) rc mxSafeFrame aReadMark =
     (let y = aReadMark ! i
      in if mxSafeFrame > y
         then if lock i = SQLITE_OK
              then ckpt_marks lock is SQLITE_OK mxSafeFrame (aReadMark[i := (if i = 1 then mxSafeFrame else READMARK_NOT_USED)])
              else if lock i = SQLITE_BUSY then ckpt_marks lock is SQLITE_BUSY y aReadMark
              else (True, lock i, mxSafeFrame, aReadMark)
         else ckpt_marks lock is rc mxSafeFrame aReadMark)"

definition frame_data :: "byte list \<Rightarrow> nat \<Rightarrow> nat \<Rightarrow> byte list" where
  "frame_data wal_file szPage iFrame = buf_read (walFrameOffset iFrame szPage + WAL_FRAME_HDRSIZE) szPage wal_file"

function ckpt_copy :: "ckpt_env \<Rightarrow> byte list \<Rightarrow> nat \<Rightarrow> nat \<Rightarrow> nat \<Rightarrow> nat \<Rightarrow> wal_iter \<Rightarrow> nat \<Rightarrow> (nat \<Rightarrow> byte list) \<Rightarrow> int \<times> (nat \<Rightarrow> byte list)" where
  "ckpt_copy E wal_file szPage nBackfill mxSafeFrame mxPage p iFrame db =
     (case walIteratorNext p iFrame of
        (True, _, _, _) \<Rightarrow> (SQLITE_OK, db)
      | (False, iDbpage, iFrame, p) \<Rightarrow>
          if e_interrupted E iDbpage then (if e_mallocFailed E then SQLITE_NOMEM else SQLITE_INTERRUPT, db)
          else if iFrame \<le> nBackfill \<or> iFrame > mxSafeFrame \<or> iDbpage > mxPage
          then ckpt_copy E wal_file szPage nBackfill mxSafeFrame mxPage p iFrame db
          else if e_read E iFrame \<noteq> SQLITE_OK then (e_read E iFrame, db)
          else if e_write E iDbpage \<noteq> SQLITE_OK then (e_write E iDbpage, db(iDbpage := e_torn E iDbpage))
          else ckpt_copy E wal_file szPage nBackfill mxSafeFrame mxPage p iFrame (db(iDbpage := frame_data wal_file szPage iFrame)))"
  by pat_completeness auto
termination
  by (relation "measure (\<lambda>(E, w, s, b, m, g, p, f, db). 0xFFFFFFFF - i_iPrior p)")
    (auto dest!: iterator_advances [OF sym] intro: diff_less_mono2)

declare ckpt_copy.simps [simp del]

text \<open>The part under the lock of read mark 0, from the start of the copy to the new value of \<open>nBackfill\<close>.\<close>

definition ckpt_backfill :: "ckpt_env \<Rightarrow> byte list \<Rightarrow> nat \<Rightarrow> nat \<Rightarrow> wal \<Rightarrow> nat \<Rightarrow> wal_iter \<Rightarrow> ckpt \<Rightarrow> int \<times> ckpt" where
  "ckpt_backfill E wal_file szPage nPage W mxSafeFrame pIter K =
     (let nBackfill = c_nBackfill K;
          mxPage = nPage;
          K = K\<lparr>c_nBackfillAttempted := mxSafeFrame\<rparr>;
          rc = e_sync_wal E;
          nReq = mxPage * szPage;
          rc = (if rc = SQLITE_OK
                then let (rc, nSize) = e_size E
                     in if rc = SQLITE_OK \<and> nSize < nReq \<and> nSize + 65536 + w_mxFrame W * szPage < nReq then SQLITE_CORRUPT else rc
                else rc)
      in if rc \<noteq> SQLITE_OK then (rc, K)
         else let (rc, db) = ckpt_copy E wal_file szPage nBackfill mxSafeFrame mxPage pIter 0 (c_db K);
                  K = K\<lparr>c_db := db\<rparr>
              in if rc \<noteq> SQLITE_OK then (rc, K)
                 else if mxSafeFrame = fst (w_live W)
                 then if e_truncate_db E \<noteq> SQLITE_OK then (e_truncate_db E, K)
                      else let K = K\<lparr>c_db := (\<lambda>p. if p \<le> nPage then db p else [])\<rparr>
                           in if e_sync_db E \<noteq> SQLITE_OK then (e_sync_db E, K) else (SQLITE_OK, K\<lparr>c_nBackfill := mxSafeFrame\<rparr>)
                 else (SQLITE_OK, K\<lparr>c_nBackfill := mxSafeFrame\<rparr>))"

definition walRestartHdr :: "wal \<Rightarrow> wal_log \<Rightarrow> ckpt \<Rightarrow> byte list \<Rightarrow> wal \<times> wal_log \<times> ckpt" where
  "walRestartHdr W L K salt1 =
     (W\<lparr>w_nCkpt := (w_nCkpt W + 1) mod 2 ^ 32, w_mxFrame := 0, w_live := (0, w_cksum W)\<rparr>,
      L\<lparr>l_salt := sqlite3Put4byte (1 + get4 (l_salt L) 0) @ salt1\<rparr>,
      K\<lparr>c_nBackfill := 0, c_nBackfillAttempted := 0,
        c_aReadMark := take 1 (c_aReadMark K) @ 0 # replicate 3 READMARK_NOT_USED\<rparr>)"

text \<open>The first half of \<open>walCheckpoint\<close>: the flag says whether it went to \<open>walcheckpoint_out\<close>.\<close>

definition ckpt_first :: "ckpt_env \<Rightarrow> byte list \<Rightarrow> nat \<Rightarrow> nat \<Rightarrow> wal \<Rightarrow> ckpt \<Rightarrow> bool \<times> int \<times> ckpt" where
  "ckpt_first E wal_file szPage nPage W K =
     (if c_nBackfill K < w_mxFrame W
      then let (out, rc, mxSafeFrame, marks) = ckpt_marks (e_lock E) [1 ..< 5] SQLITE_OK (w_mxFrame W) (c_aReadMark K);
               K = K\<lparr>c_aReadMark := marks\<rparr>
           in if out then (True, rc, K)
              else let (rc, pIter) = (if c_nBackfill K < mxSafeFrame then walIteratorInit (e_map E) (e_mem E) W (c_nBackfill K) else (rc, None));
                       (rc, K) = (case pIter of
                                    None \<Rightarrow> (rc, K)
                                  | Some p \<Rightarrow> if e_lock E 0 \<noteq> SQLITE_OK then (e_lock E 0, K)
                                              else ckpt_backfill E wal_file szPage nPage W mxSafeFrame p K)
                   in (False, if rc = SQLITE_BUSY then SQLITE_OK else rc, K)
      else (False, SQLITE_OK, K))"

definition walCheckpoint ::
    "ckpt_env \<Rightarrow> nat \<Rightarrow> byte list \<Rightarrow> byte list \<Rightarrow> nat \<Rightarrow> nat \<Rightarrow> wal \<Rightarrow> wal_log \<Rightarrow> ckpt \<Rightarrow> int \<times> wal \<times> wal_log \<times> ckpt" where
  "walCheckpoint E eMode salt1 wal_file szPage nPage W L K =
     (let (out, rc, K) = ckpt_first E wal_file szPage nPage W K
      in if \<not> out \<and> rc = SQLITE_OK \<and> eMode \<noteq> SQLITE_CHECKPOINT_PASSIVE
         then if c_nBackfill K < w_mxFrame W then (SQLITE_BUSY, W, L, K)
              else if eMode \<ge> SQLITE_CHECKPOINT_RESTART
              then if e_lock_readers E \<noteq> SQLITE_OK then (e_lock_readers E, W, L, K)
                   else if eMode = SQLITE_CHECKPOINT_TRUNCATE
                   then let (W, L, K) = walRestartHdr W L K salt1 in (e_truncate_wal E, W, L, K)
                   else (SQLITE_OK, W, L, K)
              else (SQLITE_OK, W, L, K)
         else (rc, W, L, K))"

text \<open>The content of a page for a reader: of the frame it finds in the log, or else of the database.\<close>

definition page_read :: "byte list \<Rightarrow> nat \<Rightarrow> (nat \<Rightarrow> byte list) \<Rightarrow> wal \<Rightarrow> nat \<Rightarrow> byte list" where
  "page_read wal_file szPage db W p =
     (let (rc, f) = walFindFrame (\<lambda>_. SQLITE_OK) W p in if f = 0 then db p else frame_data wal_file szPage f)"

section \<open>Lemmas\<close>

subsection \<open>The read marks\<close>

text \<open>The limit stays below every mark whose lock is busy, and those marks are kept.\<close>

lemma ckpt_marks_safe:
  assumes "ckpt_marks lock is rc mx marks = (out, rc', mx', marks')"
  shows "mx' \<le> mx \<and> length marks' = length marks
    \<and> (\<forall>i \<in> set is. \<not> out \<longrightarrow> lock i = 5 \<longrightarrow> mx' \<le> marks ! i) \<and> (\<forall>i. lock i = 5 \<longrightarrow> marks' ! i = marks ! i)"
  using assms
proof (induction "is" arbitrary: rc mx marks)
  case (Cons i js)
  show ?case
  proof (cases "mx > marks ! i \<and> lock i = 0")
    case True
    let ?m = "marks[i := (if i = 1 then mx else READMARK_NOT_USED)]"
    have "ckpt_marks lock js 0 mx ?m = (out, rc', mx', marks')" using Cons.prems True by (simp add: Let_def)
    moreover have "?m ! k = marks ! k" if "lock k = 5" for k using that True by (cases "k = i") simp_all
    ultimately show ?thesis using True Cons.IH [of 0 mx ?m] by auto
  next
    case False
    then show ?thesis using Cons.prems Cons.IH [of 5 "marks ! i" marks] Cons.IH [of rc mx marks]
      by (auto simp: Let_def split: if_splits)
  qed
qed simp

subsection \<open>The copy\<close>

definition newest_frame :: "nat list \<Rightarrow> nat \<Rightarrow> nat" where
  "newest_frame fs p = best (frames_of fs p 1 (length fs))"

lemma newest_frame_after: "best (frames_of fs p (Suc lo) (length fs)) \<noteq> 0 \<Longrightarrow> best (frames_of fs p (Suc lo) (length fs)) = newest_frame fs p"
proof -
  let ?S = "frames_of fs p (Suc lo) (length fs)"
  assume "best ?S \<noteq> 0"
  then have "best ?S \<in> ?S" "\<forall>f \<in> ?S. f \<le> best ?S" using best_cases [of ?S] by auto
  then show ?thesis unfolding newest_frame_def by (intro best_eqI [symmetric]) (auto simp: frames_of_def)
qed

lemma newest_frame_in: "lo < newest_frame fs p \<Longrightarrow> best (frames_of fs p (Suc lo) (length fs)) = newest_frame fs p \<and> frames_of fs p (Suc lo) (length fs) \<noteq> {}"
proof -
  let ?S = "frames_of fs p 1 (length fs)"
  assume lo: "lo < newest_frame fs p"
  then have n: "newest_frame fs p \<in> ?S" "\<forall>f \<in> ?S. f \<le> newest_frame fs p" using best_cases [of ?S] by (auto simp: newest_frame_def)
  have m: "newest_frame fs p \<in> frames_of fs p (Suc lo) (length fs)" using n(1) lo by (simp add: frames_of_def)
  moreover have "best (frames_of fs p (Suc lo) (length fs)) = newest_frame fs p" using n m by (intro best_eqI) (auto simp: frames_of_def)
  ultimately show ?thesis by blast
qed

text \<open>The pages a checkpoint has to copy, and that it copies these and no other.\<close>

definition due :: "nat list \<Rightarrow> nat \<Rightarrow> nat \<Rightarrow> nat \<Rightarrow> nat \<Rightarrow> bool" where
  "due fs b mx mxPage q \<longleftrightarrow> q \<le> mxPage \<and> b < newest_frame fs q \<and> newest_frame fs q \<le> mx"

lemma ckpt_copy_ok:
  assumes pg: "\<forall>q \<in> set fs. q < 0xFFFFFFFF"
  shows "hash_iZero first \<le> b \<Longrightarrow> iter_ok fs first p \<Longrightarrow> i_iPrior p < 0xFFFFFFFF \<Longrightarrow> ckpt_copy E w sz b mx mxPage p f0 db = (rc, db') \<Longrightarrow>
    (\<forall>q. db' q \<noteq> db q \<longrightarrow> i_iPrior p < q \<and> due fs b mx mxPage q)
      \<and> (rc = 0 \<longrightarrow> (\<forall>q. i_iPrior p < q \<longrightarrow> due fs b mx mxPage q \<longrightarrow> db' q = frame_data w sz (newest_frame fs q)))"
proof (induction E w sz b mx mxPage p f0 db rule: ckpt_copy.induct)
  case (1 E w sz b mx mxPage p f0 db)
  obtain dn g f p' where nx: "walIteratorNext p f0 = (dn, g, f, p')" by (metis prod_cases4)
  note N = walIteratorNext_is [OF pg "1.prems"(2,3) nx]
  have aft: "q \<in> pages_after fs (hash_iZero first) (i_iPrior p)" if "i_iPrior p < q" "due fs b mx mxPage q" for q
  proof -
    have "hash_iZero first < newest_frame fs q" using that(2) "1.prems"(1) by (simp add: due_def)
    then show ?thesis using newest_frame_in that(1) by (simp add: pages_after_def)
  qed
  show ?case
  proof (cases dn)
    case True
    then have "pages_after fs (hash_iZero first) (i_iPrior p) = {}" using N by (auto simp: next_is_def)
    moreover have "rc = 0" "db' = db" using "1.prems"(4) nx True by (simp_all add: ckpt_copy.simps [of E w sz b mx mxPage p])
    ultimately show ?thesis using aft by blast
  next
    case False
    then have nx': "walIteratorNext p f0 = (False, g, f, p')" using nx by simp
    have adv: "i_iPrior p < g" "g < 0xFFFFFFFF" "i_iPrior p' = g" "iter_ok fs first p'" using iterator_advances [OF nx'] N by auto
    have nn: "g \<in> pages_after fs (hash_iZero first) (i_iPrior p)" "\<And>q. q \<in> pages_after fs (hash_iZero first) (i_iPrior p) \<Longrightarrow> g \<le> q"
        "f = best (frames_of fs g (Suc (hash_iZero first)) (length fs))" using N False by (auto simp: next_is_def)
    have "f \<noteq> 0" using nn(1,3) best_cases [of "frames_of fs g (Suc (hash_iZero first)) (length fs)"] by (simp add: pages_after_def)
    then have f: "f = newest_frame fs g" using nn(3) newest_frame_after by metis
    have skip: "f \<le> b \<or> f > mx \<or> g > mxPage \<longleftrightarrow> \<not> due fs b mx mxPage g" unfolding due_def f by auto
    have low: "q = g \<or> g < q" if "i_iPrior p < q" "due fs b mx mxPage q" for q using nn(2) [OF aft [OF that]] by auto
    have e: "(rc, db') = (if e_interrupted E g then (if e_mallocFailed E then 7 else 9, db)
          else if \<not> due fs b mx mxPage g then ckpt_copy E w sz b mx mxPage p' f db
          else if e_read E f \<noteq> 0 then (e_read E f, db)
          else if e_write E g \<noteq> 0 then (e_write E g, db(g := e_torn E g))
          else ckpt_copy E w sz b mx mxPage p' f (db(g := frame_data w sz f)))"
      unfolding skip [symmetric] "1.prems"(4) [symmetric] by (subst ckpt_copy.simps) (simp only: nx' prod.case bool.case if_True if_False)
    have p': "i_iPrior p' < 0xFFFFFFFF" using adv by simp
    consider "e_interrupted E g" | "\<not> e_interrupted E g" "\<not> due fs b mx mxPage g"
      | "\<not> e_interrupted E g" "due fs b mx mxPage g" "e_read E f \<noteq> 0 \<or> e_write E g \<noteq> 0"
      | "\<not> e_interrupted E g" "due fs b mx mxPage g" "e_read E f = 0" "e_write E g = 0" by blast
    then show ?thesis
    proof cases
      case 1
      then have "rc \<noteq> 0" "db' = db" using e by auto
      then show ?thesis by blast
    next
      case 2
      then have c: "ckpt_copy E w sz b mx mxPage p' f db = (rc, db')" using e by simp
      have "f \<le> b \<or> f > mx \<or> g > mxPage" using skip 2(2) by simp
      note IH = "1.IH"(1) [OF nx' [symmetric] refl refl refl 2(1) this "1.prems"(1) adv(4) p' c, unfolded adv(3)]
      then have "i_iPrior p < q \<and> due fs b mx mxPage q" if "db' q \<noteq> db q" for q using that adv(1) by (meson less_trans)
      moreover have "db' q = frame_data w sz (newest_frame fs q)" if "rc = 0" "i_iPrior p < q" "due fs b mx mxPage q" for q
        using low [OF that(2,3)] 2(2) IH that(1,3) by metis
      ultimately show ?thesis by blast
    next
      case 3
      then have "rc \<noteq> 0" "\<And>q. q \<noteq> g \<Longrightarrow> db' q = db q" using e by (auto split: if_splits)
      then show ?thesis using 3(2) adv(1) by metis
    next
      case 4
      then have c: "ckpt_copy E w sz b mx mxPage p' f (db(g := frame_data w sz f)) = (rc, db')" using e by simp
      have "\<not> (f \<le> b \<or> f > mx \<or> g > mxPage)" using skip 4(2) by simp
      note IH = "1.IH"(2) [OF nx' [symmetric] refl refl refl 4(1) this _ _ "1.prems"(1) adv(4) p' c, unfolded adv(3)]
      have I: "\<And>q. db' q \<noteq> (db(g := frame_data w sz f)) q \<Longrightarrow> g < q \<and> due fs b mx mxPage q"
          "\<And>q. rc = 0 \<Longrightarrow> g < q \<Longrightarrow> due fs b mx mxPage q \<Longrightarrow> db' q = frame_data w sz (newest_frame fs q)" using IH 4(3,4) by blast+
      have at_g: "db' g = frame_data w sz (newest_frame fs g)" using I(1) [of g] f by auto
      have "i_iPrior p < q \<and> due fs b mx mxPage q" if "db' q \<noteq> db q" for q
        using that I(1) [of q] 4(2) adv(1) by (cases "q = g") auto
      moreover have "db' q = frame_data w sz (newest_frame fs q)" if "rc = 0" "i_iPrior p < q" "due fs b mx mxPage q" for q
        using low [OF that(2,3)] at_g I(2) that(1,3) by blast
      ultimately show ?thesis by blast
    qed
  qed
qed

subsection \<open>The whole checkpoint\<close>

lemma init_segs_mapped: "init_segs map_rc W iLast N is segs = (0, segs') \<Longrightarrow> init_segs (\<lambda>_. 0) W iLast N is segs = (0, segs')"
  by (induction "is" arbitrary: segs) (auto simp: Let_def split: if_splits)

lemma walIteratorInit_some: "walIteratorInit map_rc mem W b = (rc, Some p) \<Longrightarrow> walIteratorInit (\<lambda>_. 0) True W b = (0, Some p)"
  using init_segs_mapped [of map_rc W "w_mxFrame W"] by (auto simp: walIteratorInit_def Let_def simp del: upt_Suc split: prod.splits if_splits)

text \<open>The step from one state of the checkpoint to the next: which pages of the database may differ, and when \<open>nBackfill\<close> may advance.\<close>

definition moved :: "nat list \<Rightarrow> byte list \<Rightarrow> nat \<Rightarrow> nat \<Rightarrow> nat \<Rightarrow> ckpt \<Rightarrow> ckpt \<Rightarrow> bool" where
  "moved fs w sz nPage mx K K' \<longleftrightarrow> (\<forall>q \<le> nPage. c_db K' q \<noteq> c_db K q \<longrightarrow> due fs (c_nBackfill K) mx nPage q)
     \<and> (c_nBackfill K' = c_nBackfill K
        \<or> c_nBackfill K' = mx \<and> (\<forall>q. due fs (c_nBackfill K) mx nPage q \<longrightarrow> c_db K' q = frame_data w sz (newest_frame fs q)))"

lemma due_pos: "0 \<notin> set fs \<Longrightarrow> due fs b mx nPage q \<Longrightarrow> 0 < q"
proof -
  assume z: "0 \<notin> set fs" and d: "due fs b mx nPage q"
  have "newest_frame fs q \<in> frames_of fs q 1 (length fs)" using d best_cases [of "frames_of fs q 1 (length fs)"] by (auto simp: due_def newest_frame_def)
  then have "newest_frame fs q - 1 < length fs" "fs ! (newest_frame fs q - 1) = q" by (auto simp: frames_of_def)
  then have "q \<in> set fs" using nth_mem by metis
  then show "0 < q" using z by (metis gr0I)
qed

lemma backfill_moved:
  assumes pg: "\<forall>q \<in> set fs. q < 0xFFFFFFFF" "0 \<notin> set fs" and it: "hash_iZero first \<le> c_nBackfill K" "iter_ok fs first p" "i_iPrior p = 0"
    and bf: "ckpt_backfill E w sz nPage W mx p K = (rc, K')"
  shows "moved fs w sz nPage mx K K' \<and> c_aReadMark K' = c_aReadMark K \<and> (rc = 0 \<longrightarrow> c_nBackfill K' = mx)
    \<and> (\<forall>q > nPage. c_db K' q \<noteq> c_db K q \<longrightarrow> mx = fst (w_live W))"
proof -
  obtain rc1 db where c: "ckpt_copy E w sz (c_nBackfill K) mx nPage p 0 (c_db K) = (rc1, db)" by fastforce
  note C = ckpt_copy_ok [OF pg(1) it(1,2) _ c, unfolded it(3)]
  have D: "\<And>q. db q \<noteq> c_db K q \<Longrightarrow> due fs (c_nBackfill K) mx nPage q"
      "\<And>q. rc1 = 0 \<Longrightarrow> due fs (c_nBackfill K) mx nPage q \<Longrightarrow> db q = frame_data w sz (newest_frame fs q)"
    using C due_pos [OF pg(2)] by auto
  have q: "due fs b m nPage q \<Longrightarrow> q \<le> nPage" for b m q by (simp add: due_def)
  then have "moved fs w sz nPage mx K K'" "c_aReadMark K' = c_aReadMark K \<and> (rc = 0 \<longrightarrow> c_nBackfill K' = mx)"
    using bf c D unfolding moved_def ckpt_backfill_def by (auto simp: Let_def split: if_splits prod.splits)
  moreover have "\<And>q. nPage < q \<Longrightarrow> db q = c_db K q" using D(1) q by (meson not_le)
  then have "mx = fst (w_live W)" if "nPage < q" "c_db K' q \<noteq> c_db K q" for q
    using that bf c unfolding ckpt_backfill_def by (auto simp: Let_def split: if_splits prod.splits)
  ultimately show ?thesis by blast
qed

lemma first_moved:
  assumes pg: "\<forall>q \<in> set fs. q < 0xFFFFFFFF" "0 \<notin> set fs" and ok: "index_ok W (fs @ rest)" "w_mxFrame W = length fs"
    and fs: "ckpt_first E w sz nPage W K = (out, rc, K')"
  shows "\<exists>mx \<le> length fs. moved fs w sz nPage mx K K' \<and> (\<forall>i \<in> {1..4}. e_lock E i = 5 \<longrightarrow> c_db K' \<noteq> c_db K \<longrightarrow> mx \<le> c_aReadMark K ! i)
    \<and> (e_lock E 0 = 5 \<longrightarrow> c_db K' = c_db K) \<and> (\<forall>i. e_lock E i = 5 \<longrightarrow> c_aReadMark K' ! i = c_aReadMark K ! i)
    \<and> (\<forall>q > nPage. c_db K' q \<noteq> c_db K q \<longrightarrow> mx = fst (w_live W))"
proof (cases "c_nBackfill K < w_mxFrame W")
  case False
  then show ?thesis using fs by (auto simp: ckpt_first_def moved_def)
next
  case True
  obtain o1 rc1 mx marks where m: "ckpt_marks (e_lock E) [1 ..< 5] 0 (w_mxFrame W) (c_aReadMark K) = (o1, rc1, mx, marks)" by (metis surj_pair)
  note M = ckpt_marks_safe [OF m]
  let ?K = "K\<lparr>c_aReadMark := marks\<rparr>"
  have same: "moved fs w sz nPage mx K ?K" by (simp add: moved_def)
  have set: "set [1 ..< 5 :: nat] = {1..4}" by auto
  show ?thesis
  proof (cases "o1 \<or> e_lock E 0 \<noteq> 0 \<or> \<not> c_nBackfill K < mx \<or> snd (walIteratorInit (e_map E) (e_mem E) W (c_nBackfill K)) = None")
    case stop: True
    then have "K' = ?K" using fs True m by (auto simp: ckpt_first_def Let_def split: if_splits prod.splits option.splits)
    then show ?thesis using M same ok(2) by (intro exI [of _ mx]) auto
  next
    case go: False
    then obtain r p where i: "walIteratorInit (e_map E) (e_mem E) W (c_nBackfill K) = (r, Some p)" by (metis not_None_eq prod.collapse)
    obtain rc2 K2 where b: "ckpt_backfill E w sz nPage W mx p ?K = (rc2, K2)" by fastforce
    have K': "K' = K2" using fs True m go i b by (simp add: ckpt_first_def Let_def)
    have b1: "c_nBackfill K < length fs" using True ok(2) by simp
    have "i_iPrior p = 0" "iter_ok fs (walFramePage (c_nBackfill K + 1)) p"
      using walIteratorInit_ok [OF ok b1, of "\<lambda>_. 0"] walIteratorInit_some [OF i] by auto
    moreover have "hash_iZero (walFramePage (c_nBackfill K + 1)) \<le> c_nBackfill ?K" using frame_page(1) [of "c_nBackfill K + 1"] by simp
    ultimately have "moved fs w sz nPage mx ?K K2 \<and> c_aReadMark K2 = marks \<and> (\<forall>q > nPage. c_db K2 q \<noteq> c_db K q \<longrightarrow> mx = fst (w_live W))" using backfill_moved [OF pg _ _ _ b] by auto
    then show ?thesis using M go ok(2) K' unfolding set by (intro exI [of _ mx]) (auto simp: moved_def)
  qed
qed

lemma walCheckpoint_first:
  assumes "ckpt_first E w sz nPage W K = (out, rc1, K1)" "walCheckpoint E eMode salt1 w sz nPage W L K = (rc, W', L', K')"
  shows "W' = W \<and> L' = L \<and> K' = K1
    \<or> e_lock_readers E = 0 \<and> w_mxFrame W \<le> c_nBackfill K1 \<and> c_db K' = c_db K1 \<and> c_nBackfill K' = 0 \<and> w_mxFrame W' = 0"
  using assms by (auto simp: walCheckpoint_def walRestartHdr_def Let_def split: if_splits)

text \<open>Every page whose newest frame is among the backfilled ones has its content in the database.\<close>

definition backfilled :: "nat list \<Rightarrow> byte list \<Rightarrow> nat \<Rightarrow> nat \<Rightarrow> ckpt \<Rightarrow> bool" where
  "backfilled fs w sz nPage K \<longleftrightarrow> c_nBackfill K \<le> length fs
     \<and> (\<forall>q \<le> nPage. 0 < newest_frame fs q \<longrightarrow> newest_frame fs q \<le> c_nBackfill K \<longrightarrow> c_db K q = frame_data w sz (newest_frame fs q))"

lemma moved_backfilled:
  assumes m: "moved fs w sz nPage mx K K'" and mx: "mx \<le> length fs" and b: "backfilled fs w sz nPage K"
  shows "backfilled fs w sz nPage K'" "q \<le> nPage \<Longrightarrow> newest_frame fs q = 0 \<Longrightarrow> c_db K' q = c_db K q"
proof -
  have keep: "c_db K' q = c_db K q" if "q \<le> nPage" "newest_frame fs q \<le> c_nBackfill K" for q
  proof -
    have "\<not> due fs (c_nBackfill K) mx nPage q" using that(2) by (simp add: due_def)
    then show ?thesis using m that(1) unfolding moved_def by blast
  qed
  show "q \<le> nPage \<Longrightarrow> newest_frame fs q = 0 \<Longrightarrow> c_db K' q = c_db K q" using keep by simp
  have "c_db K' q = frame_data w sz (newest_frame fs q)" if q: "q \<le> nPage" "0 < newest_frame fs q" "newest_frame fs q \<le> c_nBackfill K'" for q
  proof (cases "newest_frame fs q \<le> c_nBackfill K")
    case True
    then show ?thesis using keep b q by (simp add: backfilled_def)
  next
    case False
    then have "c_nBackfill K' \<noteq> c_nBackfill K" using q(3) by auto
    then have "c_nBackfill K' = mx" "\<And>q. due fs (c_nBackfill K) mx nPage q \<Longrightarrow> c_db K' q = frame_data w sz (newest_frame fs q)"
      using m unfolding moved_def by blast+
    then show ?thesis using q False by (simp add: due_def)
  qed
  moreover have "c_nBackfill K' \<le> length fs" using m mx b unfolding moved_def backfilled_def by auto
  ultimately show "backfilled fs w sz nPage K'" unfolding backfilled_def by blast
qed

text \<open>What a reader that starts now sees.\<close>

definition view :: "byte list \<Rightarrow> nat \<Rightarrow> wal \<Rightarrow> ckpt \<Rightarrow> nat \<Rightarrow> byte list" where
  "view w sz W K p = page_read w sz (c_db K) (W\<lparr>w_minFrame := c_nBackfill K + 1, w_readLock := 1\<rparr>) p"

lemma page_read_frame:
  assumes "index_ok W all" "y \<le> length all" "r \<noteq> 0"
  shows "page_read w sz db (W\<lparr>w_mxFrame := y, w_minFrame := lo, w_readLock := r\<rparr>) p =
    (let f = best (frames_of all p lo y) in if f = 0 then db p else frame_data w sz f)"
proof -
  have "index_ok (W\<lparr>w_mxFrame := y, w_minFrame := lo, w_readLock := r\<rparr>) all" using assms(1) by (simp add: index_ok_def)
  from walFindFrame_best [OF this, of "\<lambda>_. 0" p] show ?thesis using assms(2,3) by (simp add: page_read_def Let_def)
qed

lemma frames_of_append: "hi \<le> length fs \<Longrightarrow> frames_of (fs @ rest) p lo hi = frames_of fs p lo hi"
  by (auto simp: frames_of_def nth_append)

lemma view_content:
  assumes ok: "index_ok W (fs @ rest)" "w_mxFrame W = length fs" and b: "backfilled fs w sz nPage K" and p: "p \<le> nPage"
  shows "view w sz W K p = (if newest_frame fs p = 0 then c_db K p else frame_data w sz (newest_frame fs p))"
proof -
  let ?f = "best (frames_of fs p (Suc (c_nBackfill K)) (length fs))"
  have "W\<lparr>w_mxFrame := length fs\<rparr> = W" using ok(2) by simp
  then have v: "view w sz W K p = (if ?f = 0 then c_db K p else frame_data w sz ?f)"
    using page_read_frame [OF ok(1), of "length fs" 1 w sz "c_db K" "Suc (c_nBackfill K)" p] unfolding view_def
    by (simp add: frames_of_append Let_def)
  show ?thesis
  proof (cases "?f = 0")
    case True
    then have "newest_frame fs p \<le> c_nBackfill K" using newest_frame_in [of "c_nBackfill K" fs p] by fastforce
    then show ?thesis using v True b p by (simp add: backfilled_def)
  next
    case False
    then show ?thesis using v newest_frame_after [OF False] by simp
  qed
qed

lemma view_restarted: "w_mxFrame W = 0 \<Longrightarrow> view w sz W K p = c_db K p"
  by (simp add: view_def page_read_def walFindFrame_def)

lemma newest_frame_le: "newest_frame fs p \<le> length fs"
  using best_cases [of "frames_of fs p 1 (length fs)"] unfolding newest_frame_def by (cases "frames_of fs p 1 (length fs) = {}") (auto simp: frames_of_def)

subsection \<open>A checkpoint without errors\<close>

definition env_fine :: "ckpt_env \<Rightarrow> bool" where
  "env_fine E \<longleftrightarrow> (\<forall>i. e_lock E i = 0) \<and> (\<forall>h. e_map E h = 0) \<and> e_mem E \<and> e_sync_wal E = 0 \<and> fst (e_size E) = 0 \<and> (\<forall>q. \<not> e_interrupted E q)
     \<and> (\<forall>f. e_read E f = 0) \<and> (\<forall>q. e_write E q = 0) \<and> e_truncate_db E = 0 \<and> e_sync_db E = 0"

lemma ckpt_marks_free: "(\<And>i. lock i = 0) \<Longrightarrow> \<exists>marks'. ckpt_marks lock is 0 mx marks = (False, 0, mx, marks')"
  by (induction "is" arbitrary: marks) (simp_all add: Let_def)

lemma ckpt_copy_fine: "env_fine E \<Longrightarrow> fst (ckpt_copy E w sz b mx mxPage p f db) = 0"
proof (induction E w sz b mx mxPage p f db rule: ckpt_copy.induct)
  case (1 E w sz b mx mxPage p f db)
  obtain dn g h p' where nx: "walIteratorNext p f = (dn, g, h, p')" by (metis prod_cases4)
  show ?case
  proof (cases dn)
    case True
    then show ?thesis using nx by (simp add: ckpt_copy.simps [of E w sz b mx mxPage p])
  next
    case False
    then have nx': "(False, g, h, p') = walIteratorNext p f" using nx by simp
    note IH = "1.IH"(1) [OF nx' refl refl refl] "1.IH"(2) [OF nx' refl refl refl]
    then show ?thesis using nx False 1(3) by (subst ckpt_copy.simps) (simp add: env_fine_def fun_upd_def)
  qed
qed

lemma ckpt_first_fine:
  assumes pg: "\<forall>q \<in> set fs. q < 0xFFFFFFFF" "0 \<notin> set fs" and ok: "index_ok W (fs @ rest)" "w_mxFrame W = length fs" "c_nBackfill K \<le> length fs"
    and E: "env_fine E" "nPage * sz \<le> snd (e_size E) + 65536 + length fs * sz"
  shows "\<exists>K'. ckpt_first E w sz nPage W K = (False, 0, K') \<and> c_nBackfill K' = length fs"
proof (cases "c_nBackfill K < w_mxFrame W")
  case False
  then show ?thesis using ok(2,3) by (simp add: ckpt_first_def)
next
  case True
  obtain marks where m: "ckpt_marks (e_lock E) [1 ..< 5] 0 (w_mxFrame W) (c_aReadMark K) = (False, 0, w_mxFrame W, marks)"
    using ckpt_marks_free [of "e_lock E"] E(1) by (metis env_fine_def)
  let ?K = "K\<lparr>c_aReadMark := marks\<rparr>"
  have b1: "c_nBackfill K < length fs" using True ok(2) by simp
  have "\<And>h. e_map E h = 0" using E(1) by (simp add: env_fine_def)
  from walIteratorInit_ok [where map_rc = "e_map E", OF ok(1,2) b1 this] obtain p where p: "walIteratorInit (e_map E) True W (c_nBackfill K) = (0, Some p)" by blast
  obtain rc db where c: "ckpt_copy E w sz (c_nBackfill K) (w_mxFrame W) nPage p 0 (c_db K) = (rc, db)" by fastforce
  then have rc: "rc = 0" using ckpt_copy_fine [OF E(1), of w sz "c_nBackfill K" "w_mxFrame W" nPage p 0 "c_db K"] by simp
  obtain nSize where s: "e_size E = (0, nSize)" using E(1) by (cases "e_size E") (simp add: env_fine_def)
  have "\<exists>K2. ckpt_backfill E w sz nPage W (w_mxFrame W) p ?K = (0, K2) \<and> c_nBackfill K2 = w_mxFrame W"
    using E s c rc ok(2) by (auto simp: ckpt_backfill_def env_fine_def Let_def)
  then show ?thesis using True m p E(1) ok(2) by (auto simp: ckpt_first_def env_fine_def Let_def simp del: upt_Suc)
qed

section \<open>Properties\<close>

text \<open>C16. A checkpoint never disturbs a reader. While a connection holds the lock of a read mark (so that the lock is busy), whatever the checkpoint does
  in any mode and however it fails, even in the middle of writing a page, the reader finds for every page of its snapshot the content it found before; its mark
  stays as it is and the log is not restarted. The snapshot ends with any frame \<open>r\<close> from the mark on up to the newest committed one (\<open>w_live\<close>), which is not before the snapshot of the checkpoint. Of a snapshot that is older than that of the checkpoint
  these are all pages, also those behind the end of the database as the checkpoint leaves it; a reader of the same snapshot has its size.
  A reader of the database alone, which holds the lock of mark 0, sees the file unchanged.\<close>

theorem walCheckpoint_readers_undisturbed:
  assumes "\<forall>q \<in> set fs. q < 0xFFFFFFFF" "0 \<notin> set fs" "index_ok W (fs @ rest)" "w_mxFrame W = length fs"
    and "i \<in> {1..4}" "e_lock E i = SQLITE_BUSY" "e_lock_readers E = SQLITE_BUSY"
    and "w_mxFrame W \<le> fst (w_live W)" "c_aReadMark K ! i \<le> r" "r \<le> fst (w_live W)" "r \<le> length (fs @ rest)" "lo \<le> c_nBackfill K + 1"
    and "walCheckpoint E eMode salt1 wal_file szPage nPage W L K = (rc, W', L', K')" "r = w_mxFrame W \<longrightarrow> p \<le> nPage"
  shows "page_read wal_file szPage (c_db K') (W'\<lparr>w_mxFrame := r, w_minFrame := lo, w_readLock := int i\<rparr>) p
      = page_read wal_file szPage (c_db K) (W\<lparr>w_mxFrame := r, w_minFrame := lo, w_readLock := int i\<rparr>) p
    \<and> W' = W \<and> c_aReadMark K' ! i = c_aReadMark K ! i \<and> (e_lock E 0 = SQLITE_BUSY \<longrightarrow> c_db K' = c_db K)"
proof -
  let ?y = "c_aReadMark K ! i"
  obtain out rc1 K1 where f: "ckpt_first E wal_file szPage nPage W K = (out, rc1, K1)" by (metis surj_pair)
  have e: "W' = W" "K' = K1" using walCheckpoint_first [OF f assms(13)] assms(7) by auto
  obtain mx where M: "moved fs wal_file szPage nPage mx K K1" "c_db K1 \<noteq> c_db K \<longrightarrow> mx \<le> ?y" "e_lock E 0 = 5 \<longrightarrow> c_db K1 = c_db K"
      "c_aReadMark K1 ! i = ?y" "mx \<le> length fs" "\<forall>q > nPage. c_db K1 q \<noteq> c_db K q \<longrightarrow> mx = fst (w_live W)"
    using first_moved [OF assms(1-4) f] assms(5,6) by blast
  have "page_read wal_file szPage (c_db K1) (W\<lparr>w_mxFrame := r, w_minFrame := lo, w_readLock := int i\<rparr>) p
      = page_read wal_file szPage (c_db K) (W\<lparr>w_mxFrame := r, w_minFrame := lo, w_readLock := int i\<rparr>) p"
  proof (cases "c_db K1 p = c_db K p")
    case True
    then show ?thesis by (simp add: page_read_def split: prod.split)
  next
    case False
    then have y: "mx \<le> r" using M(2) assms(9) by fastforce
    have "p \<le> nPage"
    proof (rule ccontr)
      assume beyond: "\<not> p \<le> nPage"
      then have "mx = fst (w_live W)" using M(6) False by (meson not_le)
      then have "r = w_mxFrame W" using y assms(4,8,10) M(5) by linarith
      then show False using assms(14) beyond by blast
    qed
    then have d: "due fs (c_nBackfill K) mx nPage p" using M(1) False by (auto simp: moved_def)
    let ?S = "frames_of (fs @ rest) p lo r"
    have "newest_frame fs p \<in> frames_of fs p 1 (length fs)" using d best_cases [of "frames_of fs p 1 (length fs)"] by (auto simp: due_def newest_frame_def)
    then have "newest_frame fs p \<in> ?S" using d y assms(12) by (auto simp: frames_of_def due_def nth_append)
    then have "best ?S \<noteq> 0" using best_cases [of ?S] by auto
    then show ?thesis using page_read_frame [OF assms(3,11), of "int i"] assms(5) by simp
  qed
  then show ?thesis using e M(3,4) by simp
qed

text \<open>An environment in which a reader holds the lock of mark 1 and a write fails.\<close>

definition env_busy :: ckpt_env where
  "env_busy = \<lparr>e_lock = (\<lambda>i. if i = 1 then 5 else 0), e_lock_readers = 5, e_map = (\<lambda>_. 0), e_mem = True, e_sync_wal = 0, e_size = (0, 4608),
     e_interrupted = (\<lambda>_. False), e_mallocFailed = False, e_read = (\<lambda>_. 0), e_write = (\<lambda>_. 10), e_torn = (\<lambda>_. [1]), e_truncate_db = 0, e_sync_db = 0,
     e_truncate_wal = 0\<rparr>"

definition ckpt_at_1 :: ckpt where
  "ckpt_at_1 = \<lparr>c_nBackfill = 0, c_nBackfillAttempted = 0, c_aReadMark = [0, 1, 0xFFFFFFFF, 0xFFFFFFFF, 0xFFFFFFFF], c_db = (\<lambda>_. [])\<rparr>"

text \<open>The reader at mark 1 reads page 12 of a snapshot whose database is larger than the one of the checkpoint, which has 9 pages.\<close>

theorem walCheckpoint_readers_undisturbed_witness:
  "\<exists>W rc L' (K' :: ckpt). w_mxFrame W = 2
     \<and> walCheckpoint (env_busy\<lparr>e_write := (\<lambda>_. 0)\<rparr>) 3 [] [] 512 9 W \<lparr>l_szPage = 512, l_bigEnd = False, l_salt = [], l_cksum = (0, 0), l_reCksum = 0\<rparr>
         (ckpt_at_1\<lparr>c_db := (\<lambda>p. [of_nat p])\<rparr>) = (rc, W, L', K')
     \<and> page_read [] 512 (c_db K') (W\<lparr>w_mxFrame := 1, w_minFrame := 1, w_readLock := 1\<rparr>) 12 = [12] \<and> c_aReadMark K' ! 1 = 1"
proof -
  obtain W0 where W0: "holds W0 [7, 9]" "w_mxFrame W0 = 2" by (rule wal_new_written)
  then obtain rest where r0: "index_ok W0 ([7, 9] @ rest)" by (auto simp: holds_def)
  define W where "W = W0\<lparr>w_live := (2, (0, 0))\<rparr>"
  have W: "index_ok W ([7, 9] @ rest)" "w_mxFrame W = 2" "w_live W = (2, (0, 0))" using r0 W0(2) by (simp_all add: W_def index_ok_def)
  let ?L = "\<lparr>l_szPage = 512, l_bigEnd = False, l_salt = [], l_cksum = (0, 0), l_reCksum = 0\<rparr>"
  let ?E = "env_busy\<lparr>e_write := (\<lambda>_. 0)\<rparr>" and ?K = "ckpt_at_1\<lparr>c_db := (\<lambda>p. [of_nat p])\<rparr>"
  obtain rc W' L' K' where c: "walCheckpoint ?E 3 [] [] 512 9 W ?L ?K = (rc, W', L', K')" by (metis prod_cases4)
  have e: "e_lock ?E 1 = 5" "e_lock_readers ?E = 5" "c_aReadMark ?K ! 1 = 1" by (simp_all add: env_busy_def ckpt_at_1_def)
  have "page_read [] 512 (c_db K') (W'\<lparr>w_mxFrame := 1, w_minFrame := 1, w_readLock := int 1\<rparr>) 12
      = page_read [] 512 (c_db ?K) (W\<lparr>w_mxFrame := 1, w_minFrame := 1, w_readLock := int 1\<rparr>) 12
    \<and> W' = W \<and> c_aReadMark K' ! 1 = c_aReadMark ?K ! 1 \<and> (e_lock ?E 0 = 5 \<longrightarrow> c_db K' = c_db ?K)"
    by (rule walCheckpoint_readers_undisturbed [OF _ _ W(1) _ _ e(1,2) _ _ _ _ _ c]) (use W(2,3) e(3) in simp_all)
  then have res: "W' = W" "page_read [] 512 (c_db K') (W\<lparr>w_mxFrame := 1, w_minFrame := 1, w_readLock := 1\<rparr>) 12
      = page_read [] 512 (c_db ?K) (W\<lparr>w_mxFrame := 1, w_minFrame := 1, w_readLock := 1\<rparr>) 12" "c_aReadMark K' ! 1 = 1"
    unfolding e(3) of_nat_1 by blast+
  have "frames_of ([7, 9] @ rest) 12 1 1 = {}" by (auto simp: frames_of_def)
  then have "page_read [] 512 (c_db ?K) (W\<lparr>w_mxFrame := 1, w_minFrame := 1, w_readLock := 1\<rparr>) 12 = [12]"
    using page_read_frame [OF W(1), of 1 1 "[]" 512 "c_db ?K" 1 12] by (simp add: best_def)
  then have "page_read [] 512 (c_db K') (W\<lparr>w_mxFrame := 1, w_minFrame := 1, w_readLock := 1\<rparr>) 12 = [12]" using res(2) by simp
  then show ?thesis using c [unfolded res(1)] res(3) W(2) by (intro exI [of _ W] exI [of _ rc] exI [of _ L'] exI [of _ K']) blast
qed

text \<open>C17. A checkpoint in any mode, also one that fails at any point and leaves a page half written, leaves the content of the database, as a new
  reader sees it through the log, as it was: through the log where that still has frames to find, and from the file alone once the log was restarted.\<close>

theorem walCheckpoint_preserves_content:
  assumes "\<forall>q \<in> set fs. q < 0xFFFFFFFF" "0 \<notin> set fs" "index_ok W (fs @ rest)" "w_mxFrame W = length fs"
    and "backfilled fs wal_file szPage nPage K" "walCheckpoint E eMode salt1 wal_file szPage nPage W L K = (rc, W', L', K')" "p \<le> nPage"
  shows "view wal_file szPage W' K' p = view wal_file szPage W K p \<and> (w_mxFrame W' \<noteq> 0 \<longrightarrow> backfilled fs wal_file szPage nPage K')"
proof -
  obtain out rc1 K1 where f: "ckpt_first E wal_file szPage nPage W K = (out, rc1, K1)" by (metis surj_pair)
  obtain mx where M: "mx \<le> length fs" "moved fs wal_file szPage nPage mx K K1" using first_moved [OF assms(1-4) f] by blast
  note B = moved_backfilled [OF M(2,1) assms(5)]
  note v = view_content [OF assms(3,4)]
  from walCheckpoint_first [OF f assms(6)] show ?thesis
  proof (elim disjE conjE)
    assume "W' = W" "K' = K1"
    then show ?thesis using v [OF assms(5,7)] v [OF B(1) assms(7)] B assms(7) by auto
  next
    assume r: "w_mxFrame W \<le> c_nBackfill K1" "c_db K' = c_db K1" "w_mxFrame W' = 0"
    have "newest_frame fs p \<le> c_nBackfill K1" using newest_frame_le [of fs p] r(1) assms(4) by simp
    then have "c_db K1 p = view wal_file szPage W K p" using v [OF assms(5,7)] B assms(7) by (auto simp: backfilled_def)
    then show ?thesis using r view_restarted [OF r(3)] by simp
  qed
qed

theorem walCheckpoint_preserves_content_witness:
  "\<exists>(W :: wal) rc (W' :: wal) L' (K' :: ckpt). walCheckpoint env_busy 3 [] [] 512 9 W \<lparr>l_szPage = 512, l_bigEnd = False, l_salt = [], l_cksum = (0, 0), l_reCksum = 0\<rparr> ckpt_at_1
       = (rc, W', L', K') \<and> view [] 512 W' K' 7 = view [] 512 W ckpt_at_1 7"
proof -
  obtain W where W: "holds W [7, 9]" "w_mxFrame W = 2" by (rule wal_new_written)
  then obtain rest where r: "index_ok W ([7, 9] @ rest)" by (auto simp: holds_def)
  let ?L = "\<lparr>l_szPage = 512, l_bigEnd = False, l_salt = [], l_cksum = (0, 0), l_reCksum = 0\<rparr>"
  obtain rc W' L' K' where c: "walCheckpoint env_busy 3 [] [] 512 9 W ?L ckpt_at_1 = (rc, W', L', K')" by (metis prod_cases4)
  have "backfilled [7, 9] [] 512 9 ckpt_at_1" by (simp add: backfilled_def ckpt_at_1_def)
  then have "view [] 512 W' K' 7 = view [] 512 W ckpt_at_1 7 \<and> (w_mxFrame W' \<noteq> 0 \<longrightarrow> backfilled [7, 9] [] 512 9 K')"
    by (intro walCheckpoint_preserves_content [OF _ _ r _ _ c]) (use W(2) in simp_all)
  then show ?thesis using c by blast
qed

text \<open>C15. From the file of the log back to the database. Let a crash have left the log as for the recovery: header, frames, and a remainder that
  does not decode. After \<open>walIndexRecover\<close>, a checkpoint in which no call fails and no lock is held succeeds, and then every page of the database, up to
  the size the last commit gave it, has the content of its last committed frame, or its old content if no committed frame has the page.\<close>

theorem recovered_log_reaches_database:
  assumes "9 \<le> k" "k \<le> 16" "szPage = 2 ^ k" "length salt = 8" "wal_header szPage nCkpt salt = (hdr, L0)"
    and "frames_ok szPage fs" "write_frames L0 fs = (bs, L1)" "\<forall>(pgno, nTruncate, aData) \<in> set fs. pgno < 0xFFFFFFFF"
    and "length tail < szPage + 24 \<or> fst (walDecodeFrame L1 (drop 24 (take (szPage + 24) tail)) (take 24 tail)) = None"
    and "index_ok W []" "priv_ok priv" "l_reCksum L = 0" "file = hdr @ bs @ tail" "c = commit_len fs (length fs)"
    and "walIndexRecover 0 0 True (\<lambda>_. 0) (\<lambda>_. 0) priv file W L = (rc0, R)" "nPage = unat (r_nPage R)" "c_nBackfill K = 0"
    and "env_fine E" "nPage * szPage \<le> snd (e_size E) + 65536 + c * szPage"
    and "walCheckpoint E SQLITE_CHECKPOINT_PASSIVE salt1 file szPage nPage (r_wal R) (r_log R) K = (rc, W', L', K')" "p \<le> nPage"
  shows "rc0 = SQLITE_OK \<and> rc = SQLITE_OK \<and> c_nBackfill K' = c
    \<and> c_db K' p = (case newest_frame (page_nos (take c fs)) p of 0 \<Rightarrow> c_db K p | Suc f \<Rightarrow> snd (snd (fs ! f)))"
proof -
  note F = wal_header_fields [OF assms(4,5)]
  let ?ps = "page_nos (take c fs)"
  have rec: "rc0 = 0" "holds (r_wal R) ?ps" using recover_committed [OF assms(1-7,9-12,14) assms(15) [unfolded assms(13)]] by blast+
  obtain rest where ix: "w_mxFrame (r_wal R) = length ?ps" "0 \<notin> set ?ps" "index_ok (r_wal R) (?ps @ rest)" using rec(2) by (auto simp: holds_def)
  have c: "c \<le> length fs" using commit_len_le assms(14) by simp
  have pg: "\<forall>q \<in> set ?ps. q < 0xFFFFFFFF"
  proof
    fix q assume "q \<in> set ?ps"
    then obtain x t d where x: "(x, t, d) \<in> set fs" "q = unat x" by (auto simp: page_nos_def dest!: in_set_takeD)
    then have "x < 0xFFFFFFFF" using assms(8) by auto
    then show "q < 0xFFFFFFFF" using x(2) by (simp add: word_less_nat_alt)
  qed
  have sz: "nPage * szPage \<le> snd (e_size E) + 65536 + length ?ps * szPage" using assms(19) c by simp
  obtain K1 where f: "ckpt_first E file szPage nPage (r_wal R) K = (False, 0, K1)" "c_nBackfill K1 = length ?ps"
    using ckpt_first_fine [where K = K and w = "file", OF pg ix(2,3,1) _ assms(18) sz] assms(17) by auto
  have e: "rc = 0" "K' = K1" using assms(20) f(1) by (auto simp: walCheckpoint_def)
  obtain mx where M: "mx \<le> length ?ps" "moved ?ps file szPage nPage mx K K1" using first_moved [OF pg ix(2,3,1) f(1)] by blast
  have "backfilled ?ps file szPage nPage K" using assms(17) by (simp add: backfilled_def)
  note B = moved_backfilled [OF M(2,1) this]
  have "c_db K1 p = frame_data file szPage (newest_frame ?ps p)" if "0 < newest_frame ?ps p"
    using B(1) that newest_frame_le [of ?ps p] f(2) assms(21) by (simp add: backfilled_def)
  moreover have "frame_data file szPage (Suc g) = snd (snd (fs ! g))" if "g < length fs" for g
  proof -
    have L0: "log_ok L0" using F(8) assms(4) by (simp add: log_ok_def)
    obtain x t d where g: "fs ! g = (x, t, d)" by (cases "fs ! g")
    have "frame_data file szPage (Suc g) = drop 24 (buf_read (walFrameOffset (Suc g) szPage) (szPage + 24) file)"
      by (simp add: frame_data_def buf_read_def drop_take add.commute)
    also have "\<dots> = drop 24 (buf_read (g * (szPage + 24)) (szPage + 24) bs)"
      unfolding assms(13) by (simp only: log_file_frame [OF L0 assms(6,7) F(1) that])
    also have "\<dots> = d" using write_frames_nth [OF L0 assms(6) that g assms(7)] by blast
    finally show ?thesis using g by simp
  qed
  moreover have "newest_frame ?ps p \<le> c" using newest_frame_le [of ?ps p] by simp
  ultimately show ?thesis using rec(1) e f(2) c B(2) [OF assms(21)] by (auto split: nat.split)
qed

text \<open>The log of page size 512 of the recovery: two committed pages, an uncommitted frame of the first of them, and a torn frame.\<close>

theorem recovered_log_reaches_database_witness:
  "\<exists>wal_file R rc W' L' (K' :: ckpt).
     walIndexRecover 0 0 True (\<lambda>_. 0) (\<lambda>_. 0) (w_index wal_new) wal_file wal_new
       \<lparr>l_szPage = 0, l_bigEnd = False, l_salt = [], l_cksum = (0, 0), l_reCksum = 0\<rparr> = (0, R)
     \<and> walCheckpoint (env_busy\<lparr>e_lock := (\<lambda>_. 0), e_write := (\<lambda>_. 0)\<rparr>) 0 [] wal_file 512 (unat (r_nPage R)) (r_wal R) (r_log R) ckpt_at_1 = (0, W', L', K')
     \<and> c_nBackfill K' = 2 \<and> c_db K' 7 = replicate 512 1"
proof -
  define fs :: "wal_frame list" where "fs = [(7, 0, replicate 512 1), (9, 9, replicate 512 2), (7, 0, replicate 512 3)]"
  let ?L = "\<lparr>l_szPage = 0, l_bigEnd = False, l_salt = [], l_cksum = (0, 0), l_reCksum = 0\<rparr>"
  let ?E = "env_busy\<lparr>e_lock := (\<lambda>_. 0), e_write := (\<lambda>_. 0)\<rparr>"
  obtain hdr L0 where h: "wal_header 512 0 (replicate 8 5) = (hdr, L0)" by fastforce
  obtain bs L1 where b: "write_frames L0 fs = (bs, L1)" by fastforce
  obtain rc0 R where r: "walIndexRecover 0 0 True (\<lambda>_. 0) (\<lambda>_. 0) (w_index wal_new) (hdr @ bs @ [1, 2, 3]) wal_new ?L = (rc0, R)" by fastforce
  have ok: "frames_ok 512 fs" "\<forall>(pgno, nTruncate, aData) \<in> set fs. pgno < 0xFFFFFFFF" by (simp_all add: frames_ok_def fs_def)
  have ix: "index_ok wal_new []" "priv_ok (w_index wal_new)" by (simp_all add: index_ok_def priv_ok_def wal_new_def seg_def)
  have c: "2 = commit_len fs (length fs)" by (simp add: fs_def)
  have "r_nPage R = fst (snd (fs ! 1))" using recover_committed [OF _ _ _ _ h ok(1) b _ ix _ c r, of 9] by simp
  then have n: "unat (r_nPage R) = 9" by (simp add: fs_def)
  obtain rc W' L' K' where k: "walCheckpoint ?E 0 [] (hdr @ bs @ [1, 2, 3]) 512 (unat (r_nPage R)) (r_wal R) (r_log R) ckpt_at_1 = (rc, W', L', K')" by (metis prod_cases4)
  have E: "env_fine ?E" "unat (r_nPage R) * 512 \<le> snd (e_size ?E) + 65536 + 2 * 512" using n by (simp_all add: env_fine_def env_busy_def)
  have "page_nos (take 2 fs) = [7, 9]" by (simp add: fs_def page_nos_def)
  moreover have "frames_of [7, 9] 7 (Suc 0) (Suc (Suc 0)) = {1}" unfolding frames_of_filter by (simp add: upt_rec)
  ultimately have nf: "newest_frame (page_nos (take 2 fs)) 7 = Suc 0" by (simp add: newest_frame_def best_def)
  have "rc0 = 0 \<and> rc = 0 \<and> c_nBackfill K' = 2
    \<and> c_db K' 7 = (case newest_frame (page_nos (take 2 fs)) 7 of 0 \<Rightarrow> c_db ckpt_at_1 7 | Suc f \<Rightarrow> snd (snd (fs ! f)))"
    by (rule recovered_log_reaches_database [where k = 9, OF _ _ _ _ h ok(1) b ok(2) _ ix _ refl c r refl _ E k]) (use n in \<open>simp_all add: ckpt_at_1_def\<close>)
  then have res: "rc0 = 0" "rc = 0" "c_nBackfill K' = 2" "c_db K' 7 = snd (snd (fs ! 0))" unfolding nf by simp_all
  then have "c_db K' 7 = replicate 512 1" by (simp add: fs_def)
  then show ?thesis using r k res(1-3) by blast
qed

end
