(* ===== verification/Pager_Journal.thy ===== *)
theory Pager_Journal
  imports Wal_Frame "HOL-Library.Monad_Syntax"
begin

text \<open>
  The rollback journal of the pager (\<open>src/pager.c\<close>): writing it, and rolling a hot journal back into the database.

  Both files are byte lists. \<open>jpager\<close> has the fields of \<open>Pager\<close> that this code uses. The results of the operating system are arguments: for the writer
  a result for every write by its offset, for the rollback the record \<open>pb_env\<close>, which has an error code for every read of the journal by its offset, for
  every write of a page, and for the other calls; a read beyond the end of the file is a short read. A page write that fails leaves any bytes in that page.

  The rollback is that of a hot journal: the pager is in state OPEN with the exclusive lock, the database file is open, the page cache is empty and no
  backup runs, so that pages are written to the file and nowhere else. What \<open>pager_end_transaction\<close> does to the journal in the different journal modes is
  the end of its content. The codec encrypts a page before it is written to the journal; the rollback copies the encrypted bytes.

  After the definitions come the format of a journal (\<open>jrecs\<close>, \<open>jshape\<close>), what it is for a database to be restorable, and the rollback: one record, a
  segment, the loop over the headers, and \<open>pager_playback\<close> as a whole under any faults (\<open>playback_restores\<close>).
\<close>

section \<open>Definitions\<close>

abbreviation (input) SQLITE_DONE :: int where "SQLITE_DONE \<equiv> 101"
abbreviation (input) SQLITE_IOERR_SHORT_READ :: int where "SQLITE_IOERR_SHORT_READ \<equiv> 522"

record jpager =
  j_pageSize :: nat
  j_sectorSize :: nat
  j_lckPgno :: nat
  j_journalOff :: nat
  j_journalHdr :: nat
  j_nRec :: u32
  j_cksumInit :: u32
  j_dbSize :: nat
  j_dbOrigSize :: nat
  j_dbFileSize :: nat
  j_mxPgno :: nat
  j_nReserve :: byte
  j_noSync :: bool
  j_fullSync :: bool

definition aJournalMagic :: "byte list" where
  "aJournalMagic = [0xd9, 0xd5, 0x05, 0xf9, 0x20, 0xa1, 0x63, 0xd7]"

text \<open>Files: a write beyond the end fills the gap with zeros, and a write of no bytes does nothing.\<close>

definition file_write :: "nat \<Rightarrow> byte list \<Rightarrow> byte list \<Rightarrow> byte list" where
  "file_write off s f = (if s = [] then f else take off f @ replicate (off - length f) 0 @ s @ drop (off + length s) f)"

definition os_read :: "(nat \<Rightarrow> int) \<Rightarrow> byte list \<Rightarrow> nat \<Rightarrow> nat \<Rightarrow> int \<times> byte list" where
  "os_read fault f n off =
     (if fault off \<noteq> SQLITE_OK then (fault off, [])
      else if off + n \<le> length f then (SQLITE_OK, buf_read off n f) else (SQLITE_IOERR_SHORT_READ, []))"

definition read32bits :: "(nat \<Rightarrow> int) \<Rightarrow> byte list \<Rightarrow> nat \<Rightarrow> int \<times> u32" where
  "read32bits fault f off = (let (rc, ac) = os_read fault f 4 off in (rc, if rc = SQLITE_OK then get4 ac 0 else 0))"

definition journalHdrOffset :: "jpager \<Rightarrow> nat" where
  "journalHdrOffset P = (if j_journalOff P = 0 then 0 else ((j_journalOff P - 1) div j_sectorSize P + 1) * j_sectorSize P)"

text \<open>The checksum of a page: the initial value and every 200th byte.\<close>

function cksum_bytes :: "byte list \<Rightarrow> nat \<Rightarrow> u32 \<Rightarrow> u32" where
  "cksum_bytes aData i cksum = (if i > 0 then cksum_bytes aData (i - 200) (cksum + ucast (aData ! i)) else cksum)"
  by pat_completeness auto
termination by (relation "measure (\<lambda>(d, i, c). i)") auto

declare cksum_bytes.simps [simp del]

definition pager_cksum :: "jpager \<Rightarrow> byte list \<Rightarrow> u32" where
  "pager_cksum P aData = cksum_bytes aData (j_pageSize P - 200) (j_cksumInit P)"

subsection \<open>Writing the journal\<close>

text \<open>\<open>devSafe\<close> says that the device has the property \<open>SQLITE_IOCAP_SAFE_APPEND\<close>, \<open>devSeq\<close> that it has \<open>SQLITE_IOCAP_SEQUENTIAL\<close>. The journal is a file
  (not \<open>PAGER_JOURNALMODE_MEMORY\<close>); \<open>rnd\<close> is the random number for the checksums. The header buffer is written once or more
  until the sector is full. Savepoints are not modelled.\<close>

definition journal_header :: "bool \<Rightarrow> u32 \<Rightarrow> jpager \<Rightarrow> byte list" where
  "journal_header devSafe rnd P =
     (if j_noSync P \<or> devSafe then aJournalMagic @ sqlite3Put4byte 0xffffffff else replicate 12 0)
     @ sqlite3Put4byte rnd @ sqlite3Put4byte (word_of_nat (j_dbOrigSize P)) @ sqlite3Put4byte (word_of_nat (j_sectorSize P))
     @ sqlite3Put4byte (word_of_nat (j_pageSize P))"

fun write_sector :: "(nat \<Rightarrow> int) \<Rightarrow> byte list \<Rightarrow> nat \<Rightarrow> nat \<Rightarrow> byte list \<Rightarrow> int \<times> nat \<times> byte list" where
  "write_sector wr zHeader 0 off jfd = (SQLITE_OK, off, jfd)"
| "write_sector wr zHeader (Suc n) off jfd =
     (if wr off \<noteq> SQLITE_OK then (wr off, off + length zHeader, jfd)
      else write_sector wr zHeader n (off + length zHeader) (file_write off zHeader jfd))"

definition writeJournalHdr :: "(nat \<Rightarrow> int) \<Rightarrow> bool \<Rightarrow> u32 \<Rightarrow> jpager \<Rightarrow> byte list \<Rightarrow> int \<times> jpager \<times> byte list" where
  "writeJournalHdr wr devSafe rnd P jfd =
     (let nHeader = min (j_pageSize P) (j_sectorSize P);
          off = journalHdrOffset P;
          P = P\<lparr>j_journalHdr := off, j_journalOff := off, j_cksumInit := rnd\<rparr>;
          h = journal_header devSafe rnd P;
          zHeader = h @ replicate (nHeader - length h) 0;
          nWrite = (j_sectorSize P + nHeader - 1) div nHeader;
          (rc, off, jfd) = write_sector wr zHeader nWrite off jfd
      in (rc, P\<lparr>j_journalOff := off\<rparr>, jfd))"

text \<open>\<open>enc\<close> is what the codec makes of the page for the journal (\<open>CODEC2\<close> with mode 7, None if it fails) and \<open>bv\<close> the result of noting the page in the
  bit vectors \<open>pInJournal\<close> and of the savepoints.\<close>

definition pagerAddPageToRollbackJournal ::
    "(nat \<Rightarrow> int) \<Rightarrow> int \<Rightarrow> jpager \<Rightarrow> byte list \<Rightarrow> nat \<Rightarrow> byte list option \<Rightarrow> int \<times> jpager \<times> byte list" where
  "pagerAddPageToRollbackJournal wr bv P jfd pgno enc =
     (case enc of None \<Rightarrow> (SQLITE_NOMEM, P, jfd)
      | Some pData2 \<Rightarrow>
        let iOff = j_journalOff P;
            cksum = pager_cksum P pData2;
            o2 = iOff + 4;
            o3 = iOff + j_pageSize P + 4
        in if wr iOff \<noteq> SQLITE_OK then (wr iOff, P, jfd)
           else let jfd = file_write iOff (sqlite3Put4byte (word_of_nat pgno)) jfd
                in if wr o2 \<noteq> SQLITE_OK then (wr o2, P, jfd)
                   else let jfd = file_write o2 pData2 jfd
                        in if wr o3 \<noteq> SQLITE_OK then (wr o3, P, jfd)
                           else (bv, P\<lparr>j_journalOff := iOff + 8 + j_pageSize P, j_nRec := j_nRec P + 1\<rparr>,
                                 file_write o3 (sqlite3Put4byte cksum) jfd))"

text \<open>\<open>syncJournal\<close> on a pager that syncs. The last component is the content of the journal at the sync that makes it durable, if that was
  reached.\<close>

definition syncJournal ::
    "(nat \<Rightarrow> int) \<Rightarrow> (nat \<Rightarrow> int) \<Rightarrow> int \<Rightarrow> int \<Rightarrow> bool \<Rightarrow> bool \<Rightarrow> u32 \<Rightarrow> bool \<Rightarrow> jpager \<Rightarrow> byte list
      \<Rightarrow> int \<times> jpager \<times> byte list \<times> byte list option" where
  "syncJournal rd wr sync1 sync2 devSafe devSeq rnd newHdr P jfd =
     (let (rc, jfd) =
        (if devSafe then (SQLITE_OK, jfd)
         else let zHeader = aJournalMagic @ sqlite3Put4byte (j_nRec P);
                  iNextHdrOffset = journalHdrOffset P;
                  (rc, aMagic) = os_read rd jfd 8 iNextHdrOffset;
                  (rc, jfd) = (if rc = SQLITE_OK \<and> aMagic = aJournalMagic
                               then (if wr iNextHdrOffset \<noteq> SQLITE_OK then (wr iNextHdrOffset, jfd)
                                     else (SQLITE_OK, file_write iNextHdrOffset [0] jfd))
                               else (rc, jfd))
              in if rc \<noteq> SQLITE_OK \<and> rc \<noteq> SQLITE_IOERR_SHORT_READ then (rc, jfd)
                 else if j_fullSync P \<and> \<not> devSeq \<and> sync1 \<noteq> SQLITE_OK then (sync1, jfd)
                 else if wr (j_journalHdr P) \<noteq> SQLITE_OK then (wr (j_journalHdr P), jfd)
                 else (SQLITE_OK, file_write (j_journalHdr P) zHeader jfd))
      in if rc \<noteq> SQLITE_OK then (rc, P, jfd, None)
         else if \<not> devSeq \<and> sync2 \<noteq> SQLITE_OK then (sync2, P, jfd, None)
         else let durable = jfd; P = P\<lparr>j_journalHdr := j_journalOff P\<rparr>
              in if newHdr \<and> \<not> devSafe
                 then let (rc, P, jfd) = writeJournalHdr wr devSafe rnd (P\<lparr>j_nRec := 0\<rparr>) jfd in (rc, P, jfd, Some durable)
                 else (SQLITE_OK, P, jfd, Some durable))"

text \<open>The name of the super-journal, without its final 0; None is the null pointer. \<open>size_rc\<close> and \<open>trunc_rc\<close> are the results of asking for the size of
  the journal and of truncating it.\<close>

fun os_writes :: "(nat \<Rightarrow> int) \<Rightarrow> (nat \<times> byte list) list \<Rightarrow> byte list \<Rightarrow> int \<times> byte list" where
  "os_writes wr [] jfd = (SQLITE_OK, jfd)"
| "os_writes wr ((off, s) # ws) jfd = (if wr off \<noteq> SQLITE_OK then (wr off, jfd) else os_writes wr ws (file_write off s jfd))"

definition writeSuperJournal :: "(nat \<Rightarrow> int) \<Rightarrow> int \<Rightarrow> int \<Rightarrow> jpager \<Rightarrow> byte list \<Rightarrow> byte list option \<Rightarrow> int \<times> jpager \<times> byte list" where
  "writeSuperJournal wr size_rc trunc_rc P jfd zSuper =
     (case zSuper of None \<Rightarrow> (SQLITE_OK, P, jfd)
      | Some z \<Rightarrow>
        let nSuper = length z;
            cksum = sum_list (map (\<lambda>c. scast c) z);
            P = (if j_fullSync P then P\<lparr>j_journalOff := journalHdrOffset P\<rparr> else P);
            iHdrOff = j_journalOff P;
            (rc, jfd) = os_writes wr [(iHdrOff, sqlite3Put4byte (word_of_nat (j_lckPgno P))), (iHdrOff + 4, z),
                                      (iHdrOff + 4 + nSuper, sqlite3Put4byte (word_of_nat nSuper)),
                                      (iHdrOff + 4 + nSuper + 4, sqlite3Put4byte cksum), (iHdrOff + 4 + nSuper + 8, aJournalMagic)] jfd
        in if rc \<noteq> SQLITE_OK then (rc, P, jfd)
           else let P = P\<lparr>j_journalOff := iHdrOff + (nSuper + 20)\<rparr>
                in if size_rc \<noteq> SQLITE_OK then (size_rc, P, jfd)
                   else if length jfd > j_journalOff P
                   then (trunc_rc, P, if trunc_rc = SQLITE_OK then take (j_journalOff P) jfd else jfd)
                   else (SQLITE_OK, P, jfd))"

subsection \<open>Rolling a hot journal back\<close>

record pb_env =
  pe_jsize :: int
  pe_jread :: "nat \<Rightarrow> int"
  pe_access :: "byte list \<Rightarrow> int \<times> bool"
  pe_setsize :: int
  pe_dbsize :: int
  pe_dbtrunc :: int
  pe_dbgrow :: int
  pe_dbwrite :: "nat \<Rightarrow> int"
  pe_torn :: "nat \<Rightarrow> byte list"
  pe_sync :: int
  pe_jsize2 :: int
  pe_jread2 :: "nat \<Rightarrow> int"
  pe_end :: int
  pe_delsuper :: "byte list \<Rightarrow> int"

definition readSuperJournal :: "pb_env \<Rightarrow> byte list \<Rightarrow> nat \<Rightarrow> int \<times> byte list" where
  "readSuperJournal E jfd nSuper =
     (let szJ = length jfd
      in if pe_jsize E \<noteq> SQLITE_OK then (pe_jsize E, [])
         else if szJ < 16 then (SQLITE_OK, [])
         else let (rc, len) = read32bits (pe_jread E) jfd (szJ - 16); len = unat len
              in if rc \<noteq> SQLITE_OK \<or> len \<ge> nSuper \<or> len > szJ - 16 \<or> len = 0 then (rc, [])
                 else let (rc, cksum) = read32bits (pe_jread E) jfd (szJ - 12)
                      in if rc \<noteq> SQLITE_OK then (rc, [])
                         else let (rc, aMagic) = os_read (pe_jread E) jfd 8 (szJ - 8)
                              in if rc \<noteq> SQLITE_OK \<or> aMagic \<noteq> aJournalMagic then (rc, [])
                                 else let (rc, zSuper) = os_read (pe_jread E) jfd len (szJ - 16 - len)
                                      in if rc \<noteq> SQLITE_OK then (rc, [])
                                         else if cksum = sum_list (map (\<lambda>c. scast c) zSuper) then (SQLITE_OK, takeWhile (\<lambda>c. c \<noteq> 0) zSuper)
                                         else (SQLITE_OK, []))"

definition pagerSyncHotJournal :: "int \<Rightarrow> int \<Rightarrow> jpager \<Rightarrow> byte list \<Rightarrow> int \<times> jpager" where
  "pagerSyncHotJournal sync_rc size_rc P jfd =
     (if \<not> j_noSync P \<and> sync_rc \<noteq> SQLITE_OK then (sync_rc, P)
      else if size_rc \<noteq> SQLITE_OK then (size_rc, P)
      else (SQLITE_OK, P\<lparr>j_journalHdr := length jfd\<rparr>))"

text \<open>The page cache has no referenced pages and the pager is in state OPEN, so that the size of the database file is not asked for.\<close>

definition PagerSetPagesize_open :: "pb_env \<Rightarrow> jpager \<Rightarrow> nat \<Rightarrow> int \<times> jpager" where
  "PagerSetPagesize_open E P pageSize =
     (if pageSize \<noteq> 0 \<and> pageSize \<noteq> j_pageSize P
      then if pe_setsize E \<noteq> SQLITE_OK then (pe_setsize E, P)
           else (SQLITE_OK, P\<lparr>j_dbSize := 0, j_pageSize := pageSize, j_lckPgno := 0x40000000 div pageSize + 1\<rparr>)
      else (SQLITE_OK, P))"

text \<open>The size fields of the first header. None is a value out of range.\<close>

definition header_sizes :: "jpager \<Rightarrow> u32 \<Rightarrow> u32 \<Rightarrow> (nat \<times> nat) option" where
  "header_sizes P iSectorSize iPageSize =
     (let iPageSize = (if iPageSize = 0 then word_of_nat (j_pageSize P) else iPageSize)
      in if iPageSize < 512 \<or> iSectorSize < 32 \<or> iPageSize > 65536 \<or> iSectorSize > 0x10000
            \<or> (iPageSize - 1) AND iPageSize \<noteq> 0 \<or> (iSectorSize - 1) AND iSectorSize \<noteq> 0
         then None else Some (unat iPageSize, unat iSectorSize))"

definition readJournalHdr :: "pb_env \<Rightarrow> bool \<Rightarrow> jpager \<Rightarrow> byte list \<Rightarrow> int \<times> jpager \<times> u32 \<times> nat" where
  "readJournalHdr E isHot P jfd =
     (let iHdrOff = journalHdrOffset P;
          P = P\<lparr>j_journalOff := iHdrOff\<rparr>
      in if iHdrOff + j_sectorSize P > length jfd then (SQLITE_DONE, P, 0, 0)
         else let (rc, aMagic) = (if isHot \<or> iHdrOff \<noteq> j_journalHdr P then os_read (pe_jread E) jfd 8 iHdrOff else (SQLITE_OK, aJournalMagic))
              in if rc \<noteq> SQLITE_OK then (rc, P, 0, 0)
                 else if aMagic \<noteq> aJournalMagic then (SQLITE_DONE, P, 0, 0)
                 else let (rc, nRec) = read32bits (pe_jread E) jfd (iHdrOff + 8)
                      in if rc \<noteq> SQLITE_OK then (rc, P, 0, 0)
                 else let (rc, ck) = read32bits (pe_jread E) jfd (iHdrOff + 12)
                      in if rc \<noteq> SQLITE_OK then (rc, P, nRec, 0)
                 else let P = P\<lparr>j_cksumInit := ck\<rparr>; (rc, dbSize) = read32bits (pe_jread E) jfd (iHdrOff + 16)
                      in if rc \<noteq> SQLITE_OK then (rc, P, nRec, 0)
                 else if iHdrOff \<noteq> 0 then (SQLITE_OK, P\<lparr>j_journalOff := iHdrOff + j_sectorSize P\<rparr>, nRec, unat dbSize)
                 else let (rc, iSectorSize) = read32bits (pe_jread E) jfd (iHdrOff + 20)
                      in if rc \<noteq> SQLITE_OK then (rc, P, nRec, unat dbSize)
                 else let (rc, iPageSize) = read32bits (pe_jread E) jfd (iHdrOff + 24)
                      in if rc \<noteq> SQLITE_OK then (rc, P, nRec, unat dbSize)
                 else case header_sizes P iSectorSize iPageSize of
                        None \<Rightarrow> (SQLITE_DONE, P, nRec, unat dbSize)
                      | Some (pgsz, sect) \<Rightarrow>
                          let (rc, P) = PagerSetPagesize_open E P pgsz;
                              P = P\<lparr>j_sectorSize := sect\<rparr>
                          in (rc, P\<lparr>j_journalOff := iHdrOff + sect\<rparr>, nRec, unat dbSize))"

definition pager_playback_one_page :: "pb_env \<Rightarrow> jpager \<Rightarrow> byte list \<Rightarrow> byte list \<Rightarrow> int \<times> jpager \<times> byte list" where
  "pager_playback_one_page E P jfd db =
     (let off = j_journalOff P;
          (rc, pgno) = read32bits (pe_jread E) jfd off; pgno = unat pgno
      in if rc \<noteq> SQLITE_OK then (rc, P, db)
         else let (rc, aData) = os_read (pe_jread E) jfd (j_pageSize P) (off + 4)
              in if rc \<noteq> SQLITE_OK then (rc, P, db)
         else let off = off + j_pageSize P + 8;
                  P = P\<lparr>j_journalOff := off\<rparr>
              in if pgno = 0 \<or> pgno = j_lckPgno P then (SQLITE_DONE, P, db)
         else if pgno > j_dbSize P then (SQLITE_OK, P, db)
         else let (rc, cksum) = read32bits (pe_jread E) jfd (off - 4)
              in if rc \<noteq> SQLITE_OK then (rc, P, db)
         else if pager_cksum P aData \<noteq> cksum then (SQLITE_DONE, P, db)
         else let P = (if pgno = 1 \<and> j_nReserve P \<noteq> aData ! 20 then P\<lparr>j_nReserve := aData ! 20\<rparr> else P);
                  isSynced = (j_noSync P \<or> off \<le> j_journalHdr P)
              in if isSynced
                 then (pe_dbwrite E pgno, P\<lparr>j_dbFileSize := max pgno (j_dbFileSize P)\<rparr>,
                       file_write ((pgno - 1) * j_pageSize P) (if pe_dbwrite E pgno = SQLITE_OK then aData else take (j_pageSize P) (pe_torn E pgno)) db)
                 else (SQLITE_OK, P, db))"

definition pager_truncate :: "pb_env \<Rightarrow> jpager \<Rightarrow> byte list \<Rightarrow> nat \<Rightarrow> int \<times> jpager \<times> byte list" where
  "pager_truncate E P db nPage =
     (let currentSize = length db; szPage = j_pageSize P; newSize = szPage * nPage
      in if pe_dbsize E \<noteq> SQLITE_OK then (pe_dbsize E, P, db)
         else if currentSize = newSize then (SQLITE_OK, P, db)
         else let (rc, db) = (if currentSize > newSize
                              then (pe_dbtrunc E, if pe_dbtrunc E = SQLITE_OK then take newSize db else db)
                              else if currentSize + szPage \<le> newSize
                              then (pe_dbgrow E, file_write (newSize - szPage) (if pe_dbgrow E = SQLITE_OK then replicate szPage 0 else take szPage (pe_torn E nPage)) db)
                              else (SQLITE_OK, db))
              in if rc = SQLITE_OK then (rc, P\<lparr>j_dbFileSize := nPage\<rparr>, db) else (rc, P, db))"

text \<open>The records of one segment. The result is None to go on with the next header and Some rc to leave the loop.\<close>

fun playback_recs :: "pb_env \<Rightarrow> byte list \<Rightarrow> nat \<Rightarrow> jpager \<Rightarrow> byte list \<Rightarrow> int option \<times> jpager \<times> byte list" where
  "playback_recs E jfd 0 P db = (None, P, db)"
| "playback_recs E jfd (Suc n) P db =
     (let (rc, P, db) = pager_playback_one_page E P jfd db
      in if rc = SQLITE_OK then playback_recs E jfd n P db
         else if rc = SQLITE_DONE then (None, P\<lparr>j_journalOff := length jfd\<rparr>, db)
         else if rc = SQLITE_IOERR_SHORT_READ then (Some SQLITE_OK, P, db)
         else (Some rc, P, db))"

definition playback_segment :: "pb_env \<Rightarrow> byte list \<Rightarrow> jpager \<Rightarrow> byte list \<Rightarrow> u32 \<Rightarrow> nat \<Rightarrow> int option \<times> jpager \<times> byte list" where
  "playback_segment E jfd P db nRec mxPg =
     (let n = (if nRec = 0xffffffff then unat (word_of_nat ((length jfd - j_sectorSize P) div (j_pageSize P + 8)) :: u32) else unat nRec);
          (rc, P, db) = (if j_journalOff P = j_sectorSize P
                         then let (rc, P, db) = pager_truncate E P db mxPg
                              in (rc, if rc = SQLITE_OK then P\<lparr>j_dbSize := mxPg, j_mxPgno := max mxPg (j_mxPgno P)\<rparr> else P, db)
                         else (SQLITE_OK, P, db))
      in if rc \<noteq> SQLITE_OK then (Some rc, P, db) else playback_recs E jfd n P db)"

partial_function (option) playback_loop :: "pb_env \<Rightarrow> byte list \<Rightarrow> jpager \<Rightarrow> byte list \<Rightarrow> (int \<times> jpager \<times> byte list) option" where
  "playback_loop E jfd P db =
     (let (rc, P, nRec, mxPg) = readJournalHdr E True P jfd
      in if rc \<noteq> SQLITE_OK then Some (if rc = SQLITE_DONE then SQLITE_OK else rc, P, db)
         else let R = playback_segment E jfd P db nRec mxPg
              in if fst R = None then playback_loop E jfd (fst (snd R)) (snd (snd R)) else Some (the (fst R), snd R))"

text \<open>The name of the super-journal is read twice, the second time after the pages were written; its faults are then \<open>pe_jsize2\<close> and \<open>pe_jread2\<close>.\<close>

definition second_read :: "pb_env \<Rightarrow> pb_env" where
  "second_read E = E\<lparr>pe_jsize := pe_jsize2 E, pe_jread := pe_jread2 E\<rparr>"

text \<open>The result has the journal that is left: none once the rollback has been completed.\<close>

definition pager_playback :: "pb_env \<Rightarrow> nat \<Rightarrow> jpager \<Rightarrow> byte list \<Rightarrow> byte list \<Rightarrow> (int \<times> jpager \<times> byte list \<times> byte list) option" where
  "pager_playback E mxPathname P jfd db =
     do { (rc, res, P', db) \<leftarrow>
            (if pe_jsize E \<noteq> SQLITE_OK then Some (pe_jsize E, True, P, db)
             else let (rc, zSuper) = readSuperJournal E jfd (1 + mxPathname);
                      (rc, res) = (if rc = SQLITE_OK \<and> zSuper \<noteq> [] then pe_access E zSuper else (rc, True))
                  in if rc \<noteq> SQLITE_OK \<or> \<not> res then Some (rc, res, P, db)
                     else map_option (\<lambda>(rc, P, db). (rc, True, P, db)) (playback_loop E jfd (P\<lparr>j_journalOff := 0\<rparr>) db));
          let (rc, P') = (if rc = SQLITE_OK then PagerSetPagesize_open E P' (j_pageSize P) else (rc, P'));
          let (rc, zSuper) = (if rc = SQLITE_OK then readSuperJournal (second_read E) jfd (1 + mxPathname) else (rc, []));
          let rc = (if rc = SQLITE_OK then pe_sync E else rc);
          let rc = (if rc = SQLITE_OK then pe_end E else rc);
          let jfd = (if rc = SQLITE_OK then [] else jfd);
          let rc = (if rc = SQLITE_OK \<and> zSuper \<noteq> [] \<and> res then pe_delsuper E zSuper else rc);
          Some (rc, P'\<lparr>j_sectorSize := j_sectorSize P\<rparr>, jfd, db) }"
section \<open>The format and the promise\<close>

text \<open>\<open>jrecs\<close>: page records from an offset on. \<open>jshape\<close>: headers with their records from an offset on, up to where no further header is found.\<close>

fun jrecs :: "nat \<Rightarrow> byte list \<Rightarrow> nat \<Rightarrow> u32 \<Rightarrow> (nat \<times> byte list) list \<Rightarrow> bool" where
  "jrecs ps J off ck [] = True"
| "jrecs ps J off ck ((pg, d) # rs) \<longleftrightarrow> off + ps + 8 \<le> length J \<and> unat (get4 J off) = pg \<and> buf_read (off + 4) ps J = d
     \<and> get4 J (off + ps + 4) = cksum_bytes d (ps - 200) ck \<and> jrecs ps J (off + ps + 8) ck rs"

definition sect_up :: "nat \<Rightarrow> nat \<Rightarrow> nat" where
  "sect_up sect off = (if off = 0 then 0 else ((off - 1) div sect + 1) * sect)"

fun jshape :: "nat \<Rightarrow> nat \<Rightarrow> nat \<Rightarrow> byte list \<Rightarrow> nat \<Rightarrow> (nat \<times> byte list) list list \<Rightarrow> bool" where
  "jshape ps sect mx J off [] \<longleftrightarrow> length J < sect_up sect off + sect \<or> buf_read (sect_up sect off) 8 J \<noteq> aJournalMagic"
| "jshape ps sect mx J off (rs # segs) \<longleftrightarrow>
     (let h = sect_up sect off
      in h + sect \<le> length J \<and> buf_read h 8 J = aJournalMagic \<and> unat (get4 J (h + 16)) = mx
         \<and> (if get4 J (h + 8) = 0xffffffff then unat (word_of_nat ((length J - sect) div (ps + 8)) :: u32) else unat (get4 J (h + 8))) = length rs
         \<and> jrecs ps J (h + sect) (get4 J (h + 12)) rs \<and> jshape ps sect mx J (h + sect + length rs * (ps + 8)) segs)"

text \<open>Page \<open>pg\<close> of a database file. \<open>intact\<close>: every page of the original database that is not in \<open>R\<close> is complete and unchanged.\<close>

definition page_at :: "nat \<Rightarrow> byte list \<Rightarrow> nat \<Rightarrow> byte list" where
  "page_at ps f pg = buf_read ((pg - 1) * ps) ps f"

definition intact :: "nat \<Rightarrow> nat \<Rightarrow> byte list \<Rightarrow> nat set \<Rightarrow> byte list \<Rightarrow> bool" where
  "intact ps mx orig R db = (\<forall>pg\<in>{1..mx}. pg \<notin> R \<longrightarrow> pg * ps \<le> length db \<and> page_at ps db pg = page_at ps orig pg)"

text \<open>The records hold original pages of the database.\<close>

definition originals :: "nat \<Rightarrow> nat \<Rightarrow> byte list \<Rightarrow> (nat \<times> byte list) list \<Rightarrow> bool" where
  "originals ps mx orig rs = (\<forall>(pg, d)\<in>set rs. 1 \<le> pg \<and> pg \<le> mx \<and> pg \<noteq> 0x40000000 div ps + 1 \<and> d = page_at ps orig pg)"

text \<open>\<open>pb_clean\<close>: no call fails. \<open>pb_faults\<close>: calls may fail, but not with the two codes that the rollback takes for the end of the
  journal; a short read is then what a read beyond the end of the file gives and nothing else.\<close>

definition pb_clean :: "pb_env \<Rightarrow> bool" where
  "pb_clean E \<longleftrightarrow> pe_jsize E = 0 \<and> pe_jsize2 E = 0 \<and> (\<forall>off. pe_jread E off = 0 \<and> pe_jread2 E off = 0) \<and> (\<forall>z. pe_access E z = (0, True)) \<and> pe_setsize E = 0 \<and> pe_dbsize E = 0
     \<and> pe_dbtrunc E = 0 \<and> pe_dbgrow E = 0 \<and> (\<forall>pg. pe_dbwrite E pg = 0) \<and> pe_sync E = 0 \<and> pe_end E = 0 \<and> (\<forall>z. pe_delsuper E z = 0)"

definition pb_faults :: "pb_env \<Rightarrow> bool" where
  "pb_faults E \<longleftrightarrow> (\<forall>off. pe_jread E off \<notin> {SQLITE_DONE, SQLITE_IOERR_SHORT_READ}) \<and> (\<forall>pg. pe_dbwrite E pg \<notin> {SQLITE_DONE, SQLITE_IOERR_SHORT_READ})
     \<and> pe_setsize E \<noteq> SQLITE_DONE \<and> (\<forall>z. snd (pe_access E z))"

section \<open>Files\<close>

lemma fw_length: "s \<noteq> [] \<Longrightarrow> length (file_write off s f) = max (length f) (off + length s)"
  by (auto simp: file_write_def)

lemma fw_length_le: "length (file_write off s f) \<le> max (length f) (off + length s)"
  by (auto simp: file_write_def)

lemma fw_length_ge: "length f \<le> length (file_write off s f)"
  by (auto simp: file_write_def)

lemma fw_same: "buf_read off (length s) (file_write off s f) = s"
  by (auto simp: file_write_def buf_read_def)

lemma fw_before: "o1 + n \<le> off \<Longrightarrow> o1 + n \<le> length f \<Longrightarrow> buf_read o1 n (file_write off s f) = buf_read o1 n f"
  by (auto simp: file_write_def buf_read_def take_drop min_def)

lemma fw_after: "off + length s \<le> o1 \<Longrightarrow> buf_read o1 n (file_write off s f) = buf_read o1 n f"
proof (cases "off \<le> length f")
  case True
  then show "off + length s \<le> o1 \<Longrightarrow> ?thesis" by (auto simp: file_write_def buf_read_def)
next
  case False
  then show "off + length s \<le> o1 \<Longrightarrow> ?thesis" by (auto simp: file_write_def buf_read_def)
qed

lemma fw_take: "n \<le> off \<Longrightarrow> n \<le> length f \<Longrightarrow> take n (file_write off s f) = take n f"
  by (auto simp: file_write_def min_def)

lemma get4_buf_read: "k + 4 \<le> n \<Longrightarrow> off + n \<le> length f \<Longrightarrow> get4 (buf_read off n f) k = get4 f (off + k)"
  by (simp add: get4_def buf_read_def sqlite3Get4byte_def nth_append add.assoc)

lemma read32_ok: "off + 4 \<le> length f \<Longrightarrow> read32bits fault f off = (fault off, if fault off = 0 then get4 f off else 0)"
  using get4_buf_read [of 0 4 off f] by (simp add: read32bits_def os_read_def)

lemma os_read_ok: "off + n \<le> length f \<Longrightarrow> os_read fault f n off = (fault off, if fault off = 0 then buf_read off n f else [])"
  by (simp add: os_read_def)

lemma page_seg: "1 \<le> pg \<Longrightarrow> (pg - 1) * ps + ps = pg * (ps :: nat)"
  by (cases pg) auto

lemma page_le: "pg \<le> mx \<Longrightarrow> pg * ps \<le> mx * (ps :: nat)"
  by simp

lemma pages_apart: "pg \<noteq> q \<Longrightarrow> 1 \<le> pg \<Longrightarrow> 1 \<le> q \<Longrightarrow> q * ps \<le> (pg - 1) * ps \<or> pg * ps \<le> (q - 1) * (ps :: nat)"
proof -
  assume "pg \<noteq> q" "1 \<le> pg" "1 \<le> q"
  then have "q \<le> pg - 1 \<or> pg \<le> q - 1" by linarith
  then show ?thesis by (metis mult_le_mono1)
qed

lemma page_at_write_other:
  assumes "pg \<noteq> q" "1 \<le> pg" "1 \<le> q" "length s \<le> ps" "q * ps \<le> length db"
  shows "page_at ps (file_write ((pg - 1) * ps) s db) q = page_at ps db q"
  using pages_apart [OF assms(1-3), of ps]
proof
  assume "q * ps \<le> (pg - 1) * ps"
  then show ?thesis using assms(5) page_seg [OF assms(3), of ps] unfolding page_at_def by (intro fw_before) simp_all
next
  assume "pg * ps \<le> (q - 1) * ps"
  then show ?thesis using assms(4) page_seg [OF assms(2), of ps] unfolding page_at_def by (intro fw_after) linarith
qed

lemma page_write_length:
  assumes "length db \<le> mx * ps" "1 \<le> pg" "pg \<le> mx" "length s \<le> ps"
  shows "length (file_write ((pg - 1) * ps) s db) \<le> mx * ps"
proof -
  have "(pg - 1) * ps + length s \<le> mx * ps" using page_seg [OF assms(2), of ps] page_le [OF assms(3), of ps] assms(4) by linarith
  then show ?thesis using fw_length_le [of "(pg - 1) * ps" s db] assms(1) by simp
qed

lemma intact_mono: "intact ps mx orig R db \<Longrightarrow> R \<subseteq> R' \<Longrightarrow> intact ps mx orig R' db"
  by (auto simp: intact_def)

lemma intact_write_any:
  assumes "intact ps mx orig R db" "1 \<le> pg" "length s \<le> ps" "pg \<in> R"
  shows "intact ps mx orig R (file_write ((pg - 1) * ps) s db)"
  unfolding intact_def
proof (intro ballI impI)
  fix q assume q: "q \<in> {1..mx}" "q \<notin> R"
  then have i: "q * ps \<le> length db" "page_at ps db q = page_at ps orig q" using assms(1) by (auto simp: intact_def)
  have "page_at ps (file_write ((pg - 1) * ps) s db) q = page_at ps db q"
    using q assms i(1) by (intro page_at_write_other) auto
  then show "q * ps \<le> length (file_write ((pg - 1) * ps) s db) \<and> page_at ps (file_write ((pg - 1) * ps) s db) q = page_at ps orig q"
    using i fw_length_ge [of db "(pg - 1) * ps" s] by simp
qed

lemma intact_write_page:
  assumes "intact ps mx orig (insert pg R) db" "1 \<le> pg" "length d = ps" "0 < ps" "d = page_at ps orig pg"
  shows "intact ps mx orig R (file_write ((pg - 1) * ps) d db)"
proof -
  have "intact ps mx orig (insert pg R) (file_write ((pg - 1) * ps) d db)" using assms by (intro intact_write_any) auto
  moreover have "pg * ps \<le> length (file_write ((pg - 1) * ps) d db)"
    using fw_length [of d "(pg - 1) * ps" db] assms page_seg [of pg ps] by fastforce
  moreover have "page_at ps (file_write ((pg - 1) * ps) d db) pg = page_at ps orig pg"
    unfolding page_at_def [of ps _ pg] using assms(3,5) fw_same by (metis page_at_def)
  ultimately show ?thesis unfolding intact_def by (metis insertE)
qed

lemma intact_done:
  assumes "intact ps mx orig {} db" "length db \<le> mx * ps" "length orig = mx * ps" "0 < ps"
  shows "db = orig"
proof (rule nth_equalityI)
  have all: "pg * ps \<le> length db \<and> page_at ps db pg = page_at ps orig pg" if "1 \<le> pg" "pg \<le> mx" for pg
    using assms(1) that by (simp add: intact_def)
  show len: "length db = length orig"
  proof (cases "mx = 0")
    case True then show ?thesis using assms(2,3) by simp
  next
    case False then show ?thesis using all [of mx] assms(2,3) by simp
  qed
  fix i assume i: "i < length db"
  define q r where "q = i div ps" and "r = i mod ps"
  have iq: "i = q * ps + r" "r < ps" using assms(4) by (auto simp: q_def r_def)
  have "q < mx" using i assms(2) by (simp add: q_def less_mult_imp_div_less)
  then have eq: "buf_read (q * ps) ps db = buf_read (q * ps) ps orig" using all [of "Suc q"] by (simp add: page_at_def)
  have rd: "f ! i = buf_read (q * ps) ps f ! r" if "length f = length orig" for f :: "byte list"
  proof -
    have "q * ps \<le> length f" using that i len iq by simp
    then show ?thesis using iq by (simp add: buf_read_def)
  qed
  show "db ! i = orig ! i" using rd [OF len] rd [OF refl] eq by simp
qed

lemma concat_chunk: "\<forall>x\<in>set xss. length x = n \<Longrightarrow> i < length xss \<Longrightarrow> buf_read (i * n) n (concat xss) = xss ! i"
proof (induction xss arbitrary: i)
  case (Cons x xss)
  then show ?case by (cases i) (auto simp: buf_read_def)
qed simp

lemma concat_chunks_length: "\<forall>x\<in>set xss. length x = n \<Longrightarrow> length (concat xss) = length xss * n"
  by (induction xss) auto

section \<open>Rolling back\<close>

definition pst :: "nat \<Rightarrow> nat \<Rightarrow> nat \<Rightarrow> byte list \<Rightarrow> jpager \<Rightarrow> bool" where
  "pst ps sect mx J P \<longleftrightarrow> j_pageSize P = ps \<and> j_sectorSize P = sect \<and> j_dbSize P = mx \<and> j_lckPgno P = 0x40000000 div ps + 1
     \<and> (j_noSync P \<or> length J \<le> j_journalHdr P)"

lemma originals_length:
  assumes "originals ps mx orig rs" "(pg, d) \<in> set rs" "length orig = mx * ps"
  shows "length d = ps"
proof -
  have "1 \<le> pg" "pg \<le> mx" "d = page_at ps orig pg" using assms(1,2) by (auto simp: originals_def)
  then show ?thesis using page_seg [of pg ps] page_le [of pg mx ps] assms(3) by (simp add: page_at_def)
qed

text \<open>One record: it restores its page or fails; a failed write damages that page only.\<close>

lemma one_page_restores:
  assumes st: "pst ps sect mx J P" and rec: "jrecs ps J (j_journalOff P) (j_cksumInit P) ((pg, d) # rs)"
    and org: "originals ps mx orig ((pg, d) # rs)" and lo: "length orig = mx * ps" and ps: "0 < ps" and f: "pb_faults E"
    and i: "intact ps mx orig (insert pg R) db" and ld: "length db \<le> mx * ps"
  shows "\<exists>rc P' db'. pager_playback_one_page E P J db = (rc, P', db') \<and> rc \<noteq> SQLITE_DONE \<and> rc \<noteq> SQLITE_IOERR_SHORT_READ
      \<and> intact ps mx orig (insert pg R) db' \<and> length db' \<le> mx * ps
      \<and> (rc = 0 \<longrightarrow> pst ps sect mx J P' \<and> j_cksumInit P' = j_cksumInit P \<and> j_journalOff P' = j_journalOff P + ps + 8 \<and> intact ps mx orig R db')
      \<and> (pb_clean E \<longrightarrow> rc = 0)"
proof -
  let ?o = "j_journalOff P"
  let ?w = "file_write ((pg - 1) * ps) (if pe_dbwrite E pg = 0 then d else take ps (pe_torn E pg)) db"
  have r: "?o + ps + 8 \<le> length J" "unat (get4 J ?o) = pg" "buf_read (?o + 4) ps J = d" "get4 J (?o + ps + 4) = cksum_bytes d (ps - 200) (j_cksumInit P)"
    using rec by auto
  have pg: "1 \<le> pg" "pg \<le> mx" "pg \<noteq> 0x40000000 div ps + 1" "d = page_at ps orig pg" using org by (auto simp: originals_def)
  have dl: "length d = ps" by (rule originals_length [OF org list.set_intros(1) lo])
  have s: "j_pageSize P = ps" "j_dbSize P = mx" "j_lckPgno P = 0x40000000 div ps + 1" "j_noSync P \<or> length J \<le> j_journalHdr P"
    using st by (auto simp: pst_def)
  have nf: "pe_jread E x \<noteq> SQLITE_DONE" "pe_jread E x \<noteq> SQLITE_IOERR_SHORT_READ" "pe_dbwrite E x \<noteq> SQLITE_DONE" "pe_dbwrite E x \<noteq> SQLITE_IOERR_SHORT_READ" for x
    using f by (auto simp: pb_faults_def)
  have sync: "j_noSync P \<or> ?o + ps + 8 \<le> j_journalHdr P" using s(4) r(1) by auto
  have ck: "pager_cksum (P\<lparr>j_journalOff := ?o + ps + 8\<rparr>) d = get4 J (?o + ps + 4)" by (simp add: pager_cksum_def s r)
  have wi: "intact ps mx orig (insert pg R) ?w" using i pg(1) dl by (intro intact_write_any) auto
  have wl: "length ?w \<le> mx * ps"
    using ld pg(1,2) dl by (intro page_write_length) auto
  have wr: "intact ps mx orig R ?w" if "pe_dbwrite E pg = 0"
    using intact_write_page [OF i pg(1) dl ps pg(4)] that by simp
  have rd: "read32bits (pe_jread E) J ?o = (pe_jread E ?o, if pe_jread E ?o = 0 then get4 J ?o else 0)"
    "os_read (pe_jread E) J ps (?o + 4) = (pe_jread E (?o + 4), if pe_jread E (?o + 4) = 0 then d else [])"
    "read32bits (pe_jread E) J (4 + (?o + ps)) = (pe_jread E (?o + ps + 4), if pe_jread E (?o + ps + 4) = 0 then get4 J (?o + ps + 4) else 0)"
    using r by (auto simp: read32_ok os_read_ok add.commute)
  show ?thesis
  proof (cases "pe_jread E ?o = 0 \<and> pe_jread E (?o + 4) = 0 \<and> pe_jread E (?o + ps + 4) = 0")
    case True
    define P' where "P' = (let Q = P\<lparr>j_journalOff := ?o + ps + 8\<rparr>; Q = (if pg = 1 \<and> j_nReserve Q \<noteq> d ! 20 then Q\<lparr>j_nReserve := d ! 20\<rparr> else Q)
                           in Q\<lparr>j_dbFileSize := max pg (j_dbFileSize Q)\<rparr>)"
    have "pager_playback_one_page E P J db = (pe_dbwrite E pg, P', ?w)"
      using True r(2) pg(1-3) ck sync by (auto simp: pager_playback_one_page_def Let_def rd s P'_def)
    moreover have "pst ps sect mx J P'" "j_cksumInit P' = j_cksumInit P" "j_journalOff P' = ?o + ps + 8"
      using st by (simp_all add: P'_def pst_def Let_def)
    ultimately show ?thesis using nf wi wl wr by (auto simp: pb_clean_def)
  next
    case False
    obtain rc P' where "pager_playback_one_page E P J db = (rc, P', db)" "rc \<noteq> 0" "rc \<noteq> SQLITE_DONE" "rc \<noteq> SQLITE_IOERR_SHORT_READ"
    proof -
      have "\<exists>rc P'. pager_playback_one_page E P J db = (rc, P', db) \<and> rc \<noteq> 0 \<and> rc \<noteq> SQLITE_DONE \<and> rc \<noteq> SQLITE_IOERR_SHORT_READ"
        using False r(2) pg(1-3) nf by (auto simp: pager_playback_one_page_def Let_def rd s)
      then show ?thesis using that by blast
    qed
    moreover have "\<not> pb_clean E" using False by (auto simp: pb_clean_def)
    ultimately show ?thesis using i ld by auto
  qed
qed

lemma recs_restore:
  assumes "pst ps sect mx J P" "jrecs ps J (j_journalOff P) (j_cksumInit P) rs" "originals ps mx orig rs" "length orig = mx * ps" "0 < ps"
    "pb_faults E" "intact ps mx orig (fst ` set rs \<union> R) db" "length db \<le> mx * ps"
  shows "\<exists>res P' db'. playback_recs E J (length rs) P db = (res, P', db') \<and> intact ps mx orig (fst ` set rs \<union> R) db' \<and> length db' \<le> mx * ps
      \<and> (res = None \<longrightarrow> pst ps sect mx J P' \<and> j_journalOff P' = j_journalOff P + length rs * (ps + 8) \<and> intact ps mx orig R db')
      \<and> res \<noteq> Some 0 \<and> (pb_clean E \<longrightarrow> res = None)"
  using assms
proof (induction rs arbitrary: P db)
  case Nil
  then show ?case by simp
next
  case (Cons r rs)
  obtain pg d where r: "r = (pg, d)" by (cases r)
  have org: "originals ps mx orig rs" using Cons.prems(3) by (simp add: originals_def)
  have i: "intact ps mx orig (insert pg (fst ` set rs \<union> R)) db" using Cons.prems(7) by (simp add: r)
  obtain rc P1 db1 where one: "pager_playback_one_page E P J db = (rc, P1, db1)" "rc \<noteq> SQLITE_DONE" "rc \<noteq> SQLITE_IOERR_SHORT_READ"
      "intact ps mx orig (insert pg (fst ` set rs \<union> R)) db1" "length db1 \<le> mx * ps" "pb_clean E \<longrightarrow> rc = 0"
    and ok: "rc = 0 \<longrightarrow> pst ps sect mx J P1 \<and> j_cksumInit P1 = j_cksumInit P \<and> j_journalOff P1 = j_journalOff P + ps + 8 \<and> intact ps mx orig (fst ` set rs \<union> R) db1"
    using one_page_restores [OF Cons.prems(1) Cons.prems(2) [unfolded r] Cons.prems(3) [unfolded r] Cons.prems(4-6) i Cons.prems(8)] by blast
  show ?case
  proof (cases "rc = 0")
    case False
    then show ?thesis using one by (simp add: r)
  next
    case True
    then have P1: "pst ps sect mx J P1" "jrecs ps J (j_journalOff P1) (j_cksumInit P1) rs" "j_journalOff P1 = j_journalOff P + ps + 8"
        "intact ps mx orig (fst ` set rs \<union> R) db1"
      using ok Cons.prems(2) by (simp_all add: r)
    obtain res P' db' where rec: "playback_recs E J (length rs) P1 db1 = (res, P', db')" "intact ps mx orig (fst ` set rs \<union> R) db'" "length db' \<le> mx * ps"
        "res = None \<longrightarrow> pst ps sect mx J P' \<and> j_journalOff P' = j_journalOff P1 + length rs * (ps + 8) \<and> intact ps mx orig R db'"
        "res \<noteq> Some 0" "pb_clean E \<longrightarrow> res = None"
      using Cons.IH [OF P1(1,2) org Cons.prems(4-6) P1(4) one(5)] by blast
    have "playback_recs E J (length (r # rs)) P db = (res, P', db')" using one(1) True rec(1) by simp
    moreover have "intact ps mx orig (fst ` set (r # rs) \<union> R) db'" by (rule intact_mono [OF rec(2)]) (auto simp: r)
    moreover have "res = None \<longrightarrow> j_journalOff P' = j_journalOff P + length (r # rs) * (ps + 8)" using rec(4) P1(3) by simp
    ultimately show ?thesis using rec by blast
  qed
qed

subsection \<open>Headers\<close>

lemma sect_up_eq: "journalHdrOffset P = sect_up (j_sectorSize P) (j_journalOff P)"
  by (simp add: journalHdrOffset_def sect_up_def)

lemma header_end: "readJournalHdr E True P J = (SQLITE_DONE, P\<lparr>j_journalOff := sect_up (j_sectorSize P) (j_journalOff P)\<rparr>, 0, 0)
    \<or> (\<exists>rc P'. readJournalHdr E True P J = (rc, P', 0, 0) \<and> rc = pe_jread E (sect_up (j_sectorSize P) (j_journalOff P)) \<and> rc \<noteq> 0)"
  if "jshape ps (j_sectorSize P) mx J (j_journalOff P) []" "8 \<le> j_sectorSize P"
  using that by (auto simp: readJournalHdr_def Let_def sect_up_eq os_read_def)

lemma header_next:
  assumes "pst ps sect mx J P" "jshape ps sect mx J (j_journalOff P) (rs # segs)" "0 < j_journalOff P" "28 \<le> sect" "pb_faults E"
  defines "h \<equiv> sect_up sect (j_journalOff P)"
  shows "(\<exists>rc P' n m. readJournalHdr E True P J = (rc, P', n, m) \<and> rc \<noteq> 0 \<and> rc \<noteq> SQLITE_DONE \<and> \<not> pb_clean E)
    \<or> readJournalHdr E True P J = (0, P\<lparr>j_journalOff := h + sect, j_cksumInit := get4 J (h + 12)\<rparr>, get4 J (h + 8), mx)"
proof -
  have h: "h + sect \<le> length J" "buf_read h 8 J = aJournalMagic" "unat (get4 J (h + 16)) = mx" using assms(2) by (auto simp: h_def Let_def)
  have h0: "h \<noteq> 0" using assms(3,4) by (auto simp: h_def sect_up_def)
  have s: "j_sectorSize P = sect" using assms(1) by (simp add: pst_def)
  have nf: "pe_jread E x \<noteq> SQLITE_DONE" for x using assms(5) by (auto simp: pb_faults_def)
  have rd: "os_read (pe_jread E) J 8 h = (pe_jread E h, if pe_jread E h = 0 then aJournalMagic else [])"
    "k + 4 \<le> sect \<Longrightarrow> read32bits (pe_jread E) J (h + k) = (pe_jread E (h + k), if pe_jread E (h + k) = 0 then get4 J (h + k) else 0)" for k
    using h assms(4) by (auto simp: os_read_ok read32_ok)
  show ?thesis
  proof (cases "pe_jread E h = 0 \<and> pe_jread E (h + 8) = 0 \<and> pe_jread E (h + 12) = 0 \<and> pe_jread E (h + 16) = 0")
    case True
    then show ?thesis using h h0 assms(4) unfolding readJournalHdr_def Let_def sect_up_eq s h_def [symmetric] by (simp add: rd s)
  next
    case False
    then have "\<not> pb_clean E" by (auto simp: pb_clean_def)
    moreover have "\<exists>rc P' n m. readJournalHdr E True P J = (rc, P', n, m) \<and> rc \<noteq> 0 \<and> rc \<noteq> SQLITE_DONE"
      using False h h0 assms(4) nf unfolding readJournalHdr_def Let_def sect_up_eq s h_def [symmetric] by (auto simp: rd s)
    ultimately show ?thesis by blast
  qed
qed

text \<open>The loop from the second header on.\<close>

lemma loop_restores:
  assumes "pst ps sect mx J P" "jshape ps sect mx J (j_journalOff P) segs" "0 < j_journalOff P" "32 \<le> sect" "originals ps mx orig (concat segs)"
    "length orig = mx * ps" "0 < ps" "pb_faults E" "intact ps mx orig (fst ` set (concat segs)) db" "length db \<le> mx * ps"
  shows "\<exists>rc P' db'. playback_loop E J P db = Some (rc, P', db') \<and> intact ps mx orig (fst ` set (concat segs)) db'
      \<and> (rc = 0 \<longrightarrow> db' = orig) \<and> (pb_clean E \<longrightarrow> rc = 0)"
  using assms
proof (induction segs arbitrary: P db)
  case Nil
  have s: "j_sectorSize P = sect" using Nil.prems(1) by (simp add: pst_def)
  have db: "db = orig" using Nil.prems intact_done by simp
  have nf: "pe_jread E x \<noteq> SQLITE_DONE" for x using Nil.prems(8) by (auto simp: pb_faults_def)
  have "readJournalHdr E True P J = (SQLITE_DONE, P\<lparr>j_journalOff := sect_up sect (j_journalOff P)\<rparr>, 0, 0)
      \<or> (\<exists>rc P'. readJournalHdr E True P J = (rc, P', 0, 0) \<and> rc \<noteq> 0 \<and> rc = pe_jread E (sect_up sect (j_journalOff P)))"
    using header_end [of ps P mx J E] Nil.prems(2,4) s by auto
  then show ?case
  proof
    assume "readJournalHdr E True P J = (SQLITE_DONE, P\<lparr>j_journalOff := sect_up sect (j_journalOff P)\<rparr>, 0, 0)"
    then show ?thesis using db Nil.prems(9) by (subst playback_loop.simps) simp
  next
    assume "\<exists>rc P'. readJournalHdr E True P J = (rc, P', 0, 0) \<and> rc \<noteq> 0 \<and> rc = pe_jread E (sect_up sect (j_journalOff P))"
    then obtain rc P' where rc: "readJournalHdr E True P J = (rc, P', 0, 0)" "rc \<noteq> 0" "rc = pe_jread E (sect_up sect (j_journalOff P))" by blast
    then have "\<not> pb_clean E" by (auto simp: pb_clean_def)
    then show ?thesis using rc nf db Nil.prems(9) by (subst playback_loop.simps) simp
  qed
next
  case (Cons rs segs)
  let ?h = "sect_up sect (j_journalOff P)"
  let ?P = "P\<lparr>j_journalOff := ?h + sect, j_cksumInit := get4 J (?h + 12)\<rparr>"
  have s: "28 \<le> sect" using Cons.prems(4) by simp
  from header_next [OF Cons.prems(1-3) s Cons.prems(8)] show ?case
  proof
    assume "\<exists>rc P' n m. readJournalHdr E True P J = (rc, P', n, m) \<and> rc \<noteq> 0 \<and> rc \<noteq> SQLITE_DONE \<and> \<not> pb_clean E"
    then show ?thesis using Cons.prems(9) by (subst playback_loop.simps) auto
  next
    assume hdr: "readJournalHdr E True P J = (0, ?P, get4 J (?h + 8), mx)"
    have sh: "(if get4 J (?h + 8) = 0xffffffff then unat (word_of_nat ((length J - sect) div (ps + 8)) :: u32) else unat (get4 J (?h + 8))) = length rs"
        "jrecs ps J (?h + sect) (get4 J (?h + 12)) rs" "jshape ps sect mx J (?h + sect + length rs * (ps + 8)) segs"
      using Cons.prems(2) by (simp_all add: Let_def)
    have st: "pst ps sect mx J ?P" "j_sectorSize P = sect" "j_pageSize P = ps" using Cons.prems(1) by (simp_all add: pst_def)
    have h0: "?h \<noteq> 0" using Cons.prems(3,4) by (auto simp: sect_up_def)
    have org: "originals ps mx orig rs" "originals ps mx orig (concat segs)" using Cons.prems(5) by (auto simp: originals_def)
    have i: "intact ps mx orig (fst ` set rs \<union> fst ` set (concat segs)) db" using Cons.prems(9) by (simp add: image_Un)
    have rec: "jrecs ps J (j_journalOff ?P) (j_cksumInit ?P) rs" using sh(2) by simp
    obtain res P1 db1 where r: "playback_recs E J (length rs) ?P db = (res, P1, db1)"
        "intact ps mx orig (fst ` set rs \<union> fst ` set (concat segs)) db1" "length db1 \<le> mx * ps"
        "res = None \<longrightarrow> pst ps sect mx J P1 \<and> j_journalOff P1 = j_journalOff ?P + length rs * (ps + 8) \<and> intact ps mx orig (fst ` set (concat segs)) db1"
        "res \<noteq> Some 0" "pb_clean E \<longrightarrow> res = None"
      using recs_restore [OF st(1) rec org(1) Cons.prems(6-8) i Cons.prems(10)] by blast
    have seg: "playback_segment E J ?P db (get4 J (?h + 8)) mx = (res, P1, db1)"
      using h0 sh(1) r(1) st(2,3) by (cases "get4 J (?h + 8) = 0xffffffff") (simp_all add: playback_segment_def Let_def)
    have step: "playback_loop E J P db = (if res = None then playback_loop E J P1 db1 else Some (the res, P1, db1))"
      by (subst playback_loop.simps) (simp add: hdr seg Let_def)
    show ?thesis
    proof (cases res)
      case (Some rc)
      then show ?thesis using step r(2,5,6) by (auto simp: image_Un)
    next
      case None
      then have P1: "pst ps sect mx J P1" "j_journalOff P1 = ?h + sect + length rs * (ps + 8)" "intact ps mx orig (fst ` set (concat segs)) db1"
        using r(4) by auto
      then obtain rc P' db' where "playback_loop E J P1 db1 = Some (rc, P', db')" "intact ps mx orig (fst ` set (concat segs)) db'"
          "rc = 0 \<longrightarrow> db' = orig" "pb_clean E \<longrightarrow> rc = 0"
        using Cons.IH [of P1 db1] sh(3) Cons.prems(4) org(2) Cons.prems(6-8) r(3) by fastforce
      moreover from this have "intact ps mx orig (fst ` set (concat (rs # segs))) db'" by (elim intact_mono) auto
      ultimately show ?thesis using step None by simp
    qed
  qed
qed

text \<open>The first header: the page and sector size are those of the journal, and the file gets its original size.\<close>

lemma truncate_intact:
  assumes "intact ps mx orig R db" "0 < ps" "j_pageSize P = ps"
  shows "\<exists>rc P' db'. pager_truncate E P db mx = (rc, P', db') \<and> intact ps mx orig R db' \<and> (rc = 0 \<longrightarrow> length db' \<le> mx * ps)
      \<and> (P' = P \<or> P' = P\<lparr>j_dbFileSize := mx\<rparr>) \<and> (pb_clean E \<longrightarrow> rc = 0)"
proof -
  have sh: "intact ps mx orig R (take (ps * mx) db)"
    unfolding intact_def
  proof (intro ballI impI)
    fix q assume q: "q \<in> {1..mx}" "q \<notin> R"
    then have i: "q * ps \<le> length db" "page_at ps db q = page_at ps orig q" using assms(1) by (auto simp: intact_def)
    have le: "q * ps \<le> ps * mx" using q by (simp add: mult.commute)
    moreover have "(q - 1) * ps + ps = q * ps" using q(1) by (intro page_seg) simp
    ultimately have "ps \<le> ps * mx - (q - 1) * ps" by linarith
    then have "page_at ps (take (ps * mx) db) q = page_at ps db q" by (simp add: page_at_def buf_read_def drop_take min_absorb1)
    then show "q * ps \<le> length (take (ps * mx) db) \<and> page_at ps (take (ps * mx) db) q = page_at ps orig q" using i le by simp
  qed
  have gr: "intact ps mx orig R (file_write (ps * mx - ps) s db)" if a: "length db + ps \<le> ps * mx" for s
    unfolding intact_def
  proof (intro ballI impI)
    fix q assume q: "q \<in> {1..mx}" "q \<notin> R"
    then have i: "q * ps \<le> length db" "page_at ps db q = page_at ps orig q" using assms(1) by (auto simp: intact_def)
    then have "page_at ps (file_write (ps * mx - ps) s db) q = page_at ps db q"
      using a page_seg [of q ps] q unfolding page_at_def by (intro fw_before) auto
    then show "q * ps \<le> length (file_write (ps * mx - ps) s db) \<and> page_at ps (file_write (ps * mx - ps) s db) q = page_at ps orig q"
      using i fw_length_ge [of db "ps * mx - ps" s] by simp
  qed
  have gl: "length (file_write (ps * mx - ps) (replicate ps 0) db) \<le> mx * ps" if "length db + ps \<le> ps * mx"
    using fw_length_le [of "ps * mx - ps" "replicate ps 0" db] that by (simp add: mult.commute)
  consider "pe_dbsize E \<noteq> 0 \<or> length db = ps * mx" | "pe_dbsize E = 0" "ps * mx < length db" | "pe_dbsize E = 0" "length db + ps \<le> ps * mx"
    | "pe_dbsize E = 0" "length db < ps * mx" "ps * mx < length db + ps" by linarith
  then show ?thesis
  proof cases
    case 1
    then show ?thesis using assms(1,3) by (auto simp: pager_truncate_def Let_def pb_clean_def mult.commute)
  next
    case 2
    then show ?thesis using assms(1,3) sh by (auto simp: pager_truncate_def Let_def pb_clean_def mult.commute)
  next
    case 3
    then show ?thesis using assms(2,3) gr [OF 3(2)] gl [OF 3(2)] by (auto simp: pager_truncate_def Let_def pb_clean_def)
  next
    case 4
    then show ?thesis using assms(1,3) by (auto simp: pager_truncate_def Let_def pb_clean_def mult.commute)
  qed
qed

lemma header_sizes_bounds: "header_sizes P s p = Some (ps, sect) \<Longrightarrow> 512 \<le> ps \<and> 32 \<le> sect"
  by (auto simp: header_sizes_def Let_def word_le_nat_alt word_less_nat_alt split: if_splits)

lemma header_sizes_cong: "j_pageSize P = j_pageSize Q \<Longrightarrow> header_sizes P = header_sizes Q"
  by (simp add: header_sizes_def fun_eq_iff)

lemma header_first:
  assumes "j_journalOff P = 0" "j_sectorSize P \<le> length J" "jshape ps sect mx J 0 (rs # segs)" "pb_faults E"
    "header_sizes P (get4 J 20) (get4 J 24) = Some (ps, sect)" "j_lckPgno P = 0x40000000 div j_pageSize P + 1" "j_noSync P \<or> length J \<le> j_journalHdr P"
  shows "(\<exists>rc P' n m. readJournalHdr E True P J = (rc, P', n, m) \<and> rc \<noteq> 0 \<and> rc \<noteq> SQLITE_DONE \<and> \<not> pb_clean E)
    \<or> (\<exists>P'. readJournalHdr E True P J = (0, P', get4 J 8, mx) \<and> j_journalOff P' = sect \<and> j_cksumInit P' = get4 J 12 \<and> pst ps sect mx J (P'\<lparr>j_dbSize := mx\<rparr>))"
proof -
  have s: "28 \<le> sect" "0 < ps" using header_sizes_bounds [OF assms(5)] by auto
  have h: "sect \<le> length J" "buf_read 0 8 J = aJournalMagic" "unat (get4 J 16) = mx" using assms(3) by (auto simp: Let_def sect_up_def)
  have nf: "pe_jread E x \<noteq> SQLITE_DONE" "pe_setsize E \<noteq> SQLITE_DONE" for x using assms(4) by (auto simp: pb_faults_def)
  have rd: "os_read (pe_jread E) J 8 0 = (pe_jread E 0, if pe_jread E 0 = 0 then aJournalMagic else [])"
    "k + 4 \<le> 28 \<Longrightarrow> read32bits (pe_jread E) J k = (pe_jread E k, if pe_jread E k = 0 then get4 J k else 0)" for k
    using h s by (auto simp: os_read_ok read32_ok)
  have hs: "header_sizes (P\<lparr>j_journalOff := 0, j_cksumInit := c\<rparr>) (get4 J 20) (get4 J 24) = Some (ps, sect)" for c
    using assms(5) header_sizes_cong [of "P\<lparr>j_journalOff := 0, j_cksumInit := c\<rparr>" P] by simp
  show ?thesis
  proof (cases "pe_jread E 0 = 0 \<and> pe_jread E 8 = 0 \<and> pe_jread E 12 = 0 \<and> pe_jread E 16 = 0 \<and> pe_jread E 20 = 0 \<and> pe_jread E 24 = 0")
    case True
    then show ?thesis using assms(1,2,6,7) h s nf
      by (auto simp: readJournalHdr_def Let_def journalHdrOffset_def rd hs PagerSetPagesize_open_def pst_def pb_clean_def)
  next
    case False
    then have "\<not> pb_clean E" by (auto simp: pb_clean_def)
    moreover have "\<exists>rc P' n m. readJournalHdr E True P J = (rc, P', n, m) \<and> rc \<noteq> 0 \<and> rc \<noteq> SQLITE_DONE"
      using False assms(1,2) h s nf by (auto simp: readJournalHdr_def Let_def journalHdrOffset_def rd)
    ultimately show ?thesis by blast
  qed
qed

definition hot_journal :: "nat \<Rightarrow> nat \<Rightarrow> nat \<Rightarrow> byte list \<Rightarrow> (nat \<times> byte list) list list \<Rightarrow> jpager \<Rightarrow> bool" where
  "hot_journal ps sect mx J segs P \<longleftrightarrow> segs \<noteq> [] \<and> jshape ps sect mx J 0 segs \<and> header_sizes P (get4 J 20) (get4 J 24) = Some (ps, sect)
     \<and> j_sectorSize P \<le> length J \<and> j_lckPgno P = 0x40000000 div j_pageSize P + 1 \<and> (j_noSync P \<or> length J \<le> j_journalHdr P)"

text \<open>\<open>restorable\<close>: with the records of the journal, \<open>db\<close> can be turned back into \<open>orig\<close>.\<close>

definition restorable :: "nat \<Rightarrow> nat \<Rightarrow> byte list \<Rightarrow> (nat \<times> byte list) list list \<Rightarrow> byte list \<Rightarrow> bool" where
  "restorable ps mx orig segs db \<longleftrightarrow> length orig = mx * ps \<and> originals ps mx orig (concat segs) \<and> intact ps mx orig (fst ` set (concat segs)) db"

lemma segment_first:
  assumes "pst ps sect mx J (P\<lparr>j_dbSize := mx\<rparr>)" "j_journalOff P = sect"
    "(if nRec = 0xffffffff then unat (word_of_nat ((length J - sect) div (ps + 8)) :: u32) else unat nRec) = n" "pager_truncate E P db mx = (rc, P1, db1)"
  shows "playback_segment E J P db nRec mx =
    (if rc \<noteq> 0 then (Some rc, P1, db1) else playback_recs E J n (P1\<lparr>j_dbSize := mx, j_mxPgno := max mx (j_mxPgno P1)\<rparr>) db1)"
proof -
  have "j_sectorSize P = sect" "j_pageSize P = ps" using assms(1) by (simp_all add: pst_def)
  then show ?thesis using assms(2-4) by (cases "nRec = 0xffffffff") (simp_all add: playback_segment_def Let_def)
qed

lemma loop_first:
  assumes hot: "hot_journal ps sect mx J segs P" and off: "j_journalOff P = 0" and f: "pb_faults E" and rs: "restorable ps mx orig segs db"
  shows "\<exists>rc P' db'. playback_loop E J P db = Some (rc, P', db') \<and> intact ps mx orig (fst ` set (concat segs)) db'
      \<and> (rc = 0 \<longrightarrow> db' = orig) \<and> (pb_clean E \<longrightarrow> rc = 0)"
proof -
  obtain r ss where segs: "segs = r # ss" using hot by (cases segs) (auto simp: hot_journal_def)
  have sz: "512 \<le> ps" "32 \<le> sect" using hot header_sizes_bounds by (auto simp: hot_journal_def)
  have lo: "length orig = mx * ps" and org: "originals ps mx orig r" "originals ps mx orig (concat ss)"
    and i: "intact ps mx orig (fst ` set r \<union> fst ` set (concat ss)) db" "intact ps mx orig (fst ` set (concat segs)) db"
    using rs by (auto simp: restorable_def originals_def segs image_Un)
  have sh: "(if get4 J 8 = 0xffffffff then unat (word_of_nat ((length J - sect) div (ps + 8)) :: u32) else unat (get4 J 8)) = length r"
      "jrecs ps J sect (get4 J 12) r" "jshape ps sect mx J (sect + length r * (ps + 8)) ss"
    using hot by (simp_all add: hot_journal_def segs Let_def sect_up_def split: if_splits)
  have "j_sectorSize P \<le> length J" "jshape ps sect mx J 0 (r # ss)" "header_sizes P (get4 J 20) (get4 J 24) = Some (ps, sect)"
    "j_lckPgno P = 0x40000000 div j_pageSize P + 1" "j_noSync P \<or> length J \<le> j_journalHdr P" using hot unfolding hot_journal_def segs by blast+
  from header_first [OF off this(1,2) f this(3-5)] show ?thesis
  proof
    assume "\<exists>rc P' n m. readJournalHdr E True P J = (rc, P', n, m) \<and> rc \<noteq> 0 \<and> rc \<noteq> SQLITE_DONE \<and> \<not> pb_clean E"
    then show ?thesis using i(2) by (subst playback_loop.simps) auto
  next
    assume "\<exists>P'. readJournalHdr E True P J = (0, P', get4 J 8, mx) \<and> j_journalOff P' = sect \<and> j_cksumInit P' = get4 J 12 \<and> pst ps sect mx J (P'\<lparr>j_dbSize := mx\<rparr>)"
    then obtain P0 where P0: "readJournalHdr E True P J = (0, P0, get4 J 8, mx)" "j_journalOff P0 = sect" "j_cksumInit P0 = get4 J 12"
      "pst ps sect mx J (P0\<lparr>j_dbSize := mx\<rparr>)" by blast
    have psz: "0 < ps" "j_pageSize P0 = ps" using sz P0(4) by (simp_all add: pst_def)
    obtain rc P1 db1 where t: "pager_truncate E P0 db mx = (rc, P1, db1)" "intact ps mx orig (fst ` set r \<union> fst ` set (concat ss)) db1"
        "rc = 0 \<longrightarrow> length db1 \<le> mx * ps" "P1 = P0 \<or> P1 = P0\<lparr>j_dbFileSize := mx\<rparr>" "pb_clean E \<longrightarrow> rc = 0"
      using truncate_intact [OF i(1) psz, of E] by blast
    note seg = segment_first [OF P0(4,2) sh(1) t(1)]
    let ?P = "P1\<lparr>j_dbSize := mx, j_mxPgno := max mx (j_mxPgno P1)\<rparr>"
    show ?thesis
    proof (cases "rc = 0")
      case False
      then have "playback_loop E J P db = Some (rc, P1, db1)" by (subst playback_loop.simps) (simp add: P0(1) seg Let_def)
      then show ?thesis using False t(2,5) by (simp add: segs image_Un)
    next
      case True
      have st: "pst ps sect mx J ?P" "jrecs ps J (j_journalOff ?P) (j_cksumInit ?P) r" "j_journalOff ?P = sect"
        using P0(2-4) t(4) sh(2) by (auto simp: pst_def)
      obtain res P2 db2 where r: "playback_recs E J (length r) ?P db1 = (res, P2, db2)"
          "intact ps mx orig (fst ` set r \<union> fst ` set (concat ss)) db2" "length db2 \<le> mx * ps"
          "res = None \<longrightarrow> pst ps sect mx J P2 \<and> j_journalOff P2 = j_journalOff ?P + length r * (ps + 8) \<and> intact ps mx orig (fst ` set (concat ss)) db2"
          "res \<noteq> Some 0" "pb_clean E \<longrightarrow> res = None"
        using recs_restore [OF st(1,2) org(1) lo psz(1) f t(2)] t(3) True by blast
      have step: "playback_loop E J P db = (if res = None then playback_loop E J P2 db2 else Some (the res, P2, db2))"
        by (subst playback_loop.simps) (simp add: P0(1) seg True r(1) Let_def)
      show ?thesis
      proof (cases res)
        case (Some rc)
        then show ?thesis using step r(2,5,6) by (auto simp: image_Un segs)
      next
        case None
        then have P2: "pst ps sect mx J P2" "jshape ps sect mx J (j_journalOff P2) ss" "0 < j_journalOff P2" "intact ps mx orig (fst ` set (concat ss)) db2"
          using r(4) st(3) sh(3) sz by auto
        obtain rc P' db' where "playback_loop E J P2 db2 = Some (rc, P', db')" "intact ps mx orig (fst ` set (concat ss)) db'"
            "rc = 0 \<longrightarrow> db' = orig" "pb_clean E \<longrightarrow> rc = 0"
          using loop_restores [OF P2(1-3) sz(2) org(2) lo psz(1) f P2(4) r(3)] by blast
        moreover from this have "intact ps mx orig (fst ` set (concat segs)) db'" by (elim intact_mono) (auto simp: segs)
        ultimately show ?thesis using step None by simp
      qed
    qed
  qed
qed

lemma intact_self: "length orig = mx * ps \<Longrightarrow> intact ps mx orig R orig"
  by (auto simp: intact_def)

lemma super_read_ok: "pe_jsize E = 0 \<Longrightarrow> (\<And>off. pe_jread E off = 0) \<Longrightarrow> fst (readSuperJournal E J n) = 0"
  by (auto simp: readSuperJournal_def Let_def read32_ok os_read_ok)

lemma super_read_clean: "pb_clean E \<Longrightarrow> fst (readSuperJournal E J n) = 0" "pb_clean E \<Longrightarrow> fst (readSuperJournal (second_read E) J n) = 0"
  by (auto intro!: super_read_ok simp: pb_clean_def second_read_def)

lemma setsize_clean: "pb_clean E \<Longrightarrow> fst (PagerSetPagesize_open E P n) = 0"
  by (simp add: PagerSetPagesize_open_def pb_clean_def)

text \<open>The rollback as a whole, with any faults.\<close>

lemma playback_restores:
  assumes hot: "hot_journal ps sect mx J segs P" and f: "pb_faults E" and rs: "restorable ps mx orig segs db"
  shows "\<exists>rc P' J' db'. pager_playback E mxp P J db = Some (rc, P', J', db') \<and> (rc = 0 \<longrightarrow> J' = [] \<and> db' = orig)
      \<and> (J' = J \<and> intact ps mx orig (fst ` set (concat segs)) db' \<or> J' = [] \<and> db' = orig) \<and> (pb_clean E \<longrightarrow> rc = 0)"
proof -
  have P0: "hot_journal ps sect mx J segs (P\<lparr>j_journalOff := 0\<rparr>)" "j_journalOff (P\<lparr>j_journalOff := 0\<rparr>) = 0"
    using hot header_sizes_cong [of "P\<lparr>j_journalOff := 0\<rparr>" P] by (simp_all add: hot_journal_def)
  obtain rcl Pl dbl where l: "playback_loop E J (P\<lparr>j_journalOff := 0\<rparr>) db = Some (rcl, Pl, dbl)" "intact ps mx orig (fst ` set (concat segs)) dbl"
      "rcl = 0 \<longrightarrow> dbl = orig" "pb_clean E \<longrightarrow> rcl = 0"
    using loop_first [OF P0 f rs] by blast
  have i: "intact ps mx orig (fst ` set (concat segs)) db" using rs by (simp add: restorable_def)
  obtain rcs zs where s: "readSuperJournal E J (1 + mxp) = (rcs, zs)" by fastforce
  obtain rcs2 zs2 where s2: "readSuperJournal (second_read E) J (1 + mxp) = (rcs2, zs2)" by fastforce
  define first where "first = (if pe_jsize E \<noteq> 0 then Some (pe_jsize E, True, P, db)
      else let (rc, zSuper) = (rcs, zs); (rc, res) = (if rc = 0 \<and> zSuper \<noteq> [] then pe_access E zSuper else (rc, True))
           in if rc \<noteq> 0 \<or> \<not> res then Some (rc, res, P, db)
              else map_option (\<lambda>(rc, P, db). (rc, True, P, db)) (playback_loop E J (P\<lparr>j_journalOff := 0\<rparr>) db))"
  have acc: "snd (pe_access E z)" for z using f by (simp add: pb_faults_def)
  obtain rc1 P1 db1 where one: "first = Some (rc1, True, P1, db1)" "intact ps mx orig (fst ` set (concat segs)) db1" "rc1 = 0 \<longrightarrow> db1 = orig"
      "pb_clean E \<longrightarrow> rc1 = 0"
  proof -
    have "\<exists>rc1 P1 db1. first = Some (rc1, True, P1, db1) \<and> intact ps mx orig (fst ` set (concat segs)) db1 \<and> (rc1 = 0 \<longrightarrow> db1 = orig) \<and> (pb_clean E \<longrightarrow> rc1 = 0)"
    proof (cases "pe_jsize E \<noteq> 0 \<or> rcs \<noteq> 0 \<or> zs \<noteq> [] \<and> fst (pe_access E zs) \<noteq> 0")
      case True
      moreover have "\<not> pb_clean E" using True super_read_clean(1) [of E J "1 + mxp"] s by (auto simp: pb_clean_def)
      ultimately show ?thesis using i acc [of zs] by (cases "pe_access E zs") (auto simp: first_def)
    next
      case False
      then have "first = Some (rcl, True, Pl, dbl)" using acc [of zs] l(1) by (cases "pe_access E zs") (auto simp: first_def)
      then show ?thesis using l(2-4) by blast
    qed
    then show ?thesis using that by blast
  qed
  obtain rc2 P2 where two: "(if rc1 = 0 then PagerSetPagesize_open E P1 (j_pageSize P) else (rc1, P1)) = (rc2, P2)" by fastforce
  have c2: "rc2 = 0 \<Longrightarrow> rc1 = 0" "pb_clean E \<Longrightarrow> rc2 = 0" using two one(4) setsize_clean [of E P1 "j_pageSize P"] by (auto split: if_splits)
  define rc3 where "rc3 = (if rc2 = 0 then rcs2 else rc2)"
  define rc4 where "rc4 = (let rc = (if rc3 = 0 then pe_sync E else rc3) in if rc = 0 then pe_end E else rc)"
  define z where "z = (if rc2 = 0 then zs2 else [])"
  have res: "pager_playback E mxp P J db = Some (if rc4 = 0 \<and> z \<noteq> [] then pe_delsuper E z else rc4, P2\<lparr>j_sectorSize := j_sectorSize P\<rparr>, if rc4 = 0 then [] else J, db1)"
    unfolding pager_playback_def s s2 first_def [unfolded Let_def, symmetric] Let_def
    using two by (cases "rc1 = 0"; cases "rc2 = 0") (simp_all add: one(1) rc3_def rc4_def z_def Let_def)
  have "rc4 = 0 \<Longrightarrow> db1 = orig" using one(3) c2 by (auto simp: rc4_def rc3_def Let_def split: if_splits)
  moreover have "pb_clean E \<Longrightarrow> (if rc4 = 0 \<and> z \<noteq> [] then pe_delsuper E z else rc4) = 0"
    using c2(2) super_read_clean(2) [of E J "1 + mxp"] s2 by (simp add: rc4_def rc3_def pb_clean_def)
  ultimately show ?thesis using res one(2) by auto
qed

end
