(* ===== verification/Pager_Transaction.thy ===== *)
theory Pager_Transaction
  imports Pager_Journal
begin

text \<open>
  The rollback journal over a transaction. The writer's side of the format: \<open>jopen\<close> is the state of the journal between two syncs, and \<open>writeJournalHdr\<close>,
  \<open>pagerAddPageToRollbackJournal\<close> and \<open>syncJournal\<close> lead from one such state to the next. The inductive relation \<open>jrun\<close> has the states that a transaction
  reaches on a journal file with any old content. From there to the rollback: the content at a sync is a hot journal that \<open>pager_playback\<close> restores the
  database from, also after rollbacks that failed and with what a crash leaves behind the synced part. Last, the name of the super-journal.
\<close>

section \<open>Writing\<close>

text \<open>The page and sector sizes a pager has.\<close>

definition journal_sizes :: "nat \<Rightarrow> nat \<Rightarrow> bool" where
  "journal_sizes ps sect \<longleftrightarrow> ps \<in> {512, 1024, 2048, 4096, 8192, 16384, 32768, 65536}
     \<and> sect \<in> {32, 64, 128, 256, 512, 1024, 2048, 4096, 8192, 16384, 32768, 65536}"

lemma journal_sizes_bounds: "journal_sizes ps sect \<Longrightarrow> 512 \<le> ps \<and> ps \<le> 65536 \<and> 32 \<le> sect \<and> sect \<le> 65536"
  by (auto simp: journal_sizes_def)

lemma page_word:
  assumes "ps \<in> {512, 1024, 2048, 4096, 8192, 16384, 32768, 65536 :: nat}"
  defines "w \<equiv> (word_of_nat ps :: u32)"
  shows "\<not> w < 512 \<and> \<not> 65536 < w \<and> (w - 1) AND w = 0 \<and> unat w = ps \<and> w \<noteq> 0"
  using assms(1) unfolding w_def by auto

lemma sector_word:
  assumes "sect \<in> {32, 64, 128, 256, 512, 1024, 2048, 4096, 8192, 16384, 32768, 65536 :: nat}"
  defines "w \<equiv> (word_of_nat sect :: u32)"
  shows "\<not> w < 32 \<and> \<not> 0x10000 < w \<and> (w - 1) AND w = 0 \<and> unat w = sect"
  using assms(1) unfolding w_def by auto

lemma header_sizes_ok: "journal_sizes ps sect \<Longrightarrow> header_sizes P (word_of_nat sect) (word_of_nat ps) = Some (ps, sect)"
  using page_word [of ps] sector_word [of sect] by (simp add: journal_sizes_def header_sizes_def Let_def)

lemma journal_sizes_pow: "journal_sizes ps sect \<Longrightarrow> (\<exists>k. ps = 2 ^ k) \<and> (\<exists>k. sect = 2 ^ k)"
proof -
  have p: "\<exists>k. n = 2 ^ k" if "n \<in> (\<lambda>k. 2 ^ k) ` {5, 6, 7, 8, 9, 10, 11, 12, 13, 14, 15, 16}" for n :: nat using that by blast
  show "journal_sizes ps sect \<Longrightarrow> ?thesis" unfolding journal_sizes_def by (intro conjI p) auto
qed

lemma journal_sizes_dvd: "journal_sizes ps sect \<Longrightarrow> min ps sect dvd sect"
proof -
  assume "journal_sizes ps sect"
  then obtain k m where "ps = 2 ^ k" "sect = 2 ^ m" using journal_sizes_pow by blast
  then show ?thesis by (cases "ps \<le> sect") (auto simp: min_def intro: le_imp_power_dvd)
qed

subsection \<open>Agreement of files on a range\<close>

definition agree :: "nat \<Rightarrow> nat \<Rightarrow> byte list \<Rightarrow> byte list \<Rightarrow> bool" where
  "agree a b J J' \<longleftrightarrow> b \<le> length J \<and> b \<le> length J' \<and> (\<forall>i. a \<le> i \<and> i < b \<longrightarrow> J ! i = J' ! i)"

lemma agree_read: "agree a b J J' \<Longrightarrow> a \<le> off \<Longrightarrow> off + n \<le> b \<Longrightarrow> buf_read off n J' = buf_read off n J"
  by (rule nth_equalityI) (auto simp: agree_def buf_read_def)

lemma agree_get4: "agree a b J J' \<Longrightarrow> a \<le> off \<Longrightarrow> off + 4 \<le> b \<Longrightarrow> get4 J' off = get4 J off"
  by (simp add: agree_def get4_def sqlite3Get4byte_def)

lemma agree_refl: "b \<le> length J \<Longrightarrow> agree a b J J"
  by (simp add: agree_def)

lemma agree_trans: "agree a b J J1 \<Longrightarrow> agree a b J1 J2 \<Longrightarrow> agree a b J J2"
  by (auto simp: agree_def)

lemma agree_sub: "agree a b J J' \<Longrightarrow> a \<le> c \<Longrightarrow> d \<le> b \<Longrightarrow> agree c d J J'"
  by (auto simp: agree_def)

lemma agree_write: "b \<le> length J \<Longrightarrow> b \<le> off \<or> off + length s \<le> a \<Longrightarrow> agree a b J (file_write off s J)"
  by (auto simp: agree_def file_write_def nth_append)

lemma get4_read: "buf_read off 4 f = sqlite3Put4byte v \<Longrightarrow> off + 4 \<le> length f \<Longrightarrow> get4 f off = v"
  using get4_buf_read [of 0 4 off f] get4_put4 [of "[]" 0 v "[]"] by simp

lemma jrecs_agree: "jrecs ps J off ck rs \<Longrightarrow> agree off (off + length rs * (ps + 8)) J J' \<Longrightarrow> jrecs ps J' off ck rs"
proof (induction rs arbitrary: off)
  case (Cons r rs)
  obtain pg d where r: "r = (pg, d)" by (cases r)
  let ?e = "off + length (r # rs) * (ps + 8)"
  have e: "?e = off + ps + 8 + length rs * (ps + 8)" by simp
  have a: "get4 J' off = get4 J off" "buf_read (off + 4) ps J' = buf_read (off + 4) ps J" "get4 J' (off + ps + 4) = get4 J (off + ps + 4)"
    using agree_get4 [OF Cons.prems(2)] agree_read [OF Cons.prems(2)] by simp_all
  have "agree (off + ps + 8) (off + ps + 8 + length rs * (ps + 8)) J J'" using agree_sub [OF Cons.prems(2)] by simp
  then have "jrecs ps J' (off + ps + 8) ck rs" using Cons by (simp add: r)
  moreover have "off + ps + 8 \<le> length J'" using Cons.prems(2) by (simp add: agree_def)
  ultimately show ?case using Cons.prems(1) a by (simp add: r)
qed simp

lemma jrecs_snoc: "jrecs ps J off ck (rs @ [r]) \<longleftrightarrow> jrecs ps J off ck rs \<and> jrecs ps J (off + length rs * (ps + 8)) ck [r]"
proof (induction rs arbitrary: off)
  case (Cons a rs)
  then show ?case using Cons [of "off + ps + 8"] by (cases a) (auto simp: add.assoc)
qed simp

text \<open>\<open>jclosed\<close>: headers with the numbers of their records filled in, up to \<open>jend\<close>.\<close>

fun jend :: "nat \<Rightarrow> nat \<Rightarrow> nat \<Rightarrow> (nat \<times> byte list) list list \<Rightarrow> nat" where
  "jend ps sect off [] = off"
| "jend ps sect off (rs # segs) = jend ps sect (sect_up sect off + sect + length rs * (ps + 8)) segs"

definition jhead :: "nat \<Rightarrow> nat \<Rightarrow> byte list \<Rightarrow> nat \<Rightarrow> (nat \<times> byte list) list \<Rightarrow> bool" where
  "jhead ps mx J h rs \<longleftrightarrow> buf_read h 8 J = aJournalMagic \<and> get4 J (h + 8) = word_of_nat (length rs) \<and> length rs < 2 ^ 32 - 1 \<and> unat (get4 J (h + 16)) = mx"

fun jclosed :: "nat \<Rightarrow> nat \<Rightarrow> nat \<Rightarrow> byte list \<Rightarrow> nat \<Rightarrow> (nat \<times> byte list) list list \<Rightarrow> bool" where
  "jclosed ps sect mx J off [] = True"
| "jclosed ps sect mx J off (rs # segs) \<longleftrightarrow>
     (let h = sect_up sect off
      in jhead ps mx J h rs \<and> jrecs ps J (h + sect) (get4 J (h + 12)) rs \<and> jclosed ps sect mx J (h + sect + length rs * (ps + 8)) segs)"

lemma sect_up_ge: "0 < sect \<Longrightarrow> off \<le> sect_up sect off"
proof -
  assume "0 < sect"
  then have "off - 1 < sect + (off - 1) div sect * sect" by (rule dividend_less_div_times)
  then show ?thesis by (auto simp: sect_up_def)
qed

lemma jend_ge: "0 < sect \<Longrightarrow> off \<le> jend ps sect off segs"
proof (induction segs arbitrary: off)
  case (Cons rs segs)
  have "off \<le> sect_up sect off" using Cons.prems sect_up_ge by simp
  also have "\<dots> \<le> sect_up sect off + sect + length rs * (ps + 8)" by simp
  also have "\<dots> \<le> jend ps sect (sect_up sect off + sect + length rs * (ps + 8)) segs" using Cons by simp
  finally show ?case by simp
qed simp

lemma jend_snoc: "jend ps sect off (segs @ [rs]) = sect_up sect (jend ps sect off segs) + sect + length rs * (ps + 8)"
  by (induction segs arbitrary: off) simp_all

lemma jclosed_snoc: "jclosed ps sect mx J off (segs @ [rs]) \<longleftrightarrow> jclosed ps sect mx J off segs
    \<and> jhead ps mx J (sect_up sect (jend ps sect off segs)) rs
    \<and> jrecs ps J (sect_up sect (jend ps sect off segs) + sect) (get4 J (sect_up sect (jend ps sect off segs) + 12)) rs"
  by (induction segs arbitrary: off) (simp_all add: Let_def)

lemma jhead_agree: "jhead ps mx J h rs \<Longrightarrow> agree h (h + 20) J J' \<Longrightarrow> jhead ps mx J' h rs"
  using agree_get4 [of h "h + 20" J J'] agree_read [of h "h + 20" J J' h 8] by (simp add: jhead_def)

lemma jclosed_agree: "jclosed ps sect mx J off segs \<Longrightarrow> 32 \<le> sect \<Longrightarrow> agree off (jend ps sect off segs) J J' \<Longrightarrow> jclosed ps sect mx J' off segs"
proof (induction segs arbitrary: off)
  case (Cons rs segs)
  let ?h = "sect_up sect off"
  let ?n = "?h + sect + length rs * (ps + 8)"
  have h: "off \<le> ?h" "?n \<le> jend ps sect ?n segs" using Cons.prems(2) sect_up_ge jend_ge by simp_all
  have ag: "agree off (jend ps sect ?n segs) J J'" using Cons.prems(3) by simp
  have "agree ?h (?h + 20) J J'" "agree (?h + sect) ?n J J'" "agree ?n (jend ps sect ?n segs) J J'"
    using h Cons.prems(2) by (auto intro!: agree_sub [OF ag])
  moreover have "get4 J' (?h + 12) = get4 J (?h + 12)" using h Cons.prems(2) by (intro agree_get4 [OF ag]) auto
  ultimately show ?case using Cons.prems(1,2) Cons.IH [of ?n] jhead_agree [of ps mx J ?h rs J'] jrecs_agree [of ps J "?h + sect" "get4 J (?h + 12)" rs J']
    by (simp add: Let_def)
qed simp

lemma jclosed_shape:
  assumes "jclosed ps sect mx J off segs" "jshape ps sect mx J (jend ps sect off segs) []" "jend ps sect off segs \<le> length J" "0 < sect"
  shows "jshape ps sect mx J off segs"
  using assms
proof (induction segs arbitrary: off)
  case (Cons rs segs)
  let ?h = "sect_up sect off"
  have w: "unat (word_of_nat (length rs) :: u32) = length rs" "word_of_nat (length rs) \<noteq> (0xffffffff :: u32)"
    if "length rs < 2 ^ 32 - 1"
  proof -
    show u: "unat (word_of_nat (length rs) :: u32) = length rs" using that by (simp add: unat_of_nat)
    show "word_of_nat (length rs) \<noteq> (0xffffffff :: u32)"
    proof
      assume "word_of_nat (length rs) = (0xffffffff :: u32)"
      then have "length rs = unat (0xffffffff :: u32)" using u by simp
      then show False using that by simp
    qed
  qed
  have "?h + sect \<le> length J" using Cons.prems(3,4) jend_ge [of sect "?h + sect + length rs * (ps + 8)" ps segs] by simp
  then show ?case using Cons w by (simp add: Let_def jhead_def del: jshape.simps(1))
qed simp

subsection \<open>The state of the writer\<close>

text \<open>\<open>jopen\<close>: complete segments, then the header of the current one, its number of records not yet filled in, and its records. \<open>jwriter\<close>: the
  settings of a pager that syncs its journal.\<close>

definition jwriter :: "nat \<Rightarrow> nat \<Rightarrow> nat \<Rightarrow> jpager \<Rightarrow> bool" where
  "jwriter ps sect mx P \<longleftrightarrow> journal_sizes ps sect \<and> j_pageSize P = ps \<and> j_sectorSize P = sect \<and> j_dbOrigSize P = mx \<and> mx < 2 ^ 32 - 1 \<and> \<not> j_noSync P"

definition jopen :: "nat \<Rightarrow> nat \<Rightarrow> nat \<Rightarrow> jpager \<Rightarrow> byte list \<Rightarrow> (nat \<times> byte list) list list \<Rightarrow> (nat \<times> byte list) list \<Rightarrow> bool" where
  "jopen ps sect mx P J segs rs \<longleftrightarrow>
     (let h = j_journalHdr P
      in h = sect_up sect (jend ps sect 0 segs) \<and> j_journalOff P = h + sect + length rs * (ps + 8) \<and> j_journalOff P \<le> length J
         \<and> jclosed ps sect mx J 0 segs \<and> get4 J (h + 12) = j_cksumInit P \<and> unat (get4 J (h + 16)) = mx
         \<and> get4 J 20 = word_of_nat sect \<and> get4 J 24 = word_of_nat ps
         \<and> jrecs ps J (h + sect) (j_cksumInit P) rs \<and> j_nRec P = word_of_nat (length rs))"

lemma write_sector_ok:
  assumes "write_sector wr z n off J = (0, off', J')" "z \<noteq> []" "e \<le> off" "e \<le> length J"
  shows "off' = off + n * length z \<and> agree 0 e J J' \<and> off' \<le> max (length J') off \<and> (0 < n \<longrightarrow> buf_read off (length z) J' = z)"
  using assms
proof (induction n arbitrary: off J e)
  case 0
  then show ?case by (auto simp: agree_def)
next
  case (Suc n)
  let ?J = "file_write off z J"
  have w: "write_sector wr z n (off + length z) ?J = (0, off', J')" using Suc.prems(1) by (auto split: if_splits)
  have l: "off + length z \<le> length ?J" using Suc.prems(2) fw_length [of z off J] by simp
  have r: "off' = off + length z + n * length z" "agree 0 (off + length z) ?J J'" "off' \<le> max (length J') (off + length z)"
    using Suc.IH [OF w Suc.prems(2) le_refl l] by auto
  have "agree 0 e J ?J" using Suc.prems(3,4) by (intro agree_write) auto
  moreover have "agree 0 e ?J J'" using Suc.prems(3) by (intro agree_sub [OF r(2)]) auto
  moreover have "buf_read off (length z) J' = z" using agree_read [OF r(2), of off "length z"] fw_same [of off z J] by simp
  moreover have "off' \<le> length J'" using r(2,3) by (auto simp: agree_def)
  ultimately show ?case using r(1) by (auto intro: agree_trans)
qed

lemma journal_header_fields:
  fixes xs :: "byte list"
  assumes "P = Q\<lparr>j_cksumInit := rnd\<rparr>" "\<not> j_noSync P"
  defines "z \<equiv> journal_header False rnd P @ xs"
  shows "get4 z 12 = rnd" "get4 z 16 = word_of_nat (j_dbOrigSize P)" "get4 z 20 = word_of_nat (j_sectorSize P)" "get4 z 24 = word_of_nat (j_pageSize P)"
    "length (journal_header False rnd P) = 28"
proof -
  have j: "journal_header False rnd P = replicate 12 0 @ sqlite3Put4byte rnd @ sqlite3Put4byte (word_of_nat (j_dbOrigSize P))
      @ sqlite3Put4byte (word_of_nat (j_sectorSize P)) @ sqlite3Put4byte (word_of_nat (j_pageSize P))"
    using assms(2) by (simp add: journal_header_def)
  show "length (journal_header False rnd P) = 28" by (simp add: j)
  show "get4 z 12 = rnd" unfolding z_def j using get4_put4 [of "replicate 12 0" 12 rnd] by simp
  show "get4 z 16 = word_of_nat (j_dbOrigSize P)" unfolding z_def j
    using get4_put4 [of "replicate 12 0 @ sqlite3Put4byte rnd" 16 "word_of_nat (j_dbOrigSize P)"] by simp
  show "get4 z 20 = word_of_nat (j_sectorSize P)" unfolding z_def j
    using get4_put4 [of "replicate 12 0 @ sqlite3Put4byte rnd @ sqlite3Put4byte (word_of_nat (j_dbOrigSize P))" 20 "word_of_nat (j_sectorSize P)"] by simp
  show "get4 z 24 = word_of_nat (j_pageSize P)" unfolding z_def j
    using get4_put4 [of "replicate 12 0 @ sqlite3Put4byte rnd @ sqlite3Put4byte (word_of_nat (j_dbOrigSize P))
      @ sqlite3Put4byte (word_of_nat (j_sectorSize P))" 24 "word_of_nat (j_pageSize P)" xs] by simp
qed

text \<open>A new header opens a segment.\<close>

lemma header_opens:
  assumes w: "jwriter ps sect mx P" and c: "jclosed ps sect mx J 0 segs" "j_journalOff P = jend ps sect 0 segs" "j_journalOff P \<le> length J"
    and z: "segs \<noteq> [] \<Longrightarrow> get4 J 20 = word_of_nat sect \<and> get4 J 24 = word_of_nat ps"
    and r: "writeJournalHdr wr False rnd (P\<lparr>j_nRec := 0\<rparr>) J = (0, P', J')"
  shows "jwriter ps sect mx P' \<and> jopen ps sect mx P' J' segs []"
proof -
  let ?off = "sect_up sect (j_journalOff P)"
  define P1 where "P1 = P\<lparr>j_nRec := 0, j_journalHdr := ?off, j_journalOff := ?off, j_cksumInit := rnd\<rparr>"
  define h where "h = journal_header False rnd P1"
  define n where "n = min ps sect"
  define z where "z = h @ replicate (n - length h) 0"
  have s: "journal_sizes ps sect" "j_pageSize P = ps" "j_sectorSize P = sect" "j_dbOrigSize P = mx" "mx < 2 ^ 32 - 1" "\<not> j_noSync P" using w by (auto simp: jwriter_def)
  have sz: "512 \<le> ps" "32 \<le> sect" "n dvd sect" "32 \<le> n" using journal_sizes_bounds [OF s(1)] journal_sizes_dvd [OF s(1)] by (auto simp: n_def)
  have P1: "P1 = P\<lparr>j_nRec := 0, j_journalHdr := ?off, j_journalOff := ?off\<rparr>\<lparr>j_cksumInit := rnd\<rparr>" "\<not> j_noSync P1" and sP1: "j_sectorSize P1 = sect"
    using s by (simp_all add: P1_def)
  note f = journal_header_fields [OF P1, folded h_def]
  have zl: "length z = n" "z \<noteq> []" using f(5) sz(4) by (auto simp: z_def)
  obtain q where q: "sect = n * q" using sz(3) by (elim dvdE)
  have nw: "(sect + n - 1) div n = q" "0 < q"
  proof -
    have "(n * q + (n - 1)) div n = q" using sz(4) by (subst div_mult_self4) auto
    then show "(sect + n - 1) div n = q" using q sz(4) by simp
    show "0 < q" using q sz(2) by (cases q) auto
  qed
  obtain off' where ws: "write_sector wr z q ?off J = (0, off', J')" "P' = P1\<lparr>j_journalOff := off'\<rparr>"
  proof -
    have "write_sector wr z ((sect + n - 1) div n) ?off J = (0, fst (snd (write_sector wr z q ?off J)), J') \<and> P' = P1\<lparr>j_journalOff := fst (snd (write_sector wr z q ?off J))\<rparr>"
      using r nw(1) unfolding writeJournalHdr_def Let_def sect_up_eq
      by (auto simp: s sP1 n_def [symmetric] P1_def [symmetric] h_def [symmetric] z_def [symmetric] split: prod.splits)
    then show ?thesis using that unfolding nw(1) by blast
  qed
  have e: "j_journalOff P \<le> ?off" using sect_up_ge sz(2) by simp
  have res: "off' = ?off + sect" "agree 0 (j_journalOff P) J J'" "buf_read ?off n J' = z" "off' \<le> length J'"
    using write_sector_ok [OF ws(1) zl(2) e c(3)] nw(2) q zl(1) sz(2) by (auto simp: mult.commute)
  have g: "get4 J' (?off + k) = get4 z k" if "k + 4 \<le> n" for k
    using get4_buf_read [of k n ?off J'] that res by (simp add: n_def)
  have gz: "get4 J' (?off + 12) = rnd" "get4 J' (?off + 16) = word_of_nat mx" "get4 J' (?off + 20) = word_of_nat sect" "get4 J' (?off + 24) = word_of_nat ps"
    using g [of 12] g [of 16] g [of 20] g [of 24] f(1-4) [of "replicate (n - length h) 0"] sz(4) s by (simp_all add: z_def P1_def)
  have cl: "jclosed ps sect mx J' 0 segs" using jclosed_agree [OF c(1) sz(2)] res(2) c(2) by simp
  have first: "get4 J' 20 = word_of_nat sect \<and> get4 J' 24 = word_of_nat ps"
  proof (cases segs)
    case Nil
    then have "?off = 0" using c(2) by (simp add: sect_up_def)
    then show ?thesis using gz by simp
  next
    case (Cons rs ss)
    then have "32 \<le> j_journalOff P" using c(2) sz(2) jend_ge [of sect "sect_up sect 0 + sect + length rs * (ps + 8)" ps ss] by simp
    then show ?thesis using z Cons agree_get4 [OF res(2)] by simp
  qed
  have "jwriter ps sect mx P'" using w by (simp add: ws(2) P1_def jwriter_def)
  moreover have "unat (word_of_nat mx :: u32) = mx" using s(5) by (simp add: unat_of_nat)
  then have "jopen ps sect mx P' J' segs []"
    using res(1,4) cl gz first c(2) by (simp add: jopen_def Let_def ws(2) P1_def)
  ultimately show ?thesis by blast
qed

text \<open>A page is added to the open segment.\<close>

lemma add_page_ok:
  assumes "pagerAddPageToRollbackJournal wr bv P J pg (Some d) = (0, P', J')" "length d = j_pageSize P" "j_journalOff P \<le> length J" "pg < 2 ^ 32"
  shows "P' = P\<lparr>j_journalOff := j_journalOff P + 8 + j_pageSize P, j_nRec := j_nRec P + 1\<rparr> \<and> agree 0 (j_journalOff P) J J'
    \<and> jrecs (j_pageSize P) J' (j_journalOff P) (j_cksumInit P) [(pg, d)]"
proof -
  let ?o = "j_journalOff P" and ?p = "j_pageSize P"
  define J1 where "J1 = file_write ?o (sqlite3Put4byte (word_of_nat pg)) J"
  define J2 where "J2 = file_write (?o + 4) d J1"
  have J': "J' = file_write (?o + ?p + 4) (sqlite3Put4byte (pager_cksum P d)) J2"
    and P': "P' = P\<lparr>j_journalOff := ?o + 8 + ?p, j_nRec := j_nRec P + 1\<rparr>"
    using assms(1) by (auto simp: pagerAddPageToRollbackJournal_def Let_def J1_def J2_def split: if_splits)
  have put: "sqlite3Put4byte v \<noteq> []" for v using length_put4 [of v] by fastforce
  have l1: "?o + 4 \<le> length J1" using fw_length [OF put, of ?o "word_of_nat pg" J] by (simp add: J1_def)
  have l2: "?o + 4 + ?p \<le> length J2" using l1 fw_length_ge [of J1 "?o + 4" d] fw_length [of d "?o + 4" J1] assms(2) by (cases "d = []") (auto simp: J2_def)
  have l3: "?o + ?p + 8 \<le> length J'" using fw_length [OF put, of "?o + ?p + 4" "pager_cksum P d" J2] by (simp add: J')
  have a: "agree 0 ?o J J1" "agree 0 (?o + 4) J1 J2" "agree 0 (?o + 4 + ?p) J2 J'"
    using assms(3) l1 l2 by (auto simp: J1_def J2_def J' intro!: agree_write)
  have ag: "agree 0 ?o J J'" by (rule agree_trans [OF a(1)], rule agree_trans) (rule agree_sub [OF a(2)], simp_all, rule agree_sub [OF a(3)], simp_all)
  have b1: "buf_read ?o 4 J1 = sqlite3Put4byte (word_of_nat pg)" using fw_same [of ?o "sqlite3Put4byte (word_of_nat pg)" J] by (simp add: J1_def)
  have b2: "buf_read (?o + 4) ?p J2 = d" using fw_same [of "?o + 4" d J1] assms(2) by (simp add: J2_def)
  have b3: "buf_read (?o + ?p + 4) 4 J' = sqlite3Put4byte (pager_cksum P d)"
    using fw_same [of "?o + ?p + 4" "sqlite3Put4byte (pager_cksum P d)" J2] by (simp add: J')
  have "buf_read ?o 4 J' = sqlite3Put4byte (word_of_nat pg)"
    using b1 agree_read [OF a(2), of ?o 4] agree_read [OF a(3), of ?o 4] by simp
  then have "get4 J' ?o = word_of_nat pg" using l3 by (intro get4_read) auto
  moreover have "get4 J' (?o + ?p + 4) = pager_cksum P d" using b3 l3 by (intro get4_read) auto
  moreover have "buf_read (?o + 4) ?p J' = d" using b2 agree_read [OF a(3), of "?o + 4" ?p] by simp
  moreover have "unat (word_of_nat pg :: u32) = pg" using assms(4) by (simp add: unat_of_nat)
  ultimately show ?thesis using P' ag l3 by (simp add: pager_cksum_def)
qed

lemma add_page_opens:
  assumes w: "jwriter ps sect mx P" and o: "jopen ps sect mx P J segs rs" and d: "length d = ps" "1 \<le> pg" "pg \<le> mx"
    and r: "pagerAddPageToRollbackJournal wr bv P J pg (Some d) = (0, P', J')"
  shows "jwriter ps sect mx P' \<and> jopen ps sect mx P' J' segs (rs @ [(pg, d)])"
proof -
  let ?h = "j_journalHdr P"
  have s: "j_pageSize P = ps" "mx < 2 ^ 32 - 1" "32 \<le> sect" using w journal_sizes_bounds by (auto simp: jwriter_def)
  have op: "?h = sect_up sect (jend ps sect 0 segs)" "j_journalOff P = ?h + sect + length rs * (ps + 8)" "j_journalOff P \<le> length J"
      "jclosed ps sect mx J 0 segs" "get4 J (?h + 12) = j_cksumInit P" "unat (get4 J (?h + 16)) = mx" "get4 J 20 = word_of_nat sect" "get4 J 24 = word_of_nat ps"
      "jrecs ps J (?h + sect) (j_cksumInit P) rs" "j_nRec P = word_of_nat (length rs)"
    using o by (auto simp: jopen_def Let_def)
  have pg: "pg < 2 ^ 32" "length d = j_pageSize P" using s d by simp_all
  note a = add_page_ok [OF r pg(2) op(3) pg(1)]
  have P': "P' = P\<lparr>j_journalOff := j_journalOff P + 8 + ps, j_nRec := j_nRec P + 1\<rparr>" and ag: "agree 0 (j_journalOff P) J J'"
    and rec: "jrecs ps J' (?h + sect + length rs * (ps + 8)) (j_cksumInit P) [(pg, d)]" using a s op(2) by simp_all
  have "jend ps sect 0 segs \<le> j_journalOff P" using op(1,2) s(3) sect_up_ge [of sect "jend ps sect 0 segs"] by simp
  then have "jclosed ps sect mx J' 0 segs" by (intro jclosed_agree [OF op(4) s(3)] agree_sub [OF ag]) auto
  moreover have "jrecs ps J' (?h + sect) (j_cksumInit P) rs" using op(2) by (intro jrecs_agree [OF op(9)] agree_sub [OF ag]) auto
  then have "jrecs ps J' (?h + sect) (j_cksumInit P) (rs @ [(pg, d)])" using rec by (simp add: jrecs_snoc)
  moreover have "get4 J' k = get4 J k" if "k + 4 \<le> ?h + sect" for k using that op(2) by (intro agree_get4 [OF ag]) auto
  moreover have "j_journalOff P' \<le> length J'" using rec op(2) by (simp add: P')
  ultimately show ?thesis using op w s by (simp add: jopen_def Let_def P' jwriter_def)
qed

text \<open>\<open>syncJournal\<close> completes the segment, and nothing that was left in the file behind it is taken for a header.\<close>

lemma sync_content:
  assumes "syncJournal rd wr s1 s2 False devSeq rnd newHdr P J = (rc, P', J', Some Jd)" "\<forall>off. rd off \<noteq> SQLITE_IOERR_SHORT_READ \<and> wr off \<noteq> SQLITE_IOERR_SHORT_READ"
  shows "\<exists>J1. Jd = file_write (j_journalHdr P) (aJournalMagic @ sqlite3Put4byte (j_nRec P)) J1 \<and> (J1 = J \<or> J1 = file_write (journalHdrOffset P) [0] J)
    \<and> buf_read (journalHdrOffset P) 8 J1 \<noteq> aJournalMagic
    \<and> (rc = 0 \<and> newHdr \<longrightarrow> writeJournalHdr wr False rnd (P\<lparr>j_journalHdr := j_journalOff P\<rparr>\<lparr>j_nRec := 0\<rparr>) Jd = (0, P', J'))"
proof -
  let ?n = "journalHdrOffset P"
  define J1 where "J1 = (if rd ?n = 0 \<and> ?n + 8 \<le> length J \<and> buf_read ?n 8 J = aJournalMagic then file_write ?n [0] J else J)"
  have ml: "length aJournalMagic = 8" "aJournalMagic ! 0 \<noteq> 0" by (simp_all add: aJournalMagic_def)
  have z: "buf_read ?n 8 (file_write ?n [0] J) \<noteq> aJournalMagic"
  proof
    assume a: "buf_read ?n 8 (file_write ?n [0] J) = aJournalMagic"
    have "buf_read ?n 1 (file_write ?n [0] J) = [0]" using fw_same [of ?n "[0]" J] by simp
    then have "take 1 (buf_read ?n 8 (file_write ?n [0] J)) = [0]" by (simp add: buf_read_def)
    then show False using a ml(2) by (simp add: aJournalMagic_def)
  qed
  have sh: "buf_read ?n 8 J \<noteq> aJournalMagic" if "\<not> ?n + 8 \<le> length J"
  proof
    assume "buf_read ?n 8 J = aJournalMagic"
    then have "length (buf_read ?n 8 J) = 8" using ml by simp
    then show False using that by (simp add: buf_read_def)
  qed
  have ok: "rd ?n = 0 \<or> \<not> ?n + 8 \<le> length J"
    "Jd = file_write (j_journalHdr P) (aJournalMagic @ sqlite3Put4byte (j_nRec P)) J1"
    "rc = 0 \<and> newHdr \<longrightarrow> writeJournalHdr wr False rnd (P\<lparr>j_journalHdr := j_journalOff P\<rparr>\<lparr>j_nRec := 0\<rparr>) Jd = (0, P', J')"
    using assms by (auto simp: syncJournal_def Let_def os_read_def J1_def split: if_splits prod.splits)
  have "buf_read ?n 8 J1 \<noteq> aJournalMagic" using ok(1) z sh by (auto simp: J1_def)
  then show ?thesis using ok(2,3) by (auto simp: J1_def)
qed

lemma sync_durable:
  assumes w: "jwriter ps sect mx P" and o: "jopen ps sect mx P J segs rs" and n: "length rs < 2 ^ 32 - 1"
    and r: "syncJournal rd wr s1 s2 False devSeq rnd newHdr P J = (rc, P', J', Some Jd)" and rd: "\<forall>off. rd off \<noteq> SQLITE_IOERR_SHORT_READ \<and> wr off \<noteq> SQLITE_IOERR_SHORT_READ"
  shows "jclosed ps sect mx Jd 0 (segs @ [rs]) \<and> j_journalOff P = jend ps sect 0 (segs @ [rs]) \<and> j_journalOff P \<le> length Jd
    \<and> get4 Jd 20 = word_of_nat sect \<and> get4 Jd 24 = word_of_nat ps \<and> jshape ps sect mx Jd (j_journalOff P) []
    \<and> (rc = 0 \<and> newHdr \<longrightarrow> jwriter ps sect mx P' \<and> jopen ps sect mx P' J' (segs @ [rs]) [])"
proof -
  let ?h = "j_journalHdr P" and ?o = "j_journalOff P" and ?n = "journalHdrOffset P"
  have s: "32 \<le> sect" "j_sectorSize P = sect" using w journal_sizes_bounds by (auto simp: jwriter_def)
  have op: "?h = sect_up sect (jend ps sect 0 segs)" "?o = ?h + sect + length rs * (ps + 8)" "?o \<le> length J"
      "jclosed ps sect mx J 0 segs" "get4 J (?h + 12) = j_cksumInit P" "unat (get4 J (?h + 16)) = mx" "get4 J 20 = word_of_nat sect" "get4 J 24 = word_of_nat ps"
      "jrecs ps J (?h + sect) (j_cksumInit P) rs" "j_nRec P = word_of_nat (length rs)"
    using o by (auto simp: jopen_def Let_def)
  obtain J1 where J1: "Jd = file_write ?h (aJournalMagic @ sqlite3Put4byte (j_nRec P)) J1" "J1 = J \<or> J1 = file_write ?n [0] J"
      "buf_read ?n 8 J1 \<noteq> aJournalMagic"
      "rc = 0 \<and> newHdr \<longrightarrow> writeJournalHdr wr False rnd (P\<lparr>j_journalHdr := ?o\<rparr>\<lparr>j_nRec := 0\<rparr>) Jd = (0, P', J')"
    using sync_content [OF r rd] by blast
  have on: "?o \<le> ?n" using sect_up_ge [of sect ?o] s by (simp add: sect_up_eq)
  have a1: "agree 0 ?o J J1" using J1(2) agree_refl [OF op(3), of 0] agree_write [OF op(3), of ?n "[0]" 0] on by auto
  have ml: "length (aJournalMagic @ sqlite3Put4byte (j_nRec P)) = 12" "length aJournalMagic = 8" by (simp_all add: aJournalMagic_def)
  have l1: "?o \<le> length J1" using a1 by (simp add: agree_def)
  have a2: "agree 0 ?h J Jd" "agree (?h + 12) ?o J Jd"
    by (rule agree_trans [OF agree_sub [OF a1]]; use l1 op(2) s(1) ml in \<open>auto simp: J1(1) intro!: agree_write\<close>)+
  have hd: "buf_read ?h 12 Jd = aJournalMagic @ sqlite3Put4byte (j_nRec P)"
    using fw_same [of ?h "aJournalMagic @ sqlite3Put4byte (j_nRec P)" J1] by (simp add: J1(1) ml del: append_assoc)
  have ld: "?o \<le> length Jd" using l1 fw_length_ge [of J1 ?h] by (simp add: J1(1)) (meson le_trans)
  have mg: "buf_read ?h 8 Jd = aJournalMagic" "get4 Jd (?h + 8) = j_nRec P"
  proof -
    have "buf_read ?h 8 Jd = take 8 (buf_read ?h 12 Jd)" by (simp add: buf_read_def)
    then show "buf_read ?h 8 Jd = aJournalMagic" using hd ml by simp
    have "get4 Jd (?h + 8) = get4 (buf_read ?h 12 Jd) 8" using get4_buf_read [of 8 12 ?h Jd] ld op(2) s(1) by simp
    then show "get4 Jd (?h + 8) = j_nRec P" using hd get4_put4 [of aJournalMagic 8 "j_nRec P" "[]"] ml by simp
  qed
  have g: "get4 Jd (?h + 12) = j_cksumInit P" "unat (get4 Jd (?h + 16)) = mx"
    using agree_get4 [OF a2(2)] op(2,5,6) s(1) by simp_all
  have e: "jend ps sect 0 segs \<le> ?h" using op(1) sect_up_ge s(1) by simp
  have "jclosed ps sect mx Jd 0 segs" using e by (intro jclosed_agree [OF op(4) s(1)] agree_sub [OF a2(1)]) auto
  moreover have "jrecs ps Jd (?h + sect) (j_cksumInit P) rs" using op(2) s(1) by (intro jrecs_agree [OF op(9)] agree_sub [OF a2(2)]) auto
  ultimately have cl: "jclosed ps sect mx Jd 0 (segs @ [rs])" using mg g op(1,10) n by (simp add: jclosed_snoc jhead_def)
  have je: "?o = jend ps sect 0 (segs @ [rs])" using op(1,2) by (simp add: jend_snoc)
  have fs: "get4 Jd 20 = word_of_nat sect \<and> get4 Jd 24 = word_of_nat ps"
  proof (cases "?h = 0")
    case True
    then show ?thesis using agree_get4 [OF a2(2)] op(2,7,8) s(1) by simp
  next
    case False
    then have "32 \<le> ?h" using op(1) s(1) by (auto simp: sect_up_def split: if_splits)
    then show ?thesis using agree_get4 [OF a2(1)] op(7,8) by simp
  qed
  have "buf_read ?n 8 Jd = buf_read ?n 8 J1" unfolding J1(1) using on op(2) s(1) ml by (intro fw_after) simp
  then have fin: "jshape ps sect mx Jd ?o []" using J1(3) s(2) by (simp add: sect_up_eq)
  have nx: "jwriter ps sect mx P' \<and> jopen ps sect mx P' J' (segs @ [rs]) []" if "rc = 0 \<and> newHdr"
    using J1(4) that w cl je ld fs by (intro header_opens [where P = "P\<lparr>j_journalHdr := ?o\<rparr>" and J = Jd]) (auto simp: jwriter_def)
  show ?thesis using cl je ld fs fin nx by blast
qed

subsection \<open>A transaction\<close>

text \<open>The states of the journal during a transaction: opened on any old content, pages added, each once, and synced with a new header. The calls
  succeed; \<open>segs\<close> and \<open>rs\<close> are the records of the synced segments and of the current one.\<close>

inductive jrun :: "nat \<Rightarrow> nat \<Rightarrow> nat \<Rightarrow> jpager \<Rightarrow> byte list \<Rightarrow> (nat \<times> byte list) list list \<Rightarrow> (nat \<times> byte list) list \<Rightarrow> bool"
  for ps sect mx :: nat where
  jrun_begin: "jwriter ps sect mx P \<Longrightarrow> j_journalOff P = 0 \<Longrightarrow> writeJournalHdr wr False rnd (P\<lparr>j_nRec := 0\<rparr>) J = (0, P', J') \<Longrightarrow> jrun ps sect mx P' J' [] []"
| jrun_add: "jrun ps sect mx P J segs rs \<Longrightarrow> length d = ps \<Longrightarrow> pg \<in> {1..mx} \<Longrightarrow> pg \<notin> fst ` set (concat segs @ rs)
     \<Longrightarrow> pagerAddPageToRollbackJournal wr bv P J pg (Some d) = (0, P', J') \<Longrightarrow> jrun ps sect mx P' J' segs (rs @ [(pg, d)])"
| jrun_sync: "jrun ps sect mx P J segs rs \<Longrightarrow> \<forall>off. rd off \<noteq> SQLITE_IOERR_SHORT_READ \<and> wr off \<noteq> SQLITE_IOERR_SHORT_READ
     \<Longrightarrow> syncJournal rd wr s1 s2 False devSeq rnd True P J = (0, P', J', Some Jd) \<Longrightarrow> jrun ps sect mx P' J' (segs @ [rs]) []"

definition jonce :: "nat \<Rightarrow> nat \<Rightarrow> (nat \<times> byte list) list list \<Rightarrow> (nat \<times> byte list) list \<Rightarrow> bool" where
  "jonce ps mx segs rs \<longleftrightarrow> distinct (map fst (concat segs @ rs)) \<and> fst ` set (concat segs @ rs) \<subseteq> {1..mx} \<and> (\<forall>(pg, d)\<in>set (concat segs @ rs). length d = ps)"

lemma jonce_length: "jonce ps mx segs rs \<Longrightarrow> length rs \<le> mx"
proof -
  assume "jonce ps mx segs rs"
  then have "distinct (map fst rs)" "fst ` set rs \<subseteq> {1..mx}" by (auto simp: jonce_def)
  then have "card (fst ` set rs) = length rs" "card (fst ` set rs) \<le> card {1..mx}"
    using distinct_card [of "map fst rs"] card_mono [of "{1..mx}" "fst ` set rs"] by simp_all
  then show ?thesis by simp
qed

lemma jrun_inv: "jrun ps sect mx P J segs rs \<Longrightarrow> jwriter ps sect mx P \<and> jopen ps sect mx P J segs rs \<and> jonce ps mx segs rs"
proof (induction rule: jrun.induct)
  case (jrun_begin P wr rnd J P' J')
  have "jwriter ps sect mx P' \<and> jopen ps sect mx P' J' [] []"
    using jrun_begin by (intro header_opens [where P = P and J = J]) auto
  then show ?case by (simp add: jonce_def)
next
  case (jrun_add P J segs rs d pg wr bv P' J')
  have "jwriter ps sect mx P' \<and> jopen ps sect mx P' J' segs (rs @ [(pg, d)])"
    using jrun_add by (intro add_page_opens [where P = P and J = J]) auto
  moreover have "jonce ps mx segs (rs @ [(pg, d)])" using jrun_add by (auto simp: jonce_def)
  ultimately show ?case by blast
next
  case (jrun_sync P J segs rs rd wr s1 s2 devSeq rnd P' J' Jd)
  have "length rs < 2 ^ 32 - 1" using jonce_length [of ps mx segs rs] jrun_sync.IH by (auto simp: jwriter_def)
  then have "jwriter ps sect mx P' \<and> jopen ps sect mx P' J' (segs @ [rs]) []"
    using sync_durable [of ps sect mx P J segs rs rd wr s1 s2 devSeq rnd True 0 P' J' Jd] jrun_sync by blast
  then show ?case using jrun_sync.IH by (simp add: jonce_def)
qed

text \<open>The journal that a crash leaves: synced up to \<open>e\<close>, and no header after that.\<close>

definition crash_journal :: "nat \<Rightarrow> nat \<Rightarrow> byte list \<Rightarrow> byte list \<Rightarrow> bool" where
  "crash_journal sect e Jd Jc \<longleftrightarrow> agree 0 e Jd Jc \<and> (length Jc < sect_up sect e + sect \<or> buf_read (sect_up sect e) 8 Jc \<noteq> aJournalMagic)"

definition hot_pager :: "jpager \<Rightarrow> byte list \<Rightarrow> bool" where
  "hot_pager Q J \<longleftrightarrow> j_sectorSize Q \<le> length J \<and> j_lckPgno Q = 0x40000000 div j_pageSize Q + 1 \<and> length J \<le> j_journalHdr Q"

lemma synced_hot:
  assumes run: "jrun ps sect mx P J segs rs" and rd: "\<forall>off. rd off \<noteq> SQLITE_IOERR_SHORT_READ \<and> wr off \<noteq> SQLITE_IOERR_SHORT_READ"
    and sync: "syncJournal rd wr s1 s2 False devSeq rnd newHdr P J = (rc, P', J', Some Jd)" and Jc: "Jc = Jd \<or> crash_journal sect (j_journalOff P) Jd Jc"
    and Q: "hot_pager Q Jc"
  shows "hot_journal ps sect mx Jc (segs @ [rs]) Q"
proof -
  have inv: "jwriter ps sect mx P" "jopen ps sect mx P J segs rs" "jonce ps mx segs rs" using jrun_inv [OF run] by auto
  have s: "journal_sizes ps sect" "32 \<le> sect" using inv(1) journal_sizes_bounds by (auto simp: jwriter_def)
  have "length rs < 2 ^ 32 - 1" using jonce_length [OF inv(3)] inv(1) by (auto simp: jwriter_def)
  note d = sync_durable [OF inv(1,2) this sync rd]
  let ?e = "j_journalOff P"
  have e: "?e = jend ps sect 0 (segs @ [rs])" "?e \<le> length Jd" using d by auto
  have ag: "agree 0 ?e Jd Jc" and fin: "jshape ps sect mx Jc ?e []"
    using Jc d agree_refl [OF e(2), of 0] by (auto simp: crash_journal_def)
  have "jclosed ps sect mx Jd 0 (segs @ [rs])" "agree 0 (jend ps sect 0 (segs @ [rs])) Jd Jc" using d ag by (simp_all add: e(1) [symmetric])
  then have cl: "jclosed ps sect mx Jc 0 (segs @ [rs])" using s(2) by (intro jclosed_agree [where J = Jd and J' = Jc])
  have "?e \<le> length Jc" using ag by (simp add: agree_def)
  then have sh: "jshape ps sect mx Jc 0 (segs @ [rs])" 
    using jclosed_shape [OF cl] fin s(2) unfolding e(1) [symmetric] by fastforce
  have "32 \<le> ?e" using e(1) s(2) by (simp add: jend_snoc)
  then have "get4 Jc 20 = word_of_nat sect" "get4 Jc 24 = word_of_nat ps" using agree_get4 [OF ag, of 20] agree_get4 [OF ag, of 24] d by simp_all
  then show ?thesis using sh Q header_sizes_ok [OF s(1), of Q] by (auto simp: hot_journal_def hot_pager_def)
qed

subsection \<open>Rollbacks that fail\<close>

text \<open>What the users of a rollback rely on: with the log of undone work at hand, a run ends, and then either the log is as it was and the data can still be
  restored, or the log is ended and the data are the original ones; a run without faults is of the second kind.\<close>

fun attempts :: "('e \<Rightarrow> 'p \<Rightarrow> 'j \<Rightarrow> 'd \<Rightarrow> (int \<times> 'p \<times> 'j \<times> 'd) option) \<Rightarrow> 'j \<Rightarrow> ('e \<times> 'p) list \<Rightarrow> 'j \<Rightarrow> 'd \<Rightarrow> ('j \<times> 'd) option" where
  "attempts run fin [] j d = Some (j, d)"
| "attempts run fin ((e, p) # xs) j d = (if j = fin then Some (j, d) else do { (rc, p', j', d') \<leftarrow> run e p j d; attempts run fin xs j' d' })"

lemma attempts_ended: "attempts run fin xs fin d = Some (fin, d)"
  by (cases xs) auto

locale undo_log =
  fixes run :: "'e \<Rightarrow> 'p \<Rightarrow> 'j \<Rightarrow> 'd \<Rightarrow> (int \<times> 'p \<times> 'j \<times> 'd) option"
    and faulty clean :: "'e \<Rightarrow> bool"
    and hot :: "'p \<Rightarrow> 'j \<Rightarrow> bool"
    and rest :: "'d \<Rightarrow> bool"
    and fin :: 'j
    and orig :: 'd
  assumes outcome: "hot p j \<Longrightarrow> faulty e \<Longrightarrow> rest d \<Longrightarrow> \<exists>rc p' j' d'. run e p j d = Some (rc, p', j', d')
      \<and> (j' = j \<and> rest d' \<or> j' = fin \<and> d' = orig) \<and> (clean e \<longrightarrow> j' = fin)"
    and clean_faulty: "clean e \<Longrightarrow> faulty e"
    and hot_not_fin: "hot p j \<Longrightarrow> j \<noteq> fin"
begin

lemma attempt_clean: "hot p j \<Longrightarrow> clean e \<Longrightarrow> rest d \<Longrightarrow> \<exists>rc p'. run e p j d = Some (rc, p', fin, orig)"
  using outcome [of p j e d] clean_faulty [of e] hot_not_fin [of p j] by blast

lemma attempts_restore:
  assumes "\<forall>(e, p)\<in>set xs. faulty e \<and> hot p j" "clean e" "hot p j" "rest d"
  shows "attempts run fin (xs @ [(e, p)]) j d = Some (fin, orig)"
  using assms(1,4)
proof (induction xs arbitrary: d)
  case Nil
  then show ?case using attempt_clean [OF assms(3,2)] hot_not_fin [OF assms(3)] by fastforce
next
  case (Cons x xs)
  obtain e1 p1 where x: "x = (e1, p1)" by (cases x)
  have h: "hot p1 j" "faulty e1" using Cons.prems(1) by (auto simp: x)
  obtain rc p' j' d' where r: "run e1 p1 j d = Some (rc, p', j', d')" "j' = j \<and> rest d' \<or> j' = fin \<and> d' = orig"
    using outcome [OF h Cons.prems(2)] by blast
  then show ?case using Cons hot_not_fin [OF h(1)] by (auto simp: x attempts_ended)
qed

end

text \<open>The rollback keeps this contract.\<close>

lemma hot_not_empty: "hot_journal ps sect mx J segs P \<Longrightarrow> J \<noteq> []"
proof -
  assume h: "hot_journal ps sect mx J segs P"
  then have "segs \<noteq> []" "jshape ps sect mx J 0 segs" "32 \<le> sect" using header_sizes_bounds by (auto simp: hot_journal_def)
  then show ?thesis by (cases segs) (auto simp: Let_def sect_up_def)
qed

lemma clean_faults: "pb_clean E \<Longrightarrow> pb_faults E"
  by (simp add: pb_clean_def pb_faults_def)

interpretation pb: undo_log "\<lambda>E P. pager_playback E mxp P" pb_faults pb_clean "\<lambda>P J. hot_journal ps sect mx J segs P" "restorable ps mx orig segs" "[]" orig
  for mxp ps sect mx segs orig
proof
  fix P J E db
  assume a: "hot_journal ps sect mx J segs P" "pb_faults E" "restorable ps mx orig segs db"
  obtain rc P' J' db' where r: "pager_playback E mxp P J db = Some (rc, P', J', db')" "rc = 0 \<longrightarrow> J' = [] \<and> db' = orig"
      "J' = J \<and> intact ps mx orig (fst ` set (concat segs)) db' \<or> J' = [] \<and> db' = orig" "pb_clean E \<longrightarrow> rc = 0"
    using playback_restores [OF a, of mxp] by blast
  moreover have "intact ps mx orig (fst ` set (concat segs)) db' \<Longrightarrow> restorable ps mx orig segs db'" using a(3) by (simp add: restorable_def)
  ultimately show "\<exists>rc P' J' db'. pager_playback E mxp P J db = Some (rc, P', J', db')
      \<and> (J' = J \<and> restorable ps mx orig segs db' \<or> J' = [] \<and> db' = orig) \<and> (pb_clean E \<longrightarrow> J' = [])" by blast
qed (use hot_not_empty clean_faults in blast)+

text \<open>The file that a journal and a damaged database describe: recorded pages from the journal, the others from the file.\<close>

definition journal_image :: "nat \<Rightarrow> nat \<Rightarrow> (nat \<times> byte list) list \<Rightarrow> byte list \<Rightarrow> byte list" where
  "journal_image ps mx rs db = concat (map (\<lambda>pg. case map_of rs pg of Some d \<Rightarrow> d | None \<Rightarrow> page_at ps db pg) [1..<Suc mx])"

definition image_ok :: "nat \<Rightarrow> nat \<Rightarrow> (nat \<times> byte list) list \<Rightarrow> byte list \<Rightarrow> bool" where
  "image_ok ps mx rs db \<longleftrightarrow> (\<forall>(pg, d)\<in>set rs. length d = ps) \<and> (\<forall>pg\<in>{1..mx}. pg \<notin> fst ` set rs \<longrightarrow> pg * ps \<le> length db)"

lemma image_pages:
  assumes "image_ok ps mx rs db" "pg \<in> {1..mx}"
  shows "length (case map_of rs pg of Some d \<Rightarrow> d | None \<Rightarrow> page_at ps db pg) = ps"
proof (cases "map_of rs pg")
  case None
  then have "pg * ps \<le> length db" using assms by (auto simp: image_ok_def map_of_eq_None_iff)
  then show ?thesis using None assms(2) page_seg [of pg ps] by (simp add: page_at_def)
next
  case (Some d)
  then show ?thesis using assms(1) map_of_SomeD [OF Some] by (auto simp: image_ok_def)
qed

lemma image_page:
  assumes "image_ok ps mx rs db" "pg \<in> {1..mx}"
  shows "page_at ps (journal_image ps mx rs db) pg = (case map_of rs pg of Some d \<Rightarrow> d | None \<Rightarrow> page_at ps db pg)"
proof -
  let ?f = "\<lambda>pg. case map_of rs pg of Some d \<Rightarrow> d | None \<Rightarrow> page_at ps db pg"
  have "\<forall>x\<in>set (map ?f [1..<Suc mx]). length x = ps" using image_pages [OF assms(1)] by (auto simp del: upt_Suc)
  then have "buf_read ((pg - 1) * ps) ps (concat (map ?f [1..<Suc mx])) = map ?f [1..<Suc mx] ! (pg - 1)"
    using assms(2) by (intro concat_chunk) (auto simp del: upt_Suc)
  also have "\<dots> = ?f ([1..<Suc mx] ! (pg - 1))" using assms(2) by (intro nth_map) (simp del: upt_Suc, linarith)
  also have "[1..<Suc mx] ! (pg - 1) = pg" using assms(2) by (subst nth_upt) auto
  finally show ?thesis by (simp only: page_at_def journal_image_def)
qed

lemma image_length:
  assumes "image_ok ps mx rs db"
  shows "length (journal_image ps mx rs db) = mx * ps"
proof -
  have "\<forall>x\<in>set (map (\<lambda>pg. case map_of rs pg of Some d \<Rightarrow> d | None \<Rightarrow> page_at ps db pg) [1..<Suc mx]). length x = ps"
    using image_pages [OF assms] by (auto simp del: upt_Suc)
  from concat_chunks_length [OF this] show ?thesis unfolding journal_image_def by simp
qed

lemma image_restorable:
  assumes "image_ok ps mx (concat segs) db" "distinct (map fst (concat segs))" "fst ` set (concat segs) \<subseteq> {1..mx}" "\<forall>pg\<in>fst ` set (concat segs). pg \<noteq> 0x40000000 div ps + 1"
  shows "restorable ps mx (journal_image ps mx (concat segs) db) segs db"
proof -
  let ?rs = "concat segs"
  have "d = page_at ps (journal_image ps mx ?rs db) pg \<and> 1 \<le> pg \<and> pg \<le> mx \<and> pg \<noteq> 0x40000000 div ps + 1" if m: "(pg, d) \<in> set ?rs" for pg d
  proof -
    have pg: "pg \<in> {1..mx}" "pg \<in> fst ` set ?rs" using m assms(3) by force+
    then have "page_at ps (journal_image ps mx ?rs db) pg = d" using image_page [OF assms(1) pg(1)] map_of_is_SomeI [OF assms(2) m] by simp
    then show ?thesis using pg assms(4) by auto
  qed
  then have "originals ps mx (journal_image ps mx ?rs db) ?rs" by (auto simp: originals_def)
  moreover have "intact ps mx (journal_image ps mx ?rs db) (fst ` set ?rs) db"
    unfolding intact_def
  proof (intro ballI impI)
    fix pg assume pg: "pg \<in> {1..mx}" "pg \<notin> fst ` set ?rs"
    then have "map_of ?rs pg = None" by (simp add: map_of_eq_None_iff)
    then show "pg * ps \<le> length db \<and> page_at ps db pg = page_at ps (journal_image ps mx ?rs db) pg"
      using assms(1) image_page [OF assms(1) pg(1)] pg unfolding image_ok_def by simp
  qed
  ultimately show ?thesis using image_length [OF assms(1)] by (simp add: restorable_def)
qed

lemma image_content:
  assumes "image_ok ps mx rs db" "\<forall>(pg, d)\<in>set rs. dec pg d = content pg"
    "\<forall>pg\<in>{1..mx}. pg \<notin> fst ` set rs \<longrightarrow> dec pg (page_at ps db pg) = content pg"
  shows "\<forall>pg\<in>{1..mx}. dec pg (page_at ps (journal_image ps mx rs db) pg) = content pg"
proof
  fix pg assume pg: "pg \<in> {1..mx}"
  show "dec pg (page_at ps (journal_image ps mx rs db) pg) = content pg"
  proof (cases "map_of rs pg")
    case None
    moreover have "pg \<notin> fst ` set rs" using None by (simp add: map_of_eq_None_iff)
    ultimately show ?thesis using assms(3) pg image_page [OF assms(1) pg] by simp
  next
    case (Some d)
    then show ?thesis using assms(2) image_page [OF assms(1) pg] map_of_SomeD [OF Some] by auto
  qed
qed

subsection \<open>The super-journal name\<close>

lemma fw_extend: "off = length k \<Longrightarrow> take off f = k \<Longrightarrow> take (off + length s) (file_write off s f) = k @ s"
proof -
  assume a: "off = length k" "take off f = k"
  then have "length (take off f) = off" by simp
  then have "off \<le> length f" by simp
  then show ?thesis using a by (cases "s = []") (simp_all add: file_write_def)
qed

lemma super_written:
  assumes "writeSuperJournal wr 0 trunc_rc P J (Some z) = (0, P', J')"
  shows "\<exists>k. J' = k @ sqlite3Put4byte (word_of_nat (j_lckPgno P)) @ z @ sqlite3Put4byte (word_of_nat (length z))
    @ sqlite3Put4byte (sum_list (map (\<lambda>c. scast c) z)) @ aJournalMagic"
proof -
  define o1 where "o1 = (if j_fullSync P then journalHdrOffset P else j_journalOff P)"
  define w1 where "w1 = sqlite3Put4byte (word_of_nat (j_lckPgno P))"
  define w3 where "w3 = sqlite3Put4byte (word_of_nat (length z))"
  define w4 where "w4 = sqlite3Put4byte (sum_list (map (\<lambda>c. scast c) z))"
  define k where "k = take o1 J @ replicate (o1 - length J) (0 :: byte)"
  define J1 where "J1 = file_write o1 w1 J"
  define J2 where "J2 = file_write (o1 + 4) z J1"
  define J3 where "J3 = file_write (o1 + 4 + length z) w3 J2"
  define J4 where "J4 = file_write (o1 + 4 + length z + 4) w4 J3"
  define J5 where "J5 = file_write (o1 + 4 + length z + 8) aJournalMagic J4"
  have l: "length w1 = 4" "length w3 = 4" "length w4 = 4" "length aJournalMagic = 8" "length k = o1"
    by (auto simp: w1_def w3_def w4_def aJournalMagic_def k_def)
  have t1: "take (o1 + 4) J1 = k @ w1" using l(1) by (auto simp: J1_def file_write_def k_def)
  have t2: "take (o1 + 4 + length z) J2 = k @ w1 @ z" using fw_extend [OF _ t1, of z] l by (simp add: J2_def)
  have t3: "take (o1 + 4 + length z + 4) J3 = k @ w1 @ z @ w3" using fw_extend [OF _ t2, of w3] l by (simp add: J3_def)
  have t4: "take (o1 + 4 + length z + 8) J4 = k @ w1 @ z @ w3 @ w4" using fw_extend [OF _ t3, of w4] l by (simp add: J4_def)
  have t5: "take (o1 + (length z + 20)) J5 = k @ w1 @ z @ w3 @ w4 @ aJournalMagic"
    using fw_extend [OF _ t4, of aJournalMagic] l by (simp add: J5_def ac_simps)
  have "J' = take (o1 + (length z + 20)) J5"
    using assms by (auto simp: writeSuperJournal_def Let_def J5_def J4_def J3_def J2_def J1_def w1_def w3_def w4_def o1_def split: if_splits)
  then show ?thesis using t5 by (auto simp: w1_def w3_def w4_def)
qed

lemma super_read_written:
  assumes "J = k @ sqlite3Put4byte lck @ z @ sqlite3Put4byte (word_of_nat (length z)) @ sqlite3Put4byte (sum_list (map (\<lambda>c. scast c) z)) @ aJournalMagic"
    "z \<noteq> []" "0 \<notin> set z" "length z < nSuper" "length z < 2 ^ 32" "pb_clean E"
  shows "readSuperJournal E J nSuper = (0, z)"
proof -
  let ?a = "k @ sqlite3Put4byte lck" and ?n = "sqlite3Put4byte (word_of_nat (length z))" and ?c = "sqlite3Put4byte (sum_list (map (\<lambda>c. scast c) z))"
  have ml: "length aJournalMagic = 8" by (simp add: aJournalMagic_def)
  have len: "length J = length ?a + length z + 16" by (simp add: assms(1) ml)
  have j: "pe_jsize E = 0" "pe_jread E off = 0" for off using assms(6) by (simp_all add: pb_clean_def)
  have n: "get4 J (length J - 16) = word_of_nat (length z)"
    using get4_put4 [of "?a @ z" "length J - 16" "word_of_nat (length z)" "?c @ aJournalMagic"] len by (simp add: assms(1))
  have c: "get4 J (length J - 12) = sum_list (map (\<lambda>c. scast c) z)"
    using get4_put4 [of "?a @ z @ ?n" "length J - 12" _ aJournalMagic] len by (simp add: assms(1))
  have m: "buf_read (length J - 8) 8 J = aJournalMagic" using len ml by (simp add: assms(1) buf_read_def)
  have zr: "buf_read (length J - (16 + length z)) (length z) J = z" using len ml by (simp add: assms(1) buf_read_def)
  have u: "unat (word_of_nat (length z) :: u32) = length z" using assms(5) by (simp add: unat_of_nat)
  have tw: "takeWhile (\<lambda>c. c \<noteq> 0) z = z" using assms(3) by (auto simp: takeWhile_eq_all_conv)
  have b: "16 \<le> length J" "length J - 16 + 4 \<le> length J" "length J - 12 + 4 \<le> length J" "length J - 8 + 8 \<le> length J"
    "length J - 16 - length z + length z \<le> length J" "length z \<le> length J - 16" using len by simp_all
  show ?thesis unfolding readSuperJournal_def Let_def
    using assms(2,4) b by (simp add: j read32_ok os_read_ok n c m zr u tw)
qed

section \<open>Properties\<close>

text \<open>C23. The outcome of a rollback of a hot journal, with any faults of the operating system and damage to the page of a failed write: it ends; on
  success the database is the original one, byte for byte, and the journal is gone; on an error either the journal is kept and the database can still be
  restored from it, or the journal is gone and the database is the original one (only the super-journal could not be deleted); with no fault it succeeds.\<close>

theorem rollback_outcome:
  assumes "hot_journal ps sect mx J segs P" "pb_faults E" "restorable ps mx orig segs db"
  shows "\<exists>rc P' J' db'. pager_playback E mxp P J db = Some (rc, P', J', db') \<and> (rc = 0 \<longrightarrow> J' = [] \<and> db' = orig)
      \<and> (rc \<noteq> 0 \<longrightarrow> J' = J \<and> restorable ps mx orig segs db' \<or> J' = [] \<and> db' = orig) \<and> (pb_clean E \<longrightarrow> rc = 0)"
proof -
  obtain rc P' J' db' where "pager_playback E mxp P J db = Some (rc, P', J', db')" "rc = 0 \<longrightarrow> J' = [] \<and> db' = orig"
      "J' = J \<and> intact ps mx orig (fst ` set (concat segs)) db' \<or> J' = [] \<and> db' = orig" "pb_clean E \<longrightarrow> rc = 0"
    using playback_restores [OF assms, of mxp] by blast
  moreover have "length orig = mx * ps" "originals ps mx orig (concat segs)" using assms(3) by (simp_all add: restorable_def)
  ultimately show ?thesis by (auto simp: restorable_def)
qed

text \<open>C22. After any number of rollbacks that fail at any point, each with its own faults and its own damage, one that meets no fault restores the original
  database and ends the journal.\<close>

theorem rollback_after_failures:
  assumes "\<forall>(E, P)\<in>set xs. pb_faults E \<and> hot_journal ps sect mx J segs P" "pb_clean E" "hot_journal ps sect mx J segs P" "restorable ps mx orig segs db"
  shows "attempts (\<lambda>E P. pager_playback E mxp P) [] (xs @ [(E, P)]) J db = Some ([], orig)"
  using assms by (intro pb.attempts_restore) auto

text \<open>C21. The journal protects the transaction. Whatever the journal file held before, once \<open>syncJournal\<close> has made it durable, a rollback of that content, or of any other
  that a crash leaves which is the same up to the sync and has no magic of a header in the sector after it, brings the database back to its original size and
  content, provided that only pages recorded so far have been overwritten, lost or cut off. (The pager itself writes no such magic there before the next sync.) The pager that rolls back may be another one,
  of another page and sector size, but its sector must not be longer than the journal: \<open>short_journal_ignored\<close> below shows that it is not rolled back otherwise. Content is what any function \<open>dec\<close> reads from the bytes of a
  page: the bytes themselves or, as the codec encrypts a page anew for the journal, their decryption.\<close>

theorem synced_journal_restores:
  assumes "jrun ps sect mx P J segs rs" "\<forall>off. rd off \<noteq> SQLITE_IOERR_SHORT_READ \<and> wr off \<noteq> SQLITE_IOERR_SHORT_READ"
    "syncJournal rd wr s1 s2 False devSeq rnd newHdr P J = (rc, P', J', Some Jd)" "Jc = Jd \<or> crash_journal sect (j_journalOff P) Jd Jc"
    "hot_pager Q Jc" "pb_clean E"
    "\<forall>(pg, d)\<in>set (concat segs @ rs). pg \<noteq> 0x40000000 div ps + 1 \<and> dec pg d = content pg"
    "\<forall>pg\<in>{1..mx}. pg \<notin> fst ` set (concat segs @ rs) \<longrightarrow> pg * ps \<le> length db \<and> dec pg (page_at ps db pg) = content pg"
  shows "\<exists>Q' db'. pager_playback E mxp Q Jc db = Some (0, Q', [], db') \<and> length db' = mx * ps \<and> (\<forall>pg\<in>{1..mx}. dec pg (page_at ps db' pg) = content pg)"
proof -
  let ?rs = "concat segs @ rs"
  have f: "pb_faults E" by (rule clean_faults [OF assms(6)])
  have once: "jonce ps mx segs rs" using jrun_inv [OF assms(1)] by simp
  then have ok: "image_ok ps mx ?rs db" using assms(8) by (auto simp: jonce_def image_ok_def)
  have lck: "\<forall>pg\<in>fst ` set ?rs. pg \<noteq> 0x40000000 div ps + 1" using assms(7) by fastforce
  have "restorable ps mx (journal_image ps mx (concat (segs @ [rs])) db) (segs @ [rs]) db"
    using once ok lck by (intro image_restorable) (simp_all add: jonce_def)
  then obtain Q' where "pager_playback E mxp Q Jc db = Some (0, Q', [], journal_image ps mx ?rs db)"
    using playback_restores [OF synced_hot [OF assms(1-5)] f, of _ db mxp] assms(6) by fastforce
  moreover have "\<forall>pg\<in>{1..mx}. dec pg (page_at ps (journal_image ps mx ?rs db) pg) = content pg"
    using assms(7,8) by (intro image_content [OF ok]) auto
  moreover have "length (journal_image ps mx ?rs db) = mx * ps" by (rule image_length [OF ok])
  ultimately show ?thesis by blast
qed

text \<open>The size of the journal is compared with the reader's own sector size before the sector size of the journal is known: a journal shorter than a sector of
  the reader is ended without being rolled back, whatever it records.\<close>

theorem short_journal_ignored:
  assumes "length J < j_sectorSize P" "pb_clean E"
  shows "\<exists>P'. pager_playback E mxp P J db = Some (0, P', [], db)"
proof -
  have "readJournalHdr E True (P\<lparr>j_journalOff := 0\<rparr>) J = (SQLITE_DONE, P\<lparr>j_journalOff := 0\<rparr>, 0, 0)"
    using assms(1) by (simp add: readJournalHdr_def Let_def journalHdrOffset_def)
  then have l: "playback_loop E J (P\<lparr>j_journalOff := 0\<rparr>) db = Some (0, P\<lparr>j_journalOff := 0\<rparr>, db)" by (subst playback_loop.simps) simp
  obtain zs where s: "readSuperJournal E J (1 + mxp) = (0, zs)" using super_read_clean(1) [OF assms(2), of J "1 + mxp"] by (cases "readSuperJournal E J (1 + mxp)") simp
  obtain zs2 where s2: "readSuperJournal (second_read E) J (1 + mxp) = (0, zs2)"
    using super_read_clean(2) [OF assms(2), of J "1 + mxp"] by (cases "readSuperJournal (second_read E) J (1 + mxp)") simp
  obtain P2 where p: "PagerSetPagesize_open E (P\<lparr>j_journalOff := 0\<rparr>) (j_pageSize P) = (0, P2)"
    using setsize_clean [OF assms(2)] by (metis prod.exhaust fst_conv)
  have c: "pe_jsize E = 0" "pe_sync E = 0" "pe_end E = 0" "\<And>z. pe_access E z = (0, True)" "\<And>z. pe_delsuper E z = 0" using assms(2) by (simp_all add: pb_clean_def)
  show ?thesis unfolding pager_playback_def Let_def s s2 by (simp add: l p c)
qed

section \<open>Witnesses\<close>

text \<open>A database of one page, journalled and overwritten.\<close>

definition demo_env :: "int \<Rightarrow> pb_env" where
  "demo_env e = \<lparr>pe_jsize = 0, pe_jread = \<lambda>off. 0, pe_access = \<lambda>z. (0, True), pe_setsize = 0, pe_dbsize = 0, pe_dbtrunc = 0, pe_dbgrow = 0,
     pe_dbwrite = \<lambda>pg. e, pe_torn = \<lambda>pg. [1, 2, 3], pe_sync = 0, pe_jsize2 = 0, pe_jread2 = \<lambda>off. 0, pe_end = 0, pe_delsuper = \<lambda>z. 0\<rparr>"

definition demo_pager :: jpager where
  "demo_pager = \<lparr>j_pageSize = 512, j_sectorSize = 32, j_lckPgno = 0x40000000 div 512 + 1, j_journalOff = 0, j_journalHdr = 0, j_nRec = 0, j_cksumInit = 0,
     j_dbSize = 1, j_dbOrigSize = 1, j_dbFileSize = 1, j_mxPgno = 1, j_nReserve = 0, j_noSync = False, j_fullSync = True\<rparr>"

definition demo_open :: "int \<times> jpager \<times> byte list" where
  "demo_open = writeJournalHdr (\<lambda>off. 0) False 5 demo_pager []"

definition demo_add :: "int \<times> jpager \<times> byte list" where
  "demo_add = pagerAddPageToRollbackJournal (\<lambda>off. 0) 0 (fst (snd demo_open)) (snd (snd demo_open)) 1 (Some (replicate 512 7))"

definition demo_sync :: "int \<times> jpager \<times> byte list \<times> byte list option" where
  "demo_sync = syncJournal (\<lambda>off. 0) (\<lambda>off. 0) 0 0 False False 6 True (fst (snd demo_add)) (snd (snd demo_add))"

definition demo_journal :: "byte list" where
  "demo_journal = the (snd (snd (snd demo_sync)))"

definition demo_hot :: jpager where
  "demo_hot = snd (pagerSyncHotJournal 0 0 demo_pager demo_journal)"

lemma write_sector_clean: "fst (write_sector (\<lambda>off. 0) z n off J) = 0"
  by (induction n arbitrary: off J) simp_all

lemma demo_run: "jrun 512 32 1 (fst (snd demo_add)) (snd (snd demo_add)) [] [(1, replicate 512 7)]"
proof -
  have "fst demo_open = 0" using write_sector_clean by (simp add: demo_open_def writeJournalHdr_def Let_def split: prod.splits) (metis fst_conv)
  then have o: "writeJournalHdr (\<lambda>off. 0) False 5 (demo_pager\<lparr>j_nRec := 0\<rparr>) [] = (0, fst (snd demo_open), snd (snd demo_open))"
    by (cases demo_open) (simp add: demo_open_def demo_pager_def)
  have "jrun 512 32 1 (fst (snd demo_open)) (snd (snd demo_open)) [] []"
    by (rule jrun_begin [OF _ _ o]) (simp_all add: demo_pager_def jwriter_def journal_sizes_def)
  moreover have "pagerAddPageToRollbackJournal (\<lambda>off. 0) 0 (fst (snd demo_open)) (snd (snd demo_open)) 1 (Some (replicate 512 7)) = (0, fst (snd demo_add), snd (snd demo_add))"
    by (simp add: demo_add_def pagerAddPageToRollbackJournal_def Let_def)
  ultimately have "jrun 512 32 1 (fst (snd demo_add)) (snd (snd demo_add)) [] ([] @ [(1, replicate 512 7)])" by (intro jrun_add) auto
  then show ?thesis by simp
qed

lemma demo_synced: "\<exists>rc P' J'. syncJournal (\<lambda>off. 0) (\<lambda>off. 0) 0 0 False False 6 True (fst (snd demo_add)) (snd (snd demo_add)) = (rc, P', J', Some demo_journal)"
proof -
  have "\<exists>rc P' J' Jd. demo_sync = (rc, P', J', Some Jd)" by (auto simp: demo_sync_def syncJournal_def Let_def os_read_def split: prod.split)
  then obtain rc P' J' Jd where "demo_sync = (rc, P', J', Some Jd)" by blast
  then have "demo_sync = (rc, P', J', Some demo_journal)" by (metis demo_journal_def option.sel snd_conv)
  then show ?thesis unfolding demo_sync_def by blast
qed

lemma demo_short: "\<forall>off :: nat. (0 :: int) \<noteq> SQLITE_IOERR_SHORT_READ \<and> (0 :: int) \<noteq> SQLITE_IOERR_SHORT_READ"
  by simp

lemma demo_hot_pager: "hot_pager demo_hot demo_journal"
proof -
  obtain rc P' J' where s: "syncJournal (\<lambda>off. 0) (\<lambda>off. 0) 0 0 False False 6 True (fst (snd demo_add)) (snd (snd demo_add)) = (rc, P', J', Some demo_journal)"
    using demo_synced by blast
  have "jwriter 512 32 1 (fst (snd demo_add))" "jopen 512 32 1 (fst (snd demo_add)) (snd (snd demo_add)) [] [(1, replicate 512 7)]"
    "length [(1, replicate 512 7)] < 2 ^ 32 - 1" using jrun_inv [OF demo_run] by simp_all
  from sync_durable [OF this s demo_short] have "32 \<le> length demo_journal" by simp
  then show ?thesis by (simp add: hot_pager_def demo_hot_def pagerSyncHotJournal_def demo_pager_def)
qed

lemma demo_restorable: "restorable 512 1 (replicate 512 7) [[(1, replicate 512 7)]] (replicate 512 9)"
  by (simp add: restorable_def originals_def intact_def page_at_def buf_read_def)

lemma demo_hot_journal: "hot_journal 512 32 1 demo_journal [[(1, replicate 512 7)]] demo_hot"
  using demo_synced synced_hot [OF demo_run demo_short _ disjI1 [OF refl] demo_hot_pager] by fastforce

lemma demo_clean: "pb_clean (demo_env 0)" "pb_faults (demo_env 10)"
  by (simp_all add: pb_clean_def pb_faults_def demo_env_def)

theorem rollback_outcome_witness:
  "\<exists>rc P' J' db'. pager_playback (demo_env 10) 512 demo_hot demo_journal (replicate 512 9) = Some (rc, P', J', db')
     \<and> (J' = demo_journal \<and> restorable 512 1 (replicate 512 7) [[(1, replicate 512 7)]] db' \<or> J' = [] \<and> db' = replicate 512 7)"
  using rollback_outcome [OF demo_hot_journal demo_clean(2) demo_restorable, of 512] by blast

theorem rollback_after_failures_witness:
  "attempts (\<lambda>E P. pager_playback E 512 P) [] ([(demo_env 10, demo_hot), (demo_env 10, demo_hot)] @ [(demo_env 0, demo_hot)]) demo_journal (replicate 512 9) = Some ([], replicate 512 7)"
  using demo_clean demo_hot_journal by (intro rollback_after_failures [OF _ demo_clean(1) demo_hot_journal demo_restorable]) simp

theorem synced_journal_restores_witness:
  "\<exists>Q' db'. pager_playback (demo_env 0) 512 demo_hot demo_journal (replicate 512 9) = Some (0, Q', [], db') \<and> page_at 512 db' 1 = replicate 512 7"
proof -
  obtain rc P' J' where s: "syncJournal (\<lambda>off. 0) (\<lambda>off. 0) 0 0 False False 6 True (fst (snd demo_add)) (snd (snd demo_add)) = (rc, P', J', Some demo_journal)"
    using demo_synced by blast
  show ?thesis
    using synced_journal_restores [OF demo_run demo_short s disjI1 [OF refl] demo_hot_pager demo_clean(1),
      of "\<lambda>pg d. d" "\<lambda>pg. replicate 512 7" "replicate 512 9" 512] by fastforce
qed

text \<open>C24. The name of the super-journal that a commit over several databases writes at the end of the journal, whatever stood there before, is the name that a
  rollback reads from it.\<close>

theorem super_journal_roundtrip:
  assumes "writeSuperJournal wr 0 trunc_rc P J (Some z) = (0, P', J')" "z \<noteq> []" "0 \<notin> set z" "length z < nSuper" "length z < 2 ^ 32" "pb_clean E"
  shows "readSuperJournal E J' nSuper = (0, z)"
  using super_written [OF assms(1)] super_read_written [OF _ assms(2-6)] by blast

theorem super_journal_roundtrip_witness:
  "readSuperJournal (demo_env 0) (snd (snd (writeSuperJournal (\<lambda>off. 0) 0 0 demo_pager (replicate 99 3) (Some [97, 98])))) 513 = (0, [97, 98])"
proof -
  have "writeSuperJournal (\<lambda>off. 0) 0 0 demo_pager (replicate 99 3) (Some [97, 98])
      = (0, fst (snd (writeSuperJournal (\<lambda>off. 0) 0 0 demo_pager (replicate 99 3) (Some [97, 98]))),
         snd (snd (writeSuperJournal (\<lambda>off. 0) 0 0 demo_pager (replicate 99 3) (Some [97, 98]))))"
    by (simp add: writeSuperJournal_def Let_def)
  then show ?thesis by (rule super_journal_roundtrip) (simp_all add: demo_clean)
qed

end
