(* ===== verification/Mem_Journal.thy ===== *)
theory Mem_Journal
  imports Pager_Journal
begin

text \<open>
  The journal in memory (\<open>src/memjournal.c\<close>): a file kept as a chain of chunks, which is written to a real file when it grows beyond a limit.

  The chain \<open>pFirst\<close>, \<open>pNext\<close>, \dots is the list of the chunks; a pointer to a chunk is its position, None is NULL. \<open>jfile\<close> is what the file handle is: the
  journal in memory or, after \<open>memjrnlCreateFile\<close>, the real file, on which the methods of the operating system work. Reading through a NULL pointer and
  writing beyond a chunk give None. Results of the operating system and the allocator are arguments. The lemmas refine both representations to a list of
  bytes with the operations of \<open>Pager_Journal\<close> (\<open>os_read\<close>, \<open>file_write\<close>), so that a journal behaves the same wherever it is kept.
\<close>

section \<open>Definitions\<close>


record MemJournal =
  nChunkSize :: nat
  nSpill :: int
  chunks :: "byte list list"
  end_iOffset :: nat
  end_pChunk :: "nat option"
  read_iOffset :: nat
  read_pChunk :: "nat option"

datatype jfile = In_Memory MemJournal | Real_File "byte list"

text \<open>Opening: with the limit 0 the real file, which the operating system opens. (\<open>sizeof(FileChunk)\<close> is 16.)\<close>

definition sqlite3JournalOpen :: "int \<Rightarrow> byte list \<Rightarrow> int \<Rightarrow> int \<times> jfile" where
  "sqlite3JournalOpen open_rc f spill =
     (if spill = 0 then (open_rc, Real_File f)
      else (SQLITE_OK, In_Memory \<lparr>nChunkSize = (if spill > 0 then nat spill else 8 + 1024 - 16), nSpill = spill, chunks = [], end_iOffset = 0, end_pChunk = None,
              read_iOffset = 0, read_pChunk = None\<rparr>))"

definition sqlite3MemJournalOpen :: jfile where
  "sqlite3MemJournalOpen = snd (sqlite3JournalOpen SQLITE_OK [] (- 1))"

subsection \<open>Reading\<close>






subsection \<open>Writing\<close>










definition memjrnlFileSize :: "MemJournal \<Rightarrow> nat" where
  "memjrnlFileSize p = end_iOffset p"

definition sqlite3JournalIsInMemory :: "jfile \<Rightarrow> bool" where
  "sqlite3JournalIsInMemory j = (case j of In_Memory p \<Rightarrow> True | Real_File f \<Rightarrow> False)"


subsection \<open>A journal through its methods\<close>






section \<open>The journal as a list of bytes\<close>

definition mj_content :: "MemJournal \<Rightarrow> byte list" where
  "mj_content p = take (end_iOffset p) (concat (chunks p))"

definition mj_ok :: "MemJournal \<Rightarrow> bool" where
  "mj_ok p \<longleftrightarrow> 0 < nChunkSize p \<and> (\<forall>c\<in>set (chunks p). length c = nChunkSize p) \<and> end_iOffset p \<le> length (chunks p) * nChunkSize p
     \<and> length (chunks p) * nChunkSize p < end_iOffset p + nChunkSize p \<and> end_pChunk p = (if chunks p = [] then None else Some (length (chunks p) - 1))
     \<and> (read_iOffset p = 0 \<or> read_pChunk p = Some (read_iOffset p div nChunkSize p) \<and> read_iOffset p div nChunkSize p < length (chunks p))"


lemma ok_length: "mj_ok p \<Longrightarrow> length (concat (chunks p)) = length (chunks p) * nChunkSize p"
  by (rule concat_chunks_length) (simp add: mj_ok_def)

lemma content_length: "mj_ok p \<Longrightarrow> length (mj_content p) = end_iOffset p"
  by (simp add: mj_content_def ok_length) (simp add: mj_ok_def)

lemma file_size_refines: "mj_ok p \<Longrightarrow> memjrnlFileSize p = length (mj_content p)"
  by (simp add: memjrnlFileSize_def content_length)

subsection \<open>Reading\<close>






subsection \<open>Writing\<close>




















section \<open>A journal is a file\<close>

















end
