(* ===== verification/Util_Utf8.thy ===== *)
theory Util_Utf8
  imports Util_Text
begin

text \<open>
  Reading and writing of UTF-8 characters (\<open>src/utf.c\<close>).

  A C string is the list of its bytes up to the terminator; reading at its end gives the character 0. \<open>utf8_chars\<close> is the list of the characters of a string,
  as the reader sees them: malformed sequences are characters too. A character that is written is the character read back.
\<close>

section \<open>Definitions\<close>

definition sqlite3Utf8Trans1 :: "u32 list" where
  "sqlite3Utf8Trans1 =
     [0x00, 0x01, 0x02, 0x03, 0x04, 0x05, 0x06, 0x07, 0x08, 0x09, 0x0a, 0x0b, 0x0c, 0x0d, 0x0e, 0x0f,
      0x10, 0x11, 0x12, 0x13, 0x14, 0x15, 0x16, 0x17, 0x18, 0x19, 0x1a, 0x1b, 0x1c, 0x1d, 0x1e, 0x1f,
      0x00, 0x01, 0x02, 0x03, 0x04, 0x05, 0x06, 0x07, 0x08, 0x09, 0x0a, 0x0b, 0x0c, 0x0d, 0x0e, 0x0f,
      0x00, 0x01, 0x02, 0x03, 0x04, 0x05, 0x06, 0x07, 0x00, 0x01, 0x02, 0x03, 0x00, 0x01, 0x00, 0x00]"

fun utf8_rest :: "u32 \<Rightarrow> byte list \<Rightarrow> u32 \<times> byte list" where
  "utf8_rest c [] = (c, [])"
| "utf8_rest c (b # bs) = (if b AND 0xc0 = 0x80 then utf8_rest (push_bit 6 c + (0x3f AND ucast b)) bs else (c, b # bs))"

definition sqlite3Utf8Read :: "byte list \<Rightarrow> u32 \<times> byte list" where
  "sqlite3Utf8Read z =
     (case z of [] \<Rightarrow> (0, [])
      | b # bs \<Rightarrow>
          if b \<ge> 0xc0
          then let (c, bs) = utf8_rest (sqlite3Utf8Trans1 ! unat (b - 0xc0)) bs
               in (if c < 0x80 \<or> c AND 0xFFFFF800 = 0xD800 \<or> c AND 0xFFFFFFFE = 0xFFFE then 0xFFFD else c, bs)
          else (ucast b, bs))"

text \<open>The macro reads a character below 128 without the call.\<close>

definition Utf8Read :: "byte list \<Rightarrow> u32 \<times> byte list" where
  "Utf8Read z = (case z of [] \<Rightarrow> (0, []) | b # bs \<Rightarrow> if b < 0x80 then (ucast b, bs) else sqlite3Utf8Read z)"

definition SKIP_UTF8 :: "byte list \<Rightarrow> byte list" where
  "SKIP_UTF8 z = (case z of [] \<Rightarrow> [] | b # bs \<Rightarrow> if b \<ge> 0xc0 then dropWhile (\<lambda>b. b AND 0xc0 = 0x80) bs else bs)"

definition sqlite3AppendOneUtf8Character :: "u32 \<Rightarrow> byte list" where
  "sqlite3AppendOneUtf8Character v =
     (if v < 0x80 then [ucast (v AND 0xff)]
      else if v < 0x800 then [0xc0 + ucast (drop_bit 6 v AND 0x1f), 0x80 + ucast (v AND 0x3f)]
      else if v < 0x10000 then [0xe0 + ucast (drop_bit 12 v AND 0x0f), 0x80 + ucast (drop_bit 6 v AND 0x3f), 0x80 + ucast (v AND 0x3f)]
      else [0xf0 + ucast (drop_bit 18 v AND 0x07), 0x80 + ucast (drop_bit 12 v AND 0x3f), 0x80 + ucast (drop_bit 6 v AND 0x3f), 0x80 + ucast (v AND 0x3f)])"

lemma skip_length: "length (SKIP_UTF8 (b # bs)) \<le> length bs"
  using length_dropWhile_le [of "\<lambda>b. b AND 0xc0 = 0x80" bs] by (simp add: SKIP_UTF8_def)

lemma utf8_rest_length: "length (snd (utf8_rest c bs)) \<le> length bs"
  by (induction c bs rule: utf8_rest.induct) auto

lemma read_length: "z \<noteq> [] \<Longrightarrow> length (snd (sqlite3Utf8Read z)) < length z"
proof (cases z)
  case (Cons b bs)
  then show ?thesis using utf8_rest_length [of "sqlite3Utf8Trans1 ! unat (b - 0xc0)" bs]
    by (auto simp: sqlite3Utf8Read_def Let_def split: prod.split)
qed simp

lemma Utf8Read_eq: "Utf8Read z = sqlite3Utf8Read z"
proof (cases z)
  case (Cons b bs)
  have "b < 0x80 \<Longrightarrow> \<not> b \<ge> 0xc0" by (simp add: word_le_nat_alt word_less_nat_alt)
  then show ?thesis by (auto simp: Utf8Read_def sqlite3Utf8Read_def Cons)
qed (simp add: Utf8Read_def sqlite3Utf8Read_def)

lemma read_shorter: "sqlite3Utf8Read z = (c, z') \<Longrightarrow> c \<noteq> 0 \<Longrightarrow> length z' < length z"
  using read_length [of z] by (cases z) (auto simp: sqlite3Utf8Read_def)

lemma read_le: "sqlite3Utf8Read z = (c, z') \<Longrightarrow> length z' \<le> length z"
  using read_length [of z] by (cases z) (auto simp: sqlite3Utf8Read_def)

text \<open>The suffixes of a string at which its characters start.\<close>

function positions :: "byte list \<Rightarrow> byte list list" where
  "positions [] = []"
| "positions (b # bs) = (b # bs) # positions (SKIP_UTF8 (b # bs))"
  by pat_completeness auto
termination by (relation "measure length") (auto simp: less_Suc_eq_le skip_length)

text \<open>The number of characters of a string that ends with its terminator (\<open>nByte\<close> is negative).\<close>

definition sqlite3Utf8CharLen :: "byte list \<Rightarrow> nat" where
  "sqlite3Utf8CharLen z = length (positions z)"

text \<open>The characters of a string.\<close>

function utf8_chars :: "byte list \<Rightarrow> u32 list" where
  "utf8_chars [] = []"
| "utf8_chars (b # bs) = fst (sqlite3Utf8Read (b # bs)) # utf8_chars (snd (sqlite3Utf8Read (b # bs)))"
  by pat_completeness auto
termination by (relation "measure length") (simp_all add: read_length [simplified] del: list.size)

section \<open>Lemmas\<close>

subsection \<open>Reading characters\<close>

lemma unat_ucast_byte: "unat (ucast (b :: byte) :: u32) = unat b"
proof -
  have "unat b < 4294967296" using byte_unat_less [of b] by linarith
  then show ?thesis by (simp add: unsigned_ucast_eq take_bit_nat_eq_self)
qed

lemma ucast_byte_eq: "(ucast (b :: byte) :: u32) = ucast c \<longleftrightarrow> b = c"
  by (metis unat_ucast_byte word_unat_eq_iff)

lemma ucast_byte_eq_0: "(ucast (b :: byte) :: u32) = 0 \<longleftrightarrow> b = 0"
  using ucast_byte_eq [of b 0] by simp

lemma ucast_byte_less: "(ucast (b :: byte) :: u32) < 0x80 \<longleftrightarrow> b < 0x80"
  by (simp add: word_less_nat_alt unat_ucast_byte)

lemma utf8_rest_set: "set (snd (utf8_rest c bs)) \<subseteq> set bs"
  by (induction c bs rule: utf8_rest.induct) auto

lemma read_cons:
  assumes "sqlite3Utf8Read (b # bs) = (c, z)"
  shows "b < 0xc0 \<and> c = ucast b \<and> z = bs \<or> \<not> b < 0xc0 \<and> 0x80 \<le> c \<and> (\<exists>d. z = snd (utf8_rest d bs))"
proof (cases "b < 0xc0")
  case True
  then have "\<not> 0xc0 \<le> b" by simp
  then show ?thesis using assms True by (simp add: sqlite3Utf8Read_def)
next
  case False
  obtain e z' where e: "utf8_rest (sqlite3Utf8Trans1 ! unat (b - 0xc0)) bs = (e, z')" by fastforce
  have "z = z'" "c = (if e < 0x80 \<or> e AND 0xFFFFF800 = 0xD800 \<or> e AND 0xFFFFFFFE = 0xFFFE then 0xFFFD else e)"
    using assms False by (auto simp: sqlite3Utf8Read_def Let_def e not_less)
  then have "0x80 \<le> c" "z = snd (utf8_rest (sqlite3Utf8Trans1 ! unat (b - 0xc0)) bs)" using e by auto
  then show ?thesis using False by blast
qed

lemma read_nonzero:
  assumes "sqlite3Utf8Read (b # bs) = (c, z)" "0 \<notin> set (b # bs)"
  shows "c \<noteq> 0 \<and> 0 \<notin> set z"
  using read_cons [OF assms(1)]
proof
  assume "b < 0xc0 \<and> c = ucast b \<and> z = bs"
  then show ?thesis using assms(2) by (auto simp: ucast_byte_eq_0)
next
  assume a: "\<not> b < 0xc0 \<and> 0x80 \<le> c \<and> (\<exists>d. z = snd (utf8_rest d bs))"
  then have "c \<noteq> 0" by auto
  then show ?thesis using a assms(2) utf8_rest_set by fastforce
qed

lemma read_at:
  assumes "sqlite3Utf8Read z = (c, z')" "0 \<notin> set z"
  shows "c = 0 \<and> z = [] \<and> z' = [] \<or> c \<noteq> 0 \<and> z \<noteq> [] \<and> utf8_chars z = c # utf8_chars z' \<and> 0 \<notin> set z'"
proof (cases z)
  case Nil
  then show ?thesis using assms by (simp add: sqlite3Utf8Read_def)
next
  case (Cons b bs)
  then show ?thesis using assms read_nonzero [of b bs c z'] by simp
qed

lemma chars_Nil: "utf8_chars z = [] \<longleftrightarrow> z = []"
  by (cases z) auto

lemma read_first_byte: "sqlite3Utf8Read (b # bs) = (c, z) \<Longrightarrow> d < 0x80 \<Longrightarrow> c = ucast d \<longleftrightarrow> b = d"
proof -
  assume r: "sqlite3Utf8Read (b # bs) = (c, z)" and d: "d < 0x80"
  have "\<not> 0x80 \<le> (ucast d :: u32)" using d by (simp add: ucast_byte_less not_le)
  moreover have "b = d \<Longrightarrow> b < 0xc0" using d by (simp add: word_less_nat_alt)
  ultimately show ?thesis using read_cons [OF r] by (auto simp: ucast_byte_eq)
qed

lemma unat_low: "(x :: u32) < 0x80 \<Longrightarrow> unat (ucast x :: byte) = unat x"
  by (simp add: unsigned_ucast_eq take_bit_nat_eq_self word_less_nat_alt)

lemma ucast_low: "(x :: u32) < 0x80 \<Longrightarrow> (ucast (ucast x :: byte) :: u32) = x"
  using unat_low [of x] unat_ucast_byte [of "ucast x"] by (simp add: word_unat_eq_iff)

lemma ucast_ucast_byte: "(ucast (ucast (b :: byte) :: u32) :: byte) = b"
  by (rule bit_word_eqI) (simp add: bit_simps)

lemma skip_read: "snd (sqlite3Utf8Read (b # bs)) = SKIP_UTF8 (b # bs)"
proof -
  have "snd (utf8_rest c bs) = dropWhile (\<lambda>b. b AND 0xc0 = 0x80) bs" for c by (induction c bs rule: utf8_rest.induct) auto
  then show ?thesis by (simp add: sqlite3Utf8Read_def SKIP_UTF8_def Let_def case_prod_beta)
qed

subsection \<open>Writing characters\<close>

lemma utf8_tail_bytes:
  "n < 64 \<Longrightarrow> (0x80 + word_of_nat n :: byte) AND 0xc0 = 0x80 \<and> 0x3f AND (ucast (0x80 + word_of_nat n :: byte) :: u32) = word_of_nat n"
proof -
  have "\<forall>n\<in>set [0..<64]. (0x80 + word_of_nat n :: byte) AND 0xc0 = 0x80 \<and> 0x3f AND (ucast (0x80 + word_of_nat n :: byte) :: u32) = word_of_nat n" by code_simp
  then show "n < 64 \<Longrightarrow> ?thesis" by (metis atLeastLessThan_iff atLeastLessThan_upt zero_le)
qed

lemma utf8_lead_bytes:
  "n < 32 \<Longrightarrow> (0xc0 + word_of_nat n :: byte) \<ge> 0xc0 \<and> sqlite3Utf8Trans1 ! unat ((0xc0 + word_of_nat n :: byte) - 0xc0) = word_of_nat n"
  "n < 16 \<Longrightarrow> (0xe0 + word_of_nat n :: byte) \<ge> 0xc0 \<and> sqlite3Utf8Trans1 ! unat ((0xe0 + word_of_nat n :: byte) - 0xc0) = word_of_nat n"
  "n < 8 \<Longrightarrow> (0xf0 + word_of_nat n :: byte) \<ge> 0xc0 \<and> sqlite3Utf8Trans1 ! unat ((0xf0 + word_of_nat n :: byte) - 0xc0) = word_of_nat n"
proof -
  have "\<forall>n\<in>set [0..<32]. (0xc0 + word_of_nat n :: byte) \<ge> 0xc0 \<and> sqlite3Utf8Trans1 ! unat ((0xc0 + word_of_nat n :: byte) - 0xc0) = word_of_nat n"
    "\<forall>n\<in>set [0..<16]. (0xe0 + word_of_nat n :: byte) \<ge> 0xc0 \<and> sqlite3Utf8Trans1 ! unat ((0xe0 + word_of_nat n :: byte) - 0xc0) = word_of_nat n"
    "\<forall>n\<in>set [0..<8]. (0xf0 + word_of_nat n :: byte) \<ge> 0xc0 \<and> sqlite3Utf8Trans1 ! unat ((0xf0 + word_of_nat n :: byte) - 0xc0) = word_of_nat n"
    by code_simp+
  then show "n < 32 \<Longrightarrow> (0xc0 + word_of_nat n :: byte) \<ge> 0xc0 \<and> sqlite3Utf8Trans1 ! unat ((0xc0 + word_of_nat n :: byte) - 0xc0) = word_of_nat n"
    "n < 16 \<Longrightarrow> (0xe0 + word_of_nat n :: byte) \<ge> 0xc0 \<and> sqlite3Utf8Trans1 ! unat ((0xe0 + word_of_nat n :: byte) - 0xc0) = word_of_nat n"
    "n < 8 \<Longrightarrow> (0xf0 + word_of_nat n :: byte) \<ge> 0xc0 \<and> sqlite3Utf8Trans1 ! unat ((0xf0 + word_of_nat n :: byte) - 0xc0) = word_of_nat n"
    by (metis atLeastLessThan_iff atLeastLessThan_upt zero_le)+
qed

lemma unat_and_mask: "unat (v AND mask k) = unat v mod 2 ^ k" for v :: u32
proof -
  have "unat (take_bit k v) = take_bit k (unat v)" by (rule unsigned_take_bit_eq)
  then show ?thesis by (simp only: take_bit_eq_mask [symmetric] take_bit_eq_mod [of k "unat v"])
qed

text \<open>The encoding in terms of the number.\<close>

lemma utf8_encode_nat:
  defines "tl6 \<equiv> \<lambda>n. 0x80 + word_of_nat (n mod 64) :: byte"
  shows "sqlite3AppendOneUtf8Character v = (let n = unat v in
    if n < 0x80 then [word_of_nat n]
    else if n < 0x800 then [0xc0 + word_of_nat (n div 64 mod 32), tl6 n]
    else if n < 0x10000 then [0xe0 + word_of_nat (n div 4096 mod 16), tl6 (n div 64), tl6 n]
    else [0xf0 + word_of_nat (n div 262144 mod 8), tl6 (n div 4096), tl6 (n div 64), tl6 n])"
proof -
  have low: "(ucast (w AND m) :: byte) = word_of_nat (unat w mod 2 ^ k)" if "m = mask k" for w m :: u32 and k
  proof -
    have "(ucast (w AND m) :: byte) = word_of_nat (unat (w AND m))" by simp
    then show ?thesis using unat_and_mask [of w k] that by simp
  qed
  have m: "(0x3f :: u32) = mask 6" "(0x1f :: u32) = mask 5" "(0x0f :: u32) = mask 4" "(0x07 :: u32) = mask 3" "(0xff :: u32) = mask 8"
    by (simp_all add: mask_eq_exp_minus_1)
  show ?thesis
    by (simp add: sqlite3AppendOneUtf8Character_def Let_def word_less_nat_alt tl6_def low [OF m(1)] low [OF m(2)] low [OF m(3)] low [OF m(4)] low [OF m(5)] unat_drop_bit)
qed

lemma utf8_rest_tail: "utf8_rest (word_of_nat a) ((0x80 + word_of_nat (n mod 64)) # bs) = utf8_rest (word_of_nat (a * 64 + n mod 64)) bs"
proof -
  have "push_bit 6 (word_of_nat a :: u32) = word_of_nat (a * 64)" by (simp add: push_bit_eq_mult mult.commute)
  then show ?thesis using utf8_tail_bytes [of "n mod 64"] by simp
qed

lemma utf8_rest_end: "rest = [] \<or> hd rest AND 0xc0 \<noteq> 0x80 \<Longrightarrow> utf8_rest c rest = (c, rest)"
  by (cases rest) auto

lemma read_multi:
  assumes "b \<ge> 0xc0 \<and> sqlite3Utf8Trans1 ! unat (b - 0xc0) = a" "utf8_rest a bs = (v, rest)" "\<not> v < 0x80" "v AND 0xFFFFF800 \<noteq> 0xD800" "v AND 0xFFFFFFFE \<noteq> 0xFFFE"
  shows "sqlite3Utf8Read (b # bs) = (v, rest)"
  using assms by (simp add: sqlite3Utf8Read_def)

text \<open>A character written is the character read, except for those that the reader replaces: surrogates and the last two of the basic plane.\<close>

theorem utf8_roundtrip:
  assumes "v < 0x200000" "v AND 0xFFFFF800 \<noteq> 0xD800" "v AND 0xFFFFFFFE \<noteq> 0xFFFE" "rest = [] \<or> hd rest AND 0xc0 \<noteq> 0x80"
  shows "sqlite3Utf8Read (sqlite3AppendOneUtf8Character v @ rest) = (v, rest)"
proof -
  let ?n = "unat v"
  have v: "word_of_nat ?n = v" by simp
  have n: "?n < 2097152" using assms(1) by (simp add: word_less_nat_alt)
  have big: "\<not> v < 0x80" if "0x80 \<le> ?n" using that by (simp add: word_less_nat_alt)
  consider "?n < 0x80" | "0x80 \<le> ?n" "?n < 0x800" | "0x800 \<le> ?n" "?n < 0x10000" | "0x10000 \<le> ?n" by linarith
  then show ?thesis
  proof cases
    case 1
    then have l: "v < 0x80" by (simp add: word_less_nat_alt)
    then have "\<not> (ucast v :: byte) \<ge> 0xc0" using unat_low [of v] 1 by (simp add: word_le_nat_alt)
    then show ?thesis using 1 l ucast_low [of v] by (simp add: utf8_encode_nat Let_def sqlite3Utf8Read_def)
  next
    case 2
    have "?n div 64 mod 32 = ?n div 64" using 2 by simp
    then have "?n div 64 mod 32 * 64 + ?n mod 64 = ?n" using div_mult_mod_eq [of ?n 64] by simp
    then have rest: "utf8_rest (word_of_nat (?n div 64 mod 32)) ((0x80 + word_of_nat (?n mod 64)) # rest) = (v, rest)"
      by (simp only: utf8_rest_tail v utf8_rest_end [OF assms(4)])
    have enc: "sqlite3AppendOneUtf8Character v @ rest = (0xc0 + word_of_nat (?n div 64 mod 32)) # (0x80 + word_of_nat (?n mod 64)) # rest" using 2 by (simp add: utf8_encode_nat Let_def)
    from read_multi [OF utf8_lead_bytes(1) rest big assms(2,3)] show ?thesis unfolding enc using 2 by simp
  next
    case 3
    have "(?n div 4096 mod 16 * 64 + ?n div 64 mod 64) * 64 + ?n mod 64 = ?n"
    proof -
      have "?n div 4096 mod 16 = ?n div 64 div 64" using 3 by (simp add: div_mult2_eq [symmetric])
      then show ?thesis by (simp only: div_mult_mod_eq)
    qed
    then have rest: "utf8_rest (word_of_nat (?n div 4096 mod 16)) ((0x80 + word_of_nat (?n div 64 mod 64)) # (0x80 + word_of_nat (?n mod 64)) # rest) = (v, rest)"
      by (simp only: utf8_rest_tail v utf8_rest_end [OF assms(4)])
    have enc: "sqlite3AppendOneUtf8Character v @ rest = (0xe0 + word_of_nat (?n div 4096 mod 16)) # (0x80 + word_of_nat (?n div 64 mod 64)) # (0x80 + word_of_nat (?n mod 64)) # rest" using 3 by (simp add: utf8_encode_nat Let_def)
    from read_multi [OF utf8_lead_bytes(2) rest big assms(2,3)] show ?thesis unfolding enc using 3 by simp
  next
    case 4
    have "((?n div 262144 mod 8 * 64 + ?n div 4096 mod 64) * 64 + ?n div 64 mod 64) * 64 + ?n mod 64 = ?n"
    proof -
      have "?n div 262144 mod 8 = ?n div 64 div 64 div 64" "?n div 4096 = ?n div 64 div 64" using n by (simp_all add: div_mult2_eq [symmetric])
      then show ?thesis by (simp only: div_mult_mod_eq)
    qed
    then have rest: "utf8_rest (word_of_nat (?n div 262144 mod 8)) ((0x80 + word_of_nat (?n div 4096 mod 64)) # (0x80 + word_of_nat (?n div 64 mod 64)) # (0x80 + word_of_nat (?n mod 64)) # rest) = (v, rest)"
      by (simp only: utf8_rest_tail v utf8_rest_end [OF assms(4)])
    have enc: "sqlite3AppendOneUtf8Character v @ rest = (0xf0 + word_of_nat (?n div 262144 mod 8)) # (0x80 + word_of_nat (?n div 4096 mod 64)) # (0x80 + word_of_nat (?n div 64 mod 64)) # (0x80 + word_of_nat (?n mod 64)) # rest" using 4 by (simp add: utf8_encode_nat Let_def)
    from read_multi [OF utf8_lead_bytes(3) rest big assms(2,3)] show ?thesis unfolding enc using 4 by simp
  qed
qed

end
