(* ===== verification/Like_Glob.thy ===== *)
theory Like_Glob
  imports Util_Utf8
begin

text \<open>
  Pattern matching of the SQL operators LIKE and GLOB (\<open>src/func.c\<close>).

  Strings are lists of bytes up to the terminator. The recursion of \<open>patternCompare\<close> is on the pattern;
  the loops that try one position of the string after the other are \<open>wild_search\<close> over the positions in their order. The declarative meaning of a pattern is
  a list of tokens (\<open>like_parse\<close>) and the relation \<open>like_match\<close> between tokens and characters. The lemmas show that the search, which gives up early when a
  wildcard further right has failed, finds a match exactly if there is one.
\<close>

section \<open>Definitions\<close>

subsection \<open>Patterns\<close>

abbreviation (input) SQLITE_MATCH :: nat where "SQLITE_MATCH \<equiv> 0"
abbreviation (input) SQLITE_NOMATCH :: nat where "SQLITE_NOMATCH \<equiv> 1"
abbreviation (input) SQLITE_NOWILDCARDMATCH :: nat where "SQLITE_NOWILDCARDMATCH \<equiv> 2"

record compareInfo =
  matchAll :: u32
  matchOne :: u32
  matchSet :: u32
  noCase :: bool

definition globInfo :: compareInfo where
  "globInfo = \<lparr>matchAll = 0x2a, matchOne = 0x3f, matchSet = 0x5b, noCase = False\<rparr>"

definition likeInfoNorm :: compareInfo where
  "likeInfoNorm = \<lparr>matchAll = 0x25, matchOne = 0x5f, matchSet = 0, noCase = True\<rparr>"

definition likeInfoAlt :: compareInfo where
  "likeInfoAlt = \<lparr>matchAll = 0x25, matchOne = 0x5f, matchSet = 0, noCase = False\<rparr>"

definition sqlite3Tolower :: "u32 \<Rightarrow> byte" where
  "sqlite3Tolower x = sqlite3UpperToLower (ucast x)"

definition sqlite3Toupper :: "u32 \<Rightarrow> byte" where
  "sqlite3Toupper x = ucast x AND NOT (sqlite3CtypeMap ! unat (ucast x :: byte) AND 0x20)"

text \<open>Further wildcards behind a wildcard for any sequence: None is a string with too few characters for them; otherwise the character that ended the
  loop, the pattern at it and behind it, and the rest of the string. (\<open>matchAll\<close> is not 0 here.)\<close>

function skip_wildcards :: "compareInfo \<Rightarrow> byte list \<Rightarrow> byte list \<Rightarrow> (u32 \<times> byte list \<times> byte list \<times> byte list) option" where
  "skip_wildcards I zPattern zString =
     (let (c, z) = Utf8Read zPattern
      in if c \<noteq> 0 \<and> (c = matchAll I \<or> c = matchOne I)
         then if c = matchOne I
              then (let (c2, zString) = sqlite3Utf8Read zString in if c2 = 0 then None else skip_wildcards I z zString)
              else skip_wildcards I z zString
         else Some (c, zPattern, z, zString))"
  by pat_completeness auto
termination
  by (relation "measure (\<lambda>(I, p, s). length p)") (auto simp: Utf8Read_eq dest!: read_shorter sym [of _ "sqlite3Utf8Read _"])

declare skip_wildcards.simps [simp del]

text \<open>The members of a set \<open>[...]\<close>, from the character \<open>c2\<close> on.\<close>

function set_members :: "u32 \<Rightarrow> u32 \<Rightarrow> bool \<Rightarrow> u32 \<Rightarrow> byte list \<Rightarrow> u32 \<times> bool \<times> byte list" where
  "set_members c prior_c seen c2 zPattern =
     (if c2 = 0 \<or> c2 = 0x5d then (c2, seen, zPattern)
      else if c2 = 0x2d \<and> zPattern \<noteq> [] \<and> hd zPattern \<noteq> 0x5d \<and> prior_c > 0
      then let (hi, zPattern) = sqlite3Utf8Read zPattern;
               (c2, zPattern) = sqlite3Utf8Read zPattern
           in set_members c 0 (seen \<or> prior_c \<le> c \<and> c \<le> hi) c2 zPattern
      else let (c3, zPattern) = sqlite3Utf8Read zPattern
           in set_members c c2 (seen \<or> c = c2) c3 zPattern)"
  by pat_completeness auto
termination
proof (relation "measure (\<lambda>(c, prior, seen, c2, p). length p + (if c2 = 0 then 0 else 1))", goal_cases)
  case (2 c prior_c seen c2 p x hi p1 y c3 p2)
  then have "length p1 \<le> length p" "c3 = 0 \<or> length p2 < length p1" "length p2 \<le> length p1"
    using read_le [of p hi p1] read_shorter [of p1 c3 p2] read_le [of p1 c3 p2] by auto
  then show ?case using 2 by (auto split: prod.splits)
next
  case (3 c prior_c seen c2 p x c3 p1)
  then have "c3 = 0 \<or> length p1 < length p" "length p1 \<le> length p" using read_shorter [of p c3 p1] read_le [of p c3 p1] by auto
  then show ?case using 3 by (auto split: prod.splits)
qed simp

declare set_members.simps [simp del]

text \<open>The positions of the string behind a byte of \<open>zStop\<close>, and behind a character.\<close>

fun after_stops :: "byte list \<Rightarrow> byte list \<Rightarrow> byte list list" where
  "after_stops zStop [] = []"
| "after_stops zStop (b # bs) = (if b \<in> set zStop then bs # after_stops zStop bs else after_stops zStop bs)"

function after_char :: "u32 \<Rightarrow> byte list \<Rightarrow> byte list list" where
  "after_char c zString =
     (let (c2, z) = Utf8Read zString in if c2 = 0 then [] else if c2 \<noteq> c then after_char c z else z # after_char c z)"
  by pat_completeness auto
termination
  by (relation "measure (\<lambda>(c, z). length z)") (rule wf_measure, unfold in_measure case_prod_conv Utf8Read_eq, (metis read_shorter)+)

declare after_char.simps [simp del]

fun wild_search :: "(byte list \<Rightarrow> nat) \<Rightarrow> byte list list \<Rightarrow> nat" where
  "wild_search f [] = SQLITE_NOWILDCARDMATCH"
| "wild_search f (z # zs) = (let bMatch = f z in if bMatch \<noteq> SQLITE_NOMATCH then bMatch else wild_search f zs)"

lemma wild_search_cong [fundef_cong]: "xs = ys \<Longrightarrow> (\<And>z. z \<in> set ys \<Longrightarrow> f z = g z) \<Longrightarrow> wild_search f xs = wild_search g ys"
proof (induction xs arbitrary: ys)
  case (Cons x xs)
  have "f x = g x" using Cons.prems by auto
  moreover have "wild_search f xs = wild_search g xs" using Cons by auto
  ultimately show ?case using Cons.prems(1) by (auto simp: Let_def)
qed simp

text \<open>A set against the next character of the string: the rest of pattern and string if it is there and a member.\<close>

definition match_set :: "byte list \<Rightarrow> byte list \<Rightarrow> (byte list \<times> byte list) option" where
  "match_set zPattern zString =
     (let (c, zString) = sqlite3Utf8Read zString
      in if c = 0 then None
         else let (c2, zPattern) = sqlite3Utf8Read zPattern;
                  invert = (c2 = 0x5e);
                  (c2, zPattern) = (if invert then sqlite3Utf8Read zPattern else (c2, zPattern));
                  seen = (c2 = 0x5d \<and> c = 0x5d);
                  (c2, zPattern) = (if c2 = 0x5d then sqlite3Utf8Read zPattern else (c2, zPattern));
                  (c2, seen, zPattern) = set_members c 0 seen c2 zPattern
              in if c2 = 0 \<or> seen = invert then None else Some (zPattern, zString))"

text \<open>One character \<open>c\<close> of the pattern against one of the string, \<open>escaped\<close> if it follows the escape character.\<close>

definition match_char :: "compareInfo \<Rightarrow> u32 \<Rightarrow> bool \<Rightarrow> u32 \<Rightarrow> bool" where
  "match_char I c escaped c2 \<longleftrightarrow> c = c2 \<or> noCase I \<and> sqlite3Tolower c = sqlite3Tolower c2 \<and> c < 0x80 \<and> c2 < 0x80 \<or> c = matchOne I \<and> \<not> escaped \<and> c2 \<noteq> 0"

definition stop_bytes :: "compareInfo \<Rightarrow> u32 \<Rightarrow> byte list" where
  "stop_bytes I c = (if noCase I then [sqlite3Toupper c, sqlite3Tolower c] else [ucast c])"

lemma skip_wildcards_length: "skip_wildcards I p s = Some (c, p1, p2, s1) \<Longrightarrow> length p1 \<le> length p \<and> length p2 \<le> length p1 \<and> sqlite3Utf8Read p1 = (c, p2)"
proof (induction I p s rule: skip_wildcards.induct)
  case (1 I p s)
  obtain d z where d: "sqlite3Utf8Read p = (d, z)" by fastforce
  obtain e s' where e: "sqlite3Utf8Read s = (e, s')" by fastforce
  show ?case
  proof (cases "d \<noteq> 0 \<and> (d = matchAll I \<or> d = matchOne I)")
    case False
    then have "c = d \<and> p1 = p \<and> p2 = z" using 1(3) by (subst (asm) skip_wildcards.simps) (auto simp: Utf8Read_eq d)
    then show ?thesis using read_le [OF d] d by simp
  next
    case True
    then have "if d = matchOne I then e \<noteq> 0 \<and> skip_wildcards I z s' = Some (c, p1, p2, s1) else skip_wildcards I z s = Some (c, p1, p2, s1)"
      using 1(3) by (subst (asm) skip_wildcards.simps) (auto simp: Utf8Read_eq d e split: if_splits)
    then show ?thesis using 1(1) [of "(d, z)" d z] 1(2) [of "(d, z)" d z] True d e read_le [OF d] by (fastforce simp: Utf8Read_eq split: if_splits)
  qed
qed

lemma set_members_length: "set_members c prior seen c2 p = (c3, seen', p') \<Longrightarrow> length p' \<le> length p"
proof (induction c prior seen c2 p rule: set_members.induct)
  case (1 c prior seen c2 p)
  obtain d p1 where d: "sqlite3Utf8Read p = (d, p1)" by fastforce
  obtain e p2 where e: "sqlite3Utf8Read p1 = (e, p2)" by fastforce
  have l: "length p1 \<le> length p" "length p2 \<le> length p1" using read_le d e by auto
  consider "c2 = 0 \<or> c2 = 0x5d" | "\<not> (c2 = 0 \<or> c2 = 0x5d)" "c2 = 0x2d \<and> p \<noteq> [] \<and> hd p \<noteq> 0x5d \<and> prior > 0"
    | "\<not> (c2 = 0 \<or> c2 = 0x5d)" "\<not> (c2 = 0x2d \<and> p \<noteq> [] \<and> hd p \<noteq> 0x5d \<and> prior > 0)" by blast
  then show ?case
  proof cases
    case 1
    then show ?thesis using "1.prems" by (subst (asm) set_members.simps) auto
  next
    case 2
    then have "set_members c 0 (seen \<or> prior \<le> c \<and> c \<le> d) e p2 = (c3, seen', p')"
      using "1.prems" by (subst (asm) set_members.simps) (simp add: d e)
    then show ?thesis using "1.IH"(1) [OF 2 d [symmetric] refl e [symmetric] refl] l by simp
  next
    case 3
    then have "set_members c c2 (seen \<or> c = c2) d p1 = (c3, seen', p')"
      using "1.prems" d by (subst (asm) set_members.simps) auto
    then show ?thesis using "1.IH"(2) [OF 3 d [symmetric] refl] l by simp
  qed
qed

lemma match_set_length: "match_set p s = Some (p', s') \<Longrightarrow> length p' \<le> length p"
proof -
  assume m: "match_set p s = Some (p', s')"
  obtain c s1 where c: "sqlite3Utf8Read s = (c, s1)" by fastforce
  obtain d1 p1 where d1: "sqlite3Utf8Read p = (d1, p1)" by fastforce
  obtain d2 p2 where d2: "(if d1 = 0x5e then sqlite3Utf8Read p1 else (d1, p1)) = (d2, p2)" by fastforce
  obtain d3 p3 where d3: "(if d2 = 0x5d then sqlite3Utf8Read p2 else (d2, p2)) = (d3, p3)" by fastforce
  obtain d4 seen p4 where d4: "set_members c 0 (d2 = 0x5d \<and> c = 0x5d) d3 p3 = (d4, seen, p4)" using prod_cases3 by blast
  have "p' = p4" using m by (simp add: match_set_def c d1 d2 d3 d4 Let_def split: if_splits)
  moreover have "length p1 \<le> length p" "length p2 \<le> length p1" "length p3 \<le> length p2"
    using read_le [OF d1] d2 d3 read_le by (fastforce split: if_splits)+
  ultimately show ?thesis using set_members_length [OF d4] by simp
qed

function patternCompare :: "compareInfo \<Rightarrow> u32 \<Rightarrow> byte list \<Rightarrow> byte list \<Rightarrow> nat" where
  "patternCompare I matchOther zPattern zString =
     (let (c, zPattern) = Utf8Read zPattern
      in if c = 0 then (if zString = [] then SQLITE_MATCH else SQLITE_NOMATCH)
         else if c = matchAll I
         then (case skip_wildcards I zPattern zString of
                 None \<Rightarrow> SQLITE_NOWILDCARDMATCH
               | Some (c, zAt, zPattern, zString) \<Rightarrow>
                   if c = 0 then SQLITE_MATCH
                   else if c = matchOther \<and> matchSet I \<noteq> 0
                   then wild_search (patternCompare I matchOther zAt) (positions zString)
                   else let (c, zPattern) = (if c = matchOther then sqlite3Utf8Read zPattern else (c, zPattern))
                        in if c = 0 then SQLITE_NOWILDCARDMATCH
                           else wild_search (patternCompare I matchOther zPattern)
                                  (if c < 0x80 then after_stops (stop_bytes I c) zString else after_char c zString))
         else if c = matchOther \<and> matchSet I \<noteq> 0
         then (case match_set zPattern zString of None \<Rightarrow> SQLITE_NOMATCH | Some (zPattern, zString) \<Rightarrow> patternCompare I matchOther zPattern zString)
         else let escaped = (c = matchOther);
                  (c, zPattern) = (if escaped then sqlite3Utf8Read zPattern else (c, zPattern))
              in if c = 0 then SQLITE_NOMATCH
                 else let (c2, zString) = Utf8Read zString
                      in if match_char I c escaped c2 then patternCompare I matchOther zPattern zString else SQLITE_NOMATCH)"
  by pat_completeness auto
termination
proof (relation "measure (\<lambda>(I, m, p, s). length p)", goal_cases)
  case (2 I m p s x c p1 x2 c1 ya pa yb p2 s1 z)
  then have "length p1 < length p" "length pa \<le> length p1"
    using read_shorter [of p c p1] skip_wildcards_length [of I p1 s c1 pa p2 s1] by (simp_all add: Utf8Read_eq)
  then show ?case by simp
next
  case (3 I m p s x c p1 x2 c1 ya pa yb p2 s1 xe c2 p3 z)
  then have "length p1 < length p" "length p2 \<le> length p1" "length p3 \<le> length p2"
    using read_shorter [of p c p1] skip_wildcards_length [of I p1 s c1 pa p2 s1] read_le [of p2 c2 p3] by (auto simp: Utf8Read_eq split: if_splits)
  then show ?case by simp
next
  case (4 I m p s x c p1 x2 p2 s1)
  then have "length p1 < length p" "length p2 \<le> length p1"
    using read_shorter [of p c p1] match_set_length [of p1 s p2 s1] by (simp_all add: Utf8Read_eq)
  then show ?case by simp
next
  case (5 I m p s x c p1 e xc c1 p2 xe c2 s1)
  have "p2 = p1 \<or> sqlite3Utf8Read p1 = (c1, p2)" using 5(7,8) by (cases e) auto
  then have "length p2 \<le> length p1" using read_le [of p1 c1 p2] by auto
  moreover have "length p1 < length p" using 5(1-3) read_shorter [of p c p1] by (simp add: Utf8Read_eq)
  ultimately show ?case by simp
qed simp

declare patternCompare.simps [simp del]

text \<open>A pointer that may be NULL is an option.\<close>

definition sqlite3_strglob :: "byte list option \<Rightarrow> byte list option \<Rightarrow> nat" where
  "sqlite3_strglob zGlobPattern zString =
     (case zString of None \<Rightarrow> (if zGlobPattern \<noteq> None then 1 else 0)
      | Some s \<Rightarrow> (case zGlobPattern of None \<Rightarrow> 1 | Some p \<Rightarrow> patternCompare globInfo 0x5b p s))"

definition sqlite3_strlike :: "byte list option \<Rightarrow> byte list option \<Rightarrow> u32 \<Rightarrow> nat" where
  "sqlite3_strlike zPattern zStr esc =
     (case zStr of None \<Rightarrow> (if zPattern \<noteq> None then 1 else 0)
      | Some s \<Rightarrow> (case zPattern of None \<Rightarrow> 1 | Some p \<Rightarrow> patternCompare likeInfoNorm esc p s))"

datatype like_result = Like_Null | Like_Int bool | Like_TooComplex | Like_BadEscape

text \<open>The SQL function with its arguments as text (None for NULL); \<open>nPat\<close> is the length in bytes of the pattern, \<open>zEsc\<close> the third argument if there is one.\<close>

definition likeFunc :: "nat \<Rightarrow> compareInfo \<Rightarrow> nat \<Rightarrow> byte list option option \<Rightarrow> byte list option \<Rightarrow> byte list option \<Rightarrow> like_result" where
  "likeFunc limit pInfo nPat zEsc zB zA =
     (let compare = (\<lambda>pInfo escape. case (zA, zB) of (Some a, Some b) \<Rightarrow> Like_Int (patternCompare pInfo escape b a = SQLITE_MATCH) | _ \<Rightarrow> Like_Null)
      in if nPat > limit then Like_TooComplex
         else case zEsc of
                None \<Rightarrow> compare pInfo (matchSet pInfo)
              | Some None \<Rightarrow> Like_Null
              | Some (Some z) \<Rightarrow>
                  if sqlite3Utf8CharLen z \<noteq> 1 then Like_BadEscape
                  else let escape = fst (sqlite3Utf8Read z);
                           pInfo = (if escape = matchAll pInfo \<or> escape = matchOne pInfo
                                    then let pInfo = (if escape = matchAll pInfo then pInfo\<lparr>matchAll := 0\<rparr> else pInfo)
                                         in if escape = matchOne pInfo then pInfo\<lparr>matchOne := 0\<rparr> else pInfo
                                    else pInfo)
                       in compare pInfo escape)"

section \<open>What a pattern means\<close>

datatype ptok = PAny | POne | PLit u32 | PSet bool "(u32 \<times> u32) list" | PBad

text \<open>The members of a set: single characters and ranges, up to the closing bracket. A range needs a character before the \<open>-\<close> that is not itself the end of
  a range, and one after it.\<close>

fun set_ranges :: "u32 \<Rightarrow> u32 list \<Rightarrow> ((u32 \<times> u32) list \<times> u32 list) option" where
  "set_ranges prior [] = None"
| "set_ranges prior (x # xs) =
     (if x = 0x5d then Some ([], xs)
      else if x = 0x2d \<and> prior \<noteq> 0 \<and> xs \<noteq> [] \<and> hd xs \<noteq> 0x5d
      then map_option (\<lambda>(rs, ys). ((prior, hd xs) # rs, ys)) (set_ranges 0 (tl xs))
      else map_option (\<lambda>(rs, ys). ((x, x) # rs, ys)) (set_ranges x xs))"

definition parse_set :: "u32 list \<Rightarrow> (bool \<times> (u32 \<times> u32) list \<times> u32 list) option" where
  "parse_set xs =
     (let neg = (xs \<noteq> [] \<and> hd xs = 0x5e);
          xs = (if neg then tl xs else xs)
      in if xs \<noteq> [] \<and> hd xs = 0x5d
         then map_option (\<lambda>(rs, ys). (neg, (0x5d, 0x5d) # rs, ys)) (set_ranges 0 (tl xs))
         else map_option (\<lambda>(rs, ys). (neg, rs, ys)) (set_ranges 0 xs))"

lemma set_ranges_length: "set_ranges prior xs = Some (rs, ys) \<Longrightarrow> length ys < length xs"
proof (induction prior xs arbitrary: rs rule: set_ranges.induct)
  case (2 prior x xs)
  show ?case
  proof (cases "x = 0x5d")
    case False
    then show ?thesis using 2 by (cases xs) (auto split: if_splits)
  qed (use 2 in auto)
qed simp

lemma parse_set_length: "parse_set xs = Some (neg, rs, ys) \<Longrightarrow> length ys < length xs"
proof -
  assume a: "parse_set xs = Some (neg, rs, ys)"
  define zs where "zs = (if xs \<noteq> [] \<and> hd xs = 0x5e then tl xs else xs)"
  have "length zs \<le> length xs" by (simp add: zs_def)
  moreover have "length ys < length zs"
    using a unfolding parse_set_def Let_def zs_def [symmetric]
    by (cases zs) (auto split: if_splits dest!: set_ranges_length)
  ultimately show ?thesis by simp
qed

function like_parse :: "compareInfo \<Rightarrow> u32 \<Rightarrow> u32 list \<Rightarrow> ptok list" where
  "like_parse I m [] = []"
| "like_parse I m (c # cs) =
     (if c = matchAll I then PAny # like_parse I m cs
      else if c = m \<and> matchSet I \<noteq> 0
      then (case parse_set cs of None \<Rightarrow> [PBad] | Some (neg, rs, ds) \<Rightarrow> PSet neg rs # like_parse I m ds)
      else if c = m then (case cs of [] \<Rightarrow> [PBad] | d # ds \<Rightarrow> PLit d # like_parse I m ds)
      else if c = matchOne I then POne # like_parse I m cs
      else PLit c # like_parse I m cs)"
  by pat_completeness auto
termination by (relation "measure (\<lambda>(I, m, cs). length cs)") (auto dest!: parse_set_length)

text \<open>A literal matches its character and, with \<open>noCase\<close>, an ASCII letter also that of the other case.\<close>

definition lit_match :: "compareInfo \<Rightarrow> u32 \<Rightarrow> u32 \<Rightarrow> bool" where
  "lit_match I c x \<longleftrightarrow> x = c \<or> noCase I \<and> c < 0x80 \<and> x < 0x80 \<and> sqlite3Tolower c = sqlite3Tolower x"

definition one_match :: "compareInfo \<Rightarrow> ptok \<Rightarrow> u32 \<Rightarrow> bool" where
  "one_match I t x = (case t of PAny \<Rightarrow> False | POne \<Rightarrow> True | PLit c \<Rightarrow> lit_match I c x
                       | PSet neg rs \<Rightarrow> list_ex (\<lambda>(lo, hi). lo \<le> x \<and> x \<le> hi) rs \<noteq> neg | PBad \<Rightarrow> False)"

fun tails :: "'a list \<Rightarrow> 'a list list" where
  "tails [] = [[]]"
| "tails (x # xs) = (x # xs) # tails xs"

primrec like_match :: "compareInfo \<Rightarrow> ptok list \<Rightarrow> u32 list \<Rightarrow> bool" where
  "like_match I [] xs = (xs = [])"
| "like_match I (t # ts) xs = (if t = PAny then list_ex (like_match I ts) (tails xs) else (xs \<noteq> [] \<and> one_match I t (hd xs) \<and> like_match I ts (tl xs)))"

section \<open>Lemmas\<close>

subsection \<open>Wildcards\<close>

lemma tails_drop: "ys \<in> set (tails xs) \<longleftrightarrow> (\<exists>k. ys = drop k xs)"
proof (induction xs)
  case (Cons x xs)
  have "(\<exists>k. ys = drop k (x # xs)) \<longleftrightarrow> ys = x # xs \<or> (\<exists>k. ys = drop k xs)" by (metis drop0 drop_Suc_Cons not0_implies_Suc)
  then show ?case using Cons by simp
qed simp

lemma tails_trans: "ys \<in> set (tails xs) \<Longrightarrow> zs \<in> set (tails ys) \<Longrightarrow> zs \<in> set (tails xs)"
  by (auto simp: tails_drop)

lemma tails_refl: "xs \<in> set (tails xs)"
  by (cases xs) auto

lemma match_any: "like_match I (PAny # ts) xs \<longleftrightarrow> (\<exists>ys\<in>set (tails xs). like_match I ts ys)"
  by (simp add: list_ex_iff)

lemma match_any_any: "like_match I (PAny # PAny # ts) xs \<longleftrightarrow> like_match I (PAny # ts) xs"
  using tails_trans tails_refl unfolding match_any by blast

lemma tails_Cons: "y # ys \<in> set (tails xs) \<Longrightarrow> xs \<noteq> [] \<and> ys \<in> set (tails (tl xs))"
  by (cases xs) (auto simp: tails_refl intro: tails_trans [of "y # ys"])

lemma tails_prev: "ys \<in> set (tails xs) \<Longrightarrow> \<exists>y. y # ys \<in> set (tails (x # xs))"
proof (induction xs arbitrary: x)
  case (Cons z xs)
  then show ?case by (metis list.set_intros(1,2) set_ConsD tails.simps(2))
qed simp

lemma match_any_one: "like_match I (PAny # POne # ts) xs \<longleftrightarrow> xs \<noteq> [] \<and> like_match I (PAny # ts) (tl xs)"
proof
  assume "like_match I (PAny # POne # ts) xs"
  then obtain y ys where y: "y # ys \<in> set (tails xs)" "like_match I ts ys" unfolding match_any by (auto simp: neq_Nil_conv)
  show "xs \<noteq> [] \<and> like_match I (PAny # ts) (tl xs)" using tails_Cons [OF y(1)] y(2) unfolding match_any by fast
next
  assume a: "xs \<noteq> [] \<and> like_match I (PAny # ts) (tl xs)"
  then obtain ys where "ys \<in> set (tails (tl xs))" "like_match I ts ys" unfolding match_any by blast
  then obtain y where "y # ys \<in> set (tails xs)" using tails_prev [of ys "tl xs" "hd xs"] a by auto
  then show "like_match I (PAny # POne # ts) xs" using \<open>like_match I ts ys\<close> unfolding match_any by (auto simp: one_match_def intro!: bexI [of _ "y # ys"])
qed

lemma match_later: "t \<noteq> PAny \<Longrightarrow> like_match I (PAny # t # ts) (x # xs) \<Longrightarrow> like_match I (PAny # ts) xs"
proof -
  assume t: "t \<noteq> PAny" and "like_match I (PAny # t # ts) (x # xs)"
  then obtain ys where ys: "ys \<in> set (tails (x # xs))" "like_match I (t # ts) ys" unfolding match_any by blast
  then have y: "ys = hd ys # tl ys" "like_match I ts (tl ys)" using t by simp_all
  have "hd ys # tl ys \<in> set (tails (x # xs))" using ys(1) y(1) by simp
  from tails_Cons [OF this] show ?thesis using y(2) unfolding match_any by auto
qed

subsection \<open>The positions that are tried\<close>

fun cands :: "('a \<Rightarrow> bool) \<Rightarrow> 'a list \<Rightarrow> 'a list list" where
  "cands P [] = []"
| "cands P (x # xs) = (if P x then xs # cands P xs else cands P xs)"

lemma cands_iff: "ys \<in> set (cands P xs) \<longleftrightarrow> (\<exists>y. y # ys \<in> set (tails xs) \<and> P y)"
  by (induction xs) auto

lemma cands_tails: "ys \<in> set (cands P xs) \<Longrightarrow> ys \<in> set (tails xs)"
  by (induction xs) (auto simp: tails_refl split: if_splits)

lemma cands_sorted: "sorted_wrt (\<lambda>xs ys. ys \<in> set (tails xs)) (cands P xs)"
  by (induction xs) (auto simp: cands_tails)

lemma tails_sorted: "sorted_wrt (\<lambda>xs ys. ys \<in> set (tails xs)) (tails xs)"
  by (induction xs) auto

lemma match_any_lit: "like_match I (PAny # PLit c # ts) xs \<longleftrightarrow> (\<exists>ys\<in>set (cands (lit_match I c) xs). like_match I ts ys)"
proof -
  have "like_match I (PLit c # ts) ys \<longleftrightarrow> (\<exists>z zs. ys = z # zs \<and> lit_match I c z \<and> like_match I ts zs)" for ys
    by (cases ys) (auto simp: one_match_def)
  then have "like_match I (PAny # PLit c # ts) xs \<longleftrightarrow> (\<exists>z zs. z # zs \<in> set (tails xs) \<and> lit_match I c z \<and> like_match I ts zs)"
    unfolding match_any by (metis (no_types, lifting))
  then show ?thesis unfolding Bex_def cands_iff by blast
qed

lemma continuation_high: "b AND 0xc0 = 0x80 \<Longrightarrow> \<not> (b :: byte) < 0x80"
  using word_and_le2 [of b "0xc0"] by simp

lemma after_stops_cont: "\<forall>b\<in>set stop. b < 0x80 \<Longrightarrow> after_stops stop bs = after_stops stop (snd (utf8_rest c bs))"
proof (induction c bs rule: utf8_rest.induct)
  case (2 c b bs)
  then show ?case using continuation_high [of b] by auto
qed simp

lemma after_stops_chars:
  assumes "\<forall>b\<in>set stop. b < 0x80"
  shows "map utf8_chars (after_stops stop z) = cands (\<lambda>x. \<exists>b\<in>set stop. x = ucast b) (utf8_chars z)"
proof (induction z rule: utf8_chars.induct)
  case (2 b bs)
  obtain c z where r: "sqlite3Utf8Read (b # bs) = (c, z)" by fastforce
  have m: "(\<exists>d\<in>set stop. c = ucast d) \<longleftrightarrow> b \<in> set stop" using read_first_byte [OF r] assms by auto
  have "after_stops stop z = after_stops stop bs \<and> (b \<in> set stop \<longrightarrow> z = bs)"
    using read_cons [OF r]
  proof
    assume "b < 0xc0 \<and> c = ucast b \<and> z = bs"
    then show ?thesis by simp
  next
    assume a: "\<not> b < 0xc0 \<and> 0x80 \<le> c \<and> (\<exists>d. z = snd (utf8_rest d bs))"
    have "b \<notin> set stop"
    proof
      assume "b \<in> set stop"
      then have "b < 0x80" using assms by simp
      then show False using a by (simp add: word_less_nat_alt)
    qed
    then show ?thesis using a after_stops_cont [OF assms, of bs] by auto
  qed
  then show ?case using 2 r m by simp
qed simp

lemma after_char_chars: "0 \<notin> set z \<Longrightarrow> map utf8_chars (after_char c z) = cands (\<lambda>x. x = c) (utf8_chars z)"
proof (induction c z rule: after_char.induct)
  case (1 c z)
  obtain d z' where r: "sqlite3Utf8Read z = (d, z')" by fastforce
  have IH: "d \<noteq> 0 \<Longrightarrow> 0 \<notin> set z' \<Longrightarrow> map utf8_chars (after_char c z') = cands (\<lambda>x. x = c) (utf8_chars z')"
    using 1(1,2) r by (cases "d = c") (auto simp: Utf8Read_eq)
  show ?case using read_at [OF r 1(3)] IH by (subst after_char.simps) (auto simp: Utf8Read_eq r)
qed

lemma positions_chars: "map utf8_chars (positions z) @ [[]] = tails (utf8_chars z)"
proof (induction z rule: positions.induct)
  case (2 b bs)
  then show ?case by (simp only: positions.simps utf8_chars.simps skip_read tails.simps list.map append.simps)
qed simp

lemma wild_search_iff:
  assumes "\<forall>z\<in>set zs. f z \<le> 2 \<and> (f z = 0 \<longleftrightarrow> Q (h z)) \<and> (f z = 2 \<longrightarrow> (\<forall>y\<in>set (tails (h z)). \<not> Q y))"
    and "sorted_wrt (\<lambda>xs ys. ys \<in> set (tails xs)) (map h zs)"
  shows "(wild_search f zs = 0 \<longleftrightarrow> (\<exists>z\<in>set zs. Q (h z))) \<and> (wild_search f zs = 0 \<or> wild_search f zs = 2)"
  using assms
proof (induction zs)
  case (Cons z zs)
  consider "f z = 0" | "f z = 1" | "f z = 2" using Cons.prems(1) by fastforce
  then show ?case
  proof cases
    case 3
    then have "\<not> Q (h z)" "\<forall>y\<in>set zs. \<not> Q (h y)" using Cons.prems by auto
    then show ?thesis using 3 by auto
  qed (use Cons in auto)
qed simp

subsection \<open>Bytes that stand for a literal\<close>

lemma ctype_lower: "(c :: byte) < 0x80 \<Longrightarrow> sqlite3CtypeMap ! unat c AND 0x20 = (if 0x61 \<le> c \<and> c \<le> 0x7a then 0x20 else 0)"
proof -
  have all: "\<forall>n\<in>set [0..<128]. sqlite3CtypeMap ! n AND 0x20 = (if 97 \<le> n \<and> n \<le> 122 then 0x20 else 0)"
    by code_simp
  assume "c < 0x80"
  then have "unat c \<in> set [0..<128]" by (simp add: word_less_nat_alt)
  then show ?thesis using all by (simp only: word_le_nat_alt) simp
qed

lemma toupper_ascii: "c < 0x80 \<Longrightarrow> sqlite3Toupper c = (if 0x61 \<le> c \<and> c \<le> 0x7a then ucast c - 0x20 else ucast c)"
proof -
  assume c: "c < 0x80"
  define b where "b = (ucast c :: byte)"
  have u: "unat b = unat c" using c by (simp add: b_def unat_low)
  have "b < 0x80" using c u by (simp add: word_less_nat_alt)
  then have s: "sqlite3Toupper c = b AND NOT (if 0x61 \<le> b \<and> b \<le> 0x7a then 0x20 else 0)"
    by (simp add: sqlite3Toupper_def b_def [symmetric] ctype_lower)
  have "b AND NOT 0x20 = b - 0x20" if "0x61 \<le> b \<and> b \<le> 0x7a"
  proof -
    have "\<forall>n\<in>set [97..<123]. (word_of_nat n :: byte) AND NOT 0x20 = word_of_nat n - 0x20" by code_simp
    moreover have "unat b \<in> set [97..<123]" using that by (simp only: set_upt atLeastLessThan_iff word_le_nat_alt) simp
    ultimately have "(word_of_nat (unat b) :: byte) AND NOT 0x20 = word_of_nat (unat b) - 0x20" by blast
    then show ?thesis by simp
  qed
  moreover have "(0x61 \<le> b \<and> b \<le> 0x7a) = (0x61 \<le> c \<and> c \<le> 0x7a)" using u by (simp add: word_le_nat_alt)
  ultimately show ?thesis using s by (simp add: b_def)
qed

lemma stop_bytes_lit:
  assumes "c < 0x80"
  shows "(\<lambda>x. \<exists>b\<in>set (stop_bytes I c). x = ucast b) = lit_match I c" "\<forall>b\<in>set (stop_bytes I c). b < 0x80"
proof -
  define b where "b = (ucast c :: byte)"
  have u: "unat b = unat c" using assms by (simp add: b_def unat_low)
  have cb: "c = ucast b" using assms by (simp add: b_def ucast_low)
  have b: "b < 0x80" using assms u by (simp add: word_less_nat_alt)
  have le: "(0x61 \<le> c \<and> c \<le> 0x7a) = (0x61 \<le> b \<and> b \<le> 0x7a)" using u by (simp add: word_le_nat_alt)
  have up: "sqlite3Toupper c = (if 0x61 \<le> b \<and> b \<le> 0x7a then b - 0x20 else b)" using toupper_ascii [OF assms] le b_def by simp
  have lo: "sqlite3Tolower c = sqlite3UpperToLower b" by (simp add: sqlite3Tolower_def b_def)
  have two: "(d = (if 0x61 \<le> b \<and> b \<le> 0x7a then b - 0x20 else b) \<or> d = sqlite3UpperToLower b) \<longleftrightarrow> d = b \<or> d < 0x80 \<and> sqlite3UpperToLower b = sqlite3UpperToLower d" for d
    using b by (auto simp: word_unat_eq_iff upper_to_lower_unat word_le_nat_alt word_less_nat_alt unat_sub split: if_splits)
  show "\<forall>b\<in>set (stop_bytes I c). b < 0x80"
    using b by (auto simp: stop_bytes_def up lo b_def [symmetric] word_less_nat_alt upper_to_lower_unat word_le_nat_alt unat_sub)
  show "(\<lambda>x. \<exists>b\<in>set (stop_bytes I c). x = ucast b) = lit_match I c"
  proof
    fix x :: u32
    show "(\<exists>b\<in>set (stop_bytes I c). x = ucast b) = lit_match I c x"
    proof (cases "noCase I")
      case False
      then show ?thesis by (simp add: stop_bytes_def lit_match_def ucast_low [OF assms])
    next
      case True
      have "(\<exists>b\<in>set (stop_bytes I c). x = ucast b) \<longleftrightarrow> (\<exists>d. x = ucast d \<and> (d = b \<or> d < 0x80 \<and> sqlite3UpperToLower b = sqlite3UpperToLower d))"
        unfolding two [symmetric] using True up lo by (auto simp: stop_bytes_def)
      also have "\<dots> \<longleftrightarrow> x = c \<or> x < 0x80 \<and> sqlite3UpperToLower b = sqlite3Tolower x"
      proof
        assume "\<exists>d. x = ucast d \<and> (d = b \<or> d < 0x80 \<and> sqlite3UpperToLower b = sqlite3UpperToLower d)"
        then show "x = c \<or> x < 0x80 \<and> sqlite3UpperToLower b = sqlite3Tolower x" by (auto simp: cb ucast_byte_less sqlite3Tolower_def ucast_ucast_byte)
      next
        assume "x = c \<or> x < 0x80 \<and> sqlite3UpperToLower b = sqlite3Tolower x"
        then show "\<exists>d. x = ucast d \<and> (d = b \<or> d < 0x80 \<and> sqlite3UpperToLower b = sqlite3UpperToLower d)"
        proof
          assume x: "x < 0x80 \<and> sqlite3UpperToLower b = sqlite3Tolower x"
          then have "x = ucast (ucast x :: byte)" by (simp add: ucast_low)
          moreover from this x have "(ucast x :: byte) < 0x80" by (metis ucast_byte_less)
          ultimately show ?thesis using x unfolding sqlite3Tolower_def by blast
        qed (use cb in blast)
      qed
      finally show ?thesis using True assms lo by (simp add: lit_match_def)
    qed
  qed
qed

subsection \<open>Parts of the pattern\<close>

text \<open>The special characters of the pattern are told apart.\<close>

definition like_ok :: "compareInfo \<Rightarrow> u32 \<Rightarrow> bool" where
  "like_ok I m \<longleftrightarrow> matchOne I = 0 \<or> matchOne I \<noteq> m \<and> matchOne I \<noteq> matchAll I"

lemma skip_wildcards_spec:
  assumes "like_ok I m" "0 \<notin> set p" "0 \<notin> set s"
  shows "case skip_wildcards I p s of
      None \<Rightarrow> \<not> like_match I (PAny # like_parse I m (utf8_chars p)) (utf8_chars s)
    | Some (c, p1, p2, s1) \<Rightarrow> sqlite3Utf8Read p1 = (c, p2) \<and> 0 \<notin> set p1 \<and> 0 \<notin> set s1 \<and> (c = 0 \<or> c \<noteq> matchAll I \<and> c \<noteq> matchOne I)
        \<and> (like_match I (PAny # like_parse I m (utf8_chars p)) (utf8_chars s) \<longleftrightarrow> like_match I (PAny # like_parse I m (utf8_chars p1)) (utf8_chars s1))"
  using assms
proof (induction I p s rule: skip_wildcards.induct)
  case (1 I p s)
  obtain c z where c: "sqlite3Utf8Read p = (c, z)" by fastforce
  obtain x s' where x: "sqlite3Utf8Read s = (x, s')" by fastforce
  note pc = read_at [OF c 1(4)] and sx = read_at [OF x 1(5)]
  consider "c = 0 \<or> c \<noteq> matchAll I \<and> c \<noteq> matchOne I" | "c \<noteq> 0" "c = matchOne I" | "c \<noteq> 0" "c = matchAll I" "c \<noteq> matchOne I" by blast
  then show ?case
  proof cases
    case 1
    then have "skip_wildcards I p s = Some (c, p, z, s)" by (subst skip_wildcards.simps) (auto simp: Utf8Read_eq c)
    then show ?thesis using 1 c "1.prems" by simp
  next
    case 2
    then have par: "like_parse I m (utf8_chars p) = POne # like_parse I m (utf8_chars z)" "0 \<notin> set z" using pc "1.prems"(1) by (auto simp: like_ok_def)
    have sk: "skip_wildcards I p s = (if x = 0 then None else skip_wildcards I z s')"
      using 2 by (subst skip_wildcards.simps) (auto simp: Utf8Read_eq c x)
    show ?thesis
    proof (cases "x = 0")
      case True
      then have "utf8_chars s = []" using sx by simp
      then show ?thesis using True unfolding sk par(1) match_any_one by simp
    next
      case False
      then have "utf8_chars s \<noteq> []" "tl (utf8_chars s) = utf8_chars s'" "0 \<notin> set s'" using sx by auto
      then have eq: "like_match I (PAny # like_parse I m (utf8_chars p)) (utf8_chars s) = like_match I (PAny # like_parse I m (utf8_chars z)) (utf8_chars s')"
        unfolding par(1) match_any_one by simp
      show ?thesis using "1.IH"(1) [of "(c, z)" c z "(x, s')" x s'] False 2 c x par(2) "1.prems"(1) \<open>0 \<notin> set s'\<close>
        unfolding sk eq by (simp add: Utf8Read_eq)
    qed
  next
    case 3
    then have par: "like_parse I m (utf8_chars p) = PAny # like_parse I m (utf8_chars z)" "0 \<notin> set z" using pc by auto
    have sk: "skip_wildcards I p s = skip_wildcards I z s" using 3 by (subst skip_wildcards.simps) (auto simp: Utf8Read_eq c)
    show ?thesis using "1.IH"(2) [of "(c, z)" c z] 3 c par(2) "1.prems" unfolding sk par(1) match_any_any by (simp add: Utf8Read_eq)
  qed
qed

lemma set_members_spec:
  assumes "0 \<notin> set p" "c2 = 0 \<Longrightarrow> p = []"
  shows "case set_ranges prior (if c2 = 0 then [] else c2 # utf8_chars p) of
      None \<Rightarrow> fst (set_members c prior seen c2 p) = 0
    | Some (rs, ys) \<Rightarrow> \<exists>p'. set_members c prior seen c2 p = (0x5d, seen \<or> list_ex (\<lambda>(lo, hi). lo \<le> c \<and> c \<le> hi) rs, p') \<and> utf8_chars p' = ys \<and> 0 \<notin> set p'"
  using assms
proof (induction c prior seen c2 p rule: set_members.induct)
  case (1 c prior seen c2 p)
  obtain d p1 where d: "sqlite3Utf8Read p = (d, p1)" by fastforce
  obtain e p2 where e: "sqlite3Utf8Read p1 = (e, p2)" by fastforce
  note pd = read_at [OF d 1(3)]
  consider "c2 = 0 \<or> c2 = 0x5d" | "\<not> (c2 = 0 \<or> c2 = 0x5d)" "c2 = 0x2d \<and> p \<noteq> [] \<and> hd p \<noteq> 0x5d \<and> prior > 0"
    | "\<not> (c2 = 0 \<or> c2 = 0x5d)" "\<not> (c2 = 0x2d \<and> p \<noteq> [] \<and> hd p \<noteq> 0x5d \<and> prior > 0)" by blast
  then show ?case
  proof cases
    case 1
    then have "set_members c prior seen c2 p = (c2, seen, p)" by (subst set_members.simps) auto
    then show ?thesis using 1 "1.prems" by auto
  next
    case 2
    have p: "utf8_chars p = d # utf8_chars p1" "0 \<notin> set p1" "d \<noteq> 0x5d"
      using pd 2(2) read_first_byte [of "hd p" "tl p" d p1 "0x5d"] d by auto
    have n: "(if e = 0 then [] else e # utf8_chars p2) = utf8_chars p1" "0 \<notin> set p2" "e = 0 \<longrightarrow> p2 = []" using read_at [OF e p(2)] by auto
    have sm: "set_members c prior seen c2 p = set_members c 0 (seen \<or> prior \<le> c \<and> c \<le> d) e p2"
      using 2 d e by (subst set_members.simps) simp
    have sr: "set_ranges prior (c2 # utf8_chars p) = map_option (\<lambda>(rs, ys). ((prior, d) # rs, ys)) (set_ranges 0 (utf8_chars p1))"
      using 2 p by (simp add: word_neq_0_conv)
    have IH: "case set_ranges 0 (utf8_chars p1) of None \<Rightarrow> fst (set_members c 0 (seen \<or> prior \<le> c \<and> c \<le> d) e p2) = 0
      | Some (rs, ys) \<Rightarrow> \<exists>p'. set_members c 0 (seen \<or> prior \<le> c \<and> c \<le> d) e p2
            = (0x5d, (seen \<or> prior \<le> c \<and> c \<le> d) \<or> list_ex (\<lambda>(lo, hi). lo \<le> c \<and> c \<le> hi) rs, p') \<and> utf8_chars p' = ys \<and> 0 \<notin> set p'"
      using "1.IH"(1) [OF 2 d [symmetric] refl e [symmetric] refl] n by simp
    have g: "(if c2 = 0 then [] else c2 # utf8_chars p) = c2 # utf8_chars p" using 2(1) by simp
    show ?thesis unfolding g sr sm using IH by (cases "set_ranges 0 (utf8_chars p1)") auto
  next
    case 3
    have n: "(if d = 0 then [] else d # utf8_chars p1) = utf8_chars p" "0 \<notin> set p1" "d = 0 \<longrightarrow> p1 = []" using pd by auto
    have sm: "set_members c prior seen c2 p = set_members c c2 (seen \<or> c = c2) d p1"
      using 3 d by (subst set_members.simps) auto
    have h: "hd (utf8_chars p) = 0x5d \<longleftrightarrow> hd p = 0x5d" if "p \<noteq> []"
      using that pd read_first_byte [of "hd p" "tl p" d p1 "0x5d"] d by auto
    have sr: "set_ranges prior (c2 # utf8_chars p) = map_option (\<lambda>(rs, ys). ((c2, c2) # rs, ys)) (set_ranges c2 (utf8_chars p))"
      using 3 h by (auto simp: chars_Nil word_neq_0_conv)
    have IH: "case set_ranges c2 (utf8_chars p) of None \<Rightarrow> fst (set_members c c2 (seen \<or> c = c2) d p1) = 0
      | Some (rs, ys) \<Rightarrow> \<exists>p'. set_members c c2 (seen \<or> c = c2) d p1
            = (0x5d, (seen \<or> c = c2) \<or> list_ex (\<lambda>(lo, hi). lo \<le> c \<and> c \<le> hi) rs, p') \<and> utf8_chars p' = ys \<and> 0 \<notin> set p'"
      using "1.IH"(2) [OF 3 d [symmetric] refl] n by simp
    have g: "(if c2 = 0 then [] else c2 # utf8_chars p) = c2 # utf8_chars p" using 3(1) by simp
    have "(c = c2) = (c2 \<le> c \<and> c \<le> c2)" by auto
    then show ?thesis unfolding g sr sm using IH by (cases "set_ranges c2 (utf8_chars p)") auto
  qed
qed

lemma match_set_spec:
  assumes "0 \<notin> set p" "0 \<notin> set s" "utf8_chars s = x # xs"
  shows "case parse_set (utf8_chars p) of None \<Rightarrow> match_set p s = None
    | Some (neg, rs, ds) \<Rightarrow> if one_match I (PSet neg rs) x then \<exists>p' s'. match_set p s = Some (p', s') \<and> utf8_chars p' = ds \<and> utf8_chars s' = xs \<and> 0 \<notin> set p' \<and> 0 \<notin> set s'
        else match_set p s = None"
proof -
  obtain c s1 where c: "sqlite3Utf8Read s = (c, s1)" by fastforce
  have s1: "c = x" "c \<noteq> 0" "utf8_chars s1 = xs" "0 \<notin> set s1" using read_at [OF c assms(2)] assms(3) by auto
  obtain d1 p1 where d1: "sqlite3Utf8Read p = (d1, p1)" by fastforce
  obtain d2 p2 where d2: "(if d1 = 0x5e then sqlite3Utf8Read p1 else (d1, p1)) = (d2, p2)" by fastforce
  obtain d3 p3 where d3: "(if d2 = 0x5d then sqlite3Utf8Read p2 else (d2, p2)) = (d3, p3)" by fastforce
  define q where "q = (if d1 = 0x5e then tl (utf8_chars p) else utf8_chars p)"
  have r1: "d1 = 0 \<and> p1 = [] \<and> utf8_chars p = [] \<or> d1 \<noteq> 0 \<and> utf8_chars p = d1 # utf8_chars p1 \<and> 0 \<notin> set p1" using read_at [OF d1 assms(1)] by auto
  have r2: "d2 = 0 \<and> p2 = [] \<and> q = [] \<or> d2 \<noteq> 0 \<and> q = d2 # utf8_chars p2 \<and> 0 \<notin> set p2"
    using r1 d2 read_at [of p1 d2 p2] by (auto simp: q_def split: if_splits)
  define q3 where "q3 = (if d2 = 0x5d then tl q else q)"
  have r3: "d3 = 0 \<and> p3 = [] \<and> q3 = [] \<or> d3 \<noteq> 0 \<and> q3 = d3 # utf8_chars p3 \<and> 0 \<notin> set p3"
    using r2 d3 read_at [of p2 d3 p3] by (auto simp: q3_def split: if_splits)
  let ?seen = "d2 = 0x5d \<and> c = 0x5d"
  have p3: "0 \<notin> set p3" "d3 = 0 \<Longrightarrow> p3 = []" "(if d3 = 0 then [] else d3 # utf8_chars p3) = q3" using r3 by auto
  have ps: "parse_set (utf8_chars p) = map_option (\<lambda>(rs, ys). (d1 = 0x5e, if d2 = 0x5d then (0x5d, 0x5d) # rs else rs, ys)) (set_ranges 0 q3)"
    using r1 r2 by (auto simp: parse_set_def Let_def q3_def q_def [symmetric] split: if_splits) (auto simp: q_def)
  have ms: "match_set p s = (let (c2, seen, z) = set_members c 0 ?seen d3 p3 in if c2 = 0 \<or> seen = (d1 = 0x5e) then None else Some (z, s1))"
    using s1(2) by (simp add: match_set_def c d1 d2 d3 Let_def)
  have sp: "case set_ranges 0 q3 of None \<Rightarrow> fst (set_members c 0 ?seen d3 p3) = 0
    | Some (rs, ys) \<Rightarrow> \<exists>p'. set_members c 0 ?seen d3 p3 = (0x5d, ?seen \<or> list_ex (\<lambda>(lo, hi). lo \<le> c \<and> c \<le> hi) rs, p') \<and> utf8_chars p' = ys \<and> 0 \<notin> set p'"
    using set_members_spec [OF p3(1), of d3 c 0 ?seen] p3(2) unfolding p3(3) by blast
  show ?thesis
  proof (cases "set_ranges 0 q3")
    case None
    then show ?thesis using sp by (simp add: ps ms case_prod_beta)
  next
    case (Some a)
    obtain rs ys where a: "a = (rs, ys)" by fastforce
    obtain p' where p': "set_members c 0 ?seen d3 p3 = (0x5d, ?seen \<or> list_ex (\<lambda>(lo, hi). lo \<le> c \<and> c \<le> hi) rs, p')" "utf8_chars p' = ys" "0 \<notin> set p'"
      using sp Some a by auto
    have "(?seen \<or> list_ex (\<lambda>(lo, hi). lo \<le> c \<and> c \<le> hi) rs) = list_ex (\<lambda>(lo, hi). lo \<le> x \<and> x \<le> hi) (if d2 = 0x5d then (0x5d, 0x5d) # rs else rs)"
      using s1(1) by (cases "d2 = 0x5d") auto
    then show ?thesis using s1 p' by (simp add: ps ms Some a one_match_def)
  qed
qed

subsection \<open>The search is exact\<close>

lemma match_char_lit: "c \<noteq> matchOne I \<or> escaped \<Longrightarrow> c2 \<noteq> 0 \<Longrightarrow> match_char I c escaped c2 \<longleftrightarrow> lit_match I c c2"
  by (auto simp: match_char_def lit_match_def)

lemma lower_zero: "c < 0x80 \<Longrightarrow> sqlite3Tolower c = sqlite3Tolower 0 \<Longrightarrow> c = 0"
  using ucast_low [of c] upper_to_lower_eq_0 [of "ucast c"] by (simp add: sqlite3Tolower_def)

lemma match_char_zero: "c \<noteq> 0 \<Longrightarrow> \<not> match_char I c escaped 0"
  using lower_zero by (auto simp: match_char_def)

definition pc_ok :: "compareInfo \<Rightarrow> ptok list \<Rightarrow> u32 list \<Rightarrow> nat \<Rightarrow> bool" where
  "pc_ok I ts xs r \<longleftrightarrow> r \<le> 2 \<and> (r = 0 \<longleftrightarrow> like_match I ts xs) \<and> (r = 2 \<longrightarrow> \<not> like_match I (PAny # ts) xs)"

lemma pc_ok_any: "r = 0 \<or> r = 2 \<Longrightarrow> (r = 0 \<longleftrightarrow> like_match I (PAny # ts) xs) \<Longrightarrow> pc_ok I (PAny # ts) xs r"
  unfolding pc_ok_def match_any_any by auto

lemma pc_ok_step: "t \<noteq> PAny \<Longrightarrow> one_match I t x \<Longrightarrow> pc_ok I ts xs r \<Longrightarrow> pc_ok I (t # ts) (x # xs) r"
  using match_later [of t I ts x xs] unfolding pc_ok_def by auto

lemma pc_ok_fail: "t \<noteq> PAny \<Longrightarrow> xs = [] \<or> \<not> one_match I t (hd xs) \<Longrightarrow> pc_ok I (t # ts) xs (Suc 0)"
  by (auto simp: pc_ok_def)

lemma pc_ok_search:
  assumes "\<forall>z\<in>set zs. pc_ok I ts (utf8_chars z) (f z)" "sorted_wrt (\<lambda>xs ys. ys \<in> set (tails xs)) (map utf8_chars zs)"
  shows "(wild_search f zs = 0 \<longleftrightarrow> (\<exists>z\<in>set zs. like_match I ts (utf8_chars z))) \<and> (wild_search f zs = 0 \<or> wild_search f zs = 2)"
  using assms(1) unfolding pc_ok_def match_any by (intro wild_search_iff [OF _ assms(2)]) auto

lemma search_lit:
  fixes c :: u32
  assumes "\<forall>z. 0 \<notin> set z \<longrightarrow> pc_ok I ts (utf8_chars z) (f z)" "0 \<notin> set s"
  defines "zs \<equiv> if c < 0x80 then after_stops (stop_bytes I c) s else after_char c s"
  shows "(wild_search f zs = 0 \<longleftrightarrow> like_match I (PAny # PLit c # ts) (utf8_chars s)) \<and> (wild_search f zs = 0 \<or> wild_search f zs = 2)"
proof -
  have "lit_match I c = (\<lambda>x. x = c)" if "\<not> c < 0x80" using that by (auto simp: lit_match_def)
  then have m: "map utf8_chars zs = cands (lit_match I c) (utf8_chars s)"
    using stop_bytes_lit [of c I] after_stops_chars [of "stop_bytes I c" s] after_char_chars [OF assms(2), of c] by (auto simp: zs_def)
  have "set z \<subseteq> set s" if "z \<in> set (after_stops st s)" for z st using that by (induction s) (auto split: if_splits)
  moreover have "0 \<notin> set z" if "z \<in> set (after_char c s)" for z
    using that assms(2)
  proof (induction c s rule: after_char.induct)
    case (1 c s)
    obtain d s' where d: "sqlite3Utf8Read s = (d, s')" by fastforce
    then show ?case using 1 read_at [OF d 1(4)] by (subst (asm) (3) after_char.simps) (auto simp: Utf8Read_eq split: if_splits)
  qed
  ultimately have "\<forall>z\<in>set zs. 0 \<notin> set z" using assms(2) by (auto simp: zs_def)
  then have "\<forall>z\<in>set zs. pc_ok I ts (utf8_chars z) (f z)" using assms(1) by simp
  from pc_ok_search [OF this] m show ?thesis using cands_sorted [of "lit_match I c" "utf8_chars s"] unfolding match_any_lit
    by (metis (no_types, lifting) image_iff list.set_map)
qed

lemma search_set:
  assumes "\<forall>z. 0 \<notin> set z \<longrightarrow> pc_ok I (t # ts) (utf8_chars z) (f z)" "0 \<notin> set s" "t \<noteq> PAny"
  shows "(wild_search f (positions s) = 0 \<longleftrightarrow> like_match I (PAny # t # ts) (utf8_chars s)) \<and> (wild_search f (positions s) = 0 \<or> wild_search f (positions s) = 2)"
proof -
  have "set z \<subseteq> set s" if "z \<in> set (positions s)" for z
    using that
  proof (induction s rule: positions.induct)
    case (2 b bs)
    have "set (SKIP_UTF8 (b # bs)) \<subseteq> set (b # bs)" by (auto simp: SKIP_UTF8_def dest: set_dropWhileD)
    then show ?case using 2 by auto
  qed simp
  then have "\<forall>z\<in>set (positions s). pc_ok I (t # ts) (utf8_chars z) (f z)" using assms(1,2) by blast
  moreover have "sorted_wrt (\<lambda>xs ys. ys \<in> set (tails xs)) (map utf8_chars (positions s))"
    using tails_sorted [of "utf8_chars s"] unfolding positions_chars [symmetric] by (simp add: sorted_wrt_append)
  moreover have "like_match I (PAny # t # ts) (utf8_chars s) \<longleftrightarrow> (\<exists>z\<in>set (positions s). like_match I (t # ts) (utf8_chars z))"
    unfolding match_any positions_chars [symmetric] using assms(3) by auto
  ultimately show ?thesis using pc_ok_search [of "positions s" I "t # ts" f] by blast
qed

lemma parse_lit: "c \<noteq> matchAll I \<Longrightarrow> c \<noteq> matchOne I \<Longrightarrow> c \<noteq> m \<Longrightarrow> like_parse I m (c # cs) = PLit c # like_parse I m cs"
  by simp

lemma parse_set_start:
  assumes "m \<noteq> matchAll I" "matchSet I \<noteq> 0"
  shows "\<exists>t ts. like_parse I m (m # cs) = t # ts \<and> t \<noteq> PAny"
  using assms by (cases "parse_set cs") auto

text \<open>After a wildcard for any sequence.\<close>

lemma compare_any:
  assumes ok: "like_ok I m" and p: "sqlite3Utf8Read p = (c, p1)" "c \<noteq> 0" "c = matchAll I" "0 \<notin> set p" "0 \<notin> set s"
    and IH: "\<And>q z. length q < length p \<Longrightarrow> 0 \<notin> set q \<Longrightarrow> 0 \<notin> set z \<Longrightarrow> pc_ok I (like_parse I m (utf8_chars q)) (utf8_chars z) (patternCompare I m q z)"
  shows "pc_ok I (like_parse I m (utf8_chars p)) (utf8_chars s) (patternCompare I m p s)"
proof -
  have par: "like_parse I m (utf8_chars p) = PAny # like_parse I m (utf8_chars p1)" "0 \<notin> set p1" "length p1 < length p"
    using read_at [OF p(1,4)] p(2,3) read_shorter [OF p(1)] by auto
  note sk = skip_wildcards_spec [OF ok par(2) p(5)]
  show ?thesis
  proof (cases "skip_wildcards I p1 s")
    case None
    then have "patternCompare I m p s = 2" using p by (subst patternCompare.simps) (simp add: Utf8Read_eq)
    then show ?thesis using None sk unfolding par(1) by (intro pc_ok_any) simp_all
  next
    case (Some a)
    obtain c1 pa p2 s1 where a: "a = (c1, pa, p2, s1)" by (cases a) auto
    have ra: "sqlite3Utf8Read pa = (c1, p2)" "0 \<notin> set pa" "0 \<notin> set s1" "c1 = 0 \<or> c1 \<noteq> matchAll I \<and> c1 \<noteq> matchOne I"
      and lm: "like_match I (PAny # like_parse I m (utf8_chars p1)) (utf8_chars s) \<longleftrightarrow> like_match I (PAny # like_parse I m (utf8_chars pa)) (utf8_chars s1)"
      using sk Some a by auto
    have la: "length pa < length p" "length p2 < length p" using skip_wildcards_length [OF Some [unfolded a]] par(3) by auto
    have rd: "c1 = 0 \<and> pa = [] \<or> c1 \<noteq> 0 \<and> utf8_chars pa = c1 # utf8_chars p2 \<and> 0 \<notin> set p2" using read_at [OF ra(1,2)] by auto
    define r where "r = patternCompare I m p s"
    have "r = 0 \<or> r = 2" "r = 0 \<longleftrightarrow> like_match I (PAny # like_parse I m (utf8_chars pa)) (utf8_chars s1)"
    proof -
      consider "c1 = 0" | "c1 \<noteq> 0" "c1 = m" "matchSet I \<noteq> 0" | "c1 \<noteq> 0" "\<not> (c1 = m \<and> matchSet I \<noteq> 0)" by blast
      then have "(r = 0 \<or> r = 2) \<and> (r = 0 \<longleftrightarrow> like_match I (PAny # like_parse I m (utf8_chars pa)) (utf8_chars s1))"
      proof cases
        case 1
        then have "r = 0" unfolding r_def using p Some by (subst patternCompare.simps) (simp add: Utf8Read_eq a)
        moreover have "like_match I (PAny # like_parse I m (utf8_chars pa)) (utf8_chars s1)"
          using rd 1 unfolding match_any by (auto simp: tails_drop intro!: exI [of _ "length (utf8_chars s1)"])
        ultimately show ?thesis by simp
      next
        case 2
        have "r = wild_search (patternCompare I m pa) (positions s1)" unfolding r_def using p Some 2 by (subst patternCompare.simps) (simp add: Utf8Read_eq a)
        moreover obtain t ts where t: "like_parse I m (utf8_chars pa) = t # ts" "t \<noteq> PAny"
          using rd 2 ra(4) parse_set_start [of m I "utf8_chars p2"] by auto
        moreover have "\<forall>z. 0 \<notin> set z \<longrightarrow> pc_ok I (t # ts) (utf8_chars z) (patternCompare I m pa z)" using IH [OF la(1) ra(2)] t(1) by simp
        ultimately show ?thesis using search_set [of I t ts "patternCompare I m pa" s1] ra(3) by auto
      next
        case 3
        obtain c2 p3 where c2: "(if c1 = m then sqlite3Utf8Read p2 else (c1, p2)) = (c2, p3)" by fastforce
        have r: "r = (if c2 = 0 then 2 else wild_search (patternCompare I m p3) (if c2 < 0x80 then after_stops (stop_bytes I c2) s1 else after_char c2 s1))"
          unfolding r_def using p Some 3 c2 by (subst patternCompare.simps) (auto simp: Utf8Read_eq a)
        show ?thesis
        proof (cases "c2 = 0")
          case True
          then have "c1 = m" "p2 = []" using 3 c2 rd read_at [of p2 c2 p3] by (auto split: if_splits)
          then have "like_parse I m (utf8_chars pa) = [PBad]" using rd 3 ra(4) by auto
          then show ?thesis using r True unfolding match_any by (simp add: one_match_def)
        next
          case False
          have p3: "like_parse I m (utf8_chars pa) = PLit c2 # like_parse I m (utf8_chars p3)" "0 \<notin> set p3" "length p3 < length p"
            using False 3 c2 rd ra(4) read_at [of p2 c2 p3] read_le [of p2 c2 p3] la(2) by (auto split: if_splits)
          then have all: "\<forall>z. 0 \<notin> set z \<longrightarrow> pc_ok I (like_parse I m (utf8_chars p3)) (utf8_chars z) (patternCompare I m p3 z)" using IH by blast
          have "wild_search (patternCompare I m p3) (if c2 < 0x80 then after_stops (stop_bytes I c2) s1 else after_char c2 s1) = r" using r False by simp
          from search_lit [OF all ra(3), of c2, unfolded this] show ?thesis unfolding p3(1) by blast
        qed
      qed
      then show "r = 0 \<or> r = 2" "r = 0 \<longleftrightarrow> like_match I (PAny # like_parse I m (utf8_chars pa)) (utf8_chars s1)" by auto
    qed
    then show ?thesis unfolding par(1) r_def [symmetric] using lm by (intro pc_ok_any) simp_all
  qed
qed

lemma compare_ok:
  assumes "like_ok I m" "0 \<notin> set p" "0 \<notin> set s"
  shows "pc_ok I (like_parse I m (utf8_chars p)) (utf8_chars s) (patternCompare I m p s)"
  using assms(2,3)
proof (induction p arbitrary: s rule: length_induct)
  case (1 p)
  have IH: "pc_ok I (like_parse I m (utf8_chars q)) (utf8_chars z) (patternCompare I m q z)" if "length q < length p" "0 \<notin> set q" "0 \<notin> set z" for q z
    using 1(1) that by blast
  obtain c p1 where c: "sqlite3Utf8Read p = (c, p1)" by fastforce
  note rd = read_at [OF c 1(2)]
  obtain x s1 where x: "sqlite3Utf8Read s = (x, s1)" by fastforce
  note sd = read_at [OF x 1(3)]
  consider "c = 0" | "c \<noteq> 0" "c = matchAll I" | "c \<noteq> 0" "c \<noteq> matchAll I" "c = m" "matchSet I \<noteq> 0"
    | "c \<noteq> 0" "c \<noteq> matchAll I" "\<not> (c = m \<and> matchSet I \<noteq> 0)" by blast
  then show ?case
  proof cases
    case 1
    then have "patternCompare I m p s = (if s = [] then 0 else 1)" by (subst patternCompare.simps) (simp add: Utf8Read_eq c)
    then show ?thesis using rd 1 by (auto simp: pc_ok_def chars_Nil)
  next
    case 2
    then show ?thesis using compare_any [OF assms(1) c 2 "1.prems" IH] by blast
  next
    case 3
    have pc: "patternCompare I m p s = (case match_set p1 s of None \<Rightarrow> 1 | Some (q, z) \<Rightarrow> patternCompare I m q z)"
      using 3 by (subst patternCompare.simps) (simp add: Utf8Read_eq c)
    have lp: "length p1 < length p" "0 \<notin> set p1" "utf8_chars p = c # utf8_chars p1" using read_shorter [OF c 3(1)] rd 3(1) by auto
    show ?thesis
    proof (cases "utf8_chars s")
      case Nil
      then have "match_set p1 s = None" using x sd by (simp add: match_set_def)
      then have "patternCompare I m p s = 1" using pc by simp
      moreover obtain t ts where "like_parse I m (utf8_chars p) = t # ts" "t \<noteq> PAny" using parse_set_start [of m I "utf8_chars p1"] 3 lp(3) by auto
      ultimately show ?thesis using Nil pc_ok_fail [of t "[]" I ts] by simp
    next
      case (Cons y ys)
      note ms = match_set_spec [OF lp(2) "1.prems"(2) Cons, of I]
      show ?thesis
      proof (cases "parse_set (utf8_chars p1)")
        case None
        then have "patternCompare I m p s = 1" "like_parse I m (utf8_chars p) = [PBad]" using ms pc 3 lp(3) by auto
        then show ?thesis by (simp add: pc_ok_fail one_match_def)
      next
        case (Some a)
        obtain neg rs ds where a: "a = (neg, rs, ds)" by (cases a) auto
        have par: "like_parse I m (utf8_chars p) = PSet neg rs # like_parse I m ds" using 3 lp(3) Some a by simp
        show ?thesis
        proof (cases "one_match I (PSet neg rs) y")
          case False
          then have "patternCompare I m p s = 1" using ms Some a pc by simp
          then show ?thesis using False Cons unfolding par by (simp add: pc_ok_fail)
        next
          case True
          then obtain q z where q: "match_set p1 s = Some (q, z)" "utf8_chars q = ds" "utf8_chars z = ys" "0 \<notin> set q" "0 \<notin> set z" using ms Some a by auto
          have "pc_ok I (like_parse I m ds) ys (patternCompare I m q z)" using IH [of q z] match_set_length [OF q(1)] lp(1) q by simp
          then show ?thesis using True pc q(1) Cons unfolding par by (simp add: pc_ok_step)
        qed
      qed
    qed
  next
    case 4
    obtain d q where d: "(if c = m then sqlite3Utf8Read p1 else (c, p1)) = (d, q)" by fastforce
    have pc: "patternCompare I m p s = (if d = 0 then 1 else if match_char I d (c = m) x then patternCompare I m q s1 else 1)"
      using 4 d by (subst patternCompare.simps) (auto simp: Utf8Read_eq c x)
    have lp: "length p1 < length p" "0 \<notin> set p1" "utf8_chars p = c # utf8_chars p1" using read_shorter [OF c 4(1)] rd 4(1) by auto
    show ?thesis
    proof (cases "d = 0")
      case True
      then have "c = m" "p1 = []" using 4(1) d read_at [OF _ lp(2), of d q] by (auto split: if_splits)
      then have "like_parse I m (utf8_chars p) = [PBad]" using 4 lp(3) by auto
      then show ?thesis using pc True by (simp add: pc_ok_fail one_match_def)
    next
      case False
      define t where "t = (if c \<noteq> m \<and> c = matchOne I then POne else PLit d)"
      have q: "length q < length p" "0 \<notin> set q" "like_parse I m (utf8_chars p) = t # like_parse I m (utf8_chars q)"
        using False 4 d lp read_at [OF _ lp(2), of d q] read_le [of p1 d q] by (auto simp: t_def split: if_splits)
      have t: "t \<noteq> PAny" "x \<noteq> 0 \<Longrightarrow> match_char I d (c = m) x \<longleftrightarrow> one_match I t x"
        using d match_char_lit [of d I "c = m" x] by (auto simp: t_def one_match_def match_char_def split: if_splits)
      show ?thesis
      proof (cases "x = 0")
        case True
        then have "patternCompare I m p s = 1" using pc False match_char_zero [OF False, of I "c = m"] by simp
        then show ?thesis using True sd t(1) unfolding q(3) by (simp add: pc_ok_fail)
      next
        case xn: False
        then have s: "utf8_chars s = x # utf8_chars s1" "0 \<notin> set s1" using sd by auto
        show ?thesis using t xn pc False IH [OF q(1,2) s(2)] unfolding q(3) s(1)
          by (cases "one_match I t x") (simp_all add: pc_ok_step pc_ok_fail)
      qed
    qed
  qed
qed

section \<open>Properties\<close>

text \<open>The escape character of LIKE: a wildcard that is the escape character is none.\<close>

definition like_escape :: "compareInfo \<Rightarrow> byte list option \<Rightarrow> compareInfo \<times> u32" where
  "like_escape I zEsc =
     (case zEsc of None \<Rightarrow> (I, matchSet I)
      | Some z \<Rightarrow> let e = hd (utf8_chars z)
                  in (I\<lparr>matchAll := if matchAll I = e then 0 else matchAll I, matchOne := if matchOne I = e then 0 else matchOne I\<rparr>, e))"

text \<open>The result of the comparison: 0 is a match; 2 says that none of the later positions of the string matches either, which is what allows the callers to
  give up.\<close>

theorem pattern_compare_result:
  assumes "like_ok I m" "0 \<notin> set p" "0 \<notin> set s"
  shows "(patternCompare I m p s = SQLITE_MATCH \<longleftrightarrow> like_match I (like_parse I m (utf8_chars p)) (utf8_chars s)) \<and> patternCompare I m p s \<le> 2
    \<and> (patternCompare I m p s = SQLITE_NOWILDCARDMATCH \<longrightarrow> (\<forall>k. \<not> like_match I (like_parse I m (utf8_chars p)) (drop k (utf8_chars s))))"
  using compare_ok [OF assms] unfolding pc_ok_def match_any by (simp add: tails_drop Bex_def) blast

lemma like_function_eq:
  assumes "I \<in> {globInfo, likeInfoNorm, likeInfoAlt}" "0 \<notin> set p" "0 \<notin> set s" "nPat \<le> limit"
    "case zEsc of None \<Rightarrow> True | Some z \<Rightarrow> I \<noteq> globInfo \<and> 0 \<notin> set z \<and> length (utf8_chars z) = 1"
  shows "likeFunc limit I nPat (map_option Some zEsc) (Some p) (Some s)
    = (let (J, e) = like_escape I zEsc in Like_Int (like_match J (like_parse J e (utf8_chars p)) (utf8_chars s)))"
proof -
  obtain J e where J: "like_escape I zEsc = (J, e)" by fastforce
  have ok: "like_ok J e" using J assms(1,5)
    by (cases zEsc) (auto simp: like_escape_def like_ok_def globInfo_def likeInfoNorm_def likeInfoAlt_def Let_def split: if_splits)
  have "likeFunc limit I nPat (map_option Some zEsc) (Some p) (Some s) = Like_Int (patternCompare J e p s = 0)"
  proof (cases zEsc)
    case None
    then show ?thesis using J assms(4) by (auto simp: likeFunc_def like_escape_def)
  next
    case (Some z)
    then have z: "length (utf8_chars z) = 1" "0 \<notin> set z" using assms(5) by auto
    have "length (positions z) = 1" using arg_cong [OF positions_chars [of z], of length] z(1) by (cases "utf8_chars z") auto
    moreover have "fst (sqlite3Utf8Read z) = hd (utf8_chars z)" using z(1) by (cases z) auto
    ultimately show ?thesis using J assms(4) Some by (auto simp: likeFunc_def like_escape_def sqlite3Utf8CharLen_def Let_def split: if_splits)
  qed
  then show ?thesis using compare_ok [OF ok assms(2,3)] by (simp add: J pc_ok_def)
qed

text \<open>C40. LIKE and GLOB are exact: for each of the three variants, with or without an ESCAPE character, the SQL function returns true exactly if the characters
  of the string match the tokens of the pattern, whatever wildcards, sets, escapes and malformed UTF-8 it has; the early exits of the search lose no match.\<close>

theorem like_function_exact:
  assumes "I \<in> {globInfo, likeInfoNorm, likeInfoAlt}" "0 \<notin> set p" "0 \<notin> set s" "nPat \<le> limit"
    "case zEsc of None \<Rightarrow> True | Some z \<Rightarrow> I \<noteq> globInfo \<and> 0 \<notin> set z \<and> length (utf8_chars z) = 1"
  shows "likeFunc limit I nPat (map_option Some zEsc) (Some p) (Some s)
    = (let (J, e) = like_escape I zEsc in Like_Int (like_match J (like_parse J e (utf8_chars p)) (utf8_chars s)))"
  by (rule like_function_eq [OF assms])

text \<open>\<open>'aXc%d' LIKE '%x_\%_' ESCAPE '\'\<close>.\<close>

theorem like_function_exact_witness:
  "likeFunc 50000 likeInfoNorm 6 (map_option Some (Some [0x5c])) (Some [0x25, 0x78, 0x5f, 0x5c, 0x25, 0x5f]) (Some [0x61, 0x58, 0x63, 0x25, 0x64]) = Like_Int True"
proof -
  have "(case Some [0x5c] of None \<Rightarrow> True | Some z \<Rightarrow> likeInfoNorm \<noteq> globInfo \<and> (0 :: byte) \<notin> set z \<and> length (utf8_chars z) = 1)" by code_simp
  from like_function_exact [OF _ _ _ _ this, of "[0x25, 0x78, 0x5f, 0x5c, 0x25, 0x5f]" "[0x61, 0x58, 0x63, 0x25, 0x64]" 6 50000]
  have "likeFunc 50000 likeInfoNorm 6 (map_option Some (Some [0x5c])) (Some [0x25, 0x78, 0x5f, 0x5c, 0x25, 0x5f]) (Some [0x61, 0x58, 0x63, 0x25, 0x64])
    = (let (J, e) = like_escape likeInfoNorm (Some [0x5c])
       in Like_Int (like_match J (like_parse J e (utf8_chars [0x25, 0x78, 0x5f, 0x5c, 0x25, 0x5f])) (utf8_chars [0x61, 0x58, 0x63, 0x25, 0x64])))" by simp
  also have "\<dots> = Like_Int True" by code_simp
  finally show ?thesis .
qed

text \<open>\<open>sqlite3_strlike\<close> does not clear the wildcard as \<open>likeFunc\<close> does when it is the escape character: with \<open>_\<close> as the escape character the pattern \<open>__\<close> is
  an underscore, yet behind a \<open>%\<close> it is two wildcards.\<close>

theorem strlike_underscore_escape:
  "sqlite3_strlike (Some [0x5f, 0x5f]) (Some [0x61, 0x62]) 0x5f \<noteq> 0 \<and> sqlite3_strlike (Some [0x5f, 0x5f]) (Some [0x5f]) 0x5f = 0
    \<and> sqlite3_strlike (Some [0x25, 0x5f, 0x5f]) (Some [0x61, 0x62]) 0x5f = 0 \<and> sqlite3_strlike (Some [0x25, 0x5f, 0x5f]) (Some [0x5f]) 0x5f \<noteq> 0"
  by code_simp

end
