(* ===== verification/Spec2Isabelle.thy ===== *)
theory Spec2Isabelle
  imports Codec_Frozen Lifecycle Util_Hash Row_Set Bit_Vec Wal_Checkpoint Pager_Transaction Mem_Journal Like_Glob
begin

text \<open>
  \<^bold>\<open>A verification development of SQLCipher 4.10 and the parts of SQLite it rests on.\<close>

  The repository is a Node.js application whose databases are encrypted by SQLCipher, kept with its C sources
  under \<open>sqlcipher-4.10.0\<close>. SQLCipher is a codec inside SQLite: the pager hands every page to \<open>sqlite3Codec\<close>
  (\<open>src/sqlcipher.c\<close>) when it is read from or written to the file, and the codec encrypts, decrypts and authenticates it with keys
  derived from the passphrase that \<open>sqlite3_key\<close> stored. The development models that C code and proves what its parts promise.

  \<^bold>\<open>Theories.\<close>
  \<^item> \<open>Sc_Prelude\<close>: machine types, result codes, byte buffers (\<open>buf_read\<close>, \<open>buf_write\<close>, the collection \<open>buf_simps\<close>), lemmas on words.
  \<^item> \<open>Cipher_Util\<close>: hexadecimal key material, the shield mask, comparison and overwriting of memory, the xoshiro generator.
  \<^item> \<open>Private_Heap\<close>: the allocator for secrets: \<open>sqlcipher_malloc\<close> and \<open>sqlcipher_free\<close> on a list of blocks with addresses,
    the creation of the heap. The locale \<open>block_allocator\<close> is the contract its clients rely on, interpreted on the two search loops.
  \<^item> \<open>Codec_Ctx\<close>: \<open>cipher_ctx\<close> and \<open>codec_ctx\<close>, their construction, copy, release and setters.
  \<^item> \<open>Codec_Page\<close>: \<open>sqlcipher_page_hmac\<close> and \<open>sqlcipher_page_cipher\<close>. The cryptographic provider is a record of functions;
    \<open>provider_ok\<close> states what the code relies on (lengths, and that decryption undoes encryption).
  \<^item> \<open>Codec_Key\<close>: key derivation, raw keys and key specifications.
  \<^item> \<open>Codec_Callback\<close>: \<open>sqlite3Codec\<close>, the entry point of the pager, for reading, writing and journal pages.
  \<^item> \<open>Codec_Setup\<close>: what \<open>sqlcipher_codec_ctx_init\<close> and the setters guarantee.
  \<^item> \<open>Codec_Api\<close>: \<open>sqlite3_key\<close>, \<open>sqlite3_rekey\<close>, \<open>sqlcipherCodecAttach\<close>, \<open>sqlcipherCodecGetKey\<close>, the integrity check, and
    the setters of \<open>src/btree.c\<close> and \<open>src/pager.c\<close> they call.
  \<^item> \<open>Codec_Pragma\<close> and \<open>Codec_Settings\<close>: the configuration pragmas, one definition each, and what they do to the parameters of a codec.
    \<open>Codec_Frozen\<close>: what they cannot change any more once the key has been used.
  \<^item> \<open>Lifecycle\<close>: \<open>sqlcipher_extra_init\<close>, \<open>sqlcipher_extra_shutdown\<close> and the provider list, with the step relation of the
    histories they form.
  \<^item> \<open>Util_Varint\<close>, \<open>Util_Text\<close>, \<open>Util_Int\<close>: the routines of \<open>src/util.c\<close> for variable-length integers, text and numbers.
  \<^item> \<open>Util_Utf8\<close>, \<open>Like_Glob\<close>: reading and writing of UTF-8 characters (\<open>src/utf.c\<close>), and the operators LIKE and GLOB (\<open>patternCompare\<close> and
    \<open>likeFunc\<close> of \<open>src/func.c\<close>) against the meaning of a pattern as a list of tokens.
  \<^item> \<open>Util_Hash\<close>: the hash table of \<open>src/hash.c\<close>, which keeps the schema's names. The locale \<open>name_store\<close> is what its users rely on,
    interpreted as \<open>hs\<close> on \<open>sqlite3HashInsert\<close> and \<open>sqlite3HashFind\<close>.
  \<^item> \<open>Row_Set\<close>: the row sets of \<open>src/rowset.c\<close>, as a sorted list and as a forest of balanced trees (locale \<open>batch_set\<close>, interpretation \<open>rs\<close>).
  \<^item> \<open>Bit_Vec\<close>: the bit vectors of \<open>src/bitvec.c\<close> in their three representations (locale \<open>index_set\<close>, interpretation \<open>bv\<close>). \<open>Ring_Table\<close> has the
    lemmas on probe sequences that it shares with \<open>Wal_Index\<close>.
  \<^item> \<open>Wal_Index\<close>: the index of the write-ahead log (\<open>src/wal.c\<close>): \<open>walIndexAppend\<close>, \<open>walFindFrame\<close>, \<open>walCleanupHash\<close>, savepoints and rollback. The
    locale \<open>page_log\<close> is the log as its readers and writers see it, interpreted as \<open>wl\<close>.
  \<^item> \<open>Wal_Frame\<close>: checksum, frame header and file header of the log.
  \<^item> \<open>Wal_Recover\<close>: \<open>walIndexRecover\<close>, from the bytes of the file to the index.
  \<^item> \<open>Wal_Iterator\<close>, \<open>Wal_Checkpoint\<close>: the merge sort and iterator over the pages of the log, and \<open>walCheckpoint\<close> with the read marks of
    the concurrent readers.
  \<^item> \<open>Pager_Journal\<close>: the rollback journal of \<open>src/pager.c\<close>: \<open>writeJournalHdr\<close>, \<open>pagerAddPageToRollbackJournal\<close>, \<open>syncJournal\<close>, the super-journal name, and
    \<open>pager_playback\<close> of a hot journal.
  \<^item> \<open>Pager_Transaction\<close>: the states of the journal over a transaction (step relation \<open>jrun\<close>) and from there to the rollback. The locale \<open>undo_log\<close> is what a
    rollback promises to the one that is tried after it, interpreted as \<open>pb\<close> on \<open>pager_playback\<close>.
  \<^item> \<open>Mem_Journal\<close>: the journal in memory (\<open>src/memjournal.c\<close>), its chunks, cursors and its move to a real file.

  \<^bold>\<open>State and effects.\<close> Every operation is a function on explicit state. The records extend one another as the code's globals
  do: \<open>heap_state\<close> (the private heap and its statistics), \<open>sc_state\<close> (the defaults and the B-trees the codec sees),
  \<open>api_state\<close> (the codec of each pager), \<open>pragma_state\<close> (log settings and result rows), and \<open>life_state\<close> for start-up. A pointer to
  secret memory is a \<open>heap_buf option\<close>; result codes are integers. The platform allocator, the files, the provider and the
  transaction operations of \<open>sqlite3_rekey_v2\<close> are parameters, so that every error they can report is covered. Where the C code would
  access memory through NULL the model returns \<open>None\<close>.

  \<^bold>\<open>What is shown.\<close> Pages round-trip through the cipher, a page that fails authentication is never delivered, and every failure wipes
  the output; a page written by the callback can be read back, and errors leave the pager in its error state. Derived keys and key
  specifications agree; a derivation that fails with a passphrase set leaves only random bytes (one without a passphrase touches nothing). The private heap keeps its blocks apart and gives out zeroed,
  aligned, disjoint memory within its bounds. Construction yields well-formed contexts. Once a key was used no pragma but \<open>cipher_migrate\<close> changes the key or the parameters it was derived with; the size of the plaintext
  header, the byte order of the page number and the salt mask have no such guard. Attaching a codec ends in one of the listed ways, errors included; a re-key whose rewriting fails is rolled back but reported as success. The integrity
  check of a file of at most 4 GiB reports exactly the bad pages, in order and by number. Settings printed by one database configure another
  identically, but for a plaintext header that does not fit on the way. Start-up and shut-down keep the invariant of the library's globals in every history, and shut-down gives back exactly the memory that the library owns. Varints, numbers, characters and quoted text
  round-trip; LIKE and GLOB are exact although their search gives up early; the unrolled decoder refines the file format. The hash table is a map on case-folded names, the row set and the bit vector are
  sets, also when memory runs out where the code claims so. The search of the log finds the newest frame after every history of writes and rollbacks;
  recovery restores exactly the committed frames of whatever file a crash left; a checkpoint, however it fails, changes no page within the snapshot of a reader that holds a read mark, nor what a new reader sees, and
  recovery with a checkpoint brings the last committed content of every page into the database. The rollback journal, once synced, restores the database
  from every damage to recorded pages, provided that the bytes a crash leaves behind it do not look like a further header and that the journal is not shorter than a sector of the reader, and however many rollbacks fail on the way; a journal in memory
  answers as a file does, also when it moves to disk, as long as writes reach the end of the file or stay in the first chunk at its beginning. Some theorems state where the code departs
  from its intention.

  \<^bold>\<open>Recursion and bounds.\<close> Loops over data are structural or have a termination proof; loops along \<open>next\<close> pointers are partial
  functions, and their return is proved from the invariant, as is that of the loop over the headers of a journal from its format. The loop of the checkpoint ends because page numbers ascend. \<open>bv_set\<close> counts the levels of
  a bit vector down from five, enough for every size below \<open>2 ^ 32\<close>; the sort of a row set has 40 buckets, as in the code, and returns \<open>None\<close> beyond
  them. Sizes are those of a 64-bit build
  (\<open>sizeof(private_block)\<close> 16, \<open>sizeof(cipher_ctx)\<close> 32, \<open>sizeof(codec_ctx)\<close> 128 and \<open>sizeof(sqlcipher_provider)\<close> 144, which only reach
  the allocator); the constants of \<open>sqlcipher.h\<close> and \<open>sqliteInt.h\<close> are taken as they are.

  \<^bold>\<open>Not modelled.\<close> Mutexes and logging (they serialise and report only), the providers' own code, the page cache, locks and
  savepoints of the pager, the B-tree and the virtual machine beyond the fields the codec touches, the locking protocol of the log (a lock is the result code it returns) and the
  syncing and padding of its file, the SQL front end, \<open>sqlcipher_codec_ctx_migrate\<close> and
  \<open>sqlcipher_exportFunc\<close> (they run SQL), the extensions, the test harness, and the JavaScript application.
\<close>

section \<open>Properties\<close>

text \<open>C33. If the shield mask cannot be allocated during start-up, \<open>sqlcipher_extra_init\<close> returns \<open>SQLITE_OK\<close> although the
  library stays uninitialised, with \<open>SQLITE_OK\<close> as the recorded error; from then on \<open>sqlite3_key\<close> returns
  \<open>SQLITE_OK\<close> for every database and every key and does nothing: no codec is attached and the database is not encrypted.\<close>

theorem uninitialised_attach_reports_ok:
  assumes "life_start st" "\<And>i. le_mutex env i"
    and "sqlite3_malloc (le_malloc env) (private_heap_sz st) (sys_live st) = Some a"
    and "PRIVATE_HEAP_SIZE_STEP \<le> private_heap_sz st" "private_heap_sz st < 2 ^ 31"
    and "le_prov_init env (a + 16) = None" "le_ctx_init env = SQLITE_OK" "fst (le_seed env) = SQLITE_OK"
    and "sqlite3_malloc (le_malloc env) SHIELD_MASK_SZ (a # sys_live st) = None"
  shows "\<exists>st'. sqlcipher_extra_init env st = Some (SQLITE_OK, st') \<and> \<not> lf_init st'
    \<and> (\<forall>(api :: ('p, 'a) api_state_scheme) e db pKey nKey.
         sqlcipher_init api = lf_init st' \<and> sqlcipher_init_error api = lf_init_error st'
         \<longrightarrow> sqlite3_key e db pKey nKey api = Some (SQLITE_OK, Some db, api))"
proof -
  obtain st' where "sqlcipher_extra_init env st = Some (SQLITE_OK, st')" "\<not> lf_init st'" "lf_init_error st' = SQLITE_OK"
    using init_mask_nomem [of st env a] assms by (auto simp: life_start_def)
  then show ?thesis by (auto simp: sqlite3_key_def sqlite3_key_v2_def sqlcipherCodecAttach_def)
qed

theorem uninitialised_attach_reports_ok_witness:
  "\<exists>st'. sqlcipher_extra_init (sample_life_env\<lparr>le_malloc := \<lambda>live n. if live = [] then Some 8192 else None\<rparr>) sample_life
      = Some (SQLITE_OK, st') \<and> \<not> lf_init st'
    \<and> (\<forall>(api :: unit api_state) e db pKey nKey.
         sqlcipher_init api = lf_init st' \<and> sqlcipher_init_error api = lf_init_error st'
         \<longrightarrow> sqlite3_key e db pKey nKey api = Some (SQLITE_OK, Some db, api))"
  by (rule uninitialised_attach_reports_ok [where a = 8192], simp_all add: sample_life_start)
    (simp_all add: sample_life_def sample_life_env_def sample_heap_state_def sqlite3_malloc_def heap_state.defs)

end
